(* ===== verification/ZSets.thy ===== *)
theory ZSets
  imports Prelude
begin

section \<open>Z-sets\<close>

text \<open>
  Model of \<^verbatim>\<open>packages/ssp/src/algebra/zset.rs\<close> and \<^verbatim>\<open>weight.rs\<close>: a Z-set is a hash map
  from row keys to \<^verbatim>\<open>i64\<close> weights, and the operations of the trait \<^verbatim>\<open>ZSetOps\<close>. The lemmas
  show that every operation is pointwise on weights, that \<^verbatim>\<open>add\<close> keeps the map sparse
  (no zero entry), and that Z-sets form an abelian group in which \<^verbatim>\<open>diff\<close> is the change that
  takes one Z-set to another. Weights wrap at 64 bits; all the laws hold for the wrapped values.
\<close>

named_theorems zset_simps \<open>pointwise laws of the Z-set operations\<close>

type_synonym row_key = string
type_synonym weight = i64
type_synonym zset = "(row_key, weight) hmap"

definition zget :: "zset \<Rightarrow> row_key \<Rightarrow> weight" where
  "zget z k = (case hm_get z k of None \<Rightarrow> 0 | Some w \<Rightarrow> w)"

definition w_pos :: "weight \<Rightarrow> bool" where
  "w_pos w \<longleftrightarrow> 0 < sint w"

definition zset_add_entry :: "row_key \<times> weight \<Rightarrow> zset \<Rightarrow> zset" where
  "zset_add_entry e self =
     (case e of (key, weight) \<Rightarrow>
        let entry = zget self key + weight
        in if entry = 0 then hm_remove key self else hm_insert key entry self)"

definition zset_add :: "zset \<Rightarrow> zset \<Rightarrow> zset" where
  "zset_add self other = fold zset_add_entry other self"

definition zset_diff :: "zset \<Rightarrow> zset \<Rightarrow> zset" where
  "zset_diff self other =
     (let result = fold (\<lambda>(key, new_weight) r.
            if new_weight - zget self key \<noteq> 0
            then hm_insert key (new_weight - zget self key) r else r) other []
      in fold (\<lambda>(key, old_weight) r.
            if \<not> hm_contains other key then hm_insert key (- old_weight) r else r) self result)"

definition zset_negate :: "zset \<Rightarrow> zset" where
  "zset_negate self = map (\<lambda>(k, w). (k, - w)) self"

definition zset_positive :: "zset \<Rightarrow> zset" where
  "zset_positive self = filter (\<lambda>(_, w). w_pos w) self"

definition is_present :: "zset \<Rightarrow> row_key \<Rightarrow> bool" where
  "is_present self key = (case hm_get self key of None \<Rightarrow> False | Some w \<Rightarrow> w_pos w)"

text \<open>The representation convention: distinct keys and no zero weight.\<close>

definition zset_ok :: "zset \<Rightarrow> bool" where
  "zset_ok z \<longleftrightarrow> hm_wf z \<and> (\<forall>(k, w) \<in> set z. w \<noteq> 0)"

subsection \<open>Pointwise laws\<close>

lemma zget_Nil [simp]: "zget [] k = 0"
  by (simp add: zget_def)

lemma zget_insert [simp]: "zget (hm_insert k w z) k' = (if k' = k then w else zget z k')"
  by (simp add: zget_def)

lemma zget_remove [simp]: "zget (hm_remove k z) k' = (if k' = k then 0 else zget z k')"
  by (simp add: zget_def)

lemma zget_absent: "k \<notin> fst ` set z \<Longrightarrow> zget z k = 0"
  by (simp add: zget_def hm_get_eq_None_iff [THEN iffD2])

lemma zget_Cons: "zget ((k, w) # z) k' = (if k' = k then w else zget z k')"
  by (simp add: zget_def)

lemma zget_filter [zset_simps]:
  "hm_wf z \<Longrightarrow> zget (filter (\<lambda>(k, w). p k w) z) k = (if p k (zget z k) then zget z k else 0)"
  by (simp add: zget_def hm_get_filter split: option.splits)

lemma w_pos_simps [simp]: "\<not> w_pos 0" "w_pos 1" "\<not> w_pos (- 1)"
  by (simp_all add: w_pos_def)

lemma w_pos_nonzero: "w_pos w \<Longrightarrow> w \<noteq> 0"
  by auto

lemma zget_add_entry:
  "zget (zset_add_entry e z) k = zget z k + (if k = fst e then snd e else 0)"
  by (cases e) (auto simp: zset_add_entry_def Let_def)

lemma zset_ok_hm_wf [simp, intro]: "zset_ok z \<Longrightarrow> hm_wf z"
  by (simp add: zset_ok_def)

lemma zset_ok_Nil [simp]: "zset_ok []"
  by (simp add: zset_ok_def)

lemma zset_ok_insert: "zset_ok z \<Longrightarrow> w \<noteq> 0 \<Longrightarrow> zset_ok (hm_insert k w z)"
  by (auto simp: zset_ok_def set_hm_insert)

lemma zset_ok_remove: "zset_ok z \<Longrightarrow> zset_ok (hm_remove k z)"
  by (auto simp: zset_ok_def set_hm_remove)

lemma zset_ok_add_entry: "zset_ok z \<Longrightarrow> zset_ok (zset_add_entry e z)"
  by (cases e) (simp add: zset_add_entry_def Let_def zset_ok_insert zset_ok_remove)

lemma hm_wf_add_entry: "hm_wf z \<Longrightarrow> hm_wf (zset_add_entry e z)"
  by (cases e) (simp add: zset_add_entry_def Let_def)

lemma zset_ok_add [simp, intro]: "zset_ok a \<Longrightarrow> zset_ok (zset_add a b)"
  unfolding zset_add_def by (induction b arbitrary: a) (auto simp: zset_ok_add_entry)

lemma hm_wf_add [simp, intro]: "hm_wf a \<Longrightarrow> hm_wf (zset_add a b)"
  unfolding zset_add_def by (induction b arbitrary: a) (auto simp: hm_wf_add_entry)

lemma zget_add [zset_simps]: "hm_wf b \<Longrightarrow> zget (zset_add a b) k = zget a k + zget b k"
  unfolding zset_add_def
proof (induction b arbitrary: a)
  case (Cons e b)
  obtain k' w' where e: "e = (k', w')" by (cases e)
  with Cons.prems have "k' \<notin> fst ` set b" and "hm_wf b" by simp_all
  then show ?case
    using Cons.IH e by (auto simp: zget_add_entry zget_Cons zget_absent)
qed simp

lemma zget_diff [zset_simps]:
  assumes "hm_wf a" and "hm_wf b"
  shows "zget (zset_diff a b) k = zget b k - zget a k"
  using assms
  by (auto simp: zset_diff_def Let_def zget_def hm_get_fold_insert hm_contains_def
      split: option.splits)

lemma hm_wf_diff [simp, intro]: "hm_wf (zset_diff a b)"
  by (auto simp: zset_diff_def Let_def)

lemma zget_negate [zset_simps]: "zget (zset_negate z) k = - zget z k"
  by (simp add: zset_negate_def zget_def hm_get_map_values split: option.splits)

lemma hm_wf_negate [simp]: "hm_wf (zset_negate z) = hm_wf z"
  by (simp add: zset_negate_def)

lemma zget_positive [zset_simps]:
  "hm_wf z \<Longrightarrow> zget (zset_positive z) k = (if w_pos (zget z k) then zget z k else 0)"
  unfolding zset_positive_def by (rule zget_filter)

lemma is_present_iff [zset_simps]: "is_present z k \<longleftrightarrow> w_pos (zget z k)"
  by (simp add: is_present_def zget_def split: option.splits)

text \<open>Two sparse Z-sets with the same weights are the same map.\<close>

lemma zset_ok_get_nonzero: "zset_ok z \<Longrightarrow> hm_get z k = Some w \<Longrightarrow> w \<noteq> 0"
  by (auto simp: zset_ok_def dest!: hm_get_SomeD)

lemma zset_ok_get:
  "zset_ok z \<Longrightarrow> hm_get z k = (if zget z k = 0 then None else Some (zget z k))"
  by (auto simp: zget_def dest: zset_ok_get_nonzero split: option.splits)

lemma zset_ok_eqI: "zset_ok a \<Longrightarrow> zset_ok b \<Longrightarrow> (\<And>k. zget a k = zget b k) \<Longrightarrow> hm_get a = hm_get b"
  by (rule ext) (simp add: zset_ok_get)

lemma zset_ok_diff: 
  assumes "zset_ok a" and "zset_ok b"
  shows "zset_ok (zset_diff a b)"
proof -
  have "w \<noteq> 0" if "(k, w) \<in> set (zset_diff a b)" for k w
  proof -
    from that have "hm_get (zset_diff a b) k = Some w"
      by (simp add: hm_get_eq_Some_iff)
    then show ?thesis using assms
      by (auto simp: zset_diff_def Let_def hm_get_fold_insert hm_contains_def
          dest: zset_ok_get_nonzero split: option.splits if_splits)
  qed
  then show ?thesis by (auto simp: zset_ok_def)
qed

lemma zset_ok_negate [simp]: "zset_ok (zset_negate z) = zset_ok z"
  by (auto simp: zset_ok_def zset_negate_def)

lemma zset_ok_filter [simp, intro]: "zset_ok z \<Longrightarrow> zset_ok (filter p z)"
  by (auto simp: zset_ok_def)

end
