(* ===== verification/Keys.thy ===== *)
theory Keys
  imports ZSets
begin

section \<open>Row keys, query ids and field paths\<close>

text \<open>
  Model of \<^verbatim>\<open>packages/ssp/src/types/key.rs\<close>, \<^verbatim>\<open>types/path.rs\<close> and of
  \<^verbatim>\<open>canonical_query_id\<close> in \<^verbatim>\<open>lib.rs\<close>. A row key is \<^verbatim>\<open>table:raw_id\<close>, a path is a list of
  segments printed with dots. The lemmas are the round trips the store relies on: a key parses
  back to the table and the raw id it was made from, and both spellings of a query id
  normalise to one.
\<close>

definition raw_id :: "string \<Rightarrow> string" where
  "raw_id i = (case split_once CHR '':'' i of Some (_, rest) \<Rightarrow> rest | None \<Rightarrow> i)"

definition make_key :: "string \<Rightarrow> string \<Rightarrow> row_key" where
  "make_key table i =
     (let raw = (case split_once CHR '':'' i of Some (_, rest) \<Rightarrow> rest | None \<Rightarrow> i)
      in table @ CHR '':'' # raw)"

definition parse_key :: "string \<Rightarrow> (string \<times> string) option" where
  "parse_key key = split_once CHR '':'' key"

definition canonical_query_id :: "string \<Rightarrow> string" where
  "canonical_query_id i = last (split_on CHR '':'' i)"

type_synonym path = "string list"

definition path_new :: "string \<Rightarrow> path" where
  "path_new s = (if s = [] then [] else split_on CHR ''.'' s)"

definition path_as_str :: "path \<Rightarrow> string" where
  "path_as_str p = join_with CHR ''.'' p"

subsection \<open>Keys\<close>

lemma make_key_eq: "make_key t i = t @ CHR '':'' # raw_id i"
  by (simp add: make_key_def raw_id_def)

lemma raw_id_no_colon [simp]: "CHR '':'' \<notin> set i \<Longrightarrow> raw_id i = i"
  by (simp add: raw_id_def split_once_None [THEN iffD2])

lemma raw_id_key [simp]: "CHR '':'' \<notin> set t \<Longrightarrow> raw_id (t @ CHR '':'' # r) = r"
  by (simp add: raw_id_def split_once_append)

lemma raw_id_make_key [simp]: "CHR '':'' \<notin> set t \<Longrightarrow> raw_id (make_key t i) = raw_id i"
  by (simp add: make_key_eq)

lemma parse_key_make_key [simp]:
  "CHR '':'' \<notin> set t \<Longrightarrow> parse_key (make_key t i) = Some (t, raw_id i)"
  by (simp add: parse_key_def make_key_eq split_once_append)

lemma make_key_inject:
  assumes "CHR '':'' \<notin> set t" and "CHR '':'' \<notin> set u"
  shows "make_key t i = make_key u j \<longleftrightarrow> t = u \<and> raw_id i = raw_id j"
proof
  assume "make_key t i = make_key u j"
  then have "parse_key (make_key t i) = parse_key (make_key u j)" by simp
  with assms show "t = u \<and> raw_id i = raw_id j" by simp
qed (simp add: make_key_eq)

text \<open>
  A row key built from a table name without a colon parses back to that table and to the
  raw id, whichever of the two spellings (\<^verbatim>\<open>id\<close> or \<^verbatim>\<open>table:id\<close>) the id came in, and
  two keys are equal exactly when table and raw id agree.
\<close>

theorem row_key_round_trip:
  assumes "CHR '':'' \<notin> set t" and "CHR '':'' \<notin> set u" and "CHR '':'' \<notin> set i"
  shows "parse_key (make_key t i) = Some (t, i)
    \<and> make_key t (u @ CHR '':'' # i) = make_key t i
    \<and> make_key t (make_key u j) = make_key t j
    \<and> (make_key t j = make_key u j' \<longleftrightarrow> t = u \<and> raw_id j = raw_id j')"
  using assms by (simp add: make_key_inject)

theorem row_key_round_trip_witness:
  "parse_key (make_key ''user'' ''abc'') = Some (''user'', ''abc'') \<and>
   make_key ''user'' (''user'' @ CHR '':'' # ''abc'') = make_key ''user'' ''abc''"
  using row_key_round_trip [of "''user''" "''user''" "''abc''"] by simp

subsection \<open>Query ids\<close>

lemma last_split_on_no_sep: "c \<notin> set (last (split_on c s))"
  by (induction s) (auto split: list.split)

lemma last_split_on_append: "last (split_on c (a @ c # b)) = last (split_on c b)"
proof (induction a)
  case (Cons x a)
  obtain y ys where "split_on c (a @ c # b) = y # ys"
    by (cases "split_on c (a @ c # b)") auto
  moreover have "ys \<noteq> []" if "x \<noteq> c"
  proof
    assume "ys = []"
    with calculation have "join_with c (split_on c (a @ c # b)) = y" by simp
    then have "y = a @ c # b" by simp
    with calculation \<open>ys = []\<close> have "c \<in> set (last (split_on c (a @ c # b)))" by simp
    then show False using last_split_on_no_sep by metis
  qed
  ultimately show ?case using Cons by auto
qed simp

text \<open>
  The canonical query id is idempotent, never holds a colon, and is the same for the
  spelling a live client sends (\<^verbatim>\<open>_00_query:<hash>\<close>) and for the bare \<^verbatim>\<open><hash>\<close> of the
  database paths.
\<close>

theorem canonical_query_id_normal:
  "canonical_query_id (canonical_query_id q) = canonical_query_id q
   \<and> CHR '':'' \<notin> set (canonical_query_id q)
   \<and> canonical_query_id (''_00_query'' @ CHR '':'' # q) = canonical_query_id q"
  by (simp add: canonical_query_id_def last_split_on_no_sep split_on_absent
      last_split_on_append del: split_on.simps append_Cons)

lemma canonical_query_id_idem [simp]:
  "canonical_query_id (canonical_query_id q) = canonical_query_id q"
  by (simp add: canonical_query_id_def last_split_on_no_sep split_on_absent)

subsection \<open>Paths\<close>

text \<open>
  Paths print and parse back: every string survives \<^verbatim>\<open>Path::new\<close> then \<^verbatim>\<open>as_str\<close>,
  and every path whose segments hold no dot survives the other direction, the one-segment path
  with an empty name excepted, which prints as the empty string and comes back as the empty path.
\<close>

theorem path_round_trip:
  "path_as_str (path_new s) = s
   \<and> ((\<forall>x \<in> set p. CHR ''.'' \<notin> set x) \<longrightarrow> p \<noteq> [''''] \<longrightarrow> path_new (path_as_str p) = p)"
proof -
  have "path_new (path_as_str p) = p"
    if "\<forall>x \<in> set p. CHR ''.'' \<notin> set x" and "p \<noteq> ['''']"
  proof (cases "p = []")
    case False
    with that have "split_on CHR ''.'' (path_as_str p) = p"
      by (simp add: path_as_str_def split_join_with)
    moreover have "path_as_str p \<noteq> []"
      using calculation that by auto
    ultimately show ?thesis by (simp add: path_new_def)
  qed (simp add: path_new_def path_as_str_def)
  then show ?thesis by (simp add: path_new_def path_as_str_def)
qed

theorem path_round_trip_witness:
  "path_new (path_as_str [''address'', ''city'']) = [''address'', ''city'']"
  using path_round_trip [of "''''" "[''address'', ''city'']"] by simp

end
