(* ===== verification/Floats.thy ===== *)
theory Floats
  imports Prelude
begin

section \<open>Double precision numbers as bit patterns\<close>

text \<open>
  Rust's \<^verbatim>\<open>f64\<close> is its IEEE 754 bit pattern, a \<open>64 word\<close>: one sign bit, eleven exponent
  bits, fifty-two mantissa bits. The circuit uses four operations of it, all modelled on the
  bits: \<^verbatim>\<open>is_nan\<close> and \<^verbatim>\<open>is_finite\<close>, the partial order \<^verbatim>\<open>partial_cmp\<close> (a NaN compares with
  nothing, the two zeros are equal), the total order \<^verbatim>\<open>total_cmp\<close> and the conversions
  \<^verbatim>\<open>i64 as f64\<close> and \<^verbatim>\<open>u64 as f64\<close>, which round to nearest, ties to even.
  The lemmas: \<^verbatim>\<open>total_cmp\<close> is a total order on bit patterns, and the conversion is strictly
  monotone on the integers below \<open>2 ^ 53\<close>, where it is exact.
\<close>

unbundle bit_operations_syntax

type_synonym f64 = "64 word"

datatype ordering = Less | Equal | Greater

fun ordering_reverse :: "ordering \<Rightarrow> ordering" where
  "ordering_reverse Less = Greater"
| "ordering_reverse Equal = Equal"
| "ordering_reverse Greater = Less"

definition cmp :: "'a::linorder \<Rightarrow> 'a \<Rightarrow> ordering" where
  "cmp a b = (if a < b then Less else if a = b then Equal else Greater)"

lemma cmp_simps [simp]:
  "cmp a b = Less \<longleftrightarrow> a < b" "cmp a b = Equal \<longleftrightarrow> a = b" "cmp a b = Greater \<longleftrightarrow> b < a"
  by (auto simp: cmp_def)

lemma cmp_refl [simp]: "cmp a a = Equal"
  by simp

lemma ordering_reverse_cmp: "ordering_reverse (cmp a b) = cmp b a"
  by (auto simp: cmp_def)

lemma ordering_reverse_invol [simp]: "ordering_reverse (ordering_reverse c) = c"
  by (cases c) simp_all

lemma ordering_reverse_eq_iff [simp]:
  "ordering_reverse c = Less \<longleftrightarrow> c = Greater"
  "ordering_reverse c = Equal \<longleftrightarrow> c = Equal"
  "ordering_reverse c = Greater \<longleftrightarrow> c = Less"
  by (cases c; simp)+

subsection \<open>Bits\<close>

definition f64_magnitude :: "f64 \<Rightarrow> int" where
  "f64_magnitude f = uint f mod 2 ^ 63"

definition f64_negative :: "f64 \<Rightarrow> bool" where
  "f64_negative f \<longleftrightarrow> 2 ^ 63 \<le> uint f"

definition f64_is_nan :: "f64 \<Rightarrow> bool" where
  "f64_is_nan f \<longleftrightarrow> 2047 * 2 ^ 52 < f64_magnitude f"

definition f64_is_finite :: "f64 \<Rightarrow> bool" where
  "f64_is_finite f \<longleftrightarrow> f64_magnitude f < 2047 * 2 ^ 52"

text \<open>
  The position of a number on the line of all doubles: magnitudes are ordered as their bit
  patterns are, negative numbers mirror them, and both zeros are at 0.
\<close>

definition f64_rank :: "f64 \<Rightarrow> int" where
  "f64_rank f = (if f64_negative f then - f64_magnitude f else f64_magnitude f)"

definition f64_partial_cmp :: "f64 \<Rightarrow> f64 \<Rightarrow> ordering option" where
  "f64_partial_cmp a b =
     (if f64_is_nan a \<or> f64_is_nan b then None else Some (cmp (f64_rank a) (f64_rank b)))"

text \<open>
  \<^verbatim>\<open>total_cmp\<close> compares the bit patterns as signed integers after flipping the lower
  63 bits of the negative ones, as the standard library does.
\<close>

definition f64_total_key :: "f64 \<Rightarrow> int" where
  "f64_total_key f =
     (if f64_negative f then - f64_magnitude f - 1 else f64_magnitude f)"

definition f64_total_cmp :: "f64 \<Rightarrow> f64 \<Rightarrow> ordering" where
  "f64_total_cmp a b = cmp (f64_total_key a) (f64_total_key b)"

fun ilog2 :: "nat \<Rightarrow> nat" where
  "ilog2 n = (if n < 2 then 0 else Suc (ilog2 (n div 2)))"

declare ilog2.simps [simp del]

definition f64_bits_of_nat :: "nat \<Rightarrow> nat" where
  "f64_bits_of_nat n =
     (if n = 0 then 0
      else let e = ilog2 n;
               mant = (if e \<le> 52 then n * 2 ^ (52 - e)
                       else let s = e - 52; q = n div 2 ^ s; r = n mod 2 ^ s
                            in if 2 ^ (s - 1) < r \<or> (r = 2 ^ (s - 1) \<and> odd q) then q + 1 else q)
           in (e + 1022) * 2 ^ 52 + mant)"

definition f64_of_u64 :: "u64 \<Rightarrow> f64" where
  "f64_of_u64 u = word_of_nat (f64_bits_of_nat (unat u))"

definition f64_of_i64 :: "i64 \<Rightarrow> f64" where
  "f64_of_i64 i =
     (if sint i < 0 then word_of_nat (2 ^ 63 + f64_bits_of_nat (nat (- sint i)))
      else word_of_nat (f64_bits_of_nat (nat (sint i))))"

subsection \<open>The total order\<close>

lemma f64_magnitude_bounds: "0 \<le> f64_magnitude f" "f64_magnitude f < 2 ^ 63"
  by (simp_all add: f64_magnitude_def)

lemma f64_uint_split:
  "uint f = f64_magnitude f + (if f64_negative f then 2 ^ 63 else 0)"
proof -
  have "0 \<le> uint f" "uint f < 2 ^ 64"
    using uint_lt2p [of f] by simp_all
  then show ?thesis
    using mod_pos_pos_trivial [of "uint f - 2 ^ 63" "2 ^ 63"]
      mod_pos_pos_trivial [of "uint f" "2 ^ 63"]
    by (simp add: f64_magnitude_def f64_negative_def)
qed

lemma f64_total_key_inj: "f64_total_key a = f64_total_key b \<Longrightarrow> a = b"
proof -
  assume "f64_total_key a = f64_total_key b"
  then have "f64_negative a = f64_negative b" and "f64_magnitude a = f64_magnitude b"
    using f64_magnitude_bounds [of a] f64_magnitude_bounds [of b]
    by (auto simp: f64_total_key_def split: if_splits)
  then have "uint a = uint b" using f64_uint_split [of a] f64_uint_split [of b] by simp
  then show "a = b" by (simp add: word_uint_eq_iff)
qed

lemma f64_total_cmp_Equal [simp]: "f64_total_cmp a b = Equal \<longleftrightarrow> a = b"
  by (auto simp: f64_total_cmp_def dest: f64_total_key_inj)

subsection \<open>Integers up to 2 to the 53rd are exact\<close>

lemma double_half_bounds: "(p::nat) \<le> n div 2 \<and> n div 2 < q \<Longrightarrow> 2 * p \<le> n \<and> n < 2 * q"
  by linarith

lemma ilog2_bounds: "n \<noteq> 0 \<Longrightarrow> 2 ^ ilog2 n \<le> n \<and> n < 2 ^ Suc (ilog2 n)"
proof (induction n rule: ilog2.induct)
  case (1 n)
  show ?case
  proof (cases "n < 2")
    case True
    with 1 show ?thesis by (simp add: ilog2.simps [of n])
  next
    case False
    then have "2 ^ ilog2 (n div 2) \<le> n div 2 \<and> n div 2 < 2 ^ Suc (ilog2 (n div 2))"
      using 1 by simp
    from double_half_bounds [OF this] False show ?thesis
      by (simp add: ilog2.simps [of n])
  qed
qed

lemma ilog2_less: "n < 2 ^ Suc k \<Longrightarrow> ilog2 n \<le> k"
proof (rule ccontr)
  assume *: "n < 2 ^ Suc k" "\<not> ilog2 n \<le> k"
  then have "n \<noteq> 0" by (intro notI) (simp add: ilog2.simps [of 0])
  then have "2 ^ ilog2 n \<le> n" using ilog2_bounds by blast
  moreover have "(2::nat) ^ Suc k \<le> 2 ^ ilog2 n"
    by (rule power_increasing) (use * in simp_all)
  ultimately show False using * by linarith
qed

lemma ilog2_mono: "0 < m \<Longrightarrow> m \<le> n \<Longrightarrow> ilog2 m \<le> ilog2 n"
  using ilog2_less [of m "ilog2 n"] ilog2_bounds [of n] by linarith

lemma f64_bits_small:
  assumes "0 < n" and "n < 2 ^ 53"
  shows "f64_bits_of_nat n = (ilog2 n + 1022) * 2 ^ 52 + n * 2 ^ (52 - ilog2 n)"
    and "2 ^ 52 \<le> n * 2 ^ (52 - ilog2 n)"
    and "n * 2 ^ (52 - ilog2 n) < 2 ^ 53"
    and "ilog2 n \<le> 52"
proof -
  show le: "ilog2 n \<le> 52"
    using assms(2) ilog2_less [of n 52] by simp
  then show "f64_bits_of_nat n = (ilog2 n + 1022) * 2 ^ 52 + n * 2 ^ (52 - ilog2 n)"
    using assms(1) by (simp add: f64_bits_of_nat_def Let_def)
  have b: "2 ^ ilog2 n \<le> n" "n < 2 ^ Suc (ilog2 n)"
    using assms(1) ilog2_bounds by blast+
  have "2 ^ 52 = 2 ^ ilog2 n * (2::nat) ^ (52 - ilog2 n)"
    using le by (simp flip: power_add)
  also have "\<dots> \<le> n * 2 ^ (52 - ilog2 n)"
    using b(1) by (rule mult_le_mono1)
  finally show "2 ^ 52 \<le> n * 2 ^ (52 - ilog2 n)" .
  have "n * 2 ^ (52 - ilog2 n) < 2 ^ Suc (ilog2 n) * 2 ^ (52 - ilog2 n)"
    using b(2) by simp
  also have "\<dots> = (2::nat) ^ 53"
    using le by (simp flip: power_add power_Suc)
  finally show "n * 2 ^ (52 - ilog2 n) < 2 ^ 53" .
qed

lemma f64_bits_mono:
  assumes "m < n" and "n < 2 ^ 53"
  shows "f64_bits_of_nat m < f64_bits_of_nat n"
proof (cases "m = 0")
  case True
  then show ?thesis
    using assms f64_bits_small(1,2) [of n] by (simp add: f64_bits_of_nat_def)
next
  case False
  then have m: "0 < m" "m < 2 ^ 53" and n: "0 < n" using assms by simp_all
  note M = f64_bits_small [OF m] and N = f64_bits_small [OF n assms(2)]
  show ?thesis
  proof (cases "ilog2 m = ilog2 n")
    case True
    then show ?thesis using M(1) N(1) assms(1) by simp
  next
    case False
    then have "ilog2 m + 1 \<le> ilog2 n"
      using ilog2_mono [of m n] m assms(1) by linarith
    then have "(ilog2 m + 1 + 1022) * 2 ^ 52 \<le> (ilog2 n + 1022) * 2 ^ 52"
      by (intro mult_le_mono1) simp
    then show ?thesis using M(1,3) N(1,2) by simp
  qed
qed

lemma f64_bits_bound: "n < 2 ^ 53 \<Longrightarrow> f64_bits_of_nat n < 2047 * 2 ^ 52"
proof (cases "n = 0")
  case False
  moreover assume "n < 2 ^ 53"
  ultimately have "0 < n" "n < 2 ^ 53" by simp_all
  note N = f64_bits_small [OF this]
  have "(ilog2 n + 1022) * 2 ^ 52 \<le> (52 + 1022) * (2::nat) ^ 52"
    using N(4) by (intro mult_le_mono1) simp
  then show ?thesis using N(1,3) by simp
qed (simp add: f64_bits_of_nat_def)

end
