(* ===== verification/Values.thy ===== *)
theory Values
  imports Keys Floats
begin

section \<open>Record values and borrowed values\<close>

text \<open>
  Model of \<^verbatim>\<open>packages/ssp/src/types/value.rs\<close> (the dynamic record value \<^verbatim>\<open>Sp00kyValue\<close>
  and its conversions from and to \<^verbatim>\<open>serde_json::Value\<close>), of
  \<^verbatim>\<open>eval/value_ref.rs\<close> (the borrowed view \<^verbatim>\<open>ValueRef\<close>, with \<^verbatim>\<open>Missing\<close> for an absent
  field) and of \<^verbatim>\<open>eval/value_ops.rs\<close> (path resolution, comparison, join hashing).
  \<^verbatim>\<open>serde_json::Value\<close> is only data here: its enum, with a number that fits \<^verbatim>\<open>i64\<close>, one
  that needs \<^verbatim>\<open>u64\<close>, or a finite double. The borrowed containers are the in-memory backend;
  a flat-encoded row reads as the value it decodes to.
  \<^verbatim>\<open>DefaultHasher\<close>, whose algorithm the standard library leaves open, is an argument
  \<open>sip\<close> of \<open>hash_value\<close>: the result as a function of what was written to it.
\<close>

datatype "value" =
    VNull
  | VBool bool
  | VInt i64
  | VFloat f64
  | VStr string
  | VArray "value list"
  | VObject "(string \<times> value) list"

datatype json_number = N_i64 i64 | N_u64 u64 | N_f64 f64

datatype json =
    JNull
  | JBool bool
  | JNumber json_number
  | JString string
  | JArray "json list"
  | JObject "(string \<times> json) list"

datatype value_ref =
    RMissing
  | RNull
  | RBool bool
  | RInt i64
  | RFloat f64
  | RStr string
  | RArr "value list"
  | RObj "(string \<times> value) list"

subsection \<open>Conversions\<close>

definition number_as_i64 :: "json_number \<Rightarrow> i64 option" where
  "number_as_i64 n = (case n of N_i64 i \<Rightarrow> Some i | N_u64 _ \<Rightarrow> None | N_f64 _ \<Rightarrow> None)"

definition number_as_f64 :: "json_number \<Rightarrow> f64 option" where
  "number_as_f64 n =
     (case n of N_i64 i \<Rightarrow> Some (f64_of_i64 i) | N_u64 u \<Rightarrow> Some (f64_of_u64 u) | N_f64 f \<Rightarrow> Some f)"

definition number_from_f64 :: "f64 \<Rightarrow> json_number option" where
  "number_from_f64 f = (if f64_is_finite f then Some (N_f64 f) else None)"

fun value_of_json :: "json \<Rightarrow> value" where
  "value_of_json JNull = VNull"
| "value_of_json (JBool b) = VBool b"
| "value_of_json (JNumber n) =
     (case number_as_i64 n of
        Some i \<Rightarrow> VInt i
      | None \<Rightarrow> VFloat (case number_as_f64 n of Some f \<Rightarrow> f | None \<Rightarrow> 0))"
| "value_of_json (JString s) = VStr s"
| "value_of_json (JArray arr) = VArray (map value_of_json arr)"
| "value_of_json (JObject obj) = VObject (map (\<lambda>(k, v). (k, value_of_json v)) obj)"

fun json_of_value :: "value \<Rightarrow> json" where
  "json_of_value VNull = JNull"
| "json_of_value (VBool b) = JBool b"
| "json_of_value (VInt i) = JNumber (N_i64 i)"
| "json_of_value (VFloat f) =
     (case number_from_f64 f of Some n \<Rightarrow> JNumber n | None \<Rightarrow> JNull)"
| "json_of_value (VStr s) = JString s"
| "json_of_value (VArray arr) = JArray (map json_of_value arr)"
| "json_of_value (VObject obj) = JObject (map (\<lambda>(k, v). (k, json_of_value v)) obj)"

definition value_as_object :: "value \<Rightarrow> (string \<times> value) list option" where
  "value_as_object v = (case v of VObject m \<Rightarrow> Some m | _ \<Rightarrow> None)"

definition value_get :: "value \<Rightarrow> string \<Rightarrow> value option" where
  "value_get v key = (case value_as_object v of None \<Rightarrow> None | Some m \<Rightarrow> hm_get m key)"

definition is_json_null :: "value \<Rightarrow> bool" where
  "is_json_null v = (case v of VNull \<Rightarrow> True | VFloat f \<Rightarrow> \<not> f64_is_finite f | _ \<Rightarrow> False)"

text \<open>Values whose doubles are all finite, the ones JSON can carry.\<close>

fun json_safe :: "value \<Rightarrow> bool" where
  "json_safe (VFloat f) = f64_is_finite f"
| "json_safe (VArray arr) = list_all json_safe arr"
| "json_safe (VObject obj) = list_all (\<lambda>(k, v). json_safe v) obj"
| "json_safe _ = True"

subsection \<open>Borrowed values\<close>

definition from_value :: "value \<Rightarrow> value_ref" where
  "from_value v =
     (case v of
        VNull \<Rightarrow> RNull | VBool b \<Rightarrow> RBool b | VInt i \<Rightarrow> RInt i | VFloat f \<Rightarrow> RFloat f
      | VStr s \<Rightarrow> RStr s | VArray items \<Rightarrow> RArr items | VObject m \<Rightarrow> RObj m)"

definition from_opt :: "value option \<Rightarrow> value_ref" where
  "from_opt v = (case v of Some v \<Rightarrow> from_value v | None \<Rightarrow> RMissing)"

definition is_missing :: "value_ref \<Rightarrow> bool" where
  "is_missing r = (case r of RMissing \<Rightarrow> True | _ \<Rightarrow> False)"

definition ref_as_str :: "value_ref \<Rightarrow> string option" where
  "ref_as_str r = (case r of RStr s \<Rightarrow> Some s | _ \<Rightarrow> None)"

definition ref_get :: "value_ref \<Rightarrow> string \<Rightarrow> value_ref" where
  "ref_get r key = (case r of RObj m \<Rightarrow> from_opt (hm_get m key) | _ \<Rightarrow> RMissing)"

definition is_record_ref :: "value_ref \<Rightarrow> bool" where
  "is_record_ref r = (case r of RStr s \<Rightarrow> CHR '':'' \<in> set s | _ \<Rightarrow> False)"

definition ref_rank :: "value_ref \<Rightarrow> nat" where
  "ref_rank r = (case r of RMissing \<Rightarrow> 0 | RNull \<Rightarrow> 1 | _ \<Rightarrow> 2)"

definition to_owned_value :: "value_ref \<Rightarrow> value" where
  "to_owned_value r =
     (case r of
        RMissing \<Rightarrow> VNull | RNull \<Rightarrow> VNull | RBool b \<Rightarrow> VBool b | RInt i \<Rightarrow> VInt i
      | RFloat f \<Rightarrow> VFloat f | RStr s \<Rightarrow> VStr s | RArr items \<Rightarrow> VArray items | RObj m \<Rightarrow> VObject m)"

subsection \<open>Path resolution, comparison and hashing\<close>

fun resolve_segments :: "value_ref \<Rightarrow> string list \<Rightarrow> value_ref" where
  "resolve_segments current [] = current"
| "resolve_segments current (segment # rest) =
     (if segment = ''id'' \<and> is_record_ref current then current
      else let nxt = ref_get current segment
           in if is_missing nxt then RMissing else resolve_segments nxt rest)"

definition resolve_field :: "value_ref \<Rightarrow> path \<Rightarrow> value_ref" where
  "resolve_field v p = (if is_missing v then RMissing else resolve_segments v p)"

definition or_equal :: "ordering option \<Rightarrow> ordering" where
  "or_equal c = (case c of Some c \<Rightarrow> c | None \<Rightarrow> Equal)"

fun compare_same_rank :: "value_ref \<Rightarrow> value_ref \<Rightarrow> ordering" where
  "compare_same_rank (RInt a) (RInt b) = cmp (sint a) (sint b)"
| "compare_same_rank (RFloat a) (RFloat b) = or_equal (f64_partial_cmp a b)"
| "compare_same_rank (RInt a) (RFloat b) = or_equal (f64_partial_cmp (f64_of_i64 a) b)"
| "compare_same_rank (RFloat a) (RInt b) = or_equal (f64_partial_cmp a (f64_of_i64 b))"
| "compare_same_rank (RStr a) (RStr b) = cmp a b"
| "compare_same_rank (RBool a) (RBool b) = cmp a b"
| "compare_same_rank _ _ = Equal"

definition compare_values :: "value_ref \<Rightarrow> value_ref \<Rightarrow> ordering" where
  "compare_values a b =
     (if ref_rank a = ref_rank b then compare_same_rank a b else cmp (ref_rank a) (ref_rank b))"

datatype hash_input = H_u8 byte | H_u64 u64 | H_str string

definition hash_feed :: "value_ref \<Rightarrow> hash_input" where
  "hash_feed v =
     (case v of
        RMissing \<Rightarrow> H_u8 0
      | RNull \<Rightarrow> H_u8 0
      | RBool b \<Rightarrow> H_u8 (if b then 1 else 0)
      | RInt n \<Rightarrow> H_u64 (f64_of_i64 n)
      | RFloat n \<Rightarrow> H_u64 n
      | RStr s \<Rightarrow> H_str s
      | RArr _ \<Rightarrow> H_u8 2
      | RObj _ \<Rightarrow> H_u8 3)"

definition hash_value :: "(hash_input \<Rightarrow> u64) \<Rightarrow> value_ref \<Rightarrow> u64" where
  "hash_value sip v = sip (hash_feed v)"

definition value_normalize_record_id :: "value \<Rightarrow> value" where
  "value_normalize_record_id v =
     (case v of
        VStr s \<Rightarrow> (case split_once CHR '':'' s of Some (_, i) \<Rightarrow> VStr i | None \<Rightarrow> v)
      | _ \<Rightarrow> v)"

subsection \<open>Lemmas\<close>

lemma is_missing_simps [simp]:
  "is_missing RMissing" "\<not> is_missing RNull" "\<not> is_missing (RBool b)" "\<not> is_missing (RInt i)"
  "\<not> is_missing (RFloat f)" "\<not> is_missing (RStr s)" "\<not> is_missing (RArr a)"
  "\<not> is_missing (RObj m)"
  by (simp_all add: is_missing_def)

lemma is_missing_iff: "is_missing r \<longleftrightarrow> r = RMissing"
  by (cases r) simp_all

lemma from_value_simps [simp]:
  "from_value VNull = RNull" "from_value (VBool b) = RBool b" "from_value (VInt i) = RInt i"
  "from_value (VFloat f) = RFloat f" "from_value (VStr s) = RStr s"
  "from_value (VArray a) = RArr a" "from_value (VObject m) = RObj m"
  by (simp_all add: from_value_def)

lemma from_value_not_missing [simp]: "\<not> is_missing (from_value v)"
  by (cases v) simp_all

lemma to_owned_from_value [simp]: "to_owned_value (from_value v) = v"
  by (cases v) (simp_all add: to_owned_value_def)

lemma from_value_to_owned [simp]: "\<not> is_missing r \<Longrightarrow> from_value (to_owned_value r) = r"
  by (cases r) (simp_all add: to_owned_value_def)

lemma from_opt_simps [simp]: "from_opt None = RMissing" "from_opt (Some v) = from_value v"
  by (simp_all add: from_opt_def)

lemma is_missing_from_opt [simp]: "is_missing (from_opt v) \<longleftrightarrow> v = None"
  by (cases v) simp_all

lemma resolve_field_missing [simp]: "resolve_field RMissing p = RMissing"
  by (simp add: resolve_field_def)

lemma value_of_json_of_value: "json_safe v \<Longrightarrow> value_of_json (json_of_value v) = v"
proof (induction v rule: json_of_value.induct)
  case (6 arr)
  then show ?case by (auto simp: list_all_iff intro: map_idI)
next
  case (7 obj)
  then show ?case by (auto simp: list_all_iff comp_def case_prod_unfold intro!: map_idI)
qed (simp_all add: number_from_f64_def number_as_i64_def number_as_f64_def)

lemma json_safe_value_of_json:
  "value_of_json (json_of_value v) = v \<Longrightarrow> json_safe v"
proof (induction v rule: json_of_value.induct)
  case (4 f)
  then show ?case by (simp add: number_from_f64_def split: if_splits)
next
  case (6 arr)
  then have "map (value_of_json \<circ> json_of_value) arr = arr" by simp
  from map_fixD [OF this] 6 show ?case by (auto simp: list_all_iff)
next
  case (7 obj)
  then have "map (\<lambda>(k, v). (k, value_of_json (json_of_value v))) obj = obj"
    by (simp add: comp_def case_prod_unfold)
  from map_fixD [OF this] 7 show ?case by (fastforce simp: list_all_iff)
qed simp_all

text \<open>
  A borrowed value converts to an owned one and back without loss, and a value converts to
  \<^verbatim>\<open>serde_json::Value\<close> and back unchanged exactly when none of its doubles is infinite or
  NaN; such a double comes back as null.
\<close>

theorem value_round_trips:
  "(value_of_json (json_of_value v) = v \<longleftrightarrow> json_safe v)
   \<and> to_owned_value (from_value v) = v
   \<and> value_of_json (json_of_value (VFloat f)) = (if f64_is_finite f then VFloat f else VNull)"
  using value_of_json_of_value [of v] json_safe_value_of_json [of v]
  by (auto simp: number_from_f64_def number_as_i64_def number_as_f64_def)

subsection \<open>The comparison\<close>

lemma or_equal_partial_cmp_swap:
  "or_equal (f64_partial_cmp b a) = ordering_reverse (or_equal (f64_partial_cmp a b))"
  by (auto simp: or_equal_def f64_partial_cmp_def ordering_reverse_cmp)

lemma compare_same_rank_swap: "compare_same_rank b a = ordering_reverse (compare_same_rank a b)"
  by (cases a; cases b) (simp_all add: ordering_reverse_cmp flip: or_equal_partial_cmp_swap)

lemma compare_values_swap: "compare_values b a = ordering_reverse (compare_values a b)"
  using compare_same_rank_swap [of b a] by (simp add: compare_values_def ordering_reverse_cmp)

lemma compare_values_refl [simp]: "compare_values a a = Equal"
proof -
  have "or_equal (f64_partial_cmp f f) = Equal" for f
    by (simp add: or_equal_def f64_partial_cmp_def)
  then show ?thesis by (cases a) (simp_all add: compare_values_def)
qed

lemma ref_rank_simps [simp]:
  "ref_rank RMissing = 0" "ref_rank RNull = 1" "ref_rank (RBool b) = 2" "ref_rank (RInt i) = 2"
  "ref_rank (RFloat f) = 2" "ref_rank (RStr s) = 2" "ref_rank (RArr xs) = 2"
  "ref_rank (RObj m) = 2"
  by (simp_all add: ref_rank_def)

end
