(* ===== verification/Snapshot_Hash.thy ===== *)
theory Snapshot_Hash
  imports Values "HOL-Library.Multiset"
begin

section \<open>Table hashes\<close>

text \<open>
  Model of \<^verbatim>\<open>packages/ssp-protocol/src/snapshot_hash.rs\<close> and of the canonical writer in
  \<^verbatim>\<open>packages/ssp/src/types/value.rs\<close>: the canonical JSON bytes of a record, its digest, the
  sorted table hash (\<^verbatim>\<open>b3:\<close>) and the XOR set-hash of record digests (\<^verbatim>\<open>x3:\<close>) that the
  circuit and the scheduler maintain incrementally.

  What \<^verbatim>\<open>serde_json\<close> prints and what \<^verbatim>\<open>blake3\<close> computes are the fields of the record
  \<open>codec\<close>, an argument of the definitions. A byte buffer is a \<open>string\<close>; a digest
  \<^verbatim>\<open>[u8; 32]\<close> is a list of 32 bytes. The interface \<open>xor_digests\<close> states the laws of the
  XOR accumulator; the store and the range hashes use the lemmas proved from them.
\<close>

unbundle bit_operations_syntax

type_synonym digest = "byte list"

record codec =
  ser_string :: "string \<Rightarrow> string"
  ser_number :: "json_number \<Rightarrow> string"
  ser_i64 :: "i64 \<Rightarrow> string"
  blake3 :: "string \<Rightarrow> digest"

subsection \<open>Canonical bytes\<close>

fun contains_open_bracket :: "string \<Rightarrow> bool" where
  "contains_open_bracket (a # b # c # r) =
     ((a = CHR 0xE2 \<and> b = CHR 0x9F \<and> c = CHR 0xA8) \<or> contains_open_bracket (b # c # r))"
| "contains_open_bracket _ = False"

fun remove_escapes :: "string \<Rightarrow> string" where
  "remove_escapes (a # b # c # r) =
     (if a = CHR 0xE2 \<and> b = CHR 0x9F \<and> (c = CHR 0xA8 \<or> c = CHR 0xA9) then remove_escapes r
      else if a = CHR 0x60 then remove_escapes (b # c # r)
      else a # remove_escapes (b # c # r))"
| "remove_escapes [a, b] = filter (\<lambda>c. c \<noteq> CHR 0x60) [a, b]"
| "remove_escapes [a] = filter (\<lambda>c. c \<noteq> CHR 0x60) [a]"
| "remove_escapes [] = []"

definition normalize_record_id :: "string \<Rightarrow> string" where
  "normalize_record_id i =
     (if contains_open_bracket i \<or> CHR 0x60 \<in> set i then remove_escapes i else i)"

definition is_reserved_key :: "string \<Rightarrow> bool" where
  "is_reserved_key key = starts_with key ''_00_''"

definition normalize_id_field :: "string \<times> json \<Rightarrow> string \<times> json" where
  "normalize_id_field e =
     (case e of (k, v) \<Rightarrow>
        if k = ''id'' then
          (case v of JString s \<Rightarrow> (k, JString (normalize_record_id s)) | _ \<Rightarrow> (k, v))
        else (k, v))"

definition strip_reserved_keys :: "json \<Rightarrow> json" where
  "strip_reserved_keys v =
     (case v of
        JObject m \<Rightarrow>
          JObject (map normalize_id_field
            (filter (\<lambda>(k, v). \<not> starts_with k ''_00_'' \<and> v \<noteq> JNull) m))
      | other \<Rightarrow> other)"

definition write_members :: "(string \<times> string) list \<Rightarrow> string" where
  "write_members es =
     CHR ''{'' # join_with CHR '','' (map (\<lambda>(k, s). k @ CHR '':'' # s) es) @ ''}''"

definition write_items :: "string list \<Rightarrow> string" where
  "write_items ss = CHR ''['' # join_with CHR '','' ss @ '']''"

fun canonical_json :: "codec \<Rightarrow> json \<Rightarrow> string" where
  "canonical_json e (JObject m) =
     write_members (map (\<lambda>(k, s). (ser_string e k, s))
       (sort_key fst (map (\<lambda>(k, v). (k, canonical_json e v)) m)))"
| "canonical_json e (JArray arr) = write_items (map (canonical_json e) arr)"
| "canonical_json e JNull = ''null''"
| "canonical_json e (JBool True) = ''true''"
| "canonical_json e (JBool False) = ''false''"
| "canonical_json e (JNumber n) = ser_number e n"
| "canonical_json e (JString s) = ser_string e s"

definition write_json_f64 :: "codec \<Rightarrow> f64 \<Rightarrow> string" where
  "write_json_f64 e f =
     (case number_from_f64 f of Some n \<Rightarrow> ser_number e n | None \<Rightarrow> ''null'')"

fun write_canonical :: "codec \<Rightarrow> value \<Rightarrow> string" where
  "write_canonical e VNull = ''null''"
| "write_canonical e (VBool True) = ''true''"
| "write_canonical e (VBool False) = ''false''"
| "write_canonical e (VInt i) = ser_i64 e i"
| "write_canonical e (VFloat f) = write_json_f64 e f"
| "write_canonical e (VStr s) = ser_string e s"
| "write_canonical e (VArray items) = write_items (map (write_canonical e) items)"
| "write_canonical e (VObject m) =
     write_members (map (\<lambda>(k, s). (ser_string e k, s))
       (sort_key fst (map (\<lambda>(k, v). (k, write_canonical e v)) m)))"

definition write_record_field :: "codec \<Rightarrow> string \<times> value \<Rightarrow> string \<times> string" where
  "write_record_field e kv =
     (case kv of (k, v) \<Rightarrow>
        (ser_string e k,
         if k = ''id'' then
           (case v of VStr s \<Rightarrow> ser_string e (normalize_record_id s) | _ \<Rightarrow> write_canonical e v)
         else write_canonical e v))"

definition write_canonical_record :: "codec \<Rightarrow> value \<Rightarrow> string" where
  "write_canonical_record e v =
     (case v of
        VObject m \<Rightarrow>
          write_members (map (write_record_field e)
            (sort_key fst (filter (\<lambda>(k, v). \<not> is_reserved_key k \<and> \<not> is_json_null v) m)))
      | _ \<Rightarrow> write_canonical e v)"

subsection \<open>Digests\<close>

definition digest_from_canonical :: "codec \<Rightarrow> string \<Rightarrow> string \<Rightarrow> digest" where
  "digest_from_canonical e raw canonical = blake3 e (raw @ CHR 0x00 # canonical)"

definition record_digest :: "codec \<Rightarrow> string \<Rightarrow> json \<Rightarrow> digest" where
  "record_digest e raw v = digest_from_canonical e raw (canonical_json e (strip_reserved_keys v))"

definition record_digest_into :: "codec \<Rightarrow> value \<Rightarrow> string \<Rightarrow> digest" where
  "record_digest_into e v raw = digest_from_canonical e raw (write_canonical_record e v)"

definition xor_digest :: "digest \<Rightarrow> digest \<Rightarrow> digest" where
  "xor_digest acc d = map (\<lambda>(a, b). a XOR b) (zip acc d) @ drop (length d) acc"

definition xor_empty :: digest where
  "xor_empty = replicate 32 0"

definition xor_in :: "codec \<Rightarrow> digest \<Rightarrow> string \<Rightarrow> json \<Rightarrow> digest" where
  "xor_in e acc raw v = xor_digest acc (record_digest e raw v)"

definition xor_out :: "codec \<Rightarrow> digest \<Rightarrow> string \<Rightarrow> json \<Rightarrow> digest" where
  "xor_out e acc raw v = xor_in e acc raw v"

definition hex_digit :: "nat \<Rightarrow> char" where
  "hex_digit n = ''0123456789abcdef'' ! n"

definition hex_byte :: "byte \<Rightarrow> string" where
  "hex_byte b = [hex_digit (unat b div 16), hex_digit (unat b mod 16)]"

definition xor_acc_to_hex :: "digest \<Rightarrow> string" where
  "xor_acc_to_hex acc = ''x3:'' @ concat (map hex_byte acc)"

definition digit_value :: "char \<Rightarrow> nat option" where
  "digit_value c =
     (let n = of_char c in
      if 48 \<le> n \<and> n \<le> 57 then Some (n - 48)
      else if 97 \<le> n \<and> n \<le> 102 then Some (n - 87)
      else if 65 \<le> n \<and> n \<le> 70 then Some (n - 55)
      else None)"

text \<open>
  \<^verbatim>\<open>u8::from_str_radix(s, 16)\<close> on a two-byte string: an optional plus sign, then digits.
\<close>

definition byte_of_hex :: "char \<Rightarrow> char \<Rightarrow> byte option" where
  "byte_of_hex a b =
     (case (if a = CHR ''+'' then Some 0 else digit_value a, digit_value b) of
        (Some x, Some y) \<Rightarrow> Some (word_of_nat (16 * x + y))
      | _ \<Rightarrow> None)"

text \<open>
  Slicing a \<^verbatim>\<open>str\<close> panics off a character boundary: at a byte that continues a character.
\<close>

definition continuation_byte :: "char \<Rightarrow> bool" where
  "continuation_byte c \<longleftrightarrow> 128 \<le> (of_char c :: nat) \<and> (of_char c :: nat) < 192"

fun hex_pairs :: "string \<Rightarrow> digest option outcome" where
  "hex_pairs (a # b # rest) =
     (if continuation_byte a \<or> (case rest of [] \<Rightarrow> False | c # _ \<Rightarrow> continuation_byte c) then Panic
      else case byte_of_hex a b of
        None \<Rightarrow> Ret None
      | Some x \<Rightarrow>
          (case hex_pairs rest of Panic \<Rightarrow> Panic | Ret r \<Rightarrow> Ret (map_option ((#) x) r)))"
| "hex_pairs _ = Ret (Some [])"

definition xor_acc_from_hex :: "string \<Rightarrow> digest option outcome" where
  "xor_acc_from_hex s =
     (case strip_prefix s ''x3:'' of
        None \<Rightarrow> Ret None
      | Some hex \<Rightarrow> if length hex \<noteq> 64 then Ret None else hex_pairs hex)"

definition xor_table_hash :: "codec \<Rightarrow> (string \<times> json) list \<Rightarrow> string" where
  "xor_table_hash e records =
     xor_acc_to_hex (fold (\<lambda>(i, v) acc. xor_in e acc i v) records xor_empty)"

subsection \<open>The sorted table hash\<close>

definition to_hex :: "digest \<Rightarrow> string" where
  "to_hex d = concat (map hex_byte d)"

definition hash_frame :: "(string \<times> string) list \<Rightarrow> string" where
  "hash_frame pairs = concat (map (\<lambda>(i, c). i @ CHR 0x00 # c @ [CHR 0x00]) pairs)"

definition hash_table :: "codec \<Rightarrow> (string \<times> json) list \<Rightarrow> string" where
  "hash_table e records =
     (let pairs = map (\<lambda>(i, v). (normalize_record_id i, strip_reserved_keys v)) records;
          sorted_pairs = sort_key fst pairs
      in ''b3:'' @ to_hex (blake3 e
           (hash_frame (map (\<lambda>(i, v). (i, canonical_json e v)) sorted_pairs))))"

type_synonym table_hasher = "(string \<times> string) list"

definition table_hasher_add :: "codec \<Rightarrow> table_hasher \<Rightarrow> string \<times> json \<Rightarrow> table_hasher" where
  "table_hasher_add e self r =
     (case r of (raw, v) \<Rightarrow>
        self @ [(normalize_record_id raw, canonical_json e (strip_reserved_keys v))])"

definition table_hasher_finish :: "codec \<Rightarrow> table_hasher \<Rightarrow> string" where
  "table_hasher_finish e self = ''b3:'' @ to_hex (blake3 e (hash_frame (sort_key fst self)))"

definition empty_hash_like :: "codec \<Rightarrow> string \<Rightarrow> string" where
  "empty_hash_like e like =
     (if starts_with like ''x3:'' then xor_acc_to_hex xor_empty else hash_table e [])"

record table_hash_mismatch =
  mm_table :: string
  mm_a :: string
  mm_b :: string

definition table_hash_pair ::
    "codec \<Rightarrow> (string, string) hmap \<Rightarrow> (string, string) hmap \<Rightarrow> string \<Rightarrow> (string \<times> string) option"
where
  "table_hash_pair e a b table =
     (case (hm_get a table, hm_get b table) of
        (Some av, Some bv) \<Rightarrow> Some (av, bv)
      | (Some av, None) \<Rightarrow> Some (av, empty_hash_like e av)
      | (None, Some bv) \<Rightarrow> Some (empty_hash_like e bv, bv)
      | (None, None) \<Rightarrow> None)"

definition diff_table_hashes ::
    "codec \<Rightarrow> (string, string) hmap \<Rightarrow> (string, string) hmap \<Rightarrow> table_hash_mismatch list" where
  "diff_table_hashes e a b =
     List.map_filter (\<lambda>table.
       case table_hash_pair e a b table of
         None \<Rightarrow> None
       | Some (av, bv) \<Rightarrow>
           if av = bv then None else Some \<lparr>mm_table = table, mm_a = av, mm_b = bv\<rparr>)
     (sort (remdups (hm_keys a @ hm_keys b)))"

subsection \<open>The canonical writer agrees with the JSON pipeline\<close>

lemma insort_key_map_pair:
  "insort_key fst (k, f v) (map (\<lambda>(k, v). (k, f v)) m) =
   map (\<lambda>(k, v). (k, f v)) (insort_key fst (k, v) m)"
  by (induction m) auto

lemma sort_key_map_pair:
  "sort_key fst (map (\<lambda>(k, v). (k, f v)) m) = map (\<lambda>(k, v). (k, f v)) (sort_key fst m)"
  by (induction m) (auto simp: insort_key_map_pair)

lemma json_null_iff: "json_of_value v = JNull \<longleftrightarrow> is_json_null v"
  by (cases v) (simp_all add: is_json_null_def number_from_f64_def)

definition numbers_print_alike :: "codec \<Rightarrow> bool" where
  "numbers_print_alike e \<longleftrightarrow> (\<forall>i. ser_number e (N_i64 i) = ser_i64 e i)"

lemma write_canonical_eq:
  assumes "numbers_print_alike e"
  shows "write_canonical e v = canonical_json e (json_of_value v)"
  using assms
proof (induction e v rule: write_canonical.induct)
  case (5 e f)
  then show ?case by (simp add: write_json_f64_def number_from_f64_def)
next
  case (7 e items)
  then show ?case by (simp add: comp_def cong: map_cong)
next
  case (8 e m)
  then have "map (\<lambda>(k, v). (k, write_canonical e v)) m =
      map (\<lambda>(k, v). (k, canonical_json e (json_of_value v))) m"
    by (auto intro: map_cong)
  moreover have "map (\<lambda>(k, v). (k, canonical_json e v)) (map (\<lambda>(k, v). (k, json_of_value v)) m) =
      map (\<lambda>(k, v). (k, canonical_json e (json_of_value v))) m"
    by (simp add: comp_def case_prod_unfold)
  ultimately show ?case
    by (simp only: write_canonical.simps json_of_value.simps canonical_json.simps)
qed (simp_all add: numbers_print_alike_def)

lemma json_of_value_JString: "json_of_value v = JString s \<longleftrightarrow> v = VStr s"
  by (cases v) (auto split: option.splits)

lemma write_record_field_eq:
  assumes "numbers_print_alike e"
  shows "write_record_field e x =
    (ser_string e (fst (normalize_id_field (fst x, json_of_value (snd x)))),
     canonical_json e (snd (normalize_id_field (fst x, json_of_value (snd x)))))"
proof (cases x)
  case (Pair k v)
  show ?thesis
  proof (cases "\<exists>s. v = VStr s")
    case True
    with Pair show ?thesis by (auto simp: write_record_field_def normalize_id_field_def)
  next
    case False
    then have "(case v of VStr s \<Rightarrow> a s | _ \<Rightarrow> b) = b" for a :: "string \<Rightarrow> string" and b
      by (cases v) simp_all
    moreover have "(case json_of_value v of JString s \<Rightarrow> c s | _ \<Rightarrow> d) = d"
      for c :: "string \<Rightarrow> string \<times> json" and d
      using False by (auto simp: json_of_value_JString split: json.splits)
    ultimately show ?thesis
      by (simp add: Pair write_record_field_def normalize_id_field_def write_canonical_eq [OF assms])
  qed
qed

lemma sort_key_normalize_id_field:
  "sort_key fst (map normalize_id_field m) = map normalize_id_field (sort_key fst m)"
proof -
  have fst: "fst (normalize_id_field x) = fst x" for x
    by (cases x) (auto simp: normalize_id_field_def split: json.splits)
  have ins: "insort_key fst (normalize_id_field x) (map normalize_id_field xs) =
      map normalize_id_field (insort_key fst x xs)" for x xs
    by (induction xs) (auto simp: fst)
  show ?thesis by (induction m) (auto simp: ins)
qed

lemma write_canonical_record_eq:
  assumes "numbers_print_alike e"
  shows "write_canonical_record e v = canonical_json e (strip_reserved_keys (json_of_value v))"
proof (cases v)
  case (VObject m)
  let ?keep = "\<lambda>(k, v). \<not> is_reserved_key k \<and> \<not> is_json_null v"
  let ?conv = "\<lambda>(k, v). (k, json_of_value v)"
  have keep: "filter (\<lambda>(k, v). \<not> starts_with k ''_00_'' \<and> v \<noteq> JNull) (map ?conv m) =
      map ?conv (filter ?keep m)"
    by (induction m) (auto simp: is_reserved_key_def json_null_iff)
  have "canonical_json e (strip_reserved_keys (json_of_value v)) =
      write_members (map (\<lambda>(k, s). (ser_string e k, s)) (sort_key fst
        (map (\<lambda>(k, v). (k, canonical_json e v)) (map normalize_id_field (map ?conv (filter ?keep m))))))"
    by (simp only: VObject json_of_value.simps strip_reserved_keys_def json.case keep
        canonical_json.simps)
  also have "\<dots> = write_members (map (\<lambda>(k, v). (ser_string e k, canonical_json e v))
      (map normalize_id_field (map ?conv (sort_key fst (filter ?keep m)))))"
    by (simp only: sort_key_normalize_id_field sort_key_map_pair)
      (simp add: comp_def case_prod_unfold)
  also have "\<dots> = write_members (map (write_record_field e) (sort_key fst (filter ?keep m)))"
    by (simp add: comp_def ext [OF write_record_field_eq [OF assms]] case_prod_unfold)
  finally show ?thesis by (simp add: VObject write_canonical_record_def)
qed (simp_all add: write_canonical_record_def strip_reserved_keys_def number_from_f64_def
    write_canonical_eq [OF assms] del: write_canonical.simps)

text \<open>
  C20. The writer that canonicalises a stored value directly produces, byte for byte, the
  canonical JSON of the value converted to \<^verbatim>\<open>serde_json\<close>, for whole values and for records
  (reserved and null keys dropped, \<^verbatim>\<open>id\<close> normalised), so both sides of the integrity check
  compute the same record digest. The one fact used of \<^verbatim>\<open>serde_json\<close>: an \<^verbatim>\<open>i64\<close> prints
  as the \<^verbatim>\<open>Number\<close> that holds it does.
\<close>

theorem canonical_writer_equivalent:
  assumes "\<And>i. ser_number e (N_i64 i) = ser_i64 e i"
  shows "write_canonical e v = canonical_json e (json_of_value v)
    \<and> write_canonical_record e v = canonical_json e (strip_reserved_keys (json_of_value v))
    \<and> record_digest_into e v raw = record_digest e raw (json_of_value v)"
proof -
  have "numbers_print_alike e" using assms by (simp add: numbers_print_alike_def)
  then show ?thesis
    by (simp add: write_canonical_eq write_canonical_record_eq record_digest_into_def
        record_digest_def)
qed

definition sample_codec :: codec where
  "sample_codec = \<lparr>ser_string = (\<lambda>s. CHR 0x22 # s @ [CHR 0x22]),
     ser_number = (\<lambda>n. case n of N_i64 i \<Rightarrow> [hex_digit (unat i mod 16)] | _ \<Rightarrow> ''0.5''),
     ser_i64 = (\<lambda>i. [hex_digit (unat i mod 16)]),
     blake3 = (\<lambda>s. take 32 (map of_char s @ replicate 32 0))\<rparr>"

theorem canonical_writer_equivalent_witness:
  "write_canonical sample_codec (VObject [(''b'', VInt 2), (''a'', VNull)]) =
     canonical_json sample_codec (json_of_value (VObject [(''b'', VInt 2), (''a'', VNull)]))"
  using canonical_writer_equivalent [of sample_codec "VObject [(''b'', VInt 2), (''a'', VNull)]" "[]"]
  by (simp add: sample_codec_def)

subsection \<open>The sorted hash\<close>

lemma fold_table_hasher_add:
  "fold (\<lambda>r h. table_hasher_add e h r) records h =
   h @ map (\<lambda>(i, v). (normalize_record_id i, canonical_json e (strip_reserved_keys v))) records"
  by (induction records arbitrary: h) (auto simp: table_hasher_add_def)

lemma table_hasher_eq_hash_table:
  "table_hasher_finish e (fold (\<lambda>r h. table_hasher_add e h r) records []) = hash_table e records"
proof -
  have "map (\<lambda>(i, v). (normalize_record_id i, canonical_json e (strip_reserved_keys v))) records =
      map (\<lambda>(i, v). (i, canonical_json e v))
        (map (\<lambda>(i, v). (normalize_record_id i, strip_reserved_keys v)) records)"
    by (simp add: comp_def case_prod_unfold)
  then show ?thesis
    by (simp only: table_hasher_finish_def fold_table_hasher_add append_Nil sort_key_map_pair
        hash_table_def Let_def)
qed

lemma sort_key_perm:
  assumes "mset xs = mset ys" and "distinct (map f xs)"
  shows "sort_key f xs = sort_key f ys"
proof (rule properties_for_sort_key)
  show "mset (sort_key f ys) = mset xs" using assms(1) by simp
  show "sorted (map f (sort_key f ys))" by simp
  fix k assume "k \<in> set (sort_key f ys)"
  then have "k \<in> set xs" using assms(1) by (metis mset_eq_setD set_sort)
  moreover have "filter (\<lambda>x. f k = f x) zs = [k]"
    if "k \<in> set zs" and "distinct (map f zs)" for zs
    using that by (induction zs) (auto simp: filter_empty_conv image_iff)
  moreover have "distinct (map f (sort_key f ys))"
    using assms by (metis distinct_map image_set mset_eq_imp_distinct_iff mset_map mset_sort)
  ultimately show "filter (\<lambda>x. f k = f x) (sort_key f ys) = filter (\<lambda>x. f k = f x) xs"
    using assms \<open>k \<in> set (sort_key f ys)\<close> by simp
qed

text \<open>
  Feeding a table to the page-wise \<^verbatim>\<open>TableHasher\<close> gives the hash \<^verbatim>\<open>hash_table\<close>
  computes at once, and neither depends on the order the records arrive in, provided the
  normalised record ids are distinct.
\<close>

theorem table_hash_order_independent:
  assumes "mset records = mset records'"
    and "distinct (map (\<lambda>r. normalize_record_id (fst r)) records)"
  shows "table_hasher_finish e (fold (\<lambda>r h. table_hasher_add e h r) records' []) =
    hash_table e records"
proof -
  let ?f = "\<lambda>(i, v). (normalize_record_id i, strip_reserved_keys v)"
  have "mset (map ?f records) = mset (map ?f records')"
    using assms(1) by simp
  moreover have "distinct (map fst (map ?f records))"
    using assms(2) by (simp add: comp_def case_prod_unfold)
  ultimately have "sort_key fst (map ?f records) = sort_key fst (map ?f records')"
    by (rule sort_key_perm)
  then show ?thesis
    unfolding table_hasher_eq_hash_table by (simp add: hash_table_def)
qed

theorem table_hash_order_independent_witness:
  "table_hasher_finish sample_codec (fold (\<lambda>r h. table_hasher_add sample_codec h r)
      [(''b'', JNull), (''a'', JBool True)] []) =
   hash_table sample_codec [(''a'', JBool True), (''b'', JNull)]"
  using table_hash_order_independent [of "[(''a'', JBool True), (''b'', JNull)]"
      "[(''b'', JNull), (''a'', JBool True)]" sample_codec]
  by (simp add: normalize_record_id_def)

subsection \<open>The XOR accumulator\<close>

definition xor_all :: "('d \<Rightarrow> 'd \<Rightarrow> 'd) \<Rightarrow> 'd \<Rightarrow> 'd list \<Rightarrow> 'd" where
  "xor_all mix zero ds = fold (\<lambda>d acc. mix acc d) ds zero"

locale xor_digests =
  fixes D :: "'d set" and mix :: "'d \<Rightarrow> 'd \<Rightarrow> 'd" and zero :: 'd
  assumes zero_closed [simp]: "zero \<in> D"
    and xor_closed [simp]: "a \<in> D \<Longrightarrow> b \<in> D \<Longrightarrow> mix a b \<in> D"
    and xor_assoc: "a \<in> D \<Longrightarrow> b \<in> D \<Longrightarrow> c \<in> D \<Longrightarrow> mix (mix a b) c = mix a (mix b c)"
    and xor_commute: "a \<in> D \<Longrightarrow> b \<in> D \<Longrightarrow> mix a b = mix b a"
    and xor_zero [simp]: "a \<in> D \<Longrightarrow> mix a zero = a"
    and xor_self [simp]: "a \<in> D \<Longrightarrow> mix a a = zero"
begin

lemma xor_cancel [simp]: "a \<in> D \<Longrightarrow> d \<in> D \<Longrightarrow> mix (mix a d) d = a"
  by (simp add: xor_assoc)

lemma fold_xor:
  "a \<in> D \<Longrightarrow> set ds \<subseteq> D \<Longrightarrow>
   fold (\<lambda>d acc. mix acc d) ds a = mix a (xor_all mix zero ds) \<and> xor_all mix zero ds \<in> D"
proof (induction ds rule: rev_induct)
  case Nil
  then show ?case by (simp add: xor_all_def)
next
  case (snoc d ds)
  then show ?case by (simp add: xor_all_def xor_assoc)
qed

lemma xor_all_closed [simp]: "set ds \<subseteq> D \<Longrightarrow> xor_all mix zero ds \<in> D"
  using fold_xor [of zero ds] by simp

lemma xor_all_Nil [simp]: "xor_all mix zero [] = zero"
  by (simp add: xor_all_def)

lemma xor_all_snoc [simp]: "xor_all mix zero (ds @ [d]) = mix (xor_all mix zero ds) d"
  by (simp add: xor_all_def)

lemma xor_all_append:
  "set ds \<subseteq> D \<Longrightarrow> set es \<subseteq> D \<Longrightarrow>
   xor_all mix zero (ds @ es) = mix (xor_all mix zero ds) (xor_all mix zero es)"
  using fold_xor [of "xor_all mix zero ds" es] xor_all_closed [of ds] by (simp add: xor_all_def)

lemma xor_all_Cons:
  assumes "d \<in> D" and "set ds \<subseteq> D"
  shows "xor_all mix zero (d # ds) = mix (xor_all mix zero ds) d"
proof -
  have one: "xor_all mix zero [d] = d"
    using assms(1) xor_commute [of zero d] by (simp add: xor_all_def)
  have "xor_all mix zero (d # ds) = mix (xor_all mix zero [d]) (xor_all mix zero ds)"
    using xor_all_append [of "[d]" ds] assms by simp
  with one show ?thesis using assms xor_commute [of d] by simp
qed

lemma xor_all_remove1:
  assumes "d \<in> set ds" and "set ds \<subseteq> D"
  shows "xor_all mix zero (remove1 d ds) = mix (xor_all mix zero ds) d"
proof -
  obtain us vs where ds: "ds = us @ d # vs" and "d \<notin> set us"
    using assms(1) by (meson split_list_first)
  then have r: "remove1 d ds = us @ vs" by (simp add: remove1_append)
  from ds assms(2) have D: "d \<in> D" "set us \<subseteq> D" "set vs \<subseteq> D" by auto
  then have "xor_all mix zero ds = mix (xor_all mix zero us) (mix (xor_all mix zero vs) d)"
    using ds xor_all_append [of us "d # vs"] xor_all_Cons [of d vs] by simp
  with D r show ?thesis by (simp add: xor_all_append xor_assoc)
qed

lemma xor_all_perm:
  "mset ds = mset es \<Longrightarrow> set ds \<subseteq> D \<Longrightarrow> xor_all mix zero ds = xor_all mix zero es"
proof (induction ds arbitrary: es)
  case (Cons d ds)
  then have "d \<in> set es" and "set es \<subseteq> D" and "mset ds = mset (remove1 d es)"
    by (metis list.set_intros(1) mset_eq_setD, metis mset_eq_setD, metis mset_remove1 remove1.simps(2))
  then have "xor_all mix zero ds = mix (xor_all mix zero es) d"
    using Cons.IH [of "remove1 d es"] Cons.prems(2) xor_all_remove1 [of d es] by simp
  then have "mix (xor_all mix zero ds) d = xor_all mix zero es"
    using Cons.prems(2) \<open>set es \<subseteq> D\<close> by simp
  then show ?case using Cons.prems(2) by (simp add: xor_all_Cons)
qed simp

end

lemma xor_digest_nth:
  "length a = 32 \<Longrightarrow> length b = 32 \<Longrightarrow> xor_digest a b = map2 (XOR) a b"
  by (simp add: xor_digest_def case_prod_unfold)

interpretation xd: xor_digests "{d. length d = 32}" xor_digest xor_empty
proof
  show "xor_empty \<in> {d. length d = 32}" by (simp add: xor_empty_def)
qed (simp_all add: xor_digest_nth xor_empty_def list_eq_iff_nth_eq xor.assoc xor.commute
    xor.left_commute)

lemma fold_xor_in:
  "fold (\<lambda>(i, v) acc. xor_in e acc i v) records xor_empty =
   xor_all xor_digest xor_empty (map (\<lambda>(i, v). record_digest e i v) records)"
  by (induction records rule: rev_induct) (auto simp: xor_in_def xor_all_def)

text \<open>
  The XOR set-hash does not depend on the order of the records, and removing a record by
  folding it again gives the hash of the remaining records; \<^verbatim>\<open>blake3\<close> digests have 32 bytes.
\<close>

theorem xor_set_hash:
  assumes "\<And>s. length (blake3 e s) = 32" and "mset records = mset records'"
  shows "xor_table_hash e records = xor_table_hash e records'
    \<and> xor_out e (fold (\<lambda>(i, v) acc. xor_in e acc i v) (records @ [(i, v)]) xor_empty) i v =
      fold (\<lambda>(i, v) acc. xor_in e acc i v) records' xor_empty"
proof -
  let ?ds = "map (\<lambda>(i, v). record_digest e i v)"
  have len: "length (record_digest e i v) = 32" for i v
    by (simp add: record_digest_def digest_from_canonical_def assms(1))
  then have D: "set (?ds rs) \<subseteq> {d. length d = 32}" for rs by auto
  have perm: "xor_all xor_digest xor_empty (?ds records) = xor_all xor_digest xor_empty (?ds records')"
    by (rule xd.xor_all_perm [OF _ D]) (simp add: assms(2))
  have "xor_digest (xor_digest (xor_all xor_digest xor_empty (?ds records)) (record_digest e i v))
      (record_digest e i v) = xor_all xor_digest xor_empty (?ds records)"
    using len xd.xor_all_closed [OF D] by (intro xd.xor_cancel) auto
  with perm show ?thesis
    by (simp only: xor_table_hash_def fold_append comp_apply fold_xor_in xor_out_def)
      (simp add: xor_in_def)
qed

theorem xor_set_hash_witness:
  "xor_table_hash sample_codec [(''a'', JBool True), (''b'', JNull)] =
   xor_table_hash sample_codec [(''b'', JNull), (''a'', JBool True)]"
  using xor_set_hash [of sample_codec "[(''a'', JBool True), (''b'', JNull)]"
      "[(''b'', JNull), (''a'', JBool True)]" "[]" JNull]
  by (simp add: sample_codec_def)

subsection \<open>Hexadecimal form\<close>

lemma unat_byte: "unat (b :: byte) < 256"
  using unsigned_less [of b] by simp

lemma digit_value_hex_digit: "n < 16 \<Longrightarrow> digit_value (hex_digit n) = Some n"
proof -
  have "list_all (\<lambda>n. digit_value (hex_digit n) = Some n) [0..<16]" by code_simp
  then show "n < 16 \<Longrightarrow> ?thesis" by (simp add: list_all_iff)
qed

lemma hex_digit_ascii: "n < 16 \<Longrightarrow> \<not> continuation_byte (hex_digit n) \<and> hex_digit n \<noteq> CHR ''+''"
  using digit_value_hex_digit [of n]
  by (auto simp: digit_value_def continuation_byte_def Let_def split: if_splits)

lemma byte_of_hex_hex_byte: "byte_of_hex (hex_digit (unat b div 16)) (hex_digit (unat b mod 16)) = Some b"
proof -
  have "unat b div 16 < 16" using unat_byte [of b] by (simp add: div_less_iff_less_mult)
  then show ?thesis
    by (simp add: byte_of_hex_def digit_value_hex_digit hex_digit_ascii)
qed

lemma hex_pairs_bytes: "hex_pairs (concat (map hex_byte ds)) = Ret (Some ds)"
proof (induction ds)
  case (Cons b ds)
  have hi: "unat b div 16 < 16" using unat_byte [of b] by (simp add: div_less_iff_less_mult)
  have "\<not> (case concat (map hex_byte ds) of [] \<Rightarrow> False | c # _ \<Rightarrow> continuation_byte c)"
  proof (cases ds)
    case (Cons c cs)
    have "unat c div 16 < 16" using unat_byte [of c] by (simp add: div_less_iff_less_mult)
    with Cons show ?thesis by (simp add: hex_byte_def hex_digit_ascii)
  qed simp
  with Cons.IH hi show ?case
    by (simp add: hex_byte_def [of b] hex_digit_ascii byte_of_hex_hex_byte)
qed simp

lemma xor_acc_hex:
  assumes "length acc = 32"
  shows "xor_acc_from_hex (xor_acc_to_hex acc) = Ret (Some acc)"
    and "length (xor_acc_to_hex acc) = 67"
proof -
  have "length (concat (map hex_byte acc)) = 2 * length acc"
    by (induction acc) (simp_all add: hex_byte_def)
  with assms show "xor_acc_from_hex (xor_acc_to_hex acc) = Ret (Some acc)"
    and "length (xor_acc_to_hex acc) = 67"
    unfolding xor_acc_from_hex_def xor_acc_to_hex_def strip_prefix_append option.case
    by (simp_all add: hex_pairs_bytes)
qed

text \<open>
  An accumulator printed as \<^verbatim>\<open>x3:<hex>\<close> parses back to itself, and the text has 67 bytes.
\<close>

theorem xor_hex_round_trip:
  assumes "length acc = 32"
  shows "xor_acc_from_hex (xor_acc_to_hex acc) = Ret (Some acc)
    \<and> length (xor_acc_to_hex acc) = 67"
  using xor_acc_hex [OF assms] by simp

theorem xor_hex_round_trip_witness:
  "xor_acc_from_hex (xor_acc_to_hex (replicate 32 171)) = Ret (Some (replicate 32 171))"
  using xor_hex_round_trip [of "replicate 32 171"] by simp


subsection \<open>Comparing two sides\<close>

lemma table_hash_pair_defined:
  "table_hash_pair e a b t \<noteq> None \<longleftrightarrow> t \<in> set (hm_keys a) \<union> set (hm_keys b)"
  by (simp add: table_hash_pair_def in_hm_keys split: option.splits)

text \<open>
  Comparing two hash maps reports exactly the tables on which the two sides disagree, with
  both hashes, a table missing on one side standing for an empty table in the other side's hash
  family; nothing is reported exactly when every table agrees in that sense.
\<close>

theorem diff_table_hashes_exact:
  "(m \<in> set (diff_table_hashes e a b) \<longleftrightarrow>
      table_hash_pair e a b (mm_table m) = Some (mm_a m, mm_b m) \<and> mm_a m \<noteq> mm_b m)
   \<and> (diff_table_hashes e a b = [] \<longleftrightarrow>
      (\<forall>t. case (hm_get a t, hm_get b t) of
             (Some x, Some y) \<Rightarrow> x = y
           | (Some x, None) \<Rightarrow> x = empty_hash_like e x
           | (None, Some y) \<Rightarrow> empty_hash_like e y = y
           | (None, None) \<Rightarrow> True))"
proof -
  let ?report = "\<lambda>t. case table_hash_pair e a b t of None \<Rightarrow> None
    | Some (av, bv) \<Rightarrow> if av = bv then None else Some \<lparr>mm_table = t, mm_a = av, mm_b = bv\<rparr>"
  have report: "?report t = Some m \<longleftrightarrow>
      t = mm_table m \<and> table_hash_pair e a b t = Some (mm_a m, mm_b m) \<and> mm_a m \<noteq> mm_b m" for t m
    by (cases m) (auto split: option.splits)
  have mem: "m \<in> set (diff_table_hashes e a b) \<longleftrightarrow>
      table_hash_pair e a b (mm_table m) = Some (mm_a m, mm_b m) \<and> mm_a m \<noteq> mm_b m" for m
    using table_hash_pair_defined [of e a b "mm_table m"]
    by (auto simp: diff_table_hashes_def set_map_filter report)
  have "diff_table_hashes e a b = [] \<longleftrightarrow>
      (\<forall>t p. table_hash_pair e a b t = Some p \<longrightarrow> fst p = snd p)"
  proof
    assume *: "diff_table_hashes e a b = []"
    show "\<forall>t p. table_hash_pair e a b t = Some p \<longrightarrow> fst p = snd p"
    proof (intro allI impI)
      fix t p assume "table_hash_pair e a b t = Some p"
      with * mem [of "\<lparr>mm_table = t, mm_a = fst p, mm_b = snd p\<rparr>"] show "fst p = snd p" by simp
    qed
  next
    assume *: "\<forall>t p. table_hash_pair e a b t = Some p \<longrightarrow> fst p = snd p"
    have "m \<notin> set (diff_table_hashes e a b)" for m
      using * mem [of m] by fastforce
    then show "diff_table_hashes e a b = []" by (metis list.set_intros(1) neq_Nil_conv)
  qed
  moreover have "(\<forall>p. table_hash_pair e a b t = Some p \<longrightarrow> fst p = snd p) \<longleftrightarrow>
      (case (hm_get a t, hm_get b t) of
             (Some x, Some y) \<Rightarrow> x = y
           | (Some x, None) \<Rightarrow> x = empty_hash_like e x
           | (None, Some y) \<Rightarrow> empty_hash_like e y = y
           | (None, None) \<Rightarrow> True)" for t
    by (cases "hm_get a t"; cases "hm_get b t") (simp_all add: table_hash_pair_def)
  ultimately show ?thesis using mem by simp
qed

end
