(* ===== verification/Range_Hash.thy ===== *)
theory Range_Hash
  imports Snapshot_Hash
begin

section \<open>Per-range table hashes\<close>

text \<open>
  Model of \<^verbatim>\<open>packages/ssp-protocol/src/range_hash.rs\<close>: a table's XOR set-hash split by
  record id into ranges, each with an accumulator and a row count. An index out of range panics
  in the code and is \<open>Panic\<close> here; \<^verbatim>\<open>usize\<close> indices are \<open>nat\<close>, counts are
  \<^verbatim>\<open>u64\<close>. The slice method \<^verbatim>\<open>partition_point\<close> is its documented result on a
  partitioned slice, the length of the leading part. The lemmas use the interface
  \<open>xor_digests\<close> through its interpretation \<open>xd\<close>.
\<close>

definition RANGE_ROWS :: nat where "RANGE_ROWS = 1000"
definition MAX_RANGES :: nat where "MAX_RANGES = 1024"
definition OVERGROWN_FACTOR :: nat where "OVERGROWN_FACTOR = 4"

definition is_ascii_digit :: "char \<Rightarrow> bool" where
  "is_ascii_digit c \<longleftrightarrow> 48 \<le> (of_char c :: nat) \<and> (of_char c :: nat) \<le> 57"

definition is_ascii_alphanumeric :: "char \<Rightarrow> bool" where
  "is_ascii_alphanumeric c \<longleftrightarrow> is_ascii_digit c
     \<or> 65 \<le> (of_char c :: nat) \<and> (of_char c :: nat) \<le> 90
     \<or> 97 \<le> (of_char c :: nat) \<and> (of_char c :: nat) \<le> 122"

definition bracketed :: "string \<Rightarrow> string \<Rightarrow> string \<Rightarrow> string option" where
  "bracketed l r s = (case strip_prefix s l of None \<Rightarrow> None | Some t \<Rightarrow> strip_suffix t r)"

definition open_bracket :: string where "open_bracket = [CHR 0xE2, CHR 0x9F, CHR 0xA8]"
definition close_bracket :: string where "close_bracket = [CHR 0xE2, CHR 0x9F, CHR 0xA9]"

definition string_key :: "string \<Rightarrow> string option" where
  "string_key raw =
     (let (key, quoted) =
        (case (case bracketed [CHR 0x60] [CHR 0x60] raw of
                 Some inner \<Rightarrow> Some inner
               | None \<Rightarrow> bracketed open_bracket close_bracket raw) of
           Some inner \<Rightarrow> (inner, True)
         | None \<Rightarrow> (raw, False));
        plain = (key \<noteq> [] \<and>
          list_all (\<lambda>b. is_ascii_alphanumeric b \<or> b = CHR ''_'' \<or> b = CHR ''-'') key);
        digits = (case strip_prefix key ''-'' of Some d \<Rightarrow> d | None \<Rightarrow> key);
        numeric = (\<not> quoted \<and> digits \<noteq> [] \<and> list_all is_ascii_digit digits)
      in if plain \<and> \<not> numeric then Some key else None)"

definition range_target :: "string \<Rightarrow> string option \<Rightarrow> string option \<Rightarrow> string" where
  "range_target table lo hi =
     (let q = (\<lambda>s. open_bracket @ s @ close_bracket)
      in case (lo, hi) of
           (None, None) \<Rightarrow> table
         | (Some l, None) \<Rightarrow> table @ '':'' @ q l @ ''..''
         | (None, Some h) \<Rightarrow> table @ '':..'' @ q h
         | (Some l, Some h) \<Rightarrow> table @ '':'' @ q l @ ''..'' @ q h)"

definition range_target_after :: "string \<Rightarrow> string \<Rightarrow> string option \<Rightarrow> string" where
  "range_target_after table after hi =
     (let q = (\<lambda>s. open_bracket @ s @ close_bracket)
      in case hi of
           None \<Rightarrow> table @ '':'' @ q after @ ''>..''
         | Some h \<Rightarrow> table @ '':'' @ q after @ ''>..'' @ q h)"

record range_hashes =
  rh_starts :: "string list"
  rh_accs :: "digest list"
  rh_counts :: "u64 list"

fun windows_increasing :: "string list \<Rightarrow> bool" where
  "windows_increasing (x # y # r) = (x < y \<and> windows_increasing (y # r))"
| "windows_increasing _ = True"

definition with_starts :: "string list \<Rightarrow> range_hashes option" where
  "with_starts starts0 =
     (let starts1 = (if starts0 = [] then ['''' ] else starts0);
          starts = starts1[0 := ''''];
          ordered = windows_increasing starts;
          keys = list_all (\<lambda>s. string_key s = Some s) (tl starts)
      in if \<not> ordered \<or> \<not> keys then None
         else Some \<lparr>rh_starts = starts, rh_accs = replicate (length starts) xor_empty,
                    rh_counts = replicate (length starts) 0\<rparr>)"

text \<open>\<^verbatim>\<open>into_iter().step_by(n)\<close>: the first element and every \<open>n\<close>-th after it.\<close>

function step_by :: "nat \<Rightarrow> 'a list \<Rightarrow> 'a list" where
  "step_by n [] = []"
| "step_by n (x # xs) = x # step_by n (drop (n - 1) xs)"
  by pat_completeness auto
termination
  by (relation "measure (\<lambda>(n, xs). length xs)") auto

definition div_ceil :: "nat \<Rightarrow> nat \<Rightarrow> nat" where
  "div_ceil a b = (a + b - 1) div b"

definition from_boundaries :: "string list \<Rightarrow> range_hashes option" where
  "from_boundaries keys =
     (let step = max (div_ceil (length keys) MAX_RANGES) 1
      in with_starts (step_by step keys))"

definition rh_len :: "range_hashes \<Rightarrow> nat" where
  "rh_len r = length (rh_starts r)"

definition rh_rows :: "range_hashes \<Rightarrow> u64" where
  "rh_rows r = sum_list (rh_counts r)"

definition partition_point :: "('a \<Rightarrow> bool) \<Rightarrow> 'a list \<Rightarrow> nat" where
  "partition_point p xs = length (takeWhile p xs)"

definition range_of_key :: "range_hashes \<Rightarrow> string \<Rightarrow> nat" where
  "range_of_key r key = partition_point (\<lambda>s. s \<le> key) (rh_starts r) - 1"

definition range_of :: "range_hashes \<Rightarrow> string \<Rightarrow> nat option" where
  "range_of r raw = map_option (range_of_key r) (string_key raw)"

definition range_bounds :: "range_hashes \<Rightarrow> nat \<Rightarrow> string option \<times> string option" where
  "range_bounds r i =
     ((if 0 < i then Some (rh_starts r ! i) else None),
      (if i + 1 < length (rh_starts r) then Some (rh_starts r ! (i + 1)) else None))"

definition range_target_of :: "range_hashes \<Rightarrow> string \<Rightarrow> nat \<Rightarrow> string" where
  "range_target_of r table i = (case range_bounds r i of (lo, hi) \<Rightarrow> range_target table lo hi)"

definition add_at :: "range_hashes \<Rightarrow> nat \<Rightarrow> digest \<Rightarrow> range_hashes outcome" where
  "add_at r i d =
     (if i < length (rh_accs r) \<and> i < length (rh_counts r)
      then Ret (r\<lparr>rh_accs := (rh_accs r)[i := xor_digest (rh_accs r ! i) d],
                  rh_counts := (rh_counts r)[i := rh_counts r ! i + 1]\<rparr>)
      else Panic)"

definition saturating_sub :: "u64 \<Rightarrow> u64 \<Rightarrow> u64" where
  "saturating_sub a b = (if a < b then 0 else a - b)"

definition remove_at :: "range_hashes \<Rightarrow> nat \<Rightarrow> digest \<Rightarrow> range_hashes outcome" where
  "remove_at r i d =
     (if i < length (rh_accs r) \<and> i < length (rh_counts r)
      then Ret (r\<lparr>rh_accs := (rh_accs r)[i := xor_digest (rh_accs r ! i) d],
                  rh_counts := (rh_counts r)[i := saturating_sub (rh_counts r ! i) 1]\<rparr>)
      else Panic)"

definition rh_total :: "range_hashes \<Rightarrow> digest" where
  "rh_total r = fold (\<lambda>a acc. xor_digest acc a) (rh_accs r) xor_empty"

fun accumulate_loop ::
    "range_hashes \<Rightarrow> (string \<times> digest) list \<Rightarrow> digest list \<Rightarrow> digest list option" where
  "accumulate_loop r [] accs = Some accs"
| "accumulate_loop r ((i, d) # rows) accs =
     (case range_of r i of
        None \<Rightarrow> None
      | Some j \<Rightarrow> accumulate_loop r rows (accs[j := xor_digest (accs ! j) d]))"

definition accumulate :: "range_hashes \<Rightarrow> (string \<times> digest) list \<Rightarrow> digest list option" where
  "accumulate r rows = accumulate_loop r rows (replicate (rh_len r) xor_empty)"

definition differing :: "range_hashes \<Rightarrow> digest list \<Rightarrow> nat list" where
  "differing r other =
     filter (\<lambda>i. (if i < length other then Some (other ! i) else None) \<noteq> Some (rh_accs r ! i))
       [0..<rh_len r]"

definition overgrown :: "range_hashes \<Rightarrow> bool" where
  "overgrown r =
     (let share = max (unat (rh_rows r) div MAX_RANGES) RANGE_ROWS
      in list_ex (\<lambda>c. OVERGROWN_FACTOR * share < unat c) (rh_counts r))"

record table_ranges =
  tr_table :: string
  tr_hash :: string
  tr_starts :: "string list"
  tr_hashes :: "string list"
  tr_counts :: "u64 list"

definition to_wire :: "range_hashes \<Rightarrow> string \<Rightarrow> table_ranges" where
  "to_wire r table =
     \<lparr>tr_table = table, tr_hash = xor_acc_to_hex (rh_total r), tr_starts = rh_starts r,
      tr_hashes = map xor_acc_to_hex (rh_accs r), tr_counts = rh_counts r\<rparr>"

fun parse_accs :: "string list \<Rightarrow> digest list option outcome" where
  "parse_accs [] = Ret (Some [])"
| "parse_accs (h # hs) =
     (case xor_acc_from_hex h of
        Panic \<Rightarrow> Panic
      | Ret None \<Rightarrow> Ret None
      | Ret (Some a) \<Rightarrow>
          (case parse_accs hs of Panic \<Rightarrow> Panic | Ret r \<Rightarrow> Ret (map_option ((#) a) r)))"

definition from_wire :: "table_ranges \<Rightarrow> range_hashes option outcome" where
  "from_wire wire =
     (let n = length (tr_starts wire) in
      if n = 0 \<or> length (tr_hashes wire) \<noteq> n \<or> length (tr_counts wire) \<noteq> n
         \<or> tr_starts wire ! 0 \<noteq> [] then Ret None
      else case with_starts (tr_starts wire) of
        None \<Rightarrow> Ret None
      | Some ranges \<Rightarrow>
          (case parse_accs (tr_hashes wire) of
             Panic \<Rightarrow> Panic
           | Ret None \<Rightarrow> Ret None
           | Ret (Some accs) \<Rightarrow>
               (let ranges' = ranges\<lparr>rh_accs := accs, rh_counts := tr_counts wire\<rparr>
                in Ret (if xor_acc_to_hex (rh_total ranges') = tr_hash wire
                        then Some ranges' else None))))"

subsection \<open>The representation invariant\<close>

definition rh_inv :: "range_hashes \<Rightarrow> bool" where
  "rh_inv r \<longleftrightarrow> rh_starts r \<noteq> [] \<and> hd (rh_starts r) = [] \<and> sorted_wrt (<) (rh_starts r)
     \<and> list_all (\<lambda>s. string_key s = Some s) (tl (rh_starts r))
     \<and> length (rh_accs r) = length (rh_starts r) \<and> length (rh_counts r) = length (rh_starts r)
     \<and> list_all (\<lambda>a. length a = 32) (rh_accs r)"

lemma windows_increasing_iff: "windows_increasing xs \<longleftrightarrow> sorted_wrt (<) xs"
  by (induction xs rule: windows_increasing.induct) (auto intro: less_trans)

lemma with_starts_inv: "with_starts ss = Some r \<Longrightarrow> rh_inv r"
  by (cases ss) (auto simp: with_starts_def rh_inv_def windows_increasing_iff Let_def
      xor_empty_def list_all_iff split: if_splits)

lemma length_xor_digest [simp]: "length (xor_digest a d) = length a"
  by (simp add: xor_digest_def)

lemma rh_inv_add_at: "rh_inv r \<Longrightarrow> add_at r i d = Ret r' \<Longrightarrow> rh_inv r'"
  by (auto simp: add_at_def rh_inv_def list_all_length nth_list_update split: if_splits)

lemma rh_inv_remove_at: "rh_inv r \<Longrightarrow> remove_at r i d = Ret r' \<Longrightarrow> rh_inv r'"
  by (auto simp: remove_at_def rh_inv_def list_all_length nth_list_update split: if_splits)

lemma takeWhile_sorted_le:
  assumes "sorted_wrt (<) xs" and "i < length xs"
  shows "i < length (takeWhile (\<lambda>s. s \<le> key) xs) \<longleftrightarrow> xs ! i \<le> (key :: 'a::linorder)"
  using assms
proof (induction xs arbitrary: i)
  case (Cons x xs)
  show ?case
  proof (cases "x \<le> key")
    case True
    with Cons show ?thesis by (cases i) auto
  next
    case False
    with Cons.prems have "\<not> (x # xs) ! i \<le> key"
      by (cases i) (auto dest!: nth_mem dest: less_le_trans)
    with False show ?thesis by simp
  qed
qed simp

lemma range_of_key_bounds:
  assumes "rh_inv r"
  shows "range_of_key r key < rh_len r"
    and "rh_starts r ! range_of_key r key \<le> key"
    and "j < rh_len r \<Longrightarrow> rh_starts r ! j \<le> key \<longleftrightarrow> j \<le> range_of_key r key"
proof -
  let ?n = "length (takeWhile (\<lambda>s. s \<le> key) (rh_starts r))"
  have s: "sorted_wrt (<) (rh_starts r)" and ne: "0 < length (rh_starts r)"
    and hd: "rh_starts r ! 0 = []"
    using assms by (auto simp: rh_inv_def hd_conv_nth)
  have "0 < ?n" using takeWhile_sorted_le [OF s ne, of key] hd by simp
  moreover have "?n \<le> length (rh_starts r)" by (rule length_takeWhile_le)
  ultimately have k: "range_of_key r key < length (rh_starts r)" "range_of_key r key < ?n"
    unfolding range_of_key_def partition_point_def by linarith+
  then show "range_of_key r key < rh_len r" by (simp add: rh_len_def)
  show "rh_starts r ! range_of_key r key \<le> key"
    using takeWhile_sorted_le [OF s k(1), of key] k(2) by simp
  show "j < rh_len r \<Longrightarrow> rh_starts r ! j \<le> key \<longleftrightarrow> j \<le> range_of_key r key"
    using takeWhile_sorted_le [OF s, of j key] \<open>0 < ?n\<close>
    unfolding rh_len_def range_of_key_def partition_point_def by linarith
qed

definition in_range :: "range_hashes \<Rightarrow> nat \<Rightarrow> string \<Rightarrow> bool" where
  "in_range r i key \<longleftrightarrow>
     (case range_bounds r i of (lo, hi) \<Rightarrow>
        (case lo of None \<Rightarrow> True | Some l \<Rightarrow> l \<le> key) \<and>
        (case hi of None \<Rightarrow> True | Some h \<Rightarrow> key < h))"

text \<open>
  C22. The ranges partition the string keys: every key lies in the half-open interval of the range
  \<^verbatim>\<open>range_of_key\<close> returns, that range exists, and no other range's interval holds the key.
\<close>

theorem ranges_partition_keys:
  assumes "with_starts starts = Some r" and "i < rh_len r"
  shows "range_of_key r key < rh_len r \<and> (in_range r i key \<longleftrightarrow> i = range_of_key r key)"
proof -
  have inv: "rh_inv r" using assms(1) by (rule with_starts_inv)
  note b = range_of_key_bounds [OF inv]
  have "rh_starts r ! 0 = []" using inv by (auto simp: rh_inv_def hd_conv_nth)
  then have "in_range r i key \<longleftrightarrow>
      rh_starts r ! i \<le> key \<and> (i + 1 < rh_len r \<longrightarrow> \<not> rh_starts r ! (i + 1) \<le> key)"
    by (cases "i = 0") (auto simp: in_range_def range_bounds_def rh_len_def not_le)
  also have "\<dots> \<longleftrightarrow> i = range_of_key r key"
    using assms(2) b(1) [of key] b(3) [of i key] b(3) [of "i + 1" key] by auto
  finally show ?thesis using b(1) by simp
qed

theorem ranges_partition_keys_witness:
  "\<exists>r. with_starts [''a'', ''m''] = Some r \<and> in_range r 1 ''q'' \<and> \<not> in_range r 0 ''q''"
proof -
  obtain r where r: "with_starts [''a'', ''m''] = Some r" and "rh_len r = 2"
    and "rh_starts r = [[], ''m'']"
    by (simp add: with_starts_def string_key_def bracketed_def strip_prefix_def open_bracket_def
        is_ascii_alphanumeric_def is_ascii_digit_def rh_len_def Let_def)
  then have "range_of_key r ''q'' = 1"
    by (simp add: range_of_key_def partition_point_def)
  then show ?thesis
    using r ranges_partition_keys [OF r, of 0 "''q''"] ranges_partition_keys [OF r, of 1 "''q''"]
      \<open>rh_len r = 2\<close> by auto
qed

subsection \<open>Range accumulators add up to the table hash\<close>

abbreviation xsum :: "digest list \<Rightarrow> digest" where
  "xsum \<equiv> xor_all xor_digest xor_empty"

lemma xsum_update:
  assumes "list_all (\<lambda>a. length a = 32) accs" and "j < length accs" and "length d = 32"
  shows "xsum (accs[j := xor_digest (accs ! j) d]) = xor_digest (xsum accs) d"
proof -
  let ?u = "take j accs" and ?v = "drop (Suc j) accs"
  have D: "set ?u \<subseteq> {d. length d = 32}" "set ?v \<subseteq> {d. length d = 32}" "length (accs ! j) = 32"
    using assms by (auto simp: list_all_iff dest: in_set_takeD in_set_dropD)
  have split: "xsum (?u @ a # ?v) = xor_digest (xor_digest (xsum ?u) (xsum ?v)) a"
    if "length a = 32" for a
    using D that xd.xor_all_closed [OF D(1)] xd.xor_all_closed [OF D(2)]
    by (subst xd.xor_all_append) (auto simp: xd.xor_all_Cons xd.xor_assoc)
  have "accs[j := a] = ?u @ a # ?v" for a using assms(2) by (rule upd_conv_take_nth_drop)
  moreover have "accs = ?u @ accs ! j # ?v" using assms(2) by (rule id_take_nth_drop)
  ultimately show ?thesis
    using split [of "accs ! j"] split [of "xor_digest (accs ! j) d"] D assms(3)
      xd.xor_all_closed [OF D(1)] xd.xor_all_closed [OF D(2)]
    by (simp add: xd.xor_assoc)
qed

lemma length_xor_empty [simp]: "length xor_empty = 32"
  by (simp add: xor_empty_def)

lemma accumulate_loop_sum:
  assumes "rh_inv r" and "list_all (\<lambda>a. length a = 32) accs" and "length accs = rh_len r"
    and "\<forall>(i, d) \<in> set rows. length d = 32"
    and "accumulate_loop r rows accs = Some out"
  shows "xsum out = fold (\<lambda>d acc. xor_digest acc d) (map snd rows) (xsum accs)"
  using assms
proof (induction r rows accs rule: accumulate_loop.induct)
  case (2 r i d rows accs)
  then obtain j where j: "range_of r i = Some j"
    and run: "accumulate_loop r rows (accs[j := xor_digest (accs ! j) d]) = Some out"
    by (auto split: option.splits)
  then have "j < length accs"
    using 2 range_of_key_bounds(1) by (auto simp: range_of_def)
  moreover have "length d = 32" using 2 by simp
  ultimately show ?case
    using 2 j run
    by (simp add: xsum_update list_all_length nth_list_update)
qed simp

lemma length_accumulate_loop:
  "accumulate_loop r rows accs = Some out \<Longrightarrow> length out = length accs"
  by (induction r rows accs arbitrary: out rule: accumulate_loop.induct)
    (auto split: option.splits)

lemma xsum_replicate_empty [simp]: "xsum (replicate n xor_empty) = xor_empty"
proof -
  have "xor_digest xor_empty xor_empty = xor_empty" using xd.xor_self by (simp add: xor_empty_def)
  then show ?thesis
    by (induction n) (simp_all add: xor_all_def xor_empty_def)
qed

text \<open>
  C21. When another side's rows can be compared range by range, their range accumulators fold
  to the set-hash of exactly those rows; so if no range differs, the two sides have the same
  table hash.
\<close>

theorem ranges_fold_to_table_hash:
  assumes "rh_inv r" and "\<forall>(i, d) \<in> set rows. length d = 32"
    and "accumulate r rows = Some accs"
  shows "xsum accs = fold (\<lambda>(i, d) acc. xor_digest acc d) rows xor_empty
    \<and> (differing r accs = [] \<longrightarrow>
        rh_total r = fold (\<lambda>(i, d) acc. xor_digest acc d) rows xor_empty)"
proof -
  have run: "accumulate_loop r rows (replicate (rh_len r) xor_empty) = Some accs"
    using assms(3) by (simp add: accumulate_def)
  have "xsum accs = fold (\<lambda>d acc. xor_digest acc d) (map snd rows) xor_empty"
    using accumulate_loop_sum [OF assms(1) _ _ assms(2) run] by (simp add: list_all_length)
  then have sum: "xsum accs = fold (\<lambda>(i, d) acc. xor_digest acc d) rows xor_empty"
    by (simp add: fold_map comp_def case_prod_unfold)
  have len: "length accs = rh_len r"
    using length_accumulate_loop [OF run] by simp
  have "accs = rh_accs r" if "differing r accs = []"
  proof (rule nth_equalityI)
    show "length accs = length (rh_accs r)"
      using len assms(1) by (simp add: rh_inv_def rh_len_def)
    show "accs ! i = rh_accs r ! i" if "i < length accs" for i
      using \<open>differing r accs = []\<close> that len by (auto simp: differing_def filter_empty_conv)
  qed
  with sum show ?thesis by (auto simp: rh_total_def xor_all_def)
qed

theorem ranges_fold_to_table_hash_witness:
  "xsum [xor_empty, replicate 32 7] = replicate 32 7"
proof -
  let ?r = "\<lparr>rh_starts = [[], ''m''], rh_accs = [xor_empty, xor_empty], rh_counts = [0, 0]\<rparr>"
  have "string_key ''m'' = Some ''m''" "string_key ''q'' = Some ''q''"
    by (simp_all add: string_key_def bracketed_def strip_prefix_def open_bracket_def
        is_ascii_alphanumeric_def is_ascii_digit_def Let_def)
  then have inv: "rh_inv ?r"
    and acc: "accumulate ?r [(''q'', replicate 32 7)] = Some [xor_empty, replicate 32 7]"
    by (simp_all add: rh_inv_def accumulate_def rh_len_def range_of_def range_of_key_def
        partition_point_def numeral_2_eq_2 xor_digest_def xor_empty_def)
  show ?thesis
    using ranges_fold_to_table_hash [OF inv _ acc] by (simp add: xor_digest_def xor_empty_def)
qed

subsection \<open>The wire form\<close>

lemma parse_accs_map: "list_all (\<lambda>a. length a = 32) accs \<Longrightarrow>
    parse_accs (map xor_acc_to_hex accs) = Ret (Some accs)"
  by (induction accs) (simp_all add: xor_acc_hex)

text \<open>
  Ranges survive the wire: parsing what \<^verbatim>\<open>to_wire\<close> produced gives the same ranges, for
  every value that satisfies the representation invariant; and whatever \<^verbatim>\<open>from_wire\<close>
  accepts satisfies the invariant up to the accumulators' lengths and folds to the carried hash.
\<close>

theorem range_wire_round_trip:
  assumes "rh_inv r"
  shows "from_wire (to_wire r t) = Ret (Some r)
    \<and> (from_wire w = Ret (Some r') \<longrightarrow>
        rh_starts r' = tr_starts w \<and> rh_counts r' = tr_counts w
        \<and> xor_acc_to_hex (rh_total r') = tr_hash w)"
proof -
  have "(rh_starts r)[0 := []] = rh_starts r"
    using assms by (cases "rh_starts r") (auto simp: rh_inv_def)
  then have "with_starts (rh_starts r) = Some \<lparr>rh_starts = rh_starts r,
      rh_accs = replicate (length (rh_starts r)) xor_empty,
      rh_counts = replicate (length (rh_starts r)) 0\<rparr>"
    using assms by (auto simp: with_starts_def rh_inv_def windows_increasing_iff Let_def)
  then have "from_wire (to_wire r t) = Ret (Some r)"
    using assms
    by (auto simp: from_wire_def to_wire_def rh_inv_def parse_accs_map rh_total_def Let_def
        hd_conv_nth)
  moreover have "rh_starts r' = tr_starts w \<and> rh_counts r' = tr_counts w
      \<and> xor_acc_to_hex (rh_total r') = tr_hash w" if "from_wire w = Ret (Some r')"
  proof -
    have "rh_starts q = tr_starts w" if "with_starts (tr_starts w) = Some q" "tr_starts w \<noteq> []"
      "tr_starts w ! 0 = []" for q
      using that by (cases "tr_starts w") (auto simp: with_starts_def Let_def split: if_splits)
    with that show ?thesis
      by (auto simp: from_wire_def Let_def split: if_splits option.splits outcome.splits)
  qed
  ultimately show ?thesis by blast
qed

theorem range_wire_round_trip_witness:
  "from_wire (to_wire \<lparr>rh_starts = [[]], rh_accs = [replicate 32 7], rh_counts = [1]\<rparr> ''user'') =
   Ret (Some \<lparr>rh_starts = [[]], rh_accs = [replicate 32 7], rh_counts = [1]\<rparr>)"
  using range_wire_round_trip
    [of "\<lparr>rh_starts = [[]], rh_accs = [replicate 32 7], rh_counts = [1]\<rparr>" "''user''"]
  by (simp add: rh_inv_def)

end
