(* ===== verification/Ordered_Sets.thy ===== *)
theory Ordered_Sets
  imports Floats
begin

section \<open>Comparators and ordered sets\<close>

text \<open>
  The circuit keeps two structures in an \<^verbatim>\<open>indexset::BTreeSet\<close>: the buffer of a
  \<^verbatim>\<open>TopK\<close> (\<^verbatim>\<open>operator/top_k.rs\<close>) and the entries of an \<^verbatim>\<open>OrderedIndex\<close>
  (\<^verbatim>\<open>circuit/index.rs\<close>). The crate is not part of the repository, so its \<^verbatim>\<open>insert\<close> and
  \<^verbatim>\<open>remove\<close> are a parameter \<open>set_ops\<close> that acts on the set's contents in order; the locale
  \<open>ordered_set\<close> states what the crate documents of them. Reading by position, \<^verbatim>\<open>len\<close>,
  \<^verbatim>\<open>last\<close> and \<^verbatim>\<open>pop_last\<close> are the list operations on those contents.
  The locale \<open>total_cmp\<close> is the contract of \<^verbatim>\<open>Ord::cmp\<close> the crate relies on, on a domain of
  elements. \<open>list_set_ops\<close> is an instance, so the contract can be met.
\<close>

locale total_cmp =
  fixes c :: "'e \<Rightarrow> 'e \<Rightarrow> ordering" and D :: "'e \<Rightarrow> bool"
  assumes cmp_refl: "D x \<Longrightarrow> c x x = Equal"
    and cmp_swap: "D x \<Longrightarrow> D y \<Longrightarrow> c y x = ordering_reverse (c x y)"
    and cmp_subst: "D x \<Longrightarrow> D y \<Longrightarrow> D z \<Longrightarrow> c x y = Equal \<Longrightarrow> c x z = c y z"
    and cmp_trans: "D x \<Longrightarrow> D y \<Longrightarrow> D z \<Longrightarrow> c x y = Less \<Longrightarrow> c y z = Less \<Longrightarrow> c x z = Less"
begin

lemma not_Less_self: "D x \<Longrightarrow> c x x \<noteq> Less"
  by (simp add: cmp_refl)

lemma Greater_iff: "D x \<Longrightarrow> D y \<Longrightarrow> c x y = Greater \<longleftrightarrow> c y x = Less"
  using cmp_swap [of x y] by simp

lemma Equal_sym: "D x \<Longrightarrow> D y \<Longrightarrow> c x y = Equal \<longleftrightarrow> c y x = Equal"
  using cmp_swap [of x y] by simp

lemma Less_asym: "D x \<Longrightarrow> D y \<Longrightarrow> c x y = Less \<Longrightarrow> c y x \<noteq> Less"
  using cmp_swap [of x y] by simp

lemma not_Less_iff: "D x \<Longrightarrow> D y \<Longrightarrow> c x y \<noteq> Less \<longleftrightarrow> c y x = Less \<or> c y x = Equal"
  using cmp_swap [of x y] by (cases "c x y") auto

lemma le_less_trans:
  "D x \<Longrightarrow> D y \<Longrightarrow> D z \<Longrightarrow> c y x \<noteq> Less \<Longrightarrow> c y z = Less \<Longrightarrow> c x z = Less"
  using not_Less_iff [of y x] cmp_trans [of x y z] cmp_subst [of x y z] by auto

lemma less_le_trans:
  "D x \<Longrightarrow> D y \<Longrightarrow> D z \<Longrightarrow> c x y = Less \<Longrightarrow> c z y \<noteq> Less \<Longrightarrow> c x z = Less"
  using not_Less_iff [of z y] cmp_trans [of x y z] cmp_subst [of y z x] cmp_swap [of z x]
    cmp_swap [of y x] by auto

end

text \<open>Contents in order: strictly increasing, hence no two elements compare equal.\<close>

definition cmp_sorted :: "('e \<Rightarrow> 'e \<Rightarrow> ordering) \<Rightarrow> 'e list \<Rightarrow> bool" where
  "cmp_sorted c xs = sorted_wrt (\<lambda>a b. c a b = Less) xs"

lemma cmp_sorted_Nil [simp]: "cmp_sorted c []"
  by (simp add: cmp_sorted_def)

lemma cmp_sorted_Cons [simp]:
  "cmp_sorted c (x # xs) \<longleftrightarrow> (\<forall>y \<in> set xs. c x y = Less) \<and> cmp_sorted c xs"
  by (simp add: cmp_sorted_def)

lemma cmp_sorted_append:
  "cmp_sorted c (xs @ ys) \<longleftrightarrow>
     cmp_sorted c xs \<and> cmp_sorted c ys \<and> (\<forall>x \<in> set xs. \<forall>y \<in> set ys. c x y = Less)"
  by (simp add: cmp_sorted_def sorted_wrt_append)

lemma cmp_sorted_filter: "cmp_sorted c xs \<Longrightarrow> cmp_sorted c (filter p xs)"
  by (simp add: cmp_sorted_def sorted_wrt_filter)

context total_cmp
begin

lemma sorted_distinct: "list_all D xs \<Longrightarrow> cmp_sorted c xs \<Longrightarrow> distinct xs"
  by (induction xs) (auto simp: cmp_refl)

lemma sorted_unique:
  "list_all D xs \<Longrightarrow> list_all D ys \<Longrightarrow> cmp_sorted c xs \<Longrightarrow> cmp_sorted c ys \<Longrightarrow>
   set xs = set ys \<Longrightarrow> xs = ys"
proof (induction xs arbitrary: ys)
  case (Cons x xs)
  then obtain y ys' where ys: "ys = y # ys'" by (cases ys) auto
  have D: "D x" "D y" "list_all D xs" "list_all D ys'" using Cons.prems ys by auto
  have "x = y"
  proof (rule ccontr)
    assume "x \<noteq> y"
    then have "x \<in> set ys'" "y \<in> set xs" using Cons.prems(5) ys by auto
    then show False using Cons.prems ys D Less_asym by auto
  qed
  moreover have "x \<notin> set xs" "y \<notin> set ys'"
    using Cons.prems(3,4) ys not_Less_self D by auto
  then have "set xs = set ys'" using Cons.prems(5) ys \<open>x = y\<close> by auto
  ultimately show ?case using Cons.IH [of ys'] Cons.prems ys D by auto
qed simp

end

subsection \<open>Sorting a vector\<close>

text \<open>\<^verbatim>\<open>slice::sort\<close>: a stable sort by \<^verbatim>\<open>Ord::cmp\<close>.\<close>

fun cmp_insort :: "('e \<Rightarrow> 'e \<Rightarrow> ordering) \<Rightarrow> 'e \<Rightarrow> 'e list \<Rightarrow> 'e list" where
  "cmp_insort c x [] = [x]"
| "cmp_insort c x (y # ys) = (if c y x = Less then y # cmp_insort c x ys else x # y # ys)"

definition cmp_sort :: "('e \<Rightarrow> 'e \<Rightarrow> ordering) \<Rightarrow> 'e list \<Rightarrow> 'e list" where
  "cmp_sort c xs = foldr (cmp_insort c) xs []"

lemma set_cmp_insort [simp]: "set (cmp_insort c x ys) = insert x (set ys)"
  by (induction ys) auto

lemma set_cmp_sort [simp]: "set (cmp_sort c xs) = set xs"
  by (induction xs) (auto simp: cmp_sort_def)

lemma length_cmp_insort [simp]: "length (cmp_insort c x ys) = Suc (length ys)"
  by (induction ys) auto

lemma length_cmp_sort [simp]: "length (cmp_sort c xs) = length xs"
  by (induction xs) (auto simp: cmp_sort_def)

context total_cmp
begin

lemma cmp_sorted_insort:
  "D x \<Longrightarrow> list_all D ys \<Longrightarrow> cmp_sorted c ys \<Longrightarrow> \<forall>y \<in> set ys. c y x \<noteq> Equal \<Longrightarrow>
   cmp_sorted c (cmp_insort c x ys)"
proof (induction ys)
  case (Cons y ys)
  show ?case
  proof (cases "c y x = Less")
    case False
    then have "c x y = Less" using Cons.prems cmp_swap [of x y] by (cases "c x y") auto
    then show ?thesis
      using Cons.prems False cmp_trans [of x y] by (auto simp: list_all_iff)
  qed (use Cons in auto)
qed simp

lemma cmp_sorted_sort:
  assumes "list_all D xs" and "distinct xs"
    and "\<forall>x \<in> set xs. \<forall>y \<in> set xs. c x y = Equal \<longrightarrow> x = y"
  shows "cmp_sorted c (cmp_sort c xs)"
  using assms
proof (induction xs)
  case (Cons x xs)
  then have "cmp_sorted c (cmp_sort c xs)" by simp
  moreover have "\<forall>y \<in> set (cmp_sort c xs). c y x \<noteq> Equal" using Cons.prems by auto
  moreover have "list_all D (cmp_sort c xs)" using Cons.prems by (simp add: list_all_iff)
  ultimately show ?case
    using Cons.prems cmp_sorted_insort by (simp add: cmp_sort_def)
qed (simp add: cmp_sort_def)

end

subsection \<open>The ordered set\<close>

record 'e set_ops =
  so_insert :: "'e \<Rightarrow> 'e list \<Rightarrow> bool \<times> 'e list"
  so_remove :: "'e \<Rightarrow> 'e list \<Rightarrow> bool \<times> 'e list"

text \<open>
  \<open>fresh c x s\<close>: no other element of \<open>s\<close> compares equal to \<open>x\<close>, so that asking for an element
  that compares equal to \<open>x\<close> asks for \<open>x\<close>.
\<close>

definition fresh :: "('e \<Rightarrow> 'e \<Rightarrow> ordering) \<Rightarrow> 'e \<Rightarrow> 'e list \<Rightarrow> bool" where
  "fresh c x s \<longleftrightarrow> (\<forall>y \<in> set s. c x y = Equal \<longrightarrow> y = x)"

locale ordered_set = total_cmp c D
  for c :: "'e \<Rightarrow> 'e \<Rightarrow> ordering" and D :: "'e \<Rightarrow> bool" +
  fixes ops :: "'e set_ops"
  assumes insert_contents: "D x \<Longrightarrow> list_all D s \<Longrightarrow> cmp_sorted c s \<Longrightarrow> fresh c x s \<Longrightarrow>
      so_insert ops x s = (b, s') \<Longrightarrow>
      b = (x \<notin> set s) \<and> set s' = insert x (set s) \<and> cmp_sorted c s'"
    and remove_contents: "D x \<Longrightarrow> list_all D s \<Longrightarrow> cmp_sorted c s \<Longrightarrow> fresh c x s \<Longrightarrow>
      so_remove ops x s = (b, s') \<Longrightarrow>
      b = (x \<in> set s) \<and> set s' = set s - {x} \<and> cmp_sorted c s'"
begin

lemma insert_simps:
  assumes "D x" and "list_all D s" and "cmp_sorted c s" and "fresh c x s"
  shows "set (snd (so_insert ops x s)) = insert x (set s)"
    and "cmp_sorted c (snd (so_insert ops x s))"
    and "list_all D (snd (so_insert ops x s))"
    and "fst (so_insert ops x s) = (x \<notin> set s)"
  using insert_contents [OF assms, of "fst (so_insert ops x s)" "snd (so_insert ops x s)"] assms
  by (auto simp: list_all_iff)

lemma remove_simps:
  assumes "D x" and "list_all D s" and "cmp_sorted c s" and "fresh c x s"
  shows "set (snd (so_remove ops x s)) = set s - {x}"
    and "cmp_sorted c (snd (so_remove ops x s))"
    and "list_all D (snd (so_remove ops x s))"
    and "fst (so_remove ops x s) = (x \<in> set s)"
  using remove_contents [OF assms, of "fst (so_remove ops x s)" "snd (so_remove ops x s)"] assms
  by (auto simp: list_all_iff)

lemma length_insert:
  assumes "D x" and "list_all D s" and "cmp_sorted c s" and "fresh c x s" and "x \<notin> set s"
  shows "length (snd (so_insert ops x s)) = Suc (length s)"
proof -
  have "length (snd (so_insert ops x s)) = card (insert x (set s))"
    using insert_simps(1-3) [OF assms(1-4)] sorted_distinct distinct_card by metis
  also have "\<dots> = Suc (length s)"
    using assms sorted_distinct distinct_card by (metis card_insert_disjoint finite_set)
  finally show ?thesis .
qed

end

text \<open>The contract can be met: a sorted list, inserted into and removed from by comparison.\<close>

fun list_insert :: "('e \<Rightarrow> 'e \<Rightarrow> ordering) \<Rightarrow> 'e \<Rightarrow> 'e list \<Rightarrow> bool \<times> 'e list" where
  "list_insert c x [] = (True, [x])"
| "list_insert c x (y # ys) =
     (case c x y of
        Less \<Rightarrow> (True, x # y # ys)
      | Equal \<Rightarrow> (False, y # ys)
      | Greater \<Rightarrow> (case list_insert c x ys of (b, zs) \<Rightarrow> (b, y # zs)))"

fun list_remove :: "('e \<Rightarrow> 'e \<Rightarrow> ordering) \<Rightarrow> 'e \<Rightarrow> 'e list \<Rightarrow> bool \<times> 'e list" where
  "list_remove c x [] = (False, [])"
| "list_remove c x (y # ys) =
     (case c x y of
        Less \<Rightarrow> (False, y # ys)
      | Equal \<Rightarrow> (True, ys)
      | Greater \<Rightarrow> (case list_remove c x ys of (b, zs) \<Rightarrow> (b, y # zs)))"

definition list_set_ops :: "('e \<Rightarrow> 'e \<Rightarrow> ordering) \<Rightarrow> 'e set_ops" where
  "list_set_ops c = \<lparr>so_insert = list_insert c, so_remove = list_remove c\<rparr>"

context total_cmp
begin

lemma list_insert_contents:
  "D x \<Longrightarrow> list_all D s \<Longrightarrow> cmp_sorted c s \<Longrightarrow> fresh c x s \<Longrightarrow> list_insert c x s = (b, s') \<Longrightarrow>
   b = (x \<notin> set s) \<and> set s' = insert x (set s) \<and> cmp_sorted c s'"
proof (induction s arbitrary: b s')
  case (Cons y ys)
  have irr: "c x x \<noteq> Less" using Cons.prems not_Less_self by blast
  show ?case
  proof (cases "c x y")
    case Less
    then have "\<forall>z \<in> set ys. c x z = Less"
      using Cons.prems cmp_trans [of x y] by (auto simp: list_all_iff)
    then show ?thesis using Cons.prems Less irr by auto
  next
    case Equal
    then have "y = x" using Cons.prems by (simp add: fresh_def)
    then show ?thesis using Cons.prems Equal by auto
  next
    case Greater
    then obtain zs where zs: "list_insert c x ys = (b, zs)" and s': "s' = y # zs"
      using Cons.prems by (auto split: prod.splits)
    have "b = (x \<notin> set ys) \<and> set zs = insert x (set ys) \<and> cmp_sorted c zs"
      using Cons zs by (auto simp: fresh_def)
    moreover have "c y x = Less" "x \<noteq> y"
      using Cons.prems Greater Greater_iff [of x y] cmp_refl [of x] by auto
    ultimately show ?thesis using Cons.prems s' by auto
  qed
qed simp

lemma list_remove_contents:
  "D x \<Longrightarrow> list_all D s \<Longrightarrow> cmp_sorted c s \<Longrightarrow> fresh c x s \<Longrightarrow> list_remove c x s = (b, s') \<Longrightarrow>
   b = (x \<in> set s) \<and> set s' = set s - {x} \<and> cmp_sorted c s'"
proof (induction s arbitrary: b s')
  case (Cons y ys)
  have irr: "c x x \<noteq> Less" using Cons.prems not_Less_self by blast
  show ?case
  proof (cases "c x y")
    case Less
    then have "\<forall>z \<in> set ys. c x z = Less"
      using Cons.prems cmp_trans [of x y] by (auto simp: list_all_iff)
    then show ?thesis using Cons.prems Less irr by auto
  next
    case Equal
    then have "y = x" using Cons.prems by (simp add: fresh_def)
    then show ?thesis using Cons.prems Equal irr by auto
  next
    case Greater
    then obtain zs where zs: "list_remove c x ys = (b, zs)" and s': "s' = y # zs"
      using Cons.prems by (auto split: prod.splits)
    have "b = (x \<in> set ys) \<and> set zs = set ys - {x} \<and> cmp_sorted c zs"
      using Cons zs by (auto simp: fresh_def)
    moreover have "x \<noteq> y" using Greater cmp_refl Cons.prems by auto
    ultimately show ?thesis using Cons.prems s' by auto
  qed
qed simp

end

lemma list_set_ops_ordered_set: "total_cmp c D \<Longrightarrow> ordered_set c D (list_set_ops c)"
  by (intro ordered_set.intro ordered_set_axioms.intro)
    (auto simp: list_set_ops_def dest: total_cmp.list_insert_contents
      total_cmp.list_remove_contents)

end
