(* ===== verification/Sort_Keys.thy ===== *)
theory Sort_Keys
  imports Values Ordered_Sets
begin

section \<open>Sort keys\<close>

text \<open>
  Model of the sort keys of \<^verbatim>\<open>packages/ssp/src/operator/top_k.rs\<close>: \<^verbatim>\<open>Scalar\<close> with its
  \<^verbatim>\<open>Ord\<close>, \<^verbatim>\<open>SortableValue\<close> (a scalar with the direction of its \<^verbatim>\<open>ORDER BY\<close> field), the
  lexicographic order of a \<^verbatim>\<open>SortKey\<close> and of an entry (sort key, then row key).
  The lemmas: on keys whose integers are below \<open>2 ^ 53\<close> in magnitude the order is a total
  one, which is what the ordered sets require; beyond that, an \<^verbatim>\<open>Int\<close> is compared with a
  \<^verbatim>\<open>Float\<close> after rounding and with another \<^verbatim>\<open>Int\<close> exactly, and the order has no
  transitive equality.
\<close>

datatype scalar =
    SNull
  | SBool bool
  | SInt i64
  | SFloat f64
  | SStr string
  | STop

record sortable_value =
  sv_scalar :: scalar
  sv_descending :: bool

type_synonym sort_key = "sortable_value list"

definition scalar_rank :: "scalar \<Rightarrow> nat" where
  "scalar_rank s =
     (case s of SNull \<Rightarrow> 0 | SBool _ \<Rightarrow> 1 | SInt _ \<Rightarrow> 2 | SFloat _ \<Rightarrow> 2 | SStr _ \<Rightarrow> 3 | STop \<Rightarrow> 255)"

fun scalar_cmp_same :: "scalar \<Rightarrow> scalar \<Rightarrow> ordering" where
  "scalar_cmp_same (SBool a) (SBool b) = cmp a b"
| "scalar_cmp_same (SInt a) (SInt b) = cmp (sint a) (sint b)"
| "scalar_cmp_same (SFloat a) (SFloat b) = f64_total_cmp a b"
| "scalar_cmp_same (SInt a) (SFloat b) = f64_total_cmp (f64_of_i64 a) b"
| "scalar_cmp_same (SFloat a) (SInt b) = f64_total_cmp a (f64_of_i64 b)"
| "scalar_cmp_same (SStr a) (SStr b) = cmp a b"
| "scalar_cmp_same _ _ = Equal"

definition scalar_cmp :: "scalar \<Rightarrow> scalar \<Rightarrow> ordering" where
  "scalar_cmp self other =
     (case cmp (scalar_rank self) (scalar_rank other) of
        Equal \<Rightarrow> scalar_cmp_same self other
      | non_equal \<Rightarrow> non_equal)"

definition sortable_cmp :: "sortable_value \<Rightarrow> sortable_value \<Rightarrow> ordering" where
  "sortable_cmp self other =
     (let base = scalar_cmp (sv_scalar self) (sv_scalar other)
      in if sv_descending self then ordering_reverse base else base)"

definition scalar_from_value :: "value_ref \<Rightarrow> scalar" where
  "scalar_from_value val =
     (case val of
        RMissing \<Rightarrow> SNull | RNull \<Rightarrow> SNull | RBool b \<Rightarrow> SBool b | RInt i \<Rightarrow> SInt i
      | RFloat f \<Rightarrow> SFloat f | RStr s \<Rightarrow> SStr s | RArr _ \<Rightarrow> SNull | RObj _ \<Rightarrow> SNull)"

definition sortable_from_value :: "value_ref \<Rightarrow> bool \<Rightarrow> sortable_value" where
  "sortable_from_value val descending =
     \<lparr>sv_scalar = scalar_from_value val, sv_descending = descending\<rparr>"

definition is_orderable :: "value_ref \<Rightarrow> bool" where
  "is_orderable val =
     (case val of RBool _ \<Rightarrow> True | RInt _ \<Rightarrow> True | RFloat _ \<Rightarrow> True | RStr _ \<Rightarrow> True | _ \<Rightarrow> False)"

text \<open>The derived order of vectors and of pairs.\<close>

fun lex_cmp :: "('a \<Rightarrow> 'a \<Rightarrow> ordering) \<Rightarrow> 'a list \<Rightarrow> 'a list \<Rightarrow> ordering" where
  "lex_cmp c [] [] = Equal"
| "lex_cmp c [] (_ # _) = Less"
| "lex_cmp c (_ # _) [] = Greater"
| "lex_cmp c (x # xs) (y # ys) = (case c x y of Equal \<Rightarrow> lex_cmp c xs ys | r \<Rightarrow> r)"

definition pair_cmp ::
  "('a \<Rightarrow> 'a \<Rightarrow> ordering) \<Rightarrow> 'a \<times> 'b::linorder \<Rightarrow> 'a \<times> 'b \<Rightarrow> ordering" where
  "pair_cmp c p q = (case c (fst p) (fst q) of Equal \<Rightarrow> cmp (snd p) (snd q) | r \<Rightarrow> r)"

abbreviation entry_cmp :: "sort_key \<times> row_key \<Rightarrow> sort_key \<times> row_key \<Rightarrow> ordering" where
  "entry_cmp \<equiv> pair_cmp (lex_cmp sortable_cmp)"

abbreviation index_entry_cmp :: "scalar list \<times> row_key \<Rightarrow> scalar list \<times> row_key \<Rightarrow> ordering" where
  "index_entry_cmp \<equiv> pair_cmp (lex_cmp scalar_cmp)"

subsection \<open>Total comparators\<close>

lemma total_cmp_key:
  assumes "\<And>x y. D x \<Longrightarrow> D y \<Longrightarrow> c x y = cmp (f x) (f y)"
  shows "total_cmp c D"
  using less_trans by unfold_locales (auto simp: assms ordering_reverse_cmp)

lemma total_cmp_cong:
  assumes "total_cmp c D" and "\<And>x. D' x \<Longrightarrow> D x" and "\<And>x y. D' x \<Longrightarrow> D' y \<Longrightarrow> c' x y = c x y"
  shows "total_cmp c' D'"
proof
  fix x y z assume D: "D' x" "D' y" "D' z"
  show "c' x z = c' y z" if "c' x y = Equal"
    using that D assms(2,3) total_cmp.cmp_subst [OF assms(1), of x y z] by simp
  show "c' x z = Less" if "c' x y = Less" "c' y z = Less"
    using that D assms(2,3) total_cmp.cmp_trans [OF assms(1), of x y z] by simp
next
  fix x y assume "D' x" "D' y"
  then show "c' y x = ordering_reverse (c' x y)"
    using assms(2,3) total_cmp.cmp_swap [OF assms(1), of x y] by simp
qed (simp add: assms(2,3) total_cmp.cmp_refl [OF assms(1)])

lemma total_cmp_on:
  assumes "total_cmp c D"
  shows "total_cmp (\<lambda>x y. c (f x) (f y)) (\<lambda>x. D (f x))"
proof
  fix x y z assume "D (f x)" "D (f y)" "D (f z)"
  note laws = total_cmp.cmp_subst [OF assms this] total_cmp.cmp_trans [OF assms this]
  show "c (f x) (f z) = c (f y) (f z)" if "c (f x) (f y) = Equal" by (rule laws(1)) fact
  show "c (f x) (f z) = Less" if "c (f x) (f y) = Less" "c (f y) (f z) = Less"
    using that by (rule laws(2))
next
  fix x y assume "D (f x)" "D (f y)"
  then show "c (f y) (f x) = ordering_reverse (c (f x) (f y))"
    by (rule total_cmp.cmp_swap [OF assms])
qed (simp add: total_cmp.cmp_refl [OF assms])

lemma total_cmp_reverse:
  assumes "total_cmp c D"
  shows "total_cmp (\<lambda>x y. ordering_reverse (c x y)) D"
proof
  fix x y z assume D: "D x" "D y" "D z"
  show "ordering_reverse (c x z) = Less"
    if "ordering_reverse (c x y) = Less" "ordering_reverse (c y z) = Less"
    using that D total_cmp.cmp_trans [OF assms, of z y x] total_cmp.Greater_iff [OF assms]
    by simp
  show "ordering_reverse (c x z) = ordering_reverse (c y z)"
    if "ordering_reverse (c x y) = Equal"
    using that D total_cmp.cmp_subst [OF assms, of x y z] by simp
next
  fix x y assume "D x" "D y"
  then show "ordering_reverse (c y x) = ordering_reverse (ordering_reverse (c x y))"
    using total_cmp.cmp_swap [OF assms, of x y] by simp
qed (simp add: total_cmp.cmp_refl [OF assms])

lemma total_cmp_then:
  assumes "total_cmp c1 D1" and "total_cmp c2 D2"
  shows "total_cmp (\<lambda>p q. case c1 (f p) (f q) of Equal \<Rightarrow> c2 (g p) (g q) | r \<Rightarrow> r)
    (\<lambda>p. D1 (f p) \<and> D2 (g p))"
proof
  fix x y z assume D: "D1 (f x) \<and> D2 (g x)" "D1 (f y) \<and> D2 (g y)" "D1 (f z) \<and> D2 (g z)"
  let ?c = "\<lambda>p q. case c1 (f p) (f q) of Equal \<Rightarrow> c2 (g p) (g q) | r \<Rightarrow> r"
  note L1 = total_cmp.cmp_subst [OF assms(1)] total_cmp.cmp_trans [OF assms(1)]
    and L2 = total_cmp.cmp_subst [OF assms(2)] total_cmp.cmp_trans [OF assms(2)]
  show "?c x z = ?c y z" if "?c x y = Equal"
  proof -
    have "c1 (f x) (f y) = Equal" "c2 (g x) (g y) = Equal"
      using that by (simp_all split: ordering.splits)
    then show ?thesis
      using D L1(1) [of "f x" "f y" "f z"] L2(1) [of "g x" "g y" "g z"]
      by (simp split: ordering.splits)
  qed
  show "?c x z = Less" if "?c x y = Less" "?c y z = Less"
  proof (cases "c1 (f x) (f y) = Equal")
    case True
    then show ?thesis
      using that D L1(1) [of "f x" "f y" "f z"] L2(2) [of "g x" "g y" "g z"]
      by (auto split: ordering.splits)
  next
    case False
    then have xy: "c1 (f x) (f y) = Less" using that by (simp split: ordering.splits)
    then have "c1 (f x) (f z) = Less"
      using that D L1(2) [of "f x" "f y" "f z"] total_cmp.less_le_trans [OF assms(1), of "f x" "f y" "f z"]
        total_cmp.Equal_sym [OF assms(1), of "f y" "f z"]
      by (auto split: ordering.splits)
    then show ?thesis by simp
  qed
next
  fix x y assume D: "D1 (f x) \<and> D2 (g x)" "D1 (f y) \<and> D2 (g y)"
  show "(case c1 (f y) (f x) of Equal \<Rightarrow> c2 (g y) (g x) | r \<Rightarrow> r) =
      ordering_reverse (case c1 (f x) (f y) of Equal \<Rightarrow> c2 (g x) (g y) | r \<Rightarrow> r)"
    using D total_cmp.cmp_swap [OF assms(1), of "f x" "f y"]
      total_cmp.cmp_swap [OF assms(2), of "g x" "g y"]
    by (cases "c1 (f x) (f y)") simp_all
qed (simp add: total_cmp.cmp_refl [OF assms(1)] total_cmp.cmp_refl [OF assms(2)])

lemma total_cmp_pair:
  assumes "total_cmp c D"
  shows "total_cmp (pair_cmp c) (\<lambda>p. D (fst p))"
proof -
  have snd: "total_cmp (\<lambda>x y. cmp (x :: 'b) y) (\<lambda>_. True)" by (rule total_cmp_key) simp
  show ?thesis
    using total_cmp_then [where f = fst and g = snd, OF assms snd]
    by (simp add: pair_cmp_def [abs_def])
qed

lemma total_cmp_lex:
  assumes "\<And>d. d \<in> set ds \<Longrightarrow> total_cmp c (D d)"
  shows "total_cmp (lex_cmp c) (\<lambda>xs. list_all2 D ds xs)"
  using assms
proof (induction ds)
  case Nil
  show ?case by unfold_locales simp_all
next
  case (Cons d ds)
  let ?D = "\<lambda>xs. list_all2 D (d # ds) xs"
  have "total_cmp (\<lambda>p q. case c (hd p) (hd q) of Equal \<Rightarrow> lex_cmp c (tl p) (tl q) | r \<Rightarrow> r)
      (\<lambda>p. D d (hd p) \<and> list_all2 D ds (tl p))"
    using Cons by (intro total_cmp_then) simp_all
  then show ?case
    by (rule total_cmp_cong) (auto simp: list_all2_Cons1 cong: ordering.case_cong)
qed

lemma pair_cmp_Equal: "pair_cmp c p q = Equal \<longleftrightarrow> c (fst p) (fst q) = Equal \<and> snd p = snd q"
  by (auto simp: pair_cmp_def split: ordering.splits)

subsection \<open>The order of scalars\<close>

text \<open>A scalar whose comparison with every other one is exact.\<close>

definition scalar_exact :: "scalar \<Rightarrow> bool" where
  "scalar_exact s = (case s of SInt i \<Rightarrow> \<bar>sint i\<bar> < 2 ^ 53 | _ \<Rightarrow> True)"

definition scalar_number :: "scalar \<Rightarrow> int" where
  "scalar_number s =
     (case s of SBool b \<Rightarrow> of_bool b | SInt i \<Rightarrow> f64_total_key (f64_of_i64 i)
      | SFloat f \<Rightarrow> f64_total_key f | _ \<Rightarrow> 0)"

definition scalar_text :: "scalar \<Rightarrow> string" where
  "scalar_text s = (case s of SStr t \<Rightarrow> t | _ \<Rightarrow> [])"

lemma f64_total_key_of_i64:
  assumes "\<bar>sint i\<bar> < 2 ^ 53"
  shows "f64_total_key (f64_of_i64 i) =
    (if sint i < 0 then - int (f64_bits_of_nat (nat (- sint i))) - 1
     else int (f64_bits_of_nat (nat (sint i))))"
proof -
  let ?n = "nat \<bar>sint i\<bar>"
  have "?n < 2 ^ 53" using assms by simp
  then have b: "f64_bits_of_nat ?n < 2047 * 2 ^ 52" by (rule f64_bits_bound)
  then have small: "int (f64_bits_of_nat ?n) < 2 ^ 63" by simp
  show ?thesis
  proof (cases "sint i < 0")
    case True
    let ?m = "f64_bits_of_nat (nat (- sint i))"
    have m: "?m < 2 ^ 63" using b True by simp
    have "unat (word_of_nat (2 ^ 63 + ?m) :: f64) = 2 ^ 63 + ?m"
      using m by (subst unat_of_nat) (simp del: of_nat_add)
    then have "unat (f64_of_i64 i) = 2 ^ 63 + ?m" using True by (simp only: f64_of_i64_def if_True)
    then have u: "uint (f64_of_i64 i) = 2 ^ 63 + int ?m" by (simp add: uint_nat)
    then show ?thesis
      using True m by (simp add: f64_total_key_def f64_negative_def f64_magnitude_def)
  next
    case False
    let ?m = "f64_bits_of_nat (nat (sint i))"
    have m: "?m < 2 ^ 63" using b False by simp
    have u: "uint (f64_of_i64 i) = int ?m"
      using False m by (simp add: f64_of_i64_def unat_of_nat uint_nat)
    then show ?thesis
      using False m by (simp add: f64_total_key_def f64_negative_def f64_magnitude_def)
  qed
qed

lemma f64_total_key_of_i64_less:
  assumes "\<bar>sint a\<bar> < 2 ^ 53" and "\<bar>sint b\<bar> < 2 ^ 53" and "sint a < sint b"
  shows "f64_total_key (f64_of_i64 a) < f64_total_key (f64_of_i64 b)"
proof -
  consider "0 \<le> sint a" | "sint a < 0" "0 \<le> sint b" | "sint b < 0" using assms(3) by linarith
  then show ?thesis
  proof cases
    case 1
    then have "f64_bits_of_nat (nat (sint a)) < f64_bits_of_nat (nat (sint b))"
      using assms by (intro f64_bits_mono) auto
    then show ?thesis using 1 assms by (simp add: f64_total_key_of_i64)
  next
    case 2
    then show ?thesis using assms by (simp add: f64_total_key_of_i64)
  next
    case 3
    then have "f64_bits_of_nat (nat (- sint b)) < f64_bits_of_nat (nat (- sint a))"
      using assms by (intro f64_bits_mono) auto
    then show ?thesis using 3 assms by (simp add: f64_total_key_of_i64)
  qed
qed

lemma cmp_sint_exact:
  assumes "\<bar>sint a\<bar> < 2 ^ 53" and "\<bar>sint b\<bar> < 2 ^ 53"
  shows "cmp (sint a) (sint b) = cmp (f64_total_key (f64_of_i64 a)) (f64_total_key (f64_of_i64 b))"
  using f64_total_key_of_i64_less [of a b] f64_total_key_of_i64_less [of b a] assms
  by (cases "sint a" "sint b" rule: linorder_cases)
    (auto simp: cmp_def dest: signed_word_eqI)

lemma cmp_of_bool: "cmp (of_bool a :: int) (of_bool b) = cmp a b"
  by (cases a; cases b) (simp_all add: cmp_def)

lemma scalar_cmp_key:
  assumes "scalar_exact a" and "scalar_exact b"
  shows "scalar_cmp a b =
    (case cmp (scalar_rank a) (scalar_rank b) of
       Equal \<Rightarrow> (case cmp (scalar_number a) (scalar_number b) of
                  Equal \<Rightarrow> cmp (scalar_text a) (scalar_text b) | r \<Rightarrow> r)
     | r \<Rightarrow> r)"
proof (cases "scalar_rank a = scalar_rank b")
  case True
  then show ?thesis using assms
    by (cases a; cases b)
      (simp_all add: scalar_cmp_def scalar_rank_def scalar_number_def scalar_text_def
        scalar_exact_def f64_total_cmp_def cmp_sint_exact cmp_of_bool split: ordering.splits)
next
  case False
  then show ?thesis by (simp add: scalar_cmp_def split: ordering.splits)
qed

lemma total_cmp_scalar: "total_cmp scalar_cmp scalar_exact"
proof -
  have all: "total_cmp (\<lambda>x y. cmp (f x) (f y)) (\<lambda>_. True)" for f :: "scalar \<Rightarrow> 'b::linorder"
    by (rule total_cmp_key) simp
  have "total_cmp
    (\<lambda>a b. case cmp (scalar_rank a) (scalar_rank b) of
       Equal \<Rightarrow> (case cmp (scalar_number a) (scalar_number b) of
                  Equal \<Rightarrow> cmp (scalar_text a) (scalar_text b) | r \<Rightarrow> r)
     | r \<Rightarrow> r) (\<lambda>_. True)"
    using total_cmp_then [OF all [of scalar_rank]
        total_cmp_then [OF all [of scalar_number] all [of scalar_text], of "\<lambda>x. x" "\<lambda>x. x"],
        of "\<lambda>x. x" "\<lambda>x. x"] by simp
  then show ?thesis by (rule total_cmp_cong) (simp_all add: scalar_cmp_key)
qed

definition key_exact :: "bool list \<Rightarrow> sort_key \<Rightarrow> bool" where
  "key_exact dirs k = list_all2 (\<lambda>d sv. sv_descending sv = d \<and> scalar_exact (sv_scalar sv)) dirs k"

lemma total_cmp_sortable:
  "total_cmp sortable_cmp (\<lambda>sv. sv_descending sv = d \<and> scalar_exact (sv_scalar sv))"
proof -
  have base: "total_cmp (\<lambda>x y. scalar_cmp (sv_scalar x) (sv_scalar y))
      (\<lambda>sv. sv_descending sv = d \<and> scalar_exact (sv_scalar sv))"
    by (rule total_cmp_cong [OF total_cmp_on [OF total_cmp_scalar, of sv_scalar]]) simp_all
  show ?thesis
    by (cases d; rule total_cmp_cong [OF base] total_cmp_cong [OF total_cmp_reverse [OF base]])
      (simp_all add: sortable_cmp_def)
qed

lemma total_cmp_entry: "total_cmp entry_cmp (\<lambda>e. key_exact dirs (fst e))"
  unfolding key_exact_def by (intro total_cmp_pair total_cmp_lex total_cmp_sortable)

lemma total_cmp_index_entry:
  "total_cmp index_entry_cmp (\<lambda>e. length (fst e) = n \<and> list_all scalar_exact (fst e))"
proof -
  have "total_cmp index_entry_cmp (\<lambda>e. list_all2 (\<lambda>_. scalar_exact) (replicate n ()) (fst e))"
    by (intro total_cmp_pair total_cmp_lex total_cmp_scalar)
  then show ?thesis
    by (rule total_cmp_cong) (auto simp: list_all2_conv_all_nth list_all_length)
qed

interpretation topk_set: ordered_set entry_cmp "\<lambda>e. key_exact dirs (fst e)"
    "list_set_ops entry_cmp" for dirs
  by (intro list_set_ops_ordered_set total_cmp_entry)

interpretation index_set: ordered_set index_entry_cmp
    "\<lambda>e. length (fst e) = n \<and> list_all scalar_exact (fst e)" "list_set_ops index_entry_cmp" for n
  by (intro list_set_ops_ordered_set total_cmp_index_entry)

lemma ilog2_2p53: "ilog2 9007199254740992 = 53" "ilog2 9007199254740993 = 53"
  by (simp_all add: ilog2.simps)

lemma f64_of_2p53:
  "f64_of_i64 9007199254740992 = 4845873199050653696"
  "f64_of_i64 9007199254740993 = 4845873199050653696"
  by (simp_all add: f64_of_i64_def f64_bits_of_nat_def ilog2_2p53)

text \<open>
  C23. The order of sort entries (sort key, then row key) is total on keys with the same field
  directions whose integers are below \<open>2 ^ 53\<close> in magnitude: comparing is reflexive,
  reversing the arguments reverses the answer, and both \<^verbatim>\<open>Less\<close> and \<^verbatim>\<open>Equal\<close> are
  transitive. Without the bound the order of scalars is not transitive: \<^verbatim>\<open>Int(2^53)\<close> and
  \<^verbatim>\<open>Int(2^53 + 1)\<close> both equal \<^verbatim>\<open>Float(2^53)\<close> and differ from each other.
\<close>

theorem sort_entry_order:
  "total_cmp entry_cmp (\<lambda>e. key_exact dirs (fst e))
   \<and> scalar_cmp (SInt 9007199254740992) (SFloat (f64_of_i64 9007199254740992)) = Equal
   \<and> scalar_cmp (SFloat (f64_of_i64 9007199254740992)) (SInt 9007199254740993) = Equal
   \<and> scalar_cmp (SInt 9007199254740992) (SInt 9007199254740993) = Less"
  by (simp add: total_cmp_entry scalar_cmp_def scalar_rank_def f64_of_2p53 f64_total_cmp_def)

end
