(* ===== verification/Indexes.thy ===== *)
theory Indexes
  imports Sort_Keys
begin

section \<open>Secondary indexes\<close>

text \<open>
  Model of \<^verbatim>\<open>IndexDef\<close> and \<^verbatim>\<open>OrderedIndex\<close> in \<^verbatim>\<open>packages/ssp/src/circuit/index.rs\<close>: the
  entries \<open>(indexed values, row key)\<close> in order, the accounted heap bytes, and the list of
  row ids a stepped build has still to read. The entries live in an \<^verbatim>\<open>indexset::BTreeSet\<close>,
  the parameter \<open>ops\<close>. \<^verbatim>\<open>SmolStr\<close> is a string, and an \<^verbatim>\<open>Instant\<close> a number of
  milliseconds.
\<close>

record index_def =
  idx_name :: string
  idx_fields :: "string list"

type_synonym index_key = "scalar list"
type_synonym index_ops = "(index_key \<times> row_key) set_ops"

record ordered_index =
  oi_def :: index_def
  oi_paths :: "path list"
  oi_entries :: "(index_key \<times> row_key) list"
  oi_heap :: nat
  oi_idle_since :: "nat option"
  oi_pending :: "string list option"

definition index_paths :: "index_def \<Rightarrow> path list" where
  "index_paths d = map path_new (idx_fields d)"

definition entry_heap :: "index_key \<Rightarrow> row_key \<Rightarrow> nat" where
  "entry_heap key row =
     sum_list (map (\<lambda>v. case v of SStr s \<Rightarrow> if 22 < length s then length s + 16 else 0 | _ \<Rightarrow> 0) key)
     + length row + 16"

definition index_new :: "index_def \<Rightarrow> ordered_index" where
  "index_new d = \<lparr>oi_def = d, oi_paths = index_paths d, oi_entries = [], oi_heap = 0,
     oi_idle_since = None, oi_pending = None\<rparr>"

definition is_complete :: "ordered_index \<Rightarrow> bool" where
  "is_complete idx = (oi_pending idx = None)"

definition key_of :: "ordered_index \<Rightarrow> value_ref \<Rightarrow> index_key" where
  "key_of idx row = map (\<lambda>p. sv_scalar (sortable_from_value (resolve_field row p) False)) (oi_paths idx)"

text \<open>
  \<^verbatim>\<open>key_of_shared\<close>: long strings go through \<open>seen\<close>, which stops growing at 4096 values.
\<close>

fun key_of_shared_loop ::
  "path list \<Rightarrow> value_ref \<Rightarrow> (string, string) hmap \<Rightarrow> index_key \<times> (string, string) hmap" where
  "key_of_shared_loop [] row seen = ([], seen)"
| "key_of_shared_loop (p # ps) row seen =
     (let field = resolve_field row p;
          (v, seen') =
            (case field of
               RStr s \<Rightarrow>
                 if 22 < length s then
                   (case hm_get seen s of
                      Some shared \<Rightarrow> (SStr shared, seen)
                    | None \<Rightarrow> (SStr s, if length seen < 4096 then hm_insert s s seen else seen))
                 else (sv_scalar (sortable_from_value field False), seen)
             | _ \<Rightarrow> (sv_scalar (sortable_from_value field False), seen));
          (vs, seen'') = key_of_shared_loop ps row seen'
      in (v # vs, seen''))"

definition key_of_shared ::
  "ordered_index \<Rightarrow> value_ref \<Rightarrow> (string, string) hmap \<Rightarrow> index_key \<times> (string, string) hmap" where
  "key_of_shared idx row seen = key_of_shared_loop (oi_paths idx) row seen"

definition index_insert :: "index_ops \<Rightarrow> index_key \<Rightarrow> row_key \<Rightarrow> ordered_index \<Rightarrow> ordered_index" where
  "index_insert ops key row idx =
     (case so_insert ops (key, row) (oi_entries idx) of (added, entries) \<Rightarrow>
        idx\<lparr>oi_entries := entries,
            oi_heap := if added then oi_heap idx + entry_heap key row else oi_heap idx\<rparr>)"

definition index_remove :: "index_ops \<Rightarrow> index_key \<Rightarrow> row_key \<Rightarrow> ordered_index \<Rightarrow> ordered_index" where
  "index_remove ops key row idx =
     (case so_remove ops (key, row) (oi_entries idx) of (removed, entries) \<Rightarrow>
        idx\<lparr>oi_entries := entries,
            oi_heap := if removed then oi_heap idx - entry_heap key row else oi_heap idx\<rparr>)"

definition index_insert_all ::
  "index_ops \<Rightarrow> (index_key \<times> row_key) list \<Rightarrow> ordered_index \<Rightarrow> ordered_index" where
  "index_insert_all ops entries idx =
     fold (\<lambda>(values, row). index_insert ops values row) (cmp_sort index_entry_cmp entries) idx"

definition index_fill ::
  "index_ops \<Rightarrow> (index_key \<times> row_key) list \<Rightarrow> ordered_index \<Rightarrow> ordered_index" where
  "index_fill ops entries idx = index_insert_all ops entries idx"

subsection \<open>Sharing strings does not change a key\<close>

definition shares_equal :: "(string, string) hmap \<Rightarrow> bool" where
  "shares_equal seen \<longleftrightarrow> (\<forall>s t. hm_get seen s = Some t \<longrightarrow> t = s)"

lemma key_of_shared_loop_eq:
  "shares_equal seen \<Longrightarrow> key_of_shared_loop ps row seen = (vs, seen') \<Longrightarrow>
   vs = map (\<lambda>p. sv_scalar (sortable_from_value (resolve_field row p) False)) ps \<and> shares_equal seen'"
proof (induction ps row seen arbitrary: vs seen' rule: key_of_shared_loop.induct)
  case (2 p ps row seen)
  obtain v seen1 where v: "(case resolve_field row p of
               RStr s \<Rightarrow>
                 if 22 < length s then
                   (case hm_get seen s of
                      Some shared \<Rightarrow> (SStr shared, seen)
                    | None \<Rightarrow> (SStr s, if length seen < 4096 then hm_insert s s seen else seen))
                 else (sv_scalar (sortable_from_value (resolve_field row p) False), seen)
             | _ \<Rightarrow> (sv_scalar (sortable_from_value (resolve_field row p) False), seen)) = (v, seen1)"
    by fastforce
  have "v = sv_scalar (sortable_from_value (resolve_field row p) False) \<and> shares_equal seen1"
    using v 2(2)
    by (cases "resolve_field row p")
      (auto simp: sortable_from_value_def scalar_from_value_def shares_equal_def
        split: if_splits option.splits)
  then show ?case using 2(1) [OF refl v [symmetric] refl] 2(3) v
    by (auto simp: Let_def split: prod.splits)
qed simp

lemma key_of_shared_eq:
  "shares_equal seen \<Longrightarrow> key_of_shared idx row seen = (vs, seen') \<Longrightarrow>
   vs = key_of idx row \<and> shares_equal seen'"
  using key_of_shared_loop_eq by (simp add: key_of_shared_def key_of_def)

subsection \<open>Contents of an index\<close>

text \<open>
  The domain on which entries are totally ordered: as many values as the index has fields, the
  integers exact.
\<close>

abbreviation entry_dom :: "nat \<Rightarrow> index_key \<times> row_key \<Rightarrow> bool" where
  "entry_dom n e \<equiv> length (fst e) = n \<and> list_all scalar_exact (fst e)"

definition index_lawful :: "ordered_index \<Rightarrow> bool" where
  "index_lawful idx \<longleftrightarrow> cmp_sorted index_entry_cmp (oi_entries idx)
     \<and> list_all (entry_dom (length (oi_paths idx))) (oi_entries idx)"

lemma length_key_of [simp]: "length (key_of idx row) = length (oi_paths idx)"
  by (simp add: key_of_def)

lemma key_of_paths: "oi_paths a = oi_paths b \<Longrightarrow> key_of a = key_of b"
  by (rule ext) (simp add: key_of_def)

lemma index_insert_fields [simp]:
  "oi_def (index_insert ops k r idx) = oi_def idx"
  "oi_paths (index_insert ops k r idx) = oi_paths idx"
  "oi_pending (index_insert ops k r idx) = oi_pending idx"
  by (simp_all add: index_insert_def split: prod.splits)

lemma index_remove_fields [simp]:
  "oi_def (index_remove ops k r idx) = oi_def idx"
  "oi_paths (index_remove ops k r idx) = oi_paths idx"
  "oi_pending (index_remove ops k r idx) = oi_pending idx"
  by (simp_all add: index_remove_def split: prod.splits)

lemma index_insert_all_fields [simp]:
  "oi_def (index_insert_all ops es idx) = oi_def idx"
  "oi_paths (index_insert_all ops es idx) = oi_paths idx"
  "oi_pending (index_insert_all ops es idx) = oi_pending idx"
proof -
  have "oi_def (fold (\<lambda>(k, r). index_insert ops k r) xs idx) = oi_def idx
      \<and> oi_paths (fold (\<lambda>(k, r). index_insert ops k r) xs idx) = oi_paths idx
      \<and> oi_pending (fold (\<lambda>(k, r). index_insert ops k r) xs idx) = oi_pending idx" for xs
    by (induction xs arbitrary: idx) auto
  then show "oi_def (index_insert_all ops es idx) = oi_def idx"
    "oi_paths (index_insert_all ops es idx) = oi_paths idx"
    "oi_pending (index_insert_all ops es idx) = oi_pending idx"
    by (simp_all add: index_insert_all_def)
qed

lemma fresh_by_row:
  "(\<And>k'. (k', r) \<in> set s \<Longrightarrow> k' = k) \<Longrightarrow> fresh index_entry_cmp (k, r) s"
  by (auto simp: fresh_def pair_cmp_Equal)

lemma index_insert_contents:
  assumes "ordered_set index_entry_cmp (entry_dom (length (oi_paths idx))) ops"
    and "index_lawful idx" and "entry_dom (length (oi_paths idx)) (k, r)"
    and "\<And>k'. (k', r) \<in> set (oi_entries idx) \<Longrightarrow> k' = k"
  shows "set (oi_entries (index_insert ops k r idx)) = insert (k, r) (set (oi_entries idx))"
    and "index_lawful (index_insert ops k r idx)"
proof -
  note L = ordered_set.insert_simps [OF assms(1), of "(k, r)" "oi_entries idx"]
  have e: "oi_entries (index_insert ops k r idx) = snd (so_insert ops (k, r) (oi_entries idx))"
    by (simp add: index_insert_def split: prod.splits)
  have f: "fresh index_entry_cmp (k, r) (oi_entries idx)" using assms(4) by (rule fresh_by_row)
  show "set (oi_entries (index_insert ops k r idx)) = insert (k, r) (set (oi_entries idx))"
    unfolding e using assms(2,3) f by (intro L(1)) (auto simp: index_lawful_def)
  show "index_lawful (index_insert ops k r idx)"
    using assms(2,3) f L(2,3) by (simp add: index_lawful_def e)
qed

lemma index_remove_contents:
  assumes "ordered_set index_entry_cmp (entry_dom (length (oi_paths idx))) ops"
    and "index_lawful idx" and "entry_dom (length (oi_paths idx)) (k, r)"
    and "\<And>k'. (k', r) \<in> set (oi_entries idx) \<Longrightarrow> k' = k"
  shows "set (oi_entries (index_remove ops k r idx)) = set (oi_entries idx) - {(k, r)}"
    and "index_lawful (index_remove ops k r idx)"
proof -
  note L = ordered_set.remove_simps [OF assms(1), of "(k, r)" "oi_entries idx"]
  have e: "oi_entries (index_remove ops k r idx) = snd (so_remove ops (k, r) (oi_entries idx))"
    by (simp add: index_remove_def split: prod.splits)
  have f: "fresh index_entry_cmp (k, r) (oi_entries idx)" using assms(4) by (rule fresh_by_row)
  show "set (oi_entries (index_remove ops k r idx)) = set (oi_entries idx) - {(k, r)}"
    unfolding e using assms(2,3) f by (intro L(1)) (auto simp: index_lawful_def)
  show "index_lawful (index_remove ops k r idx)"
    using assms(2,3) f L(2,3) by (simp add: index_lawful_def e)
qed

text \<open>One value vector per row key, as a relation on entries.\<close>

definition one_per_row :: "(index_key \<times> row_key) set \<Rightarrow> bool" where
  "one_per_row E \<longleftrightarrow> (\<forall>k r k'. (k, r) \<in> E \<longrightarrow> (k', r) \<in> E \<longrightarrow> k' = k)"

lemma one_per_rowD: "one_per_row E \<Longrightarrow> (k, r) \<in> E \<Longrightarrow> (k', r) \<in> E \<Longrightarrow> k' = k"
  unfolding one_per_row_def by blast

lemma one_per_row_subset: "one_per_row E \<Longrightarrow> F \<subseteq> E \<Longrightarrow> one_per_row F"
  unfolding one_per_row_def by blast

lemma index_fold_insert_contents:
  assumes "ordered_set index_entry_cmp (entry_dom (length (oi_paths idx))) ops"
    and "index_lawful idx" and "\<forall>e \<in> set es. entry_dom (length (oi_paths idx)) e"
    and "one_per_row (set es \<union> set (oi_entries idx))"
  shows "let idx' = fold (\<lambda>(values, row). index_insert ops values row) es idx
         in set (oi_entries idx') = set es \<union> set (oi_entries idx) \<and> index_lawful idx'"
  using assms
proof (induction es arbitrary: idx)
  case (Cons e es)
  obtain k r where e: "e = (k, r)" by (cases e)
  have "k' = k" if "(k', r) \<in> set (oi_entries idx)" for k'
    using one_per_rowD [OF Cons.prems(4), of k r k'] e that by simp
  moreover have "entry_dom (length (oi_paths idx)) (k, r)" using Cons.prems(3) e by simp
  ultimately have step:
    "set (oi_entries (index_insert ops k r idx)) = insert (k, r) (set (oi_entries idx))"
    "index_lawful (index_insert ops k r idx)"
    by (intro index_insert_contents [OF Cons.prems(1,2)]; blast)+
  have "one_per_row (set es \<union> set (oi_entries (index_insert ops k r idx)))"
    using Cons.prems(4) e step(1) by (elim one_per_row_subset) auto
  then show ?case
    using Cons.IH [of "index_insert ops k r idx"] Cons.prems(1,3) step e
    by (auto simp: Let_def)
qed simp

lemma index_insert_all_contents:
  assumes "ordered_set index_entry_cmp (entry_dom (length (oi_paths idx))) ops"
    and "index_lawful idx" and "\<forall>e \<in> set es. entry_dom (length (oi_paths idx)) e"
    and "one_per_row (set es \<union> set (oi_entries idx))"
  shows "set (oi_entries (index_insert_all ops es idx)) = set es \<union> set (oi_entries idx)"
    and "index_lawful (index_insert_all ops es idx)"
  using index_fold_insert_contents [OF assms(1,2), of "cmp_sort index_entry_cmp es"] assms(3,4)
  by (simp_all add: index_insert_all_def Let_def)

lemma index_new_simps [simp]:
  "oi_paths (index_new d) = index_paths d" "oi_def (index_new d) = d"
  "oi_entries (index_new d) = []" "oi_pending (index_new d) = None"
  by (simp_all add: index_new_def)

lemma index_lawful_new [simp]: "index_lawful (index_new d)"
  by (simp add: index_lawful_def)

end
