(* ===== verification/Row_Store.thy ===== *)
theory Row_Store
  imports Range_Hash Indexes
begin

section \<open>Base collections\<close>

text \<open>
  Model of \<^verbatim>\<open>packages/ssp/src/circuit/store.rs\<close>: a \<^verbatim>\<open>Collection\<close> (the rows of a table with
  their digests, the lazily built membership Z-set, the incremental XOR set-hash, the
  projection, the secondary indexes and the write counter) and the \<^verbatim>\<open>Store\<close> of all
  collections with the overlay of rows deleted in the current step.

  A \<^verbatim>\<open>RowTable\<close> is a map from raw ids to the decoded row and the digest stored in its head;
  \<^verbatim>\<open>rv_of\<close> reads the version the encoder lifts from the field \<^verbatim>\<open>_00_rv\<close>, whose sentinel
  \<^verbatim>\<open>i64::MIN\<close> stands for no version. \<open>cdc\<close> holds the serialisation and hash functions of
  third-party crates, \<open>ops\<close> the ordered set of the indexes. The canonicalisation buffer
  \<^verbatim>\<open>scratch\<close> and the clock readings carry no state and are left out.
\<close>

type_synonym row_table = "(string, value \<times> digest) hmap"

record collection =
  co_name :: string
  co_rows :: row_table
  co_membership :: "zset option"
  co_catchup_xor :: digest
  co_retained :: "string list option"
  co_indexes :: "(string, ordered_index) hmap"
  co_writes :: u64

record applied =
  ap_key :: row_key
  ap_weight :: weight
  ap_content_changed :: bool

record index_build_stats =
  st_indexes_built :: nat
  st_rows_indexed :: nat

datatype operation = OpCreate | OpUpdate | OpMerge | OpDelete

definition operation_weight :: "operation \<Rightarrow> weight" where
  "operation_weight op =
     (case op of OpCreate \<Rightarrow> 1 | OpUpdate \<Rightarrow> 0 | OpMerge \<Rightarrow> 0 | OpDelete \<Rightarrow> - 1)"

definition changes_content :: "operation \<Rightarrow> bool" where
  "changes_content op = (op \<in> {OpCreate, OpUpdate, OpMerge})"

text \<open>The row table.\<close>

definition rt_get :: "row_table \<Rightarrow> string \<Rightarrow> value_ref" where
  "rt_get rows i = from_opt (map_option fst (hm_get rows i))"

definition digest_of :: "row_table \<Rightarrow> string \<Rightarrow> digest option" where
  "digest_of rows i = map_option snd (hm_get rows i)"

definition lifted_rv :: "value \<Rightarrow> i64" where
  "lifted_rv v = (case value_get v ''_00_rv'' of Some (VInt rv) \<Rightarrow> rv | _ \<Rightarrow> - (2 ^ 63))"

definition rv_of :: "row_table \<Rightarrow> string \<Rightarrow> i64 option" where
  "rv_of rows i =
     (case hm_get rows i of
        None \<Rightarrow> None
      | Some (v, _) \<Rightarrow> if lifted_rv v \<noteq> - (2 ^ 63) then Some (lifted_rv v) else None)"

subsection \<open>Construction, membership and projection\<close>

definition collection_from_rows :: "string \<Rightarrow> row_table \<Rightarrow> digest \<Rightarrow> collection" where
  "collection_from_rows name rows acc =
     \<lparr>co_name = name, co_rows = rows, co_membership = None, co_catchup_xor = acc,
      co_retained = None, co_indexes = [], co_writes = 0\<rparr>"

definition collection_new :: "string \<Rightarrow> collection" where
  "collection_new name = collection_from_rows name [] xor_empty"

definition row_key_of :: "string \<Rightarrow> string \<Rightarrow> row_key" where
  "row_key_of name i = name @ CHR '':'' # i"

definition membership_zset :: "collection \<Rightarrow> zset" where
  "membership_zset c = fold (\<lambda>i z. hm_insert (row_key_of (co_name c) i) 1 z) (hm_keys (co_rows c)) []"

definition membership :: "collection \<Rightarrow> zset \<times> collection" where
  "membership c =
     (case co_membership c of
        Some z \<Rightarrow> (z, c)
      | None \<Rightarrow> (membership_zset c, c\<lparr>co_membership := Some (membership_zset c)\<rparr>))"

definition has_key :: "collection \<Rightarrow> string \<Rightarrow> bool" where
  "has_key c key = hm_contains (co_rows c) (raw_id key)"

definition release_membership :: "collection \<Rightarrow> collection" where
  "release_membership c = c\<lparr>co_membership := None\<rparr>"

definition bump_membership :: "row_key \<Rightarrow> weight \<Rightarrow> collection \<Rightarrow> collection" where
  "bump_membership key weight c =
     (case co_membership c of
        None \<Rightarrow> c
      | Some z \<Rightarrow>
          let entry = zget z key + weight;
              z' = (if entry = 0 then hm_remove key z else hm_insert key entry z)
          in c\<lparr>co_membership := Some z'\<rparr>)"

definition always_retained :: "string list" where
  "always_retained = [''id'', ''_00_rv'']"

definition project :: "collection \<Rightarrow> value \<Rightarrow> value" where
  "project c v =
     (case (co_retained c, v) of
        (Some keep, VObject m) \<Rightarrow>
          VObject (hm_retain (\<lambda>k _. k \<in> set keep \<or> k \<in> set always_retained) m)
      | (_, v) \<Rightarrow> v)"

subsection \<open>Indexes\<close>

definition index_entry :: "collection \<Rightarrow> ordered_index \<Rightarrow> string \<times> value \<times> digest \<Rightarrow> (string, string) hmap
    \<Rightarrow> (index_key \<times> row_key) \<times> (string, string) hmap" where
  "index_entry c idx e seen =
     (case e of (i, v, _) \<Rightarrow>
        case key_of_shared idx (from_value v) seen of (values, seen') \<Rightarrow>
          ((values, row_key_of (co_name c) i), seen'))"

fun index_entries_loop :: "collection \<Rightarrow> ordered_index \<Rightarrow> (string \<times> value \<times> digest) list
    \<Rightarrow> (string, string) hmap \<Rightarrow> (index_key \<times> row_key) list" where
  "index_entries_loop c idx [] seen = []"
| "index_entries_loop c idx (e # es) seen =
     (case index_entry c idx e seen of (entry, seen') \<Rightarrow>
        entry # index_entries_loop c idx es seen')"

definition build_index :: "index_ops \<Rightarrow> index_def \<Rightarrow> collection \<Rightarrow> ordered_index \<times> collection" where
  "build_index ops d c =
     (let idx = index_new d;
          (_, c') = membership c
      in (index_fill ops (index_entries_loop c idx (co_rows c) []) idx, c'))"

definition fill_pending :: "index_ops \<Rightarrow> collection \<Rightarrow> ordered_index \<Rightarrow> nat \<Rightarrow> nat \<times> ordered_index" where
  "fill_pending ops c idx max_rows =
     (case oi_pending idx of
        None \<Rightarrow> (0, idx)
      | Some pending \<Rightarrow>
          let take_n = min (length pending) max_rows;
              ids = drop (length pending - take_n) pending;
              rest = take (length pending - take_n) pending;
              idx' = idx\<lparr>oi_pending := if rest = [] then None else Some rest\<rparr>;
              found = List.map_filter (\<lambda>i. map_option (\<lambda>r. (i, r)) (hm_get (co_rows c) i)) ids;
              entries = index_entries_loop c idx' found []
          in (take_n, index_insert_all ops entries idx'))"

definition set_index :: "string \<Rightarrow> ordered_index \<Rightarrow> collection \<Rightarrow> collection" where
  "set_index name idx c = c\<lparr>co_indexes := hm_insert name idx (co_indexes c)\<rparr>"

definition drop_outdated_index :: "index_def \<Rightarrow> collection \<Rightarrow> collection" where
  "drop_outdated_index d c =
     (case hm_get (co_indexes c) (idx_name d) of
        Some built \<Rightarrow>
          if oi_def built \<noteq> d then c\<lparr>co_indexes := hm_remove (idx_name d) (co_indexes c)\<rparr> else c
      | None \<Rightarrow> c)"

definition with_index ::
  "index_ops \<Rightarrow> index_def \<Rightarrow> collection \<Rightarrow> ordered_index \<times> index_build_stats \<times> collection" where
  "with_index ops d c0 =
     (let c1 = drop_outdated_index d c0;
          (idx, built, rows, c2) =
            (case hm_get (co_indexes c1) (idx_name d) of
               Some idx \<Rightarrow> (idx, 0, 0, c1)
             | None \<Rightarrow> (case build_index ops d c1 of (idx, c) \<Rightarrow> (idx, 1, length (co_rows c1), c)));
          (idx', built', rows') =
            (if \<not> is_complete idx
             then (case fill_pending ops c2 idx usize_max of (n, i) \<Rightarrow> (i, Suc built, rows + n))
             else (idx, built, rows))
      in (idx', \<lparr>st_indexes_built = built', st_rows_indexed = rows'\<rparr>, set_index (idx_name d) idx' c2))"

text \<open>
  The loop of \<^verbatim>\<open>build_index_step\<close>. \<open>elapsed n\<close> says whether the time budget is spent after
  \<open>n\<close> reads of 512 rows; the clock is the caller's.
\<close>

definition pending_size :: "ordered_index \<Rightarrow> nat" where
  "pending_size idx = (case oi_pending idx of None \<Rightarrow> 0 | Some p \<Rightarrow> Suc (length p))"

lemma fill_pending_progress:
  assumes "fill_pending ops c idx n = (k, idx')" and "0 < n" and "\<not> is_complete idx'"
  shows "pending_size idx' < pending_size idx"
proof (cases "oi_pending idx")
  case None
  then show ?thesis using assms by (auto simp: fill_pending_def is_complete_def)
next
  case (Some p)
  then have "oi_pending idx' =
      (if take (length p - min (length p) n) p = [] then None else Some (take (length p - min (length p) n) p))"
    using assms(1) by (auto simp: fill_pending_def Let_def)
  then show ?thesis using Some assms(2,3)
    by (auto simp: pending_size_def is_complete_def split: if_splits)
qed

function build_step_loop ::
  "index_ops \<Rightarrow> collection \<Rightarrow> (nat \<Rightarrow> bool) \<Rightarrow> nat \<Rightarrow> ordered_index \<Rightarrow> nat \<times> ordered_index" where
  "build_step_loop ops c elapsed n idx =
     (case fill_pending ops c idx 512 of (k, idx') \<Rightarrow>
        if is_complete idx' \<or> elapsed n then (k, idx')
        else (case build_step_loop ops c elapsed (Suc n) idx' of (m, i) \<Rightarrow> (k + m, i)))"
  by auto

termination
  by (relation "measure (\<lambda>(ops, c, elapsed, n, idx). pending_size idx)")
    (auto intro!: fill_pending_progress [OF sym])

declare build_step_loop.simps [simp del]

definition build_index_step :: "index_ops \<Rightarrow> index_def \<Rightarrow> (nat \<Rightarrow> bool) \<Rightarrow> collection
    \<Rightarrow> bool \<times> index_build_stats \<times> collection" where
  "build_index_step ops d elapsed c0 =
     (let c1 = drop_outdated_index d c0;
          idx0 = (case hm_get (co_indexes c1) (idx_name d) of
                    Some idx \<Rightarrow> idx
                  | None \<Rightarrow> (index_new d)\<lparr>oi_pending := Some (hm_keys (co_rows c1))\<rparr>);
          idx1 = idx0\<lparr>oi_idle_since := None\<rparr>
      in if is_complete idx1
         then (True, \<lparr>st_indexes_built = 0, st_rows_indexed = 0\<rparr>, set_index (idx_name d) idx1 c1)
         else (case build_step_loop ops c1 elapsed 0 idx1 of (n, idx2) \<Rightarrow>
                 (is_complete idx2,
                  \<lparr>st_indexes_built = (if is_complete idx2 then 1 else 0), st_rows_indexed = n\<rparr>,
                  set_index (idx_name d) idx2 c1)))"

definition release_index ::
  "string list \<Rightarrow> string list \<Rightarrow> nat \<Rightarrow> nat \<Rightarrow> string \<times> ordered_index \<Rightarrow> (string \<times> ordered_index) option" where
  "release_index used defined now grace e =
     (case e of (name, idx) \<Rightarrow>
        if name \<in> set used then Some (name, idx\<lparr>oi_idle_since := None\<rparr>)
        else if name \<notin> set defined then None
        else let since = (case oi_idle_since idx of Some t \<Rightarrow> t | None \<Rightarrow> now)
             in if now - since < grace then Some (name, idx\<lparr>oi_idle_since := Some since\<rparr>) else None)"

definition release_indexes :: "string list \<Rightarrow> string list \<Rightarrow> nat \<Rightarrow> nat \<Rightarrow> collection \<Rightarrow> collection" where
  "release_indexes used defined now grace c =
     c\<lparr>co_indexes := List.map_filter (release_index used defined now grace) (co_indexes c)\<rparr>"

definition unindex_row :: "index_ops \<Rightarrow> string \<Rightarrow> row_key \<Rightarrow> collection \<Rightarrow> collection" where
  "unindex_row ops i key c =
     (if co_indexes c = [] \<or> \<not> hm_contains (co_rows c) i then c
      else let row = rt_get (co_rows c) i
           in c\<lparr>co_indexes :=
                map (\<lambda>(n, idx). (n, index_remove ops (key_of idx row) key idx)) (co_indexes c)\<rparr>)"

definition index_row :: "index_ops \<Rightarrow> value \<Rightarrow> row_key \<Rightarrow> collection \<Rightarrow> collection" where
  "index_row ops row key c =
     c\<lparr>co_indexes :=
        map (\<lambda>(n, idx). (n, index_insert ops (key_of idx (from_value row)) key idx)) (co_indexes c)\<rparr>"

subsection \<open>Mutations\<close>

definition incoming_digest :: "codec \<Rightarrow> string \<Rightarrow> value \<Rightarrow> digest" where
  "incoming_digest cdc i v = record_digest_into cdc v i"

definition xor_out_row :: "string \<Rightarrow> collection \<Rightarrow> collection" where
  "xor_out_row i c =
     (case digest_of (co_rows c) i of
        Some d \<Rightarrow> c\<lparr>co_catchup_xor := xor_digest (co_catchup_xor c) d\<rparr>
      | None \<Rightarrow> c)"

definition apply_delete :: "index_ops \<Rightarrow> string \<Rightarrow> row_key \<Rightarrow> collection \<Rightarrow> collection" where
  "apply_delete ops normalized key c0 =
     (let c1 = unindex_row ops normalized key (xor_out_row normalized c0);
          c2 = bump_membership key (- 1) (c1\<lparr>co_rows := hm_remove normalized (co_rows c1)\<rparr>)
      in c2\<lparr>co_writes := co_writes c2 + 1\<rparr>)"

definition merged_data :: "operation \<Rightarrow> string \<Rightarrow> value \<Rightarrow> collection \<Rightarrow> value" where
  "merged_data op normalized data c =
     (if op = OpMerge \<and> hm_contains (co_rows c) normalized
      then (case (to_owned_value (rt_get (co_rows c) normalized), data) of
              (VObject base, VObject incoming) \<Rightarrow>
                VObject (fold (\<lambda>(k, v). hm_insert k v) incoming base)
            | (_, incoming) \<Rightarrow> incoming)
      else data)"

definition apply_write ::
  "index_ops \<Rightarrow> string \<Rightarrow> row_key \<Rightarrow> value \<Rightarrow> digest \<Rightarrow> collection \<Rightarrow> collection" where
  "apply_write ops normalized key data incoming c0 =
     (let present = hm_contains (co_rows c0) normalized;
          c1 = xor_out_row normalized c0;
          c2 = unindex_row ops normalized key
                 (c1\<lparr>co_catchup_xor := xor_digest (co_catchup_xor c1) incoming\<rparr>);
          c3 = index_row ops data key
                 (c2\<lparr>co_rows := hm_insert normalized (data, incoming) (co_rows c2)\<rparr>);
          c4 = c3\<lparr>co_writes := co_writes c3 + 1\<rparr>
      in if present then c4 else bump_membership key 1 c4)"

definition collection_apply :: "codec \<Rightarrow> index_ops \<Rightarrow> operation \<Rightarrow> string \<Rightarrow> value \<Rightarrow> collection
    \<Rightarrow> applied \<times> collection" where
  "collection_apply cdc ops op i data c =
     (let normalized = raw_id i;
          key = make_key (co_name c) i;
          present = hm_contains (co_rows c) normalized
      in if op = OpDelete then
           (if \<not> present
            then (\<lparr>ap_key = key, ap_weight = 0, ap_content_changed = False\<rparr>, c)
            else (\<lparr>ap_key = key, ap_weight = - 1, ap_content_changed = True\<rparr>,
                  apply_delete ops normalized key c))
         else
           let data = project c (merged_data op normalized data c);
               incoming = incoming_digest cdc normalized data
           in if present \<and> digest_of (co_rows c) normalized = Some incoming
              then (\<lparr>ap_key = key, ap_weight = 0, ap_content_changed = False\<rparr>, c)
              else (\<lparr>ap_key = key, ap_weight = (if present then 0 else 1), ap_content_changed = True\<rparr>,
                    apply_write ops normalized key data incoming c))"

definition apply_mutation :: "codec \<Rightarrow> index_ops \<Rightarrow> operation \<Rightarrow> string \<Rightarrow> value \<Rightarrow> collection
    \<Rightarrow> (row_key \<times> weight) \<times> collection" where
  "apply_mutation cdc ops op i data c =
     (case collection_apply cdc ops op i data c of (a, c') \<Rightarrow> ((ap_key a, ap_weight a), c'))"

definition field_root :: "string \<Rightarrow> string" where
  "field_root field = hd (split_on CHR ''.'' field)"

definition compact_row :: "codec \<Rightarrow> collection \<Rightarrow> string \<times> value \<times> digest \<Rightarrow> string \<times> value \<times> digest" where
  "compact_row cdc c e =
     (case e of (i, v, _) \<Rightarrow> let v' = project c v in (i, v', incoming_digest cdc i v'))"

definition collection_compact :: "codec \<Rightarrow> collection \<Rightarrow> collection" where
  "collection_compact cdc c =
     (let kept = (case co_retained c of
                    None \<Rightarrow> co_indexes c
                  | Some keep \<Rightarrow>
                      hm_retain (\<lambda>_ idx. list_all
                        (\<lambda>f. field_root f \<in> set keep \<or> field_root f \<in> set always_retained)
                        (idx_fields (oi_def idx))) (co_indexes c));
          decoded = map (compact_row cdc c) (co_rows c)
      in c\<lparr>co_indexes := kept, co_writes := co_writes c + 1,
           co_rows := fold (\<lambda>(i, r). hm_insert i r) decoded [],
           co_catchup_xor := fold (\<lambda>(_, _, d) acc. xor_digest acc d) decoded xor_empty\<rparr>)"

definition reseed_catchup_xor :: "collection \<Rightarrow> collection" where
  "reseed_catchup_xor c =
     c\<lparr>co_catchup_xor := fold (\<lambda>(_, _, d) acc. xor_digest acc d) (co_rows c) xor_empty\<rparr>"

subsection \<open>Reading\<close>

definition get_row :: "collection \<Rightarrow> string \<Rightarrow> value_ref" where
  "get_row c i = rt_get (co_rows c) (raw_id i)"

definition has_row :: "collection \<Rightarrow> string \<Rightarrow> bool" where
  "has_row c i = hm_contains (co_rows c) (raw_id i)"

definition get_record_version :: "collection \<Rightarrow> string \<Rightarrow> i64 option" where
  "get_record_version c i = rv_of (co_rows c) (raw_id i)"

definition version_diff_in :: "collection \<Rightarrow> (string \<times> i64 option) list \<Rightarrow> (string \<Rightarrow> bool)
    \<Rightarrow> string list \<times> string list" where
  "version_diff_in c listing listed_part =
     (let listed = map (\<lambda>(i, _). raw_id i) listing;
          fetch = map fst (filter (\<lambda>(i, rv). \<not> hm_contains (co_rows c) i \<or> rv_of (co_rows c) i \<noteq> rv)
                    (map (\<lambda>(i, rv). (raw_id i, rv)) listing));
          stale = filter (\<lambda>i. listed_part i \<and> i \<notin> set listed) (hm_keys (co_rows c))
      in (fetch, stale))"

definition version_diff :: "collection \<Rightarrow> (string \<times> i64 option) list \<Rightarrow> string list \<times> string list" where
  "version_diff c listing = version_diff_in c listing (\<lambda>_. True)"

definition range_accs :: "collection \<Rightarrow> range_hashes \<Rightarrow> digest list option" where
  "range_accs c ranges =
     accumulate ranges
       (List.map_filter (\<lambda>i. map_option (\<lambda>d. (i, d)) (digest_of (co_rows c) i)) (hm_keys (co_rows c)))"

section \<open>The store\<close>

record store =
  sto_collections :: "(string, collection) hmap"
  sto_pending_deleted :: "(row_key, value) hmap"

record change =
  ch_table :: string
  ch_op :: operation
  ch_id :: string
  ch_data :: "value"

definition store_new :: store where
  "store_new = \<lparr>sto_collections = [], sto_pending_deleted = []\<rparr>"

definition ensure_collection :: "string \<Rightarrow> store \<Rightarrow> collection \<times> store" where
  "ensure_collection name s =
     (case hm_get (sto_collections s) name of
        Some c \<Rightarrow> (c, s)
      | None \<Rightarrow> (collection_new name,
                s\<lparr>sto_collections := hm_insert name (collection_new name) (sto_collections s)\<rparr>))"

definition apply_owned :: "codec \<Rightarrow> index_ops \<Rightarrow> string \<Rightarrow> operation \<Rightarrow> string \<Rightarrow> value \<Rightarrow> store
    \<Rightarrow> applied \<times> store" where
  "apply_owned cdc ops table op i data s0 =
     (let (c, s) = ensure_collection table s0;
          (a, c') = collection_apply cdc ops op i data c
      in (a, s\<lparr>sto_collections := hm_insert table c' (sto_collections s)\<rparr>))"

definition set_retained_fields :: "string \<Rightarrow> string list option \<Rightarrow> store \<Rightarrow> store" where
  "set_retained_fields table keep s0 =
     (let (c, s) = ensure_collection table s0
      in s\<lparr>sto_collections := hm_insert table (c\<lparr>co_retained := keep\<rparr>) (sto_collections s)\<rparr>)"

definition apply_change :: "codec \<Rightarrow> index_ops \<Rightarrow> change \<Rightarrow> store \<Rightarrow> (row_key \<times> weight) \<times> store" where
  "apply_change cdc ops ch s =
     (case apply_owned cdc ops (ch_table ch) (ch_op ch) (ch_id ch) (ch_data ch) s of
        (a, s') \<Rightarrow> ((ap_key a, ap_weight a), s'))"

definition get_row_by_key :: "store \<Rightarrow> row_key \<Rightarrow> value_ref" where
  "get_row_by_key s key =
     (case parse_key key of
        None \<Rightarrow> RMissing
      | Some (table, i) \<Rightarrow>
          (case hm_get (sto_collections s) table of
             None \<Rightarrow> RMissing
           | Some c \<Rightarrow>
               let by_raw = rt_get (co_rows c) i
               in if is_missing by_raw then rt_get (co_rows c) key else by_raw))"

definition get_row_by_key_or_deleted :: "store \<Rightarrow> row_key \<Rightarrow> value_ref" where
  "get_row_by_key_or_deleted s key =
     (let live = get_row_by_key s key
      in if is_missing live then from_opt (hm_get (sto_pending_deleted s) key) else live)"

definition stage_deleted_row :: "string \<Rightarrow> string \<Rightarrow> store \<Rightarrow> store" where
  "stage_deleted_row table i s =
     (let key = make_key table i;
          row = get_row_by_key s key
      in if \<not> is_missing row
         then s\<lparr>sto_pending_deleted := hm_insert key (to_owned_value row) (sto_pending_deleted s)\<rparr>
         else s)"

definition clear_pending_deleted_rows :: "store \<Rightarrow> store" where
  "clear_pending_deleted_rows s = s\<lparr>sto_pending_deleted := []\<rparr>"

definition get_record_version_by_key :: "store \<Rightarrow> row_key \<Rightarrow> i64 option" where
  "get_record_version_by_key s key =
     (case parse_key key of
        None \<Rightarrow> None
      | Some (table, i) \<Rightarrow>
          (case hm_get (sto_collections s) table of
             None \<Rightarrow> None | Some c \<Rightarrow> get_record_version c i))"

definition ascii_upper :: "char \<Rightarrow> char" where
  "ascii_upper ch = (if CHR ''a'' \<le> ch \<and> ch \<le> CHR ''z'' then char_of (of_char ch - (32 :: nat)) else ch)"

definition operation_from_str :: "string \<Rightarrow> operation option" where
  "operation_from_str s =
     (let u = map ascii_upper s
      in if u = ''CREATE'' then Some OpCreate
         else if u = ''UPDATE'' then Some OpUpdate
         else if u = ''MERGE'' then Some OpMerge
         else if u = ''DELETE'' then Some OpDelete
         else None)"

end
