(* ===== verification/Store_Invariant.thy ===== *)
theory Store_Invariant
  imports Row_Store
begin

section \<open>What every write keeps\<close>

text \<open>
  The invariant of a collection and the effect of every mutation. \<open>coll_inv\<close> says that the rows
  are a map, that the digest stored with a row is the digest of its content, that a built
  membership Z-set is exactly \<open>{table:id -> 1}\<close> over the rows, and that \<^verbatim>\<open>catchup_xor\<close> is the
  XOR of the digests of exactly the rows. \<open>index_inv\<close> says what each secondary index holds,
  half-built ones included.
\<close>

definition codec_ok :: "codec \<Rightarrow> bool" where
  "codec_ok cdc \<longleftrightarrow> (\<forall>s. length (blake3 cdc s) = 32)"

definition row_digests :: "row_table \<Rightarrow> digest list" where
  "row_digests rows = map (snd \<circ> snd) rows"

text \<open>The weight of a row key in a table: one for a row, zero otherwise.\<close>

definition mem_weight :: "collection \<Rightarrow> row_key \<Rightarrow> weight" where
  "mem_weight c k =
     (case parse_key k of
        Some (t, i) \<Rightarrow> if t = co_name c \<and> hm_contains (co_rows c) i then 1 else 0
      | None \<Rightarrow> 0)"

definition name_ok :: "collection \<Rightarrow> bool" where
  "name_ok c \<longleftrightarrow> CHR '':'' \<notin> set (co_name c)"

definition membership_ok :: "collection \<Rightarrow> bool" where
  "membership_ok c =
     (case co_membership c of
        None \<Rightarrow> True
      | Some z \<Rightarrow> zset_ok z \<and> (\<forall>k. zget z k = mem_weight c k))"

definition digests_ok :: "codec \<Rightarrow> collection \<Rightarrow> bool" where
  "digests_ok cdc c \<longleftrightarrow> (\<forall>(i, v, d) \<in> set (co_rows c). d = record_digest_into cdc v i)"

definition coll_inv :: "codec \<Rightarrow> collection \<Rightarrow> bool" where
  "coll_inv cdc c \<longleftrightarrow> hm_wf (co_rows c) \<and> name_ok c \<and> digests_ok cdc c \<and> membership_ok c
     \<and> co_catchup_xor c = xsum (row_digests (co_rows c))"

subsection \<open>Hash maps as multisets of entries\<close>

lemma mset_hm_insert: "hm_wf m \<Longrightarrow> mset (hm_insert k v m) = add_mset (k, v) (mset (hm_remove k m))"
  by (induction m) (auto simp: hm_remove_absent)

lemma mset_hm_remove: "hm_wf m \<Longrightarrow> hm_get m k = Some v \<Longrightarrow> mset m = add_mset (k, v) (mset (hm_remove k m))"
  by (induction m) (auto simp: hm_remove_absent split: if_splits)

lemma digest_length: "codec_ok cdc \<Longrightarrow> length (record_digest_into cdc v i) = 32"
  by (simp add: codec_ok_def record_digest_into_def digest_from_canonical_def)

lemma row_digests_length:
  assumes "codec_ok cdc" and "digests_ok cdc c"
  shows "set (row_digests (co_rows c)) \<subseteq> {d. length d = 32}"
  using assms digest_length by (fastforce simp: digests_ok_def row_digests_def)

lemma row_digests_mset: "mset (row_digests rows) = image_mset (snd \<circ> snd) (mset rows)"
  by (simp add: row_digests_def)

lemma xsum_row_digests_remove:
  assumes "hm_wf rows" and "hm_get rows i = Some (v, d)" and "set (row_digests rows) \<subseteq> {d. length d = 32}"
  shows "xsum (row_digests rows) = xor_digest (xsum (row_digests (hm_remove i rows))) d"
proof -
  have m: "mset (row_digests rows) = mset (d # row_digests (hm_remove i rows))"
    using mset_hm_remove [OF assms(1,2)] by (simp add: row_digests_mset)
  then have D: "set (d # row_digests (hm_remove i rows)) \<subseteq> {d. length d = 32}"
    using assms(3) mset_eq_setD by metis
  show ?thesis
    using xd.xor_all_perm [OF m assms(3)] D by (simp add: xd.xor_all_Cons)
qed

lemma xsum_row_digests_insert:
  assumes "hm_wf rows" and "set (row_digests rows) \<subseteq> {d. length d = 32}" and "length d = 32"
  shows "xsum (row_digests (hm_insert i (v, d) rows)) = xor_digest (xsum (row_digests (hm_remove i rows))) d"
proof -
  have m: "mset (d # row_digests (hm_remove i rows)) = mset (row_digests (hm_insert i (v, d) rows))"
    using mset_hm_insert [OF assms(1)] by (simp add: row_digests_mset)
  have "set (row_digests (hm_remove i rows)) \<subseteq> {d. length d = 32}"
    using assms(2) by (auto simp: row_digests_def set_hm_remove)
  then have D: "set (d # row_digests (hm_remove i rows)) \<subseteq> {d. length d = 32}"
    using assms(3) by simp
  show ?thesis
    using xd.xor_all_perm [OF m D] D by (simp add: xd.xor_all_Cons)
qed

subsection \<open>Membership\<close>

lemma parse_row_key_of [simp]: "CHR '':'' \<notin> set n \<Longrightarrow> parse_key (row_key_of n i) = Some (n, i)"
  by (simp add: parse_key_def row_key_of_def split_once_append)

lemma make_key_row_key_of: "make_key n i = row_key_of n (raw_id i)"
  by (simp add: make_key_eq row_key_of_def)

lemma parse_key_row_key: "parse_key k = Some (t, i) \<Longrightarrow> k = row_key_of t i"
  by (auto simp: parse_key_def row_key_of_def dest: split_once_SomeD)

lemma row_key_of_inj: "row_key_of n i = row_key_of n j \<longleftrightarrow> i = j"
  by (simp add: row_key_of_def)

lemma mem_weight_row_key_of [simp]:
  "name_ok c \<Longrightarrow> mem_weight c (row_key_of (co_name c) i) = (if hm_contains (co_rows c) i then 1 else 0)"
  by (simp add: mem_weight_def name_ok_def)

lemma mem_weight_other:
  "(\<And>i. hm_contains (co_rows c) i \<Longrightarrow> k \<noteq> row_key_of (co_name c) i) \<Longrightarrow> mem_weight c k = 0"
  by (auto simp: mem_weight_def dest!: parse_key_row_key split: option.splits)

lemma mem_weight_eq:
  assumes "name_ok c"
  shows "mem_weight c k = (if \<exists>i. hm_contains (co_rows c) i \<and> k = row_key_of (co_name c) i then 1 else 0)"
proof (cases "\<exists>i. hm_contains (co_rows c) i \<and> k = row_key_of (co_name c) i")
  case True
  then obtain i where "hm_contains (co_rows c) i" "k = row_key_of (co_name c) i" by blast
  then show ?thesis using assms True by (simp del: row_key_of_inj) 
next
  case False
  then show ?thesis using mem_weight_other [of c k] by auto
qed

lemma zget_fold_membership:
  "zget (fold (\<lambda>i z. hm_insert (row_key_of n i) 1 z) is z) k =
   (if k \<in> row_key_of n ` set is then 1 else zget z k)"
  by (induction "is" arbitrary: z) auto

lemma zset_ok_fold_membership:
  "zset_ok z \<Longrightarrow> zset_ok (fold (\<lambda>i z. hm_insert (row_key_of n i) 1 z) is z)"
  by (induction "is" arbitrary: z) (simp_all add: zset_ok_insert)

lemma membership_zset_ok: "zset_ok (membership_zset c)"
  by (simp add: membership_zset_def zset_ok_fold_membership)

lemma zget_membership_zset:
  assumes "name_ok c"
  shows "zget (membership_zset c) k = mem_weight c k"
  using mem_weight_eq [OF assms, of k]
  by (auto simp: membership_zset_def zget_fold_membership in_hm_keys hm_contains_def image_iff)

lemma membership_spec:
  assumes "membership_ok c" and "name_ok c" and "membership c = (z, c')"
  shows "zset_ok z \<and> (\<forall>k. zget z k = mem_weight c k) \<and> c' = c\<lparr>co_membership := Some z\<rparr>"
  using assms
  by (auto simp: membership_def membership_ok_def membership_zset_ok zget_membership_zset
      split: option.splits)

lemma bump_membership_ok:
  assumes "membership_ok c" and "\<And>k. mem_weight c' k = mem_weight c k + (if k = key then w else 0)"
    and "co_membership c' = co_membership c"
  shows "membership_ok (bump_membership key w c')"
proof (cases "co_membership c")
  case None
  then show ?thesis using assms(3) by (simp add: bump_membership_def membership_ok_def)
next
  case (Some z)
  have m: "mem_weight (c'\<lparr>co_membership := u\<rparr>) k = mem_weight c' k" for u k
    by (simp add: mem_weight_def split: option.splits)
  show ?thesis using Some assms
    by (auto simp: bump_membership_def membership_ok_def Let_def m
        intro: zset_ok_insert zset_ok_remove)
qed

subsection \<open>Frame conditions\<close>

lemma unindex_row_fields [simp]:
  "co_name (unindex_row ops i key c) = co_name c"
  "co_rows (unindex_row ops i key c) = co_rows c"
  "co_membership (unindex_row ops i key c) = co_membership c"
  "co_catchup_xor (unindex_row ops i key c) = co_catchup_xor c"
  "co_retained (unindex_row ops i key c) = co_retained c"
  by (simp_all add: unindex_row_def Let_def)

lemma index_row_fields [simp]:
  "co_name (index_row ops v key c) = co_name c"
  "co_rows (index_row ops v key c) = co_rows c"
  "co_membership (index_row ops v key c) = co_membership c"
  "co_catchup_xor (index_row ops v key c) = co_catchup_xor c"
  "co_retained (index_row ops v key c) = co_retained c"
  by (simp_all add: index_row_def)

lemma xor_out_row_fields [simp]:
  "co_name (xor_out_row i c) = co_name c"
  "co_rows (xor_out_row i c) = co_rows c"
  "co_membership (xor_out_row i c) = co_membership c"
  "co_retained (xor_out_row i c) = co_retained c"
  "co_indexes (xor_out_row i c) = co_indexes c"
  by (simp_all add: xor_out_row_def split: option.splits)

lemma bump_membership_fields [simp]:
  "co_name (bump_membership k w c) = co_name c"
  "co_rows (bump_membership k w c) = co_rows c"
  "co_catchup_xor (bump_membership k w c) = co_catchup_xor c"
  "co_retained (bump_membership k w c) = co_retained c"
  "co_indexes (bump_membership k w c) = co_indexes c"
  by (simp_all add: bump_membership_def Let_def split: option.splits)

lemma mem_weight_cong:
  "co_name c = co_name c' \<Longrightarrow> co_rows c = co_rows c' \<Longrightarrow> mem_weight c = mem_weight c'"
  by (rule ext) (simp add: mem_weight_def split: option.splits)

lemma membership_ok_cong:
  "co_name c = co_name c' \<Longrightarrow> co_rows c = co_rows c' \<Longrightarrow> co_membership c = co_membership c' \<Longrightarrow>
   membership_ok c = membership_ok c'"
  using mem_weight_cong [of c c'] by (simp add: membership_ok_def split: option.splits)

lemma apply_delete_fields [simp]:
  "co_name (apply_delete ops i key c) = co_name c"
  "co_rows (apply_delete ops i key c) = hm_remove i (co_rows c)"
  "co_retained (apply_delete ops i key c) = co_retained c"
  by (simp_all add: apply_delete_def Let_def)

lemma apply_write_fields [simp]:
  "co_name (apply_write ops i key v d c) = co_name c"
  "co_rows (apply_write ops i key v d c) = hm_insert i (v, d) (co_rows c)"
  "co_retained (apply_write ops i key v d c) = co_retained c"
  by (simp_all add: apply_write_def Let_def)

lemma mem_weight_change:
  assumes "name_ok c" and "co_name c' = co_name c" and "\<And>j. j \<noteq> i \<Longrightarrow> hm_contains (co_rows c') j = hm_contains (co_rows c) j"
  shows "mem_weight c' k = mem_weight c k + (if k = row_key_of (co_name c) i
    then of_bool (hm_contains (co_rows c') i) - of_bool (hm_contains (co_rows c) i) else 0)"
proof -
  have "name_ok c'" using assms(1,2) by (simp add: name_ok_def)
  then show ?thesis
    using assms by (auto simp: mem_weight_eq row_key_of_inj)
qed

subsection \<open>Deletes and writes\<close>

lemma digest_of_rows: "digest_of rows i = Some d \<longleftrightarrow> (\<exists>v. hm_get rows i = Some (v, d))"
  by (auto simp: digest_of_def)

lemma xor_out_row_sum:
  assumes "codec_ok cdc" and "coll_inv cdc c"
  shows "co_catchup_xor (xor_out_row i c) = xsum (row_digests (hm_remove i (co_rows c)))"
proof (cases "hm_get (co_rows c) i")
  case None
  then have "hm_remove i (co_rows c) = co_rows c"
    by (simp add: hm_get_eq_None_iff hm_remove_absent)
  then show ?thesis using None assms(2) by (simp add: xor_out_row_def digest_of_def coll_inv_def)
next
  case (Some r)
  obtain v d where r: "r = (v, d)" by (cases r)
  have D: "set (row_digests (co_rows c)) \<subseteq> {d. length d = 32}"
    using assms row_digests_length by (auto simp: coll_inv_def)
  moreover have "d \<in> set (row_digests (co_rows c))"
    using hm_get_SomeD [OF Some] r by (force simp: row_digests_def)
  moreover have "set (row_digests (hm_remove i (co_rows c))) \<subseteq> {d. length d = 32}"
    using D by (auto simp: row_digests_def set_hm_remove)
  moreover from this have "xsum (row_digests (hm_remove i (co_rows c))) \<in> {d. length d = 32}"
    by (intro xd.xor_all_closed)
  ultimately show ?thesis
    using Some r assms(2) xsum_row_digests_remove [of "co_rows c" i v d]
    by (auto simp: xor_out_row_def digest_of_def coll_inv_def intro!: xd.xor_cancel)
qed

lemma digests_ok_remove: "digests_ok cdc c \<Longrightarrow> co_rows c' = hm_remove i (co_rows c) \<Longrightarrow> digests_ok cdc c'"
  by (auto simp: digests_ok_def set_hm_remove)

lemma digests_ok_insert:
  "hm_wf (co_rows c) \<Longrightarrow> digests_ok cdc c \<Longrightarrow>
   co_rows c' = hm_insert i (v, record_digest_into cdc v i) (co_rows c) \<Longrightarrow> digests_ok cdc c'"
  by (auto simp: digests_ok_def set_hm_insert)

lemma coll_inv_delete:
  assumes "codec_ok cdc" and "coll_inv cdc c" and "hm_contains (co_rows c) i"
  shows "coll_inv cdc (apply_delete ops i (row_key_of (co_name c) i) c)"
proof -
  let ?key = "row_key_of (co_name c) i"
  let ?c1 = "unindex_row ops i ?key (xor_out_row i c)"
  let ?c2 = "?c1\<lparr>co_rows := hm_remove i (co_rows ?c1)\<rparr>"
  have ok: "name_ok c" "membership_ok c" "hm_wf (co_rows c)" using assms(2) by (simp_all add: coll_inv_def)
  have "mem_weight ?c2 k = mem_weight c k + (if k = ?key then - 1 else 0)" for k
    using mem_weight_change [OF ok(1), of ?c2 i k] assms(3) by simp
  then have "membership_ok (bump_membership ?key (- 1) ?c2)"
    using ok(2) by (intro bump_membership_ok) simp_all
  then have "membership_ok (apply_delete ops i ?key c)"
    by (simp add: apply_delete_def Let_def membership_ok_def mem_weight_def cong: option.case_cong)
  moreover have "co_catchup_xor (apply_delete ops i ?key c) = xsum (row_digests (hm_remove i (co_rows c)))"
    using xor_out_row_sum [OF assms(1,2)] by (simp add: apply_delete_def Let_def)
  moreover have "digests_ok cdc (apply_delete ops i ?key c)"
    using assms(2) digests_ok_remove [of cdc c _ i] by (simp add: coll_inv_def)
  ultimately show ?thesis using ok by (simp add: coll_inv_def name_ok_def)
qed

lemma coll_inv_write:
  assumes "codec_ok cdc" and "coll_inv cdc c"
  shows "coll_inv cdc (apply_write ops i (row_key_of (co_name c) i) v (record_digest_into cdc v i) c)"
    (is "coll_inv cdc ?c'")
proof -
  let ?key = "row_key_of (co_name c) i" and ?d = "record_digest_into cdc v i"
  have ok: "name_ok c" "membership_ok c" "hm_wf (co_rows c)" using assms(2) by (simp_all add: coll_inv_def)
  have w: "mem_weight ?c' k = mem_weight c k + (if k = ?key
      then 1 - of_bool (hm_contains (co_rows c) i) else 0)" for k
    using mem_weight_change [OF ok(1), of ?c' i k] by simp
  have "membership_ok ?c'"
  proof (cases "hm_contains (co_rows c) i")
    case True
    then have "co_membership ?c' = co_membership c" "mem_weight ?c' = mem_weight c"
      using w by (auto simp: apply_write_def Let_def)
    then show ?thesis using ok(2) by (simp add: membership_ok_def split: option.splits)
  next
    case False
    then obtain c4 where c': "?c' = bump_membership ?key 1 c4" and "co_membership c4 = co_membership c"
      and "co_name c4 = co_name ?c'" "co_rows c4 = co_rows ?c'"
      by (simp add: apply_write_def Let_def)
    then show ?thesis
      using w False ok(2) mem_weight_cong [of c4 ?c'] unfolding c' by (intro bump_membership_ok) auto
  qed
  moreover have "co_catchup_xor ?c' = xsum (row_digests (hm_insert i (v, ?d) (co_rows c)))"
    using xor_out_row_sum [OF assms] assms row_digests_length digest_length
    by (subst xsum_row_digests_insert) (auto simp: apply_write_def Let_def coll_inv_def)
  moreover have "digests_ok cdc ?c'"
    using assms(2) digests_ok_insert [of c cdc ?c' i v] by (simp add: coll_inv_def)
  ultimately show ?thesis using ok by (simp add: coll_inv_def name_ok_def)
qed

subsection \<open>The mutation as a whole\<close>

lemma apply_key [simp]: "ap_key (fst (collection_apply cdc ops op i v c)) = make_key (co_name c) i"
  by (simp add: collection_apply_def Let_def)

lemma coll_inv_apply:
  assumes "codec_ok cdc" and "coll_inv cdc c"
  shows "coll_inv cdc (snd (collection_apply cdc ops op i v c))"
  using assms coll_inv_delete coll_inv_write
  by (simp add: collection_apply_def Let_def make_key_row_key_of incoming_digest_def)

lemma coll_inv_new [simp]: "CHR '':'' \<notin> set n \<Longrightarrow> coll_inv cdc (collection_new n)"
  by (simp add: coll_inv_def collection_new_def collection_from_rows_def name_ok_def digests_ok_def
      membership_ok_def row_digests_def)

lemma apply_mem_weight:
  assumes "name_ok c" and "collection_apply cdc ops op i v c = (a, c')"
  shows "mem_weight c' k = mem_weight c k + (if k = ap_key a then ap_weight a else 0)"
proof -
  have n: "co_name c' = co_name c" and
    r: "\<And>j. j \<noteq> raw_id i \<Longrightarrow> hm_contains (co_rows c') j = hm_contains (co_rows c) j" and
    w: "ap_weight a = of_bool (hm_contains (co_rows c') (raw_id i)) - of_bool (hm_contains (co_rows c) (raw_id i))"
    using assms(2) by (auto simp: collection_apply_def Let_def split: if_splits)
  show ?thesis
    using mem_weight_change [OF assms(1) n r, of "raw_id i" k] w apply_key [of cdc ops op i v c] assms(2)
    by (simp add: make_key_row_key_of)
qed

lemma sample_codec_ok [simp]: "codec_ok sample_codec"
  by (auto simp: codec_ok_def sample_codec_def min_def)



text \<open>
  C18. Mutations are driven by what is present, so they are idempotent: repeating a create, an
  update or a delete changes nothing, reports weight 0 and no content change.
\<close>

theorem collection_apply_idempotent:
  assumes "collection_apply cdc ops op i v c = (a, c')" and "op \<noteq> OpMerge"
  shows "collection_apply cdc ops op i v c' =
    (\<lparr>ap_key = make_key (co_name c) i, ap_weight = 0, ap_content_changed = False\<rparr>, c')"
proof -
  have p: "project c' w = project c w" for w
    using assms(1) by (auto simp: collection_apply_def project_def Let_def split: if_splits)
  have m: "merged_data op (raw_id i) v d = v" for d
    using assms(2) by (simp add: merged_data_def)
  let ?n = "raw_id i"
  let ?d = "incoming_digest cdc ?n (project c v)"
  consider "op = OpDelete" "hm_contains (co_rows c) ?n"
    | "op \<noteq> OpDelete" "\<not> (hm_contains (co_rows c) ?n \<and> digest_of (co_rows c) ?n = Some ?d)"
    | "c' = c" "collection_apply cdc ops op i v c =
        (\<lparr>ap_key = make_key (co_name c) i, ap_weight = 0, ap_content_changed = False\<rparr>, c)"
    using assms(1) by (auto simp: collection_apply_def Let_def m split: if_splits)
  then show ?thesis
  proof cases
    case 1
    then have "c' = apply_delete ops ?n (make_key (co_name c) i) c"
      using assms(1) by (simp add: collection_apply_def Let_def)
    then show ?thesis using 1 by (simp add: collection_apply_def Let_def)
  next
    case 2
    then have "c' = apply_write ops ?n (make_key (co_name c) i) (project c v) ?d c"
      using assms(1) by (auto simp: collection_apply_def Let_def m)
    then have "co_name c' = co_name c" "hm_contains (co_rows c') ?n" "digest_of (co_rows c') ?n = Some ?d"
      by (simp_all add: digest_of_def)
    then show ?thesis using 2 by (simp add: collection_apply_def Let_def m p)
  qed simp
qed

theorem collection_apply_idempotent_witness:
  "snd (collection_apply sample_codec (list_set_ops index_entry_cmp) OpCreate ''user:1'' VNull
     (snd (collection_apply sample_codec (list_set_ops index_entry_cmp) OpCreate ''user:1'' VNull
        (collection_new ''user'')))) =
   snd (collection_apply sample_codec (list_set_ops index_entry_cmp) OpCreate ''user:1'' VNull
        (collection_new ''user''))"
proof -
  obtain a c' where r: "collection_apply sample_codec (list_set_ops index_entry_cmp) OpCreate ''user:1''
      VNull (collection_new ''user'') = (a, c')" by fastforce
  then show ?thesis using collection_apply_idempotent [OF r] by simp
qed

subsection \<open>Version comparison\<close>

lemma filter_hm_insert:
  "(\<And>w. \<not> q (k, w)) \<Longrightarrow> filter q (hm_insert k v m) = filter q m"
  by (induction m) auto

lemma write_canonical_reserved:
  "is_reserved_key k \<Longrightarrow>
   write_canonical_record cdc (VObject (hm_insert k v m)) = write_canonical_record cdc (VObject m)"
  by (simp add: write_canonical_record_def filter_hm_insert)

lemma apply_new_row:
  assumes "\<not> hm_contains (co_rows c) (raw_id i)" and "op \<noteq> OpDelete"
  shows "co_rows (snd (collection_apply cdc ops op i v c)) =
      hm_insert (raw_id i) (project c v, record_digest_into cdc (project c v) (raw_id i)) (co_rows c)"
    and "co_retained (snd (collection_apply cdc ops op i v c)) = co_retained c"
  using assms by (simp_all add: collection_apply_def merged_data_def incoming_digest_def Let_def)

lemma rv_of_absent: "rv_of rows i \<noteq> None \<Longrightarrow> hm_contains rows i"
  by (auto simp: rv_of_def hm_contains_def split: option.splits)


text \<open>
  C28. An update that changes only the row version is dropped: the digest leaves out reserved
  fields, so the write is taken for unchanged content, the stored version stays, and the
  version comparison that asked for the row asks for it again.
\<close>

theorem version_only_update_dropped:
  assumes "coll_inv cdc c" and "hm_get (co_rows c) (raw_id i) = Some (VObject m, d)"
    and "co_retained c = None" and "rv_of (co_rows c) (raw_id i) \<noteq> Some rv"
  shows "collection_apply cdc ops OpUpdate i (VObject (hm_insert ''_00_rv'' (VInt rv) m)) c =
      (\<lparr>ap_key = make_key (co_name c) i, ap_weight = 0, ap_content_changed = False\<rparr>, c)
    \<and> fst (version_diff c [(i, Some rv)]) = [raw_id i]"
proof -
  have "d = record_digest_into cdc (VObject m) (raw_id i)"
    using assms(1) hm_get_SomeD [OF assms(2)] by (auto simp: coll_inv_def digests_ok_def)
  moreover have "is_reserved_key ''_00_rv''" by (simp add: is_reserved_key_def)
  ultimately have "digest_of (co_rows c) (raw_id i) =
      Some (incoming_digest cdc (raw_id i) (VObject (hm_insert ''_00_rv'' (VInt rv) m)))"
    using assms(2)
    by (simp add: digest_of_def incoming_digest_def record_digest_into_def write_canonical_reserved)
  then show ?thesis
    using assms by (simp add: collection_apply_def Let_def merged_data_def project_def hm_contains_def
        version_diff_def version_diff_in_def)
qed

theorem version_only_update_dropped_witness:
  "\<exists>c. rv_of (co_rows c) ''1'' = Some 3 \<and>
     snd (collection_apply sample_codec (list_set_ops index_entry_cmp) OpUpdate ''user:1''
       (VObject [(''_00_rv'', VInt 4)]) c) = c"
proof -
  let ?v = "VObject [(''_00_rv'', VInt 3)]"
  let ?c = "snd (collection_apply sample_codec (list_set_ops index_entry_cmp) OpCreate ''user:1'' ?v
    (collection_new ''user''))"
  have inv: "coll_inv sample_codec ?c" by (rule coll_inv_apply) simp_all
  have row: "hm_get (co_rows ?c) (raw_id ''user:1'') = Some (?v, record_digest_into sample_codec ?v ''1'')"
    and ret: "co_retained ?c = None"
    by (simp_all add: apply_new_row hm_contains_def collection_new_def collection_from_rows_def
        project_def raw_id_def)
  have rv: "rv_of (co_rows ?c) (raw_id ''user:1'') = Some 3"
    by (simp add: rv_of_def row lifted_rv_def value_get_def value_as_object_def)
  show ?thesis
    using version_only_update_dropped [OF inv row ret, of 4 "list_set_ops index_entry_cmp"] rv
    by (intro exI [of _ ?c]) (simp add: raw_id_def)
qed

end
