(* ===== verification/Index_Invariant.thy ===== *)
theory Index_Invariant
  imports Store_Invariant
begin

section \<open>Indexes follow their rows\<close>

text \<open>
  Every write keeps every built index in step with the rows, and an index built in steps
  (\<^verbatim>\<open>build_index_step\<close>) stays correct while writes happen between its steps: at each moment
  it holds entries of current rows only, and an entry for every row that is not on its list of
  rows still to read. A lookup (\<^verbatim>\<open>with_index\<close>) therefore reads exactly one entry per row.
  The integers in the rows are below \<open>2 ^ 53\<close> in magnitude, so that the order of the entries
  is total.
\<close>

fun value_exact :: "value \<Rightarrow> bool" where
  "value_exact (VInt i) = (\<bar>sint i\<bar> < 2 ^ 53)"
| "value_exact (VArray vs) = list_all value_exact vs"
| "value_exact (VObject m) = list_all (\<lambda>(k, v). value_exact v) m"
| "value_exact _ = True"

definition index_ops_ok :: "index_ops \<Rightarrow> bool" where
  "index_ops_ok ops \<longleftrightarrow> (\<forall>n. ordered_set index_entry_cmp (entry_dom n) ops)"

lemma list_index_ops_ok [simp]: "index_ops_ok (list_set_ops index_entry_cmp)"
  using index_set.ordered_set_axioms by (simp add: index_ops_ok_def)

text \<open>The entry a row files under, and the entries of a set of rows.\<close>

definition row_entry :: "string \<Rightarrow> ordered_index \<Rightarrow> string \<times> value \<times> digest \<Rightarrow> index_key \<times> row_key" where
  "row_entry name idx e = (case e of (i, v, _) \<Rightarrow> (key_of idx (from_value v), row_key_of name i))"

definition pending_ids :: "ordered_index \<Rightarrow> string list" where
  "pending_ids idx = (case oi_pending idx of None \<Rightarrow> [] | Some p \<Rightarrow> p)"

definition rows_ok :: "(string \<times> value \<times> digest) set \<Rightarrow> bool" where
  "rows_ok R \<longleftrightarrow> (\<forall>(i, v, d) \<in> R. value_exact v) \<and> inj_on fst R"

definition index_ok :: "string \<Rightarrow> (string \<times> value \<times> digest) set \<Rightarrow> ordered_index \<Rightarrow> bool" where
  "index_ok name R idx \<longleftrightarrow> index_lawful idx \<and> oi_paths idx = index_paths (oi_def idx)
     \<and> set (oi_entries idx) \<subseteq> row_entry name idx ` R
     \<and> (\<forall>e \<in> R. fst e \<notin> set (pending_ids idx) \<longrightarrow> row_entry name idx e \<in> set (oi_entries idx))
     \<and> length (pending_ids idx) \<le> usize_max"

definition index_inv :: "collection \<Rightarrow> bool" where
  "index_inv c \<longleftrightarrow> hm_wf (co_rows c) \<and> rows_ok (set (co_rows c)) \<and> hm_wf (co_indexes c)
     \<and> (\<forall>(n, idx) \<in> set (co_indexes c). idx_name (oi_def idx) = n \<and> index_ok (co_name c) (set (co_rows c)) idx)"

subsection \<open>Exact keys\<close>

definition ref_exact :: "value_ref \<Rightarrow> bool" where
  "ref_exact r = value_exact (to_owned_value r)"

lemma ref_exact_from_value [simp]: "ref_exact (from_value v) = value_exact v"
  by (simp add: ref_exact_def)

lemma ref_exact_simps [simp]:
  "ref_exact RMissing" "ref_exact (RObj m) = list_all (\<lambda>(k, v). value_exact v) m"
  by (simp_all add: ref_exact_def to_owned_value_def)

lemma ref_exact_get: "ref_exact r \<Longrightarrow> ref_exact (ref_get r k)"
proof (cases r)
  case (RObj m)
  assume "ref_exact r"
  then show ?thesis
    using RObj by (cases "hm_get m k") (auto simp: ref_get_def list_all_iff dest!: map_of_SomeD)
qed (simp_all add: ref_get_def)

lemma ref_exact_segments: "ref_exact r \<Longrightarrow> ref_exact (resolve_segments r p)"
  by (induction r p rule: resolve_segments.induct) (auto simp: Let_def ref_exact_get)

lemma ref_exact_resolve: "ref_exact r \<Longrightarrow> ref_exact (resolve_field r p)"
  by (simp add: resolve_field_def ref_exact_segments)

lemma scalar_exact_from_value: "ref_exact r \<Longrightarrow> scalar_exact (scalar_from_value r)"
  by (cases r) (simp_all add: ref_exact_def to_owned_value_def scalar_from_value_def scalar_exact_def)

lemma key_of_exact: "value_exact v \<Longrightarrow> list_all scalar_exact (key_of idx (from_value v))"
  by (simp add: key_of_def list_all_iff sortable_from_value_def scalar_exact_from_value ref_exact_resolve)

lemma row_entry_dom: "rows_ok R \<Longrightarrow> e \<in> R \<Longrightarrow> entry_dom (length (oi_paths idx)) (row_entry name idx e)"
  by (auto simp: row_entry_def rows_ok_def key_of_exact)

lemma row_entry_inj:
  "inj_on fst R \<Longrightarrow> e \<in> R \<Longrightarrow> f \<in> R \<Longrightarrow>
   snd (row_entry name idx e) = snd (row_entry name idx f) \<Longrightarrow> e = f"
  by (rule inj_onD [of fst R]) (auto simp: row_entry_def row_key_of_inj split: prod.splits)

lemma one_per_row_entries: "inj_on fst R \<Longrightarrow> one_per_row (row_entry name idx ` R)"
proof -
  assume inj: "inj_on fst R"
  show ?thesis
    unfolding one_per_row_def
  proof (intro allI impI)
    fix k r k'
    assume "(k, r) \<in> row_entry name idx ` R" and "(k', r) \<in> row_entry name idx ` R"
    then obtain e f where e: "e \<in> R" "(k, r) = row_entry name idx e"
      and f: "f \<in> R" "(k', r) = row_entry name idx f" by blast
    then have "snd (row_entry name idx e) = snd (row_entry name idx f)" by (metis snd_conv)
    from row_entry_inj [OF inj e(1) f(1) this] e(2) f(2) show "k' = k" by (metis prod.inject)
  qed
qed

lemma inj_on_fst_rows: "hm_wf rows \<Longrightarrow> inj_on fst (set rows)"
  by (simp add: hm_wf_def distinct_map)

subsection \<open>Removing and filing one row\<close>

lemma index_ok_remove:
  assumes "index_ops_ok ops" and "rows_ok R" and "index_ok name R idx" and "(i, v, d) \<in> R"
  shows "index_ok name (R - {(i, v, d)}) (index_remove ops (key_of idx (from_value v)) (row_key_of name i) idx)"
    (is "index_ok _ _ ?idx")
proof -
  let ?e = "(key_of idx (from_value v), row_key_of name i)"
  have e: "row_entry name idx (i, v, d) = ?e" by (simp add: row_entry_def)
  have inj: "inj_on fst R" and sub: "set (oi_entries idx) \<subseteq> row_entry name idx ` R"
    using assms(2,3) by (simp_all add: rows_ok_def index_ok_def)
  have only: "f = (i, v, d)" if "f \<in> R" "snd (row_entry name idx f) = row_key_of name i" for f
    using row_entry_inj [OF inj that(1) assms(4), of name idx] that(2) e by simp
  have "entry_dom (length (oi_paths idx)) ?e" using row_entry_dom [OF assms(2,4)] e by metis
  moreover have "k' = key_of idx (from_value v)" if "(k', row_key_of name i) \<in> set (oi_entries idx)" for k'
  proof -
    from that sub obtain f where f: "f \<in> R" "(k', row_key_of name i) = row_entry name idx f" by blast
    then have "f = (i, v, d)" using only by (metis snd_conv)
    then show ?thesis using f(2) e by simp
  qed
  ultimately have s: "set (oi_entries ?idx) = set (oi_entries idx) - {?e}" and l: "index_lawful ?idx"
    using assms(1,3) index_remove_contents [of idx ops "key_of idx (from_value v)" "row_key_of name i"]
    by (auto simp: index_ops_ok_def index_ok_def)
  have r: "row_entry name ?idx = row_entry name idx" and p: "pending_ids ?idx = pending_ids idx"
    by (auto simp: row_entry_def key_of_def pending_ids_def)
  have "set (oi_entries ?idx) \<subseteq> row_entry name idx ` (R - {(i, v, d)})"
  proof
    fix x assume "x \<in> set (oi_entries ?idx)"
    then have "x \<in> set (oi_entries idx)" "x \<noteq> ?e" using s by blast+
    moreover from this sub obtain f where "f \<in> R" "x = row_entry name idx f" by blast
    ultimately show "x \<in> row_entry name idx ` (R - {(i, v, d)})" using e by blast
  qed
  moreover have "row_entry name idx f \<noteq> ?e" if "f \<in> R - {(i, v, d)}" for f
    using that only [of f] by (metis DiffD1 DiffD2 insertI1 snd_conv)
  ultimately show ?thesis
    using s l assms(3) by (auto simp: index_ok_def r p)
qed

lemma index_ok_insert:
  assumes "index_ops_ok ops" and "rows_ok R" and "index_ok name R idx" and "i \<notin> fst ` R" and "value_exact v"
  shows "index_ok name (insert (i, v, d) R) (index_insert ops (key_of idx (from_value v)) (row_key_of name i) idx)"
    (is "index_ok _ _ ?idx")
proof -
  let ?e = "(key_of idx (from_value v), row_key_of name i)"
  have e: "row_entry name idx (i, v, d) = ?e" by (simp add: row_entry_def)
  have sub: "set (oi_entries idx) \<subseteq> row_entry name idx ` R" using assms(3) by (simp add: index_ok_def)
  have none: "(k', row_key_of name i) \<notin> set (oi_entries idx)" for k'
    using sub assms(4) by (force simp: row_entry_def row_key_of_inj)
  have s: "set (oi_entries ?idx) = insert ?e (set (oi_entries idx))" and l: "index_lawful ?idx"
    using assms(1,3,5) none key_of_exact [OF assms(5)]
      index_insert_contents [of idx ops "key_of idx (from_value v)" "row_key_of name i"]
    by (auto simp: index_ops_ok_def index_ok_def)
  have r: "row_entry name ?idx = row_entry name idx" and p: "pending_ids ?idx = pending_ids idx"
    by (auto simp: row_entry_def key_of_def pending_ids_def)
  show ?thesis
    using s l sub e assms(3) by (auto simp: index_ok_def r p)
qed

subsection \<open>Reading rows into an index\<close>

lemma shares_equal_Nil [simp]: "shares_equal []"
  by (simp add: shares_equal_def)

lemma index_entries_loop_eq:
  "shares_equal seen \<Longrightarrow> index_entries_loop c idx es seen = map (row_entry (co_name c) idx) es"
proof (induction c idx es seen rule: index_entries_loop.induct)
  case (2 c idx e es seen)
  obtain i v d where e: "e = (i, v, d)" by (cases e)
  obtain vs seen' where k: "key_of_shared idx (from_value v) seen = (vs, seen')" by fastforce
  then have "vs = key_of idx (from_value v) \<and> shares_equal seen'"
    using key_of_shared_eq 2(2) by blast
  then show ?case using 2(1) e k by (simp add: index_entry_def row_entry_def)
qed simp

lemma index_ok_insert_all:
  assumes "index_ops_ok ops" and "rows_ok R" and "index_ok name R idx" and "set es \<subseteq> R"
    and "\<forall>e \<in> R. fst e \<notin> set (pending_ids idx') \<longrightarrow> e \<in> set es \<or> fst e \<notin> set (pending_ids idx)"
    and "oi_paths idx' = oi_paths idx" and "oi_def idx' = oi_def idx" and "oi_entries idx' = oi_entries idx"
    and "length (pending_ids idx') \<le> usize_max"
  shows "index_ok name R (index_insert_all ops (map (row_entry name idx') es) idx')"
proof -
  define J where "J = index_insert_all ops (map (row_entry name idx') es) idx'"
  have r: "row_entry name idx' = row_entry name idx"
    using assms(6) by (auto simp: row_entry_def key_of_def)
  have "index_lawful idx" using assms(3) by (simp add: index_ok_def)
  then have law: "index_lawful idx'" using assms(6,8) by (simp add: index_lawful_def)
  have sub: "set (map (row_entry name idx') es) \<union> set (oi_entries idx') \<subseteq> row_entry name idx ` R"
    using assms(3,4,8) r by (auto simp: index_ok_def)
  have "one_per_row (set (map (row_entry name idx') es) \<union> set (oi_entries idx'))"
    using one_per_row_subset [OF one_per_row_entries sub] assms(2) by (simp add: rows_ok_def)
  moreover have "\<forall>e \<in> set (map (row_entry name idx') es). entry_dom (length (oi_paths idx')) e"
    using assms(2,4) row_entry_dom [of R _ name idx'] by auto
  ultimately have s: "set (oi_entries J) = row_entry name idx ` set es \<union> set (oi_entries idx)"
    and l: "index_lawful J"
    using index_insert_all_contents [of idx' ops "map (row_entry name idx') es"] assms(1,8) law r
    by (auto simp: index_ops_ok_def J_def)
  have p: "pending_ids J = pending_ids idx'" "oi_paths J = oi_paths idx" "oi_def J = oi_def idx"
    using assms(6,7) by (simp_all add: pending_ids_def J_def)
  then have q: "row_entry name J = row_entry name idx" by (auto simp: row_entry_def key_of_def)
  have "row_entry name idx e \<in> set (oi_entries J)" if "e \<in> R" "fst e \<notin> set (pending_ids idx')" for e
    using assms(3,5) that s by (auto simp: index_ok_def)
  moreover have "set (oi_entries J) \<subseteq> row_entry name idx ` R" using s sub r assms(8) by simp
  ultimately have "index_ok name R J"
    using l assms(3,9) p q by (simp add: index_ok_def)
  then show ?thesis by (simp add: J_def)
qed

lemma index_ok_build:
  assumes "index_ops_ok ops" and "hm_wf (co_rows c)" and "rows_ok (set (co_rows c))"
    and "build_index ops d c = (idx, c')"
  shows "index_ok (co_name c) (set (co_rows c)) idx \<and> oi_def idx = d \<and> is_complete idx
    \<and> c' = snd (membership c)"
proof -
  let ?n = "index_new d"
  have idx: "idx = index_insert_all ops (map (row_entry (co_name c) ?n) (co_rows c)) ?n"
    using assms(4) by (simp add: build_index_def Let_def index_fill_def index_entries_loop_eq split: prod.splits)
  have "one_per_row (set (map (row_entry (co_name c) ?n) (co_rows c)) \<union> set (oi_entries ?n))"
    using one_per_row_entries inj_on_fst_rows [OF assms(2)] by simp
  moreover have "\<forall>e \<in> set (map (row_entry (co_name c) ?n) (co_rows c)). entry_dom (length (oi_paths ?n)) e"
    using assms(3) row_entry_dom [of "set (co_rows c)" _ "co_name c" ?n] by auto
  ultimately have "set (oi_entries idx) = row_entry (co_name c) ?n ` set (co_rows c)" "index_lawful idx"
    using index_insert_all_contents [of ?n ops] assms(1) unfolding idx by (auto simp: index_ops_ok_def)
  moreover have "row_entry (co_name c) idx = row_entry (co_name c) ?n"
    by (auto simp: idx row_entry_def key_of_def)
  ultimately show ?thesis using assms(4)
    by (auto simp: index_ok_def pending_ids_def is_complete_def idx build_index_def Let_def split: prod.splits)
qed

lemma index_ok_fill_pending:
  assumes "index_ops_ok ops" and "hm_wf (co_rows c)" and "rows_ok (set (co_rows c))"
    and "index_ok (co_name c) (set (co_rows c)) idx" and "fill_pending ops c idx n = (k, idx')"
  shows "index_ok (co_name c) (set (co_rows c)) idx' \<and> oi_def idx' = oi_def idx
    \<and> (length (pending_ids idx) \<le> n \<longrightarrow> is_complete idx')"
proof (cases "oi_pending idx")
  case None
  then show ?thesis using assms(4,5) by (simp add: fill_pending_def is_complete_def)
next
  case (Some pending)
  let ?t = "length pending - min (length pending) n"
  let ?i = "idx\<lparr>oi_pending := if take ?t pending = [] then None else Some (take ?t pending)\<rparr>"
  let ?es = "List.map_filter (\<lambda>i. map_option (\<lambda>r. (i, r)) (hm_get (co_rows c) i)) (drop ?t pending)"
  have idx': "idx' = index_insert_all ops (map (row_entry (co_name c) ?i) ?es) ?i"
  proof -
    have "snd (fill_pending ops c idx n) = index_insert_all ops (map (row_entry (co_name c) ?i) ?es) ?i"
      by (simp add: fill_pending_def Some Let_def index_entries_loop_eq)
    then show ?thesis using assms(5) by simp
  qed
  have es: "set ?es = {(i, r). i \<in> set (drop ?t pending) \<and> hm_get (co_rows c) i = Some r}"
    by (auto simp: set_map_filter)
  have pend: "pending_ids ?i = take ?t pending" "pending_ids idx = pending"
    using Some by (simp_all add: pending_ids_def)
  have "index_ok (co_name c) (set (co_rows c)) idx'"
    unfolding idx'
  proof (rule index_ok_insert_all [OF assms(1,3,4)])
    show "set ?es \<subseteq> set (co_rows c)" using es by (auto dest: hm_get_SomeD)
    show "\<forall>e \<in> set (co_rows c). fst e \<notin> set (pending_ids ?i) \<longrightarrow> e \<in> set ?es \<or> fst e \<notin> set (pending_ids idx)"
    proof (intro ballI impI)
      fix e assume e: "e \<in> set (co_rows c)" "fst e \<notin> set (pending_ids ?i)"
      have "set pending = set (take ?t pending) \<union> set (drop ?t pending)"
        by (metis append_take_drop_id set_append)
      then show "e \<in> set ?es \<or> fst e \<notin> set (pending_ids idx)"
        using e pend hm_get_eq_Some_iff [OF assms(2)] unfolding es by (cases e) auto
    qed
    show "length (pending_ids ?i) \<le> usize_max"
      using assms(4) pend by (auto simp: index_ok_def)
  qed simp_all
  moreover have "is_complete idx'" if "length pending \<le> n"
    using that by (simp add: idx' is_complete_def)
  ultimately show ?thesis using pend by (simp add: idx')
qed

subsection \<open>Every operation keeps the indexes\<close>

lemma value_exact_project: "value_exact v \<Longrightarrow> value_exact (project c v)"
  by (cases v) (auto simp: project_def hm_retain_def list_all_iff split: option.splits)

lemma value_exact_extend:
  "value_exact (VObject incoming) \<Longrightarrow> value_exact (VObject base) \<Longrightarrow>
   value_exact (VObject (fold (\<lambda>(k, v). hm_insert k v) incoming base))"
proof (induction incoming arbitrary: base)
  case (Cons e es)
  have "value_exact (VObject (hm_insert (fst e) (snd e) base))"
    using Cons.prems set_hm_insert_subset [of "fst e" "snd e" base]
    by (fastforce simp: list_all_iff case_prod_unfold)
  then show ?case using Cons by (simp add: case_prod_unfold)
qed simp

lemma value_exact_merged:
  assumes "rows_ok (set (co_rows c))" and "value_exact v"
  shows "value_exact (merged_data op i v c)"
proof -
  have "value_exact w" if "hm_get (co_rows c) i = Some (w, d)" for w d
    using assms(1) hm_get_SomeD [OF that] by (auto simp: rows_ok_def)
  then show ?thesis
    using assms(2) value_exact_extend
    by (auto simp: merged_data_def rt_get_def hm_contains_def simp del: value_exact.simps
        split: "value.splits")
qed

lemma rows_ok_subset: "rows_ok R \<Longrightarrow> S \<subseteq> R \<Longrightarrow> rows_ok S"
  by (auto simp: rows_ok_def inj_on_subset)

lemma rows_ok_hm_insert:
  assumes "hm_wf rows" and "rows_ok (set rows)" and "value_exact v"
  shows "rows_ok (set (hm_insert i (v, d) rows))"
proof -
  have "inj_on fst (set (hm_insert i (v, d) rows))" using assms(1) by (intro inj_on_fst_rows) auto
  then show ?thesis using assms by (auto simp: rows_ok_def set_hm_insert)
qed

lemma rows_except:
  "x \<in> S \<Longrightarrow> fst x = i \<Longrightarrow> (\<And>e. e \<in> S \<Longrightarrow> fst e = i \<Longrightarrow> e = x) \<Longrightarrow> {e \<in> S. fst e \<noteq> i} = S - {x}"
  by blast

lemma unindex_row_inv:
  assumes "index_ops_ok ops" and "index_inv c" and "(n, idx) \<in> set (co_indexes (unindex_row ops i (row_key_of (co_name c) i) c))"
  shows "idx_name (oi_def idx) = n \<and> index_ok (co_name c) (set (hm_remove i (co_rows c))) idx"
proof (cases "hm_get (co_rows c) i")
  case None
  then have "hm_remove i (co_rows c) = co_rows c" by (simp add: hm_get_eq_None_iff hm_remove_absent)
  moreover have "(n, idx) \<in> set (co_indexes c)"
    using assms(3) None by (simp add: unindex_row_def hm_contains_def)
  ultimately show ?thesis using assms(2) by (auto simp: index_inv_def)
next
  case (Some r)
  obtain v d where r: "r = (v, d)" by (cases r)
  have wf: "hm_wf (co_rows c)" "rows_ok (set (co_rows c))" using assms(2) by (simp_all add: index_inv_def)
  have row: "(i, v, d) \<in> set (co_rows c)" using Some r hm_get_SomeD by metis
  have R: "set (hm_remove i (co_rows c)) = set (co_rows c) - {(i, v, d)}"
  proof -
    have "x = (v, d)" if "(i, x) \<in> set (co_rows c)" for x
      using hm_get_eq_Some_iff [OF wf(1), of i x] that Some r by simp
    then have "e = (i, v, d)" if "e \<in> set (co_rows c)" "fst e = i" for e
      using that by (metis prod.collapse)
    then show ?thesis unfolding set_hm_remove by (intro rows_except row) simp_all
  qed
  from assms(3) Some r obtain idx0 where "(n, idx0) \<in> set (co_indexes c)"
    and "idx = index_remove ops (key_of idx0 (from_value v)) (row_key_of (co_name c) i) idx0"
    by (cases "co_indexes c = []") (auto simp: unindex_row_def hm_contains_def rt_get_def Let_def)
  then show ?thesis
    using assms(1,2) wf row R index_ok_remove [of ops "set (co_rows c)" "co_name c" idx0 i v d]
    by (auto simp: index_inv_def)
qed

lemma hm_wf_unindex_row: "hm_wf (co_indexes c) \<Longrightarrow> hm_wf (co_indexes (unindex_row ops i key c))"
  by (simp add: unindex_row_def Let_def hm_wf_def comp_def case_prod_unfold)

lemma index_inv_delete:
  assumes "index_ops_ok ops" and "index_inv c"
  shows "index_inv (apply_delete ops i (row_key_of (co_name c) i) c)"
proof -
  have x: "co_indexes (unindex_row ops i k (xor_out_row i c)) = co_indexes (unindex_row ops i k c)" for k
    by (simp add: unindex_row_def Let_def)
  have ix: "co_indexes (apply_delete ops i (row_key_of (co_name c) i) c) =
      co_indexes (unindex_row ops i (row_key_of (co_name c) i) c)"
    by (simp add: apply_delete_def Let_def x)
  show ?thesis
    using assms unindex_row_inv [OF assms] hm_wf_unindex_row rows_ok_subset [of "set (co_rows c)"]
    unfolding index_inv_def ix by (auto simp: set_hm_remove)
qed

lemma index_inv_write:
  assumes "index_ops_ok ops" and "index_inv c" and "value_exact v"
  shows "index_inv (apply_write ops i (row_key_of (co_name c) i) v d c)"
proof -
  let ?k = "row_key_of (co_name c) i"
  let ?ins = "\<lambda>idx. index_insert ops (key_of idx (from_value v)) ?k idx"
  have x: "co_indexes (unindex_row ops i k ((xor_out_row i c)\<lparr>co_catchup_xor := u\<rparr>)) =
      co_indexes (unindex_row ops i k c)" for k u
    by (simp add: unindex_row_def Let_def)
  have ix: "co_indexes (apply_write ops i ?k v d c) = map (\<lambda>(n, idx). (n, ?ins idx)) (co_indexes (unindex_row ops i ?k c))"
    by (simp add: apply_write_def Let_def index_row_def x)
  have wf: "hm_wf (co_rows c)" "rows_ok (set (co_rows c))" "hm_wf (co_indexes c)"
    using assms(2) by (simp_all add: index_inv_def)
  have R: "set (hm_insert i (v, d) (co_rows c)) = insert (i, v, d) (set (hm_remove i (co_rows c)))"
    using wf(1) by (simp add: set_hm_insert set_hm_remove)
  have ok: "idx_name (oi_def (?ins idx)) = n \<and> index_ok (co_name c) (set (hm_insert i (v, d) (co_rows c))) (?ins idx)"
    if "(n, idx) \<in> set (co_indexes (unindex_row ops i ?k c))" for n idx
  proof -
    have "index_ok (co_name c) (set (hm_remove i (co_rows c))) idx" "idx_name (oi_def idx) = n"
      using unindex_row_inv [OF assms(1,2) that] by simp_all
    moreover have "rows_ok (set (hm_remove i (co_rows c)))"
      using wf(2) by (elim rows_ok_subset) (auto simp: set_hm_remove)
    ultimately show ?thesis
      using index_ok_insert [OF assms(1), of "set (hm_remove i (co_rows c))" "co_name c" idx i v d] assms(3) R
      by (auto simp: set_hm_remove)
  qed
  show ?thesis
    using ok wf rows_ok_hm_insert [OF wf(1,2) assms(3)] hm_wf_unindex_row [OF wf(3)]
    unfolding index_inv_def ix by auto
qed

lemma index_inv_apply:
  assumes "index_ops_ok ops" and "index_inv c" and "value_exact v"
  shows "index_inv (snd (collection_apply cdc ops op i v c))"
proof -
  have "rows_ok (set (co_rows c))" using assms(2) by (simp add: index_inv_def)
  then have "value_exact (project c (merged_data op (raw_id i) v c))"
    using assms(3) value_exact_project value_exact_merged by blast
  then show ?thesis
    using assms index_inv_delete index_inv_write
    by (simp add: collection_apply_def Let_def make_key_row_key_of)
qed

lemma index_inv_drop_outdated:
  "index_inv c \<Longrightarrow> index_inv (drop_outdated_index d c)"
  by (auto simp: drop_outdated_index_def index_inv_def set_hm_remove split: option.splits)

lemma drop_outdated_fields [simp]:
  "co_rows (drop_outdated_index d c) = co_rows c" "co_name (drop_outdated_index d c) = co_name c"
  by (auto simp: drop_outdated_index_def split: option.splits)

lemma drop_outdated_def:
  "hm_get (co_indexes (drop_outdated_index d c)) (idx_name d) = Some idx \<Longrightarrow> oi_def idx = d"
  by (auto simp: drop_outdated_index_def split: option.splits if_splits)

lemma membership_fields [simp]:
  "co_rows (snd (membership c)) = co_rows c" "co_name (snd (membership c)) = co_name c"
  "co_indexes (snd (membership c)) = co_indexes c"
  by (simp_all add: membership_def split: option.splits)

lemma index_inv_membership [simp]: "index_inv (snd (membership c)) = index_inv c"
  by (simp add: index_inv_def)

lemma index_inv_set_index:
  assumes "index_inv c" and "index_ok (co_name c) (set (co_rows c)) idx" and "idx_name (oi_def idx) = n"
  shows "index_inv (set_index n idx c)"
  using assms by (auto simp: index_inv_def set_index_def set_hm_insert)

lemma index_inv_get:
  "index_inv c \<Longrightarrow> hm_get (co_indexes c) n = Some idx \<Longrightarrow>
   idx_name (oi_def idx) = n \<and> index_ok (co_name c) (set (co_rows c)) idx"
  by (auto simp: index_inv_def dest!: hm_get_SomeD)

lemma index_ok_idle [simp]: "index_ok name R (idx\<lparr>oi_idle_since := t\<rparr>) = index_ok name R idx"
proof -
  have "row_entry name (idx\<lparr>oi_idle_since := t\<rparr>) = row_entry name idx"
    by (auto simp: row_entry_def key_of_def)
  then show ?thesis by (simp add: index_ok_def index_lawful_def pending_ids_def)
qed

lemma index_ok_complete:
  "index_ok name R idx \<Longrightarrow> is_complete idx \<Longrightarrow> set (oi_entries idx) = row_entry name idx ` R"
  by (auto simp: index_ok_def is_complete_def pending_ids_def)

lemma with_index_ok:
  assumes "index_ops_ok ops" and "index_inv c" and "with_index ops d c = (idx, st, c')"
  shows "index_ok (co_name c) (set (co_rows c)) idx \<and> oi_def idx = d \<and> is_complete idx \<and> index_inv c'
    \<and> co_rows c' = co_rows c \<and> co_name c' = co_name c"
proof -
  let ?c1 = "drop_outdated_index d c"
  have inv1: "index_inv ?c1" using assms(2) by (rule index_inv_drop_outdated)
  then have wf: "hm_wf (co_rows c)" "rows_ok (set (co_rows c))" by (simp_all add: index_inv_def)
  obtain idx0 c2 where 0: "index_ok (co_name c) (set (co_rows c)) idx0" "oi_def idx0 = d" "index_inv c2"
      "co_rows c2 = co_rows c" "co_name c2 = co_name c"
    and r: "idx = (if is_complete idx0 then idx0 else snd (fill_pending ops c2 idx0 usize_max))"
      "c' = set_index (idx_name d) idx c2"
  proof (cases "hm_get (co_indexes ?c1) (idx_name d)")
    case None
    obtain idx0 c2 where b: "build_index ops d ?c1 = (idx0, c2)" by fastforce
    have ok: "index_ok (co_name c) (set (co_rows c)) idx0" "oi_def idx0 = d" "is_complete idx0"
      "c2 = snd (membership ?c1)"
      using index_ok_build [OF assms(1) _ _ b] wf by simp_all
    show ?thesis
      by (rule that [of idx0 c2]) (use ok inv1 assms(3) None b in \<open>auto simp: with_index_def Let_def\<close>)
  next
    case (Some idx0)
    have "index_ok (co_name c) (set (co_rows c)) idx0" using index_inv_get [OF inv1 Some] by simp
    moreover have "oi_def idx0 = d" using Some by (rule drop_outdated_def)
    ultimately show ?thesis
      by (rule that [of idx0 ?c1])
        (use inv1 assms(3) Some in \<open>auto simp: with_index_def Let_def split: prod.splits\<close>)
  qed
  have ok: "index_ok (co_name c) (set (co_rows c)) idx \<and> oi_def idx = d \<and> is_complete idx"
  proof (cases "is_complete idx0")
    case False
    then show ?thesis
      using index_ok_fill_pending [OF assms(1), of c2 idx0 usize_max "fst (fill_pending ops c2 idx0 usize_max)" idx]
        0 r wf by (simp add: index_ok_def)
  qed (use 0 r in simp)
  moreover have "index_inv c'" using index_inv_set_index [OF 0(3), of idx "idx_name d"] 0 r(2) ok by simp
  ultimately show ?thesis using r(2) 0 by (simp add: set_index_def)
qed

lemma build_step_loop_ok:
  assumes "index_ops_ok ops" and "hm_wf (co_rows c)" and "rows_ok (set (co_rows c))"
    and "index_ok (co_name c) (set (co_rows c)) idx" and "build_step_loop ops c elapsed n idx = (m, idx')"
  shows "index_ok (co_name c) (set (co_rows c)) idx' \<and> oi_def idx' = oi_def idx"
  using assms
proof (induction ops c elapsed n idx arbitrary: m idx' rule: build_step_loop.induct)
  case (1 ops c elapsed n idx)
  obtain k idx1 where f: "fill_pending ops c idx 512 = (k, idx1)" by fastforce
  have ok1: "index_ok (co_name c) (set (co_rows c)) idx1" "oi_def idx1 = oi_def idx"
    using index_ok_fill_pending [OF 1(2-5) f] by simp_all
  show ?case
  proof (cases "is_complete idx1 \<or> elapsed n")
    case True
    then show ?thesis using 1(6) f ok1 by (simp add: build_step_loop.simps [of ops c elapsed n idx])
  next
    case False
    obtain m2 idx2 where g: "build_step_loop ops c elapsed (Suc n) idx1 = (m2, idx2)" by fastforce
    then have "idx' = idx2" using 1(6) f False by (simp add: build_step_loop.simps [of ops c elapsed n idx])
    then show ?thesis using 1(1) [OF f [symmetric] False 1(2,3,4) ok1(1) g] ok1(2) by simp
  qed
qed

lemma index_inv_build_step:
  assumes "index_ops_ok ops" and "index_inv c" and "length (co_rows c) \<le> usize_max"
  shows "index_inv (snd (snd (build_index_step ops d elapsed c)))"
proof -
  let ?c1 = "drop_outdated_index d c"
  have inv1: "index_inv ?c1" using assms(2) by (rule index_inv_drop_outdated)
  then have wf: "hm_wf (co_rows c)" "rows_ok (set (co_rows c))" by (simp_all add: index_inv_def)
  let ?new = "(index_new d)\<lparr>oi_pending := Some (hm_keys (co_rows ?c1))\<rparr>"
  define idx0 where "idx0 = (case hm_get (co_indexes ?c1) (idx_name d) of Some idx \<Rightarrow> idx | None \<Rightarrow> ?new)"
  have "index_ok (co_name c) (set (co_rows c)) ?new"
    using assms(3) by (auto simp: index_ok_def index_lawful_def pending_ids_def hm_keys_def)
  then have 0: "index_ok (co_name c) (set (co_rows c)) idx0 \<and> oi_def idx0 = d"
  proof (cases "hm_get (co_indexes ?c1) (idx_name d)")
    case (Some idx)
    then show ?thesis using index_inv_get [OF inv1 Some] drop_outdated_def [OF Some] by (simp add: idx0_def)
  qed (simp add: idx0_def)
  define idx1 where "idx1 = idx0\<lparr>oi_idle_since := None\<rparr>"
  have 1: "index_ok (co_name c) (set (co_rows c)) idx1" "oi_def idx1 = d"
    using 0 by (simp_all add: idx1_def)
  obtain n idx2 where l: "build_step_loop ops ?c1 elapsed 0 idx1 = (n, idx2)" by fastforce
  have 2: "index_ok (co_name c) (set (co_rows c)) idx2" "oi_def idx2 = d"
    using build_step_loop_ok [OF assms(1) _ _ _ l] wf 1 by simp_all
  have "build_index_step ops d elapsed c =
      (if is_complete idx1 then (True, \<lparr>st_indexes_built = 0, st_rows_indexed = 0\<rparr>, set_index (idx_name d) idx1 ?c1)
       else (is_complete idx2, \<lparr>st_indexes_built = (if is_complete idx2 then 1 else 0), st_rows_indexed = n\<rparr>,
             set_index (idx_name d) idx2 ?c1))"
    unfolding build_index_step_def Let_def idx0_def [symmetric] idx1_def [symmetric] l by simp
  then show ?thesis
    using index_inv_set_index [OF inv1, of idx1 "idx_name d"] index_inv_set_index [OF inv1, of idx2 "idx_name d"] 1 2
    by simp
qed

lemma index_inv_release:
  assumes "index_inv c"
  shows "index_inv (release_indexes used defined now grace c)"
proof -
  let ?f = "release_index used defined now grace"
  have fst: "fst y = fst x" if "?f x = Some y" for x y
    using that by (auto simp: release_index_def Let_def split: prod.splits if_splits)
  have "hm_wf (List.map_filter ?f m)" if "hm_wf m" for m
    using that
  proof (induction m)
    case (Cons x m)
    have "k \<in> fst ` set m" if "k \<in> fst ` set (List.map_filter ?f m)" for k
      using that fst by (force simp: set_map_filter)
    then show ?case using Cons fst [of x]
      by (cases x) (auto simp: hm_wf_def map_filter_simps image_iff split: option.splits)
  qed (simp add: map_filter_simps)
  moreover have "idx_name (oi_def idx) = n \<and> index_ok (co_name c) (set (co_rows c)) idx"
    if nx: "(n, idx) \<in> set (List.map_filter ?f (co_indexes c))" for n idx
  proof -
    from nx obtain idx0 t where "(n, idx0) \<in> set (co_indexes c)" "idx = idx0\<lparr>oi_idle_since := t\<rparr>"
      by (auto simp: set_map_filter release_index_def Let_def split: if_splits)
    then show ?thesis using assms by (auto simp: index_inv_def)
  qed
  ultimately show ?thesis using assms by (auto simp: index_inv_def release_indexes_def)
qed

subsection \<open>Compaction\<close>

lemma fold_hm_insert_append:
  "hm_wf (acc @ es) \<Longrightarrow> fold (\<lambda>(k, v). hm_insert k v) es acc = acc @ es"
proof (induction es arbitrary: acc)
  case (Cons e es)
  then have "fst e \<notin> fst ` set acc" by (auto simp: hm_wf_def)
  then show ?case using Cons by (simp add: case_prod_unfold hm_insert_new)
qed simp

lemma fst_compact_row [simp]: "fst (compact_row cdc c e) = fst e"
  by (simp add: compact_row_def Let_def split: prod.splits)

lemma compact_rows:
  "hm_wf (co_rows c) \<Longrightarrow> co_rows (collection_compact cdc c) = map (compact_row cdc c) (co_rows c)"
proof -
  assume "hm_wf (co_rows c)"
  then have "hm_wf ([] @ map (compact_row cdc c) (co_rows c))"
    by (simp add: hm_wf_def comp_def)
  from fold_hm_insert_append [OF this] show ?thesis by (simp add: collection_compact_def Let_def)
qed

lemma hm_get_filter_key: "p k \<Longrightarrow> hm_get (filter (\<lambda>(k, v). p k) m) k = hm_get m k"
  by (induction m) auto

lemma resolve_field_project:
  assumes "\<forall>keep. co_retained c = Some keep \<longrightarrow> field_root f \<in> set keep \<or> field_root f \<in> set always_retained"
  shows "scalar_from_value (resolve_field (from_value (project c v)) (path_new f)) =
    scalar_from_value (resolve_field (from_value v) (path_new f))"
proof (cases "co_retained c")
  case (Some keep)
  have root: "field_root f \<in> set keep \<or> field_root f \<in> set always_retained" using assms Some by simp
  show ?thesis
  proof (cases v)
    case (VObject m)
    let ?p = "\<lambda>k. k \<in> set keep \<or> k \<in> set always_retained"
    show ?thesis
    proof (cases "f = []")
      case False
      obtain rest where "path_new f = field_root f # rest"
        using False by (cases "split_on CHR ''.'' f") (auto simp: path_new_def field_root_def)
      moreover have "hm_get (filter (\<lambda>(k, v). ?p k) m) (field_root f) = hm_get m (field_root f)"
        using root by (intro hm_get_filter_key)
      ultimately show ?thesis using VObject Some
        by (simp add: project_def hm_retain_def resolve_field_def is_record_ref_def ref_get_def)
    qed (use VObject Some in \<open>simp add: project_def path_new_def resolve_field_def scalar_from_value_def\<close>)
  qed (use Some in \<open>simp_all add: project_def\<close>)
qed (simp add: project_def split: "value.splits")

lemma index_inv_compact:
  assumes "index_inv c"
  shows "index_inv (collection_compact cdc c)"
proof -
  let ?c = "collection_compact cdc c"
  have wf: "hm_wf (co_rows c)" "rows_ok (set (co_rows c))" using assms by (simp_all add: index_inv_def)
  have rows: "co_rows ?c = map (compact_row cdc c) (co_rows c)" using wf(1) by (rule compact_rows)
  have wf': "hm_wf (co_rows ?c)" using wf(1) by (simp add: rows hm_wf_def comp_def)
  have ex: "value_exact w" if "(i, w, d) \<in> set (co_rows ?c)" for i w d
    using that wf(2) value_exact_project by (auto simp: rows compact_row_def rows_ok_def Let_def)
  have ix: "set (co_indexes ?c) \<subseteq> set (co_indexes c)" "hm_wf (co_indexes ?c)"
    using assms by (auto simp: collection_compact_def Let_def index_inv_def hm_retain_def split: option.splits)
  have "idx_name (oi_def idx) = n \<and> index_ok (co_name ?c) (set (co_rows ?c)) idx"
    if nx: "(n, idx) \<in> set (co_indexes ?c)" for n idx
  proof -
    have ok: "idx_name (oi_def idx) = n" "index_ok (co_name c) (set (co_rows c)) idx"
      using nx ix(1) assms by (auto simp: index_inv_def)
    have kept: "\<forall>keep. co_retained c = Some keep \<longrightarrow> field_root f \<in> set keep \<or> field_root f \<in> set always_retained"
      if "f \<in> set (idx_fields (oi_def idx))" for f
      using nx that by (auto simp: collection_compact_def Let_def hm_retain_def list_all_iff)
    have "key_of idx (from_value (project c v)) = key_of idx (from_value v)" for v
      using ok(2) resolve_field_project [OF kept]
      by (simp add: key_of_def index_ok_def index_paths_def sortable_from_value_def)
    then have "row_entry (co_name c) idx (compact_row cdc c e) = row_entry (co_name c) idx e" for e
      by (simp add: row_entry_def compact_row_def Let_def split: prod.splits)
    moreover have "co_name ?c = co_name c" by (simp add: collection_compact_def Let_def)
    ultimately show ?thesis using ok by (simp add: index_ok_def rows image_image)
  qed
  then show ?thesis using wf' ix(2) ex inj_on_fst_rows [OF wf']
    by (auto simp: index_inv_def rows_ok_def)
qed

lemma coll_inv_compact:
  assumes "coll_inv cdc c"
  shows "coll_inv cdc (collection_compact cdc c)"
proof -
  let ?c = "collection_compact cdc c"
  have wf: "hm_wf (co_rows c)" using assms by (simp add: coll_inv_def)
  have rows: "co_rows ?c = map (compact_row cdc c) (co_rows c)" using wf by (rule compact_rows)
  have n: "co_name ?c = co_name c" "co_membership ?c = co_membership c"
    by (simp_all add: collection_compact_def Let_def)
  have "hm_contains (co_rows ?c) i = hm_contains (co_rows c) i" for i
    by (simp add: rows hm_contains_iff image_image)
  then have "mem_weight ?c = mem_weight c"
    using n by (intro ext) (simp add: mem_weight_def split: option.splits)
  then have "membership_ok ?c" using assms n
    by (simp add: coll_inv_def membership_ok_def split: option.splits)
  moreover have "digests_ok cdc ?c"
    by (auto simp: digests_ok_def rows compact_row_def incoming_digest_def Let_def)
  moreover have "co_catchup_xor ?c = xsum (row_digests (co_rows ?c))"
    by (simp add: rows) (simp add: collection_compact_def Let_def row_digests_def xor_all_def fold_map
        comp_def case_prod_unfold)
  ultimately show ?thesis using assms wf n by (simp add: coll_inv_def name_ok_def rows hm_wf_def comp_def)
qed

section \<open>All histories of a collection\<close>

text \<open>
  The steps a host takes on one collection: mutations, index lookups, single steps of a stepped
  index build, dropping idle indexes, compaction, and setting the projection.
\<close>

inductive collection_step :: "codec \<Rightarrow> index_ops \<Rightarrow> collection \<Rightarrow> collection \<Rightarrow> bool"
  for cdc ops where
  mutate: "value_exact v \<Longrightarrow> collection_step cdc ops c (snd (collection_apply cdc ops op i v c))"
| look_up: "collection_step cdc ops c (snd (snd (with_index ops d c)))"
| build_step: "length (co_rows c) \<le> usize_max \<Longrightarrow>
    collection_step cdc ops c (snd (snd (build_index_step ops d elapsed c)))"
| release: "collection_step cdc ops c (release_indexes used defined now grace c)"
| compact: "collection_step cdc ops c (collection_compact cdc c)"
| retain: "collection_step cdc ops c (c\<lparr>co_retained := keep\<rparr>)"
| scan: "collection_step cdc ops c (snd (membership c))"
| unscan: "collection_step cdc ops c (release_membership c)"

inductive collection_reachable :: "codec \<Rightarrow> index_ops \<Rightarrow> string \<Rightarrow> collection \<Rightarrow> bool"
  for cdc ops name where
  start: "collection_reachable cdc ops name (collection_new name)"
| step: "collection_reachable cdc ops name c \<Longrightarrow> collection_step cdc ops c c' \<Longrightarrow>
    collection_reachable cdc ops name c'"

lemma coll_inv_cong:
  "co_rows c' = co_rows c \<Longrightarrow> co_name c' = co_name c \<Longrightarrow> co_membership c' = co_membership c \<Longrightarrow>
   co_catchup_xor c' = co_catchup_xor c \<Longrightarrow> coll_inv cdc c' = coll_inv cdc c"
  using membership_ok_cong [of c' c] by (simp add: coll_inv_def name_ok_def digests_ok_def)

lemma coll_inv_membership: "coll_inv cdc c \<Longrightarrow> coll_inv cdc (snd (membership c))"
proof -
  assume inv: "coll_inv cdc c"
  obtain z c' where m: "membership c = (z, c')" by fastforce
  then have "zset_ok z \<and> (\<forall>k. zget z k = mem_weight c k) \<and> c' = c\<lparr>co_membership := Some z\<rparr>"
    using inv membership_spec by (auto simp: coll_inv_def)
  moreover have "mem_weight (c\<lparr>co_membership := Some z\<rparr>) = mem_weight c"
    by (rule mem_weight_cong) simp_all
  ultimately show ?thesis using inv m
    by (simp add: coll_inv_def name_ok_def digests_ok_def membership_ok_def)
qed

lemma coll_inv_drop_outdated: "coll_inv cdc c \<Longrightarrow> coll_inv cdc (drop_outdated_index d c)"
  by (subst coll_inv_cong [of _ c]) (auto simp: drop_outdated_index_def split: option.splits)

lemma coll_inv_set_index [simp]: "coll_inv cdc (set_index n idx c) = coll_inv cdc c"
  by (rule coll_inv_cong) (simp_all add: set_index_def)

lemma coll_inv_with_index: "coll_inv cdc c \<Longrightarrow> coll_inv cdc (snd (snd (with_index ops d c)))"
  using coll_inv_drop_outdated [of cdc c d] coll_inv_membership [of cdc "drop_outdated_index d c"]
  by (auto simp: with_index_def build_index_def Let_def split: option.splits prod.splits)

lemma coll_inv_build_step: "coll_inv cdc c \<Longrightarrow> coll_inv cdc (snd (snd (build_index_step ops d elapsed c)))"
  using coll_inv_drop_outdated [of cdc c d]
  by (simp add: build_index_step_def Let_def split: prod.splits)

lemma collection_step_inv:
  assumes "collection_step cdc ops c c'" and "codec_ok cdc" and "index_ops_ok ops"
    and "coll_inv cdc c" and "index_inv c"
  shows "coll_inv cdc c' \<and> index_inv c' \<and> co_name c' = co_name c"
  using assms(1)
proof cases
  case (mutate v op i)
  then show ?thesis
    using assms coll_inv_apply index_inv_apply by (auto simp: collection_apply_def Let_def)
next
  case (look_up d)
  obtain idx st c2 where w: "with_index ops d c = (idx, st, c2)" by (cases "with_index ops d c") blast
  then show ?thesis
    using look_up assms(4) coll_inv_with_index [of cdc c ops d] with_index_ok [OF assms(3,5) w] by simp
next
  case (build_step d elapsed)
  moreover have "co_name (snd (snd (build_index_step ops d elapsed c))) = co_name c"
    by (simp add: build_index_step_def Let_def set_index_def split: prod.splits)
  ultimately show ?thesis using assms coll_inv_build_step index_inv_build_step by simp
next
  case (release used defined now grace)
  then show ?thesis using assms index_inv_release coll_inv_cong [of c' c]
    by (simp add: release_indexes_def)
next
  case compact
  then show ?thesis using assms coll_inv_compact index_inv_compact
    by (simp add: collection_compact_def Let_def)
next
  case (retain keep)
  then show ?thesis using assms coll_inv_cong [of c' c] by (simp add: index_inv_def)
next
  case scan
  then show ?thesis using assms coll_inv_membership by simp
next
  case unscan
  then show ?thesis using assms
    by (simp add: index_inv_def coll_inv_def release_membership_def membership_ok_def name_ok_def digests_ok_def)
qed

lemma index_inv_new [simp]: "index_inv (collection_new n)"
  by (simp add: index_inv_def collection_new_def collection_from_rows_def rows_ok_def)

lemma collection_reachable_inv:
  assumes "collection_reachable cdc ops name c" and "codec_ok cdc" and "index_ops_ok ops"
    and "CHR '':'' \<notin> set name"
  shows "coll_inv cdc c \<and> index_inv c \<and> co_name c = name"
  using assms(1)
proof induction
  case start
  have "co_name (collection_new name) = name"
    by (simp add: collection_new_def collection_from_rows_def)
  then show ?case using assms(4) by simp
next
  case (step c c')
  then show ?case using collection_step_inv [OF step(2) assms(2,3)] by simp
qed

lemma row_entry_distinct:
  "hm_wf rows \<Longrightarrow> card (row_entry name idx ` set rows) = length rows"
proof -
  assume wf: "hm_wf rows"
  have "inj_on (row_entry name idx) (set rows)"
    using row_entry_inj [OF inj_on_fst_rows [OF wf], of _ _ name idx] by (intro inj_onI) simp
  then have "card (row_entry name idx ` set rows) = card (set rows)" by (rule card_image)
  also have "\<dots> = length rows" using wf by (simp add: hm_wf_def distinct_map distinct_card)
  finally show ?thesis .
qed

text \<open>
  C11. In every history of mutations, index lookups, single steps of stepped index builds, index
  releases, projections and compactions, the collection keeps its invariant, and a lookup reads a
  complete index: strictly ordered, with exactly one entry per row, filed under the row's
  current values. A stepped build thus never loses or duplicates a row that was written between
  its steps.
\<close>

theorem collection_history:
  assumes "codec_ok cdc" and "index_ops_ok ops" and "CHR '':'' \<notin> set name"
    and "collection_reachable cdc ops name c" and "with_index ops d c = (idx, st, c')"
  shows "coll_inv cdc c \<and> is_complete idx \<and> co_rows c' = co_rows c
    \<and> cmp_sorted index_entry_cmp (oi_entries idx) \<and> length (oi_entries idx) = length (co_rows c)
    \<and> set (oi_entries idx) = row_entry name idx ` set (co_rows c)"
proof -
  have inv: "coll_inv cdc c" "index_inv c" "co_name c = name"
    using collection_reachable_inv [OF assms(4,1,2,3)] by simp_all
  have ok: "index_ok name (set (co_rows c)) idx" "is_complete idx" "co_rows c' = co_rows c"
    using with_index_ok [OF assms(2) inv(2) assms(5)] inv(3) by simp_all
  have e: "set (oi_entries idx) = row_entry name idx ` set (co_rows c)"
    using ok(1,2) by (rule index_ok_complete)
  have "index_lawful idx" using ok(1) by (simp add: index_ok_def)
  then have "cmp_sorted index_entry_cmp (oi_entries idx)" "distinct (oi_entries idx)"
    using total_cmp.sorted_distinct [OF total_cmp_index_entry, of "length (oi_paths idx)"]
    by (simp_all add: index_lawful_def)
  moreover have "length (oi_entries idx) = length (co_rows c)"
    using distinct_card [OF calculation(2)] e row_entry_distinct inv(1) by (simp add: coll_inv_def)
  ultimately show ?thesis using inv(1) ok e by simp
qed

theorem collection_history_witness:
  "length (oi_entries (fst (with_index (list_set_ops index_entry_cmp) \<lparr>idx_name = ''by_age'', idx_fields = [''age'']\<rparr>
     (snd (collection_apply sample_codec (list_set_ops index_entry_cmp) OpCreate ''user:1''
        (VObject [(''age'', VInt 7)]) (collection_new ''user'')))))) = 1"
proof -
  let ?v = "VObject [(''age'', VInt 7)]" and ?d = "\<lparr>idx_name = ''by_age'', idx_fields = [''age'']\<rparr>"
  let ?ops = "list_set_ops index_entry_cmp"
  let ?c = "snd (collection_apply sample_codec ?ops OpCreate ''user:1'' ?v (collection_new ''user''))"
  have reach: "collection_reachable sample_codec ?ops ''user'' ?c"
    by (rule collection_reachable.step [OF collection_reachable.start collection_step.mutate]) simp
  have "length (co_rows ?c) = 1"
    by (simp add: apply_new_row hm_contains_def collection_new_def collection_from_rows_def)
  moreover obtain idx st c' where w: "with_index ?ops ?d ?c = (idx, st, c')"
    by (cases "with_index ?ops ?d ?c") blast
  ultimately show ?thesis
    using collection_history [OF sample_codec_ok list_index_ops_ok _ reach w] by simp
qed

end
