(* ===== verification/Filters.thy ===== *)
theory Filters
  imports Row_Store
begin

section \<open>Predicates and their evaluation\<close>

text \<open>
  Model of \<^verbatim>\<open>packages/ssp/src/operator/predicate.rs\<close> (the predicate tree and the root fields
  it reads) and of the evaluation in \<^verbatim>\<open>operator/filter.rs\<close>: resolving an operand against the
  view's parameters, and checking a predicate on the row a key names. A comparison with
  \<^verbatim>\<open>Missing\<close> or with an unresolved parameter is false, so a filter fails closed.
\<close>

datatype predicate =
    PTrue
  | PFalse
  | PEq path json
  | PNeq path json
  | PGt path json
  | PGte path json
  | PLt path json
  | PLte path json
  | PPrefix path string
  | PParamEq string json
  | PParamNeq string json
  | PParamGt string json
  | PParamGte string json
  | PParamLt string json
  | PParamLte string json
  | PAnd "predicate list"
  | POr "predicate list"

definition path_root :: "path \<Rightarrow> string list" where
  "path_root p = (case p of [] \<Rightarrow> [] | root # _ \<Rightarrow> [root])"

fun field_roots :: "predicate \<Rightarrow> string list" where
  "field_roots (PEq f _) = path_root f"
| "field_roots (PNeq f _) = path_root f"
| "field_roots (PGt f _) = path_root f"
| "field_roots (PGte f _) = path_root f"
| "field_roots (PLt f _) = path_root f"
| "field_roots (PLte f _) = path_root f"
| "field_roots (PPrefix f _) = path_root f"
| "field_roots (PAnd ps) = concat (map field_roots ps)"
| "field_roots (POr ps) = concat (map field_roots ps)"
| "field_roots _ = []"

definition strip_parent :: "string \<Rightarrow> string" where
  "strip_parent p = (case strip_prefix p ''parent.'' of Some rest \<Rightarrow> rest | None \<Rightarrow> p)"

definition resolve_in_ctx :: "string \<Rightarrow> value \<Rightarrow> value option" where
  "resolve_in_ctx p ctx =
     (let resolved = resolve_field (from_value ctx) (path_new (strip_parent p))
      in if is_missing resolved then None else Some (to_owned_value resolved))"

definition resolve_predicate_value :: "json \<Rightarrow> value option \<Rightarrow> value option" where
  "resolve_predicate_value v ctx =
     (case v of
        JObject obj \<Rightarrow>
          (case hm_get obj ''$param'' of
             Some param_path \<Rightarrow>
               (case ctx of
                  None \<Rightarrow> None
                | Some c \<Rightarrow>
                    let path_str = (case param_path of JString s \<Rightarrow> s | _ \<Rightarrow> [])
                    in resolve_in_ctx path_str c)
           | None \<Rightarrow> Some (value_of_json v))
      | _ \<Rightarrow> Some (value_of_json v))"

definition resolve_param_lookup :: "string \<Rightarrow> value option \<Rightarrow> value option" where
  "resolve_param_lookup param ctx =
     (case ctx of None \<Rightarrow> None | Some c \<Rightarrow> resolve_in_ctx param c)"

fun same_kind :: "value_ref \<Rightarrow> value_ref \<Rightarrow> bool" where
  "same_kind RMissing RMissing = True"
| "same_kind RNull RNull = True"
| "same_kind (RBool _) (RBool _) = True"
| "same_kind (RInt _) (RInt _) = True"
| "same_kind (RInt _) (RFloat _) = True"
| "same_kind (RFloat _) (RInt _) = True"
| "same_kind (RFloat _) (RFloat _) = True"
| "same_kind (RStr _) (RStr _) = True"
| "same_kind (RArr _) (RArr _) = True"
| "same_kind (RObj _) (RObj _) = True"
| "same_kind _ _ = False"

definition compare_field :: "(value_ref \<Rightarrow> value_ref \<Rightarrow> ordering \<Rightarrow> bool) \<Rightarrow> path \<Rightarrow> json \<Rightarrow> row_key
    \<Rightarrow> store \<Rightarrow> value option \<Rightarrow> bool" where
  "compare_field test field v key s ctx =
     (case resolve_predicate_value v ctx of
        None \<Rightarrow> False
      | Some target \<Rightarrow>
          let actual = (if field = [''id''] then RStr key
                        else resolve_field (get_row_by_key_or_deleted s key) field)
          in if is_missing actual then False
             else test actual (from_value target) (compare_values actual (from_value target)))"

definition compare_param :: "(ordering \<Rightarrow> bool) \<Rightarrow> string \<Rightarrow> json \<Rightarrow> value option \<Rightarrow> bool" where
  "compare_param test param v ctx =
     (case resolve_param_lookup param ctx of
        None \<Rightarrow> False
      | Some left \<Rightarrow>
          (case resolve_predicate_value v ctx of
             None \<Rightarrow> False
           | Some right \<Rightarrow> test (compare_values (from_value left) (from_value right))))"

fun check_predicate :: "predicate \<Rightarrow> row_key \<Rightarrow> store \<Rightarrow> value option \<Rightarrow> bool" where
  "check_predicate PTrue key s ctx = True"
| "check_predicate PFalse key s ctx = False"
| "check_predicate (PAnd ps) key s ctx = list_all (\<lambda>p. check_predicate p key s ctx) ps"
| "check_predicate (POr ps) key s ctx = list_ex (\<lambda>p. check_predicate p key s ctx) ps"
| "check_predicate (PPrefix field pre) key s ctx =
     (if field = [''id''] then starts_with key pre
      else (case ref_as_str (resolve_field (get_row_by_key_or_deleted s key) field) of
              Some str \<Rightarrow> starts_with str pre | None \<Rightarrow> False))"
| "check_predicate (PEq field v) key s ctx =
     compare_field (\<lambda>a t ord. ord = Equal \<and> same_kind a t) field v key s ctx"
| "check_predicate (PNeq field v) key s ctx =
     compare_field (\<lambda>a t ord. ord \<noteq> Equal \<or> \<not> same_kind a t) field v key s ctx"
| "check_predicate (PGt field v) key s ctx = compare_field (\<lambda>_ _ ord. ord = Greater) field v key s ctx"
| "check_predicate (PGte field v) key s ctx = compare_field (\<lambda>_ _ ord. ord \<noteq> Less) field v key s ctx"
| "check_predicate (PLt field v) key s ctx = compare_field (\<lambda>_ _ ord. ord = Less) field v key s ctx"
| "check_predicate (PLte field v) key s ctx = compare_field (\<lambda>_ _ ord. ord \<noteq> Greater) field v key s ctx"
| "check_predicate (PParamEq param v) key s ctx = compare_param (\<lambda>ord. ord = Equal) param v ctx"
| "check_predicate (PParamNeq param v) key s ctx = compare_param (\<lambda>ord. ord \<noteq> Equal) param v ctx"
| "check_predicate (PParamGt param v) key s ctx = compare_param (\<lambda>ord. ord = Greater) param v ctx"
| "check_predicate (PParamGte param v) key s ctx = compare_param (\<lambda>ord. ord \<noteq> Less) param v ctx"
| "check_predicate (PParamLt param v) key s ctx = compare_param (\<lambda>ord. ord = Less) param v ctx"
| "check_predicate (PParamLte param v) key s ctx = compare_param (\<lambda>ord. ord \<noteq> Greater) param v ctx"

subsection \<open>What a predicate reads\<close>

text \<open>
  A predicate reads of a row only the root fields \<^verbatim>\<open>field_roots\<close> lists (and the key): two
  rows that agree on them, with every other field different, are judged alike. The engine
  relies on it when it keeps only those fields of a row.
\<close>

definition agree_on :: "string set \<Rightarrow> value_ref \<Rightarrow> value_ref \<Rightarrow> bool" where
  "agree_on F a b \<longleftrightarrow> (case (a, b) of
       (RObj m, RObj n) \<Rightarrow> (\<forall>f \<in> F. hm_get m f = hm_get n f)
     | _ \<Rightarrow> a = b)"

lemma resolve_segments_agree:
  assumes "agree_on F a b" and "p \<noteq> []" and "hd p \<in> F"
  shows "resolve_segments a p = resolve_segments b p"
proof -
  obtain f rest where p: "p = f # rest" "f \<in> F" using assms(2,3) by (cases p) auto
  show ?thesis
  proof (cases "\<exists>m n. a = RObj m \<and> b = RObj n")
    case True
    then obtain m n where ab: "a = RObj m" "b = RObj n" by blast
    then have "hm_get m f = hm_get n f" using assms(1) p by (simp add: agree_on_def)
    then show ?thesis using ab p by (simp add: is_record_ref_def ref_get_def)
  next
    case False
    then have "a = b" using assms(1) by (auto simp: agree_on_def split: value_ref.splits)
    then show ?thesis by simp
  qed
qed

lemma agree_on_missing: "agree_on F a b \<Longrightarrow> is_missing a = is_missing b"
  by (auto simp: agree_on_def is_missing_def split: value_ref.splits)

lemma resolve_field_agree:
  "agree_on F a b \<Longrightarrow> p \<noteq> [] \<Longrightarrow> hd p \<in> F \<Longrightarrow> resolve_field a p = resolve_field b p"
  using resolve_segments_agree agree_on_missing by (simp add: resolve_field_def)

text \<open>Paths are never empty in a predicate the parser produced from a field name.\<close>

fun paths_nonempty :: "predicate \<Rightarrow> bool" where
  "paths_nonempty (PEq f _) = (f \<noteq> [])"
| "paths_nonempty (PNeq f _) = (f \<noteq> [])"
| "paths_nonempty (PGt f _) = (f \<noteq> [])"
| "paths_nonempty (PGte f _) = (f \<noteq> [])"
| "paths_nonempty (PLt f _) = (f \<noteq> [])"
| "paths_nonempty (PLte f _) = (f \<noteq> [])"
| "paths_nonempty (PPrefix f _) = (f \<noteq> [])"
| "paths_nonempty (PAnd ps) = list_all paths_nonempty ps"
| "paths_nonempty (POr ps) = list_all paths_nonempty ps"
| "paths_nonempty _ = True"

lemma path_root_hd: "p \<noteq> [] \<Longrightarrow> path_root p = [hd p]"
  by (cases p) (simp_all add: path_root_def)

lemma compare_field_agree:
  assumes "agree_on F (get_row_by_key_or_deleted s key) (get_row_by_key_or_deleted s' key)"
    and "field \<noteq> []" and "hd field \<in> F"
  shows "compare_field test field v key s ctx = compare_field test field v key s' ctx"
  using resolve_field_agree [OF assms] by (simp add: compare_field_def split: option.splits)

lemma check_predicate_agree:
  "agree_on F (get_row_by_key_or_deleted s key) (get_row_by_key_or_deleted s' key) \<Longrightarrow>
   paths_nonempty p \<Longrightarrow> set (field_roots p) \<subseteq> F \<Longrightarrow>
   check_predicate p key s ctx = check_predicate p key s' ctx"
proof (induction p key s ctx rule: check_predicate.induct)
  case (3 ps key s ctx)
  then show ?case by (simp add: list_all_iff UN_subset_iff)
next
  case (4 ps key s ctx)
  then show ?case by (simp add: list_ex_iff list_all_iff UN_subset_iff)
next
  case (5 field pre key s ctx)
  then show ?case using resolve_field_agree [OF 5(1), of field] by (simp add: path_root_hd)
qed (simp_all add: path_root_hd compare_field_agree)

text \<open>
  C24. A predicate reads of a row only the root fields \<^verbatim>\<open>field_roots\<close> reports: if two stores
  hold rows for the key that agree on those fields, the predicate gives the same answer in both.
\<close>

theorem predicate_reads_field_roots:
  assumes "agree_on (set (field_roots p)) (get_row_by_key_or_deleted s key) (get_row_by_key_or_deleted s' key)"
    and "paths_nonempty p"
  shows "check_predicate p key s ctx = check_predicate p key s' ctx"
  using check_predicate_agree [OF assms] by simp

theorem predicate_reads_field_roots_witness:
  "check_predicate (PEq [''age''] (JNumber (N_i64 7))) ''u:1''
     \<lparr>sto_collections = [], sto_pending_deleted = [(''u:1'', VObject [(''age'', VInt 7), (''name'', VStr ''x'')])]\<rparr> None"
proof -
  let ?p = "PEq [''age''] (JNumber (N_i64 7))"
  let ?s = "\<lparr>sto_collections = [], sto_pending_deleted = [(''u:1'', VObject [(''age'', VInt 7), (''name'', VStr ''x'')])]\<rparr>"
  let ?t = "\<lparr>sto_collections = [], sto_pending_deleted = [(''u:1'', VObject [(''age'', VInt 7)])]\<rparr>"
  have row: "get_row_by_key_or_deleted ?s ''u:1'' = RObj [(''age'', VInt 7), (''name'', VStr ''x'')]"
    "get_row_by_key_or_deleted ?t ''u:1'' = RObj [(''age'', VInt 7)]"
    by (simp_all add: get_row_by_key_or_deleted_def get_row_by_key_def parse_key_def Let_def)
  have "check_predicate ?p ''u:1'' ?t None"
    by (simp add: compare_field_def row resolve_predicate_value_def number_as_i64_def resolve_field_def
        is_record_ref_def ref_get_def)
  then show ?thesis
    using predicate_reads_field_roots [of ?p ?s "''u:1''" ?t None] row by (simp add: agree_on_def path_root_def)
qed

end
