(* ===== verification/Incremental.thy ===== *)
theory Incremental
  imports Filters
begin

section \<open>The contract of an incremental operator\<close>

text \<open>
  The trait \<^verbatim>\<open>Operator\<close> of \<^verbatim>\<open>packages/ssp/src/operator/mod.rs\<close> asks two evaluations of an
  operator: \<^verbatim>\<open>snapshot\<close>, the full evaluation of complete inputs, and \<^verbatim>\<open>step\<close>, which takes
  input deltas to an output delta and updates the integrated state. The locale states the law
  that relates them, the differentiation rule of one step; its lemma is the integration
  theorem for every sequence of deltas. Each operator below is an instance, on a store whose
  rows do not change between the steps (a row whose content changes reaches an operator
  through the re-evaluation of its key).
\<close>

fun run_steps :: "('s \<Rightarrow> zset list \<Rightarrow> zset \<times> 's) \<Rightarrow> 's \<Rightarrow> zset list list \<Rightarrow> zset list \<times> 's" where
  "run_steps step s [] = ([], s)"
| "run_steps step s (ds # dss) =
     (case step s ds of (out, s') \<Rightarrow>
        case run_steps step s' dss of (outs, s'') \<Rightarrow> (out # outs, s''))"

definition add_inputs :: "zset list \<Rightarrow> zset list \<Rightarrow> zset list" where
  "add_inputs xs ds = map2 zset_add xs ds"

definition total_weight :: "zset list \<Rightarrow> row_key \<Rightarrow> weight" where
  "total_weight outs k = sum_list (map (\<lambda>out. zget out k) outs)"

definition deltas_ok :: "nat \<Rightarrow> zset list \<Rightarrow> bool" where
  "deltas_ok n ds \<longleftrightarrow> length ds = n \<and> list_all hm_wf ds"

locale incremental_op =
  fixes arity :: nat and step :: "'s \<Rightarrow> zset list \<Rightarrow> zset \<times> 's" and snapshot :: "zset list \<Rightarrow> zset"
    and integ :: "'s \<Rightarrow> zset list \<Rightarrow> bool"
  assumes step_delta: "integ s xs \<Longrightarrow> deltas_ok arity ds \<Longrightarrow> step s ds = (out, s') \<Longrightarrow>
      integ s' (add_inputs xs ds) \<and> hm_wf out
      \<and> (\<forall>k. zget out k = zget (snapshot (add_inputs xs ds)) k - zget (snapshot xs) k)"
begin

lemma run_integrates:
  "integ s xs \<Longrightarrow> list_all (deltas_ok arity) dss \<Longrightarrow> run_steps step s dss = (outs, s') \<Longrightarrow>
   integ s' (fold (\<lambda>ds xs. add_inputs xs ds) dss xs)
   \<and> zget (snapshot (fold (\<lambda>ds xs. add_inputs xs ds) dss xs)) k = zget (snapshot xs) k + total_weight outs k"
proof (induction dss arbitrary: s xs outs s')
  case (Cons ds dss)
  obtain out s1 where 1: "step s ds = (out, s1)" by fastforce
  obtain outs' s2 where 2: "run_steps step s1 dss = (outs', s2)" by fastforce
  have r: "outs = out # outs'" "s' = s2" using Cons.prems(3) 1 2 by simp_all
  have d: "integ s1 (add_inputs xs ds)"
    "zget out k = zget (snapshot (add_inputs xs ds)) k - zget (snapshot xs) k"
    using step_delta [OF Cons.prems(1) _ 1] Cons.prems(2) by simp_all
  show ?case
    using Cons.IH [OF d(1) _ 2] Cons.prems(2) r d(2) by (simp add: total_weight_def)
qed (simp add: total_weight_def)

end

subsection \<open>Z-set sums\<close>

lemma zget_hd_add: "hm_wf d \<Longrightarrow> zget (zset_add x d) k = zget x k + zget d k"
  by (rule zget_add)

lemma deltas_ok_1: "deltas_ok (Suc 0) ds \<longleftrightarrow> (\<exists>d. ds = [d] \<and> hm_wf d)"
  by (auto simp: deltas_ok_def length_Suc_conv)

lemma deltas_ok_2: "deltas_ok 2 ds \<longleftrightarrow> (\<exists>d e. ds = [d, e] \<and> hm_wf d \<and> hm_wf e)"
  by (auto simp: deltas_ok_def length_Suc_conv numeral_2_eq_2)

lemma add_inputs_simps [simp]:
  "add_inputs [x] [d] = [zset_add x d]" "add_inputs [x, y] [d, e] = [zset_add x d, zset_add y e]"
  by (simp_all add: add_inputs_def)

text \<open>The sum of the weights of the keys with a property.\<close>

definition wsum :: "(row_key \<Rightarrow> bool) \<Rightarrow> zset \<Rightarrow> weight" where
  "wsum p z = sum_list (map (\<lambda>(k, w). if p k then w else 0) z)"

lemma wsum_Nil [simp]: "wsum p [] = 0"
  by (simp add: wsum_def)

lemma wsum_insert:
  "hm_wf z \<Longrightarrow> wsum p (hm_insert k w z) = wsum p z + (if p k then w - zget z k else 0)"
proof (induction z)
  case (Cons e z)
  obtain k' w' where e: "e = (k', w')" by (cases e)
  show ?case using Cons e by (auto simp: wsum_def zget_Cons)
qed (simp add: wsum_def)

lemma wsum_remove: "hm_wf z \<Longrightarrow> wsum p (hm_remove k z) = wsum p z - (if p k then zget z k else 0)"
proof (induction z)
  case (Cons e z)
  obtain k' w' where e: "e = (k', w')" by (cases e)
  have "k' \<notin> fst ` set z" using Cons.prems e by simp
  then have "hm_remove k' z = z" by (rule hm_remove_absent)
  then show ?case using Cons e by (auto simp: wsum_def zget_Cons)
qed (simp add: wsum_def)

lemma wsum_add_entry:
  assumes "hm_wf z"
  shows "wsum p (zset_add_entry (k, w) z) = wsum p z + (if p k then w else 0)"
proof (cases "zget z k + w = 0")
  case True
  then have "zget z k = - w" by (simp add: eq_neg_iff_add_eq_0)
  then show ?thesis using assms by (simp add: zset_add_entry_def Let_def wsum_remove)
next
  case False
  then show ?thesis using assms by (simp add: zset_add_entry_def Let_def wsum_insert)
qed

lemma wsum_add: "hm_wf a \<Longrightarrow> wsum p (zset_add a b) = wsum p a + wsum p b"
  unfolding zset_add_def
proof (induction b arbitrary: a)
  case (Cons e b)
  obtain k w where e: "e = (k, w)" by (cases e)
  show ?case
    using Cons.IH [OF hm_wf_add_entry [OF Cons.prems]] Cons.prems
    by (simp add: e wsum_add_entry) (simp add: wsum_def)
qed simp

section \<open>Scan, filter, map and union\<close>

text \<open>
  Models of \<^verbatim>\<open>operator/scan.rs\<close>, \<^verbatim>\<open>filter.rs\<close>, \<^verbatim>\<open>map.rs\<close> and \<^verbatim>\<open>union.rs\<close>. An
  operator receives as many inputs as its arity.
\<close>

definition scan_snapshot :: "string \<Rightarrow> store \<Rightarrow> zset" where
  "scan_snapshot table s =
     (case hm_get (sto_collections s) table of Some c \<Rightarrow> fst (membership c) | None \<Rightarrow> [])"

definition scan_step :: "zset list \<Rightarrow> zset" where
  "scan_step ds = (case ds of [] \<Rightarrow> [] | d # _ \<Rightarrow> d)"

definition scan_evaluate_key :: "string \<Rightarrow> row_key \<Rightarrow> store \<Rightarrow> bool" where
  "scan_evaluate_key table key s =
     (case hm_get (sto_collections s) table of Some c \<Rightarrow> has_key c key | None \<Rightarrow> False)"

definition filter_snapshot :: "predicate \<Rightarrow> store \<Rightarrow> value option \<Rightarrow> zset list \<Rightarrow> zset" where
  "filter_snapshot pred s ctx inputs =
     fold (\<lambda>(key, weight) out. if check_predicate pred key s ctx then hm_insert key weight out else out)
       (inputs ! 0) []"

definition filter_step :: "predicate \<Rightarrow> store \<Rightarrow> value option \<Rightarrow> zset list \<Rightarrow> zset" where
  "filter_step pred s ctx ds = filter_snapshot pred s ctx ds"

definition first_eval :: "bool list \<Rightarrow> bool" where
  "first_eval es = (case es of [] \<Rightarrow> False | e # _ \<Rightarrow> e)"

definition filter_evaluate_key :: "predicate \<Rightarrow> row_key \<Rightarrow> bool list \<Rightarrow> store \<Rightarrow> value option \<Rightarrow> bool" where
  "filter_evaluate_key pred key es s ctx = (first_eval es \<and> check_predicate pred key s ctx)"

definition map_snapshot :: "zset list \<Rightarrow> zset" where
  "map_snapshot inputs = inputs ! 0"

definition map_step :: "zset list \<Rightarrow> zset" where
  "map_step ds = ds ! 0"

definition union_snapshot :: "zset list \<Rightarrow> zset" where
  "union_snapshot inputs = zset_add (zset_add [] (inputs ! 0)) (inputs ! 1)"

definition union_step :: "zset list \<Rightarrow> zset" where
  "union_step ds = union_snapshot ds"

definition union_evaluate_key :: "bool list \<Rightarrow> bool" where
  "union_evaluate_key es = list_ex (\<lambda>e. e) es"

lemma zget_filter_snapshot:
  "hm_wf x \<Longrightarrow> zget (filter_snapshot pred s ctx [x]) k = (if check_predicate pred k s ctx then zget x k else 0)"
  by (simp add: filter_snapshot_def zget_def split: option.splits)
    (auto simp: hm_get_fold_insert split: option.splits)

text \<open>A stateless operator as an instance of the contract: there is no state to update.\<close>

abbreviation stateless :: "(zset list \<Rightarrow> zset) \<Rightarrow> unit \<Rightarrow> zset list \<Rightarrow> zset \<times> unit" where
  "stateless f \<equiv> (\<lambda>s ds. (f ds, s))"

interpretation filter_op: incremental_op 1 "stateless (filter_step pred s ctx)"
    "filter_snapshot pred s ctx" "\<lambda>_ xs. deltas_ok 1 xs" for pred s ctx
proof (unfold_locales, goal_cases)
  case (1 st xs ds out st')
  then obtain x d where "xs = [x]" "ds = [d]" "hm_wf x" "hm_wf d" by (auto simp: deltas_ok_1)
  then show ?case using 1
    by (auto simp: deltas_ok_1 filter_step_def zget_filter_snapshot zget_add)
      (simp add: filter_snapshot_def)
qed

interpretation map_op: incremental_op 1 "stateless map_step" map_snapshot "\<lambda>_ xs. deltas_ok 1 xs"
  by (unfold_locales, auto simp: deltas_ok_1 map_step_def map_snapshot_def zget_add)

interpretation union_op: incremental_op 2 "stateless union_step" union_snapshot "\<lambda>_ xs. deltas_ok 2 xs"
  by (unfold_locales, auto simp: deltas_ok_2 union_step_def union_snapshot_def zget_add)

lemma run_stateless: "run_steps (stateless f) st dss = (map f dss, st)"
  by (induction dss) simp_all

definition sum_inputs :: "nat \<Rightarrow> zset list list \<Rightarrow> zset list" where
  "sum_inputs n dss = fold (\<lambda>ds xs. add_inputs xs ds) dss (replicate n [])"

lemma deltas_ok_start: "deltas_ok n (replicate n [])"
  by (simp add: deltas_ok_def list_all_iff)

text \<open>
  The stateless operators are linear: for every sequence of input deltas, the output deltas
  that a filter or a union emits add up to its snapshot of the summed inputs, key by key.
\<close>

theorem linear_operators_incremental:
  assumes "list_all (deltas_ok 1) dss" and "list_all (deltas_ok 2) ess"
  shows "zget (filter_snapshot pred s ctx (sum_inputs 1 dss)) k =
      total_weight (map (filter_step pred s ctx) dss) k
    \<and> zget (union_snapshot (sum_inputs 2 ess)) k = total_weight (map union_step ess) k"
proof
  have "zget (filter_snapshot pred s ctx [[]]) k = 0" by (simp add: filter_snapshot_def)
  then show "zget (filter_snapshot pred s ctx (sum_inputs 1 dss)) k =
      total_weight (map (filter_step pred s ctx) dss) k"
    using filter_op.run_integrates [OF deltas_ok_start assms(1) run_stateless, of pred s ctx k]
    by (simp add: sum_inputs_def)
  have "zget (union_snapshot [[], []]) k = 0" by (simp add: union_snapshot_def zset_add_def)
  then show "zget (union_snapshot (sum_inputs 2 ess)) k = total_weight (map union_step ess) k"
    using union_op.run_integrates [OF deltas_ok_start assms(2) run_stateless, of k]
    by (simp add: sum_inputs_def numeral_2_eq_2)
qed

theorem linear_operators_incremental_witness:
  "zget (union_snapshot (sum_inputs 2 [[[(''u:1'', 1)], []], [[], [(''u:1'', 1)]]])) ''u:1'' = 2"
  using linear_operators_incremental [of "[]" "[[[(''u:1'', 1)], []], [[], [(''u:1'', 1)]]]"]
  by (simp add: deltas_ok_def total_weight_def union_step_def union_snapshot_def zset_add_def
      zset_add_entry_def Let_def zget_Cons)

section \<open>Distinct\<close>

text \<open>Model of \<^verbatim>\<open>operator/distinct.rs\<close>; its state is the integrated input.\<close>

definition distinct_threshold :: "zset \<Rightarrow> zset" where
  "distinct_threshold z = map (\<lambda>(k, _). (k, 1)) (filter (\<lambda>(_, w). w_pos w) z)"

definition distinct_snapshot :: "zset list \<Rightarrow> zset" where
  "distinct_snapshot inputs = distinct_threshold (inputs ! 0)"

definition distinct_entry :: "row_key \<times> weight \<Rightarrow> zset \<times> zset \<Rightarrow> zset \<times> zset" where
  "distinct_entry e st =
     (case e of (key, delta) \<Rightarrow> case st of (integrated, output) \<Rightarrow>
        let old = zget integrated key;
            new = old + delta;
            output' = (if w_pos old \<noteq> w_pos new
                       then hm_insert key (if w_pos new then 1 else - 1) output else output)
        in (if new = 0 then hm_remove key integrated else hm_insert key new integrated, output'))"

definition distinct_step :: "zset \<Rightarrow> zset list \<Rightarrow> zset \<times> zset" where
  "distinct_step integrated ds =
     (case fold distinct_entry (ds ! 0) (integrated, []) of (integrated', output) \<Rightarrow> (output, integrated'))"

lemma zget_threshold:
  assumes "hm_wf z"
  shows "zget (distinct_threshold z) k = (if w_pos (zget z k) then 1 else 0)"
proof -
  have "hm_get (distinct_threshold z) k = map_option (\<lambda>_. 1) (hm_get (filter (\<lambda>(_, w). w_pos w) z) k)"
    using hm_get_map_values [of "\<lambda>_. 1" "filter (\<lambda>(_, w). w_pos w) z" k]
    by (simp add: distinct_threshold_def)
  then show ?thesis
    using assms hm_get_filter [of z "\<lambda>_ w. w_pos w" k]
    by (auto simp: zget_def split: option.splits if_splits)
qed

lemma distinct_fold:
  "hm_wf d \<Longrightarrow> hm_wf out \<Longrightarrow> fold distinct_entry d (z, out) = (z', out') \<Longrightarrow>
   z' = zset_add z d \<and> hm_wf out' \<and>
   (\<forall>k. zget out' k = (if k \<in> fst ` set d \<and> w_pos (zget z k) \<noteq> w_pos (zget z k + zget d k)
        then (if w_pos (zget z k + zget d k) then 1 else - 1) else zget out k))"
proof (induction d arbitrary: z out)
  case (Cons e d)
  obtain key w where e: "e = (key, w)" by (cases e)
  obtain z1 out1 where 1: "distinct_entry e (z, out) = (z1, out1)" by fastforce
  have d: "hm_wf d" "key \<notin> fst ` set d" using Cons.prems(1) e by simp_all
  have z1: "z1 = zset_add_entry e z"
    using 1 e by (auto simp: distinct_entry_def zset_add_entry_def Let_def)
  have o1: "out1 = (if w_pos (zget z key) \<noteq> w_pos (zget z key + w)
      then hm_insert key (if w_pos (zget z key + w) then 1 else - 1) out else out)"
    using 1 e by (auto simp: distinct_entry_def Let_def)
  then have "hm_wf out1" using Cons.prems(2) by simp
  note IH = Cons.IH [OF d(1) this, of z1] 
  have "zget z1 k = zget z k + (if k = key then w else 0)" for k
    by (simp add: z1 zget_add_entry e)
  moreover have "zget (e # d) k = (if k = key then w else zget d k)" for k by (simp add: e zget_Cons)
  ultimately show ?case
    using IH Cons.prems(3) 1 d(2) zget_absent [OF d(2)] by (auto simp: o1 z1 e zset_add_def)
qed (simp add: zset_add_def)

interpretation distinct_op: incremental_op 1 distinct_step distinct_snapshot
    "\<lambda>z xs. xs = [z] \<and> hm_wf z"
proof (unfold_locales, goal_cases)
  case (1 z xs ds out z')
  then obtain d where ds: "ds = [d]" "hm_wf d" by (auto simp: deltas_ok_1)
  obtain z1 o1 where f: "fold distinct_entry d (z, []) = (z1, o1)" by fastforce
  then have r: "out = o1" "z' = z1" using 1 ds by (simp_all add: distinct_step_def)
  have z1: "z1 = zset_add z d" "hm_wf o1" and out: "zget o1 k = (if k \<in> fst ` set d \<and>
      w_pos (zget z k) \<noteq> w_pos (zget z k + zget d k) then (if w_pos (zget z k + zget d k) then 1 else - 1)
      else 0)" for k
    using distinct_fold [OF ds(2) hm_wf_Nil f] by simp_all
  have "zget o1 k = zget (distinct_threshold (zset_add z d)) k - zget (distinct_threshold z) k" for k
  proof (cases "k \<in> fst ` set d")
    case True
    then show ?thesis using out [of k] 1 ds(2) by (simp add: zget_threshold zget_add)
  next
    case False
    then show ?thesis using out [of k] zget_absent [of k d] 1 ds(2) by (simp add: zget_threshold zget_add)
  qed
  then show ?case using 1 r z1 ds by (simp add: distinct_snapshot_def)
qed

text \<open>
  C15. Distinct is incremental: for every sequence of input deltas, the emitted deltas add up
  to the snapshot of the summed input, whose weights are 0 or 1.
\<close>

theorem distinct_incremental:
  assumes "list_all (deltas_ok 1) dss" and "run_steps distinct_step [] dss = (outs, z)"
  shows "total_weight outs k = zget (distinct_snapshot (sum_inputs 1 dss)) k
    \<and> z = sum_inputs 1 dss ! 0
    \<and> zget (distinct_snapshot (sum_inputs 1 dss)) k = (if w_pos (zget z k) then 1 else 0)"
proof -
  have i: "[[]] = [[]] \<and> hm_wf ([] :: zset)" by simp
  have "zget (distinct_snapshot [[]]) k = 0" by (simp add: distinct_snapshot_def distinct_threshold_def)
  then have r: "total_weight outs k = zget (distinct_snapshot (sum_inputs 1 dss)) k"
    "sum_inputs 1 dss = [z]" "hm_wf z"
    using distinct_op.run_integrates [OF i assms, of k] unfolding sum_inputs_def by auto
  then show ?thesis by (simp add: distinct_snapshot_def zget_threshold)
qed

theorem distinct_incremental_witness:
  "total_weight (fst (run_steps distinct_step [] [[[(''u:1'', 2)]], [[(''u:1'', - 1)]]])) ''u:1'' = 1"
proof -
  let ?dss = "[[[(''u:1'', 2)]], [[(''u:1'', - 1)]]]"
  obtain outs z where r: "run_steps distinct_step [] ?dss = (outs, z)" by fastforce
  have "z = [(''u:1'', 1)]"
    using r by (simp add: distinct_step_def distinct_entry_def Let_def zget_Cons)
  then show ?thesis using distinct_incremental [OF _ r, of "''u:1''"] r by (simp add: deltas_ok_def zget_Cons)
qed

end
