(* ===== verification/Joins.thy ===== *)
theory Joins
  imports Incremental
begin

section \<open>The equi-join\<close>

text \<open>
  Model of \<^verbatim>\<open>operator/join.rs\<close>: the hash join of two Z-sets and the three-term delta rule.
  \<open>sip\<close> is the hash function of the standard library's \<^verbatim>\<open>DefaultHasher\<close>; every statement
  holds for any function in its place.
\<close>

record join_condition =
  jc_left_field :: path
  jc_right_field :: path

record join_state =
  js_left :: zset
  js_right :: zset

definition bucket :: "('h, 'b list) hmap \<Rightarrow> 'h \<Rightarrow> 'b list" where
  "bucket m h = (case hm_get m h of None \<Rightarrow> [] | Some b \<Rightarrow> b)"

definition join_field :: "store \<Rightarrow> path \<Rightarrow> row_key \<Rightarrow> value_ref" where
  "join_field s field key = resolve_field (get_row_by_key s key) field"

definition index_right_row :: "(hash_input \<Rightarrow> u64) \<Rightarrow> path \<Rightarrow> store \<Rightarrow> row_key \<times> weight
    \<Rightarrow> (u64, (weight \<times> value_ref) list) hmap \<Rightarrow> (u64, (weight \<times> value_ref) list) hmap" where
  "index_right_row sip field s e m =
     (case e of (r_key, r_weight) \<Rightarrow>
        let r_field = join_field s field r_key
        in if is_missing r_field then m
           else let h = hash_value sip r_field in hm_insert h (bucket m h @ [(r_weight, r_field)]) m)"

definition probe_match :: "value_ref \<Rightarrow> row_key \<Rightarrow> weight \<Rightarrow> weight \<times> value_ref \<Rightarrow> zset \<Rightarrow> zset" where
  "probe_match l_field l_key l_weight e out =
     (case e of (r_weight, r_field) \<Rightarrow>
        if compare_values l_field r_field = Equal
        then hm_insert l_key (zget out l_key + l_weight * r_weight) out else out)"

definition probe_row :: "(hash_input \<Rightarrow> u64) \<Rightarrow> path \<Rightarrow> store \<Rightarrow> (u64, (weight \<times> value_ref) list) hmap
    \<Rightarrow> row_key \<times> weight \<Rightarrow> zset \<Rightarrow> zset" where
  "probe_row sip field s right_index e out =
     (case e of (l_key, l_weight) \<Rightarrow>
        let l_field = join_field s field l_key
        in if is_missing l_field then out
           else fold (probe_match l_field l_key l_weight) (bucket right_index (hash_value sip l_field)) out)"

definition hash_join :: "(hash_input \<Rightarrow> u64) \<Rightarrow> zset \<Rightarrow> zset \<Rightarrow> join_condition \<Rightarrow> store \<Rightarrow> zset" where
  "hash_join sip left right cond s =
     (if left = [] \<or> right = [] then []
      else let right_index = fold (index_right_row sip (jc_right_field cond) s) right []
           in hm_retain (\<lambda>_ w. w \<noteq> 0) (fold (probe_row sip (jc_left_field cond) s right_index) left []))"

definition join_snapshot :: "(hash_input \<Rightarrow> u64) \<Rightarrow> join_condition \<Rightarrow> store \<Rightarrow> zset list \<Rightarrow> zset" where
  "join_snapshot sip cond s inputs = hash_join sip (inputs ! 0) (inputs ! 1) cond s"

definition join_step :: "(hash_input \<Rightarrow> u64) \<Rightarrow> join_condition \<Rightarrow> store \<Rightarrow> join_state \<Rightarrow> zset list
    \<Rightarrow> zset \<times> join_state" where
  "join_step sip cond s st ds =
     (let delta_a = ds ! 0; delta_b = ds ! 1;
          term1 = hash_join sip delta_a (js_right st) cond s;
          term2 = hash_join sip (js_left st) delta_b cond s;
          term3 = hash_join sip delta_a delta_b cond s;
          st' = \<lparr>js_left = zset_add (js_left st) delta_a, js_right = zset_add (js_right st) delta_b\<rparr>
      in (zset_add (zset_add term1 term2) term3, st'))"

subsection \<open>The hash join is the weighted match\<close>

definition hash_match :: "(hash_input \<Rightarrow> u64) \<Rightarrow> value_ref \<Rightarrow> value_ref \<Rightarrow> bool" where
  "hash_match sip l r \<longleftrightarrow> \<not> is_missing l \<and> \<not> is_missing r \<and> hash_value sip r = hash_value sip l
     \<and> compare_values l r = Equal"

lemma bucket_index_right:
  "bucket (fold (index_right_row sip field s) right m) h =
   bucket m h @ map (\<lambda>(k, w). (w, join_field s field k))
     (filter (\<lambda>(k, w). \<not> is_missing (join_field s field k) \<and> hash_value sip (join_field s field k) = h) right)"
proof (induction right arbitrary: m)
  case (Cons e right)
  then show ?case by (cases e) (auto simp: index_right_row_def bucket_def Let_def)
qed simp

lemma zget_probe_matches:
  "zget (fold (probe_match lf lk lw) es out) k =
   zget out k + (if k = lk then lw * sum_list (map (\<lambda>(w, rf). if compare_values lf rf = Equal then w else 0) es) else 0)"
proof (induction es arbitrary: out)
  case (Cons e es)
  then show ?case by (cases e) (auto simp: probe_match_def algebra_simps)
qed simp

lemma hm_wf_probe_matches: "hm_wf out \<Longrightarrow> hm_wf (fold (probe_match lf lk lw) es out)"
  by (induction es arbitrary: out) (auto simp: probe_match_def split: prod.splits)

lemma sum_bucket:
  "sum_list (map (\<lambda>(w, rf). if compare_values lf rf = Equal then w else 0)
     (map (\<lambda>(k, w). (w, f k)) (filter (\<lambda>(k, w). \<not> is_missing (f k) \<and> hash_value sip (f k) = hash_value sip lf) right)))
   = wsum (\<lambda>k. \<not> is_missing (f k) \<and> hash_value sip (f k) = hash_value sip lf \<and> compare_values lf (f k) = Equal) right"
proof (induction right)
  case (Cons e right)
  then show ?case by (cases e) (simp add: wsum_def)
qed simp

lemma wsum_False [simp]: "wsum (\<lambda>_. False) z = 0"
  by (induction z) (auto simp: wsum_def)

lemma zget_probe:
  assumes "hm_wf left" and "\<And>h. bucket ix h = map (\<lambda>(k, w). (w, f k))
      (filter (\<lambda>(k, w). \<not> is_missing (f k) \<and> hash_value sip (f k) = h) right)"
  shows "zget (fold (probe_row sip field s ix) left out) k = zget out k +
    zget left k * wsum (\<lambda>r. hash_match sip (join_field s field k) (f r)) right"
  using assms(1)
proof (induction left arbitrary: out)
  case (Cons e left)
  obtain lk lw where e: "e = (lk, lw)" by (cases e)
  have wf: "hm_wf left" "lk \<notin> fst ` set left" using Cons.prems e by simp_all
  have "zget (probe_row sip field s ix e out) k = zget out k +
      (if k = lk then lw * wsum (\<lambda>r. hash_match sip (join_field s field lk) (f r)) right else 0)"
  proof (cases "is_missing (join_field s field lk)")
    case False
    show ?thesis
      unfolding probe_row_def e Let_def hash_match_def
      by (simp only: case_prod_conv zget_probe_matches assms(2) sum_bucket False if_False simp_thms)
  qed (simp add: probe_row_def e hash_match_def)
  then show ?case
    using Cons.IH [OF wf(1)] zget_absent [OF wf(2)] by (simp add: e zget_Cons)
qed simp

lemma hm_wf_probe: "hm_wf out \<Longrightarrow> hm_wf (fold (probe_row sip field s ix) left out)"
  by (induction left arbitrary: out)
    (auto simp: probe_row_def Let_def hm_wf_probe_matches split: prod.splits)

lemma zget_hash_join:
  assumes "hm_wf left"
  shows "zget (hash_join sip left right cond s) k = zget left k *
    wsum (\<lambda>r. hash_match sip (join_field s (jc_left_field cond) k) (join_field s (jc_right_field cond) r)) right"
proof (cases "left = [] \<or> right = []")
  case False
  let ?ix = "fold (index_right_row sip (jc_right_field cond) s) right []"
  let ?out = "fold (probe_row sip (jc_left_field cond) s ?ix) left []"
  have "zget (hash_join sip left right cond s) k = zget ?out k"
    using False zget_filter [of ?out "\<lambda>_ w. w \<noteq> 0" k] hm_wf_probe [of "[]"]
    by (simp add: hash_join_def Let_def hm_retain_def)
  also have "\<dots> = zget left k *
    wsum (\<lambda>r. hash_match sip (join_field s (jc_left_field cond) k) (join_field s (jc_right_field cond) r)) right"
    using zget_probe [OF assms, of ?ix "join_field s (jc_right_field cond)" sip right] bucket_index_right [of sip _ s right "[]"]
    by (simp add: bucket_def)
  finally show ?thesis .
qed (auto simp: hash_join_def)

lemma zset_ok_hash_join: "zset_ok (hash_join sip left right cond s)"
  using hm_wf_probe [of "[]"] by (auto simp: hash_join_def Let_def zset_ok_def hm_retain_def)

interpretation join_op: incremental_op 2 "join_step sip cond s" "join_snapshot sip cond s"
    "\<lambda>st xs. xs = [js_left st, js_right st] \<and> hm_wf (js_left st) \<and> hm_wf (js_right st)" for sip cond s
proof (unfold_locales, goal_cases)
  case (1 st xs ds out st')
  then obtain d e where ds: "ds = [d, e]" "hm_wf d" "hm_wf e" by (auto simp: deltas_ok_2)
  have wf: "hm_wf (js_left st)" "hm_wf (js_right st)" using 1 by simp_all
  have "zget out k = zget (hash_join sip (zset_add (js_left st) d) (zset_add (js_right st) e) cond s) k
      - zget (hash_join sip (js_left st) (js_right st) cond s) k" for k
    using 1 ds wf zset_ok_hash_join [THEN zset_ok_hm_wf]
    by (auto simp: join_step_def Let_def zget_add zget_hash_join wsum_add algebra_simps)
  then show ?case using 1 ds zset_ok_hash_join [THEN zset_ok_hm_wf]
    by (auto simp: join_step_def join_snapshot_def Let_def)
qed



end
