(* ===== verification/Witness_Joins.thy ===== *)
theory Witness_Joins
  imports Joins
begin

section \<open>Presence joins\<close>

text \<open>
  Model of \<^verbatim>\<open>operator/semi_join.rs\<close>, \<^verbatim>\<open>operator/anti_join.rs\<close> and of the indexed state they
  share, \<^verbatim>\<open>operator/witness.rs\<close>. Permission subqueries (\<^verbatim>\<open>IN\<close>, \<^verbatim>\<open>NOT IN\<close>) lower to these
  operators. The state keeps the join value each row had when it was last read, so that a step
  can retract a row whose stored content has already changed. Counters (\<^verbatim>\<open>usize\<close>) and net
  changes (\<^verbatim>\<open>i64\<close>) count rows held in memory and are unbounded here.
\<close>

subsection \<open>Snapshots\<close>

definition present_right_row :: "(hash_input \<Rightarrow> u64) \<Rightarrow> path \<Rightarrow> store \<Rightarrow> row_key \<times> weight
    \<Rightarrow> (u64, value_ref list) hmap \<Rightarrow> (u64, value_ref list) hmap" where
  "present_right_row sip field s e m =
     (case e of (r_key, r_weight) \<Rightarrow>
        if \<not> w_pos r_weight then m
        else let r_field = join_field s field r_key
             in if is_missing r_field then m
                else let h = hash_value sip r_field in hm_insert h (bucket m h @ [r_field]) m)"

definition semi_join :: "(hash_input \<Rightarrow> u64) \<Rightarrow> zset \<Rightarrow> zset \<Rightarrow> join_condition \<Rightarrow> store \<Rightarrow> zset" where
  "semi_join sip left right cond s =
     (if left = [] then []
      else let right_present = fold (present_right_row sip (jc_right_field cond) s) right []
           in if right_present = [] then []
              else fold (\<lambda>(l_key, l_weight) out.
                     let l_field = join_field s (jc_left_field cond) l_key
                     in if w_pos l_weight \<and> \<not> is_missing l_field
                           \<and> list_ex (\<lambda>m. compare_values l_field m = Equal)
                               (bucket right_present (hash_value sip l_field))
                        then hm_insert l_key 1 out else out) left [])"

definition anti_join :: "(hash_input \<Rightarrow> u64) \<Rightarrow> zset \<Rightarrow> zset \<Rightarrow> join_condition \<Rightarrow> store \<Rightarrow> zset" where
  "anti_join sip left right cond s =
     (if left = [] then []
      else let right_present = fold (present_right_row sip (jc_right_field cond) s) right []
           in fold (\<lambda>(l_key, l_weight) out.
                let row = get_row_by_key s l_key; l_field = resolve_field row (jc_left_field cond)
                in if w_pos l_weight \<and> \<not> is_missing row
                      \<and> (is_missing l_field \<or>
                         \<not> list_ex (\<lambda>m. compare_values l_field m = Equal)
                             (bucket right_present (hash_value sip l_field)))
                   then hm_insert l_key 1 out else out) left [])"

subsection \<open>The indexed state\<close>

definition witness_value :: "value_ref \<Rightarrow> value" where
  "witness_value v =
     (case v of RArr _ \<Rightarrow> VArray [] | RObj _ \<Rightarrow> VObject [] | _ \<Rightarrow> to_owned_value v)"

definition witness_kind :: "value \<Rightarrow> nat" where
  "witness_kind v =
     (case v of VNull \<Rightarrow> 0 | VBool _ \<Rightarrow> 1 | VInt _ \<Rightarrow> 2 | VFloat _ \<Rightarrow> 3 | VStr _ \<Rightarrow> 4
      | VArray _ \<Rightarrow> 5 | VObject _ \<Rightarrow> 6)"

definition witness_is_nan :: "value \<Rightarrow> bool" where
  "witness_is_nan v = (case v of VFloat f \<Rightarrow> f64_is_nan f | _ \<Rightarrow> False)"

record input_row =
  ir_weight :: weight
  ir_exists :: bool
  ir_value :: "value option"

definition input_row_read :: "row_key \<Rightarrow> weight \<Rightarrow> path \<Rightarrow> store \<Rightarrow> input_row" where
  "input_row_read key weight field s =
     (let row = get_row_by_key s key;
          v = resolve_field row field
      in \<lparr>ir_weight = weight, ir_exists = \<not> is_missing row,
          ir_value = (if \<not> w_pos weight \<or> is_missing v then None else Some (witness_value v))\<rparr>)"

definition input_row_hash :: "(hash_input \<Rightarrow> u64) \<Rightarrow> input_row \<Rightarrow> u64 option" where
  "input_row_hash sip r = map_option (\<lambda>v. hash_value sip (from_value v)) (ir_value r)"

record witness_state =
  ws_left :: "(row_key, input_row) hmap"
  ws_right :: "(row_key, input_row) hmap"
  ws_left_by_hash :: "(u64, row_key list) hmap"
  ws_right_by_hash :: "(u64, (value, nat) hmap) hmap"
  ws_kind_counts :: "nat list"
  ws_nan_count :: nat
  ws_output :: "row_key list"
  ws_content_updates :: "row_key list"

definition witness_new :: witness_state where
  "witness_new = \<lparr>ws_left = [], ws_right = [], ws_left_by_hash = [], ws_right_by_hash = [],
     ws_kind_counts = replicate 7 0, ws_nan_count = 0, ws_output = [], ws_content_updates = []\<rparr>"

definition remove_bucket :: "u64 \<Rightarrow> row_key \<Rightarrow> (u64, row_key list) hmap \<Rightarrow> (u64, row_key list) hmap" where
  "remove_bucket h key m =
     (case hm_get m h of
        None \<Rightarrow> m
      | Some b \<Rightarrow> let b' = removeAll key b in if b' = [] then hm_remove h m else hm_insert h b' m)"

definition note_content_updates :: "row_key list \<Rightarrow> witness_state \<Rightarrow> witness_state" where
  "note_content_updates keys st =
     st\<lparr>ws_content_updates := fold List.insert keys (ws_content_updates st)\<rparr>"

definition integrated_weight :: "witness_state \<Rightarrow> nat \<Rightarrow> row_key \<Rightarrow> weight" where
  "integrated_weight st port key =
     (case hm_get (if port = 0 then ws_left st else ws_right st) key of
        None \<Rightarrow> 0 | Some row \<Rightarrow> ir_weight row)"

definition has_witness :: "(hash_input \<Rightarrow> u64) \<Rightarrow> witness_state \<Rightarrow> value_ref \<Rightarrow> bool" where
  "has_witness sip st v =
     (if is_missing v then False
      else (case hm_get (ws_right_by_hash st) (hash_value sip v) of
              None \<Rightarrow> False
            | Some b \<Rightarrow> list_ex (\<lambda>right. compare_values v (from_value right) = Equal) (hm_keys b)))"

definition has_point_witness :: "(hash_input \<Rightarrow> u64) \<Rightarrow> witness_state \<Rightarrow> value_ref \<Rightarrow> bool" where
  "has_point_witness sip st v =
     (let kinds = ws_kind_counts st;
          scalar_count = sum_list (drop 1 kinds);
          numeric_count = kinds ! 2 + kinds ! 3
      in case v of
           RMissing \<Rightarrow> False
         | RNull \<Rightarrow> 0 < kinds ! 0
         | RBool _ \<Rightarrow> kinds ! 1 < scalar_count \<or> has_witness sip st v
         | RStr _ \<Rightarrow> kinds ! 4 < scalar_count \<or> has_witness sip st v
         | RArr _ \<Rightarrow> 0 < scalar_count
         | RObj _ \<Rightarrow> 0 < scalar_count
         | _ \<Rightarrow>
             let is_nan = (case v of RFloat f \<Rightarrow> f64_is_nan f | _ \<Rightarrow> False);
                 is_zero = (case v of RInt i \<Rightarrow> i = 0 | RFloat f \<Rightarrow> f64_partial_cmp f 0 = Some Equal | _ \<Rightarrow> False)
             in numeric_count < scalar_count
                \<or> 0 < ws_nan_count st
                \<or> is_nan \<and> 0 < numeric_count
                \<or> has_witness sip st v
                \<or> is_zero \<and> (has_witness sip st (RFloat 0) \<or> has_witness sip st (RFloat (2 ^ 63))))"

definition refresh_left :: "(hash_input \<Rightarrow> u64) \<Rightarrow> zset \<Rightarrow> path \<Rightarrow> store \<Rightarrow> row_key \<Rightarrow> witness_state
    \<Rightarrow> witness_state" where
  "refresh_left sip delta field s key st =
     (let old = hm_get (ws_left st) key;
          weight = (case old of None \<Rightarrow> 0 | Some r \<Rightarrow> ir_weight r) + zget delta key;
          st1 = st\<lparr>ws_left := hm_remove key (ws_left st)\<rparr>;
          st2 = (case old of
                   None \<Rightarrow> st1
                 | Some r \<Rightarrow>
                     (case input_row_hash sip r of
                        None \<Rightarrow> st1
                      | Some h \<Rightarrow> st1\<lparr>ws_left_by_hash := remove_bucket h key (ws_left_by_hash st1)\<rparr>))
      in if weight \<noteq> 0 then
           let row = input_row_read key weight field s;
               st3 = (case input_row_hash sip row of
                        None \<Rightarrow> st2
                      | Some h \<Rightarrow> st2\<lparr>ws_left_by_hash :=
                          hm_insert h (List.insert key (bucket (ws_left_by_hash st2) h)) (ws_left_by_hash st2)\<rparr>)
           in st3\<lparr>ws_left := hm_insert key row (ws_left st3)\<rparr>
         else st2)"

definition bump_witness :: "value \<Rightarrow> int \<Rightarrow> (value, int) hmap \<Rightarrow> (value, int) hmap" where
  "bump_witness v n m = hm_insert v ((case hm_get m v of None \<Rightarrow> 0 | Some i \<Rightarrow> i) + n) m"

definition refresh_right :: "zset \<Rightarrow> path \<Rightarrow> store \<Rightarrow> row_key
    \<Rightarrow> (row_key, input_row) hmap \<times> (value, int) hmap \<Rightarrow> (row_key, input_row) hmap \<times> (value, int) hmap" where
  "refresh_right delta field s key acc =
     (case acc of (rows, wd) \<Rightarrow>
        let old = hm_get rows key;
            weight = (case old of None \<Rightarrow> 0 | Some r \<Rightarrow> ir_weight r) + zget delta key;
            rows1 = hm_remove key rows;
            wd1 = (case old of
                     None \<Rightarrow> wd
                   | Some r \<Rightarrow> (case ir_value r of None \<Rightarrow> wd | Some v \<Rightarrow> bump_witness v (- 1) wd))
        in if weight \<noteq> 0 then
             let row = input_row_read key weight field s
             in (hm_insert key row rows1,
                 case ir_value row of None \<Rightarrow> wd1 | Some v \<Rightarrow> bump_witness v 1 wd1)
           else (rows1, wd1))"

definition shift_count :: "nat \<Rightarrow> int \<Rightarrow> nat" where
  "shift_count n delta = nat (int n + delta)"

record witness_index =
  wi_by_hash :: "(u64, (value, nat) hmap) hmap"
  wi_kinds :: "nat list"
  wi_nan :: nat
  wi_changed :: "u64 list"

definition apply_witness_delta :: "(hash_input \<Rightarrow> u64) \<Rightarrow> value \<times> int \<Rightarrow> witness_index \<Rightarrow> witness_index" where
  "apply_witness_delta sip e wi =
     (case e of (v, delta) \<Rightarrow>
        if delta = 0 then wi
        else let k = witness_kind v;
                 kinds = (wi_kinds wi)[k := shift_count (wi_kinds wi ! k) delta];
                 nans = (if witness_is_nan v then shift_count (wi_nan wi) delta else wi_nan wi);
                 h = hash_value sip (from_value v);
                 b = bucket (wi_by_hash wi) h;
                 old = (case hm_get b v of None \<Rightarrow> 0 | Some n \<Rightarrow> n);
                 new = shift_count old delta;
                 changed = (if (0 < old) \<noteq> (0 < new) then List.insert h (wi_changed wi) else wi_changed wi);
                 b' = (if new = 0 then hm_remove v b else hm_insert v new b);
                 m = (if new = 0 \<and> b' = [] then hm_remove h (wi_by_hash wi) else hm_insert h b' (wi_by_hash wi))
             in \<lparr>wi_by_hash = m, wi_kinds = kinds, wi_nan = nans, wi_changed = changed\<rparr>)"

definition row_present :: "(hash_input \<Rightarrow> u64) \<Rightarrow> bool \<Rightarrow> witness_state \<Rightarrow> row_key \<Rightarrow> bool" where
  "row_present sip anti st key =
     (case hm_get (ws_left st) key of
        None \<Rightarrow> False
      | Some row \<Rightarrow> w_pos (ir_weight row) \<and> ir_exists row
          \<and> (anti \<noteq> (case ir_value row of None \<Rightarrow> False | Some v \<Rightarrow> has_witness sip st (from_value v))))"

definition emit_key :: "(hash_input \<Rightarrow> u64) \<Rightarrow> bool \<Rightarrow> witness_state \<Rightarrow> row_key
    \<Rightarrow> row_key list \<times> zset \<Rightarrow> row_key list \<times> zset" where
  "emit_key sip anti st key acc =
     (case acc of (output, delta) \<Rightarrow>
        let present = row_present sip anti st key; was_present = key \<in> set output
        in if present \<noteq> was_present then
             (if present then (List.insert key output, hm_insert key 1 delta)
              else (removeAll key output, hm_insert key (- 1) delta))
           else (output, delta))"

definition refresh_keys :: "zset \<Rightarrow> row_key list \<Rightarrow> (row_key, input_row) hmap \<Rightarrow> row_key list" where
  "refresh_keys delta updates rows =
     fold (\<lambda>k ks. if hm_contains rows k then List.insert k ks else ks) updates (hm_keys delta)"

definition witness_step :: "(hash_input \<Rightarrow> u64) \<Rightarrow> bool \<Rightarrow> join_condition \<Rightarrow> store \<Rightarrow> witness_state \<Rightarrow> zset list
    \<Rightarrow> zset \<times> witness_state" where
  "witness_step sip anti cond s st ds =
     (let left_keys = refresh_keys (ds ! 0) (ws_content_updates st) (ws_left st);
          right_keys = refresh_keys (ds ! 1) (ws_content_updates st) (ws_right st);
          st1 = fold (refresh_left sip (ds ! 0) (jc_left_field cond) s) left_keys (st\<lparr>ws_content_updates := []\<rparr>);
          (right, wd) = fold (refresh_right (ds ! 1) (jc_right_field cond) s) right_keys (ws_right st1, []);
          wi = fold (apply_witness_delta sip) wd
                 \<lparr>wi_by_hash = ws_right_by_hash st1, wi_kinds = ws_kind_counts st1, wi_nan = ws_nan_count st1,
                  wi_changed = []\<rparr>;
          st2 = st1\<lparr>ws_right := right, ws_right_by_hash := wi_by_hash wi, ws_kind_counts := wi_kinds wi,
                   ws_nan_count := wi_nan wi\<rparr>;
          affected = fold (\<lambda>h ks. fold List.insert (bucket (ws_left_by_hash st2) h) ks) (wi_changed wi) left_keys;
          (output, delta) = fold (emit_key sip anti st2) affected (ws_output st2, [])
      in (delta, st2\<lparr>ws_output := output\<rparr>))"

subsection \<open>Witness values\<close>

lemma witness_value_hash: "\<not> is_missing r \<Longrightarrow> hash_value sip (from_value (witness_value r)) = hash_value sip r"
  by (cases r) (simp_all add: witness_value_def to_owned_value_def hash_value_def hash_feed_def)

lemma witness_value_compare:
  assumes "\<not> is_missing a" and "\<not> is_missing b"
  shows "compare_values (from_value (witness_value a)) (from_value (witness_value b)) = compare_values a b"
  using assms
  by (cases a; cases b) (simp_all add: witness_value_def to_owned_value_def compare_values_def)

lemma hash_match_witness:
  assumes "\<not> is_missing a" and "\<not> is_missing b"
  shows "(hash_value sip (from_value (witness_value b)) = hash_value sip (from_value (witness_value a))
     \<and> compare_values (from_value (witness_value a)) (from_value (witness_value b)) = Equal) \<longleftrightarrow> hash_match sip a b"
  using assms by (simp add: witness_value_hash witness_value_compare hash_match_def)

subsection \<open>The multiset of live witnesses\<close>

definition live_values :: "(row_key, input_row) hmap \<Rightarrow> value multiset" where
  "live_values rows = mset (List.map_filter (\<lambda>(k, r). ir_value r) rows)"

definition value_mset :: "value option \<Rightarrow> value multiset" where
  "value_mset v = (case v of None \<Rightarrow> {#} | Some v \<Rightarrow> {#v#})"

lemma live_values_Nil [simp]: "live_values [] = {#}"
  by (simp add: live_values_def map_filter_simps)

lemma live_values_Cons [simp]: "live_values ((k, r) # rows) = live_values rows + value_mset (ir_value r)"
  by (simp add: live_values_def map_filter_simps value_mset_def split: option.splits)

lemma live_values_insert_new:
  "k \<notin> fst ` set rows \<Longrightarrow> live_values (hm_insert k r rows) = live_values rows + value_mset (ir_value r)"
  by (induction rows) (auto simp: ac_simps)

lemma live_values_remove:
  "hm_wf rows \<Longrightarrow> hm_get rows k = Some r \<Longrightarrow>
   live_values rows = live_values (hm_remove k rows) + value_mset (ir_value r)"
proof (induction rows)
  case (Cons e rows)
  obtain k' r' where e: "e = (k', r')" by (cases e)
  show ?case using Cons e by (cases "k' = k") (auto simp: hm_remove_absent ac_simps)
qed simp

lemma live_values_iff:
  "hm_wf rows \<Longrightarrow> v \<in># live_values rows \<longleftrightarrow> (\<exists>k r. hm_get rows k = Some r \<and> ir_value r = Some v)"
  by (force simp: live_values_def set_map_filter hm_get_eq_Some_iff)

subsection \<open>The index of the right side\<close>

definition bcount :: "(u64, (value, nat) hmap) hmap \<Rightarrow> u64 \<Rightarrow> value \<Rightarrow> nat" where
  "bcount m h v = (case hm_get (bucket m h) v of None \<Rightarrow> 0 | Some n \<Rightarrow> n)"

definition wi_rep :: "(hash_input \<Rightarrow> u64) \<Rightarrow> (u64, (value, nat) hmap) hmap \<Rightarrow> nat list \<Rightarrow> nat \<Rightarrow> value multiset \<Rightarrow> bool" where
  "wi_rep sip m kinds nan M \<longleftrightarrow> length kinds = 7
     \<and> (\<forall>i < 7. kinds ! i = size (filter_mset (\<lambda>v. witness_kind v = i) M))
     \<and> nan = size (filter_mset witness_is_nan M)
     \<and> (\<forall>h v. bcount m h v = (if hash_value sip (from_value v) = h then count M v else 0))
     \<and> (\<forall>h v. hm_get (bucket m h) v \<noteq> Some 0)"

definition shift_mset :: "value \<Rightarrow> int \<Rightarrow> value multiset \<Rightarrow> value multiset" where
  "shift_mset v d M = (if 0 \<le> d then M + replicate_mset (nat d) v else M - replicate_mset (nat (- d)) v)"

lemma count_shift_mset:
  "0 \<le> int (count M v) + d \<Longrightarrow>
   count (shift_mset v d M) w = (if w = v then shift_count (count M v) d else count M w)"
  by (auto simp: shift_mset_def shift_count_def)

lemma filter_replicate: "filter_mset p (replicate_mset n v) = (if p v then replicate_mset n v else {#})"
  by (induction n) auto

lemma size_filter_shift_mset:
  assumes "0 \<le> int (count M v) + d"
  shows "size (filter_mset p (shift_mset v d M)) =
    (if p v then shift_count (size (filter_mset p M)) d else size (filter_mset p M))"
proof (cases "0 \<le> d")
  case True
  then show ?thesis by (simp add: shift_mset_def shift_count_def nat_add_distrib filter_replicate)
next
  case False
  let ?r = "replicate_mset (nat (- d)) v"
  have sub: "?r \<subseteq># M" using assms False by (simp add: count_le_replicate_mset_subset_eq [symmetric])
  then have "M = shift_mset v d M + ?r" using False by (simp add: shift_mset_def)
  then have "size (filter_mset p M) = size (filter_mset p (shift_mset v d M)) + size (filter_mset p ?r)"
    by (metis filter_union_mset size_union)
  then show ?thesis using False by (simp add: shift_count_def filter_replicate)
qed

lemma witness_kind_less: "witness_kind v < 7"
  by (cases v) (simp_all add: witness_kind_def)

lemma bucket_insert [simp]: "bucket (hm_insert h b m) h' = (if h' = h then b else bucket m h')"
  by (simp add: bucket_def)

lemma bucket_remove [simp]: "bucket (hm_remove h m) h' = (if h' = h then [] else bucket m h')"
  by (simp add: bucket_def)

lemma bucket_Nil [simp]: "bucket [] h = []"
  by (simp add: bucket_def)

lemma wi_rep_old:
  "wi_rep sip m kinds nan M \<Longrightarrow>
   (case hm_get (bucket m (hash_value sip (from_value v))) v of None \<Rightarrow> 0 | Some n \<Rightarrow> n) = count M v"
  by (simp add: wi_rep_def bcount_def)

lemma apply_witness_delta_rep:
  assumes rep: "wi_rep sip (wi_by_hash wi) (wi_kinds wi) (wi_nan wi) M" and "0 \<le> int (count M v) + d"
    and "wi' = apply_witness_delta sip (v, d) wi"
  shows "wi_rep sip (wi_by_hash wi') (wi_kinds wi') (wi_nan wi') (shift_mset v d M)"
    and "set (wi_changed wi') = set (wi_changed wi) \<union>
      (if (v \<in># M) \<noteq> (v \<in># shift_mset v d M) then {hash_value sip (from_value v)} else {})"
proof -
  let ?h = "hash_value sip (from_value v)" and ?n = "shift_count (count M v) d"
  let ?b = "bucket (wi_by_hash wi) ?h"
  let ?b' = "if ?n = 0 then hm_remove v ?b else hm_insert v ?n ?b"
  have c: "count (shift_mset v d M) w = (if w = v then ?n else count M w)" for w
    using assms(2) by (rule count_shift_mset)
  have k: "length (wi_kinds wi) = 7" "wi_kinds wi ! witness_kind v = size (filter_mset (\<lambda>w. witness_kind w = witness_kind v) M)"
    using rep witness_kind_less [of v] by (simp_all add: wi_rep_def)
  show "wi_rep sip (wi_by_hash wi') (wi_kinds wi') (wi_nan wi') (shift_mset v d M)"
  proof (cases "d = 0")
    case True
    then show ?thesis using assms by (simp add: apply_witness_delta_def shift_mset_def)
  next
    case False
    have wi': "wi_kinds wi' = (wi_kinds wi)[witness_kind v := shift_count (wi_kinds wi ! witness_kind v) d]"
      "wi_nan wi' = (if witness_is_nan v then shift_count (wi_nan wi) d else wi_nan wi)"
      "bucket (wi_by_hash wi') h = (if h = ?h then ?b' else bucket (wi_by_hash wi) h)" for h
      using False assms(3) wi_rep_old [OF rep, of v] by (auto simp: apply_witness_delta_def Let_def)
    have "wi_kinds wi' ! i = size (filter_mset (\<lambda>w. witness_kind w = i) (shift_mset v d M))" if "i < 7" for i
      using that k rep size_filter_shift_mset [OF assms(2), of "\<lambda>w. witness_kind w = i"]
      by (auto simp: wi' wi_rep_def nth_list_update)
    moreover have "wi_nan wi' = size (filter_mset witness_is_nan (shift_mset v d M))"
      using rep size_filter_shift_mset [OF assms(2), of witness_is_nan] by (simp add: wi' wi_rep_def)
    moreover have "hm_get (bucket (wi_by_hash wi') h) w =
        (if h = ?h \<and> w = v then (if ?n = 0 then None else Some ?n) else hm_get (bucket (wi_by_hash wi) h) w)" for h w
      by (simp add: wi')
    then have "bcount (wi_by_hash wi') h w = (if hash_value sip (from_value w) = h then count (shift_mset v d M) w else 0)"
      "hm_get (bucket (wi_by_hash wi') h) w \<noteq> Some 0" for h w
      using rep by (auto simp: bcount_def wi_rep_def c)
    ultimately show ?thesis using k(1) by (simp add: wi_rep_def wi')
  qed
  have m: "v \<in># M \<longleftrightarrow> 0 < count M v" by simp
  have "v \<in># shift_mset v d M \<longleftrightarrow> 0 < count (shift_mset v d M) v"
    by (rule count_greater_zero_iff [symmetric])
  also have "\<dots> \<longleftrightarrow> 0 < ?n" unfolding c by (rule arg_cong [where f = "\<lambda>n. 0 < n"]) (rule if_P, rule refl)
  finally have m': "v \<in># shift_mset v d M \<longleftrightarrow> 0 < ?n" .
  show "set (wi_changed wi') = set (wi_changed wi) \<union>
      (if (v \<in># M) \<noteq> (v \<in># shift_mset v d M) then {?h} else {})"
  proof (cases "d = 0")
    case True
    then show ?thesis using assms(3) by (simp add: apply_witness_delta_def shift_mset_def)
  next
    case False
    then have "wi_changed wi' = (if (0 < count M v) \<noteq> (0 < ?n) then List.insert ?h (wi_changed wi) else wi_changed wi)"
      using assms(3) wi_rep_old [OF rep, of v] by (simp add: apply_witness_delta_def Let_def)
    then show ?thesis unfolding m m' by auto
  qed
qed

definition delta_of :: "(value, int) hmap \<Rightarrow> value \<Rightarrow> int" where
  "delta_of wd v = (case hm_get wd v of None \<Rightarrow> 0 | Some d \<Rightarrow> d)"

lemma apply_witness_deltas_rep:
  assumes "hm_wf wd" and "wi_rep sip (wi_by_hash wi) (wi_kinds wi) (wi_nan wi) M"
    and "\<And>v. int (count M' v) = int (count M v) + delta_of wd v"
    and "wi' = fold (apply_witness_delta sip) wd wi"
  shows "wi_rep sip (wi_by_hash wi') (wi_kinds wi') (wi_nan wi') M' \<and> set (wi_changed wi) \<subseteq> set (wi_changed wi')
    \<and> (\<forall>w. hash_value sip (from_value w) \<notin> set (wi_changed wi') \<longrightarrow> (w \<in># M' \<longleftrightarrow> w \<in># M))"
  using assms
proof (induction wd arbitrary: wi M)
  case Nil
  then have "M' = M" by (intro multiset_eqI) (simp add: delta_of_def)
  then show ?case using Nil by simp
next
  case (Cons e wd)
  obtain v d where e: "e = (v, d)" by (cases e)
  have wd: "hm_wf wd" "v \<notin> fst ` set wd" using Cons.prems(1) e by simp_all
  then have v0: "delta_of wd v = 0" by (simp add: delta_of_def hm_get_eq_None_iff [THEN iffD2])
  have nn: "0 \<le> int (count M v) + d" using Cons.prems(3) [of v] e by (simp add: delta_of_def)
  let ?wi = "apply_witness_delta sip (v, d) wi"
  note step = apply_witness_delta_rep [OF Cons.prems(2) nn refl]
  have "int (count M' w) = int (count (shift_mset v d M) w) + delta_of wd w" for w
    using Cons.prems(3) [of w] nn v0
    by (auto simp: count_shift_mset e delta_of_def shift_count_def)
  from Cons.IH [OF wd(1) step(1) this] Cons.prems(4)
  have IH: "wi_rep sip (wi_by_hash wi') (wi_kinds wi') (wi_nan wi') M'"
    "set (wi_changed ?wi) \<subseteq> set (wi_changed wi')"
    "\<And>w. hash_value sip (from_value w) \<notin> set (wi_changed wi') \<Longrightarrow> (w \<in># M' \<longleftrightarrow> w \<in># shift_mset v d M)"
    by (simp_all add: e)
  have "w \<in># M' \<longleftrightarrow> w \<in># M" if "hash_value sip (from_value w) \<notin> set (wi_changed wi')" for w
  proof (cases "w = v")
    case True
    then have "(v \<in># M) = (v \<in># shift_mset v d M)" using that IH(2) step(2) by (auto split: if_splits)
    then show ?thesis using IH(3) [OF that] True by simp
  next
    case False
    then show ?thesis using IH(3) [OF that] count_shift_mset [OF nn, of w] by (simp flip: count_greater_zero_iff)
  qed
  then show ?case using IH(1,2) step(2) by auto
qed

lemma has_witness_iff:
  assumes "wi_rep sip (ws_right_by_hash st) kinds nan M"
  shows "has_witness sip st x \<longleftrightarrow> \<not> is_missing x \<and>
    (\<exists>v. v \<in># M \<and> hash_value sip (from_value v) = hash_value sip x \<and> compare_values x (from_value v) = Equal)"
proof -
  let ?b = "bucket (ws_right_by_hash st) (hash_value sip x)"
  have "v \<in> set (hm_keys ?b) \<longleftrightarrow> v \<in># M \<and> hash_value sip (from_value v) = hash_value sip x" for v
  proof -
    have "(case hm_get ?b v of None \<Rightarrow> 0 | Some n \<Rightarrow> n) =
        (if hash_value sip (from_value v) = hash_value sip x then count M v else 0)"
      and "hm_get ?b v \<noteq> Some 0"
      using assms by (simp_all add: wi_rep_def bcount_def)
    then show ?thesis
      by (cases "hm_get ?b v") (auto simp: in_hm_keys not_in_iff split: if_splits)
  qed
  moreover have "has_witness sip st x \<longleftrightarrow> \<not> is_missing x \<and>
      list_ex (\<lambda>right. compare_values x (from_value right) = Equal) (hm_keys ?b)"
    by (auto simp: has_witness_def bucket_def hm_keys_def split: option.splits)
  ultimately show ?thesis by (auto simp: list_ex_iff)
qed

subsection \<open>Refreshing rows\<close>

definition refreshed :: "zset \<Rightarrow> path \<Rightarrow> store \<Rightarrow> (row_key, input_row) hmap \<Rightarrow> row_key \<Rightarrow> input_row option" where
  "refreshed delta field s rows key =
     (let w = (case hm_get rows key of None \<Rightarrow> 0 | Some r \<Rightarrow> ir_weight r) + zget delta key
      in if w \<noteq> 0 then Some (input_row_read key w field s) else None)"

definition left_buckets_ok :: "(hash_input \<Rightarrow> u64) \<Rightarrow> (row_key, input_row) hmap \<Rightarrow> (u64, row_key list) hmap \<Rightarrow> bool" where
  "left_buckets_ok sip rows m \<longleftrightarrow>
     (\<forall>h k. k \<in> set (bucket m h) \<longleftrightarrow> (\<exists>r. hm_get rows k = Some r \<and> input_row_hash sip r = Some h))"

lemma bucket_remove_bucket:
  "bucket (remove_bucket h key m) h' = (if h' = h then removeAll key (bucket m h) else bucket m h')"
  by (auto simp: remove_bucket_def bucket_def Let_def split: option.splits)

lemma refresh_left_effect:
  assumes "left_buckets_ok sip (ws_left st) (ws_left_by_hash st)" and "hm_wf (ws_left st)"
    and "st' = refresh_left sip delta field s key st"
  shows "hm_get (ws_left st') k = (if k = key then refreshed delta field s (ws_left st) key else hm_get (ws_left st) k)"
    and "left_buckets_ok sip (ws_left st') (ws_left_by_hash st')" and "hm_wf (ws_left st')"
    and "ws_right st' = ws_right st" "ws_right_by_hash st' = ws_right_by_hash st"
      "ws_kind_counts st' = ws_kind_counts st" "ws_nan_count st' = ws_nan_count st"
      "ws_output st' = ws_output st" "ws_content_updates st' = ws_content_updates st"
proof -
  show get: "hm_get (ws_left st') k = (if k = key then refreshed delta field s (ws_left st) key else hm_get (ws_left st) k)" for k
    by (simp add: assms(3) refresh_left_def refreshed_def Let_def split: option.splits)
  show "hm_wf (ws_left st')"
    using assms(2) by (simp add: assms(3) refresh_left_def Let_def split: option.splits)
  show "ws_right st' = ws_right st" "ws_right_by_hash st' = ws_right_by_hash st"
      "ws_kind_counts st' = ws_kind_counts st" "ws_nan_count st' = ws_nan_count st"
      "ws_output st' = ws_output st" "ws_content_updates st' = ws_content_updates st"
    by (simp_all add: assms(3) refresh_left_def Let_def split: option.splits)
  define oldh where "oldh = (case hm_get (ws_left st) key of None \<Rightarrow> None | Some r \<Rightarrow> input_row_hash sip r)"
  define newh where "newh = (case refreshed delta field s (ws_left st) key of None \<Rightarrow> None | Some r \<Rightarrow> input_row_hash sip r)"
  define m1 where "m1 = (case oldh of None \<Rightarrow> ws_left_by_hash st | Some h \<Rightarrow> remove_bucket h key (ws_left_by_hash st))"
  have m': "ws_left_by_hash st' = (case newh of None \<Rightarrow> m1 | Some h \<Rightarrow> hm_insert h (List.insert key (bucket m1 h)) m1)"
    by (simp add: assms(3) refresh_left_def Let_def newh_def oldh_def m1_def refreshed_def split: option.splits)
  have b1: "k \<in> set (bucket m1 h) \<longleftrightarrow> k \<noteq> key \<and> (\<exists>r. hm_get (ws_left st) k = Some r \<and> input_row_hash sip r = Some h)" for k h
    using assms(1)
    by (auto simp: m1_def oldh_def left_buckets_ok_def bucket_remove_bucket split: option.splits if_splits)
  have "k \<in> set (bucket (ws_left_by_hash st') h) \<longleftrightarrow> k \<in> set (bucket m1 h) \<or> (k = key \<and> newh = Some h)" for k h
    by (auto simp: m' split: option.splits if_splits)
  then show "left_buckets_ok sip (ws_left st') (ws_left_by_hash st')"
    by (auto simp: left_buckets_ok_def b1 get newh_def split: option.splits if_splits)
qed

lemma refreshed_other:
  "hm_get rows' k = hm_get rows k \<Longrightarrow> refreshed delta field s rows' k = refreshed delta field s rows k"
  by (simp add: refreshed_def)

lemma refresh_lefts_effect:
  assumes "distinct ks" and "left_buckets_ok sip (ws_left st) (ws_left_by_hash st)" and "hm_wf (ws_left st)"
    and "st' = fold (refresh_left sip delta field s) ks st"
  shows "(\<forall>k. hm_get (ws_left st') k = (if k \<in> set ks then refreshed delta field s (ws_left st) k else hm_get (ws_left st) k))
    \<and> left_buckets_ok sip (ws_left st') (ws_left_by_hash st') \<and> hm_wf (ws_left st')
    \<and> ws_right st' = ws_right st \<and> ws_right_by_hash st' = ws_right_by_hash st
    \<and> ws_kind_counts st' = ws_kind_counts st \<and> ws_nan_count st' = ws_nan_count st
    \<and> ws_output st' = ws_output st \<and> ws_content_updates st' = ws_content_updates st"
  using assms
proof (induction ks arbitrary: st)
  case (Cons key ks)
  note step = refresh_left_effect [OF Cons.prems(2,3) refl, of delta field s key]
  let ?st = "refresh_left sip delta field s key st"
  have IH: "(\<forall>k. hm_get (ws_left st') k = (if k \<in> set ks then refreshed delta field s (ws_left ?st) k else hm_get (ws_left ?st) k))
    \<and> left_buckets_ok sip (ws_left st') (ws_left_by_hash st') \<and> hm_wf (ws_left st')
    \<and> ws_right st' = ws_right ?st \<and> ws_right_by_hash st' = ws_right_by_hash ?st
    \<and> ws_kind_counts st' = ws_kind_counts ?st \<and> ws_nan_count st' = ws_nan_count ?st
    \<and> ws_output st' = ws_output ?st \<and> ws_content_updates st' = ws_content_updates ?st"
    using Cons.prems(1,4) step(2,3) by (intro Cons.IH) simp_all
  have "refreshed delta field s (ws_left ?st) k = refreshed delta field s (ws_left st) k" if "k \<in> set ks" for k
    using that Cons.prems(1) step(1) by (intro refreshed_other) auto
  then show ?case using IH step Cons.prems(1) by auto
qed simp

lemma refresh_right_effect:
  assumes "hm_wf rows" and "hm_wf wd" and "refresh_right delta field s key (rows, wd) = (rows', wd')"
  shows "hm_get rows' k = (if k = key then refreshed delta field s rows key else hm_get rows k)"
    and "hm_wf rows'" and "hm_wf wd'"
    and "int (count (live_values rows') v) - delta_of wd' v = int (count (live_values rows) v) - delta_of wd v"
proof -
  define old where "old = hm_get rows key"
  define new where "new = refreshed delta field s rows key"
  define wd1 where "wd1 = (case old of None \<Rightarrow> wd
      | Some r \<Rightarrow> (case ir_value r of None \<Rightarrow> wd | Some v \<Rightarrow> bump_witness v (- 1) wd))"
  have rows': "rows' = (case new of None \<Rightarrow> hm_remove key rows | Some r \<Rightarrow> hm_insert key r (hm_remove key rows))"
    and wd': "wd' = (case new of None \<Rightarrow> wd1 | Some r \<Rightarrow> (case ir_value r of None \<Rightarrow> wd1 | Some v \<Rightarrow> bump_witness v 1 wd1))"
    using assms(3)
    unfolding refresh_right_def new_def refreshed_def wd1_def old_def Let_def case_prod_conv
    by (simp_all split: if_splits)
  show "hm_get rows' k = (if k = key then refreshed delta field s rows key else hm_get rows k)"
    by (simp add: rows' flip: new_def split: option.splits)
  show "hm_wf rows'" using assms(1) by (simp add: rows' split: option.splits)
  show "hm_wf wd'" using assms(2) by (simp add: wd' wd1_def bump_witness_def split: option.splits)
  have bump: "delta_of (bump_witness u n m) v = delta_of m v + (if v = u then n else 0)" for u n m
    by (simp add: bump_witness_def delta_of_def)
  have rem: "live_values rows = live_values (hm_remove key rows) + value_mset (case old of None \<Rightarrow> None | Some r \<Rightarrow> ir_value r)"
    using live_values_remove [OF assms(1)]
  proof (cases old)
    case None
    then have "hm_remove key rows = rows" by (simp add: old_def hm_get_eq_None_iff hm_remove_absent)
    then show ?thesis using None by (simp add: value_mset_def)
  qed (simp add: old_def)
  have "key \<notin> fst ` set (hm_remove key rows)" by (auto simp: set_hm_remove)
  then have ins: "live_values rows' = live_values (hm_remove key rows) + value_mset (case new of None \<Rightarrow> None | Some r \<Rightarrow> ir_value r)"
    by (cases new) (simp_all add: rows' live_values_insert_new value_mset_def)
  show "int (count (live_values rows') v) - delta_of wd' v = int (count (live_values rows) v) - delta_of wd v"
    unfolding rem ins wd' wd1_def
    by (simp add: bump value_mset_def split: option.splits)
qed

lemma refresh_rights_effect:
  assumes "distinct ks" and "hm_wf rows" and "hm_wf wd"
    and "fold (refresh_right delta field s) ks (rows, wd) = (rows', wd')"
  shows "(\<forall>k. hm_get rows' k = (if k \<in> set ks then refreshed delta field s rows k else hm_get rows k))
    \<and> hm_wf rows' \<and> hm_wf wd'
    \<and> (\<forall>v. int (count (live_values rows') v) - delta_of wd' v = int (count (live_values rows) v) - delta_of wd v)"
  using assms
proof (induction ks arbitrary: rows wd)
  case (Cons key ks)
  obtain rows1 wd1 where 1: "refresh_right delta field s key (rows, wd) = (rows1, wd1)" by fastforce
  note step = refresh_right_effect [OF Cons.prems(2,3) 1]
  have IH: "(\<forall>k. hm_get rows' k = (if k \<in> set ks then refreshed delta field s rows1 k else hm_get rows1 k))
    \<and> hm_wf rows' \<and> hm_wf wd'
    \<and> (\<forall>v. int (count (live_values rows') v) - delta_of wd' v = int (count (live_values rows1) v) - delta_of wd1 v)"
    using Cons.prems(1,4) step(2,3) 1 by (intro Cons.IH) simp_all
  have "refreshed delta field s rows1 k = refreshed delta field s rows k" if "k \<in> set ks" for k
    using that Cons.prems(1) step(1) by (intro refreshed_other) auto
  then show ?case using IH step Cons.prems(1) by auto
qed simp

subsection \<open>Snapshots, pointwise\<close>

lemma bucket_present_right:
  "bucket (fold (present_right_row sip field s) right m) h = bucket m h @ map (\<lambda>(k, w). join_field s field k)
     (filter (\<lambda>(k, w). w_pos w \<and> \<not> is_missing (join_field s field k) \<and> hash_value sip (join_field s field k) = h) right)"
proof (induction right arbitrary: m)
  case (Cons e right)
  then show ?case by (cases e) (auto simp: present_right_row_def Let_def)
qed simp

definition right_match :: "(hash_input \<Rightarrow> u64) \<Rightarrow> path \<Rightarrow> store \<Rightarrow> zset \<Rightarrow> value_ref \<Rightarrow> bool" where
  "right_match sip field s right l \<longleftrightarrow> (\<exists>r. w_pos (zget right r) \<and> hash_match sip l (join_field s field r))"

lemma bucket_match:
  assumes "hm_wf right" and "\<not> is_missing l"
  shows "list_ex (\<lambda>m. compare_values l m = Equal)
      (bucket (fold (present_right_row sip field s) right []) (hash_value sip l)) \<longleftrightarrow> right_match sip field s right l"
proof -
  have w: "w_pos (zget right r) \<longleftrightarrow> (\<exists>w. (r, w) \<in> set right \<and> w_pos w)" for r
  proof (cases "hm_get right r")
    case None
    then show ?thesis using hm_get_eq_Some_iff [OF assms(1), of r] by (simp add: zget_def)
  next
    case (Some w0)
    then have "(r, w) \<in> set right \<longleftrightarrow> w = w0" for w
      using hm_get_eq_Some_iff [OF assms(1), of r w] by auto
    then show ?thesis using Some by (simp add: zget_def)
  qed
  show ?thesis
    using assms(2) unfolding right_match_def w
    by (auto simp: bucket_present_right list_ex_iff hash_match_def)
qed

lemma zget_fold_present:
  assumes "hm_wf left" and "\<And>w. p k w \<Longrightarrow> w_pos w"
  shows "zget (fold (\<lambda>(k, w) out. if p k w then hm_insert k 1 out else out) left []) k =
    of_bool (p k (zget left k))"
proof -
  have "\<not> p k 0" using assms(2) by fastforce
  then show ?thesis
    using hm_get_fold_insert [OF assms(1), of p "\<lambda>_ _. 1 :: weight" "[]" k]
    by (cases "hm_get left k") (simp_all add: zget_def)
qed

lemma right_match_missing: "right_match sip field s right l \<Longrightarrow> \<not> is_missing l"
  by (auto simp: right_match_def hash_match_def)

lemma right_match_empty:
  assumes "fold (present_right_row sip field s) right [] = []" and "hm_wf right"
  shows "\<not> right_match sip field s right l"
proof
  assume m: "right_match sip field s right l"
  then have "\<not> is_missing l" by (auto simp: right_match_def hash_match_def)
  from bucket_match [OF assms(2) this, of sip field s] m assms(1) show False by simp
qed

lemma zget_semi_join:
  assumes "hm_wf left" and "hm_wf right"
  shows "zget (semi_join sip left right cond s) k =
    of_bool (w_pos (zget left k) \<and> right_match sip (jc_right_field cond) s right (join_field s (jc_left_field cond) k))"
proof (cases "left = [] \<or> fold (present_right_row sip (jc_right_field cond) s) right [] = []")
  case True
  then show ?thesis using right_match_empty [OF _ assms(2)] by (auto simp: semi_join_def Let_def)
next
  case False
  let ?f = "join_field s (jc_left_field cond)"
  let ?rp = "fold (present_right_row sip (jc_right_field cond) s) right []"
  have "zget (semi_join sip left right cond s) k = of_bool (w_pos (zget left k) \<and> \<not> is_missing (?f k)
      \<and> list_ex (\<lambda>m. compare_values (?f k) m = Equal) (bucket ?rp (hash_value sip (?f k))))"
    using zget_fold_present [OF assms(1), of "\<lambda>k w. w_pos w \<and> \<not> is_missing (?f k)
      \<and> list_ex (\<lambda>m. compare_values (?f k) m = Equal) (bucket ?rp (hash_value sip (?f k)))" k] False
    by (simp add: semi_join_def Let_def)
  then show ?thesis
    using bucket_match [OF assms(2), of "?f k" sip "jc_right_field cond" s]
      right_match_missing [of sip "jc_right_field cond" s right "?f k"] by auto
qed

lemma zget_anti_join:
  assumes "hm_wf left" and "hm_wf right"
  shows "zget (anti_join sip left right cond s) k =
    of_bool (w_pos (zget left k) \<and> \<not> is_missing (get_row_by_key s k)
      \<and> \<not> right_match sip (jc_right_field cond) s right (join_field s (jc_left_field cond) k))"
proof (cases "left = []")
  case False
  let ?f = "join_field s (jc_left_field cond)"
  let ?rp = "fold (present_right_row sip (jc_right_field cond) s) right []"
  have "zget (anti_join sip left right cond s) k = of_bool (w_pos (zget left k) \<and> \<not> is_missing (get_row_by_key s k)
      \<and> (is_missing (?f k) \<or>
        \<not> list_ex (\<lambda>m. compare_values (?f k) m = Equal) (bucket ?rp (hash_value sip (?f k)))))"
    using zget_fold_present [OF assms(1), of "\<lambda>k w. w_pos w \<and> \<not> is_missing (get_row_by_key s k) \<and> (is_missing (?f k) \<or>
        \<not> list_ex (\<lambda>m. compare_values (?f k) m = Equal) (bucket ?rp (hash_value sip (?f k))))" k] False
    by (simp add: anti_join_def Let_def join_field_def)
  then show ?thesis
    using bucket_match [OF assms(2), of "?f k" sip "jc_right_field cond" s]
      right_match_missing [of sip "jc_right_field cond" s right "?f k"] by auto
qed (simp add: anti_join_def)

definition witness_snapshot :: "(hash_input \<Rightarrow> u64) \<Rightarrow> bool \<Rightarrow> join_condition \<Rightarrow> store \<Rightarrow> zset list \<Rightarrow> zset" where
  "witness_snapshot sip anti cond s inputs =
     (if anti then anti_join sip (inputs ! 0) (inputs ! 1) cond s
      else semi_join sip (inputs ! 0) (inputs ! 1) cond s)"

text \<open>What a left key needs to be in the output.\<close>

definition admitted :: "(hash_input \<Rightarrow> u64) \<Rightarrow> bool \<Rightarrow> join_condition \<Rightarrow> store \<Rightarrow> zset \<Rightarrow> zset \<Rightarrow> row_key \<Rightarrow> bool" where
  "admitted sip anti cond s left right k \<longleftrightarrow> w_pos (zget left k) \<and> \<not> is_missing (get_row_by_key s k)
     \<and> anti \<noteq> right_match sip (jc_right_field cond) s right (join_field s (jc_left_field cond) k)"

lemma zget_witness_snapshot:
  assumes "hm_wf left" and "hm_wf right"
  shows "zget (witness_snapshot sip anti cond s [left, right]) k = of_bool (admitted sip anti cond s left right k)"
proof -
  have "\<not> is_missing (get_row_by_key s k)"
    if "right_match sip (jc_right_field cond) s right (join_field s (jc_left_field cond) k)"
    using that by (auto simp: right_match_def hash_match_def join_field_def resolve_field_def split: if_splits)
  then show ?thesis
    using zget_semi_join [OF assms, of sip cond s k] zget_anti_join [OF assms, of sip cond s k]
    by (auto simp: witness_snapshot_def admitted_def)
qed

end
