(* ===== verification/Witness_Invariant.thy ===== *)
theory Witness_Invariant
  imports Witness_Joins
begin

section \<open>Presence joins are incremental\<close>

text \<open>
  The invariant of the state shared by the semi- and the anti-join, kept by every step even when
  the stored content of rows changes between steps, as long as those rows are announced with
  \<^verbatim>\<open>note_content_updates\<close>. The output deltas then always add up to the current snapshot.
\<close>

definition side_ok :: "path \<Rightarrow> store \<Rightarrow> zset \<Rightarrow> (row_key, input_row) hmap \<Rightarrow> bool" where
  "side_ok field s z rows \<longleftrightarrow> hm_wf rows \<and> (\<forall>k. hm_get rows k =
     (if zget z k = 0 then None else Some (input_row_read k (zget z k) field s)))"

definition witness_inv :: "(hash_input \<Rightarrow> u64) \<Rightarrow> bool \<Rightarrow> join_condition \<Rightarrow> store \<Rightarrow> zset \<Rightarrow> zset \<Rightarrow> witness_state \<Rightarrow> bool" where
  "witness_inv sip anti cond s A B st \<longleftrightarrow> hm_wf A \<and> hm_wf B
     \<and> side_ok (jc_left_field cond) s A (ws_left st) \<and> side_ok (jc_right_field cond) s B (ws_right st)
     \<and> left_buckets_ok sip (ws_left st) (ws_left_by_hash st)
     \<and> wi_rep sip (ws_right_by_hash st) (ws_kind_counts st) (ws_nan_count st) (live_values (ws_right st))
     \<and> (\<forall>k. k \<in> set (ws_output st) \<longleftrightarrow> admitted sip anti cond s A B k)"

text \<open>
  The rows whose content differs between two stores are noted, or changed by the delta itself.
\<close>

definition noted :: "store \<Rightarrow> store \<Rightarrow> row_key list \<Rightarrow> zset \<Rightarrow> zset \<Rightarrow> bool" where
  "noted s s' updates z d \<longleftrightarrow> (\<forall>k. zget z k \<noteq> 0 \<longrightarrow> k \<notin> set updates \<longrightarrow> k \<notin> fst ` set d \<longrightarrow>
     get_row_by_key s' k = get_row_by_key s k)"

lemma live_values_side:
  assumes "side_ok field s z rows"
  shows "v \<in># live_values rows \<longleftrightarrow>
    (\<exists>r. w_pos (zget z r) \<and> \<not> is_missing (join_field s field r) \<and> v = witness_value (join_field s field r))"
proof -
  have "v \<in># live_values rows \<longleftrightarrow> (\<exists>k r. hm_get rows k = Some r \<and> ir_value r = Some v)"
    using assms by (intro live_values_iff) (simp add: side_ok_def)
  also have "\<dots> \<longleftrightarrow> (\<exists>r. w_pos (zget z r) \<and> \<not> is_missing (join_field s field r) \<and> v = witness_value (join_field s field r))"
    using assms w_pos_nonzero
    by (auto simp: side_ok_def input_row_read_def join_field_def Let_def split: if_splits)
  finally show ?thesis .
qed

lemma has_witness_match:
  assumes "side_ok field s z rows" and "wi_rep sip (ws_right_by_hash st) kinds nan (live_values rows)"
    and "\<not> is_missing l"
  shows "has_witness sip st (from_value (witness_value l)) \<longleftrightarrow> right_match sip field s z l"
  unfolding has_witness_iff [OF assms(2)] live_values_side [OF assms(1)] right_match_def
  using hash_match_witness [OF assms(3)] assms(3)
  by (auto simp: hash_match_def)

lemma row_present_iff:
  assumes "side_ok (jc_left_field cond) s A (ws_left st)" and "side_ok (jc_right_field cond) s B rows"
    and "wi_rep sip (ws_right_by_hash st) kinds nan (live_values rows)"
  shows "row_present sip anti st k \<longleftrightarrow> admitted sip anti cond s A B k"
proof (cases "w_pos (zget A k)")
  case True
  then have "hm_get (ws_left st) k = Some (input_row_read k (zget A k) (jc_left_field cond) s)"
    using assms(1) w_pos_nonzero by (simp add: side_ok_def)
  then show ?thesis
    using True has_witness_match [OF assms(2,3), of "join_field s (jc_left_field cond) k"]
      right_match_missing [of sip "jc_right_field cond" s B "join_field s (jc_left_field cond) k"]
    by (auto simp: row_present_def admitted_def input_row_read_def join_field_def Let_def)
next
  case False
  then show ?thesis
    using assms(1) by (simp add: row_present_def admitted_def side_ok_def input_row_read_def Let_def)
qed

lemma input_row_read_cong:
  "get_row_by_key s' k = get_row_by_key s k \<Longrightarrow> input_row_read k w field s' = input_row_read k w field s"
  by (simp add: input_row_read_def)

lemma side_ok_refreshed:
  assumes "side_ok field s z rows" and "hm_wf z" and "hm_wf d" and "hm_wf rows'"
    and "\<And>k. hm_get rows' k = (if k \<in> set (refresh_keys d updates rows) then refreshed d field s' rows k else hm_get rows k)"
    and "set (refresh_keys d updates rows) = fst ` set d \<union> {k \<in> set updates. hm_contains rows k}"
    and "noted s s' updates z d"
  shows "side_ok field s' (zset_add z d) rows'"
proof -
  have "hm_get rows' k = (if zget (zset_add z d) k = 0 then None
      else Some (input_row_read k (zget (zset_add z d) k) field s'))" for k
  proof (cases "k \<in> set (refresh_keys d updates rows)")
    case True
    then show ?thesis
      using assms(1,3,5) by (simp add: refreshed_def side_ok_def zget_add input_row_read_def Let_def)
  next
    case False
    then have k: "k \<notin> fst ` set d" "k \<in> set updates \<Longrightarrow> zget z k = 0"
      using assms(1,6) by (auto simp: hm_contains_def side_ok_def split: if_splits)
    then show ?thesis
      using assms(1,3,5,7) False zget_absent [OF k(1)] input_row_read_cong [of s' k s]
      by (auto simp: zget_add side_ok_def noted_def)
  qed
  then show ?thesis using assms(4) by (simp add: side_ok_def)
qed

lemma set_refresh_keys:
  "set (refresh_keys d updates rows) = fst ` set d \<union> {k \<in> set updates. hm_contains rows k}"
proof -
  have "set (fold (\<lambda>k ks. if hm_contains rows k then List.insert k ks else ks) updates ks) =
      set ks \<union> {k \<in> set updates. hm_contains rows k}" for ks
    by (induction updates arbitrary: ks) auto
  then show ?thesis by (simp add: refresh_keys_def hm_keys_def)
qed

lemma distinct_refresh_keys: "hm_wf d \<Longrightarrow> distinct (refresh_keys d updates rows)"
proof -
  have "distinct ks \<Longrightarrow> distinct (fold (\<lambda>k ks. if hm_contains rows k then List.insert k ks else ks) updates ks)" for ks
    by (induction updates arbitrary: ks) auto
  then show "hm_wf d \<Longrightarrow> ?thesis" by (simp add: refresh_keys_def hm_keys_def hm_wf_def)
qed

lemma emit_fold:
  assumes "distinct ks" and "fold (emit_key sip anti st) ks (out, delta) = (out', delta')" and "hm_wf delta"
  shows "hm_wf delta'
    \<and> (\<forall>k. k \<in> set out' \<longleftrightarrow> (if k \<in> set ks then row_present sip anti st k else k \<in> set out))
    \<and> (\<forall>k. zget delta' k = (if k \<in> set ks \<and> row_present sip anti st k \<noteq> (k \<in> set out)
          then (if row_present sip anti st k then 1 else - 1) else zget delta k))"
  using assms
proof (induction ks arbitrary: out delta)
  case (Cons key ks)
  obtain out1 delta1 where 1: "emit_key sip anti st key (out, delta) = (out1, delta1)" by fastforce
  have o1: "k \<in> set out1 \<longleftrightarrow> (if k = key then row_present sip anti st k else k \<in> set out)"
    and d1: "zget delta1 k = (if k = key \<and> row_present sip anti st k \<noteq> (k \<in> set out)
          then (if row_present sip anti st k then 1 else - 1) else zget delta k)"
    and w1: "hm_wf delta1" for k
    using 1 Cons.prems(3) by (auto simp: emit_key_def Let_def split: if_splits)
  have d: "distinct ks" "fold (emit_key sip anti st) ks (out1, delta1) = (out', delta')" using Cons.prems 1 by simp_all
  show ?case using Cons.IH [OF d w1] o1 d1 Cons.prems(1) by auto
qed simp

lemma set_affected:
  "set (fold (\<lambda>h ks. fold List.insert (bucket m h) ks) hs ks) = set ks \<union> (\<Union>h \<in> set hs. set (bucket m h))"
proof -
  have "set (fold List.insert xs ks) = set ks \<union> set xs" for xs ks :: "'a list"
    by (induction xs arbitrary: ks) auto
  then show ?thesis by (induction hs arbitrary: ks) auto
qed

lemma distinct_affected:
  "distinct ks \<Longrightarrow> distinct (fold (\<lambda>h ks. fold List.insert (bucket m h) ks) hs ks)"
proof (induction hs arbitrary: ks)
  case (Cons h hs)
  have "distinct ks \<Longrightarrow> distinct (fold List.insert xs ks)" for xs ks :: "'a list"
    by (induction xs arbitrary: ks) auto
  then show ?case using Cons by simp
qed simp

text \<open>A left row that is not affected is as present as before.\<close>

lemma row_present_unaffected:
  assumes "hm_get (ws_left st') k = hm_get (ws_left st) k"
    and "wi_rep sip (ws_right_by_hash st) kinds nan M" and "wi_rep sip (ws_right_by_hash st') kinds' nan' M'"
    and "\<And>r v w. hm_get (ws_left st) k = Some r \<Longrightarrow> ir_value r = Some v \<Longrightarrow>
      hash_value sip (from_value w) = hash_value sip (from_value v) \<Longrightarrow> (w \<in># M' \<longleftrightarrow> w \<in># M)"
  shows "row_present sip anti st' k \<longleftrightarrow> row_present sip anti st k"
proof -
  have "has_witness sip st' (from_value v) \<longleftrightarrow> has_witness sip st (from_value v)"
    if "hm_get (ws_left st) k = Some r" "ir_value r = Some v" for r v
    unfolding has_witness_iff [OF assms(2)] has_witness_iff [OF assms(3)] using assms(4) [OF that] by blast
  then show ?thesis using assms(1) by (auto simp: row_present_def split: option.splits)
qed

lemma witness_step_inv:
  assumes inv: "witness_inv sip anti cond s A B st" and d: "hm_wf d" and e: "hm_wf e"
    and na: "noted s s' (ws_content_updates st) A d" and nb: "noted s s' (ws_content_updates st) B e"
    and step: "witness_step sip anti cond s' st [d, e] = (out, st')"
  shows "witness_inv sip anti cond s' (zset_add A d) (zset_add B e) st' \<and> hm_wf out \<and> ws_content_updates st' = []
    \<and> (\<forall>k. zget out k = of_bool (admitted sip anti cond s' (zset_add A d) (zset_add B e) k)
                         - of_bool (admitted sip anti cond s A B k))"
proof -
  have wf: "hm_wf A" "hm_wf B" and left: "side_ok (jc_left_field cond) s A (ws_left st)"
    and right: "side_ok (jc_right_field cond) s B (ws_right st)"
    and lb: "left_buckets_ok sip (ws_left st) (ws_left_by_hash st)"
    and rep: "wi_rep sip (ws_right_by_hash st) (ws_kind_counts st) (ws_nan_count st) (live_values (ws_right st))"
    and out0: "\<And>k. k \<in> set (ws_output st) \<longleftrightarrow> admitted sip anti cond s A B k"
    using inv by (simp_all add: witness_inv_def)
  have hwf: "hm_wf (ws_left st)" "hm_wf (ws_right st)" using left right by (simp_all add: side_ok_def)
  define lk where "lk = refresh_keys d (ws_content_updates st) (ws_left st)"
  define rk where "rk = refresh_keys e (ws_content_updates st) (ws_right st)"
  define st1 where "st1 = fold (refresh_left sip d (jc_left_field cond) s') lk (st\<lparr>ws_content_updates := []\<rparr>)"
  obtain rows wd where r: "fold (refresh_right e (jc_right_field cond) s') rk (ws_right st1, []) = (rows, wd)" by fastforce
  define wi where "wi = fold (apply_witness_delta sip) wd
    \<lparr>wi_by_hash = ws_right_by_hash st1, wi_kinds = ws_kind_counts st1, wi_nan = ws_nan_count st1, wi_changed = []\<rparr>"
  define st2 where "st2 = st1\<lparr>ws_right := rows, ws_right_by_hash := wi_by_hash wi, ws_kind_counts := wi_kinds wi,
    ws_nan_count := wi_nan wi\<rparr>"
  define aff where "aff = fold (\<lambda>h ks. fold List.insert (bucket (ws_left_by_hash st1) h) ks) (wi_changed wi) lk"
  obtain outp delta where em: "fold (emit_key sip anti st2) aff (ws_output st1, []) = (outp, delta)" by fastforce
  have res: "out = delta" "st' = st2\<lparr>ws_output := outp\<rparr>"
    using step r em unfolding witness_step_def Let_def
    by (simp_all add: lk_def [symmetric] rk_def [symmetric] st1_def [symmetric] wi_def [symmetric]
        st2_def [symmetric] aff_def [symmetric])
  have dist: "distinct lk" "distinct rk" using d e by (simp_all add: lk_def rk_def distinct_refresh_keys)
  have L: "\<And>k. hm_get (ws_left st1) k = (if k \<in> set lk then refreshed d (jc_left_field cond) s' (ws_left st) k else hm_get (ws_left st) k)"
    "left_buckets_ok sip (ws_left st1) (ws_left_by_hash st1)" "hm_wf (ws_left st1)" "ws_right st1 = ws_right st"
    "ws_right_by_hash st1 = ws_right_by_hash st" "ws_kind_counts st1 = ws_kind_counts st"
    "ws_nan_count st1 = ws_nan_count st" "ws_output st1 = ws_output st" "ws_content_updates st1 = []"
    using refresh_lefts_effect [OF dist(1) _ _ st1_def] lb hwf by simp_all
  have R: "\<And>k. hm_get rows k = (if k \<in> set rk then refreshed e (jc_right_field cond) s' (ws_right st) k else hm_get (ws_right st) k)"
    "hm_wf rows" "hm_wf wd" "\<And>v. int (count (live_values rows) v) = int (count (live_values (ws_right st)) v) + delta_of wd v"
    using refresh_rights_effect [OF dist(2) hwf(2) hm_wf_Nil r [unfolded L(4)]]
    by (simp_all add: delta_of_def [of "[]"] diff_eq_eq)
  have W: "wi_rep sip (wi_by_hash wi) (wi_kinds wi) (wi_nan wi) (live_values rows)"
    "\<And>w. hash_value sip (from_value w) \<notin> set (wi_changed wi) \<Longrightarrow> (w \<in># live_values rows \<longleftrightarrow> w \<in># live_values (ws_right st))"
    using apply_witness_deltas_rep [OF R(3) _ R(4) wi_def] rep L by simp_all
  have left': "side_ok (jc_left_field cond) s' (zset_add A d) (ws_left st2)"
    using side_ok_refreshed [OF left wf(1) d L(3) _ set_refresh_keys na] L(1) by (simp add: lk_def st2_def)
  have right': "side_ok (jc_right_field cond) s' (zset_add B e) rows"
    using side_ok_refreshed [OF right wf(2) e R(2) _ set_refresh_keys nb] R(1) by (simp add: rk_def)
  have rep2: "wi_rep sip (ws_right_by_hash st2) (wi_kinds wi) (wi_nan wi) (live_values rows)"
    using W(1) by (simp add: st2_def)
  have pres: "row_present sip anti st2 k \<longleftrightarrow> admitted sip anti cond s' (zset_add A d) (zset_add B e) k" for k
    by (rule row_present_iff [OF left' right' rep2])
  have old: "row_present sip anti st k \<longleftrightarrow> admitted sip anti cond s A B k" for k
    by (rule row_present_iff [OF left right rep])
  have aff: "set aff = set lk \<union> (\<Union>h \<in> set (wi_changed wi). set (bucket (ws_left_by_hash st1) h))" "distinct aff"
    using dist(1) by (simp_all add: aff_def set_affected distinct_affected)
  have same: "row_present sip anti st2 k \<longleftrightarrow> row_present sip anti st k" if "k \<notin> set aff" for k
  proof (rule row_present_unaffected [OF _ rep rep2])
    have k: "k \<notin> set lk" using that aff(1) by simp
    then show l: "hm_get (ws_left st2) k = hm_get (ws_left st) k" using L(1) by (simp add: st2_def)
    fix r v w assume "hm_get (ws_left st) k = Some r" "ir_value r = Some v"
      and h: "hash_value sip (from_value w) = hash_value sip (from_value v)"
    then have "k \<in> set (bucket (ws_left_by_hash st1) (hash_value sip (from_value v)))"
      using L(1,2) k by (auto simp: left_buckets_ok_def input_row_hash_def)
    then have "hash_value sip (from_value v) \<notin> set (wi_changed wi)" using that aff(1) by auto
    then show "w \<in># live_values rows \<longleftrightarrow> w \<in># live_values (ws_right st)" using W(2) h by simp
  qed
  have E: "hm_wf delta" "\<And>k. k \<in> set outp \<longleftrightarrow> (if k \<in> set aff then row_present sip anti st2 k else k \<in> set (ws_output st))"
    "\<And>k. zget delta k = (if k \<in> set aff \<and> row_present sip anti st2 k \<noteq> (k \<in> set (ws_output st))
        then (if row_present sip anti st2 k then 1 else - 1) else 0)"
    using emit_fold [OF aff(2) em hm_wf_Nil] L(8) by simp_all
  have "k \<in> set outp \<longleftrightarrow> admitted sip anti cond s' (zset_add A d) (zset_add B e) k" for k
    using E(2) [of k] same [of k] pres [of k] old [of k] out0 [of k] by auto
  moreover have "zget delta k = of_bool (admitted sip anti cond s' (zset_add A d) (zset_add B e) k)
      - of_bool (admitted sip anti cond s A B k)" for k
    using E(3) [of k] same [of k] pres [of k] old [of k] out0 [of k] by auto
  moreover have "left_buckets_ok sip (ws_left st2) (ws_left_by_hash st2)" using L(2) by (simp add: st2_def)
  ultimately show ?thesis
    using res E(1) left' right' rep2 wf L(9) by (simp add: witness_inv_def st2_def)
qed

section \<open>Histories\<close>

text \<open>
  A history of the operator: before each step the circuit announces the rows whose content
  changed, then steps on the store as it is now.
\<close>

type_synonym witness_event = "row_key list \<times> store \<times> zset \<times> zset"

fun run_witness :: "(hash_input \<Rightarrow> u64) \<Rightarrow> bool \<Rightarrow> join_condition \<Rightarrow> witness_state \<Rightarrow> witness_event list
    \<Rightarrow> zset list \<times> witness_state" where
  "run_witness sip anti cond st [] = ([], st)"
| "run_witness sip anti cond st ((updates, s, d, e) # es) =
     (case witness_step sip anti cond s (note_content_updates updates st) [d, e] of (out, st1) \<Rightarrow>
        case run_witness sip anti cond st1 es of (outs, st2) \<Rightarrow> (out # outs, st2))"

fun history_ok :: "store \<Rightarrow> zset \<Rightarrow> zset \<Rightarrow> witness_event list \<Rightarrow> bool" where
  "history_ok s A B [] = True"
| "history_ok s A B ((updates, s', d, e) # es) =
     (hm_wf d \<and> hm_wf e \<and> noted s s' updates A d \<and> noted s s' updates B e
      \<and> history_ok s' (zset_add A d) (zset_add B e) es)"

fun history_end :: "store \<Rightarrow> zset \<Rightarrow> zset \<Rightarrow> witness_event list \<Rightarrow> store \<times> zset \<times> zset" where
  "history_end s A B [] = (s, A, B)"
| "history_end s A B ((updates, s', d, e) # es) = history_end s' (zset_add A d) (zset_add B e) es"

lemma set_fold_insert: "set (fold List.insert xs ys) = set ys \<union> set xs"
  by (induction xs arbitrary: ys) auto

lemma note_content_updates_inv:
  "witness_inv sip anti cond s A B (note_content_updates us st) = witness_inv sip anti cond s A B st"
  by (simp add: note_content_updates_def witness_inv_def)

lemma run_witness_inv:
  assumes "witness_inv sip anti cond s A B st" and "ws_content_updates st = []" and "history_ok s A B es"
    and "run_witness sip anti cond st es = (outs, st')" and "history_end s A B es = (s', A', B')"
  shows "witness_inv sip anti cond s' A' B' st' \<and>
    of_bool (admitted sip anti cond s' A' B' k) = of_bool (admitted sip anti cond s A B k) + total_weight outs k"
  using assms
proof (induction sip anti cond st es arbitrary: s A B outs rule: run_witness.induct)
  case (1 sip anti cond st)
  then show ?case by (simp add: total_weight_def)
next
  case (2 sip anti cond st updates s1 d e es)
  let ?st = "note_content_updates updates st"
  obtain out st1 where 1: "witness_step sip anti cond s1 ?st [d, e] = (out, st1)" by fastforce
  obtain outs' st2 where r: "run_witness sip anti cond st1 es = (outs', st2)" by fastforce
  have o: "outs = out # outs'" "st' = st2" using 2(5) 1 r by simp_all
  have "set (ws_content_updates ?st) = set updates"
    using 2(3) by (simp add: note_content_updates_def set_fold_insert)
  then have n: "noted s s1 (ws_content_updates ?st) A d" "noted s s1 (ws_content_updates ?st) B e"
    using 2(4) by (simp_all add: noted_def)
  have step: "witness_inv sip anti cond s1 (zset_add A d) (zset_add B e) st1" "ws_content_updates st1 = []"
    "zget out k = of_bool (admitted sip anti cond s1 (zset_add A d) (zset_add B e) k) - of_bool (admitted sip anti cond s A B k)"
    using witness_step_inv [OF _ _ _ n 1] 2(2,4) by (simp_all add: note_content_updates_inv)
  show ?case
    using 2(1) [OF 1 [symmetric] step(1,2), of outs'] 2(4,6) r o step(3)
    by (simp add: total_weight_def)
qed

lemma side_ok_new: "side_ok field s [] []"
  by (simp add: side_ok_def)

lemma witness_inv_new: "witness_inv sip anti cond s [] [] witness_new"
  by (simp add: witness_inv_def witness_new_def side_ok_new left_buckets_ok_def wi_rep_def bcount_def admitted_def)

text \<open>
  C12. The permission joins are incremental over every history: whatever input deltas arrive and
  however row contents change between the steps, provided the changed rows are announced, the
  deltas the indexed state emits add up, key by key, to the semi-join (or anti-join) computed
  from scratch on the summed inputs and the current store.
\<close>

theorem witness_join_history:
  assumes "history_ok s [] [] es" and "run_witness sip anti cond witness_new es = (outs, st)"
    and "history_end s [] [] es = (s', A, B)"
  shows "total_weight outs k = zget (witness_snapshot sip anti cond s' [A, B]) k
    \<and> (k \<in> set (ws_output st) \<longleftrightarrow> zget (witness_snapshot sip anti cond s' [A, B]) k = 1)"
proof -
  have "\<not> admitted sip anti cond s [] [] k" by (simp add: admitted_def)
  then have r: "witness_inv sip anti cond s' A B st" "total_weight outs k = of_bool (admitted sip anti cond s' A B k)"
    using run_witness_inv [OF witness_inv_new _ assms, of k] by (simp_all add: witness_new_def)
  then have "hm_wf A" "hm_wf B" "k \<in> set (ws_output st) \<longleftrightarrow> admitted sip anti cond s' A B k"
    by (simp_all add: witness_inv_def)
  then show ?thesis using r(2) by (simp add: zget_witness_snapshot)
qed

theorem witness_join_history_witness:
  "\<exists>s. total_weight (fst (run_witness (\<lambda>_. 0) False \<lparr>jc_left_field = [''k''], jc_right_field = [''k'']\<rparr> witness_new
     [([], s, [(''u:1'', 1)], [(''v:2'', 1)])])) ''u:1'' = 1"
proof -
  let ?row = "(VObject [(''k'', VBool True)], [])"
  let ?s = "\<lparr>sto_collections = [(''u'', collection_from_rows ''u'' [(''1'', ?row)] []),
      (''v'', collection_from_rows ''v'' [(''2'', ?row)] [])], sto_pending_deleted = []\<rparr>"
  let ?c = "\<lparr>jc_left_field = [''k''], jc_right_field = [''k'']\<rparr>"
  let ?es = "[([], ?s, [(''u:1'', 1)], [(''v:2'', 1)])]"
  obtain outs st where r: "run_witness (\<lambda>_. 0) False ?c witness_new ?es = (outs, st)" by fastforce
  have h: "history_ok store_new [] [] ?es" by (simp add: noted_def)
  have e: "history_end store_new [] [] ?es = (?s, [(''u:1'', 1)], [(''v:2'', 1)])"
    by (simp add: zset_add_def zset_add_entry_def Let_def)
  have "zget (witness_snapshot (\<lambda>_. 0) False ?c ?s [[(''u:1'', 1)], [(''v:2'', 1)]]) ''u:1'' = 1"
    by code_simp
  then show ?thesis
    using witness_join_history [OF h r e, of "''u:1''"] r by (intro exI [of _ ?s]) simp
qed

end
