(* ===== verification/Point_Witness.thy ===== *)
theory Point_Witness
  imports Witness_Invariant
begin

section \<open>Point re-evaluation of a presence join\<close>

text \<open>
  \<^verbatim>\<open>has_point_witness\<close> answers from counters per value kind and a few hash lookups whether
  any live right row compares equal to a value. The theorem: the answer is the same as comparing
  the value with every live right row, with no hash guard, for every hash function, including
  NaN (equal to every number), the two zeros (equal, with different hashes) and values of
  different types (which compare equal).
\<close>

subsection \<open>Integers as doubles\<close>

lemma f64_bits_range:
  assumes "0 < n" and "n \<le> 2 ^ 63"
  shows "0 < f64_bits_of_nat n" and "f64_bits_of_nat n < 2047 * 2 ^ 52"
proof -
  let ?e = "ilog2 n"
  have b: "2 ^ ?e \<le> n" "n < 2 ^ Suc ?e" using assms(1) ilog2_bounds [of n] by simp_all
  have e: "?e \<le> 63" using assms(2) ilog2_less [of n 63] by simp
  let ?m = "if ?e \<le> 52 then n * 2 ^ (52 - ?e)
     else let s = ?e - 52; q = n div 2 ^ s; r = n mod 2 ^ s
          in if 2 ^ (s - 1) < r \<or> (r = 2 ^ (s - 1) \<and> odd q) then q + 1 else q"
  have bits: "f64_bits_of_nat n = (?e + 1022) * 2 ^ 52 + ?m" using assms(1) by (simp add: f64_bits_of_nat_def Let_def)
  show "0 < f64_bits_of_nat n" unfolding bits by simp
  have "?m \<le> 2 ^ 53"
  proof (cases "?e \<le> 52")
    case True
    have "n * 2 ^ (52 - ?e) \<le> 2 ^ Suc ?e * 2 ^ (52 - ?e)" using b(2) by (intro mult_le_mono1) simp
    also have "\<dots> = 2 ^ 53" using True by (simp flip: power_add power_Suc)
    finally show ?thesis using True by simp
  next
    case False
    have "n < 2 ^ (?e - 52 + 53)" using b(2) False by (simp del: power_Suc)
    then have "n < 2 ^ (?e - 52) * 2 ^ 53" by (simp only: power_add)
    then have "n div 2 ^ (?e - 52) < 2 ^ 53" by (simp add: less_mult_imp_div_less mult.commute)
    then show ?thesis using False by (simp add: Let_def)
  qed
  moreover have "(?e + 1022) * 2 ^ 52 \<le> (63 + 1022) * (2::nat) ^ 52" using e by (intro mult_le_mono1) simp
  ultimately show "f64_bits_of_nat n < 2047 * 2 ^ 52" unfolding bits by simp
qed

lemma f64_of_i64_zero [simp]: "f64_of_i64 0 = 0"
  by (simp add: f64_of_i64_def f64_bits_of_nat_def)

lemma uint_f64_of_i64:
  "uint (f64_of_i64 i) = (if sint i < 0 then 2 ^ 63 + int (f64_bits_of_nat (nat (- sint i)))
     else int (f64_bits_of_nat (nat (sint i))))"
proof -
  have r: "- (2 ^ 63) \<le> sint i" "sint i < 2 ^ 63" using sint_range_size [of i] by (simp_all add: word_size)
  have small: "f64_bits_of_nat n < 2047 * 2 ^ 52" if "n \<le> 2 ^ 63" for n
    using that f64_bits_range(2) [of n] by (cases "n = 0") (simp_all add: f64_bits_of_nat_def)
  show ?thesis
  proof (cases "sint i < 0")
    case True
    let ?m = "f64_bits_of_nat (nat (- sint i))"
    have m: "?m < 2047 * 2 ^ 52" using r True by (intro small) simp
    have "unat (word_of_nat (2 ^ 63 + ?m) :: f64) = 2 ^ 63 + ?m"
      using m by (subst unat_of_nat) (simp del: of_nat_add)
    then have "unat (f64_of_i64 i) = 2 ^ 63 + ?m" using True by (simp only: f64_of_i64_def if_True)
    then show ?thesis using True by (simp add: uint_nat)
  next
    case False
    let ?m = "f64_bits_of_nat (nat (sint i))"
    have m: "?m < 2047 * 2 ^ 52" using r False by (intro small) simp
    then show ?thesis using False by (simp add: f64_of_i64_def unat_of_nat uint_nat)
  qed
qed

lemma sint_eq_iff: "sint (a :: i64) = sint b \<longleftrightarrow> a = b"
  by (auto intro: signed_word_eqI)

lemma sint_magnitude: "nat \<bar>sint (i :: i64)\<bar> \<le> 2 ^ 63"
proof -
  have "- (2 ^ 63) \<le> sint i" "sint i < 2 ^ 63" using sint_range_size [of i] by (simp_all add: word_size)
  then have "\<bar>sint i\<bar> \<le> 2 ^ 63" by linarith
  then show ?thesis by (simp add: nat_le_iff)
qed

lemma f64_of_i64_magnitude:
  "f64_magnitude (f64_of_i64 i) = int (f64_bits_of_nat (nat \<bar>sint i\<bar>))"
proof -
  have "nat \<bar>sint i\<bar> \<le> 2 ^ 63" by (rule sint_magnitude)
  then have "f64_bits_of_nat (nat \<bar>sint i\<bar>) < 2047 * 2 ^ 52"
    using f64_bits_range(2) by (cases "sint i = 0") (auto simp: f64_bits_of_nat_def)
  then show ?thesis by (auto simp: f64_magnitude_def uint_f64_of_i64)
qed

lemma f64_of_i64_not_nan [simp]: "\<not> f64_is_nan (f64_of_i64 i)"
proof -
  have "nat \<bar>sint i\<bar> \<le> 2 ^ 63" by (rule sint_magnitude)
  then have "f64_bits_of_nat (nat \<bar>sint i\<bar>) < 2047 * 2 ^ 52"
    using f64_bits_range(2) by (cases "sint i = 0") (auto simp: f64_bits_of_nat_def)
  then show ?thesis by (simp add: f64_is_nan_def f64_of_i64_magnitude)
qed

lemma f64_rank_of_i64_zero: "f64_rank (f64_of_i64 i) = 0 \<longleftrightarrow> i = 0"
proof
  assume "f64_rank (f64_of_i64 i) = 0"
  then have "f64_bits_of_nat (nat \<bar>sint i\<bar>) = 0"
    by (simp add: f64_rank_def f64_of_i64_magnitude split: if_splits)
  moreover have "nat \<bar>sint i\<bar> \<le> 2 ^ 63" by (rule sint_magnitude)
  ultimately have "nat \<bar>sint i\<bar> = 0" using f64_bits_range(1) [of "nat \<bar>sint i\<bar>"] by fastforce
  then show "i = 0" using sint_eq_iff [of i 0] by simp
qed (simp add: f64_rank_def f64_magnitude_def f64_negative_def)

lemma f64_rank_inj:
  assumes "f64_rank a = f64_rank b" and "f64_rank a \<noteq> 0"
  shows "a = b"
proof -
  have "f64_negative a = f64_negative b" "f64_magnitude a = f64_magnitude b"
    using assms f64_magnitude_bounds [of a] f64_magnitude_bounds [of b]
    by (auto simp: f64_rank_def split: if_splits)
  then have "uint a = uint b" using f64_uint_split [of a] f64_uint_split [of b] by simp
  then show ?thesis by (simp add: word_uint_eq_iff)
qed

lemma f64_rank_zero: "f64_rank z = 0 \<Longrightarrow> z = 0 \<or> z = 2 ^ 63"
proof -
  assume "f64_rank z = 0"
  then have "f64_magnitude z = 0" by (simp add: f64_rank_def split: if_splits)
  then have "uint z = 0 \<or> uint z = 2 ^ 63" using f64_uint_split [of z] by (simp split: if_splits)
  then show ?thesis by (auto simp: word_uint_eq_iff)
qed

lemma f64_zeros [simp]: "f64_rank 0 = 0" "f64_rank (9223372036854775808 :: f64) = 0"
    "\<not> f64_is_nan 0" "\<not> f64_is_nan 9223372036854775808"
  by (simp_all add: f64_rank_def f64_magnitude_def f64_is_nan_def f64_negative_def)

subsection \<open>Comparing with a live value\<close>

definition numeric_equal :: "value_ref \<Rightarrow> value \<Rightarrow> bool" where
  "numeric_equal x v = (case (x, v) of
       (RInt i, VInt j) \<Rightarrow> i = j
     | (RInt i, VFloat g) \<Rightarrow> f64_is_nan g \<or> f64_rank (f64_of_i64 i) = f64_rank g
     | (RFloat f, VInt j) \<Rightarrow> f64_is_nan f \<or> f64_rank f = f64_rank (f64_of_i64 j)
     | (RFloat f, VFloat g) \<Rightarrow> f64_is_nan f \<or> f64_is_nan g \<or> f64_rank f = f64_rank g
     | _ \<Rightarrow> False)"

definition is_number :: "value_ref \<Rightarrow> bool" where
  "is_number x = (case x of RInt _ \<Rightarrow> True | RFloat _ \<Rightarrow> True | _ \<Rightarrow> False)"

lemma or_equal_partial_cmp: "or_equal (f64_partial_cmp a b) = Equal \<longleftrightarrow> f64_is_nan a \<or> f64_is_nan b \<or> f64_rank a = f64_rank b"
  by (simp add: or_equal_def f64_partial_cmp_def)

lemma compare_number:
  assumes "is_number x"
  shows "compare_values x (from_value v) = Equal \<longleftrightarrow> witness_kind v \<in> {1, 4, 5, 6} \<or> numeric_equal x v"
  using assms
  by (cases x; cases v)
    (simp_all add: is_number_def compare_values_def witness_kind_def numeric_equal_def or_equal_partial_cmp
      sint_eq_iff)

lemma numeric_equal_hash:
  assumes "is_number x" and "numeric_equal x v" and "\<not> witness_is_nan v"
    and "\<And>f. x = RFloat f \<Longrightarrow> \<not> f64_is_nan f \<and> f64_rank f \<noteq> 0" and "x \<noteq> RInt 0"
  shows "hash_feed (from_value v) = hash_feed x"
proof -
  have inj: "b = a" if "f64_rank a = f64_rank b" "f64_rank a \<noteq> 0" for a b
    using f64_rank_inj [OF that] by simp
  show ?thesis
  proof (cases x)
    case (RInt i)
    then have "f64_rank (f64_of_i64 i) \<noteq> 0" using assms(5) by (simp add: f64_rank_of_i64_zero)
    then show ?thesis
      using RInt assms(2,3) inj [of "f64_of_i64 i"]
      by (cases v) (auto simp: numeric_equal_def hash_feed_def witness_is_nan_def)
  next
    case (RFloat f)
    then show ?thesis
      using assms(2,3,4) inj [of f]
      by (cases v) (auto simp: numeric_equal_def hash_feed_def witness_is_nan_def)
  qed (use assms(1) in \<open>simp_all add: is_number_def\<close>)
qed

definition zero_number :: "value_ref \<Rightarrow> bool" where
  "zero_number x = (case x of RInt i \<Rightarrow> i = 0 | RFloat f \<Rightarrow> f64_partial_cmp f 0 = Some Equal | _ \<Rightarrow> False)"

lemma zero_number_simps:
  "zero_number (RInt i) \<longleftrightarrow> i = 0"
  "zero_number (RFloat f) \<longleftrightarrow> \<not> f64_is_nan f \<and> f64_rank f = 0"
  by (auto simp: zero_number_def f64_partial_cmp_def)

lemma zero_number_compare:
  assumes "zero_number x" and "zero_number z" and "is_number x" and "is_number z"
  shows "numeric_equal x v \<longleftrightarrow> numeric_equal z v"
  using assms
  by (cases x; cases z; cases v)
    (auto simp: is_number_def numeric_equal_def zero_number_simps f64_rank_of_i64_zero
      dest: f64_rank_of_i64_zero [THEN iffD1, OF sym])

subsection \<open>The theorem\<close>

lemma size_filter_pos: "0 < size (filter_mset p M) \<longleftrightarrow> (\<exists>v. v \<in># M \<and> p v)"
proof -
  have "0 < size X \<longleftrightarrow> (\<exists>v. v \<in># X)" for X :: "'a multiset" by (cases X) auto
  then show ?thesis by auto
qed

lemma kind_count_pos:
  assumes "wi_rep sip m kinds nan M" and "i < 7"
  shows "0 < kinds ! i \<longleftrightarrow> (\<exists>v. v \<in># M \<and> witness_kind v = i)"
proof -
  have "kinds ! i = size (filter_mset (\<lambda>v. witness_kind v = i) M)" using assms by (simp add: wi_rep_def)
  then show ?thesis by (simp add: size_filter_pos)
qed

lemma sum_kinds:
  assumes "length kinds = 7"
  shows "sum_list (drop 1 kinds) = kinds ! 1 + kinds ! 2 + kinds ! 3 + kinds ! 4 + kinds ! 5 + kinds ! (6 :: nat)"
proof -
  obtain a b c d e f g where "kinds = [a, b, c, d, e, f, g]"
    using assms by (auto simp: length_Suc_conv numeral_eq_Suc)
  then show ?thesis by (simp add: numeral_eq_Suc add.assoc)
qed

lemma compare_other:
  "compare_values RNull (from_value v) = Equal \<longleftrightarrow> witness_kind v = 0"
  "compare_values (RBool b) (from_value v) = Equal \<longleftrightarrow> witness_kind v \<in> {2, 3, 4, 5, 6} \<or> v = VBool b"
  "compare_values (RStr t) (from_value v) = Equal \<longleftrightarrow> witness_kind v \<in> {1, 2, 3, 5, 6} \<or> v = VStr t"
  "compare_values (RArr vs) (from_value v) = Equal \<longleftrightarrow> witness_kind v \<in> {1, 2, 3, 4, 5, 6}"
  "compare_values (RObj m) (from_value v) = Equal \<longleftrightarrow> witness_kind v \<in> {1, 2, 3, 4, 5, 6}"
  by (cases v; auto simp: compare_values_def witness_kind_def)+

lemma nan_number: "witness_is_nan v \<Longrightarrow> is_number x \<Longrightarrow> numeric_equal x v"
  by (cases v; cases x) (auto simp: witness_is_nan_def numeric_equal_def is_number_def)

lemma nan_left: "f64_is_nan f \<Longrightarrow> witness_kind v \<in> {2, 3} \<Longrightarrow> numeric_equal (RFloat f) v"
  by (cases v) (simp_all add: witness_kind_def numeric_equal_def)

lemma numeric_equal_kind: "numeric_equal x v \<Longrightarrow> witness_kind v \<in> {2, 3}"
  by (cases x; cases v) (auto simp: numeric_equal_def witness_kind_def)

lemma zero_equal_hash:
  assumes "zero_number x" and "is_number x" and "numeric_equal x v" and "\<not> witness_is_nan v"
  shows "hash_feed (from_value v) = hash_feed (RFloat 0) \<or> hash_feed (from_value v) = hash_feed (RFloat (2 ^ 63))"
proof -
  have "numeric_equal (RFloat 0) v"
    using zero_number_compare [OF assms(1) _ assms(2), of "RFloat 0"] assms(3)
    by (simp add: zero_number_simps is_number_def)
  then show ?thesis
    using assms(4) f64_rank_zero f64_rank_of_i64_zero
    by (cases v) (auto simp: numeric_equal_def witness_is_nan_def hash_feed_def dest: sym)
qed

lemma point_witness_number:
  assumes rep: "wi_rep sip (ws_right_by_hash st) (ws_kind_counts st) (ws_nan_count st) M" and x: "is_number x"
  shows "has_point_witness sip st x \<longleftrightarrow> (\<exists>v. v \<in># M \<and> compare_values x (from_value v) = Equal)"
proof -
  let ?k = "\<lambda>i. \<exists>v. v \<in># M \<and> witness_kind v = i"
  let ?kc = "ws_kind_counts st"
  have len: "length ?kc = 7" using rep by (simp add: wi_rep_def)
  have K: "0 < ?kc ! i \<longleftrightarrow> ?k i" if "i < 7" for i using kind_count_pos [OF rep that] .
  have N: "0 < ws_nan_count st \<longleftrightarrow> (\<exists>v. v \<in># M \<and> witness_is_nan v)"
    using rep by (simp add: wi_rep_def size_filter_pos)
  have other: "?kc ! 2 + ?kc ! 3 < sum_list (drop 1 ?kc) \<longleftrightarrow> (\<exists>v. v \<in># M \<and> witness_kind v \<in> {1, 4, 5, 6})"
    unfolding sum_kinds [OF len] using K [of 1] K [of 4] K [of 5] K [of 6] by auto
  have numeric: "0 < ?kc ! 2 + ?kc ! 3 \<longleftrightarrow> (\<exists>v. v \<in># M \<and> witness_kind v \<in> {2, 3})"
    using K [of 2] K [of 3] by auto
  have hw: "has_witness sip st y \<longleftrightarrow> (\<exists>v. v \<in># M \<and> hash_value sip (from_value v) = hash_value sip y
      \<and> compare_values y (from_value v) = Equal)" if "is_number y" for y
    using has_witness_iff [OF rep, of y] that by (cases y) (simp_all add: is_number_def)
  let ?nan = "case x of RFloat f \<Rightarrow> f64_is_nan f | _ \<Rightarrow> False"
  have zeros: "is_number (RFloat 0)" "is_number (RFloat (2 ^ 63))" "zero_number (RFloat 0)" "zero_number (RFloat (2 ^ 63))"
    by (simp_all add: is_number_def zero_number_simps)
  have lhs: "has_point_witness sip st x \<longleftrightarrow>
      (\<exists>v. v \<in># M \<and> witness_kind v \<in> {1, 4, 5, 6}) \<or> (\<exists>v. v \<in># M \<and> witness_is_nan v)
      \<or> ?nan \<and> (\<exists>v. v \<in># M \<and> witness_kind v \<in> {2, 3}) \<or> has_witness sip st x
      \<or> zero_number x \<and> (has_witness sip st (RFloat 0) \<or> has_witness sip st (RFloat (2 ^ 63)))"
    unfolding other [symmetric] numeric [symmetric] N [symmetric] using x
    by (cases x) (simp_all add: has_point_witness_def is_number_def zero_number_def Let_def)
  show ?thesis
  proof
    assume "has_point_witness sip st x"
    then consider v where "v \<in># M" "witness_kind v \<in> {1, 4, 5, 6}" | v where "v \<in># M" "witness_is_nan v"
      | v where "?nan" "v \<in># M" "witness_kind v \<in> {2, 3}" | "has_witness sip st x"
      | z where "zero_number x" "has_witness sip st z" "zero_number z" "is_number z"
      unfolding lhs using zeros by blast
    then show "\<exists>v. v \<in># M \<and> compare_values x (from_value v) = Equal"
    proof cases
      case 3
      then show ?thesis using x nan_left compare_number [OF x] by (cases x) (auto simp: is_number_def)
    next
      case (5 z)
      then show ?thesis
        using hw [of z] compare_number [OF x] compare_number [of z] zero_number_compare [OF 5(1,3) x 5(4)] by auto
    qed (use x nan_number compare_number [OF x] hw [OF x] in auto)
  next
    assume "\<exists>v. v \<in># M \<and> compare_values x (from_value v) = Equal"
    then obtain v where v: "v \<in># M" "compare_values x (from_value v) = Equal" by blast
    show "has_point_witness sip st x"
    proof (cases "witness_kind v \<in> {1, 4, 5, 6} \<or> witness_is_nan v \<or> ?nan")
      case True
      then show ?thesis
        using v compare_number [OF x, of v] numeric_equal_kind [of x v] unfolding lhs by blast
    next
      case False
      then have eq: "numeric_equal x v" using v compare_number [OF x] by blast
      show ?thesis
      proof (cases "zero_number x")
        case True
        then obtain z where z: "z \<in> {RFloat 0, RFloat (2 ^ 63)}" "hash_feed (from_value v) = hash_feed z"
          using zero_equal_hash [OF _ x eq] False by blast
        then have "numeric_equal z v" using zero_number_compare [OF True, of z v] x zeros eq by auto
        then have "has_witness sip st z"
          using z v(1) zeros hw [of z] compare_number [of z v] by (auto simp: hash_value_def)
        then show ?thesis using True z(1) unfolding lhs by blast
      next
        case nz: False
        have "hash_feed (from_value v) = hash_feed x"
          using False nz by (intro numeric_equal_hash [OF x eq]) (auto simp: zero_number_simps)
        then have "has_witness sip st x" using v hw [OF x] by (auto simp: hash_value_def)
        then show ?thesis unfolding lhs by blast
      qed
    qed
  qed
qed

lemma exists_kind:
  "(\<exists>v. p v \<and> witness_kind v \<in> insert i S) \<longleftrightarrow> (\<exists>v. p v \<and> witness_kind v = i) \<or> (\<exists>v. p v \<and> witness_kind v \<in> S)"
  "(\<exists>v. p v \<and> witness_kind v \<in> {}) \<longleftrightarrow> False"
  by auto

lemma pos_sums:
  "(a :: nat) < a + b + c + d + e + f \<longleftrightarrow> 0 < b + c + d + e + f"
  "d < a + b + c + d + e + f \<longleftrightarrow> 0 < a + b + c + e + f"
  by linarith+

lemma has_point_witness_iff:
  assumes rep: "wi_rep sip (ws_right_by_hash st) (ws_kind_counts st) (ws_nan_count st) M"
  shows "has_point_witness sip st x \<longleftrightarrow> \<not> is_missing x \<and> (\<exists>v. v \<in># M \<and> compare_values x (from_value v) = Equal)"
proof (cases "is_number x")
  case True
  then have "\<not> is_missing x" by (cases x) (simp_all add: is_number_def)
  then show ?thesis using point_witness_number [OF rep True] by simp
next
  case False
  let ?k = "\<lambda>i. \<exists>v. v \<in># M \<and> witness_kind v = i"
  let ?kc = "ws_kind_counts st"
  have len: "length ?kc = 7" using rep by (simp add: wi_rep_def)
  have K: "0 < ?kc ! i \<longleftrightarrow> ?k i" if "i < 7" for i using kind_count_pos [OF rep that] .
  have K': "0 < ?kc ! 1 \<longleftrightarrow> ?k 1" "0 < ?kc ! 2 \<longleftrightarrow> ?k 2" "0 < ?kc ! 3 \<longleftrightarrow> ?k 3"
    "0 < ?kc ! 4 \<longleftrightarrow> ?k 4" "0 < ?kc ! 5 \<longleftrightarrow> ?k 5" "0 < ?kc ! 6 \<longleftrightarrow> ?k 6"
    by (rule K, simp)+
  have "0 < sum_list (drop 1 ?kc) \<longleftrightarrow>
      0 < ?kc ! 1 \<or> 0 < ?kc ! 2 \<or> 0 < ?kc ! 3 \<or> 0 < ?kc ! 4 \<or> 0 < ?kc ! 5 \<or> 0 < ?kc ! 6"
    unfolding sum_kinds [OF len] pos_sums by (simp only: add_gr_0 disj_assoc)
  then have any: "0 < sum_list (drop 1 ?kc) \<longleftrightarrow> (\<exists>v. v \<in># M \<and> witness_kind v \<in> {1, 2, 3, 4, 5, 6})"
    unfolding exists_kind by (simp only: K' simp_thms)
  have "?kc ! 1 < sum_list (drop 1 ?kc) \<longleftrightarrow> 0 < ?kc ! 2 \<or> 0 < ?kc ! 3 \<or> 0 < ?kc ! 4 \<or> 0 < ?kc ! 5 \<or> 0 < ?kc ! 6"
    unfolding sum_kinds [OF len] pos_sums by (simp only: add_gr_0 disj_assoc)
  then have bool: "?kc ! 1 < sum_list (drop 1 ?kc) \<longleftrightarrow> (\<exists>v. v \<in># M \<and> witness_kind v \<in> {2, 3, 4, 5, 6})"
    unfolding exists_kind by (simp only: K' simp_thms)
  have "?kc ! 4 < sum_list (drop 1 ?kc) \<longleftrightarrow> 0 < ?kc ! 1 \<or> 0 < ?kc ! 2 \<or> 0 < ?kc ! 3 \<or> 0 < ?kc ! 5 \<or> 0 < ?kc ! 6"
    unfolding sum_kinds [OF len] pos_sums by (simp only: add_gr_0 disj_assoc)
  then have str: "?kc ! 4 < sum_list (drop 1 ?kc) \<longleftrightarrow> (\<exists>v. v \<in># M \<and> witness_kind v \<in> {1, 2, 3, 5, 6})"
    unfolding exists_kind by (simp only: K' simp_thms)
  note W = has_witness_iff [OF rep, of x]
  show ?thesis
  proof (cases x)
    case RNull
    then show ?thesis using K [of 0] by (simp add: has_point_witness_def compare_other)
  next
    case (RBool b)
    then have "has_point_witness sip st x \<longleftrightarrow> (\<exists>v. v \<in># M \<and> witness_kind v \<in> {2, 3, 4, 5, 6}) \<or> has_witness sip st x"
      unfolding bool [symmetric] by (simp add: has_point_witness_def Let_def)
    then show ?thesis unfolding W using RBool by (auto simp: compare_other)
  next
    case (RStr t)
    then have "has_point_witness sip st x \<longleftrightarrow> (\<exists>v. v \<in># M \<and> witness_kind v \<in> {1, 2, 3, 5, 6}) \<or> has_witness sip st x"
      unfolding str [symmetric] by (simp add: has_point_witness_def Let_def)
    then show ?thesis unfolding W using RStr by (auto simp: compare_other)
  next
    case (RArr vs)
    then show ?thesis using any by (simp add: has_point_witness_def compare_other)
  next
    case (RObj m)
    then show ?thesis using any by (simp add: has_point_witness_def compare_other)
  qed (use False in \<open>simp_all add: has_point_witness_def is_number_def\<close>)
qed

text \<open>
  C16. Re-evaluating one row of a permission join from the counters gives the same answer as
  comparing its join value with every live right row: \<^verbatim>\<open>has_point_witness\<close> holds exactly when
  some right row with positive weight has a join value that compares equal, whatever the hash
  function.
\<close>

theorem point_witness_exact:
  assumes "witness_inv sip anti cond s A B st"
  shows "has_point_witness sip st x \<longleftrightarrow> \<not> is_missing x \<and>
    (\<exists>r. w_pos (zget B r) \<and> \<not> is_missing (join_field s (jc_right_field cond) r)
       \<and> compare_values x (join_field s (jc_right_field cond) r) = Equal)"
proof -
  have rep: "wi_rep sip (ws_right_by_hash st) (ws_kind_counts st) (ws_nan_count st) (live_values (ws_right st))"
    and side: "side_ok (jc_right_field cond) s B (ws_right st)"
    using assms by (simp_all add: witness_inv_def)
  have cv: "compare_values x (from_value (witness_value r)) = compare_values x r" if "\<not> is_missing r" for r
    using that by (cases x; cases r) (simp_all add: witness_value_def to_owned_value_def compare_values_def)
  show ?thesis
    unfolding has_point_witness_iff [OF rep] live_values_side [OF side] using cv by auto
qed

theorem point_witness_exact_witness:
  "\<not> has_point_witness (\<lambda>_. 0) witness_new (RFloat 0)"
  using point_witness_exact [OF witness_inv_new, of "\<lambda>_. 0" "RFloat 0"] by simp

end
