(* ===== verification/Kahn.thy ===== *)
theory Kahn
  imports Prelude
begin

section \<open>Kahn's algorithm\<close>

text \<open>
  The loop that \<^verbatim>\<open>Graph::compute_topo_order\<close> (\<^verbatim>\<open>circuit/graph.rs\<close>) and \<^verbatim>\<open>topo_order\<close>
  (\<^verbatim>\<open>schedule-core/src/dag.rs\<close>) share: pop a ready node, lower the in-degree of its
  successors, append those that reach zero. The in-degrees are a finite map (a vector by index
  in the first, a \<^verbatim>\<open>BTreeMap\<close> by name in the second); a missing entry, and lowering a zero,
  are panics of the code. Lowering a positive number or leaving the loop is all it can do, so the
  loop terminates on every input.
\<close>

fun kahn_release ::
  "'v list \<Rightarrow> ('v, nat) hmap \<Rightarrow> 'v list \<Rightarrow> (('v, nat) hmap \<times> 'v list) outcome" where
  "kahn_release [] deg queue = Ret (deg, queue)"
| "kahn_release (v # vs) deg queue =
     (case hm_get deg v of
        None \<Rightarrow> Panic
      | Some 0 \<Rightarrow> Panic
      | Some (Suc d) \<Rightarrow> kahn_release vs (hm_insert v d deg) (if d = 0 then queue @ [v] else queue))"

definition degree_sum :: "('v, nat) hmap \<Rightarrow> nat" where
  "degree_sum deg = sum_list (map snd deg)"

lemma degree_sum_insert:
  "hm_get deg v = Some (Suc d) \<Longrightarrow> degree_sum deg = Suc (degree_sum (hm_insert v d deg))"
  by (induction deg) (auto simp: degree_sum_def split: if_splits)

lemma kahn_release_measure:
  "kahn_release vs deg queue = Ret (deg', queue') \<Longrightarrow>
   length queue' + degree_sum deg' \<le> length queue + degree_sum deg"
proof (induction vs deg queue rule: kahn_release.induct)
  case (2 v vs deg queue)
  then obtain d where d: "hm_get deg v = Some (Suc d)" by (auto split: option.splits nat.splits)
  from degree_sum_insert [OF this] show ?case using 2 d by (auto split: if_splits)
qed simp

function kahn_loop ::
  "('v \<Rightarrow> 'v list) \<Rightarrow> ('v, nat) hmap \<Rightarrow> 'v list \<Rightarrow> 'v list \<Rightarrow> (('v, nat) hmap \<times> 'v list) outcome" where
  "kahn_loop nexts deg [] order = Ret (deg, order)"
| "kahn_loop nexts deg (v # queue) order =
     (case kahn_release (nexts v) deg queue of
        Panic \<Rightarrow> Panic
      | Ret (deg', queue') \<Rightarrow> kahn_loop nexts deg' queue' (order @ [v]))"
  by pat_completeness auto
termination
  by (relation "measure (\<lambda>(_, deg, queue, _). length queue + degree_sum deg)")
    (auto dest: kahn_release_measure [OF sym] kahn_release_measure)

subsection \<open>Correctness\<close>

text \<open>
  Releasing the successors \<open>vs\<close> lowers every in-degree by the number of times the node occurs,
  and queues each node that reaches zero once.
\<close>

lemma kahn_release_spec:
  assumes "\<forall>v \<in> set vs. \<exists>d. hm_get deg v = Some d \<and> count_list vs v \<le> d"
  shows "\<exists>deg' new. kahn_release vs deg queue = Ret (deg', queue @ new)
    \<and> (\<forall>v. hm_get deg' v = map_option (\<lambda>d. d - count_list vs v) (hm_get deg v))
    \<and> distinct new \<and> set new = {v \<in> set vs. hm_get deg v = Some (count_list vs v)}"
  using assms
proof (induction vs arbitrary: deg queue)
  case (Cons v vs)
  obtain d where d: "hm_get deg v = Some (Suc d)" "count_list vs v \<le> d"
    using Cons.prems by (auto simp: Suc_le_eq dest!: less_imp_Suc_add)
  let ?deg = "hm_insert v d deg" and ?q = "if d = 0 then queue @ [v] else queue"
  have pre: "\<forall>w \<in> set vs. \<exists>d. hm_get ?deg w = Some d \<and> count_list vs w \<le> d"
    using Cons.prems d by (auto split: if_splits)
  obtain deg' new where R: "kahn_release vs ?deg ?q = Ret (deg', ?q @ new)"
    "\<forall>w. hm_get deg' w = map_option (\<lambda>d. d - count_list vs w) (hm_get ?deg w)"
    "distinct new" "set new = {w \<in> set vs. hm_get ?deg w = Some (count_list vs w)}"
    using Cons.IH [OF pre, of ?q] by blast
  let ?new = "if d = 0 then v # new else new"
  have zero: "v \<notin> set vs" if "d = 0" using that d(2) by (simp add: count_list_0_iff)
  have "kahn_release (v # vs) deg queue = Ret (deg', queue @ ?new)" using R(1) d(1) by simp
  moreover have "\<forall>w. hm_get deg' w = map_option (\<lambda>d. d - count_list (v # vs) w) (hm_get deg w)"
    using R(2) d(1) by (auto simp: option.map_comp)
  moreover have "distinct ?new" using R(3,4) zero by auto
  moreover have "set ?new = {w \<in> set (v # vs). hm_get deg w = Some (count_list (v # vs) w)}"
  proof -
    have v: "v \<in> set new \<longleftrightarrow> v \<in> set vs \<and> d = count_list vs v" using R(4) by auto
    have "count_list vs v = 0 \<longleftrightarrow> v \<notin> set vs" by (rule count_list_0_iff)
    then have "v \<in> set ?new \<longleftrightarrow> d = count_list vs v" using v zero by auto
    moreover have "w \<in> set ?new \<longleftrightarrow> w \<in> set vs \<and> hm_get deg w = Some (count_list vs w)" if "w \<noteq> v" for w
      using R(4) that by auto
    ultimately have "w \<in> set ?new \<longleftrightarrow> w \<in> set (v # vs) \<and> hm_get deg w = Some (count_list (v # vs) w)" for w
      using d(1) by (cases "w = v") simp_all
    then show ?thesis by blast
  qed
  ultimately show ?case by blast
qed (simp add: option.map_ident)

text \<open>Edges are pairs of a node and a node that waits for it, with multiplicity.\<close>

definition in_edges :: "('v \<times> 'v) list \<Rightarrow> 'v set \<Rightarrow> 'v \<Rightarrow> nat" where
  "in_edges E done v = length (filter (\<lambda>(u, w). w = v \<and> u \<notin> done) E)"

definition topo_sorted :: "('v \<times> 'v) list \<Rightarrow> 'v list \<Rightarrow> bool" where
  "topo_sorted E order \<longleftrightarrow> (\<forall>xs v ys. order = xs @ v # ys \<longrightarrow> (\<forall>u. (u, v) \<in> set E \<longrightarrow> u \<in> set xs))"

definition kahn_inv ::
  "'v set \<Rightarrow> ('v \<times> 'v) list \<Rightarrow> ('v, nat) hmap \<Rightarrow> 'v list \<Rightarrow> 'v list \<Rightarrow> bool" where
  "kahn_inv V E deg queue order \<longleftrightarrow>
     distinct (order @ queue) \<and> set (order @ queue) \<subseteq> V \<and> topo_sorted E order
     \<and> (\<forall>v. hm_get deg v = (if v \<in> V then Some (in_edges E (set order) v) else None))
     \<and> (\<forall>v \<in> V. v \<in> set (order @ queue) \<longleftrightarrow> in_edges E (set order) v = 0)"

lemma in_edges_0_iff: "in_edges E S v = 0 \<longleftrightarrow> (\<forall>u. (u, v) \<in> set E \<longrightarrow> u \<in> S)"
  by (auto simp: in_edges_def filter_empty_conv)

lemma in_edges_insert:
  assumes "u \<notin> S" and "\<forall>w. count_list (nexts u) w = count_list E (u, w)"
  shows "in_edges E S v = in_edges E (insert u S) v + count_list (nexts u) v"
proof -
  have "length (filter (\<lambda>(a, w). w = v \<and> a \<notin> S) F) =
      length (filter (\<lambda>(a, w). w = v \<and> a \<notin> insert u S) F) + count_list F (u, v)" for F
    using assms(1) by (induction F) auto
  then show ?thesis using assms(2) by (simp add: in_edges_def)
qed

lemma topo_sorted_snoc:
  assumes "topo_sorted E order" and "\<forall>u. (u, v) \<in> set E \<longrightarrow> u \<in> set order"
  shows "topo_sorted E (order @ [v])"
  unfolding topo_sorted_def
proof (intro allI impI)
  fix xs w ys u assume eq: "order @ [v] = xs @ w # ys" and e: "(u, w) \<in> set E"
  show "u \<in> set xs"
  proof (cases ys rule: rev_cases)
    case Nil
    then show ?thesis using eq e assms(2) by auto
  next
    case (snoc ys' y)
    then have "order = xs @ w # ys'" using eq by auto
    then show ?thesis using e assms(1) by (auto simp: topo_sorted_def)
  qed
qed

lemma kahn_step_inv:
  assumes inv: "kahn_inv V E deg (v # queue) order" and E: "set E \<subseteq> V \<times> V"
    and nexts: "\<forall>u \<in> V. \<forall>w. count_list (nexts u) w = count_list E (u, w)"
  shows "\<exists>deg' queue'. kahn_release (nexts v) deg queue = Ret (deg', queue') \<and> kahn_inv V E deg' queue' (order @ [v])"
proof -
  have v: "v \<in> V" "v \<notin> set order" "v \<notin> set queue" using inv by (auto simp: kahn_inv_def)
  have nv: "\<forall>w. count_list (nexts v) w = count_list E (v, w)" using nexts v by blast
  note split = in_edges_insert [where nexts = nexts, OF v(2) nv]
  have mem: "w \<in> V" if "w \<in> set (nexts v)" for w
  proof -
    have "count_list E (v, w) \<noteq> 0" using that nv by (metis count_list_0_iff)
    then show ?thesis using E by (auto simp: count_list_0_iff)
  qed
  have deg: "hm_get deg w = (if w \<in> V then Some (in_edges E (set order) w) else None)" for w
    using inv by (simp add: kahn_inv_def)
  have "\<forall>w \<in> set (nexts v). \<exists>d. hm_get deg w = Some d \<and> count_list (nexts v) w \<le> d"
    using deg mem split by auto
  from kahn_release_spec [OF this, of queue] obtain deg' new where
    R: "kahn_release (nexts v) deg queue = Ret (deg', queue @ new)"
    "\<forall>w. hm_get deg' w = map_option (\<lambda>d. d - count_list (nexts v) w) (hm_get deg w)"
    "distinct new" "set new = {w \<in> set (nexts v). hm_get deg w = Some (count_list (nexts v) w)}"
    by blast
  have deg': "hm_get deg' w = (if w \<in> V then Some (in_edges E (insert v (set order)) w) else None)" for w
    using R(2) deg split by simp
  have zero: "w \<in> set (order @ v # queue) \<longleftrightarrow> in_edges E (set order) w = 0" if "w \<in> V" for w
    using inv that by (simp add: kahn_inv_def)
  have new: "w \<in> set new \<longleftrightarrow> w \<in> set (nexts v) \<and> in_edges E (insert v (set order)) w = 0" for w
    using R(4) deg split mem by auto
  have fresh: "w \<notin> set (order @ v # queue)" if "w \<in> set new" for w
  proof -
    have "count_list (nexts v) w \<noteq> 0" using that new by (metis count_list_0_iff)
    then have "in_edges E (set order) w \<noteq> 0" using split [of w] by simp
    moreover have "w \<in> V" using that new [of w] mem [of w] by simp
    ultimately show ?thesis using zero [of w] by simp
  qed
  have "w \<in> set (order @ v # queue @ new) \<longleftrightarrow> in_edges E (insert v (set order)) w = 0" if "w \<in> V" for w
  proof -
    have "in_edges E (set order) w = 0 \<longleftrightarrow> in_edges E (insert v (set order)) w = 0 \<and> w \<notin> set (nexts v)"
      using split [of w] by (simp add: count_list_0_iff)
    then show ?thesis using zero [OF that] new [of w] by (cases "w \<in> set (nexts v)") simp_all
  qed
  moreover have "topo_sorted E (order @ [v])"
    using inv zero [OF v(1)] by (intro topo_sorted_snoc) (auto simp: kahn_inv_def in_edges_0_iff)
  moreover have "set new \<subseteq> V" using new mem by auto
  ultimately have "kahn_inv V E deg' (queue @ new) (order @ [v])"
    using inv R(3) fresh deg' by (auto simp: kahn_inv_def)
  then show ?thesis using R(1) by blast
qed

lemma kahn_loop_inv:
  assumes "kahn_inv V E deg queue order" and "set E \<subseteq> V \<times> V"
    and "\<forall>u \<in> V. \<forall>w. count_list (nexts u) w = count_list E (u, w)"
  shows "\<exists>deg' order'. kahn_loop nexts deg queue order = Ret (deg', order') \<and> kahn_inv V E deg' [] order'"
  using assms
proof (induction nexts deg queue order rule: kahn_loop.induct)
  case (2 nexts deg v queue order)
  from kahn_step_inv [OF 2(2,3,4)] obtain deg' queue' where
    "kahn_release (nexts v) deg queue = Ret (deg', queue')" "kahn_inv V E deg' queue' (order @ [v])"
    by blast
  then show ?case using 2 by auto
qed auto

lemma kahn_inv_start:
  assumes "distinct queue" and "set queue = {v \<in> V. in_edges E {} v = 0}"
    and "\<forall>v. hm_get deg v = (if v \<in> V then Some (in_edges E {} v) else None)"
  shows "kahn_inv V E deg queue []"
  using assms by (auto simp: kahn_inv_def topo_sorted_def)

lemma takeWhile_first: "v \<notin> set xs \<Longrightarrow> takeWhile (\<lambda>w. w \<noteq> v) (xs @ v # ys) = xs"
  by (induction xs) auto

lemma topo_sorted_earlier:
  assumes "topo_sorted E order" and "distinct order" and "(u, v) \<in> set E" and "v \<in> set order"
  shows "length (takeWhile (\<lambda>w. w \<noteq> u) order) < length (takeWhile (\<lambda>w. w \<noteq> v) order)"
proof -
  obtain xs ys where o: "order = xs @ v # ys" using assms(4) by (meson split_list)
  then have u: "u \<in> set xs" using assms(1,3) by (auto simp: topo_sorted_def)
  then obtain as bs where x: "xs = as @ u # bs" "u \<notin> set as" by (meson split_list_first)
  have "v \<notin> set xs" using assms(2) o by auto
  then have "takeWhile (\<lambda>w. w \<noteq> v) order = xs" using o takeWhile_first by fast
  moreover have "takeWhile (\<lambda>w. w \<noteq> u) order = as"
    using o x takeWhile_first [of u as "bs @ v # ys"] by simp
  ultimately show ?thesis using x by simp
qed

lemma topo_sorted_acyclic:
  assumes t: "topo_sorted E order" and d: "distinct order" and "\<forall>(u, v) \<in> set E. v \<in> set order"
  shows "acyclic (set E)"
proof (rule acyclicI_order)
  let ?pos = "\<lambda>v. length (takeWhile (\<lambda>w. w \<noteq> v) order)"
  fix u v assume e: "(u, v) \<in> set E"
  then have "?pos u < ?pos v" using topo_sorted_earlier [OF t d] assms(3) by blast
  moreover have "?pos v \<le> length order" by (rule length_takeWhile_le)
  ultimately show "length order - ?pos v < length order - ?pos u" by linarith
qed

text \<open>
  The nodes the loop does not place are those on a cycle and those that wait for one, directly or
  not; so it places every node exactly when the graph has no cycle.
\<close>

lemma topo_sorted_filter: "topo_sorted E order \<Longrightarrow> topo_sorted (filter p E) order"
  by (auto simp: topo_sorted_def)

lemma kahn_placed_iff:
  assumes "kahn_inv V E deg [] order" and "v \<in> V"
  shows "v \<in> set order \<longleftrightarrow> (\<forall>u. (u, v) \<in> set E \<longrightarrow> u \<in> set order)"
  using assms by (simp add: kahn_inv_def in_edges_0_iff)

lemma kahn_placed_back:
  assumes inv: "kahn_inv V E deg [] order" and E: "set E \<subseteq> V \<times> V"
  shows "(u, v) \<in> (set E)\<^sup>* \<Longrightarrow> v \<in> set order \<Longrightarrow> u \<in> set order"
proof (induction rule: converse_rtrancl_induct)
  case (step a b)
  then have "b \<in> V" using E by auto
  then show ?case using step kahn_placed_iff [OF inv] by blast
qed

lemma kahn_unplaced_iff:
  assumes inv: "kahn_inv V E deg [] order" and E: "set E \<subseteq> V \<times> V" and v: "v \<in> V"
  shows "v \<notin> set order \<longleftrightarrow> (\<exists>c. (c, c) \<in> (set E)\<^sup>+ \<and> (c, v) \<in> (set E)\<^sup>*)"
proof
  assume "\<exists>c. (c, c) \<in> (set E)\<^sup>+ \<and> (c, v) \<in> (set E)\<^sup>*"
  then obtain c where c: "(c, c) \<in> (set E)\<^sup>+" "(c, v) \<in> (set E)\<^sup>*" by blast
  let ?F = "filter (\<lambda>e. snd e \<in> set order) E"
  have ac: "acyclic (set ?F)"
    using topo_sorted_acyclic [of ?F order] topo_sorted_filter inv by (auto simp: kahn_inv_def)
  have "(c, b) \<in> (set ?F)\<^sup>+" if "(c, b) \<in> (set E)\<^sup>+" "b \<in> set order" for b
    using that
  proof (induction rule: trancl_induct)
    case (step b d)
    have "b \<in> set order" using kahn_placed_back [OF inv E, of b d] step by auto
    then have "(c, b) \<in> (set ?F)\<^sup>+" "(b, d) \<in> set ?F" using step by auto
    then show ?case by (rule trancl.trancl_into_trancl)
  qed auto
  then have "c \<notin> set order" using c(1) ac by (auto simp: acyclic_def)
  then show "v \<notin> set order" using kahn_placed_back [OF inv E c(2)] by blast
next
  assume nv: "v \<notin> set order"
  let ?A = "{u. (u, v) \<in> (set E)\<^sup>*} - set order" and ?R = "set E \<inter> (- set order) \<times> {b. (b, v) \<in> (set E)\<^sup>*}"
  have fin: "finite ?R" by simp
  have "\<not> acyclic ?R"
  proof
    assume "acyclic ?R"
    then obtain m where m: "m \<in> ?A" "\<And>u. (u, m) \<in> ?R \<Longrightarrow> u \<notin> ?A"
      using wfE_min [OF finite_acyclic_wf [OF fin], of v ?A] nv by blast
    have "m \<in> V" using m(1) v E by (auto elim: converse_rtranclE)
    then obtain u where u: "(u, m) \<in> set E" "u \<notin> set order" using m(1) kahn_placed_iff [OF inv] by blast
    then show False using m by (auto intro: converse_rtrancl_into_rtrancl)
  qed
  then obtain c where c: "(c, c) \<in> ?R\<^sup>+" by (auto simp: acyclic_def)
  then have "(c, c) \<in> (set E)\<^sup>+" by (rule trancl_mono) auto
  moreover obtain b where "(b, c) \<in> ?R" using c by (meson tranclE)
  then have "(c, v) \<in> (set E)\<^sup>*" by simp
  ultimately show "\<exists>c. (c, c) \<in> (set E)\<^sup>+ \<and> (c, v) \<in> (set E)\<^sup>*" by blast
qed

lemma kahn_complete_iff:
  assumes inv: "kahn_inv V E deg [] order" and E: "set E \<subseteq> V \<times> V"
  shows "set order = V \<longleftrightarrow> acyclic (set E)"
proof -
  have "set order \<subseteq> V" using inv by (simp add: kahn_inv_def)
  moreover have "c \<in> V" if "(c, c) \<in> (set E)\<^sup>+" for c using that E by (auto elim: tranclE)
  ultimately show ?thesis using kahn_unplaced_iff [OF inv E] unfolding acyclic_def by blast
qed

lemma kahn_release_wf:
  "kahn_release vs deg queue = Ret (deg', queue') \<Longrightarrow> hm_wf deg \<Longrightarrow> hm_wf deg'"
  by (induction vs deg queue rule: kahn_release.induct) (auto split: option.splits nat.splits)

lemma kahn_loop_wf: "kahn_loop nexts deg queue order = Ret (deg', order') \<Longrightarrow> hm_wf deg \<Longrightarrow> hm_wf deg'"
  by (induction nexts deg queue order rule: kahn_loop.induct)
    (auto split: outcome.splits dest: kahn_release_wf)

end
