(* ===== verification/Workflow_Dag.thy ===== *)
theory Workflow_Dag
  imports Kahn Values
begin

section \<open>Workflow graphs\<close>

text \<open>
  Model of \<^verbatim>\<open>schedule-core/src/dag.rs\<close>: validation of a workflow's steps, their topological
  order and layers, and the two questions the engine asks of the step statuses, which steps may
  start and which never can. A \<^verbatim>\<open>BTreeMap\<close> is an association list in key order, its
  \<^verbatim>\<open>insert\<close> is \<open>bt_insert\<close>. The \<^verbatim>\<open>expect\<close> calls of the ordering are panics of the model.
\<close>

fun bt_insert :: "'k::linorder \<Rightarrow> 'v \<Rightarrow> ('k, 'v) hmap \<Rightarrow> ('k, 'v) hmap" where
  "bt_insert k v [] = [(k, v)]"
| "bt_insert k v ((k', v') # m) =
     (if k < k' then (k, v) # (k', v') # m
      else if k = k' then (k, v) # m
      else (k', v') # bt_insert k v m)"

datatype dag_error =
    DagEmpty
  | DuplicateStep string
  | UnknownDependency string string
  | SelfDependency string
  | Cycle "string list"

datatype step_status = Blocked | Ready | Dispatched | Success | Failed | Skipped

definition status_as_str :: "step_status \<Rightarrow> string" where
  "status_as_str s =
     (case s of Blocked \<Rightarrow> ''blocked'' | Ready \<Rightarrow> ''ready'' | Dispatched \<Rightarrow> ''dispatched''
      | Success \<Rightarrow> ''success'' | Failed \<Rightarrow> ''failed'' | Skipped \<Rightarrow> ''skipped'')"

definition status_parse :: "string \<Rightarrow> step_status option" where
  "status_parse s =
     (if s = ''blocked'' then Some Blocked else if s = ''ready'' then Some Ready
      else if s = ''dispatched'' then Some Dispatched else if s = ''success'' then Some Success
      else if s = ''failed'' then Some Failed else if s = ''skipped'' then Some Skipped else None)"

definition is_terminal :: "step_status \<Rightarrow> bool" where
  "is_terminal s = (s \<in> {Success, Failed, Skipped})"

record step_def =
  sd_name :: string
  sd_path :: string
  sd_table :: "string option"
  sd_payload :: "json option"
  sd_depends_on :: "string list"
  sd_max_retries :: "i64 option"
  sd_retry_strategy :: "string option"
  sd_timeout :: "i64 option"

datatype on_failure = Halt | ContinueIndependent

record workflow_def =
  wd_steps :: "step_def list"
  wd_on_failure :: on_failure

record workflow_dag =
  dag_steps :: "(string, step_def) hmap"
  dag_order :: "string list"

type_synonym step_map = "(string, step_def) hmap"

subsection \<open>Validation\<close>

fun collect_steps :: "step_def list \<Rightarrow> step_map \<Rightarrow> dag_error + step_map" where
  "collect_steps [] steps = Inr steps"
| "collect_steps (s # ss) steps =
     (if hm_contains steps (sd_name s) then Inl (DuplicateStep (sd_name s))
      else collect_steps ss (bt_insert (sd_name s) s steps))"

fun check_deps :: "step_map \<Rightarrow> string \<Rightarrow> string list \<Rightarrow> dag_error option" where
  "check_deps steps name [] = None"
| "check_deps steps name (dep # deps) =
     (if dep = name then Some (SelfDependency name)
      else if \<not> hm_contains steps dep then Some (UnknownDependency name dep)
      else check_deps steps name deps)"

fun check_steps :: "step_map \<Rightarrow> step_def list \<Rightarrow> dag_error option" where
  "check_steps steps [] = None"
| "check_steps steps (s # ss) =
     (case check_deps steps (sd_name s) (sd_depends_on s) of
        Some e \<Rightarrow> Some e
      | None \<Rightarrow> check_steps steps ss)"

type_synonym degrees = "(string, nat) hmap \<times> (string, string list) hmap"

fun count_deps :: "string \<Rightarrow> string list \<Rightarrow> degrees \<Rightarrow> degrees outcome" where
  "count_deps name [] st = Ret st"
| "count_deps name (dep # deps) (indegree, dependents) =
     (case hm_get indegree name of
        None \<Rightarrow> Panic
      | Some d \<Rightarrow>
          count_deps name deps
            (bt_insert name (d + 1) indegree,
             bt_insert dep ((case hm_get dependents dep of None \<Rightarrow> [] | Some l \<Rightarrow> l) @ [name]) dependents))"

fun count_steps :: "step_def list \<Rightarrow> degrees \<Rightarrow> degrees outcome" where
  "count_steps [] st = Ret st"
| "count_steps (s # ss) st =
     (case count_deps (sd_name s) (sd_depends_on s) st of
        Panic \<Rightarrow> Panic
      | Ret st' \<Rightarrow> count_steps ss st')"

definition topo_order :: "step_map \<Rightarrow> (dag_error + string list) outcome" where
  "topo_order steps =
     (case count_steps (map snd steps) (map (\<lambda>(name, _). (name, 0)) steps, []) of
        Panic \<Rightarrow> Panic
      | Ret (indegree, dependents) \<Rightarrow>
          let queue = map fst (filter (\<lambda>(_, deg). deg = 0) indegree)
          in case kahn_loop (\<lambda>name. case hm_get dependents name of None \<Rightarrow> [] | Some l \<Rightarrow> l) indegree queue [] of
               Panic \<Rightarrow> Panic
             | Ret (indegree', order) \<Rightarrow>
                 if length order \<noteq> length steps
                 then Ret (Inl (Cycle (sort (map fst (filter (\<lambda>(_, deg). 0 < deg) indegree')))))
                 else Ret (Inr order))"

definition dag_validate :: "workflow_def \<Rightarrow> (dag_error + workflow_dag) outcome" where
  "dag_validate wd =
     (if wd_steps wd = [] then Ret (Inl DagEmpty)
      else case collect_steps (wd_steps wd) [] of
             Inl e \<Rightarrow> Ret (Inl e)
           | Inr steps \<Rightarrow>
               (case check_steps steps (map snd steps) of
                  Some e \<Rightarrow> Ret (Inl e)
                | None \<Rightarrow>
                    (case topo_order steps of
                       Panic \<Rightarrow> Panic
                     | Ret (Inl e) \<Rightarrow> Ret (Inl e)
                     | Ret (Inr order) \<Rightarrow> Ret (Inr \<lparr>dag_steps = steps, dag_order = order\<rparr>))))"

subsection \<open>Reading a validated graph\<close>

definition steps_in_order :: "workflow_dag \<Rightarrow> step_def list" where
  "steps_in_order dag = List.map_filter (hm_get (dag_steps dag)) (dag_order dag)"

definition dag_roots :: "workflow_dag \<Rightarrow> step_def list" where
  "dag_roots dag = filter (\<lambda>s. sd_depends_on s = []) (steps_in_order dag)"

text \<open>\<^verbatim>\<open>self.steps[name]\<close> panics on an unknown name.\<close>

fun layers_loop :: "step_map \<Rightarrow> string list \<Rightarrow> (string, nat) hmap \<Rightarrow> (string, nat) hmap outcome" where
  "layers_loop steps [] layers = Ret layers"
| "layers_loop steps (name # names) layers =
     (case hm_get steps name of
        None \<Rightarrow> Panic
      | Some step \<Rightarrow>
          let ls = List.map_filter (hm_get layers) (sd_depends_on step);
              layer = (if ls = [] then 0 else Max (set ls) + 1)
          in layers_loop steps names (bt_insert name layer layers))"

definition dag_layers :: "workflow_dag \<Rightarrow> (string, nat) hmap outcome" where
  "dag_layers dag = layers_loop (dag_steps dag) (dag_order dag) []"

type_synonym statuses = "(string, step_status) hmap"

definition ready_steps :: "workflow_dag \<Rightarrow> statuses \<Rightarrow> step_def list" where
  "ready_steps dag st =
     filter (\<lambda>s. hm_get st (sd_name s) = Some Blocked
               \<and> list_all (\<lambda>dep. hm_get st dep = Some Success) (sd_depends_on s))
       (steps_in_order dag)"

definition is_blocker :: "statuses \<Rightarrow> (string, string) hmap \<Rightarrow> string \<Rightarrow> bool" where
  "is_blocker st doomed dep =
     (hm_contains doomed dep \<or> hm_get st dep = Some Failed \<or> hm_get st dep = Some Skipped)"

fun doomed_loop ::
  "step_map \<Rightarrow> statuses \<Rightarrow> string list \<Rightarrow> (string, string) hmap \<Rightarrow> (string, string) hmap outcome" where
  "doomed_loop steps st [] doomed = Ret doomed"
| "doomed_loop steps st (name # names) doomed =
     (case hm_get steps name of
        None \<Rightarrow> Panic
      | Some step \<Rightarrow>
          if hm_get st name \<noteq> Some Blocked \<and> hm_get st name \<noteq> Some Ready
          then doomed_loop steps st names doomed
          else case List.find (is_blocker st doomed) (sd_depends_on step) of
                 None \<Rightarrow> doomed_loop steps st names doomed
               | Some blocker \<Rightarrow> doomed_loop steps st names (bt_insert (sd_name step) blocker doomed))"

definition doomed_steps :: "workflow_dag \<Rightarrow> statuses \<Rightarrow> (step_def \<times> string) list outcome" where
  "doomed_steps dag st =
     (case doomed_loop (dag_steps dag) st (dag_order dag) [] of
        Panic \<Rightarrow> Panic
      | Ret doomed \<Rightarrow>
          Ret (List.map_filter (\<lambda>(name, blocker). map_option (\<lambda>step. (step, blocker)) (hm_get (dag_steps dag) name)) doomed))"

subsection \<open>Ordered maps\<close>

lemma hm_get_bt_insert [simp, hm_simps]:
  "hm_get (bt_insert k v m) k' = (if k' = k then Some v else hm_get m k')"
  by (induction k v m rule: bt_insert.induct) auto

lemma set_keys_bt_insert: "fst ` set (bt_insert k v m) = insert k (fst ` set m)"
  by (induction k v m rule: bt_insert.induct) auto

lemma sorted_bt_insert [simp]:
  "sorted_wrt (<) (map fst m) \<Longrightarrow> sorted_wrt (<) (map fst (bt_insert k v m))"
proof (induction k v m rule: bt_insert.induct)
  case (2 k v k' v' m)
  have "\<forall>x \<in> set (map fst (bt_insert k v m)). k' < x" if "k' < k"
    unfolding set_map set_keys_bt_insert using 2(2) that by auto
  then show ?case using 2 by auto
qed simp

lemma length_bt_insert:
  "sorted_wrt (<) (map fst m) \<Longrightarrow> hm_get m k = None \<Longrightarrow> length (bt_insert k v m) = Suc (length m)"
  by (induction k v m rule: bt_insert.induct) (auto split: if_splits)

subsection \<open>The edges the code counts\<close>

definition step_edges :: "step_def list \<Rightarrow> (string \<times> string) list" where
  "step_edges ss = concat (map (\<lambda>s. map (\<lambda>d. (d, sd_name s)) (sd_depends_on s)) ss)"

definition steps_ok :: "step_map \<Rightarrow> bool" where
  "steps_ok steps \<longleftrightarrow> sorted_wrt (<) (map fst steps) \<and> (\<forall>(n, s) \<in> set steps. sd_name s = n)"

lemma steps_ok_distinct: "steps_ok steps \<Longrightarrow> distinct (map fst steps)"
  by (simp add: steps_ok_def strict_sorted_iff)

lemma steps_ok_names: "steps_ok steps \<Longrightarrow> map sd_name (map snd steps) = map fst steps"
  by (auto simp: steps_ok_def)

lemma set_step_edges: "set (step_edges ss) = {(d, sd_name s) | d s. s \<in> set ss \<and> d \<in> set (sd_depends_on s)}"
  by (auto simp: step_edges_def)

lemma in_edges_step_edges_Cons:
  "in_edges (step_edges (s # ss)) {} n =
     (if sd_name s = n then length (sd_depends_on s) else 0) + in_edges (step_edges ss) {} n"
  by (simp add: step_edges_def in_edges_def filter_map comp_def)

abbreviation lookup_list :: "(string, string list) hmap \<Rightarrow> string \<Rightarrow> string list" where
  "lookup_list m k \<equiv> (case hm_get m k of None \<Rightarrow> [] | Some l \<Rightarrow> l)"

lemma count_deps_effect:
  assumes "hm_get ind name = Some d" and "sorted_wrt (<) (map fst ind)"
  shows "\<exists>ind' dep'. count_deps name deps (ind, dep) = Ret (ind', dep') \<and> sorted_wrt (<) (map fst ind')
    \<and> (\<forall>n. hm_get ind' n = (if n = name then Some (d + length deps) else hm_get ind n))
    \<and> (\<forall>u w. count_list (lookup_list dep' u) w =
          count_list (lookup_list dep u) w + (if w = name then count_list deps u else 0))"
  using assms
proof (induction deps arbitrary: ind dep d)
  case (Cons x deps)
  let ?dep = "bt_insert x (lookup_list dep x @ [name]) dep"
  obtain ind' dep' where R: "count_deps name deps (bt_insert name (d + 1) ind, ?dep) = Ret (ind', dep')"
    "sorted_wrt (<) (map fst ind')"
    "\<forall>n. hm_get ind' n = (if n = name then Some (d + 1 + length deps) else hm_get (bt_insert name (d + 1) ind) n)"
    "\<forall>u w. count_list (lookup_list dep' u) w =
        count_list (lookup_list ?dep u) w + (if w = name then count_list deps u else 0)"
    using Cons.IH [of "bt_insert name (d + 1) ind" "d + 1" ?dep] Cons.prems by auto
  then show ?case using Cons.prems by auto
qed auto

lemma count_steps_effect:
  assumes "\<forall>s \<in> set ss. hm_get ind (sd_name s) \<noteq> None" and "sorted_wrt (<) (map fst ind)"
  shows "\<exists>ind' dep'. count_steps ss (ind, dep) = Ret (ind', dep') \<and> sorted_wrt (<) (map fst ind')
    \<and> (\<forall>n. hm_get ind' n = map_option (\<lambda>d. d + in_edges (step_edges ss) {} n) (hm_get ind n))
    \<and> (\<forall>u w. count_list (lookup_list dep' u) w = count_list (lookup_list dep u) w + count_list (step_edges ss) (u, w))"
  using assms
proof (induction ss arbitrary: ind dep)
  case (Cons s ss)
  obtain d where d: "hm_get ind (sd_name s) = Some d" using Cons.prems by auto
  obtain ind1 dep1 where 1: "count_deps (sd_name s) (sd_depends_on s) (ind, dep) = Ret (ind1, dep1)"
    "sorted_wrt (<) (map fst ind1)"
    "\<forall>n. hm_get ind1 n = (if n = sd_name s then Some (d + length (sd_depends_on s)) else hm_get ind n)"
    "\<forall>u w. count_list (lookup_list dep1 u) w =
        count_list (lookup_list dep u) w + (if w = sd_name s then count_list (sd_depends_on s) u else 0)"
    using count_deps_effect [OF d Cons.prems(2)] by blast
  have "\<forall>t \<in> set ss. hm_get ind1 (sd_name t) \<noteq> None" using Cons.prems 1(3) by simp
  from Cons.IH [OF this 1(2), of dep1] obtain ind' dep' where 2:
    "count_steps ss (ind1, dep1) = Ret (ind', dep')" "sorted_wrt (<) (map fst ind')"
    "\<forall>n. hm_get ind' n = map_option (\<lambda>d. d + in_edges (step_edges ss) {} n) (hm_get ind1 n)"
    "\<forall>u w. count_list (lookup_list dep' u) w = count_list (lookup_list dep1 u) w + count_list (step_edges ss) (u, w)"
    by blast
  have pairs: "count_list (map (\<lambda>d. (d, m)) ds) (u, w) = (if w = m then count_list ds u else 0)" for ds u w and m :: string
    by (induction ds) auto
  have E: "count_list (step_edges (s # ss)) (u, w) =
      (if w = sd_name s then count_list (sd_depends_on s) u else 0) + count_list (step_edges ss) (u, w)" for u w
    by (simp add: step_edges_def pairs)
  show ?case
    using 1 2 d by (simp add: E in_edges_step_edges_Cons algebra_simps)
qed (auto simp: option.map_ident step_edges_def in_edges_def)

subsection \<open>Validation accepts exactly the acyclic workflows\<close>

definition cyclic_part :: "step_def list \<Rightarrow> string set" where
  "cyclic_part ss =
     {v \<in> sd_name ` set ss. \<exists>c. (c, c) \<in> (set (step_edges ss))\<^sup>+ \<and> (c, v) \<in> (set (step_edges ss))\<^sup>*}"

lemma step_sets_cong:
  assumes "set ss = set ts"
  shows "set (step_edges ss) = set (step_edges ts)" "cyclic_part ss = cyclic_part ts"
    and "topo_sorted (step_edges ss) = topo_sorted (step_edges ts)"
proof -
  show *: "set (step_edges ss) = set (step_edges ts)" using assms by (simp add: set_step_edges)
  then show "cyclic_part ss = cyclic_part ts" using assms by (simp add: cyclic_part_def)
  show "topo_sorted (step_edges ss) = topo_sorted (step_edges ts)"
    using * by (simp add: topo_sorted_def fun_eq_iff)
qed

lemma steps_ok_keys: "steps_ok steps \<Longrightarrow> sd_name ` snd ` set steps = fst ` set steps"
  using steps_ok_names [of steps] by (metis set_map)

lemma topo_order_result:
  assumes ok: "steps_ok steps" and known: "\<forall>s \<in> snd ` set steps. set (sd_depends_on s) \<subseteq> fst ` set steps"
  defines "E \<equiv> step_edges (map snd steps)"
  shows "\<exists>order ns. topo_order steps = Ret (if acyclic (set E) then Inr order else Inl (Cycle ns))
    \<and> distinct order \<and> topo_sorted E order \<and> (acyclic (set E) \<longrightarrow> set order = fst ` set steps)
    \<and> sorted ns \<and> distinct ns \<and> set ns = cyclic_part (map snd steps)"
proof -
  let ?V = "fst ` set steps" and ?ind = "map (\<lambda>(name, _). (name, 0)) steps :: (string, nat) hmap"
  have names: "\<forall>s \<in> snd ` set steps. sd_name s \<in> ?V" using ok by (force simp: steps_ok_def)
  have fst0: "map fst ?ind = map fst steps" by (induction steps) auto
  have get0: "hm_get ?ind n = (if n \<in> ?V then Some 0 else None)" for n
    by (induction steps) auto
  have pre: "\<forall>s \<in> set (map snd steps). hm_get ?ind (sd_name s) \<noteq> None" using names get0 by auto
  have srt: "sorted_wrt (<) (map fst ?ind)" unfolding fst0 using ok by (simp add: steps_ok_def)
  obtain ind dep where C: "count_steps (map snd steps) (?ind, []) = Ret (ind, dep)"
    "sorted_wrt (<) (map fst ind)"
    "\<forall>n. hm_get ind n = map_option (\<lambda>d. d + in_edges E {} n) (hm_get ?ind n)"
    "\<forall>u w. count_list (lookup_list dep u) w = count_list (lookup_list [] u) w + count_list E (u, w)"
    unfolding E_def using count_steps_effect [OF pre srt, of "[]"] by blast
  have deg: "hm_get ind n = (if n \<in> ?V then Some (in_edges E {} n) else None)" for n
    using C(3) get0 by simp
  have E: "set E \<subseteq> ?V \<times> ?V" using known names by (auto simp: E_def set_step_edges)
  let ?q = "map fst (filter (\<lambda>(_, deg). deg = 0) ind)"
  have d: "distinct (map fst ind)" using C(2) by (simp add: strict_sorted_iff)
  have q: "distinct ?q" using d by (simp add: distinct_map_filter)
  have "v \<in> set ?q \<longleftrightarrow> hm_get ind v = Some 0" for v
    using map_of_eq_Some_iff [OF d, of v 0] by force
  also have "\<dots> v \<longleftrightarrow> v \<in> ?V \<and> in_edges E {} v = 0" for v unfolding deg [of v] by (cases "v \<in> ?V") simp_all
  finally have "set ?q = {v \<in> ?V. in_edges E {} v = 0}" by blast
  with q have "kahn_inv ?V E ind ?q []" using deg by (intro kahn_inv_start) auto
  from kahn_loop_inv [OF this E, of "lookup_list dep"] C(4)
  obtain ind' order where K: "kahn_loop (lookup_list dep) ind ?q [] = Ret (ind', order)" "kahn_inv ?V E ind' [] order"
    by auto
  let ?ns = "sort (map fst (filter (\<lambda>(_, deg). 0 < deg) ind'))"
  have d': "distinct (map fst ind')" using kahn_loop_wf [OF K(1)] d by (simp add: hm_wf_def)
  have order: "distinct order" "topo_sorted E order" "set order \<subseteq> ?V" using K(2) by (auto simp: kahn_inv_def)
  have "v \<in> set ?ns \<longleftrightarrow> (\<exists>n. hm_get ind' v = Some n \<and> 0 < n)" for v
    using map_of_eq_Some_iff [OF d', of v] by force
  also have "\<dots> v \<longleftrightarrow> v \<in> ?V \<and> v \<notin> set order" for v using K(2) by (auto simp: kahn_inv_def split: if_splits)
  finally have "set ?ns = cyclic_part (map snd steps)"
    using kahn_unplaced_iff [OF K(2) E] steps_ok_keys [OF ok] unfolding cyclic_part_def E_def set_map by blast
  moreover have "distinct ?ns" using d' by (simp add: distinct_map_filter)
  moreover have "acyclic (set E) \<longleftrightarrow> set order = ?V" using kahn_complete_iff [OF K(2) E] by simp
  moreover have "length order = length steps \<longleftrightarrow> set order = ?V"
  proof -
    have "card ?V = length steps" using distinct_card [OF steps_ok_distinct [OF ok]] by simp
    then show ?thesis using order distinct_card [OF order(1)] card_subset_eq [of ?V "set order"] by auto
  qed
  ultimately show ?thesis
    using C(1) K(1) order by (intro exI [of _ order] exI [of _ ?ns]) (simp add: topo_order_def Let_def)
qed

lemma check_deps_None: "check_deps steps n deps = None \<longleftrightarrow> (\<forall>d \<in> set deps. d \<noteq> n \<and> hm_contains steps d)"
  by (induction deps) auto

lemma check_steps_None:
  "check_steps steps ss = None \<longleftrightarrow>
     (\<forall>s \<in> set ss. \<forall>d \<in> set (sd_depends_on s). d \<noteq> sd_name s \<and> hm_contains steps d)"
proof (induction ss)
  case (Cons s ss)
  then show ?case
    using check_deps_None [of steps "sd_name s" "sd_depends_on s"]
    by (cases "check_deps steps (sd_name s) (sd_depends_on s)") auto
qed simp

lemma collect_steps_result:
  assumes "steps_ok m"
  shows "case collect_steps ss m of
      Inr steps \<Rightarrow> steps_ok steps \<and> snd ` set steps = snd ` set m \<union> set ss
        \<and> length steps = length m + length ss
        \<and> distinct (map sd_name ss) \<and> (\<forall>s \<in> set ss. sd_name s \<notin> fst ` set m)
    | Inl e \<Rightarrow> (\<exists>n. e = DuplicateStep n) \<and> \<not> (distinct (map sd_name ss) \<and> (\<forall>s \<in> set ss. sd_name s \<notin> fst ` set m))"
  using assms
proof (induction ss arbitrary: m)
  case (Cons s ss)
  show ?case
  proof (cases "hm_contains m (sd_name s)")
    case True
    then have "sd_name s \<in> fst ` set m" by (auto simp: hm_contains_def hm_get_eq_None_iff)
    then show ?thesis using True by auto
  next
    case False
    then have new: "sd_name s \<notin> fst ` set m" by (simp add: hm_contains_def hm_get_eq_None_iff)
    have set: "set (bt_insert (sd_name s) s m) = insert (sd_name s, s) (set m)"
      using new by (induction "sd_name s" s m rule: bt_insert.induct) auto
    have ok: "steps_ok (bt_insert (sd_name s) s m)" using Cons.prems set by (auto simp: steps_ok_def)
    have len: "length (bt_insert (sd_name s) s m) = Suc (length m)"
      using Cons.prems False by (intro length_bt_insert) (auto simp: steps_ok_def hm_contains_def)
    show ?thesis using Cons.IH [OF ok] False new set len by (auto split: sum.splits intro: rev_image_eqI)
  qed
qed simp

definition well_formed_workflow :: "workflow_def \<Rightarrow> bool" where
  "well_formed_workflow wd \<longleftrightarrow>
     wd_steps wd \<noteq> [] \<and> distinct (map sd_name (wd_steps wd))
     \<and> (\<forall>s \<in> set (wd_steps wd). \<forall>d \<in> set (sd_depends_on s). d \<noteq> sd_name s \<and> d \<in> sd_name ` set (wd_steps wd))"

lemma check_deps_kind: "check_deps steps n deps = Some e \<Longrightarrow> e \<in> range SelfDependency \<union> (\<Union>n. range (UnknownDependency n))"
  by (induction deps) (auto split: if_splits)

lemma check_steps_kind: "check_steps steps ss = Some e \<Longrightarrow> e \<in> range SelfDependency \<union> (\<Union>n. range (UnknownDependency n))"
  by (induction ss) (auto split: option.splits dest!: check_deps_kind)

lemma dag_validate_cases:
  defines "E wd \<equiv> step_edges (wd_steps wd)"
  shows "if wd_steps wd = [] then dag_validate wd = Ret (Inl DagEmpty)
    else if \<not> distinct (map sd_name (wd_steps wd)) then \<exists>n. dag_validate wd = Ret (Inl (DuplicateStep n))
    else if \<not> well_formed_workflow wd
      then \<exists>e. dag_validate wd = Ret (Inl e) \<and> e \<in> range SelfDependency \<union> (\<Union>n. range (UnknownDependency n))
    else if acyclic (set (E wd))
      then \<exists>dag. dag_validate wd = Ret (Inr dag) \<and> steps_ok (dag_steps dag) \<and> snd ` set (dag_steps dag) = set (wd_steps wd)
        \<and> distinct (dag_order dag) \<and> set (dag_order dag) = sd_name ` set (wd_steps wd) \<and> topo_sorted (E wd) (dag_order dag)
    else \<exists>ns. dag_validate wd = Ret (Inl (Cycle ns)) \<and> sorted ns \<and> distinct ns \<and> set ns = cyclic_part (wd_steps wd)"
proof (cases "wd_steps wd = [] \<or> \<not> distinct (map sd_name (wd_steps wd))")
  case True
  have "steps_ok []" by (simp add: steps_ok_def)
  from collect_steps_result [OF this, of "wd_steps wd"] True show ?thesis
    by (auto simp: dag_validate_def split: sum.splits)
next
  case False
  have ok0: "steps_ok []" by (simp add: steps_ok_def)
  obtain steps where S: "collect_steps (wd_steps wd) [] = Inr steps" "steps_ok steps" "snd ` set steps = set (wd_steps wd)"
    using collect_steps_result [OF ok0, of "wd_steps wd"] False by (auto split: sum.splits)
  have keys: "fst ` set steps = sd_name ` set (wd_steps wd)" using steps_ok_keys [OF S(2)] S(3) by simp
  have wf: "well_formed_workflow wd \<longleftrightarrow> check_steps steps (map snd steps) = None"
    using False S(3) keys by (simp add: well_formed_workflow_def check_steps_None hm_contains_def hm_get_eq_None_iff)
  show ?thesis
  proof (cases "well_formed_workflow wd")
    case nwf: False
    then obtain e where "check_steps steps (map snd steps) = Some e" using wf by auto
    then show ?thesis using False S(1) nwf check_steps_kind by (auto simp: dag_validate_def)
  next
    case True
    have known: "\<forall>s \<in> snd ` set steps. set (sd_depends_on s) \<subseteq> fst ` set steps"
      using True S(3) keys by (auto simp: well_formed_workflow_def)
    have sets: "set (map snd steps) = set (wd_steps wd)" using S(3) by simp
    note cong = step_sets_cong [OF sets]
    from topo_order_result [OF S(2) known] obtain ord ns where T:
      "topo_order steps = Ret (if acyclic (set (E wd)) then Inr ord else Inl (Cycle ns))"
      "distinct ord" "topo_sorted (E wd) ord" "acyclic (set (E wd)) \<longrightarrow> set ord = fst ` set steps"
      "sorted ns" "distinct ns" "set ns = cyclic_part (wd_steps wd)"
      unfolding cong E_def by blast
    show ?thesis
      using False True S wf T keys by (simp add: dag_validate_def)
  qed
qed


subsection \<open>Layers, ready and doomed steps\<close>

definition dag_ok :: "workflow_dag \<Rightarrow> bool" where
  "dag_ok dag \<longleftrightarrow> steps_ok (dag_steps dag) \<and> distinct (dag_order dag)
     \<and> set (dag_order dag) = fst ` set (dag_steps dag)
     \<and> topo_sorted (step_edges (map snd (dag_steps dag))) (dag_order dag)"

lemma dag_validate_ok: "dag_validate wd = Ret (Inr dag) \<Longrightarrow> dag_ok dag"
proof -
  assume v: "dag_validate wd = Ret (Inr dag)"
  then have ok: "steps_ok (dag_steps dag)" "snd ` set (dag_steps dag) = set (wd_steps wd)"
    "distinct (dag_order dag)" "set (dag_order dag) = sd_name ` set (wd_steps wd)"
    "topo_sorted (step_edges (wd_steps wd)) (dag_order dag)"
    using dag_validate_cases [of wd] by (auto split: if_splits)
  moreover have "topo_sorted (step_edges (map snd (dag_steps dag))) (dag_order dag)"
    using ok(2,5) step_sets_cong(3) [of "map snd (dag_steps dag)" "wd_steps wd"] by simp
  ultimately show ?thesis using steps_ok_keys [OF ok(1)] by (simp add: dag_ok_def)
qed

lemma dag_ok_step:
  assumes ok: "dag_ok dag" and o: "dag_order dag = xs @ n # ys"
  obtains s where "hm_get (dag_steps dag) n = Some s" "sd_name s = n" "set (sd_depends_on s) \<subseteq> set xs"
proof -
  have so: "steps_ok (dag_steps dag)" using ok by (simp add: dag_ok_def)
  have "n \<in> fst ` set (dag_steps dag)" using ok o by (auto simp: dag_ok_def)
  then obtain s where s: "hm_get (dag_steps dag) n = Some s" by (metis hm_get_eq_None_iff option.exhaust)
  then have m: "(n, s) \<in> set (dag_steps dag)" by (rule hm_get_SomeD)
  then have n: "sd_name s = n" using so by (auto simp: steps_ok_def)
  have "(d, n) \<in> set (step_edges (map snd (dag_steps dag)))" if "d \<in> set (sd_depends_on s)" for d
    using m n that by (force simp: set_step_edges)
  then have "set (sd_depends_on s) \<subseteq> set xs" using ok o by (auto simp: dag_ok_def topo_sorted_def)
  then show ?thesis using that s n by blast
qed

definition layers_ok :: "step_map \<Rightarrow> string set \<Rightarrow> (string, nat) hmap \<Rightarrow> bool" where
  "layers_ok steps done ls \<longleftrightarrow> (\<forall>n. n \<in> done \<longleftrightarrow> hm_get ls n \<noteq> None)
     \<and> (\<forall>n \<in> done. \<exists>s. hm_get steps n = Some s \<and> set (sd_depends_on s) \<subseteq> done
         \<and> hm_get ls n = Some (if sd_depends_on s = [] then 0
             else Suc (Max ((\<lambda>d. the (hm_get ls d)) ` set (sd_depends_on s)))))"

lemma set_map_filter_all: "\<forall>x \<in> set xs. f x \<noteq> None \<Longrightarrow> List.map_filter f xs = map (the \<circ> f) xs"
  by (induction xs) (auto simp: List.map_filter_def)

lemma layers_loop_ok:
  assumes "dag_ok dag" and "dag_order dag = xs @ ys" and "layers_ok (dag_steps dag) (set xs) ls"
  shows "\<exists>ls'. layers_loop (dag_steps dag) ys ls = Ret ls' \<and> layers_ok (dag_steps dag) (set (xs @ ys)) ls'"
  using assms(2,3)
proof (induction ys arbitrary: xs ls)
  case (Cons n ys)
  from dag_ok_step [OF assms(1) Cons.prems(1)] obtain s where
    s: "hm_get (dag_steps dag) n = Some s" "set (sd_depends_on s) \<subseteq> set xs" by blast
  have new: "n \<notin> set xs" using assms(1) Cons.prems(1) by (auto simp: dag_ok_def)
  let ?l = "if sd_depends_on s = [] then 0 else Suc (Max ((\<lambda>d. the (hm_get ls d)) ` set (sd_depends_on s)))"
  let ?ls = "bt_insert n ?l ls"
  have mf: "List.map_filter (hm_get ls) (sd_depends_on s) = map (the \<circ> hm_get ls) (sd_depends_on s)"
    using s(2) Cons.prems(2) by (intro set_map_filter_all) (auto simp: layers_ok_def)
  have step: "layers_loop (dag_steps dag) (n # ys) ls = layers_loop (dag_steps dag) ys ?ls"
    using s(1) mf by (simp add: Let_def comp_def)
  have "layers_ok (dag_steps dag) (set (xs @ [n])) ?ls"
    unfolding layers_ok_def
  proof (intro conjI allI ballI)
    fix m show "(m \<in> set (xs @ [n])) = (hm_get ?ls m \<noteq> None)"
      using Cons.prems(2) by (simp add: layers_ok_def)
  next
    fix m assume m: "m \<in> set (xs @ [n])"
    have same: "(\<lambda>d. the (hm_get ?ls d)) ` D = (\<lambda>d. the (hm_get ls d)) ` D" if "D \<subseteq> set xs" for D
      using that new by (intro image_cong) auto
    show "\<exists>s. hm_get (dag_steps dag) m = Some s \<and> set (sd_depends_on s) \<subseteq> set (xs @ [n])
        \<and> hm_get ?ls m = Some (if sd_depends_on s = [] then 0
            else Suc (Max ((\<lambda>d. the (hm_get ?ls d)) ` set (sd_depends_on s))))"
    proof (cases "m = n")
      case True
      show ?thesis unfolding True
        by (rule exI [of _ s], unfold same [OF s(2)]) (use s in auto)
    next
      case False
      then have "m \<in> set xs" using m by simp
      from Cons.prems(2) [unfolded layers_ok_def, THEN conjunct2, THEN bspec, OF this]
      obtain t where "hm_get (dag_steps dag) m = Some t" "set (sd_depends_on t) \<subseteq> set xs"
        "hm_get ls m = Some (if sd_depends_on t = [] then 0 else Suc (Max ((\<lambda>d. the (hm_get ls d)) ` set (sd_depends_on t))))"
        by blast
      then show ?thesis using False by (intro exI [of _ t]) (auto simp: same simp del: hm_get_bt_insert, simp_all)
    qed
  qed
  then show ?case using Cons.IH [of "xs @ [n]" ?ls] Cons.prems(1) step by simp
qed auto

inductive doomed :: "step_map \<Rightarrow> statuses \<Rightarrow> string \<Rightarrow> bool" for steps st where
  doomed_failed: "hm_get steps n = Some s \<Longrightarrow> hm_get st n = Some Blocked \<or> hm_get st n = Some Ready \<Longrightarrow>
    d \<in> set (sd_depends_on s) \<Longrightarrow> hm_get st d = Some Failed \<or> hm_get st d = Some Skipped \<Longrightarrow> doomed steps st n"
| doomed_waits: "hm_get steps n = Some s \<Longrightarrow> hm_get st n = Some Blocked \<or> hm_get st n = Some Ready \<Longrightarrow>
    d \<in> set (sd_depends_on s) \<Longrightarrow> doomed steps st d \<Longrightarrow> doomed steps st n"

inductive_simps doomed_iff: "doomed steps st n"

lemma doomed_waiting: "doomed steps st n \<Longrightarrow> hm_get st n = Some Blocked \<or> hm_get st n = Some Ready"
  by (erule doomed.cases) auto

lemma doomed_loop_exact:
  assumes "dag_ok dag" and "dag_order dag = xs @ ys" and "sorted_wrt (<) (map fst dm)"
    and "\<forall>n. hm_contains dm n \<longleftrightarrow> n \<in> set xs \<and> doomed (dag_steps dag) st n"
    and "\<forall>n b. hm_get dm n = Some b \<longrightarrow> (\<exists>s. hm_get (dag_steps dag) n = Some s \<and> b \<in> set (sd_depends_on s))
      \<and> (hm_get st b = Some Failed \<or> hm_get st b = Some Skipped \<or> doomed (dag_steps dag) st b)"
  shows "\<exists>dm'. doomed_loop (dag_steps dag) st ys dm = Ret dm' \<and> sorted_wrt (<) (map fst dm')
    \<and> (\<forall>n. hm_contains dm' n \<longleftrightarrow> n \<in> set (xs @ ys) \<and> doomed (dag_steps dag) st n)
    \<and> (\<forall>n b. hm_get dm' n = Some b \<longrightarrow> (\<exists>s. hm_get (dag_steps dag) n = Some s \<and> b \<in> set (sd_depends_on s))
      \<and> (hm_get st b = Some Failed \<or> hm_get st b = Some Skipped \<or> doomed (dag_steps dag) st b))"
  using assms(2-)
proof (induction ys arbitrary: xs dm)
  case (Cons n ys)
  from dag_ok_step [OF assms(1) Cons.prems(1)] obtain s where
    s: "hm_get (dag_steps dag) n = Some s" "sd_name s = n" "set (sd_depends_on s) \<subseteq> set xs" by blast
  let ?D = "doomed (dag_steps dag) st"
  have blk: "is_blocker st dm d \<longleftrightarrow> hm_get st d = Some Failed \<or> hm_get st d = Some Skipped \<or> ?D d"
    if "d \<in> set (sd_depends_on s)" for d
    using that s(3) Cons.prems(3) by (auto simp: is_blocker_def)
  let ?waiting = "hm_get st n = Some Blocked \<or> hm_get st n = Some Ready"
  have Dn: "?D n \<longleftrightarrow> ?waiting \<and> (\<exists>d \<in> set (sd_depends_on s). is_blocker st dm d)"
    using s(1) blk by (auto simp: doomed_iff [of _ _ n])
  let ?dm = "if ?waiting then (case List.find (is_blocker st dm) (sd_depends_on s) of
      None \<Rightarrow> dm | Some b \<Rightarrow> bt_insert n b dm) else dm"
  have step: "doomed_loop (dag_steps dag) st (n # ys) dm = doomed_loop (dag_steps dag) st ys ?dm"
    using s by (auto split: option.splits)
  have 1: "sorted_wrt (<) (map fst ?dm)" using Cons.prems(2) by (auto split: option.splits)
  have keys: "\<forall>m. hm_contains ?dm m \<longleftrightarrow> m \<in> set (xs @ [n]) \<and> ?D m"
    using Cons.prems(3) Dn by (auto simp: hm_contains_def find_None_iff find_Some_iff split: option.splits)
  have blockers: "\<forall>m b. hm_get ?dm m = Some b \<longrightarrow> (\<exists>s. hm_get (dag_steps dag) m = Some s \<and> b \<in> set (sd_depends_on s))
      \<and> (hm_get st b = Some Failed \<or> hm_get st b = Some Skipped \<or> ?D b)"
    using Cons.prems(4) s(1) blk by (auto simp: find_Some_iff split: option.splits if_splits)
  show ?case using Cons.IH [of "xs @ [n]" ?dm, OF _ 1 keys blockers] Cons.prems(1) step by simp
qed auto

lemma steps_in_order_set:
  assumes "dag_ok dag"
  shows "set (steps_in_order dag) = snd ` set (dag_steps dag)"
proof -
  have d: "distinct (map fst (dag_steps dag))" using assms by (auto simp: dag_ok_def intro: steps_ok_distinct)
  have "set (steps_in_order dag) = {s. \<exists>n \<in> fst ` set (dag_steps dag). hm_get (dag_steps dag) n = Some s}"
    using assms by (simp add: steps_in_order_def set_map_filter dag_ok_def)
  also have "\<dots> = snd ` set (dag_steps dag)"
    using map_of_eq_Some_iff [OF d] by (force simp: image_iff)
  finally show ?thesis .
qed

lemma doomed_steps_result:
  assumes ok: "dag_ok dag"
  shows "\<exists>ds. doomed_steps dag st = Ret ds \<and> sd_name ` fst ` set ds = {n. doomed (dag_steps dag) st n}
    \<and> (\<forall>(s, b) \<in> set ds. b \<in> set (sd_depends_on s)
        \<and> (hm_get st b = Some Failed \<or> hm_get st b = Some Skipped \<or> doomed (dag_steps dag) st b))"
proof -
  let ?S = "dag_steps dag"
  obtain dm where D: "doomed_loop ?S st (dag_order dag) [] = Ret dm" "sorted_wrt (<) (map fst dm)"
    "\<forall>n. hm_contains dm n \<longleftrightarrow> n \<in> set (dag_order dag) \<and> doomed ?S st n"
    "\<forall>n b. hm_get dm n = Some b \<longrightarrow> (\<exists>s. hm_get ?S n = Some s \<and> b \<in> set (sd_depends_on s))
      \<and> (hm_get st b = Some Failed \<or> hm_get st b = Some Skipped \<or> doomed ?S st b)"
    using doomed_loop_exact [OF ok, of "[]" "dag_order dag" "[]" st] by (auto simp: hm_contains_def)
  have d: "distinct (map fst dm)" using D(2) by (simp add: strict_sorted_iff)
  let ?ds = "List.map_filter (\<lambda>(name, b). map_option (\<lambda>step. (step, b)) (hm_get ?S name)) dm"
  have mem: "(s, b) \<in> set ?ds \<longleftrightarrow> (\<exists>n. hm_get dm n = Some b \<and> hm_get ?S n = Some s)" for s b
    using map_of_eq_Some_iff [OF d] by (force simp: set_map_filter)
  have nm: "sd_name s = n" if "hm_get ?S n = Some s" for n s
    using ok hm_get_SomeD [OF that] by (auto simp: dag_ok_def steps_ok_def)
  have ordered: "n \<in> set (dag_order dag)" if "doomed ?S st n" for n
    using that ok by (auto simp: doomed_iff [of _ _ n] dag_ok_def dest!: hm_get_SomeD intro: rev_image_eqI)
  have "sd_name ` fst ` set ?ds = {n. hm_contains dm n}"
  proof (intro set_eqI iffI)
    fix n assume "n \<in> sd_name ` fst ` set ?ds"
    then show "n \<in> {n. hm_contains dm n}" using mem nm by (force simp: hm_contains_def)
  next
    fix n assume "n \<in> {n. hm_contains dm n}"
    then obtain b where "hm_get dm n = Some b" by (auto simp: hm_contains_def)
    moreover then obtain s where "hm_get ?S n = Some s" using D(4) by blast
    ultimately show "n \<in> sd_name ` fst ` set ?ds" using mem nm by (force simp: image_iff)
  qed
  also have "\<dots> = {n. doomed ?S st n}" using D(3) ordered by blast
  finally have "sd_name ` fst ` set ?ds = {n. doomed ?S st n}" .
  moreover have "\<forall>(s, b) \<in> set ?ds. b \<in> set (sd_depends_on s)
      \<and> (hm_get st b = Some Failed \<or> hm_get st b = Some Skipped \<or> doomed ?S st b)"
    using mem D(4) by fastforce
  ultimately show ?thesis using D(1) by (simp add: doomed_steps_def)
qed

lemma ready_not_doomed:
  assumes ok: "dag_ok dag" and s: "s \<in> set (ready_steps dag st)"
  shows "\<not> doomed (dag_steps dag) st (sd_name s)"
proof -
  have st: "hm_get st d = Some Success" if "d \<in> set (sd_depends_on s)" for d
    using s that by (auto simp: ready_steps_def list_all_iff)
  have "s \<in> snd ` set (dag_steps dag)" using s steps_in_order_set [OF ok] by (auto simp: ready_steps_def)
  then have "hm_get (dag_steps dag) (sd_name s) = Some s"
    using ok by (auto simp: dag_ok_def steps_ok_def strict_sorted_iff intro!: map_of_is_SomeI)
  then show ?thesis using st doomed_waiting by (fastforce elim: doomed.cases)
qed

lemma progress_ok:
  assumes ok: "dag_ok dag" and some: "\<forall>m \<in> set (dag_order dag). hm_get st m \<noteq> None"
    and idle: "\<forall>m \<in> set (dag_order dag). hm_get st m \<noteq> Some Ready \<and> hm_get st m \<noteq> Some Dispatched"
    and n: "n \<in> set (dag_order dag)" "hm_get st n = Some Blocked"
  shows "ready_steps dag st \<noteq> [] \<or> (\<exists>m. doomed (dag_steps dag) st m)"
proof -
  obtain xs b ys where split: "dag_order dag = xs @ b # ys" "hm_get st b = Some Blocked"
      "\<forall>m \<in> set xs. hm_get st m \<noteq> Some Blocked"
    using split_list_first_prop [of "dag_order dag" "\<lambda>m. hm_get st m = Some Blocked"] n by auto
  from dag_ok_step [OF ok split(1)] obtain s where
    s: "hm_get (dag_steps dag) b = Some s" "sd_name s = b" "set (sd_depends_on s) \<subseteq> set xs" by blast
  have fin: "hm_get st d \<in> {Some Success, Some Failed, Some Skipped}" if "d \<in> set (sd_depends_on s)" for d
  proof -
    have "d \<in> set xs" using that s(3) by auto
    then show ?thesis using split some idle by (cases "hm_get st d"; cases "the (hm_get st d)") auto
  qed
  show ?thesis
  proof (cases "\<forall>d \<in> set (sd_depends_on s). hm_get st d = Some Success")
    case True
    have "s \<in> set (steps_in_order dag)" using hm_get_SomeD [OF s(1)] steps_in_order_set [OF ok] by force
    then have "s \<in> set (ready_steps dag st)" using True split(2) s(2) by (simp add: ready_steps_def list_all_iff)
    then show ?thesis by auto
  next
    case False
    then show ?thesis using fin doomed_failed [OF s(1), of st] split(2) by blast
  qed
qed

text \<open>
  C31. A run of a validated workflow cannot stall: while no step is ready or dispatched and some
  step is still blocked, there is a step to start or a step to skip.
\<close>

theorem workflow_progress:
  assumes "dag_validate wd = Ret (Inr dag)"
    and "\<forall>m \<in> set (dag_order dag). hm_get st m \<noteq> None"
    and "\<forall>m \<in> set (dag_order dag). hm_get st m \<noteq> Some Ready \<and> hm_get st m \<noteq> Some Dispatched"
    and "n \<in> set (dag_order dag)" and "hm_get st n = Some Blocked"
  shows "ready_steps dag st \<noteq> [] \<or> (\<exists>d ds. doomed_steps dag st = Ret (d # ds))"
proof -
  have ok: "dag_ok dag" using assms(1) by (rule dag_validate_ok)
  obtain ds where ds: "doomed_steps dag st = Ret ds" "sd_name ` fst ` set ds = {n. doomed (dag_steps dag) st n}"
    using doomed_steps_result [OF ok] by blast
  then have "ready_steps dag st \<noteq> [] \<or> ds \<noteq> []" using progress_ok [OF ok assms(2-5)] by auto
  then show ?thesis using ds(1) by (auto simp: neq_Nil_conv)
qed

text \<open>
  C32. The steps to skip are exactly those with a failed or skipped step upstream, reached through
  steps that wait; each is paired with a dependency that dooms it, and none of them is among the
  steps to start.
\<close>

theorem doomed_steps_exact:
  assumes "dag_validate wd = Ret (Inr dag)"
  shows "\<exists>ds. doomed_steps dag st = Ret ds \<and> sd_name ` fst ` set ds = {n. doomed (dag_steps dag) st n}
    \<and> (\<forall>(s, b) \<in> set ds. b \<in> set (sd_depends_on s)
        \<and> (hm_get st b = Some Failed \<or> hm_get st b = Some Skipped \<or> doomed (dag_steps dag) st b))
    \<and> sd_name ` set (ready_steps dag st) \<inter> {n. doomed (dag_steps dag) st n} = {}"
proof -
  have ok: "dag_ok dag" using assms(1) by (rule dag_validate_ok)
  then show ?thesis using doomed_steps_result [OF ok, of st] ready_not_doomed [OF ok] by blast
qed

text \<open>
  C33. The layer of a step of a validated workflow is zero when it depends on nothing and one more
  than the highest layer of its dependencies otherwise.
\<close>

theorem dag_layers_exact:
  assumes "dag_validate wd = Ret (Inr dag)"
  shows "\<exists>ls. dag_layers dag = Ret ls \<and>
    (\<forall>n \<in> set (dag_order dag). \<exists>s. hm_get (dag_steps dag) n = Some s
      \<and> hm_get ls n = Some (if sd_depends_on s = [] then 0
          else Suc (Max ((\<lambda>d. the (hm_get ls d)) ` set (sd_depends_on s)))))"
proof -
  have ok: "dag_ok dag" using assms(1) by (rule dag_validate_ok)
  have "layers_ok (dag_steps dag) (set []) []" by (simp add: layers_ok_def)
  from layers_loop_ok [OF ok _ this, of "dag_order dag"] obtain ls where
    "dag_layers dag = Ret ls" "layers_ok (dag_steps dag) (set (dag_order dag)) ls"
    by (auto simp: dag_layers_def)
  then show ?thesis unfolding layers_ok_def by blast
qed

definition sample_step :: "string \<Rightarrow> string list \<Rightarrow> step_def" where
  "sample_step n deps = \<lparr>sd_name = n, sd_path = ''/run'', sd_table = None, sd_payload = None, sd_depends_on = deps,
     sd_max_retries = None, sd_retry_strategy = None, sd_timeout = None\<rparr>"

definition sample_workflow :: workflow_def where
  "sample_workflow = \<lparr>wd_steps = [sample_step ''b'' [''a''], sample_step ''a'' [], sample_step ''c'' [''b'', ''a'']],
     wd_on_failure = Halt\<rparr>"

definition sample_dag :: workflow_dag where
  "sample_dag = \<lparr>dag_steps = [(''a'', sample_step ''a'' []), (''b'', sample_step ''b'' [''a'']),
     (''c'', sample_step ''c'' [''b'', ''a''])], dag_order = [''a'', ''b'', ''c'']\<rparr>"

lemma sample_validates: "dag_validate sample_workflow = Ret (Inr sample_dag)"
  by (simp add: sample_workflow_def sample_dag_def dag_validate_def sample_step_def hm_contains_def less_char_def
      topo_order_def Let_def)

theorem workflow_progress_witness:
  "\<exists>d ds. doomed_steps sample_dag [(''a'', Failed), (''b'', Blocked), (''c'', Blocked)] = Ret (d # ds)"
proof -
  let ?st = "[(''a'', Failed), (''b'', Blocked), (''c'', Blocked)]"
  have "ready_steps sample_dag ?st = []" by code_simp
  moreover have "ready_steps sample_dag ?st \<noteq> [] \<or> (\<exists>d ds. doomed_steps sample_dag ?st = Ret (d # ds))"
    by (rule workflow_progress [OF sample_validates, of _ "''b''"]) (simp_all add: sample_dag_def)
  ultimately show ?thesis by simp
qed

theorem doomed_steps_exact_witness:
  "\<exists>ds. doomed_steps sample_dag [(''a'', Failed), (''b'', Blocked)] = Ret ds
     \<and> sd_name ` fst ` set ds = {n. doomed (dag_steps sample_dag) [(''a'', Failed), (''b'', Blocked)] n}"
  using doomed_steps_exact [OF sample_validates, of "[(''a'', Failed), (''b'', Blocked)]"] by blast

theorem dag_layers_exact_witness:
  "\<exists>ls. dag_layers sample_dag = Ret ls \<and> hm_get ls ''a'' = Some 0"
  using dag_layers_exact [OF sample_validates] by (auto simp: sample_dag_def sample_step_def)

end
