(* ===== verification/Top_K.thy ===== *)
theory Top_K
  imports Incremental
begin

section \<open>The bounded window operator\<close>

text \<open>
  Model of \<^verbatim>\<open>TopK\<close> in \<^verbatim>\<open>operator/top_k.rs\<close>: a window \<^verbatim>\<open>[offset, offset + limit)\<close> of the
  input in sort order, read off a bounded sorted buffer. Records past the bound are dropped and
  the smallest of them becomes the boundary. The buffer is an \<^verbatim>\<open>indexset::BTreeSet\<close>, whose
  insertion and removal are the parameter \<open>ops\<close>; \<^verbatim>\<open>usize\<close> additions that the code writes
  saturating saturate here, the others are exact.
\<close>

record order_spec =
  os_field :: path
  os_direction :: string

type_synonym entry = "sort_key \<times> row_key"
type_synonym topk_ops = "entry set_ops"

record top_k =
  tk_limit :: nat
  tk_offset :: nat
  tk_order_by :: "order_spec list option"
  tk_buffer :: "entry list"
  tk_key_index :: "(row_key, sort_key) hmap"
  tk_capacity :: nat
  tk_boundary :: "entry option"

definition saturating_add :: "nat \<Rightarrow> nat \<Rightarrow> nat" where
  "saturating_add a b = min usize_max (a + b)"

definition topk_new :: "nat \<Rightarrow> nat \<Rightarrow> order_spec list option \<Rightarrow> top_k" where
  "topk_new limit offset order_by =
     (let slack = max limit 16;
          capacity = saturating_add (saturating_add offset limit) slack
      in \<lparr>tk_limit = limit, tk_offset = offset, tk_order_by = order_by, tk_buffer = [], tk_key_index = [],
          tk_capacity = capacity, tk_boundary = None\<rparr>)"

definition entry_less :: "entry \<Rightarrow> entry \<Rightarrow> bool" where
  "entry_less a b \<longleftrightarrow> entry_cmp a b = Less"

definition lower_boundary :: "entry \<Rightarrow> top_k \<Rightarrow> top_k" where
  "lower_boundary e tk =
     (case tk_boundary tk of
        None \<Rightarrow> tk\<lparr>tk_boundary := Some e\<rparr>
      | Some b \<Rightarrow> if entry_less e b then tk\<lparr>tk_boundary := Some e\<rparr> else tk)"

definition is_desc :: "order_spec \<Rightarrow> bool" where
  "is_desc ord = (map ascii_upper (os_direction ord) = ''DESC'')"

definition compute_sort_key :: "order_spec list option \<Rightarrow> row_key \<Rightarrow> store \<Rightarrow> sort_key" where
  "compute_sort_key order_by key s =
     (case order_by of
        Some orders \<Rightarrow>
          map (\<lambda>ord. sortable_from_value (resolve_field (get_row_by_key s key) (os_field ord)) (is_desc ord)) orders
      | None \<Rightarrow> [\<lparr>sv_scalar = SStr key, sv_descending = False\<rparr>])"

definition current_window :: "top_k \<Rightarrow> row_key list" where
  "current_window tk =
     (let n = length (tk_buffer tk)
      in if n \<le> tk_offset tk then []
         else let fin = min (tk_offset tk + tk_limit tk) n
              in map snd (take (fin - tk_offset tk) (drop (tk_offset tk) (tk_buffer tk))))"

definition topk_snapshot :: "top_k \<Rightarrow> store \<Rightarrow> zset list \<Rightarrow> zset" where
  "topk_snapshot tk s inputs =
     (let items = map (\<lambda>(key, _). (compute_sort_key (tk_order_by tk) key s, key))
                    (filter (\<lambda>(_, w). w_pos w) (inputs ! 0));
          sorted_items = cmp_sort entry_cmp items
      in fold (\<lambda>(_, key) out. hm_insert key 1 out) (take (tk_limit tk) (drop (tk_offset tk) sorted_items)) [])"

definition drop_key :: "topk_ops \<Rightarrow> row_key \<Rightarrow> top_k \<Rightarrow> top_k" where
  "drop_key ops key tk =
     (case hm_get (tk_key_index tk) key of
        None \<Rightarrow> tk
      | Some stale \<Rightarrow>
          tk\<lparr>tk_key_index := hm_remove key (tk_key_index tk),
             tk_buffer := snd (so_remove ops (stale, key) (tk_buffer tk))\<rparr>)"

definition evict_last :: "top_k \<Rightarrow> top_k" where
  "evict_last tk =
     (if tk_buffer tk = [] then tk
      else let evicted = last (tk_buffer tk)
           in lower_boundary evicted
                (tk\<lparr>tk_buffer := butlast (tk_buffer tk), tk_key_index := hm_remove (snd evicted) (tk_key_index tk)\<rparr>))"

definition admit_key :: "topk_ops \<Rightarrow> store \<Rightarrow> row_key \<Rightarrow> top_k \<Rightarrow> top_k" where
  "admit_key ops s key tk0 =
     (let tk = drop_key ops key tk0;
          e = (compute_sort_key (tk_order_by tk) key s, key);
          full_and_larger = (tk_capacity tk \<le> length (tk_buffer tk)
             \<and> (tk_buffer tk \<noteq> [] \<and> entry_cmp e (last (tk_buffer tk)) = Greater))
      in if full_and_larger \<or> (case tk_boundary tk of None \<Rightarrow> False | Some b \<Rightarrow> \<not> entry_less e b)
         then lower_boundary e tk
         else let tk1 = tk\<lparr>tk_key_index := hm_insert key (fst e) (tk_key_index tk),
                           tk_buffer := snd (so_insert ops e (tk_buffer tk))\<rparr>
              in if tk_capacity tk1 < length (tk_buffer tk1) then evict_last tk1 else tk1)"

definition step_key :: "topk_ops \<Rightarrow> store \<Rightarrow> row_key \<times> weight \<Rightarrow> top_k \<Rightarrow> top_k" where
  "step_key ops s e tk =
     (case e of (key, weight) \<Rightarrow>
        if w_pos weight then admit_key ops s key tk
        else if sint weight < 0 then drop_key ops key tk
        else tk)"

definition window_delta :: "row_key list \<Rightarrow> row_key list \<Rightarrow> zset" where
  "window_delta old new =
     (let entering = fold (\<lambda>k out. if k \<notin> set old then hm_insert k (zget out k + 1) out else out) new [];
          both = fold (\<lambda>k out. if k \<notin> set new then hm_insert k (zget out k - 1) out else out) old entering
      in hm_retain (\<lambda>_ w. w \<noteq> 0) both)"

definition topk_step :: "topk_ops \<Rightarrow> store \<Rightarrow> top_k \<Rightarrow> zset list \<Rightarrow> zset \<times> top_k" where
  "topk_step ops s tk ds =
     (let tk' = fold (step_key ops s) (ds ! 0) tk
      in (window_delta (current_window tk) (current_window tk'), tk'))"

definition topk_reset :: "top_k \<Rightarrow> top_k" where
  "topk_reset tk = tk\<lparr>tk_buffer := [], tk_key_index := [], tk_boundary := None\<rparr>"

definition topk_needs_rebuild :: "top_k \<Rightarrow> bool" where
  "topk_needs_rebuild tk \<longleftrightarrow> tk_boundary tk \<noteq> None
     \<and> length (tk_buffer tk) < saturating_add (tk_offset tk) (tk_limit tk)"

definition topk_evaluate_key :: "top_k \<Rightarrow> row_key \<Rightarrow> bool list \<Rightarrow> bool" where
  "topk_evaluate_key tk key es = (first_eval es \<and> key \<in> set (current_window tk))"

definition fold_delta :: "zset \<Rightarrow> zset \<Rightarrow> zset" where
  "fold_delta delta out = fold (\<lambda>(k, w) o'. hm_insert k (zget o' k + w) o') delta out"

definition topk_reorder_key :: "topk_ops \<Rightarrow> store \<Rightarrow> row_key \<Rightarrow> bool \<Rightarrow> top_k \<Rightarrow> zset \<times> top_k" where
  "topk_reorder_key ops s key upstream_now tk =
     (let (out1, tk1) = (if hm_contains (tk_key_index tk) key
                         then (case topk_step ops s tk [[(key, - 1)]] of (d, t) \<Rightarrow> (fold_delta d [], t))
                         else ([], tk));
          (out2, tk2) = (if upstream_now
                         then (case topk_step ops s tk1 [[(key, 1)]] of (d, t) \<Rightarrow> (fold_delta d out1, t))
                         else (out1, tk1))
      in (hm_retain (\<lambda>_ w. w \<noteq> 0) out2, tk2))"

end
