(* ===== verification/Plans.thy ===== *)
theory Plans
  imports Witness_Joins Top_K
begin

section \<open>Query plans\<close>

text \<open>
  Model of \<^verbatim>\<open>operator/plan.rs\<close>: the tree of operator descriptions a query converts to, and what
  is read off it at registration, the tables it scans, the fields the circuit evaluates, and the
  subqueries of its projections.
\<close>

record subquery_parent_key =
  spk_child_field :: string
  spk_parent_field :: string

datatype operator_plan =
    Scan string
  | Filter operator_plan predicate
  | Join operator_plan operator_plan join_condition
  | SemiJoin operator_plan operator_plan join_condition
  | AntiJoin operator_plan operator_plan join_condition
  | UnionPlan operator_plan operator_plan
  | Distinct operator_plan
  | Project operator_plan "projection list"
  | Limit operator_plan nat nat "order_spec list option"
and projection =
    All
  | Field path "string option"
  | Subquery string operator_plan "subquery_parent_key option"

record query_plan =
  qp_id :: string
  qp_root :: operator_plan

text \<open>\<^verbatim>\<open>retain(|t| seen.insert(t.clone()))\<close> keeps the first occurrence of each element.\<close>

fun dedup_loop :: "'a list \<Rightarrow> 'a set \<Rightarrow> 'a list" where
  "dedup_loop [] seen = []"
| "dedup_loop (x # xs) seen = (if x \<in> seen then dedup_loop xs seen else x # dedup_loop xs (insert x seen))"

definition dedup :: "'a list \<Rightarrow> 'a list" where
  "dedup xs = dedup_loop xs {}"

lemma set_dedup_loop: "set (dedup_loop xs seen) = set xs - seen"
  by (induction xs seen rule: dedup_loop.induct) auto

lemma distinct_dedup_loop: "distinct (dedup_loop xs seen)"
  by (induction xs seen rule: dedup_loop.induct) (auto simp: set_dedup_loop)

lemma set_dedup [simp]: "set (dedup xs) = set xs"
  by (simp add: dedup_def set_dedup_loop)

lemma distinct_dedup [simp]: "distinct (dedup xs)"
  by (simp add: dedup_def distinct_dedup_loop)

fun collect_tables :: "operator_plan \<Rightarrow> string list"
and projection_tables :: "projection \<Rightarrow> string list" where
  "collect_tables (Scan table) = [table]"
| "collect_tables (Filter input _) = collect_tables input"
| "collect_tables (Limit input _ _ _) = collect_tables input"
| "collect_tables (Distinct input) = collect_tables input"
| "collect_tables (Project input projections) =
     collect_tables input @ concat (map projection_tables projections)"
| "collect_tables (Join left right _) = collect_tables left @ collect_tables right"
| "collect_tables (SemiJoin left right _) = collect_tables left @ collect_tables right"
| "collect_tables (AntiJoin left right _) = collect_tables left @ collect_tables right"
| "collect_tables (UnionPlan left right) = collect_tables left @ collect_tables right"
| "projection_tables (Subquery _ plan _) = collect_tables plan"
| "projection_tables All = []"
| "projection_tables (Field _ _) = []"

definition referenced_tables :: "operator_plan \<Rightarrow> string list" where
  "referenced_tables p = dedup (collect_tables p)"

definition owner_table :: "operator_plan \<Rightarrow> string list" where
  "owner_table p = take 1 (referenced_tables p)"

definition refs :: "string list \<Rightarrow> string list \<Rightarrow> (string \<times> string) list" where
  "refs tables roots = concat (map (\<lambda>t. map (\<lambda>f. (t, f)) roots) tables)"

fun collect_field_refs :: "operator_plan \<Rightarrow> (string \<times> string) list"
and projection_field_refs :: "operator_plan \<Rightarrow> projection \<Rightarrow> (string \<times> string) list" where
  "collect_field_refs (Scan _) = []"
| "collect_field_refs (Filter input predicate) =
     refs (owner_table input) (field_roots predicate) @ collect_field_refs input"
| "collect_field_refs (Limit input _ _ order_by) =
     (case order_by of
        None \<Rightarrow> []
      | Some specs \<Rightarrow> refs (owner_table input) (concat (map (path_root \<circ> os_field) specs)))
     @ collect_field_refs input"
| "collect_field_refs (Distinct input) = collect_field_refs input"
| "collect_field_refs (Project input projections) =
     collect_field_refs input @ concat (map (projection_field_refs input) projections)"
| "collect_field_refs (Join left right on) =
     refs (owner_table left) (path_root (jc_left_field on)) @ refs (owner_table right) (path_root (jc_right_field on))
     @ collect_field_refs left @ collect_field_refs right"
| "collect_field_refs (SemiJoin left right on) =
     refs (owner_table left) (path_root (jc_left_field on)) @ refs (owner_table right) (path_root (jc_right_field on))
     @ collect_field_refs left @ collect_field_refs right"
| "collect_field_refs (AntiJoin left right on) =
     refs (owner_table left) (path_root (jc_left_field on)) @ refs (owner_table right) (path_root (jc_right_field on))
     @ collect_field_refs left @ collect_field_refs right"
| "collect_field_refs (UnionPlan left right) = collect_field_refs left @ collect_field_refs right"
| "projection_field_refs input (Subquery _ plan parent_key) =
     (case parent_key of
        None \<Rightarrow> []
      | Some key \<Rightarrow> refs (owner_table plan) [spk_child_field key] @ refs (owner_table input) [spk_parent_field key])
     @ collect_field_refs plan"
| "projection_field_refs input All = []"
| "projection_field_refs input (Field _ _) = []"

definition evaluated_field_refs :: "operator_plan \<Rightarrow> (string \<times> string) list" where
  "evaluated_field_refs p = dedup (collect_field_refs p)"

fun collect_subquery_tables :: "operator_plan \<Rightarrow> string list" where
  "collect_subquery_tables (Scan _) = []"
| "collect_subquery_tables (Filter input _) = collect_subquery_tables input"
| "collect_subquery_tables (Limit input _ _ _) = collect_subquery_tables input"
| "collect_subquery_tables (Distinct input) = collect_subquery_tables input"
| "collect_subquery_tables (Project input projections) =
     collect_subquery_tables input @ concat (map projection_tables projections)"
| "collect_subquery_tables (Join left right _) = collect_subquery_tables left @ collect_subquery_tables right"
| "collect_subquery_tables (SemiJoin left right _) = collect_subquery_tables left @ collect_subquery_tables right"
| "collect_subquery_tables (AntiJoin left right _) = collect_subquery_tables left @ collect_subquery_tables right"
| "collect_subquery_tables (UnionPlan left right) = collect_subquery_tables left @ collect_subquery_tables right"

definition subquery_tables :: "operator_plan \<Rightarrow> string list" where
  "subquery_tables p = dedup (collect_subquery_tables p)"

record subquery_info =
  si_alias :: string
  si_table :: string
  si_parent_key :: "subquery_parent_key option"
  si_parent_table :: "string option"

fun collect_subquery_info :: "operator_plan \<Rightarrow> string option \<Rightarrow> subquery_info list"
and projection_subquery_info :: "projection \<Rightarrow> string option \<Rightarrow> subquery_info list" where
  "collect_subquery_info (Scan _) parent_table = []"
| "collect_subquery_info (Filter input _) parent_table = collect_subquery_info input parent_table"
| "collect_subquery_info (Limit input _ _ _) parent_table = collect_subquery_info input parent_table"
| "collect_subquery_info (Distinct input) parent_table = collect_subquery_info input parent_table"
| "collect_subquery_info (Project input projections) parent_table =
     collect_subquery_info input parent_table
     @ concat (map (\<lambda>p. projection_subquery_info p parent_table) projections)"
| "collect_subquery_info (Join left right _) parent_table =
     collect_subquery_info left parent_table @ collect_subquery_info right parent_table"
| "collect_subquery_info (SemiJoin left right _) parent_table =
     collect_subquery_info left parent_table @ collect_subquery_info right parent_table"
| "collect_subquery_info (AntiJoin left right _) parent_table =
     collect_subquery_info left parent_table @ collect_subquery_info right parent_table"
| "collect_subquery_info (UnionPlan left right) parent_table =
     collect_subquery_info left parent_table @ collect_subquery_info right parent_table"
| "projection_subquery_info (Subquery alias plan parent_key) parent_table =
     (case referenced_tables plan of
        [] \<Rightarrow> []
      | table # _ \<Rightarrow>
          \<lparr>si_alias = alias, si_table = table, si_parent_key = parent_key, si_parent_table = parent_table\<rparr>
          # collect_subquery_info plan (Some table))"
| "projection_subquery_info All parent_table = []"
| "projection_subquery_info (Field _ _) parent_table = []"

definition subquery_projection_info :: "operator_plan \<Rightarrow> subquery_info list" where
  "subquery_projection_info p = collect_subquery_info p None"

end
