(* ===== verification/Operators.thy ===== *)
theory Operators
  imports Plans
begin

section \<open>The operator trait\<close>

text \<open>
  The trait \<^verbatim>\<open>Operator\<close> of \<^verbatim>\<open>operator/mod.rs\<close> and its implementations: an operator is one of
  the kinds a plan builds, with its state, and each method of the trait is a function by cases
  (the trait's default where a kind does not override it). The hash of \<^verbatim>\<open>DefaultHasher\<close> and the
  ordered set of \<^verbatim>\<open>TopK\<close> are the parameters of the model, collected in \<open>engine\<close>.
\<close>

record engine =
  en_hash :: "hash_input list \<Rightarrow> u64"
  en_ops :: topk_ops

text \<open>A join key or a witness is fed to a fresh hasher as one write.\<close>

definition en_sip :: "engine \<Rightarrow> hash_input \<Rightarrow> u64" where
  "en_sip en x = en_hash en [x]"

datatype operator =
    OpScan string
  | OpFilter predicate
  | OpJoin join_condition join_state
  | OpSemiJoin join_condition witness_state
  | OpAntiJoin join_condition witness_state
  | OpUnion
  | OpDistinct zset
  | OpMap "projection list"
  | OpTopK top_k

definition join_new :: join_state where
  "join_new = \<lparr>js_left = [], js_right = []\<rparr>"

definition op_snapshot :: "engine \<Rightarrow> store \<Rightarrow> value option \<Rightarrow> operator \<Rightarrow> zset list \<Rightarrow> zset" where
  "op_snapshot en s ctx operator inputs =
     (case operator of
        OpScan table \<Rightarrow> scan_snapshot table s
      | OpFilter pred \<Rightarrow> filter_snapshot pred s ctx inputs
      | OpJoin cond _ \<Rightarrow> join_snapshot (en_sip en) cond s inputs
      | OpSemiJoin cond _ \<Rightarrow> semi_join (en_sip en) (inputs ! 0) (inputs ! 1) cond s
      | OpAntiJoin cond _ \<Rightarrow> anti_join (en_sip en) (inputs ! 0) (inputs ! 1) cond s
      | OpUnion \<Rightarrow> union_snapshot inputs
      | OpDistinct _ \<Rightarrow> distinct_snapshot inputs
      | OpMap _ \<Rightarrow> map_snapshot inputs
      | OpTopK tk \<Rightarrow> topk_snapshot tk s inputs)"

definition op_step :: "engine \<Rightarrow> store \<Rightarrow> value option \<Rightarrow> operator \<Rightarrow> zset list \<Rightarrow> zset \<times> operator" where
  "op_step en s ctx operator ds =
     (case operator of
        OpScan table \<Rightarrow> (scan_step ds, operator)
      | OpFilter pred \<Rightarrow> (filter_step pred s ctx ds, operator)
      | OpJoin cond st \<Rightarrow> (case join_step (en_sip en) cond s st ds of (out, st') \<Rightarrow> (out, OpJoin cond st'))
      | OpSemiJoin cond st \<Rightarrow>
          (case witness_step (en_sip en) False cond s st ds of (out, st') \<Rightarrow> (out, OpSemiJoin cond st'))
      | OpAntiJoin cond st \<Rightarrow>
          (case witness_step (en_sip en) True cond s st ds of (out, st') \<Rightarrow> (out, OpAntiJoin cond st'))
      | OpUnion \<Rightarrow> (union_step ds, operator)
      | OpDistinct z \<Rightarrow> (case distinct_step z ds of (out, z') \<Rightarrow> (out, OpDistinct z'))
      | OpMap _ \<Rightarrow> (map_step ds, operator)
      | OpTopK tk \<Rightarrow> (case topk_step (en_ops en) s tk ds of (out, tk') \<Rightarrow> (out, OpTopK tk')))"

definition op_note_content_updates :: "row_key list \<Rightarrow> operator \<Rightarrow> operator" where
  "op_note_content_updates keys operator =
     (case operator of
        OpSemiJoin cond st \<Rightarrow> OpSemiJoin cond (note_content_updates keys st)
      | OpAntiJoin cond st \<Rightarrow> OpAntiJoin cond (note_content_updates keys st)
      | _ \<Rightarrow> operator)"

definition op_integrated_input_weight :: "operator \<Rightarrow> nat \<Rightarrow> row_key \<Rightarrow> weight option" where
  "op_integrated_input_weight operator port key =
     (case operator of
        OpSemiJoin _ st \<Rightarrow> Some (integrated_weight st port key)
      | OpAntiJoin _ st \<Rightarrow> Some (integrated_weight st port key)
      | _ \<Rightarrow> None)"

definition op_arity :: "operator \<Rightarrow> nat" where
  "op_arity operator =
     (case operator of
        OpScan _ \<Rightarrow> 0 | OpFilter _ \<Rightarrow> 1 | OpJoin _ _ \<Rightarrow> 2 | OpSemiJoin _ _ \<Rightarrow> 2 | OpAntiJoin _ _ \<Rightarrow> 2
      | OpUnion \<Rightarrow> 2 | OpDistinct _ \<Rightarrow> 1 | OpMap _ \<Rightarrow> 1 | OpTopK _ \<Rightarrow> 1)"

definition op_reset :: "operator \<Rightarrow> operator" where
  "op_reset operator =
     (case operator of
        OpJoin cond _ \<Rightarrow> OpJoin cond join_new
      | OpSemiJoin cond _ \<Rightarrow> OpSemiJoin cond witness_new
      | OpAntiJoin cond _ \<Rightarrow> OpAntiJoin cond witness_new
      | OpDistinct _ \<Rightarrow> OpDistinct []
      | OpTopK tk \<Rightarrow> OpTopK (topk_reset tk)
      | _ \<Rightarrow> operator)"

definition op_needs_rebuild :: "operator \<Rightarrow> bool" where
  "op_needs_rebuild operator = (case operator of OpTopK tk \<Rightarrow> topk_needs_rebuild tk | _ \<Rightarrow> False)"

definition op_collections :: "operator \<Rightarrow> string list" where
  "op_collections operator = (case operator of OpScan table \<Rightarrow> [table] | _ \<Rightarrow> [])"

definition semi_evaluate_key ::
  "engine \<Rightarrow> join_condition \<Rightarrow> witness_state \<Rightarrow> row_key \<Rightarrow> bool list \<Rightarrow> store \<Rightarrow> bool" where
  "semi_evaluate_key en cond st key es s =
     (if \<not> first_eval es then False
      else if jc_left_field cond = path_new ''id'' \<and> jc_right_field cond = path_new ''id''
      then (1 < length es \<and> es ! 1)
      else let l_field = resolve_field (get_row_by_key s key) (jc_left_field cond)
           in if is_missing l_field then False else has_point_witness (en_sip en) st l_field)"

definition anti_evaluate_key ::
  "engine \<Rightarrow> join_condition \<Rightarrow> witness_state \<Rightarrow> row_key \<Rightarrow> bool list \<Rightarrow> store \<Rightarrow> bool" where
  "anti_evaluate_key en cond st key es s =
     (if \<not> first_eval es then False
      else let row = get_row_by_key s key
           in if is_missing row then False
              else let l_field = resolve_field row (jc_left_field cond)
                   in if is_missing l_field then True else \<not> has_point_witness (en_sip en) st l_field)"

definition op_evaluate_key ::
  "engine \<Rightarrow> store \<Rightarrow> value option \<Rightarrow> operator \<Rightarrow> row_key \<Rightarrow> bool list \<Rightarrow> bool" where
  "op_evaluate_key en s ctx operator key es =
     (case operator of
        OpScan table \<Rightarrow> scan_evaluate_key table key s
      | OpFilter pred \<Rightarrow> filter_evaluate_key pred key es s ctx
      | OpJoin _ _ \<Rightarrow> False
      | OpSemiJoin cond st \<Rightarrow> semi_evaluate_key en cond st key es s
      | OpAntiJoin cond st \<Rightarrow> anti_evaluate_key en cond st key es s
      | OpUnion \<Rightarrow> union_evaluate_key es
      | OpDistinct _ \<Rightarrow> first_eval es
      | OpMap _ \<Rightarrow> first_eval es
      | OpTopK tk \<Rightarrow> topk_evaluate_key tk key es)"

definition op_reorder_key ::
  "engine \<Rightarrow> store \<Rightarrow> operator \<Rightarrow> row_key \<Rightarrow> bool \<Rightarrow> (zset \<times> operator) option" where
  "op_reorder_key en s operator key upstream_now =
     (case operator of
        OpTopK tk \<Rightarrow>
          (case topk_reorder_key (en_ops en) s key upstream_now tk of (d, tk') \<Rightarrow> Some (d, OpTopK tk'))
      | _ \<Rightarrow> None)"

lemma op_step_arity [simp]: "op_arity (snd (op_step en s ctx operator ds)) = op_arity operator"
  by (cases operator) (simp_all add: op_step_def op_arity_def split: prod.splits)

lemma op_step_collections [simp]: "op_collections (snd (op_step en s ctx operator ds)) = op_collections operator"
  by (cases operator) (simp_all add: op_step_def op_collections_def split: prod.splits)

end
