(* ===== verification/Graphs.thy ===== *)
theory Graphs
  imports Operators Kahn
begin

section \<open>Operator graphs\<close>

text \<open>
  Model of \<^verbatim>\<open>circuit/graph.rs\<close> and of \<^verbatim>\<open>Circuit::prime_graph\<close>: a plan becomes a list of nodes
  whose ids are their positions, each with the ids of its inputs; the nodes are executed in the
  order Kahn's algorithm gives. \<^verbatim>\<open>from_plan\<close> builds every plan as written (the planner
  \<^verbatim>\<open>NoIndexes\<close>). Indexing out of bounds and \<^verbatim>\<open>unwrap\<close> on a missing output are panics; that
  they do not happen is part of what is proved. Membership is read without recording that its
  cache was filled, which changes no later answer.
\<close>

record node =
  nd_id :: nat
  nd_operator :: operator
  nd_inputs :: "nat list"

type_synonym scan_index = "(string, nat list) hmap"

record graph =
  gr_nodes :: "node list"
  gr_topo_order :: "nat list"
  gr_scan_index :: scan_index
  gr_output_node :: nat

definition push_node :: "operator \<Rightarrow> nat list \<Rightarrow> node list \<Rightarrow> nat \<times> node list" where
  "push_node operator inputs nodes =
     (let i = length nodes in (i, nodes @ [\<lparr>nd_id = i, nd_operator = operator, nd_inputs = inputs\<rparr>]))"

definition route_scan :: "string \<Rightarrow> nat \<Rightarrow> scan_index \<Rightarrow> scan_index" where
  "route_scan table i si = hm_insert table ((case hm_get si table of None \<Rightarrow> [] | Some ids \<Rightarrow> ids) @ [i]) si"

fun build_node :: "operator_plan \<Rightarrow> node list \<Rightarrow> scan_index \<Rightarrow> nat \<times> node list \<times> scan_index" where
  "build_node (Scan table) nodes si =
     (let (i, nodes') = push_node (OpScan table) [] nodes in (i, nodes', route_scan table i si))"
| "build_node (Filter input predicate) nodes si =
     (let (a, nodes1, si1) = build_node input nodes si; (i, nodes2) = push_node (OpFilter predicate) [a] nodes1
      in (i, nodes2, si1))"
| "build_node (Join left right on) nodes si =
     (let (a, nodes1, si1) = build_node left nodes si; (b, nodes2, si2) = build_node right nodes1 si1;
          (i, nodes3) = push_node (OpJoin on join_new) [a, b] nodes2
      in (i, nodes3, si2))"
| "build_node (SemiJoin left right on) nodes si =
     (let (a, nodes1, si1) = build_node left nodes si; (b, nodes2, si2) = build_node right nodes1 si1;
          (i, nodes3) = push_node (OpSemiJoin on witness_new) [a, b] nodes2
      in (i, nodes3, si2))"
| "build_node (AntiJoin left right on) nodes si =
     (let (a, nodes1, si1) = build_node left nodes si; (b, nodes2, si2) = build_node right nodes1 si1;
          (i, nodes3) = push_node (OpAntiJoin on witness_new) [a, b] nodes2
      in (i, nodes3, si2))"
| "build_node (UnionPlan left right) nodes si =
     (let (a, nodes1, si1) = build_node left nodes si; (b, nodes2, si2) = build_node right nodes1 si1;
          (i, nodes3) = push_node OpUnion [a, b] nodes2
      in (i, nodes3, si2))"
| "build_node (Distinct input) nodes si =
     (let (a, nodes1, si1) = build_node input nodes si; (i, nodes2) = push_node (OpDistinct []) [a] nodes1
      in (i, nodes2, si1))"
| "build_node (Project input projections) nodes si =
     (let (a, nodes1, si1) = build_node input nodes si; (i, nodes2) = push_node (OpMap projections) [a] nodes1
      in (i, nodes2, si1))"
| "build_node (Limit input limit start order_by) nodes si =
     (let (a, nodes1, si1) = build_node input nodes si;
          (i, nodes2) = push_node (OpTopK (topk_new limit start order_by)) [a] nodes1
      in (i, nodes2, si1))"

subsection \<open>The execution order\<close>

type_synonym wiring = "(nat, nat) hmap \<times> (nat, nat list) hmap"

fun wire_inputs :: "nat \<Rightarrow> nat list \<Rightarrow> wiring \<Rightarrow> wiring outcome" where
  "wire_inputs i [] w = Ret w"
| "wire_inputs i (a # as) (in_degree, adj) =
     (case (hm_get adj a, hm_get in_degree i) of
        (Some outs, Some d) \<Rightarrow> wire_inputs i as (hm_insert i (d + 1) in_degree, hm_insert a (outs @ [i]) adj)
      | _ \<Rightarrow> Panic)"

fun wire_nodes :: "node list \<Rightarrow> wiring \<Rightarrow> wiring outcome" where
  "wire_nodes [] w = Ret w"
| "wire_nodes (n # ns) w =
     (case wire_inputs (nd_id n) (nd_inputs n) w of Panic \<Rightarrow> Panic | Ret w' \<Rightarrow> wire_nodes ns w')"

definition compute_topo_order :: "node list \<Rightarrow> nat list outcome" where
  "compute_topo_order nodes =
     (let n = length nodes
      in case wire_nodes nodes (map (\<lambda>i. (i, 0)) [0..<n], map (\<lambda>i. (i, [])) [0..<n]) of
           Panic \<Rightarrow> Panic
         | Ret (in_degree, adj) \<Rightarrow>
             (case kahn_loop (\<lambda>i. case hm_get adj i of None \<Rightarrow> [] | Some outs \<Rightarrow> outs) in_degree
                     (filter (\<lambda>i. hm_get in_degree i = Some 0) [0..<n]) [] of
                Panic \<Rightarrow> Panic
              | Ret (_, order) \<Rightarrow> Ret order))"

definition from_plan :: "operator_plan \<Rightarrow> graph outcome" where
  "from_plan plan =
     (case build_node plan [] [] of (output_node, nodes, scan_index) \<Rightarrow>
        case compute_topo_order nodes of
          Panic \<Rightarrow> Panic
        | Ret order \<Rightarrow>
            Ret \<lparr>gr_nodes = nodes, gr_topo_order = order, gr_scan_index = scan_index, gr_output_node = output_node\<rparr>)"

definition scan_nodes_for_table :: "graph \<Rightarrow> string \<Rightarrow> nat list" where
  "scan_nodes_for_table g table = (case hm_get (gr_scan_index g) table of None \<Rightarrow> [] | Some ids \<Rightarrow> ids)"

definition graph_needs_rebuild :: "graph \<Rightarrow> bool" where
  "graph_needs_rebuild g = list_ex (\<lambda>n. op_needs_rebuild (nd_operator n)) (gr_nodes g)"

subsection \<open>Executing the nodes\<close>

text \<open>
  The loop shared by \<^verbatim>\<open>prime_graph\<close> and \<^verbatim>\<open>step_query\<close>: each node is stepped on the outputs of
  its inputs. What a node does with them is the argument \<open>F\<close>.
\<close>

fun run_nodes ::
  "(nat \<Rightarrow> operator \<Rightarrow> zset list \<Rightarrow> zset \<times> operator) \<Rightarrow> nat list \<Rightarrow> node list \<Rightarrow> zset option list
    \<Rightarrow> (node list \<times> zset option list) outcome" where
  "run_nodes F [] nodes outs = Ret (nodes, outs)"
| "run_nodes F (i # is) nodes outs =
     (if i < length nodes \<and> i < length outs
         \<and> list_all (\<lambda>a. a < length outs \<and> outs ! a \<noteq> None) (nd_inputs (nodes ! i))
      then (case F i (nd_operator (nodes ! i)) (map (\<lambda>a. the (outs ! a)) (nd_inputs (nodes ! i))) of
              (out, op') \<Rightarrow>
                run_nodes F is (nodes[i := (nodes ! i)\<lparr>nd_operator := op'\<rparr>]) (outs[i := Some out]))
      else Panic)"

definition collection_zset :: "store \<Rightarrow> string list \<Rightarrow> zset" where
  "collection_zset s tables =
     (case tables of
        [] \<Rightarrow> []
      | t # _ \<Rightarrow> (case hm_get (sto_collections s) t of None \<Rightarrow> [] | Some c \<Rightarrow> fst (membership c)))"

definition prime_node ::
  "engine \<Rightarrow> store \<Rightarrow> value option \<Rightarrow> nat \<Rightarrow> operator \<Rightarrow> zset list \<Rightarrow> zset \<times> operator" where
  "prime_node en s params i operator inputs =
     (if op_arity operator = 0 then op_step en s params operator [collection_zset s (op_collections operator)]
      else op_step en s params operator inputs)"

definition prime_graph ::
  "engine \<Rightarrow> store \<Rightarrow> value option \<Rightarrow> graph \<Rightarrow> (zset option \<times> graph) outcome" where
  "prime_graph en s params g =
     (case run_nodes (prime_node en s params) (gr_topo_order g) (gr_nodes g) (replicate (length (gr_nodes g)) None) of
        Panic \<Rightarrow> Panic
      | Ret (nodes, outs) \<Rightarrow>
          if gr_output_node g < length outs
          then Ret (outs ! gr_output_node g, g\<lparr>gr_nodes := nodes\<rparr>) else Panic)"

end
