(* ===== verification/Graph_Order.thy ===== *)
theory Graph_Order
  imports Graphs
begin

section \<open>Graphs of plans are well formed\<close>

text \<open>
  Every node a plan builds reads nodes with smaller ids, so the execution order exists, lists
  every node once, and runs each node after its inputs. Executing the nodes in that order
  computes the values that evaluating them by id computes.
\<close>

definition nodes_ok :: "node list \<Rightarrow> bool" where
  "nodes_ok ns \<longleftrightarrow> (\<forall>i < length ns. nd_id (ns ! i) = i \<and> (\<forall>a \<in> set (nd_inputs (ns ! i)). a < i))"

definition node_edges :: "node list \<Rightarrow> (nat \<times> nat) list" where
  "node_edges ns = concat (map (\<lambda>n. map (\<lambda>a. (a, nd_id n)) (nd_inputs n)) ns)"

lemma nodes_ok_Nil [simp]: "nodes_ok []"
  by (simp add: nodes_ok_def)

lemma nodes_ok_push:
  assumes "nodes_ok ns" and "\<forall>a \<in> set as. a < length ns" and "push_node operator as ns = (i, ns')"
  shows "nodes_ok ns' \<and> i = length ns \<and> length ns' = Suc i \<and> take (length ns) ns' = ns
    \<and> nd_operator (ns' ! i) = operator \<and> nd_inputs (ns' ! i) = as"
  using assms by (auto simp: nodes_ok_def push_node_def Let_def nth_append less_Suc_eq)

lemma prefix_trans:
  assumes "take (length xs) ys = xs" and "take (length ys) zs = ys"
  shows "take (length xs) zs = xs"
proof -
  have "take (length xs) (take (length ys) zs) = xs" using assms by simp
  moreover have "length xs \<le> length ys" using arg_cong [OF assms(1), of length] by simp
  ultimately show ?thesis by (simp add: min_def)
qed

text \<open>What building a plan adds: nodes behind the given ones, the plan's own node last.\<close>

definition built :: "node list \<Rightarrow> nat \<Rightarrow> node list \<Rightarrow> bool" where
  "built ns i ns' \<longleftrightarrow> nodes_ok ns' \<and> length ns' = Suc i \<and> length ns \<le> i \<and> take (length ns) ns' = ns"

lemma built_push:
  assumes "built ns a ns1" and "push_node operator [a] ns1 = (i, ns')"
  shows "built ns i ns'" "take (length ns1) ns' = ns1" "nd_operator (ns' ! i) = operator" "nd_inputs (ns' ! i) = [a]"
proof -
  note P = nodes_ok_push [OF _ _ assms(2)]
  have n1: "nodes_ok ns1" "length ns1 = Suc a" "length ns \<le> a" "take (length ns) ns1 = ns"
    using assms(1) by (simp_all add: built_def)
  then have Q: "nodes_ok ns'" "i = length ns1" "length ns' = Suc i" "take (length ns1) ns' = ns1"
      "nd_operator (ns' ! i) = operator" "nd_inputs (ns' ! i) = [a]"
    using P by auto
  moreover have "take (length ns) ns' = ns"
    using Q(4) n1(4) by (rule prefix_trans [rotated])
  ultimately show "built ns i ns'" "take (length ns1) ns' = ns1" "nd_operator (ns' ! i) = operator"
    "nd_inputs (ns' ! i) = [a]" using n1 by (simp_all add: built_def)
qed

lemma built_push2:
  assumes "built ns a ns1" and "built ns1 b ns2" and "push_node operator [a, b] ns2 = (i, ns')"
  shows "built ns i ns'" "take (length ns2) ns' = ns2" "nd_operator (ns' ! i) = operator"
    "nd_inputs (ns' ! i) = [a, b]"
proof -
  have n: "length ns1 = Suc a" "length ns \<le> a" "take (length ns) ns1 = ns"
    "nodes_ok ns2" "length ns2 = Suc b" "length ns1 \<le> b" "take (length ns1) ns2 = ns1"
    using assms(1,2) by (simp_all add: built_def)
  have Q: "nodes_ok ns'" "i = length ns2" "length ns' = Suc i" "take (length ns2) ns' = ns2"
      "nd_operator (ns' ! i) = operator" "nd_inputs (ns' ! i) = [a, b]"
    using nodes_ok_push [OF n(4) _ assms(3)] n by auto
  moreover have "take (length ns) ns' = ns"
    using prefix_trans [OF prefix_trans [OF n(3,7)] Q(4)] .
  ultimately show "built ns i ns'" "take (length ns2) ns' = ns2" "nd_operator (ns' ! i) = operator"
    "nd_inputs (ns' ! i) = [a, b]" using n by (simp_all add: built_def)
qed

lemma built_ok: "built ns i ns' \<Longrightarrow> nodes_ok ns'"
  by (simp add: built_def)

lemma built_unary:
  assumes "\<And>a ns1 si1. build_node p ns si = (a, ns1, si1) \<Longrightarrow> built ns a ns1"
    and "(let (a, nodes1, si1) = build_node p ns si; (i, nodes2) = push_node operator [a] nodes1
      in (i, nodes2, si1)) = (i, ns', si')"
  shows "built ns i ns'"
proof -
  obtain a ns1 si1 where a: "build_node p ns si = (a, ns1, si1)" by (metis prod_cases3)
  then show ?thesis using assms(2) built_push(1) [OF assms(1) [OF a]] by (auto split: prod.splits)
qed

lemma built_binary:
  assumes "\<And>a ns1 si1. build_node p ns si = (a, ns1, si1) \<Longrightarrow> built ns a ns1"
    and "\<And>ns si b ns2 si2. nodes_ok ns \<Longrightarrow> build_node q ns si = (b, ns2, si2) \<Longrightarrow> built ns b ns2"
    and "(let (a, nodes1, si1) = build_node p ns si; (b, nodes2, si2) = build_node q nodes1 si1;
          (i, nodes3) = push_node operator [a, b] nodes2 in (i, nodes3, si2)) = (i, ns', si')"
  shows "built ns i ns'"
proof -
  obtain a ns1 si1 where a: "build_node p ns si = (a, ns1, si1)" by (metis prod_cases3)
  obtain b ns2 si2 where b: "build_node q ns1 si1 = (b, ns2, si2)" by (metis prod_cases3)
  have A: "built ns a ns1" using assms(1) a by blast
  have B: "built ns1 b ns2" using assms(2) [OF built_ok [OF A] b] .
  show ?thesis using assms(3) a b built_push2(1) [OF A B] by (auto split: prod.splits)
qed

lemmas plan_induct = operator_plan.induct [where ?P2.0 = "\<lambda>_. True", case_names
    Scan Filter Join SemiJoin AntiJoin UnionPlan Distinct Project Limit All Field Subquery]

lemma built_node: "nodes_ok ns \<Longrightarrow> build_node p ns si = (i, ns', si') \<Longrightarrow> built ns i ns'"
proof (induction p arbitrary: ns si i ns' si' rule: plan_induct)
  case (Scan table)
  then show ?case using nodes_ok_push [OF Scan(1), of "[]" "OpScan table"] by (auto simp: built_def split: prod.splits)
next
  case (Filter p pred)
  show ?case by (rule built_unary [OF Filter.IH [OF Filter.prems(1)] Filter.prems(2) [unfolded build_node.simps]])
next
  case (Distinct p)
  show ?case by (rule built_unary [OF Distinct.IH [OF Distinct.prems(1)] Distinct.prems(2) [unfolded build_node.simps]])
next
  case (Project p ps)
  show ?case by (rule built_unary [OF Project.IH(1) [OF Project.prems(1)] Project.prems(2) [unfolded build_node.simps]])
next
  case (Limit p l st ob)
  show ?case by (rule built_unary [OF Limit.IH [OF Limit.prems(1)] Limit.prems(2) [unfolded build_node.simps]])
next
  case (Join p q on)
  show ?case by (rule built_binary [OF Join.IH(1) [OF Join.prems(1)] Join.IH(2) Join.prems(2) [unfolded build_node.simps]])
next
  case (SemiJoin p q on)
  show ?case by (rule built_binary [OF SemiJoin.IH(1) [OF SemiJoin.prems(1)] SemiJoin.IH(2) SemiJoin.prems(2) [unfolded build_node.simps]])
next
  case (AntiJoin p q on)
  show ?case by (rule built_binary [OF AntiJoin.IH(1) [OF AntiJoin.prems(1)] AntiJoin.IH(2) AntiJoin.prems(2) [unfolded build_node.simps]])
next
  case (UnionPlan p q)
  show ?case by (rule built_binary [OF UnionPlan.IH(1) [OF UnionPlan.prems(1)] UnionPlan.IH(2) UnionPlan.prems(2) [unfolded build_node.simps]])
qed simp_all

subsection \<open>The execution order\<close>

abbreviation outs_of :: "(nat, nat list) hmap \<Rightarrow> nat \<Rightarrow> nat list" where
  "outs_of adj a \<equiv> (case hm_get adj a of None \<Rightarrow> [] | Some outs \<Rightarrow> outs)"

lemma wire_inputs_effect:
  assumes "hm_get deg i = Some d" and "\<forall>a \<in> set as. hm_get adj a \<noteq> None"
  shows "\<exists>deg' adj'. wire_inputs i as (deg, adj) = Ret (deg', adj')
    \<and> (\<forall>v. hm_get deg' v = (if v = i then Some (d + length as) else hm_get deg v))
    \<and> (\<forall>v. hm_get adj' v = None \<longleftrightarrow> hm_get adj v = None)
    \<and> (\<forall>a w. count_list (outs_of adj' a) w = count_list (outs_of adj a) w + (if w = i then count_list as a else 0))"
  using assms
proof (induction as arbitrary: deg adj d)
  case (Cons a as)
  obtain outs where o: "hm_get adj a = Some outs" using Cons.prems by auto
  let ?deg = "hm_insert i (d + 1) deg" and ?adj = "hm_insert a (outs @ [i]) adj"
  have pre: "hm_get ?deg i = Some (d + 1)" "\<forall>x \<in> set as. hm_get ?adj x \<noteq> None" using Cons.prems by auto
  obtain deg' adj' where R: "wire_inputs i as (?deg, ?adj) = Ret (deg', adj')"
    "\<forall>v. hm_get deg' v = (if v = i then Some (d + 1 + length as) else hm_get ?deg v)"
    "\<forall>v. hm_get adj' v = None \<longleftrightarrow> hm_get ?adj v = None"
    "\<forall>x w. count_list (outs_of adj' x) w = count_list (outs_of ?adj x) w + (if w = i then count_list as x else 0)"
    using Cons.IH [OF pre] by blast
  have "wire_inputs i (a # as) (deg, adj) = Ret (deg', adj')" using R(1) o Cons.prems(1) by simp
  moreover have "\<forall>v. hm_get adj' v = None \<longleftrightarrow> hm_get adj v = None" using R(3) o by auto
  ultimately show ?case using R(2,4) o by auto
qed auto

lemma in_edges_node_edges_Cons:
  "in_edges (node_edges (n # ns)) {} v = (if nd_id n = v then length (nd_inputs n) else 0) + in_edges (node_edges ns) {} v"
  by (simp add: node_edges_def in_edges_def filter_map comp_def)

lemma count_node_edges_Cons:
  "count_list (node_edges (n # ns)) (a, w) = (if w = nd_id n then count_list (nd_inputs n) a else 0) + count_list (node_edges ns) (a, w)"
proof -
  have "count_list (map (\<lambda>d. (d, m)) ds) (u, w) = (if w = m then count_list ds u else 0)" for ds :: "nat list" and u w and m :: nat
    by (induction ds) auto
  then show ?thesis by (simp add: node_edges_def)
qed

lemma wire_nodes_effect:
  assumes "\<forall>n \<in> set ns. hm_get deg (nd_id n) \<noteq> None \<and> (\<forall>a \<in> set (nd_inputs n). hm_get adj a \<noteq> None)"
  shows "\<exists>deg' adj'. wire_nodes ns (deg, adj) = Ret (deg', adj')
    \<and> (\<forall>v. hm_get deg' v = map_option (\<lambda>d. d + in_edges (node_edges ns) {} v) (hm_get deg v))
    \<and> (\<forall>a w. count_list (outs_of adj' a) w = count_list (outs_of adj a) w + count_list (node_edges ns) (a, w))"
  using assms
proof (induction ns arbitrary: deg adj)
  case (Cons n ns)
  obtain d where d: "hm_get deg (nd_id n) = Some d" using Cons.prems by auto
  have as: "\<forall>a \<in> set (nd_inputs n). hm_get adj a \<noteq> None" using Cons.prems by simp
  obtain deg1 adj1 where 1: "wire_inputs (nd_id n) (nd_inputs n) (deg, adj) = Ret (deg1, adj1)"
    "\<forall>v. hm_get deg1 v = (if v = nd_id n then Some (d + length (nd_inputs n)) else hm_get deg v)"
    "\<forall>v. hm_get adj1 v = None \<longleftrightarrow> hm_get adj v = None"
    "\<forall>a w. count_list (outs_of adj1 a) w = count_list (outs_of adj a) w + (if w = nd_id n then count_list (nd_inputs n) a else 0)"
    using wire_inputs_effect [OF d as] by blast
  have "\<forall>m \<in> set ns. hm_get deg1 (nd_id m) \<noteq> None \<and> (\<forall>a \<in> set (nd_inputs m). hm_get adj1 a \<noteq> None)"
    using Cons.prems 1(2,3) by simp
  from Cons.IH [OF this] obtain deg' adj' where 2: "wire_nodes ns (deg1, adj1) = Ret (deg', adj')"
    "\<forall>v. hm_get deg' v = map_option (\<lambda>d. d + in_edges (node_edges ns) {} v) (hm_get deg1 v)"
    "\<forall>a w. count_list (outs_of adj' a) w = count_list (outs_of adj1 a) w + count_list (node_edges ns) (a, w)"
    by blast
  show ?case using 1 2 d by (simp add: in_edges_node_edges_Cons count_node_edges_Cons algebra_simps)
qed (simp add: node_edges_def in_edges_def option.map_ident)

lemma set_node_edges:
  "nodes_ok ns \<Longrightarrow> set (node_edges ns) = {(a, i). i < length ns \<and> a \<in> set (nd_inputs (ns ! i))}"
proof -
  assume ok: "nodes_ok ns"
  have "set (node_edges ns) = {(a, nd_id n) | a n. n \<in> set ns \<and> a \<in> set (nd_inputs n)}"
    by (auto simp: node_edges_def)
  also have "\<dots> = {(a, nd_id (ns ! i)) | a i. i < length ns \<and> a \<in> set (nd_inputs (ns ! i))}"
    by (auto simp: in_set_conv_nth)
  also have "\<dots> = {(a, i). i < length ns \<and> a \<in> set (nd_inputs (ns ! i))}"
    using ok unfolding nodes_ok_def by (auto, metis)
  finally show ?thesis .
qed

definition runs_in_order :: "node list \<Rightarrow> nat list \<Rightarrow> bool" where
  "runs_in_order ns order \<longleftrightarrow> distinct order \<and> set order = {..<length ns} \<and> topo_sorted (node_edges ns) order"

lemma hm_get_upto: "hm_get (map (\<lambda>i. (i, x)) [0..<m]) v = (if v < m then Some x else None)"
  by (induction m) (auto simp: map_add_Some_iff)

lemma compute_topo_order_ok:
  assumes ok: "nodes_ok ns"
  shows "\<exists>order. compute_topo_order ns = Ret order \<and> runs_in_order ns order"
proof -
  let ?n = "length ns" and ?E = "node_edges ns"
  let ?deg = "map (\<lambda>i. (i, 0)) [0..<?n] :: (nat, nat) hmap" and ?adj = "map (\<lambda>i. (i, [])) [0..<?n] :: (nat, nat list) hmap"
  note get = hm_get_upto
  have small: "a < ?n" if "n \<in> set ns" "a \<in> set (nd_inputs n)" for n a
    using ok that unfolding nodes_ok_def by (metis in_set_conv_nth less_trans)
  have id: "nd_id n < ?n" if "n \<in> set ns" for n using ok that by (auto simp: nodes_ok_def in_set_conv_nth)
  obtain deg adj where W: "wire_nodes ns (?deg, ?adj) = Ret (deg, adj)"
    "\<forall>v. hm_get deg v = map_option (\<lambda>d. d + in_edges ?E {} v) (hm_get ?deg v)"
    "\<forall>a w. count_list (outs_of adj a) w = count_list (outs_of ?adj a) w + count_list ?E (a, w)"
    using wire_nodes_effect [of ns ?deg ?adj] small id by (auto simp: get)
  have deg: "hm_get deg v = (if v \<in> {..<?n} then Some (in_edges ?E {} v) else None)" for v
    using W(2) by (simp add: get)
  have nexts: "\<forall>u \<in> {..<?n}. \<forall>w. count_list (outs_of adj u) w = count_list ?E (u, w)" using W(3) by (simp add: get)
  have E: "set ?E \<subseteq> {..<?n} \<times> {..<?n}" using ok by (auto simp: set_node_edges nodes_ok_def) (meson less_trans)
  let ?q = "filter (\<lambda>i. hm_get deg i = Some 0) [0..<?n]"
  have "kahn_inv {..<?n} ?E deg ?q []"
    using deg by (intro kahn_inv_start) auto
  from kahn_loop_inv [OF this E nexts] obtain deg' order where
    K: "kahn_loop (outs_of adj) deg ?q [] = Ret (deg', order)" "kahn_inv {..<?n} ?E deg' [] order" by blast
  have "acyclic (set ?E)"
  proof (rule acyclicI_order [where f = "\<lambda>v. ?n - v"])
    fix a b assume "(a, b) \<in> set ?E"
    then have "a < b" "b < ?n" using ok by (simp_all add: set_node_edges nodes_ok_def)
    then show "?n - b < ?n - a" by simp
  qed
  then have "set order = {..<?n}" using kahn_complete_iff [OF K(2) E] by simp
  then have "runs_in_order ns order" using K(2) by (auto simp: runs_in_order_def kahn_inv_def)
  then show ?thesis using W(1) K(1) by (simp add: compute_topo_order_def Let_def)
qed

lemma from_plan_ok:
  obtains g where "from_plan p = Ret g" "nodes_ok (gr_nodes g)" "runs_in_order (gr_nodes g) (gr_topo_order g)"
    "length (gr_nodes g) = Suc (gr_output_node g)"
    "build_node p [] [] = (gr_output_node g, gr_nodes g, gr_scan_index g)"
proof -
  obtain i ns si where b: "build_node p [] [] = (i, ns, si)" by (metis prod_cases3)
  have B: "built [] i ns" using built_node [OF nodes_ok_Nil b] .
  obtain order where o: "compute_topo_order ns = Ret order" "runs_in_order ns order"
    using compute_topo_order_ok [OF built_ok [OF B]] by blast
  show ?thesis
    by (rule that [of "\<lparr>gr_nodes = ns, gr_topo_order = order, gr_scan_index = si, gr_output_node = i\<rparr>"])
      (use b B o in \<open>simp_all add: from_plan_def built_def\<close>)
qed

subsection \<open>Executing the nodes\<close>

text \<open>The values by id: node \<open>i\<close> reads values before it, so the list can be computed from the left.\<close>

fun node_values_from ::
  "(nat \<Rightarrow> operator \<Rightarrow> zset list \<Rightarrow> zset \<times> operator) \<Rightarrow> node list \<Rightarrow> (zset \<times> operator) list \<Rightarrow> (zset \<times> operator) list" where
  "node_values_from F [] vs = vs"
| "node_values_from F (n # ns) vs =
     node_values_from F ns (vs @ [F (length vs) (nd_operator n) (map (\<lambda>a. fst (vs ! a)) (nd_inputs n))])"

definition node_values ::
  "(nat \<Rightarrow> operator \<Rightarrow> zset list \<Rightarrow> zset \<times> operator) \<Rightarrow> node list \<Rightarrow> (zset \<times> operator) list" where
  "node_values F ns = node_values_from F ns []"

lemma node_values_from_append: "node_values_from F (xs @ ys) vs = node_values_from F ys (node_values_from F xs vs)"
  by (induction xs arbitrary: vs) simp_all

lemma node_values_from_prefix: "\<exists>ws. node_values_from F ns vs = vs @ ws \<and> length ws = length ns"
  by (induction ns arbitrary: vs) (simp, metis (no_types, lifting) append.assoc append_Cons append_Nil length_Cons node_values_from.simps(2))

lemma length_node_values [simp]: "length (node_values F ns) = length ns"
  using node_values_from_prefix [of F ns "[]"] by (auto simp: node_values_def)

lemma node_values_snoc:
  "node_values F (ns @ [n]) =
     node_values F ns @ [F (length ns) (nd_operator n) (map (\<lambda>a. fst (node_values F ns ! a)) (nd_inputs n))]"
  using length_node_values [of F ns] by (simp add: node_values_def node_values_from_append)

lemma node_values_take: "take (length xs) ys = xs \<Longrightarrow> take (length xs) (node_values F ys) = node_values F xs"
proof -
  assume "take (length xs) ys = xs"
  then obtain zs where "ys = xs @ zs" by (metis append_take_drop_id)
  then show ?thesis
    using node_values_from_prefix [of F zs "node_values F xs"] length_node_values [of F xs]
    by (auto simp: node_values_def node_values_from_append)
qed

lemma nth_eq_by_take: "take n xs = take n ys \<Longrightarrow> i < n \<Longrightarrow> i < length xs \<Longrightarrow> i < length ys \<Longrightarrow> xs ! i = ys ! i"
  by (metis nth_take)

lemma node_values_nth:
  assumes ok: "nodes_ok ns" and i: "i < length ns"
  shows "node_values F ns ! i =
    F i (nd_operator (ns ! i)) (map (\<lambda>a. fst (node_values F ns ! a)) (nd_inputs (ns ! i)))"
proof -
  let ?xs = "take i ns"
  have len: "length ?xs = i" using i by simp
  have pre: "take i (node_values F ns) = node_values F ?xs" using node_values_take [of ?xs ns F] len by simp
  have "take (Suc i) ns = ?xs @ [ns ! i]" using i by (rule take_Suc_conv_app_nth)
  then have "take (Suc i) (node_values F ns) = node_values F (?xs @ [ns ! i])"
    using node_values_take [of "take (Suc i) ns" ns F] i by simp
  then have "node_values F ns ! i = node_values F (?xs @ [ns ! i]) ! i" using i by (metis lessI nth_take)
  also have "\<dots> = F i (nd_operator (ns ! i)) (map (\<lambda>a. fst (node_values F ?xs ! a)) (nd_inputs (ns ! i)))"
    using i by (simp add: node_values_snoc nth_append min_def)
  also have "map (\<lambda>a. fst (node_values F ?xs ! a)) (nd_inputs (ns ! i)) = map (\<lambda>a. fst (node_values F ns ! a)) (nd_inputs (ns ! i))"
    using ok i unfolding pre [symmetric] nodes_ok_def by simp
  finally show ?thesis .
qed

definition ran :: "(nat \<Rightarrow> operator \<Rightarrow> zset list \<Rightarrow> zset \<times> operator) \<Rightarrow> node list \<Rightarrow> nat set \<Rightarrow> node list \<Rightarrow> zset option list \<Rightarrow> bool" where
  "ran F ns D nodes outs \<longleftrightarrow> length nodes = length ns \<and> length outs = length ns
     \<and> (\<forall>i < length ns. nodes ! i = (if i \<in> D then (ns ! i)\<lparr>nd_operator := snd (node_values F ns ! i)\<rparr> else ns ! i)
         \<and> outs ! i = (if i \<in> D then Some (fst (node_values F ns ! i)) else None))"

lemma run_nodes_ran:
  assumes ok: "nodes_ok ns" and order: "runs_in_order ns (xs @ ys)" and "ran F ns (set xs) nodes outs"
  shows "\<exists>nodes' outs'. run_nodes F ys nodes outs = Ret (nodes', outs') \<and> ran F ns (set (xs @ ys)) nodes' outs'"
  using order assms(3)
proof (induction ys arbitrary: xs nodes outs)
  case (Cons i ys)
  have i: "i < length ns" "i \<notin> set xs" using Cons.prems(1) by (auto simp: runs_in_order_def)
  have ins: "a \<in> set xs" if "a \<in> set (nd_inputs (ns ! i))" for a
    using Cons.prems(1) that ok i(1) unfolding runs_in_order_def topo_sorted_def set_node_edges [OF ok] by blast
  have lt: "a < length ns" if "a \<in> set (nd_inputs (ns ! i))" for a
    using ok i(1) that unfolding nodes_ok_def by (meson less_trans)
  have R: "length nodes = length ns" "length outs = length ns" "nodes ! i = ns ! i"
    using Cons.prems(2) i by (auto simp: ran_def)
  have o: "outs ! a = Some (fst (node_values F ns ! a))" if "a \<in> set (nd_inputs (ns ! i))" for a
    using Cons.prems(2) ins [OF that] lt [OF that] by (simp add: ran_def)
  have args: "map (\<lambda>a. the (outs ! a)) (nd_inputs (ns ! i)) = map (\<lambda>a. fst (node_values F ns ! a)) (nd_inputs (ns ! i))"
    using o by simp
  obtain out op' where v: "node_values F ns ! i = (out, op')" by (cases "node_values F ns ! i")
  let ?nodes = "nodes[i := (ns ! i)\<lparr>nd_operator := op'\<rparr>]" and ?outs = "outs[i := Some out]"
  have step: "run_nodes F (i # ys) nodes outs = run_nodes F ys ?nodes ?outs"
  proof -
    have "F i (nd_operator (ns ! i)) (map (\<lambda>a. the (outs ! a)) (nd_inputs (ns ! i))) = (out, op')"
      unfolding args using node_values_nth [OF ok i(1), of F] v by simp
    then show ?thesis using i R o lt by (simp add: list_all_iff)
  qed
  have "ran F ns (set (xs @ [i])) ?nodes ?outs"
    using Cons.prems(2) v i by (auto simp: ran_def nth_list_update)
  then show ?case using Cons.IH [of "xs @ [i]" ?nodes ?outs] Cons.prems(1) step by simp
qed auto

lemma run_nodes_result:
  assumes ok: "nodes_ok ns" and order: "runs_in_order ns order"
  shows "run_nodes F order ns (replicate (length ns) None) =
    Ret (map2 (\<lambda>n v. n\<lparr>nd_operator := snd v\<rparr>) ns (node_values F ns), map (Some \<circ> fst) (node_values F ns))"
proof -
  have "ran F ns (set []) ns (replicate (length ns) None)" by (simp add: ran_def)
  from run_nodes_ran [OF ok _ this, of order] order obtain nodes' outs' where
    r: "run_nodes F order ns (replicate (length ns) None) = Ret (nodes', outs')" "ran F ns (set order) nodes' outs'"
    by auto
  have "nodes' = map2 (\<lambda>n v. n\<lparr>nd_operator := snd v\<rparr>) ns (node_values F ns)" "outs' = map (Some \<circ> fst) (node_values F ns)"
    using r(2) order by (auto simp: ran_def runs_in_order_def intro!: nth_equalityI)
  then show ?thesis using r(1) by simp
qed

subsection \<open>A graph computes its plan\<close>

text \<open>The plan evaluated as a tree, every operator stepped once from its initial state.\<close>

fun plan_output :: "(operator \<Rightarrow> zset list \<Rightarrow> zset) \<Rightarrow> operator_plan \<Rightarrow> zset" where
  "plan_output f (Scan table) = f (OpScan table) []"
| "plan_output f (Filter p predicate) = f (OpFilter predicate) [plan_output f p]"
| "plan_output f (Join p q on) = f (OpJoin on join_new) [plan_output f p, plan_output f q]"
| "plan_output f (SemiJoin p q on) = f (OpSemiJoin on witness_new) [plan_output f p, plan_output f q]"
| "plan_output f (AntiJoin p q on) = f (OpAntiJoin on witness_new) [plan_output f p, plan_output f q]"
| "plan_output f (UnionPlan p q) = f OpUnion [plan_output f p, plan_output f q]"
| "plan_output f (Distinct p) = f (OpDistinct []) [plan_output f p]"
| "plan_output f (Project p projections) = f (OpMap projections) [plan_output f p]"
| "plan_output f (Limit p limit start order_by) = f (OpTopK (topk_new limit start order_by)) [plan_output f p]"

lemma built_values:
  assumes "take (length ns1) ns' = ns1" and "a < length ns1"
  shows "node_values F ns' ! a = node_values F ns1 ! a"
  using node_values_take [OF assms(1), of F] assms(2) by (metis nth_take)

lemma values_unary:
  assumes eq: "(let (a, nodes1, si1) = build_node p ns si; (i, nodes2) = push_node operator [a] nodes1
      in (i, nodes2, si1)) = (i, ns', si')"
    and ok: "nodes_ok ns" and F: "\<And>i. F i = F 0"
    and IH: "\<And>a ns1 si1. build_node p ns si = (a, ns1, si1) \<Longrightarrow> fst (node_values F ns1 ! a) = v"
  shows "fst (node_values F ns' ! i) = fst (F 0 operator [v])"
proof -
  obtain a ns1 si1 where a: "build_node p ns si = (a, ns1, si1)" by (metis prod_cases3)
  then obtain j ns2 where push: "push_node operator [a] ns1 = (j, ns2)" and i: "i = j" "ns' = ns2"
    using eq by (auto split: prod.splits)
  have A: "built ns a ns1" using built_node [OF ok a] .
  note P = built_push [OF A push]
  have "a < length ns1" "i < length ns'" "nodes_ok ns'" using A P(1) i by (simp_all add: built_def)
  then show ?thesis
    using node_values_nth [of ns' i F] built_values [OF P(2), of a F] P(3,4) IH [OF a] i F [of i] by simp
qed

lemma values_binary:
  assumes eq: "(let (a, nodes1, si1) = build_node p ns si; (b, nodes2, si2) = build_node q nodes1 si1;
          (i, nodes3) = push_node operator [a, b] nodes2 in (i, nodes3, si2)) = (i, ns', si')"
    and ok: "nodes_ok ns" and F: "\<And>i. F i = F 0"
    and IH1: "\<And>a ns1 si1. build_node p ns si = (a, ns1, si1) \<Longrightarrow> fst (node_values F ns1 ! a) = v"
    and IH2: "\<And>ns si b ns2 si2. nodes_ok ns \<Longrightarrow> build_node q ns si = (b, ns2, si2) \<Longrightarrow> fst (node_values F ns2 ! b) = w"
  shows "fst (node_values F ns' ! i) = fst (F 0 operator [v, w])"
proof -
  obtain a ns1 si1 where a: "build_node p ns si = (a, ns1, si1)" by (metis prod_cases3)
  obtain b ns2 si2 where b: "build_node q ns1 si1 = (b, ns2, si2)" by (metis prod_cases3)
  obtain j ns3 where push: "push_node operator [a, b] ns2 = (j, ns3)" and i: "i = j" "ns' = ns3"
    using eq a b by (auto split: prod.splits)
  have A: "built ns a ns1" using built_node [OF ok a] .
  have B: "built ns1 b ns2" using built_node [OF built_ok [OF A] b] .
  note P = built_push2 [OF A B push]
  have l: "a < length ns1" "a < length ns2" "b < length ns2" "i < length ns'" "nodes_ok ns'" "take (length ns1) ns2 = ns1"
    using A B P(1) i by (simp_all add: built_def)
  have "fst (node_values F ns' ! a) = v" "fst (node_values F ns' ! b) = w"
    using built_values [OF P(2) l(2), of F] built_values [OF l(6,1), of F] built_values [OF P(2) l(3), of F]
      IH1 [OF a] IH2 [OF built_ok [OF A] b] i by simp_all
  then show ?thesis using node_values_nth [OF l(5,4), of F] P(3,4) i F [of i] by simp
qed

lemma plan_values:
  assumes F: "\<And>i. F i = F 0"
  shows "nodes_ok ns \<Longrightarrow> build_node p ns si = (i, ns', si') \<Longrightarrow>
    fst (node_values F ns' ! i) = plan_output (\<lambda>operator ins. fst (F 0 operator ins)) p"
proof (induction p arbitrary: ns si i ns' si' rule: plan_induct)
  case (Scan table)
  then have "nodes_ok ns'" "i < length ns'" using built_node [OF Scan(1,2)] by (simp_all add: built_def)
  moreover have "nd_operator (ns' ! i) = OpScan table" "nd_inputs (ns' ! i) = []"
    using Scan(2) nodes_ok_push [OF Scan(1), of "[]" "OpScan table"] by (auto split: prod.splits)
  ultimately show ?case using node_values_nth [of ns' i F] F [of i] by simp
next
  case (Filter p pred)
  then show ?case using values_unary [where F = F, OF Filter.prems(2) [unfolded build_node.simps] Filter.prems(1) F] by auto
next
  case (Distinct p)
  then show ?case using values_unary [where F = F, OF Distinct.prems(2) [unfolded build_node.simps] Distinct.prems(1) F] by auto
next
  case (Project p ps)
  then show ?case using values_unary [where F = F, OF Project.prems(2) [unfolded build_node.simps] Project.prems(1) F] by auto
next
  case (Limit p l st ob)
  then show ?case using values_unary [where F = F, OF Limit.prems(2) [unfolded build_node.simps] Limit.prems(1) F] by auto
next
  case (Join p q on)
  then show ?case using values_binary [where F = F, OF Join.prems(2) [unfolded build_node.simps] Join.prems(1) F] by auto
next
  case (SemiJoin p q on)
  then show ?case using values_binary [where F = F, OF SemiJoin.prems(2) [unfolded build_node.simps] SemiJoin.prems(1) F] by auto
next
  case (AntiJoin p q on)
  then show ?case using values_binary [where F = F, OF AntiJoin.prems(2) [unfolded build_node.simps] AntiJoin.prems(1) F] by auto
next
  case (UnionPlan p q)
  then show ?case using values_binary [where F = F, OF UnionPlan.prems(2) [unfolded build_node.simps] UnionPlan.prems(1) F] by auto
qed simp_all

lemma prime_graph_plan:
  assumes g: "from_plan p = Ret g"
  shows "prime_graph en s params g =
    Ret (Some (plan_output (\<lambda>operator ins. fst (prime_node en s params 0 operator ins)) p),
      g\<lparr>gr_nodes := map2 (\<lambda>n v. n\<lparr>nd_operator := snd v\<rparr>) (gr_nodes g) (node_values (prime_node en s params) (gr_nodes g))\<rparr>)"
proof -
  have G: "nodes_ok (gr_nodes g)" "runs_in_order (gr_nodes g) (gr_topo_order g)"
    "length (gr_nodes g) = Suc (gr_output_node g)"
    "build_node p [] [] = (gr_output_node g, gr_nodes g, gr_scan_index g)"
    using from_plan_ok [of p] g by (metis outcome.inject)+
  have F: "prime_node en s params i = prime_node en s params 0" for i by (simp add: fun_eq_iff prime_node_def)
  show ?thesis
    using run_nodes_result [OF G(1,2), of "prime_node en s params"] plan_values [where F = "prime_node en s params", OF F nodes_ok_Nil G(4)] G(3)
    by (simp add: prime_graph_def)
qed

subsection \<open>Routing of table deltas\<close>

text \<open>
  The scan index names exactly the scan nodes, table by table, and a plan's scans read tables the
  plan references.
\<close>

definition routed :: "scan_index \<Rightarrow> string \<Rightarrow> nat list" where
  "routed si t = (case hm_get si t of None \<Rightarrow> [] | Some ids \<Rightarrow> ids)"

definition routes_ok :: "string set \<Rightarrow> node list \<Rightarrow> scan_index \<Rightarrow> bool" where
  "routes_ok T ns si \<longleftrightarrow> (\<forall>t. distinct (routed si t)
     \<and> set (routed si t) = {i. i < length ns \<and> nd_operator (ns ! i) = OpScan t}
     \<and> (routed si t \<noteq> [] \<longrightarrow> t \<in> T))"

lemma routed_route_scan: "routed (route_scan t i si) t' = routed si t' @ (if t' = t then [i] else [])"
  by (simp add: routed_def route_scan_def)

lemma routes_push:
  assumes "routes_ok T ns si" and "push_node operator as ns = (i, ns')" and "\<forall>t. operator \<noteq> OpScan t"
  shows "routes_ok T ns' si"
proof -
  have "{j. j < length ns' \<and> nd_operator (ns' ! j) = OpScan t} = {j. j < length ns \<and> nd_operator (ns ! j) = OpScan t}" for t
    using assms(2,3) by (auto simp: push_node_def Let_def nth_append less_Suc_eq)
  then show ?thesis using assms(1) by (simp add: routes_ok_def)
qed

lemma routes_scan:
  assumes "routes_ok T ns si" and "push_node (OpScan t) [] ns = (i, ns')" and "t \<in> T"
  shows "routes_ok T ns' (route_scan t i si)"
proof -
  have "{j. j < length ns' \<and> nd_operator (ns' ! j) = OpScan t'} =
      {j. j < length ns \<and> nd_operator (ns ! j) = OpScan t'} \<union> (if t' = t then {i} else {})" for t'
    using assms(2) by (auto simp: push_node_def Let_def nth_append less_Suc_eq)
  moreover have "i \<notin> set (routed si t)" using assms(1,2) by (auto simp: routes_ok_def push_node_def Let_def)
  ultimately show ?thesis using assms(1,3) by (auto simp: routes_ok_def routed_route_scan)
qed

lemma routes_unary:
  assumes "(let (a, nodes1, si1) = build_node p ns si; (i, nodes2) = push_node operator [a] nodes1
      in (i, nodes2, si1)) = (i, ns', si')"
    and "\<And>a ns1 si1. build_node p ns si = (a, ns1, si1) \<Longrightarrow> routes_ok T ns1 si1" and "\<forall>t. operator \<noteq> OpScan t"
  shows "routes_ok T ns' si'"
proof -
  obtain a ns1 si1 where a: "build_node p ns si = (a, ns1, si1)" by (metis prod_cases3)
  then show ?thesis using assms(1) routes_push [OF assms(2) [OF a] _ assms(3)] by (auto split: prod.splits)
qed

lemma routes_binary:
  assumes "(let (a, nodes1, si1) = build_node p ns si; (b, nodes2, si2) = build_node q nodes1 si1;
          (i, nodes3) = push_node operator [a, b] nodes2 in (i, nodes3, si2)) = (i, ns', si')"
    and "\<And>a ns1 si1. build_node p ns si = (a, ns1, si1) \<Longrightarrow> routes_ok T ns1 si1"
    and "\<And>ns si b ns2 si2. routes_ok T ns si \<Longrightarrow> build_node q ns si = (b, ns2, si2) \<Longrightarrow> routes_ok T ns2 si2"
    and "\<forall>t. operator \<noteq> OpScan t"
  shows "routes_ok T ns' si'"
proof -
  obtain a ns1 si1 where a: "build_node p ns si = (a, ns1, si1)" by (metis prod_cases3)
  obtain b ns2 si2 where b: "build_node q ns1 si1 = (b, ns2, si2)" by (metis prod_cases3)
  show ?thesis using assms(1) a b routes_push [OF assms(3) [OF assms(2) [OF a] b] _ assms(4)] by (auto split: prod.splits)
qed

lemma routes_node:
  "set (collect_tables p) \<subseteq> T \<Longrightarrow> routes_ok T ns si \<Longrightarrow> build_node p ns si = (i, ns', si') \<Longrightarrow> routes_ok T ns' si'"
proof (induction p arbitrary: ns si i ns' si' rule: plan_induct)
  case (Scan table)
  then show ?case using routes_scan [OF Scan(2), of table] by (auto split: prod.splits)
next
  case (Filter p pred)
  show ?case by (rule routes_unary [OF Filter.prems(3) [unfolded build_node.simps]]) (use Filter in auto)
next
  case (Distinct p)
  show ?case by (rule routes_unary [OF Distinct.prems(3) [unfolded build_node.simps]]) (use Distinct in auto)
next
  case (Project p ps)
  show ?case by (rule routes_unary [OF Project.prems(3) [unfolded build_node.simps]]) (use Project.IH(1) [OF _ Project.prems(2)] Project.prems(1) in auto)
next
  case (Limit p l st ob)
  show ?case by (rule routes_unary [OF Limit.prems(3) [unfolded build_node.simps]]) (use Limit in auto)
next
  case (Join p q on)
  have t: "set (collect_tables p) \<subseteq> T" "set (collect_tables q) \<subseteq> T" using Join.prems(1) by simp_all
  show ?case by (rule routes_binary [OF Join.prems(3) [unfolded build_node.simps] Join.IH(1) [OF t(1) Join.prems(2)] Join.IH(2) [OF t(2)]]) simp_all
next
  case (SemiJoin p q on)
  have t: "set (collect_tables p) \<subseteq> T" "set (collect_tables q) \<subseteq> T" using SemiJoin.prems(1) by simp_all
  show ?case by (rule routes_binary [OF SemiJoin.prems(3) [unfolded build_node.simps] SemiJoin.IH(1) [OF t(1) SemiJoin.prems(2)] SemiJoin.IH(2) [OF t(2)]]) simp_all
next
  case (AntiJoin p q on)
  have t: "set (collect_tables p) \<subseteq> T" "set (collect_tables q) \<subseteq> T" using AntiJoin.prems(1) by simp_all
  show ?case by (rule routes_binary [OF AntiJoin.prems(3) [unfolded build_node.simps] AntiJoin.IH(1) [OF t(1) AntiJoin.prems(2)] AntiJoin.IH(2) [OF t(2)]]) simp_all
next
  case (UnionPlan p q)
  have t: "set (collect_tables p) \<subseteq> T" "set (collect_tables q) \<subseteq> T" using UnionPlan.prems(1) by simp_all
  show ?case by (rule routes_binary [OF UnionPlan.prems(3) [unfolded build_node.simps] UnionPlan.IH(1) [OF t(1) UnionPlan.prems(2)] UnionPlan.IH(2) [OF t(2)]]) simp_all
qed simp_all

text \<open>
  C34. Every plan compiles to a graph that can be executed: building it never panics, the
  execution order runs every node exactly once and after the nodes it reads, the output node is
  the last one, and the scan index routes a table's delta to exactly the scan nodes of that
  table; every table so routed is one of the plan's referenced tables.
\<close>

theorem from_plan_executable:
  "\<exists>g. from_plan p = Ret g
     \<and> runs_in_order (gr_nodes g) (gr_topo_order g)
     \<and> length (gr_nodes g) = Suc (gr_output_node g)
     \<and> set (scan_nodes_for_table g t) = {i. i < length (gr_nodes g) \<and> nd_operator (gr_nodes g ! i) = OpScan t}
     \<and> distinct (scan_nodes_for_table g t)
     \<and> {t. scan_nodes_for_table g t \<noteq> []} \<subseteq> set (referenced_tables p)"
proof -
  obtain g where g: "from_plan p = Ret g" "runs_in_order (gr_nodes g) (gr_topo_order g)"
    "length (gr_nodes g) = Suc (gr_output_node g)" "build_node p [] [] = (gr_output_node g, gr_nodes g, gr_scan_index g)"
    using from_plan_ok [of p] by blast
  have "routes_ok (set (referenced_tables p)) (gr_nodes g) (gr_scan_index g)"
    by (rule routes_node [OF _ _ g(4)]) (simp_all add: referenced_tables_def routes_ok_def routed_def)
  then have "set (scan_nodes_for_table g t) = {i. i < length (gr_nodes g) \<and> nd_operator (gr_nodes g ! i) = OpScan t}"
    "distinct (scan_nodes_for_table g t)" "{t. scan_nodes_for_table g t \<noteq> []} \<subseteq> set (referenced_tables p)"
    unfolding routes_ok_def scan_nodes_for_table_def routed_def [symmetric] by blast+
  with g show ?thesis by blast
qed

end
