(* ===== verification/Top_K_Invariant.thy ===== *)
theory Top_K_Invariant
  imports Top_K
begin

section \<open>The bounded window is exact\<close>

text \<open>
  The buffer of a \<^verbatim>\<open>TopK\<close> is described by the sort key every live row was admitted with, a
  map \<open>X\<close>: it holds the rows of \<open>X\<close> below the boundary, and all of them while there is no
  boundary. Every operation keeps this, so the window is the one of the whole input unless
  \<^verbatim>\<open>needs_rebuild\<close> says otherwise.
\<close>

type_synonym admitted_keys = "row_key \<Rightarrow> sort_key option"

definition entries_of :: "admitted_keys \<Rightarrow> entry set" where
  "entries_of X = {(sk, k). X k = Some sk}"

definition below :: "entry option \<Rightarrow> entry \<Rightarrow> bool" where
  "below bound e = (case bound of None \<Rightarrow> True | Some b \<Rightarrow> entry_less e b)"

definition topk_inv :: "bool list \<Rightarrow> admitted_keys \<Rightarrow> top_k \<Rightarrow> bool" where
  "topk_inv dirs X tk \<longleftrightarrow>
     cmp_sorted entry_cmp (tk_buffer tk) \<and> hm_wf (tk_key_index tk)
     \<and> (\<forall>k sk. hm_get (tk_key_index tk) k = Some sk \<longleftrightarrow> (sk, k) \<in> set (tk_buffer tk))
     \<and> length (tk_buffer tk) \<le> tk_capacity tk
     \<and> (\<forall>b. tk_boundary tk = Some b \<longrightarrow> key_exact dirs (fst b))
     \<and> (\<forall>k sk. X k = Some sk \<longrightarrow> key_exact dirs sk)
     \<and> set (tk_buffer tk) = {e \<in> entries_of X. below (tk_boundary tk) e}"

lemma topk_invD:
  assumes "topk_inv dirs X tk"
  shows "cmp_sorted entry_cmp (tk_buffer tk)" "hm_wf (tk_key_index tk)"
    and "hm_get (tk_key_index tk) k = Some sk \<longleftrightarrow> (sk, k) \<in> set (tk_buffer tk)"
    and "length (tk_buffer tk) \<le> tk_capacity tk"
    and "tk_boundary tk = Some b \<Longrightarrow> key_exact dirs (fst b)"
    and "X k = Some sk \<Longrightarrow> key_exact dirs sk"
    and "(sk, k) \<in> set (tk_buffer tk) \<longleftrightarrow> X k = Some sk \<and> below (tk_boundary tk) (sk, k)"
    and "list_all (\<lambda>e. key_exact dirs (fst e)) (tk_buffer tk)"
  using assms by (auto simp: topk_inv_def entries_of_def list_all_iff)

lemma topk_inv_cong:
  "topk_inv dirs X tk \<Longrightarrow> \<forall>e. below (tk_boundary tk) e \<longrightarrow> (e \<in> entries_of Y \<longleftrightarrow> e \<in> entries_of X) \<Longrightarrow>
   \<forall>k sk. Y k = Some sk \<longrightarrow> key_exact dirs sk \<Longrightarrow> topk_inv dirs Y tk"
  unfolding topk_inv_def by blast

text \<open>An entry whose row is not in a buffer is new to it.\<close>

lemma fresh_new_row: "\<forall>y \<in> set s. snd y = k \<longrightarrow> y = (sk, k) \<Longrightarrow> fresh entry_cmp (sk, k) s"
  by (auto simp: fresh_def pair_cmp_Equal)

text \<open>
  A history of the operator: deltas from upstream, and re-evaluations of one updated row. The
  reference map follows the same events.
\<close>

datatype topk_event =
    Topk_Delta store zset
  | Topk_Reorder store row_key bool

definition topk_event_step :: "topk_ops \<Rightarrow> topk_event \<Rightarrow> top_k \<Rightarrow> zset \<times> top_k" where
  "topk_event_step ops ev tk =
     (case ev of
        Topk_Delta s d \<Rightarrow> topk_step ops s tk [d]
      | Topk_Reorder s k up \<Rightarrow> topk_reorder_key ops s k up tk)"

fun topk_run :: "topk_ops \<Rightarrow> topk_event list \<Rightarrow> top_k \<Rightarrow> zset list \<times> top_k" where
  "topk_run ops [] tk = ([], tk)"
| "topk_run ops (ev # evs) tk =
     (let (d, tk1) = topk_event_step ops ev tk; (ds, tk2) = topk_run ops evs tk1 in (d # ds, tk2))"

definition admit_entry :: "order_spec list option \<Rightarrow> store \<Rightarrow> row_key \<times> weight \<Rightarrow> admitted_keys \<Rightarrow> admitted_keys" where
  "admit_entry ord s e X =
     (case e of (k, w) \<Rightarrow>
        if w_pos w then X(k \<mapsto> compute_sort_key ord k s) else if sint w < 0 then X(k := None) else X)"

definition admit_event :: "order_spec list option \<Rightarrow> topk_event \<Rightarrow> admitted_keys \<Rightarrow> admitted_keys" where
  "admit_event ord ev X =
     (case ev of
        Topk_Delta s d \<Rightarrow> fold (admit_entry ord s) d X
      | Topk_Reorder s k up \<Rightarrow> if up then X(k \<mapsto> compute_sort_key ord k s) else X(k := None))"

definition event_exact :: "bool list \<Rightarrow> order_spec list option \<Rightarrow> topk_event \<Rightarrow> bool" where
  "event_exact dirs ord ev =
     (case ev of
        Topk_Delta s d \<Rightarrow> list_all (\<lambda>(k, w). w_pos w \<longrightarrow> key_exact dirs (compute_sort_key ord k s)) d
      | Topk_Reorder s k up \<Rightarrow> up \<longrightarrow> key_exact dirs (compute_sort_key ord k s))"

text \<open>The output delta of a step is the difference of the two windows.\<close>

lemma zget_entering:
  "zget (fold (\<lambda>k out. if k \<notin> old then hm_insert k (zget out k + 1) out else out) new out) k =
   zget out k + (if k \<notin> old then of_nat (count_list new k) else 0)"
  by (induction new arbitrary: out) (auto simp: zget_insert)

lemma zget_leaving:
  "zget (fold (\<lambda>k out. if k \<notin> new then hm_insert k (zget out k - 1) out else out) old out) k =
   zget out k - (if k \<notin> new then of_nat (count_list old k) else 0)"
  by (induction old arbitrary: out) (auto simp: zget_insert)

lemma zget_retain_nonzero: "hm_wf z \<Longrightarrow> zget (hm_retain (\<lambda>_ w. w \<noteq> 0) z) k = zget z k"
  by (auto simp: zget_def hm_get_retain split: option.splits)

lemma hm_wf_window_fold:
  "hm_wf out \<Longrightarrow> hm_wf (fold (\<lambda>k out. if p k then hm_insert k (f out k) out else out) ks out)"
  by (induction ks arbitrary: out) auto

lemma count_list_distinct: "distinct xs \<Longrightarrow> count_list xs k = of_bool (k \<in> set xs)"
  by (induction xs) auto

lemma zget_window_delta:
  assumes "distinct old" and "distinct new"
  shows "zget (window_delta old new) k = of_bool (k \<in> set new) - of_bool (k \<in> set old)"
  using assms
  by (simp add: window_delta_def Let_def zget_retain_nonzero hm_wf_window_fold zget_leaving zget_entering
      count_list_distinct)

lemma hm_wf_window_delta: "hm_wf (window_delta old new)"
  by (simp add: window_delta_def Let_def hm_wf_window_fold)

locale topk_buffer = ordered_set entry_cmp "\<lambda>e. key_exact dirs (fst e)" ops
  for dirs :: "bool list" and ops :: topk_ops
begin

lemma drop_key_fields [simp]:
  "tk_limit (drop_key ops k tk) = tk_limit tk" "tk_offset (drop_key ops k tk) = tk_offset tk"
  "tk_order_by (drop_key ops k tk) = tk_order_by tk" "tk_capacity (drop_key ops k tk) = tk_capacity tk"
  "tk_boundary (drop_key ops k tk) = tk_boundary tk"
  by (simp_all add: drop_key_def split: option.splits)

lemma sorted_length_card:
  "list_all (\<lambda>e. key_exact dirs (fst e)) xs \<Longrightarrow> cmp_sorted entry_cmp xs \<Longrightarrow> length xs = card (set xs)"
  using sorted_distinct distinct_card by metis

lemma drop_key_inv:
  assumes inv: "topk_inv dirs X tk"
  shows "topk_inv dirs (X(k := None)) (drop_key ops k tk)"
    and "\<forall>e \<in> set (tk_buffer (drop_key ops k tk)). snd e \<noteq> k"
proof -
  note I = topk_invD [OF inv]
  have "topk_inv dirs (X(k := None)) (drop_key ops k tk) \<and> (\<forall>e \<in> set (tk_buffer (drop_key ops k tk)). snd e \<noteq> k)"
  proof (cases "hm_get (tk_key_index tk) k")
    case None
    then have absent: "\<forall>e \<in> set (tk_buffer tk). snd e \<noteq> k" using I(3) [where k = k] by force
    then have "topk_inv dirs (X(k := None)) tk"
      using inv by (auto simp: topk_inv_def entries_of_def split: if_splits)
    then show ?thesis using None absent by (simp add: drop_key_def)
  next
    case (Some sk)
    let ?buf = "snd (so_remove ops (sk, k) (tk_buffer tk))"
    have mem: "(sk, k) \<in> set (tk_buffer tk)" using Some I(3) by simp
    have only: "\<forall>y \<in> set (tk_buffer tk). snd y = k \<longrightarrow> y = (sk, k)" by (metis I(3) Some option.inject prod.collapse)
    have D: "key_exact dirs (fst (sk, k))" using I(8) mem by (auto simp: list_all_iff)
    note R = remove_simps [OF D I(8) I(1) fresh_new_row [OF only]]
    have "length ?buf \<le> tk_capacity tk"
    proof -
      have "length ?buf = card (set ?buf)" using R(2,3) sorted_length_card by blast
      also have "\<dots> \<le> card (set (tk_buffer tk))" using R(1) by (simp add: card_mono)
      also have "\<dots> \<le> length (tk_buffer tk)" by (rule card_length)
      finally show ?thesis using I(4) by simp
    qed
    moreover have "hm_get (hm_remove k (tk_key_index tk)) k' = Some sk' \<longleftrightarrow> (sk', k') \<in> set ?buf" for k' sk'
      using I(3) [where k = k' and sk = sk'] R(1) only by auto
    moreover have "set ?buf = {e \<in> entries_of (X(k := None)). below (tk_boundary tk) e}"
      using R(1) only I(7) by (auto simp: entries_of_def split: if_splits)
    moreover have "drop_key ops k tk = tk\<lparr>tk_key_index := hm_remove k (tk_key_index tk), tk_buffer := ?buf\<rparr>"
      using Some by (simp add: drop_key_def)
    ultimately have "topk_inv dirs (X(k := None)) (drop_key ops k tk)"
      using inv R(2) by (simp add: topk_inv_def)
    moreover have "\<forall>e \<in> set ?buf. snd e \<noteq> k" using R(1) only by auto
    ultimately show ?thesis using Some by (simp add: drop_key_def)
  qed
  then show "topk_inv dirs (X(k := None)) (drop_key ops k tk)"
    "\<forall>e \<in> set (tk_buffer (drop_key ops k tk)). snd e \<noteq> k" by auto
qed

lemma evict_last_inv:
  assumes sorted: "cmp_sorted entry_cmp (tk_buffer tk)" and wf: "hm_wf (tk_key_index tk)"
    and ix: "\<forall>k sk. hm_get (tk_key_index tk) k = Some sk \<longleftrightarrow> (sk, k) \<in> set (tk_buffer tk)"
    and len: "length (tk_buffer tk) = Suc (tk_capacity tk)"
    and b: "\<forall>b. tk_boundary tk = Some b \<longrightarrow> key_exact dirs (fst b)"
    and X: "\<forall>k sk. X k = Some sk \<longrightarrow> key_exact dirs sk"
    and buf: "set (tk_buffer tk) = {e \<in> entries_of X. below (tk_boundary tk) e}"
  shows "topk_inv dirs X (evict_last tk)"
proof -
  obtain xs e where xs: "tk_buffer tk = xs @ [e]" using len by (cases "tk_buffer tk" rule: rev_cases) auto
  have D: "key_exact dirs (fst x)" if "x \<in> set (tk_buffer tk)" for x
    using that buf X by (auto simp: entries_of_def)
  have less: "\<forall>x \<in> set xs. entry_cmp x e = Less" using sorted xs by (simp add: cmp_sorted_append)
  have e: "e \<in> entries_of X" "below (tk_boundary tk) e" using buf xs by auto
  have bound: "tk_boundary (evict_last tk) = Some e"
    using e(2) xs by (cases "tk_boundary tk") (simp_all add: evict_last_def lower_boundary_def below_def)
  have below_e: "below (tk_boundary tk) x" if "x \<in> entries_of X" "entry_less x e" for x
  proof (cases "tk_boundary tk")
    case (Some b')
    have "key_exact dirs (fst x)" "key_exact dirs (fst e)" "key_exact dirs (fst b')"
      using that X b Some e by (auto simp: entries_of_def)
    then show ?thesis
      using cmp_trans [of x e b'] that e Some by (simp add: below_def entry_less_def)
  qed (simp add: below_def)
  have irr: "entry_cmp e e \<noteq> Less" using not_Less_self [of e] D xs by simp
  have other: "snd x \<noteq> snd e" if "x \<in> set xs" for x
  proof
    assume "snd x = snd e"
    then have "x = e" using ix xs that by (metis in_set_conv_decomp option.inject prod.collapse Un_iff set_append)
    then show False using less that irr by auto
  qed
  have set: "set xs = {x \<in> entries_of X. below (Some e) x}"
  proof (intro set_eqI iffI)
    fix x assume x: "x \<in> {x \<in> entries_of X. below (Some e) x}"
    then have "x \<noteq> e" "x \<in> set (tk_buffer tk)"
      using irr below_e [of x] buf by (auto simp: below_def entry_less_def)
    then show "x \<in> set xs" using xs by simp
  qed (use buf xs less in \<open>auto simp: below_def entry_less_def\<close>)
  have ix': "hm_get (hm_remove (snd e) (tk_key_index tk)) k = Some sk \<longleftrightarrow> (sk, k) \<in> set xs" for k sk
    using ix xs other [of "(sk, k)"] by (cases e) auto
  have "tk_buffer (evict_last tk) = xs" "tk_key_index (evict_last tk) = hm_remove (snd e) (tk_key_index tk)"
    "tk_capacity (evict_last tk) = tk_capacity tk"
    using xs by (simp_all add: evict_last_def lower_boundary_def split: option.splits)
  then show ?thesis
    using bound set ix' wf X sorted xs len D
    by (simp add: topk_inv_def cmp_sorted_append)
qed

lemma skip_inv:
  assumes inv: "topk_inv dirs X tk" and e: "key_exact dirs (fst e)" "X (snd e) = None"
    and skip: "(\<forall>x \<in> set (tk_buffer tk). entry_less x e) \<or> \<not> below (tk_boundary tk) e"
  shows "topk_inv dirs (X(snd e \<mapsto> fst e)) (lower_boundary e tk)"
proof -
  note I = topk_invD [OF inv]
  have irr: "entry_cmp e e \<noteq> Less" using not_Less_self [of e] e by simp
  have entries: "entries_of (X(snd e \<mapsto> fst e)) = insert e (entries_of X)"
    using e(2) by (cases e) (auto simp: entries_of_def)
  have exact: "\<forall>k sk. (X(snd e \<mapsto> fst e)) k = Some sk \<longrightarrow> key_exact dirs sk" using I(6) e by auto
  show ?thesis
  proof (cases "below (tk_boundary tk) e")
    case False
    then have "lower_boundary e tk = tk" by (auto simp: lower_boundary_def below_def split: option.splits)
    then show ?thesis using inv False entries exact by (auto intro!: topk_inv_cong [OF inv])
  next
    case True
    then have eq: "lower_boundary e tk = tk\<lparr>tk_boundary := Some e\<rparr>"
      by (cases "tk_boundary tk") (simp_all add: lower_boundary_def below_def)
    have all: "\<forall>x \<in> set (tk_buffer tk). entry_less x e" using skip True by simp
    have "below (tk_boundary tk) x" if "x \<in> entries_of X" "entry_less x e" for x
    proof (cases "tk_boundary tk")
      case (Some b)
      then show ?thesis
        using cmp_trans [of x e b] that e True I(5,6) by (auto simp: below_def entry_less_def entries_of_def)
    qed (simp add: below_def)
    then have "set (tk_buffer tk) = {x \<in> insert e (entries_of X). below (Some e) x}"
      using inv all irr by (auto simp: topk_inv_def below_def entry_less_def)
    then have buf: "set (tk_buffer (lower_boundary e tk)) =
        {x \<in> entries_of (X(snd e \<mapsto> fst e)). below (tk_boundary (lower_boundary e tk)) x}"
      using entries eq by simp
    show ?thesis unfolding topk_inv_def
      by (intro conjI buf exact) (use I(1-5) e(1) eq in simp_all)
  qed
qed

lemma insert_inv:
  assumes inv: "topk_inv dirs X tk" and e: "key_exact dirs (fst e)"
    and new: "\<forall>x \<in> set (tk_buffer tk). snd x \<noteq> snd e" "X (snd e) = None"
    and below: "below (tk_boundary tk) e"
    and tk1: "tk1 = tk\<lparr>tk_key_index := hm_insert (snd e) (fst e) (tk_key_index tk),
                       tk_buffer := snd (so_insert ops e (tk_buffer tk))\<rparr>"
  shows "topk_inv dirs (X(snd e \<mapsto> fst e)) (if tk_capacity tk1 < length (tk_buffer tk1) then evict_last tk1 else tk1)"
proof -
  note I = topk_invD [OF inv]
  have fresh: "fresh entry_cmp e (tk_buffer tk)"
    using fresh_new_row [of "tk_buffer tk" "snd e" "fst e"] new(1) by simp
  note R = insert_simps [OF e I(8) I(1) fresh]
  have len: "length (tk_buffer tk1) = Suc (length (tk_buffer tk))"
    using length_insert [OF e I(8) I(1) fresh] new(1) tk1 by auto
  have entries: "entries_of (X(snd e \<mapsto> fst e)) = insert e (entries_of X)"
    using new(2) by (cases e) (auto simp: entries_of_def)
  have sorted: "cmp_sorted entry_cmp (tk_buffer tk1)" and wf: "hm_wf (tk_key_index tk1)"
    using R(2) I(2) tk1 by simp_all
  have ix: "\<forall>k sk. hm_get (tk_key_index tk1) k = Some sk \<longleftrightarrow> (sk, k) \<in> set (tk_buffer tk1)"
    using I(3) R(1) new(1) unfolding tk1 by (cases e) auto
  have b: "\<forall>b. tk_boundary tk1 = Some b \<longrightarrow> key_exact dirs (fst b)" using I(5) tk1 by simp
  have exact: "\<forall>k sk. (X(snd e \<mapsto> fst e)) k = Some sk \<longrightarrow> key_exact dirs sk" using I(6) e by auto
  have buf: "set (tk_buffer tk1) = {x \<in> entries_of (X(snd e \<mapsto> fst e)). below (tk_boundary tk1) x}"
    using inv R(1) below unfolding entries tk1 by (auto simp: topk_inv_def)
  show ?thesis
  proof (cases "tk_capacity tk1 < length (tk_buffer tk1)")
    case True
    then have "length (tk_buffer tk1) = Suc (tk_capacity tk1)" using len I(4) tk1 by simp
    then show ?thesis using evict_last_inv [OF sorted wf ix _ b exact buf] True by simp
  next
    case False
    then show ?thesis using sorted wf ix b exact buf by (simp add: topk_inv_def)
  qed
qed

lemma admit_key_inv:
  assumes inv: "topk_inv dirs X tk" and e: "key_exact dirs (compute_sort_key (tk_order_by tk) k s)"
  shows "topk_inv dirs (X(k \<mapsto> compute_sort_key (tk_order_by tk) k s)) (admit_key ops s k tk)"
proof -
  let ?e = "(compute_sort_key (tk_order_by tk) k s, k)" and ?t = "drop_key ops k tk"
  note T = drop_key_inv [OF inv, of k]
  note I = topk_invD [OF T(1)]
  have upd: "(X(k := None))(snd ?e \<mapsto> fst ?e) = X(k \<mapsto> compute_sort_key (tk_order_by tk) k s)" by simp
  let ?full = "tk_capacity ?t \<le> length (tk_buffer ?t) \<and> tk_buffer ?t \<noteq> [] \<and> entry_cmp ?e (last (tk_buffer ?t)) = Greater"
  have past: "\<forall>x \<in> set (tk_buffer ?t). entry_less x ?e" if ?full
  proof
    fix x assume x: "x \<in> set (tk_buffer ?t)"
    let ?l = "last (tk_buffer ?t)"
    have D: "key_exact dirs (fst x)" "key_exact dirs (fst ?l)" "key_exact dirs (fst ?e)"
      using I(8) x that e by (auto simp: list_all_iff)
    have "entry_cmp ?l ?e = Less" using that Greater_iff [OF D(3) D(2)] by simp
    moreover have "x = ?l \<or> entry_cmp x ?l = Less"
      using I(1) x that by (cases "tk_buffer ?t" rule: rev_cases) (auto simp: cmp_sorted_append)
    ultimately show "entry_less x ?e" using cmp_trans [OF D(1,2,3)] by (auto simp: entry_less_def)
  qed
  show ?thesis
  proof (cases "?full \<or> \<not> below (tk_boundary ?t) ?e")
    case True
    then have "admit_key ops s k tk = lower_boundary ?e ?t"
      by (auto simp: admit_key_def Let_def below_def split: option.splits)
    moreover have "topk_inv dirs ((X(k := None))(snd ?e \<mapsto> fst ?e)) (lower_boundary ?e ?t)"
      using True past e by (intro skip_inv [OF T(1)]) auto
    ultimately show ?thesis using upd by simp
  next
    case False
    then have eq: "admit_key ops s k tk =
        (let tk1 = ?t\<lparr>tk_key_index := hm_insert (snd ?e) (fst ?e) (tk_key_index ?t),
                      tk_buffer := snd (so_insert ops ?e (tk_buffer ?t))\<rparr>
         in if tk_capacity tk1 < length (tk_buffer tk1) then evict_last tk1 else tk1)"
      by (auto simp: admit_key_def Let_def below_def split: option.splits)
    show ?thesis unfolding eq Let_def
      by (subst upd [symmetric], rule insert_inv [OF T(1)]) (use False T(2) e in auto)
  qed
qed

lemma step_fields:
  "tk_limit (admit_key ops s k tk) = tk_limit tk" "tk_offset (admit_key ops s k tk) = tk_offset tk"
  "tk_order_by (admit_key ops s k tk) = tk_order_by tk" "tk_capacity (admit_key ops s k tk) = tk_capacity tk"
  by (simp_all add: admit_key_def evict_last_def lower_boundary_def Let_def split: option.splits)

lemma step_key_fields:
  "tk_limit (step_key ops s e tk) = tk_limit tk \<and> tk_offset (step_key ops s e tk) = tk_offset tk
   \<and> tk_order_by (step_key ops s e tk) = tk_order_by tk \<and> tk_capacity (step_key ops s e tk) = tk_capacity tk"
  by (simp add: step_key_def step_fields split: prod.splits)

lemma fold_step_fields:
  "tk_limit (fold (step_key ops s) d tk) = tk_limit tk \<and> tk_offset (fold (step_key ops s) d tk) = tk_offset tk
   \<and> tk_order_by (fold (step_key ops s) d tk) = tk_order_by tk
   \<and> tk_capacity (fold (step_key ops s) d tk) = tk_capacity tk"
  by (induction d arbitrary: tk) (simp_all add: step_key_fields)

lemma fold_step_inv:
  "topk_inv dirs X tk \<Longrightarrow>
   list_all (\<lambda>(k, w). w_pos w \<longrightarrow> key_exact dirs (compute_sort_key (tk_order_by tk) k s)) d \<Longrightarrow>
   topk_inv dirs (fold (admit_entry (tk_order_by tk) s) d X) (fold (step_key ops s) d tk)"
proof (induction d arbitrary: X tk)
  case (Cons e d)
  obtain k w where e: "e = (k, w)" by (cases e)
  have "topk_inv dirs (admit_entry (tk_order_by tk) s e X) (step_key ops s e tk)"
    using Cons.prems admit_key_inv [of X tk k s] drop_key_inv(1) [of X tk k] e
    by (simp add: admit_entry_def step_key_def)
  then show ?case
    using Cons.IH [of "admit_entry (tk_order_by tk) s e X" "step_key ops s e tk"] Cons.prems
    by (simp add: step_key_fields)
qed simp

lemma window_distinct: "topk_inv dirs X tk \<Longrightarrow> distinct (current_window tk)"
proof -
  assume inv: "topk_inv dirs X tk"
  note I = topk_invD [OF inv]
  have "inj_on snd (set (tk_buffer tk))"
    by (rule inj_onI) (metis I(3) option.inject prod.collapse)
  then have "distinct (map snd (tk_buffer tk))"
    using sorted_distinct [OF I(8) I(1)] by (simp add: distinct_map)
  then have "distinct (take m (drop n (map snd (tk_buffer tk))))" for m n by simp
  then show ?thesis by (simp add: current_window_def Let_def take_map drop_map)
qed

lemma topk_step_out:
  assumes inv: "topk_inv dirs X tk" and inv': "topk_inv dirs X' (snd (topk_step ops s tk ds))"
  shows "zget (fst (topk_step ops s tk ds)) k =
     of_bool (k \<in> set (current_window (snd (topk_step ops s tk ds)))) - of_bool (k \<in> set (current_window tk))"
    and "hm_wf (fst (topk_step ops s tk ds))"
  using window_distinct [OF inv] window_distinct [OF inv']
  by (simp_all add: topk_step_def Let_def zget_window_delta hm_wf_window_delta)

lemma fold_delta_zget: "hm_wf d \<Longrightarrow> zget (fold_delta d out) k = zget out k + zget d k"
  by (induction d arbitrary: out) (auto simp: fold_delta_def zget_Cons zget_absent split: if_splits)

lemma hm_wf_fold_delta: "hm_wf out \<Longrightarrow> hm_wf (fold_delta d out)"
  by (induction d arbitrary: out) (auto simp: fold_delta_def)

lemma step_one_inv:
  assumes inv: "topk_inv dirs X tk" and "w_pos w \<longrightarrow> key_exact dirs (compute_sort_key (tk_order_by tk) k s)"
  shows "topk_inv dirs (admit_entry (tk_order_by tk) s (k, w) X) (snd (topk_step ops s tk [[(k, w)]]))"
  using fold_step_inv [OF inv, of s "[(k, w)]"] assms(2) by (simp add: topk_step_def Let_def)

lemma topk_step_fields:
  "tk_limit (snd (topk_step ops s tk ds)) = tk_limit tk" "tk_offset (snd (topk_step ops s tk ds)) = tk_offset tk"
  "tk_order_by (snd (topk_step ops s tk ds)) = tk_order_by tk"
  by (simp_all add: topk_step_def Let_def fold_step_fields)

lemma reorder_inv:
  fixes ups :: bool
  assumes inv: "topk_inv dirs X tk" and exact: "ups \<longrightarrow> key_exact dirs (compute_sort_key (tk_order_by tk) k s)"
    and r: "topk_reorder_key ops s k ups tk = (d, tk')"
  shows "topk_inv dirs (if ups then X(k \<mapsto> compute_sort_key (tk_order_by tk) k s) else X(k := None)) tk'"
    and "zget d k' = of_bool (k' \<in> set (current_window tk')) - of_bool (k' \<in> set (current_window tk))"
    and "tk_limit tk' = tk_limit tk \<and> tk_offset tk' = tk_offset tk \<and> tk_order_by tk' = tk_order_by tk"
proof -
  define r1 where "r1 = (if hm_contains (tk_key_index tk) k
      then (case topk_step ops s tk [[(k, - 1)]] of (d, t) \<Rightarrow> (fold_delta d [], t)) else ([], tk))"
  obtain o1 t1 where o1: "r1 = (o1, t1)" by (cases r1)
  have neg: "\<not> w_pos (- 1)" "sint (- 1 :: weight) < 0" "w_pos 1" by (simp_all add: w_pos_def)
  have 1: "topk_inv dirs (X(k := None)) t1
      \<and> (\<forall>k'. zget o1 k' = of_bool (k' \<in> set (current_window t1)) - of_bool (k' \<in> set (current_window tk)))
      \<and> tk_limit t1 = tk_limit tk \<and> tk_offset t1 = tk_offset tk \<and> tk_order_by t1 = tk_order_by tk \<and> hm_wf o1"
  proof (cases "hm_contains (tk_key_index tk) k")
    case True
    let ?r = "topk_step ops s tk [[(k, - 1)]]"
    have inv1: "topk_inv dirs (X(k := None)) (snd ?r)"
      using step_one_inv [OF inv, of "- 1" k s] neg by (simp add: admit_entry_def)
    have "o1 = fold_delta (fst ?r) []" "t1 = snd ?r" using o1 True by (auto simp: r1_def split: prod.splits)
    then show ?thesis
      using inv1 topk_step_out [OF inv inv1] topk_step_fields
      by (simp add: fold_delta_zget hm_wf_fold_delta)
  next
    case False
    then have "drop_key ops k tk = tk" by (simp add: drop_key_def hm_contains_def split: option.splits)
    then show ?thesis using drop_key_inv(1) [OF inv, of k] o1 False by (simp add: r1_def)
  qed
  have r': "topk_reorder_key ops s k ups tk =
      (let (out2, tk2) = (if ups then (case topk_step ops s t1 [[(k, 1)]] of (d, t) \<Rightarrow> (fold_delta d o1, t)) else (o1, t1))
       in (hm_retain (\<lambda>_ w. w \<noteq> 0) out2, tk2))"
    using o1 by (simp add: topk_reorder_key_def r1_def [symmetric])
  let ?r = "topk_step ops s t1 [[(k, 1)]]"
  have inv2: "topk_inv dirs (X(k \<mapsto> compute_sort_key (tk_order_by tk) k s)) (snd ?r)" if ups
    using step_one_inv [of "X(k := None)" t1 1 k s] 1 exact that neg by (simp add: admit_entry_def)
  have 2: "d = hm_retain (\<lambda>_ w. w \<noteq> 0) (if ups then fold_delta (fst ?r) o1 else o1)" "tk' = (if ups then snd ?r else t1)"
    using r r' by (auto split: prod.splits if_splits)
  show "topk_inv dirs (if ups then X(k \<mapsto> compute_sort_key (tk_order_by tk) k s) else X(k := None)) tk'"
    using 1 2 inv2 by simp
  show "zget d k' = of_bool (k' \<in> set (current_window tk')) - of_bool (k' \<in> set (current_window tk))"
  proof (cases ups)
    case True
    then show ?thesis
      using 1 2 topk_step_out [OF _ inv2 [OF True], of "X(k := None)"]
      by (simp add: zget_retain_nonzero hm_wf_fold_delta fold_delta_zget)
  qed (use 1 2 in \<open>simp add: zget_retain_nonzero\<close>)
  show "tk_limit tk' = tk_limit tk \<and> tk_offset tk' = tk_offset tk \<and> tk_order_by tk' = tk_order_by tk"
    using 1 2 topk_step_fields by simp
qed

lemma event_inv:
  assumes inv: "topk_inv dirs X tk" and exact: "event_exact dirs (tk_order_by tk) ev"
    and r: "topk_event_step ops ev tk = (d, tk')"
  shows "topk_inv dirs (admit_event (tk_order_by tk) ev X) tk'"
    and "zget d k' = of_bool (k' \<in> set (current_window tk')) - of_bool (k' \<in> set (current_window tk))"
    and "tk_limit tk' = tk_limit tk \<and> tk_offset tk' = tk_offset tk \<and> tk_order_by tk' = tk_order_by tk"
proof -
  have "topk_inv dirs (admit_event (tk_order_by tk) ev X) tk'
    \<and> zget d k' = of_bool (k' \<in> set (current_window tk')) - of_bool (k' \<in> set (current_window tk))
    \<and> (tk_limit tk' = tk_limit tk \<and> tk_offset tk' = tk_offset tk \<and> tk_order_by tk' = tk_order_by tk)"
  proof (cases ev)
    case (Topk_Delta s z)
    have eq: "topk_step ops s tk [z] = (d, tk')" using r Topk_Delta by (simp add: topk_event_step_def)
    have "topk_inv dirs (fold (admit_entry (tk_order_by tk) s) z X) tk'"
      using fold_step_inv [OF inv, of s z] exact eq Topk_Delta
      by (simp add: event_exact_def topk_step_def Let_def)
    then show ?thesis
      using topk_step_out(1) [OF inv, of _ s "[z]" k'] topk_step_fields [of s tk "[z]"] eq Topk_Delta
      by (simp add: admit_event_def)
  next
    case (Topk_Reorder s k ups)
    then have "topk_reorder_key ops s k ups tk = (d, tk')" using r by (simp add: topk_event_step_def)
    from reorder_inv [OF inv _ this] show ?thesis
      using exact Topk_Reorder by (simp add: event_exact_def admit_event_def)
  qed
  then show "topk_inv dirs (admit_event (tk_order_by tk) ev X) tk'"
    "zget d k' = of_bool (k' \<in> set (current_window tk')) - of_bool (k' \<in> set (current_window tk))"
    "tk_limit tk' = tk_limit tk \<and> tk_offset tk' = tk_offset tk \<and> tk_order_by tk' = tk_order_by tk" by simp_all
qed

lemma run_inv:
  "topk_inv dirs X tk \<Longrightarrow> list_all (event_exact dirs (tk_order_by tk)) evs \<Longrightarrow> topk_run ops evs tk = (ds, tk') \<Longrightarrow>
   topk_inv dirs (fold (admit_event (tk_order_by tk)) evs X) tk'
   \<and> sum_list (map (\<lambda>d. zget d k) ds) = of_bool (k \<in> set (current_window tk')) - of_bool (k \<in> set (current_window tk))
   \<and> tk_limit tk' = tk_limit tk \<and> tk_offset tk' = tk_offset tk \<and> tk_order_by tk' = tk_order_by tk"
proof (induction evs arbitrary: X tk ds)
  case (Cons ev evs)
  obtain d t1 where 1: "topk_event_step ops ev tk = (d, t1)" by (cases "topk_event_step ops ev tk")
  obtain ds' where ds: "topk_run ops evs t1 = (ds', tk')" "ds = d # ds'"
    using Cons.prems(3) 1 by (auto split: prod.splits)
  note E = event_inv [OF Cons.prems(1) _ 1]
  have ex: "event_exact dirs (tk_order_by tk) ev" using Cons.prems(2) by simp
  show ?case
    using Cons.IH [OF E(1) [OF ex] _ ds(1)] E(2,3) [OF ex] Cons.prems(2) ds(2) by simp
qed simp

lemma filter_below_prefix:
  assumes "cmp_sorted entry_cmp L" and "list_all (\<lambda>e. key_exact dirs (fst e)) L" and "key_exact dirs (fst b)"
  shows "filter (\<lambda>e. entry_less e b) L = takeWhile (\<lambda>e. entry_less e b) L"
  using assms
proof (induction L)
  case (Cons x xs)
  have "\<not> entry_less y b" if "\<not> entry_less x b" "y \<in> set xs" for y
    using cmp_trans [of x y b] Cons.prems that by (auto simp: entry_less_def list_all_iff)
  then have "filter (\<lambda>e. entry_less e b) xs = []" if "\<not> entry_less x b" using that by (simp add: filter_empty_conv)
  then show ?case using Cons by simp
qed simp

lemma buffer_prefix:
  assumes inv: "topk_inv dirs X tk" and L: "cmp_sorted entry_cmp L" "set L = entries_of X"
  shows "\<exists>rest. L = tk_buffer tk @ rest" and "tk_boundary tk = None \<Longrightarrow> L = tk_buffer tk"
proof -
  note I = topk_invD [OF inv]
  have D: "list_all (\<lambda>e. key_exact dirs (fst e)) L" using L(2) I(6) by (auto simp: list_all_iff entries_of_def)
  have buf: "set (tk_buffer tk) = {e \<in> entries_of X. below (tk_boundary tk) e}" using inv by (simp add: topk_inv_def)
  show all: "L = tk_buffer tk" if "tk_boundary tk = None"
    using sorted_unique [OF D I(8) L(1) I(1)] buf L(2) that by (simp add: below_def)
  show "\<exists>rest. L = tk_buffer tk @ rest"
  proof (cases "tk_boundary tk")
    case (Some b)
    let ?F = "filter (\<lambda>e. entry_less e b) L"
    have "set ?F = set (tk_buffer tk)" using buf L(2) Some by (auto simp: below_def)
    moreover have "list_all (\<lambda>e. key_exact dirs (fst e)) ?F" using D by (auto simp: list_all_iff)
    ultimately have "tk_buffer tk = ?F"
      using sorted_unique [OF _ I(8) cmp_sorted_filter [OF L(1)] I(1)] by metis
    also have "\<dots> = takeWhile (\<lambda>e. entry_less e b) L"
      using filter_below_prefix [OF L(1) D] I(5) Some by simp
    finally show ?thesis using takeWhile_dropWhile_id [of "\<lambda>e. entry_less e b" L] by metis
  qed (use all in simp)
qed

lemma window_exact:
  assumes inv: "topk_inv dirs X tk" and L: "cmp_sorted entry_cmp L" "set L = entries_of X"
    and fit: "tk_offset tk + tk_limit tk \<le> usize_max" and ok: "\<not> topk_needs_rebuild tk"
  shows "current_window tk = map snd (take (tk_limit tk) (drop (tk_offset tk) L))"
proof -
  have w: "current_window tk = map snd (take (tk_limit tk) (drop (tk_offset tk) (tk_buffer tk)))"
    by (auto simp: current_window_def Let_def min_def)
  obtain rest where rest: "L = tk_buffer tk @ rest" using buffer_prefix(1) [OF inv L] by blast
  show ?thesis
  proof (cases "tk_boundary tk")
    case None
    then show ?thesis using w buffer_prefix(2) [OF inv L] by simp
  next
    case (Some b)
    then have "tk_offset tk + tk_limit tk \<le> length (tk_buffer tk)"
      using ok fit by (simp add: topk_needs_rebuild_def saturating_add_def)
    then show ?thesis using w rest by simp
  qed
qed

lemma snapshot_exact:
  assumes inv: "topk_inv dirs X tk" and z: "hm_wf z"
    and X: "\<forall>k. X k = (if w_pos (zget z k) then Some (compute_sort_key (tk_order_by tk) k s) else None)"
    and fit: "tk_offset tk + tk_limit tk \<le> usize_max" and ok: "\<not> topk_needs_rebuild tk"
  shows "zget (topk_snapshot tk s [z]) k = of_bool (k \<in> set (current_window tk))"
proof -
  let ?sk = "\<lambda>k. compute_sort_key (tk_order_by tk) k s"
  let ?items = "map (\<lambda>(k, _). (?sk k, k)) (filter (\<lambda>(_, w). w_pos w) z)"
  let ?L = "cmp_sort entry_cmp ?items"
  have live: "(k, w) \<in> set z \<and> w_pos w \<longleftrightarrow> hm_get z k = Some w \<and> w_pos (zget z k)" for k w
    unfolding hm_get_eq_Some_iff [OF z, symmetric] by (auto simp: zget_def)
  have get: "\<exists>w. hm_get z k = Some w" if "w_pos (zget z k)" for k
    using that by (cases "hm_get z k") (simp_all add: zget_def)
  have "set ?items = (\<lambda>k. (?sk k, k)) ` {k. \<exists>w. (k, w) \<in> set z \<and> w_pos w}" by force
  also have "\<dots> = (\<lambda>k. (?sk k, k)) ` {k. w_pos (zget z k)}" using live get by auto
  also have "\<dots> = entries_of X" using X by (auto simp: entries_of_def)
  finally have set: "set ?L = entries_of X" by simp
  have "distinct (map fst (filter (\<lambda>(_, w). w_pos w) z))"
    using hm_wf_filter [OF z, of "\<lambda>(_, w). w_pos w"] by (simp add: hm_wf_def)
  then have "distinct ?items"
    by (auto simp: distinct_map inj_on_def split: prod.splits)
  moreover have "list_all (\<lambda>e. key_exact dirs (fst e)) ?items"
    using topk_invD(6) [OF inv] set by (auto simp: list_all_iff entries_of_def)
  moreover have "\<forall>x \<in> set ?items. \<forall>y \<in> set ?items. entry_cmp x y = Equal \<longrightarrow> x = y"
    by (auto simp: pair_cmp_Equal)
  ultimately have "cmp_sorted entry_cmp ?L" by (intro cmp_sorted_sort)
  note W = window_exact [OF inv this set fit ok]
  have fold: "zget (fold (\<lambda>(_, key) out. hm_insert key 1 out) es out) k =
      (if k \<in> snd ` set es then 1 else zget out k)" for es :: "entry list" and out
    by (induction es arbitrary: out) auto
  show ?thesis unfolding W topk_snapshot_def Let_def by (simp add: fold)
qed

end

interpretation topk_list: topk_buffer dirs "list_set_ops entry_cmp" for dirs
  by (intro topk_buffer.intro list_set_ops_ordered_set total_cmp_entry)

lemma topk_inv_new: "topk_inv dirs (\<lambda>_. None) (topk_new limit offset ord)"
  by (simp add: topk_inv_def topk_new_def Let_def entries_of_def)

text \<open>
  C14. Over any history of upstream deltas and re-evaluations of updated rows, the emitted deltas
  add up to the current window, the buffer stays within its capacity, and unless a rebuild is
  asked for the window holds exactly the rows the snapshot of the accumulated input selects: the
  rows that fell out of the bounded buffer are never needed. The events have sort keys with
  integers that a double represents, \<^verbatim>\<open>offset + limit\<close> fits a \<^verbatim>\<open>usize\<close>, and the input is a
  set whose rows still have the sort keys they were admitted with.
\<close>

theorem topk_history:
  assumes "ordered_set entry_cmp (\<lambda>e. key_exact dirs (fst e)) ops"
    and "offset + limit \<le> usize_max"
    and "list_all (event_exact dirs ord) evs"
    and "topk_run ops evs (topk_new limit offset ord) = (ds, tk)"
    and "hm_wf z"
    and "\<forall>k. fold (admit_event ord) evs (\<lambda>_. None) k =
      (if w_pos (zget z k) then Some (compute_sort_key ord k s) else None)"
  shows "sum_list (map (\<lambda>d. zget d k) ds) = of_bool (k \<in> set (current_window tk))
    \<and> length (tk_buffer tk) \<le> tk_capacity tk
    \<and> (topk_needs_rebuild tk \<or> zget (topk_snapshot tk s [z]) k = sum_list (map (\<lambda>d. zget d k) ds))"
proof -
  have tb: "topk_buffer dirs ops" using assms(1) by (simp add: topk_buffer_def)
  have new: "tk_limit (topk_new limit offset ord) = limit" "tk_offset (topk_new limit offset ord) = offset"
    "tk_order_by (topk_new limit offset ord) = ord" "current_window (topk_new limit offset ord) = []"
    by (simp_all add: topk_new_def Let_def current_window_def)
  have R: "topk_inv dirs (fold (admit_event ord) evs (\<lambda>_. None)) tk"
    "sum_list (map (\<lambda>d. zget d k) ds) = of_bool (k \<in> set (current_window tk))"
    "tk_limit tk = limit" "tk_offset tk = offset" "tk_order_by tk = ord"
    using topk_buffer.run_inv [OF tb topk_inv_new [of dirs limit offset ord], of evs ds tk k] assms(3,4)
    by (simp_all add: new)
  have "topk_needs_rebuild tk \<or> zget (topk_snapshot tk s [z]) k = of_bool (k \<in> set (current_window tk))"
    using topk_buffer.snapshot_exact [OF tb R(1) assms(5), of s k] assms(2,6) R(3-5) by metis
  then show ?thesis using R(2) topk_invD(4) [OF R(1)] by simp
qed

definition sample_events :: "topk_event list" where
  "sample_events = [Topk_Delta store_new [(''u:a'', 1), (''u:b'', 1)], Topk_Delta store_new [(''u:a'', - 1)]]"

theorem topk_history_witness:
  "let (ds, tk) = topk_run (list_set_ops entry_cmp) sample_events (topk_new 1 0 None)
   in current_window tk = [''u:b''] \<and> \<not> topk_needs_rebuild tk
      \<and> zget (topk_snapshot tk store_new [[(''u:b'', 1)]]) ''u:b'' = sum_list (map (\<lambda>d. zget d ''u:b'') ds)"
proof -
  let ?r = "topk_run (list_set_ops entry_cmp) sample_events (topk_new 1 0 None)"
  have w: "current_window (snd ?r) = [''u:b''] \<and> \<not> topk_needs_rebuild (snd ?r)"
    by (simp add: sample_events_def topk_event_step_def topk_step_def topk_new_def saturating_add_def usize_max_def
        step_key_def admit_key_def drop_key_def compute_sort_key_def w_pos_def list_set_ops_def Let_def
        pair_cmp_def sortable_cmp_def scalar_cmp_def scalar_rank_def cmp_def less_char_def
        current_window_def topk_needs_rebuild_def)
  have exact: "list_all (event_exact [False] None) sample_events" by code_simp
  have admitted: "\<forall>k. fold (admit_event None) sample_events (\<lambda>_. None) k =
      (if w_pos (zget [(''u:b'', 1)] k) then Some (compute_sort_key None k store_new) else None)"
    by (simp add: sample_events_def admit_event_def admit_entry_def zget_Cons w_pos_def)
  have "1 + 0 \<le> usize_max" by (simp add: usize_max_def)
  with topk_history [OF topk_set.ordered_set_axioms [of "[False]"] _ exact _ _ admitted,
      of 0 1 "fst ?r" "snd ?r" "''u:b''"] w
  show ?thesis by (auto simp: case_prod_beta Let_def hm_wf_def)
qed

end
