(* ===== verification/Registration.thy ===== *)
theory Registration
  imports Graph_Order Top_K_Invariant Witness_Invariant Store_Invariant
begin

section \<open>Registering a query evaluates it\<close>

text \<open>
  The first evaluation of a view steps every operator from its initial state, so that the state
  is primed on the way (\<^verbatim>\<open>Circuit::prime_graph\<close>). It computes the same rows as the full
  evaluation by \<^verbatim>\<open>snapshot\<close>, operator by operator and for the whole plan.
\<close>

definition zeq :: "zset \<Rightarrow> zset \<Rightarrow> bool" where
  "zeq a b \<longleftrightarrow> (\<forall>k. zget a k = zget b k)"

lemma wsum_sum:
  assumes "hm_wf z" and "finite K" and "fst ` set z \<subseteq> K"
  shows "wsum p z = (\<Sum>k \<in> K. if p k then zget z k else 0)"
  using assms
proof (induction z)
  case (Cons e z)
  obtain k w where e: "e = (k, w)" by (cases e)
  have k: "k \<in> K" "k \<notin> fst ` set z" using Cons.prems e by auto
  have "(\<Sum>x \<in> K. if p x then zget (e # z) x else 0) =
      (if p k then w else 0) + (\<Sum>x \<in> K - {k}. if p x then zget z x else 0)"
    unfolding sum.remove [OF Cons.prems(2) k(1)] using e
    by (intro arg_cong2 [where f = "(+)"] sum.cong) (auto simp: zget_Cons)
  also have "(\<Sum>x \<in> K - {k}. if p x then zget z x else 0) = (\<Sum>x \<in> K. if p x then zget z x else 0)"
    using zget_absent [OF k(2)] by (simp add: sum.remove [OF Cons.prems(2) k(1)])
  finally show ?case using Cons e by (simp add: wsum_def)
qed (simp cong: if_cong)

lemma wsum_cong:
  assumes "hm_wf a" and "hm_wf b" and "zeq a b"
  shows "wsum p a = wsum p b"
proof -
  let ?K = "fst ` set a \<union> fst ` set b"
  have "wsum p a = (\<Sum>k \<in> ?K. if p k then zget a k else 0)" using assms(1) by (intro wsum_sum) auto
  also have "\<dots> = (\<Sum>k \<in> ?K. if p k then zget b k else 0)" using assms(3) by (intro sum.cong) (simp_all add: zeq_def)
  also have "\<dots> = wsum p b" using assms(2) by (intro wsum_sum [symmetric]) auto
  finally show ?thesis .
qed

subsection \<open>A fresh window\<close>

definition full_when_bounded :: "top_k \<Rightarrow> bool" where
  "full_when_bounded tk \<longleftrightarrow> tk_boundary tk = None \<or> tk_capacity tk \<le> length (tk_buffer tk)"

context topk_buffer
begin

lemma admit_new_full:
  assumes inv: "topk_inv dirs X tk" and full: "full_when_bounded tk" and new: "X k = None"
    and e: "key_exact dirs (compute_sort_key (tk_order_by tk) k s)"
  shows "full_when_bounded (admit_key ops s k tk)"
proof -
  let ?e = "(compute_sort_key (tk_order_by tk) k s, k)"
  note I = topk_invD [OF inv]
  have absent: "hm_get (tk_key_index tk) k = None"
    using I(3,7) new by (metis not_None_eq option.distinct(1))
  then have drop: "drop_key ops k tk = tk" by (simp add: drop_key_def)
  have "\<forall>y \<in> set (tk_buffer tk). snd y = k \<longrightarrow> y = ?e" using I(7) new by auto
  note fr = fresh_new_row [OF this]
  have "?e \<notin> set (tk_buffer tk)" using I(7) new by auto
  then have len: "length (snd (so_insert ops ?e (tk_buffer tk))) = Suc (length (tk_buffer tk))"
    using length_insert [of ?e, OF _ I(8) I(1) fr] e by simp
  show ?thesis
    using full len by (auto simp: admit_key_def drop Let_def full_when_bounded_def lower_boundary_def evict_last_def
        split: option.splits)
qed

lemma prime_fold:
  assumes "topk_inv dirs X tk" and "full_when_bounded tk" and "hm_wf d" and "\<forall>k \<in> fst ` set d. X k = None"
    and "\<forall>k. key_exact dirs (compute_sort_key (tk_order_by tk) k s)"
  shows "full_when_bounded (fold (step_key ops s) d tk)
    \<and> (\<forall>k. fold (admit_entry (tk_order_by tk) s) d X k =
        (if k \<in> fst ` set d then (if w_pos (zget d k) then Some (compute_sort_key (tk_order_by tk) k s) else None) else X k))"
  using assms
proof (induction d arbitrary: X tk)
  case (Cons e d)
  obtain k w where e: "e = (k, w)" by (cases e)
  let ?X = "admit_entry (tk_order_by tk) s e X" and ?t = "step_key ops s e tk"
  have new: "X k = None" "k \<notin> fst ` set d" "hm_wf d" using Cons.prems e by auto
  have inv: "topk_inv dirs ?X ?t"
    using fold_step_inv [OF Cons.prems(1), of s "[e]"] Cons.prems(5) e by simp
  have full: "full_when_bounded ?t"
  proof -
    have "hm_get (tk_key_index tk) k = None"
      using topk_invD(3,7) [OF Cons.prems(1)] new(1) by (metis not_None_eq option.distinct(1))
    then have "drop_key ops k tk = tk" by (simp add: drop_key_def)
    then show ?thesis
      using admit_new_full [OF Cons.prems(1,2) new(1)] Cons.prems(2,5) e by (simp add: step_key_def)
  qed
  have X: "?X = X(k := (if w_pos w then Some (compute_sort_key (tk_order_by tk) k s) else None))"
    using new(1) e by (auto simp: admit_entry_def fun_eq_iff)
  have rest: "\<forall>x \<in> fst ` set d. ?X x = None" using X new Cons.prems(4) e by auto
  note IH = Cons.IH [OF inv full new(3) rest]
  show ?case using IH Cons.prems(5) X new e by (auto simp: step_key_fields zget_Cons)
qed simp

lemma prime_topk:
  assumes d: "hm_wf d" and exact: "\<forall>k. key_exact dirs (compute_sort_key ord k s)"
    and fit: "offset + limit \<le> usize_max" and z: "hm_wf z" "zeq d z"
  shows "zget (fst (topk_step ops s (topk_new limit offset ord) [d])) k = zget (topk_snapshot (topk_new limit offset ord) s [z]) k"
    and "hm_wf (fst (topk_step ops s (topk_new limit offset ord) [d]))"
    and "\<not> topk_needs_rebuild (snd (topk_step ops s (topk_new limit offset ord) [d]))"
proof -
  let ?new = "topk_new limit offset ord" and ?r = "topk_step ops s (topk_new limit offset ord) [d]"
  have n: "tk_limit ?new = limit" "tk_offset ?new = offset" "tk_order_by ?new = ord" "current_window ?new = []"
    "full_when_bounded ?new" "tk_capacity ?new = min usize_max (min usize_max (offset + limit) + max limit 16)"
    by (simp_all add: topk_new_def Let_def current_window_def full_when_bounded_def saturating_add_def)
  have X0: "topk_inv dirs (\<lambda>_. None) ?new" by (rule topk_inv_new)
  let ?X = "fold (admit_entry ord s) d (\<lambda>_. None)"
  have r: "snd ?r = fold (step_key ops s) d ?new" by (simp add: topk_step_def Let_def)
  have inv: "topk_inv dirs ?X (snd ?r)"
    using fold_step_inv [OF X0, of s d] exact n(3) r by (simp add: list_all_iff case_prod_beta)
  have P: "full_when_bounded (snd ?r)"
    "?X k = (if w_pos (zget d k) then Some (compute_sort_key ord k s) else None)" for k
    using prime_fold [OF X0 n(5) d, of s] exact n(3) r zget_absent [of k d] by (auto simp: w_pos_def)
  have f: "tk_limit (snd ?r) = limit" "tk_offset (snd ?r) = offset" "tk_order_by (snd ?r) = ord" "tk_capacity (snd ?r) = tk_capacity ?new"
    using fold_step_fields [of s d ?new] n r by simp_all
  show nr: "\<not> topk_needs_rebuild (snd ?r)"
    using P(1) f n(6) fit by (auto simp: topk_needs_rebuild_def full_when_bounded_def saturating_add_def)
  have snap: "topk_snapshot ?new s [z] = topk_snapshot (snd ?r) s [z]"
    using f n by (simp add: topk_snapshot_def)
  have "\<forall>k. ?X k = (if w_pos (zget z k) then Some (compute_sort_key (tk_order_by (snd ?r)) k s) else None)"
    using P(2) z(2) f(3) by (simp add: zeq_def)
  then have "zget (topk_snapshot (snd ?r) s [z]) k = of_bool (k \<in> set (current_window (snd ?r)))"
    using snapshot_exact [OF inv z(1)] f fit nr by simp
  then show "zget (fst ?r) k = zget (topk_snapshot ?new s [z]) k"
    using topk_step_out(1) [OF X0 inv, of k] n(4) snap by simp
  show "hm_wf (fst ?r)" using topk_step_out(2) [OF X0 inv] .
qed

end


subsection \<open>One operator\<close>

definition agree :: "zset \<Rightarrow> zset \<Rightarrow> bool" where
  "agree a b \<longleftrightarrow> hm_wf a \<and> hm_wf b \<and> zeq a b"

lemma agree_iff: "agree a b \<longleftrightarrow> hm_wf a \<and> hm_wf b \<and> (\<forall>k. zget a k = zget b k)"
  by (simp add: agree_def zeq_def)

lemma agree_refl: "hm_wf a \<Longrightarrow> agree a a"
  by (simp add: agree_iff)

lemma hm_wf_fold: "(\<And>e out. hm_wf out \<Longrightarrow> hm_wf (f e out)) \<Longrightarrow> hm_wf out \<Longrightarrow> hm_wf (fold f es out)"
  by (induction es arbitrary: out) simp_all

lemma hm_wf_snapshots:
  "hm_wf (filter_snapshot pred s ctx inputs)" "hm_wf (topk_snapshot tk s inputs)"
  "hm_wf (semi_join sip l r cond s)" "hm_wf (anti_join sip l r cond s)" "hm_wf z \<Longrightarrow> hm_wf (distinct_threshold z)"
proof -
  show "hm_wf z \<Longrightarrow> hm_wf (distinct_threshold z)"
    by (auto simp: distinct_threshold_def hm_wf_def comp_def case_prod_beta intro: distinct_map_filter)
qed (auto simp: filter_snapshot_def topk_snapshot_def semi_join_def anti_join_def Let_def intro!: hm_wf_fold)

lemma agree_filter: "agree a b \<Longrightarrow> agree (filter_step pred s ctx [a]) (filter_snapshot pred s ctx [b])"
  by (simp add: agree_iff filter_step_def zget_filter_snapshot hm_wf_snapshots)

lemma agree_union: "agree a b \<Longrightarrow> agree a' b' \<Longrightarrow> agree (union_step [a, a']) (union_snapshot [b, b'])"
  by (simp add: agree_iff union_step_def union_snapshot_def zget_add)

lemma agree_distinct: "agree a b \<Longrightarrow> agree (fst (distinct_step [] [a])) (distinct_snapshot [b])"
  using distinct_op.step_delta [where s = "[]" and xs = "[[]]" and ds = "[a]", OF _ _ surjective_pairing]
  by (simp add: agree_iff deltas_ok_1 distinct_snapshot_def zget_threshold zget_add hm_wf_snapshots)

lemma agree_join:
  assumes "agree a b" and "agree a' b'"
  shows "agree (fst (join_step sip cond s join_new [a, a'])) (join_snapshot sip cond s [b, b'])"
proof -
  let ?r = "join_step sip cond s join_new [a, a']"
  have wf: "hm_wf a" "hm_wf b" "hm_wf a'" "hm_wf b'" "zeq (zset_add [] a') b'" "\<And>k. zget a k = zget b k"
    using assms by (simp_all add: agree_def zeq_def zget_add)
  then have "hm_wf (fst ?r)"
    "\<forall>k. zget (fst ?r) k = zget (join_snapshot sip cond s [zset_add [] a, zset_add [] a']) k - zget (join_snapshot sip cond s [[], []]) k"
    using join_op.step_delta [OF _ _ surjective_pairing [of ?r], of "[[], []]"]
    by (simp_all add: join_new_def deltas_ok_def numeral_2_eq_2)
  then show ?thesis
    using wf(1,2,6) wsum_cong [OF _ wf(4,5)] zset_ok_hash_join [THEN zset_ok_hm_wf]
    by (simp add: agree_iff join_snapshot_def zget_hash_join zget_add)
qed

lemma agree_witness:
  assumes "agree a b" and "agree a' b'"
  shows "agree (fst (witness_step sip anti cond s witness_new [a, a'])) (witness_snapshot sip anti cond s [b, b'])"
proof -
  let ?r = "witness_step sip anti cond s witness_new [a, a']"
  have wf: "hm_wf a" "hm_wf b" "hm_wf a'" "hm_wf b'" "\<And>k. zget a k = zget b k" "\<And>k. zget a' k = zget b' k"
    using assms by (simp_all add: agree_iff)
  have none: "noted s s us [] d" for us d by (simp add: noted_def)
  note S = witness_step_inv [OF witness_inv_new wf(1,3) none none surjective_pairing]
  have "admitted sip anti cond s (zset_add [] a) (zset_add [] a') k = admitted sip anti cond s b b' k" for k
    using wf by (simp add: admitted_def right_match_def zget_add)
  moreover have "\<not> admitted sip anti cond s [] [] k" for k by (simp add: admitted_def)
  ultimately have "\<forall>k. zget (fst ?r) k = zget (witness_snapshot sip anti cond s [b, b']) k"
    using S wf by (simp add: zget_witness_snapshot)
  moreover have "hm_wf (witness_snapshot sip anti cond s [b, b'])" by (simp add: witness_snapshot_def hm_wf_snapshots)
  ultimately show ?thesis using S by (simp add: agree_iff)
qed

subsection \<open>The whole plan\<close>

text \<open>
  Sort keys compare like the integers and strings they hold as long as every integer has an exact
  double; and the window end must not saturate.
\<close>

fun plan_exact :: "store \<Rightarrow> operator_plan \<Rightarrow> bool" where
  "plan_exact s (Scan table) = True"
| "plan_exact s (Filter p predicate) = plan_exact s p"
| "plan_exact s (Join p q on) = (plan_exact s p \<and> plan_exact s q)"
| "plan_exact s (SemiJoin p q on) = (plan_exact s p \<and> plan_exact s q)"
| "plan_exact s (AntiJoin p q on) = (plan_exact s p \<and> plan_exact s q)"
| "plan_exact s (UnionPlan p q) = (plan_exact s p \<and> plan_exact s q)"
| "plan_exact s (Distinct p) = plan_exact s p"
| "plan_exact s (Project p projections) = plan_exact s p"
| "plan_exact s (Limit p limit start order_by) =
     (plan_exact s p \<and> start + limit \<le> usize_max
      \<and> (\<exists>dirs. \<forall>k. key_exact dirs (compute_sort_key order_by k s)))"

definition memberships_ok :: "store \<Rightarrow> bool" where
  "memberships_ok s \<longleftrightarrow> (\<forall>t c. hm_get (sto_collections s) t = Some c \<longrightarrow> membership_ok c \<and> name_ok c)"

lemma hm_wf_scan: "memberships_ok s \<Longrightarrow> hm_wf (scan_snapshot table s)"
  using membership_spec by (auto simp: memberships_ok_def scan_snapshot_def split: option.splits) (metis prod.collapse zset_ok_hm_wf)

abbreviation entry_sets :: "engine \<Rightarrow> bool" where
  "entry_sets en \<equiv> (\<forall>dirs. ordered_set entry_cmp (\<lambda>e. key_exact dirs (fst e)) (en_ops en))"

abbreviation first_step :: "engine \<Rightarrow> store \<Rightarrow> value option \<Rightarrow> operator \<Rightarrow> zset list \<Rightarrow> zset" where
  "first_step en s params \<equiv> (\<lambda>operator ins. fst (prime_node en s params 0 operator ins))"

lemma first_step_simps:
  "first_step en s params (OpScan table) [] = scan_snapshot table s"
  "first_step en s params (OpFilter pred) ins = filter_step pred s params ins"
  "first_step en s params (OpJoin on js) ins = fst (join_step (en_sip en) on s js ins)"
  "first_step en s params (OpSemiJoin on ws) ins = fst (witness_step (en_sip en) False on s ws ins)"
  "first_step en s params (OpAntiJoin on ws) ins = fst (witness_step (en_sip en) True on s ws ins)"
  "first_step en s params OpUnion ins = union_step ins"
  "first_step en s params (OpDistinct z) ins = fst (distinct_step z ins)"
  "first_step en s params (OpMap ps) ins = ins ! 0"
  "first_step en s params (OpTopK tk) ins = fst (topk_step (en_ops en) s tk ins)"
  by (simp_all add: prime_node_def op_arity_def op_step_def op_collections_def collection_zset_def scan_step_def
      scan_snapshot_def map_step_def case_prod_beta split: option.splits)

lemma op_snapshot_simps:
  "op_snapshot en s params (OpScan table) [] = scan_snapshot table s"
  "op_snapshot en s params (OpFilter pred) ins = filter_snapshot pred s params ins"
  "op_snapshot en s params (OpJoin on js) ins = join_snapshot (en_sip en) on s ins"
  "op_snapshot en s params (OpSemiJoin on ws) ins = witness_snapshot (en_sip en) False on s ins"
  "op_snapshot en s params (OpAntiJoin on ws) ins = witness_snapshot (en_sip en) True on s ins"
  "op_snapshot en s params OpUnion ins = union_snapshot ins"
  "op_snapshot en s params (OpDistinct z) ins = distinct_snapshot ins"
  "op_snapshot en s params (OpMap ps) ins = ins ! 0"
  "op_snapshot en s params (OpTopK tk) ins = topk_snapshot tk s ins"
  by (simp_all add: op_snapshot_def witness_snapshot_def map_snapshot_def)

lemma agree_plan:
  assumes ops: "entry_sets en" and mem: "memberships_ok s"
  shows "plan_exact s p \<Longrightarrow> agree (plan_output (first_step en s params) p) (plan_output (op_snapshot en s params) p)"
proof (induction p rule: plan_induct)
  case (Scan table)
  then show ?case using hm_wf_scan [OF mem] by (simp add: first_step_simps op_snapshot_simps agree_refl)
next
  case (Limit p limit start order_by)
  then obtain dirs where e: "\<forall>k. key_exact dirs (compute_sort_key order_by k s)" by auto
  have tb: "topk_buffer dirs (en_ops en)" using ops by (simp add: topk_buffer_def)
  have "agree (plan_output (first_step en s params) p) (plan_output (op_snapshot en s params) p)" using Limit by simp
  then show ?case
    using topk_buffer.prime_topk(1,2) [OF tb _ e, where d = "plan_output (first_step en s params) p"
        and z = "plan_output (op_snapshot en s params) p" and limit = limit and offset = start] Limit.prems
    by (simp add: agree_def zeq_def first_step_simps op_snapshot_simps hm_wf_snapshots)
qed (simp_all add: first_step_simps op_snapshot_simps agree_filter agree_union agree_distinct agree_join agree_witness)

text \<open>
  C35. Registering a query evaluates it: executing the compiled graph once over the rows of the
  store, every operator stepped from its initial state, yields each row with the weight the full
  evaluation of the plan gives it, for every plan the planner builds. The ordered set of the
  windows keeps entries sorted, the collections' membership Z-sets are those of their rows, and
  the sort keys of a window hold integers that a double represents.
\<close>

theorem registration_evaluates:
  assumes "\<forall>dirs. ordered_set entry_cmp (\<lambda>e. key_exact dirs (fst e)) (en_ops en)"
    and "memberships_ok s" and "plan_exact s p"
  shows "\<exists>g out g'. from_plan p = Ret g \<and> prime_graph en s params g = Ret (Some out, g')
    \<and> (\<forall>k. zget out k = zget (plan_output (op_snapshot en s params) p) k)
    \<and> gr_topo_order g' = gr_topo_order g \<and> length (gr_nodes g') = length (gr_nodes g)"
proof -
  obtain g where g: "from_plan p = Ret g" using from_plan_ok [of p] by blast
  show ?thesis
    using prime_graph_plan [OF g, of en s params] agree_plan [OF assms, of params] g by (auto simp: agree_iff)
qed

definition sample_engine :: engine where
  "sample_engine = \<lparr>en_hash = (\<lambda>_. 0), en_ops = list_set_ops entry_cmp\<rparr>"

definition sample_store :: store where
  "sample_store = \<lparr>sto_collections = [(''u'', collection_from_rows ''u'' [(''1'', VObject [(''k'', VBool True)], [])] [])],
     sto_pending_deleted = []\<rparr>"

definition sample_plan :: operator_plan where
  "sample_plan = Limit (Distinct (Scan ''u'')) 1 0 None"

theorem registration_evaluates_witness:
  "\<exists>g out g'. from_plan sample_plan = Ret g \<and> prime_graph sample_engine sample_store None g = Ret (Some out, g')
    \<and> zget out ''u:1'' = 1"
proof -
  have o: "\<forall>dirs. ordered_set entry_cmp (\<lambda>e. key_exact dirs (fst e)) (en_ops sample_engine)"
    using topk_set.ordered_set_axioms by (simp add: sample_engine_def)
  have m: "memberships_ok sample_store"
    by (simp add: memberships_ok_def sample_store_def collection_from_rows_def membership_ok_def name_ok_def)
  have "\<forall>k. key_exact [False] (compute_sort_key None k sample_store)"
    by (simp add: compute_sort_key_def key_exact_def scalar_exact_def)
  then have e: "plan_exact sample_store sample_plan"
    by (auto simp: sample_plan_def usize_max_def)
  have "distinct_snapshot [scan_snapshot ''u'' sample_store] = [(''u:1'', 1)]" by code_simp
  then have "zget (plan_output (op_snapshot sample_engine sample_store None) sample_plan) ''u:1'' = 1"
    by (simp add: sample_plan_def op_snapshot_simps topk_snapshot_def topk_new_def Let_def cmp_sort_def zget_Cons)
  then show ?thesis using registration_evaluates [OF o m e, of None] by auto
qed

end
