(* ===== verification/Views.thy ===== *)
theory Views
  imports Graphs
begin

section \<open>Materialized views\<close>

text \<open>
  Model of \<^verbatim>\<open>circuit/view.rs\<close> and of the subquery bookkeeping in \<^verbatim>\<open>circuit/circuit.rs\<close>: a
  view's cache of visible keys, its hash, the child records visible through the parents in the
  cache, and the difference of two such sets.
\<close>

datatype output_format = Flat | Tree | Streaming

type_synonym subquery_set = "(row_key, row_key \<times> string) hmap"

record view =
  vw_query_id :: string
  vw_plan :: query_plan
  vw_cache :: zset
  vw_last_hash :: string
  vw_format :: output_format
  vw_params :: "value option"
  vw_referenced_tables :: "string list"
  vw_subquery_tables :: "string list"
  vw_content_generation :: u64
  vw_subquery_cache :: subquery_set
  vw_auth_id :: string

definition view_new ::
  "string \<Rightarrow> query_plan \<Rightarrow> output_format \<Rightarrow> value option \<Rightarrow> string list \<Rightarrow> string \<Rightarrow> view" where
  "view_new query_id plan format params tables auth_id =
     \<lparr>vw_query_id = query_id, vw_plan = plan, vw_cache = [], vw_last_hash = [], vw_format = format,
      vw_params = params, vw_referenced_tables = tables, vw_subquery_tables = subquery_tables (qp_root plan),
      vw_content_generation = 0, vw_subquery_cache = [], vw_auth_id = auth_id\<rparr>"

definition apply_entry :: "row_key \<times> weight \<Rightarrow> zset \<Rightarrow> zset" where
  "apply_entry e cache =
     (case e of (key, weight_delta) \<Rightarrow>
        if w_pos (zget cache key + weight_delta) then hm_insert key 1 cache else hm_remove key cache)"

definition apply_delta :: "zset \<Rightarrow> view \<Rightarrow> view" where
  "apply_delta delta v = v\<lparr>vw_cache := fold apply_entry delta (vw_cache v)\<rparr>"

text \<open>\<^verbatim>\<open>format!("{:016x}")\<close> of the hasher's answer.\<close>

definition hex16 :: "u64 \<Rightarrow> string" where
  "hex16 w = map (\<lambda>i. hex_digit (unat w div 16 ^ (15 - i) mod 16)) [0..<16]"

definition compute_hash :: "engine \<Rightarrow> view \<Rightarrow> string" where
  "compute_hash en v =
     hex16 (en_hash en (map H_str (sort (hm_keys (vw_cache v))) @ [H_u64 (vw_content_generation v)]))"

definition bump_content_generation :: "view \<Rightarrow> view" where
  "bump_content_generation v = v\<lparr>vw_content_generation := vw_content_generation v + 1\<rparr>"

subsection \<open>Subquery records\<close>

datatype subquery_op = SubAdd | SubUpdate | SubRemove

record subquery_delta_item =
  sdi_id :: row_key
  sdi_parent_key :: row_key
  sdi_alias :: string
  sdi_op :: subquery_op

definition row_refs :: "collection \<Rightarrow> (string \<times> value_ref) list" where
  "row_refs c = map (\<lambda>(i, row). (i, from_value (fst row))) (co_rows c)"

text \<open>The children that the parents in the cache name by id (\<^verbatim>\<open>child.id = $parent.<fk>\<close>).\<close>

definition follow_parent ::
  "store \<Rightarrow> collection \<Rightarrow> string \<Rightarrow> string \<Rightarrow> string \<Rightarrow> row_key \<Rightarrow> subquery_set \<Rightarrow> subquery_set" where
  "follow_parent s c table parent_field alias parent result =
     (case ref_as_str (ref_get (get_row_by_key s parent) parent_field) of
        None \<Rightarrow> result
      | Some child \<Rightarrow>
          let child_raw = raw_id child
          in if hm_contains (co_rows c) child_raw
             then hm_insert (make_key table child_raw) (parent, alias) result else result)"

definition follow_child ::
  "zset \<Rightarrow> string \<Rightarrow> string \<Rightarrow> string \<Rightarrow> string \<times> value_ref \<Rightarrow> subquery_set \<Rightarrow> subquery_set" where
  "follow_child cache table child_field alias row result =
     (case ref_as_str (ref_get (snd row) child_field) of
        None \<Rightarrow> result
      | Some fk \<Rightarrow>
          if hm_contains cache fk then hm_insert (make_key table (fst row)) (fk, alias) result else result)"

definition root_subquery :: "store \<Rightarrow> zset \<Rightarrow> subquery_info \<Rightarrow> subquery_set \<Rightarrow> subquery_set" where
  "root_subquery s cache info result =
     (case (si_parent_table info, si_parent_key info, hm_get (sto_collections s) (si_table info)) of
        (None, Some key, Some c) \<Rightarrow>
          if spk_child_field key = ''id''
          then fold (follow_parent s c (si_table info) (spk_parent_field key) (si_alias info)) (hm_keys cache) result
          else fold (follow_child cache (si_table info) (spk_child_field key) (si_alias info)) (row_refs c) result
      | _ \<Rightarrow> result)"

definition index_parent ::
  "subquery_set \<Rightarrow> string \<Rightarrow> string \<Rightarrow> string \<times> value_ref \<Rightarrow> (string, row_key) hmap \<Rightarrow> (string, row_key) hmap" where
  "index_parent result parent_table parent_field row ix =
     (let key = make_key parent_table (fst row)
      in if hm_contains result key
         then (case ref_as_str (ref_get (snd row) parent_field) of None \<Rightarrow> ix | Some v \<Rightarrow> hm_insert v key ix)
         else ix)"

definition follow_nested ::
  "(string, row_key) hmap \<Rightarrow> string \<Rightarrow> string \<Rightarrow> string \<Rightarrow> string \<times> value_ref \<Rightarrow> subquery_set \<Rightarrow> subquery_set" where
  "follow_nested ix table child_field alias row result =
     (case ref_as_str (ref_get (snd row) child_field) of
        None \<Rightarrow> result
      | Some v \<Rightarrow>
          (case hm_get ix v of
             None \<Rightarrow> result
           | Some parent \<Rightarrow> hm_insert (make_key table (fst row)) (parent, alias) result))"

definition nested_subquery :: "store \<Rightarrow> subquery_info \<Rightarrow> subquery_set \<Rightarrow> subquery_set" where
  "nested_subquery s info result =
     (case (si_parent_table info, si_parent_key info) of
        (Some pt, Some key) \<Rightarrow>
          (case (hm_get (sto_collections s) (si_table info), hm_get (sto_collections s) pt) of
             (Some c, Some pc) \<Rightarrow>
               let ix = fold (index_parent result pt (spk_parent_field key)) (row_refs pc) []
               in fold (follow_nested ix (si_table info) (spk_child_field key) (si_alias info)) (row_refs c) result
           | _ \<Rightarrow> result)
      | _ \<Rightarrow> result)"

definition compute_current_subquery_set :: "store \<Rightarrow> view \<Rightarrow> subquery_set" where
  "compute_current_subquery_set s v =
     (let infos = subquery_projection_info (qp_root (vw_plan v))
      in fold (nested_subquery s) infos (fold (root_subquery s (vw_cache v)) infos []))"

fun correlated :: "predicate \<Rightarrow> subquery_parent_key \<Rightarrow> bool" where
  "correlated (PEq field v) key \<longleftrightarrow>
     field = [spk_child_field key]
     \<and> (case v of
          JObject obj \<Rightarrow>
            (case hm_get obj ''$param'' of
               Some (JString p) \<Rightarrow> p = ''parent.'' @ spk_parent_field key | _ \<Rightarrow> False)
        | _ \<Rightarrow> False)"
| "correlated (PAnd ps) key \<longleftrightarrow> list_ex (\<lambda>p. correlated p key) ps"
| "correlated _ key \<longleftrightarrow> False"

definition is_subquery :: "projection \<Rightarrow> bool" where
  "is_subquery p = (case p of Subquery _ _ _ \<Rightarrow> True | _ \<Rightarrow> False)"

fun precise_child :: "operator_plan \<Rightarrow> subquery_parent_key \<Rightarrow> bool option" where
  "precise_child (Scan _) key = Some False"
| "precise_child (Filter input predicate) key =
     map_option (\<lambda>below. below \<or> correlated predicate key) (precise_child input key)"
| "precise_child (Limit input _ _ _) key =
     (case precise_child input key of Some True \<Rightarrow> Some True | _ \<Rightarrow> None)"
| "precise_child (Distinct input) key = precise_child input key"
| "precise_child (Project input projections) key =
     (if list_all (\<lambda>p. \<not> is_subquery p) projections then precise_child input key else None)"
| "precise_child _ key = None"

definition precise_projection :: "projection \<Rightarrow> bool" where
  "precise_projection p =
     (case p of
        Subquery _ plan (Some key) \<Rightarrow>
          (spk_child_field key = ''id'' \<or> spk_parent_field key = ''id'') \<and> precise_child plan key = Some True
      | Subquery _ _ None \<Rightarrow> False
      | _ \<Rightarrow> True)"

fun has_precise_subqueries :: "operator_plan \<Rightarrow> bool" where
  "has_precise_subqueries (Scan _) = True"
| "has_precise_subqueries (Filter input _) = has_precise_subqueries input"
| "has_precise_subqueries (Limit input _ _ _) = has_precise_subqueries input"
| "has_precise_subqueries (Distinct input) = has_precise_subqueries input"
| "has_precise_subqueries (Project input projections) =
     (has_precise_subqueries input \<and> list_all precise_projection projections)"
| "has_precise_subqueries _ = False"

definition subquery_item :: "subquery_op \<Rightarrow> row_key \<times> row_key \<times> string \<Rightarrow> subquery_delta_item" where
  "subquery_item op e =
     \<lparr>sdi_id = fst e, sdi_parent_key = fst (snd e), sdi_alias = snd (snd e), sdi_op = op\<rparr>"

definition diff_subquery_sets ::
  "subquery_set \<Rightarrow> subquery_set \<Rightarrow> row_key list option \<Rightarrow> subquery_delta_item list" where
  "diff_subquery_sets old new changed =
     map (subquery_item SubRemove) (filter (\<lambda>(key, _). hm_get new key \<noteq> hm_get old key) old)
     @ List.map_filter
         (\<lambda>e. let same_membership = (hm_get old (fst e) = hm_get new (fst e))
              in if \<not> same_membership \<or> (case changed of None \<Rightarrow> True | Some keys \<Rightarrow> fst e \<in> set keys)
                 then Some (subquery_item (if same_membership then SubUpdate else SubAdd) e) else None)
         new"

end
