(* ===== verification/Stepping.thy ===== *)
theory Stepping
  imports Views
begin

section \<open>Stepping one query\<close>

text \<open>
  Model of \<^verbatim>\<open>Circuit::step_query\<close> and \<^verbatim>\<open>run_initial_snapshot\<close> (\<^verbatim>\<open>circuit/circuit.rs\<close>): the
  nodes of a view's graph are stepped on the deltas of the tables; rows whose content changed
  without changing membership are re-evaluated, first at the inputs of the witness joins and
  then at the output; the resulting delta is classified against the view's cache.

  Indexing a vector out of range and unwrapping a missing output are panics. A node's inputs
  are read from the graph, so the walks take them as a list by node id.
\<close>

record view_delta =
  vd_query_id :: string
  vd_additions :: "row_key list"
  vd_removals :: "row_key list"
  vd_updates :: "row_key list"
  vd_row_count :: nat
  vd_result_hash :: string
  vd_subquery_items :: "subquery_delta_item list"
  vd_auth_id :: string
  vd_initial :: bool

type_synonym table_deltas = "(string, zset) hmap"
type_synonym content_updates = "(string, row_key list) hmap"

definition updated_keys :: "content_updates \<Rightarrow> row_key list" where
  "updated_keys cu = concat (map snd cu)"

subsection \<open>Evaluating a key through the graph\<close>

fun walk_nodes ::
  "(nat \<Rightarrow> bool list \<Rightarrow> 'a \<Rightarrow> bool \<times> 'a) \<Rightarrow> nat list list \<Rightarrow> nat list \<Rightarrow> bool list \<Rightarrow> 'a
    \<Rightarrow> (bool list \<times> 'a) outcome" where
  "walk_nodes F ins [] evals a = Ret (evals, a)"
| "walk_nodes F ins (i # is) evals a =
     (if i < length ins \<and> i < length evals \<and> list_all (\<lambda>j. j < length evals) (ins ! i)
      then (case F i (map (\<lambda>j. evals ! j) (ins ! i)) a of (b, a') \<Rightarrow> walk_nodes F ins is (evals[i := b]) a')
      else Panic)"

type_synonym injected = "(nat, zset list) hmap"

definition inject_port ::
  "row_key \<Rightarrow> nat \<Rightarrow> operator \<Rightarrow> nat \<Rightarrow> nat \<times> bool \<Rightarrow> injected \<Rightarrow> injected" where
  "inject_port key i operator arity e extra =
     (case e of (port, now) \<Rightarrow>
        case op_integrated_input_weight operator port key of
          None \<Rightarrow> extra
        | Some held \<Rightarrow>
            if now \<noteq> w_pos held
            then let ports = (case hm_get extra i of None \<Rightarrow> replicate arity [] | Some ps \<Rightarrow> ps)
                 in hm_insert i (ports[port := hm_insert key (if now then 1 else - held) (ports ! port)]) extra
            else extra)"

definition inject_node ::
  "engine \<Rightarrow> store \<Rightarrow> value option \<Rightarrow> node list \<Rightarrow> row_key \<Rightarrow> nat \<Rightarrow> bool list \<Rightarrow> injected \<Rightarrow> bool \<times> injected" where
  "inject_node en s params nodes key i es extra =
     (let operator = nd_operator (nodes ! i)
      in (op_evaluate_key en s params operator key es,
          fold (inject_port key i operator (length es)) (List.enumerate 0 es) extra))"

definition inject_key ::
  "engine \<Rightarrow> store \<Rightarrow> value option \<Rightarrow> nat list \<Rightarrow> node list \<Rightarrow> row_key \<Rightarrow> injected outcome \<Rightarrow> injected outcome" where
  "inject_key en s params order nodes key acc =
     (case acc of
        Panic \<Rightarrow> Panic
      | Ret extra \<Rightarrow>
          (case walk_nodes (inject_node en s params nodes key) (map nd_inputs nodes) order
                  (replicate (length nodes) False) extra of
             Panic \<Rightarrow> Panic
           | Ret (_, extra') \<Rightarrow> Ret extra'))"

subsection \<open>Stepping the nodes\<close>

text \<open>
  An injected delta only fills in keys the input does not carry itself. A source reads the delta
  of its table.
\<close>

definition merge_injected :: "zset \<Rightarrow> zset \<Rightarrow> zset" where
  "merge_injected extra delta =
     fold (\<lambda>(key, weight) d. if hm_contains d key then d else hm_insert key weight d) extra delta"

definition table_delta :: "table_deltas \<Rightarrow> string list \<Rightarrow> zset" where
  "table_delta tds tables =
     (case tables of [] \<Rightarrow> [] | t # _ \<Rightarrow> (case hm_get tds t of None \<Rightarrow> [] | Some d \<Rightarrow> d))"

definition step_node ::
  "engine \<Rightarrow> store \<Rightarrow> value option \<Rightarrow> table_deltas \<Rightarrow> injected \<Rightarrow> nat \<Rightarrow> operator \<Rightarrow> zset list \<Rightarrow> zset \<times> operator" where
  "step_node en s params tds extra i operator inputs =
     (if op_arity operator = 0 then op_step en s params operator [table_delta tds (op_collections operator)]
      else case hm_get extra i of
             Some ports \<Rightarrow> op_step en s params operator (map2 merge_injected ports inputs)
           | None \<Rightarrow> op_step en s params operator inputs)"

definition note_nodes :: "content_updates \<Rightarrow> node list \<Rightarrow> node list" where
  "note_nodes cu nodes =
     (if cu = [] then nodes
      else map (\<lambda>n. n\<lparr>nd_operator := op_note_content_updates (updated_keys cu) (nd_operator n)\<rparr>) nodes)"

subsection \<open>Re-evaluating updated rows\<close>

type_synonym replacing = "node list \<times> (nat \<times> zset) option"

definition reorder_node ::
  "engine \<Rightarrow> store \<Rightarrow> value option \<Rightarrow> row_key \<Rightarrow> nat \<Rightarrow> bool list \<Rightarrow> replacing \<Rightarrow> bool \<times> replacing" where
  "reorder_node en s params key i es a =
     (case a of (nodes, reordered) \<Rightarrow>
        let a' = (case reordered of
                    Some _ \<Rightarrow> (nodes, reordered)
                  | None \<Rightarrow>
                      (case op_reorder_key en s (nd_operator (nodes ! i)) key (case es of [] \<Rightarrow> True | e # _ \<Rightarrow> e) of
                         None \<Rightarrow> (nodes, None)
                       | Some (delta, operator) \<Rightarrow> (nodes[i := (nodes ! i)\<lparr>nd_operator := operator\<rparr>], Some (i, delta))))
        in (op_evaluate_key en s params (nd_operator (fst a' ! i)) key es, a'))"

text \<open>What a re-placement means downstream of the reordering node.\<close>

fun push_down ::
  "engine \<Rightarrow> store \<Rightarrow> value option \<Rightarrow> nat list \<Rightarrow> node list \<Rightarrow> zset option list \<Rightarrow> (node list \<times> zset option list) outcome" where
  "push_down en s params [] nodes outs = Ret (nodes, outs)"
| "push_down en s params (i # is) nodes outs =
     (if i < length nodes \<and> i < length outs \<and> list_all (\<lambda>j. j < length outs) (nd_inputs (nodes ! i))
      then if list_ex (\<lambda>j. outs ! j \<noteq> None) (nd_inputs (nodes ! i))
           then (case op_step en s params (nd_operator (nodes ! i))
                        (map (\<lambda>j. case outs ! j of None \<Rightarrow> [] | Some d \<Rightarrow> d) (nd_inputs (nodes ! i))) of
                   (out, operator) \<Rightarrow>
                     push_down en s params is (nodes[i := (nodes ! i)\<lparr>nd_operator := operator\<rparr>]) (outs[i := Some out]))
           else push_down en s params is nodes outs
      else Panic)"

definition fold_into :: "zset \<Rightarrow> zset \<Rightarrow> zset" where
  "fold_into out delta = hm_retain (\<lambda>_ w. w \<noteq> 0) (fold_delta out delta)"

definition synthesize :: "zset \<Rightarrow> bool \<Rightarrow> row_key \<Rightarrow> zset \<Rightarrow> zset" where
  "synthesize cache now_matches key delta =
     (let prev_cached = zget cache key; in_cache = w_pos prev_cached
      in if now_matches \<and> \<not> in_cache \<and> \<not> hm_contains delta key then hm_insert key 1 delta
         else if \<not> now_matches \<and> in_cache \<and> \<not> hm_contains delta key then hm_insert key (- prev_cached) delta
         else delta)"

definition reevaluate_key ::
  "engine \<Rightarrow> store \<Rightarrow> value option \<Rightarrow> nat list \<Rightarrow> nat \<Rightarrow> zset \<Rightarrow> row_key \<Rightarrow> (node list \<times> zset) outcome
    \<Rightarrow> (node list \<times> zset) outcome" where
  "reevaluate_key en s params order output_node cache key acc =
     (case acc of
        Panic \<Rightarrow> Panic
      | Ret (nodes, delta) \<Rightarrow>
          (case walk_nodes (reorder_node en s params key) (map nd_inputs nodes) order
                  (replicate (length nodes) False) (nodes, None) of
             Panic \<Rightarrow> Panic
           | Ret (evals, nodes', Some (from, moved)) \<Rightarrow>
               (case push_down en s params (tl (dropWhile (\<lambda>n. n \<noteq> from) order)) nodes'
                       ((replicate (length nodes) None)[from := Some moved]) of
                  Panic \<Rightarrow> Panic
                | Ret (nodes'', outs) \<Rightarrow>
                    if output_node < length outs
                    then (case outs ! output_node of
                            None \<Rightarrow> Ret (nodes'', delta)
                          | Some out \<Rightarrow> Ret (nodes'', fold_into out delta))
                    else Panic)
           | Ret (evals, nodes', None) \<Rightarrow>
               if output_node < length evals
               then Ret (nodes', synthesize cache (evals ! output_node) key delta) else Panic))"

text \<open>
  The delta of a view's output for one ingest: the nodes stepped, then every updated row
  re-evaluated. No output at the output node gives no delta.
\<close>

definition graph_delta ::
  "engine \<Rightarrow> store \<Rightarrow> value option \<Rightarrow> table_deltas \<Rightarrow> content_updates \<Rightarrow> zset \<Rightarrow> graph \<Rightarrow> (zset option \<times> graph) outcome" where
  "graph_delta en s params tds cu cache g =
     (let nodes = note_nodes cu (gr_nodes g)
      in case fold (inject_key en s params (gr_topo_order g) nodes) (updated_keys cu) (Ret []) of
           Panic \<Rightarrow> Panic
         | Ret extra \<Rightarrow>
             (case run_nodes (step_node en s params tds extra) (gr_topo_order g) nodes
                     (replicate (length nodes) None) of
                Panic \<Rightarrow> Panic
              | Ret (nodes', outs) \<Rightarrow>
                  if gr_output_node g < length outs
                  then (case outs ! gr_output_node g of
                          None \<Rightarrow> Ret (None, g\<lparr>gr_nodes := nodes'\<rparr>)
                        | Some out \<Rightarrow>
                            (case fold (reevaluate_key en s params (gr_topo_order g) (gr_output_node g) cache)
                                    (updated_keys cu) (Ret (nodes', out)) of
                               Panic \<Rightarrow> Panic
                             | Ret (nodes'', delta) \<Rightarrow> Ret (Some delta, g\<lparr>gr_nodes := nodes''\<rparr>)))
                  else Panic))"

subsection \<open>Publishing the delta\<close>

definition delta_additions :: "zset \<Rightarrow> zset \<Rightarrow> row_key list" where
  "delta_additions cache delta = map fst (filter (\<lambda>(k, w). w_pos w \<and> \<not> hm_contains cache k) delta)"

definition delta_removals :: "zset \<Rightarrow> zset \<Rightarrow> row_key list" where
  "delta_removals cache delta =
     map fst (filter (\<lambda>(k, w). sint w < 0 \<and> (case hm_get cache k of None \<Rightarrow> False | Some old \<Rightarrow> \<not> w_pos (old + w))) delta)"

text \<open>
  The parents whose children changed: the owners in the published items, and every parent that
  names a changed child by id.
\<close>

definition shared_child_parents :: "store \<Rightarrow> zset \<Rightarrow> row_key list \<Rightarrow> subquery_info \<Rightarrow> row_key list" where
  "shared_child_parents s cache changed info =
     (case si_parent_key info of
        None \<Rightarrow> []
      | Some key \<Rightarrow>
          if spk_child_field key \<noteq> ''id'' then []
          else filter (\<lambda>parent. case ref_as_str (ref_get (get_row_by_key s parent) (spk_parent_field key)) of
                   None \<Rightarrow> False
                 | Some fk \<Rightarrow> make_key (si_table info) (raw_id fk) \<in> set changed) (hm_keys cache))"

definition affected_parents :: "store \<Rightarrow> view \<Rightarrow> row_key list \<Rightarrow> subquery_delta_item list \<Rightarrow> row_key list" where
  "affected_parents s v changed items =
     map sdi_parent_key items
     @ concat (map (shared_child_parents s (vw_cache v) changed) (subquery_projection_info (qp_root (vw_plan v))))"

definition publish_delta ::
  "engine \<Rightarrow> store \<Rightarrow> table_deltas \<Rightarrow> content_updates \<Rightarrow> string \<Rightarrow> zset \<Rightarrow> view \<Rightarrow> view_delta option \<times> view" where
  "publish_delta en s tds cu query_id delta v =
     (let updates0 = filter (\<lambda>k. hm_contains (vw_cache v) k \<and> \<not> hm_contains delta k) (updated_keys cu);
          has_membership_changes = (delta \<noteq> []);
          has_subquery_table_changes =
            list_ex (\<lambda>t. hm_contains tds t \<or> hm_contains cu t) (vw_subquery_tables v);
          precise = has_precise_subqueries (qp_root (vw_plan v));
          changed = concat (map (hm_keys \<circ> snd) tds) @ updated_keys cu;
          additions = delta_additions (vw_cache v) delta;
          removals = delta_removals (vw_cache v) delta;
          v1 = apply_delta delta v;
          (items, updates1, v2) =
            (if has_membership_changes \<or> has_subquery_table_changes \<or> updates0 \<noteq> []
             then let new_set = compute_current_subquery_set s v1;
                      items = diff_subquery_sets (vw_subquery_cache v1) new_set (if precise then Some changed else None);
                      more = (if \<not> has_subquery_table_changes then []
                              else if precise
                              then filter (hm_contains (vw_cache v1)) (affected_parents s v1 changed items)
                              else hm_keys (vw_cache v1))
                  in (items, updates0 @ more, v1\<lparr>vw_subquery_cache := new_set\<rparr>)
             else ([], updates0, v1));
          updates = filter (\<lambda>k. k \<notin> set additions \<and> k \<notin> set removals) (remdups (sort updates1));
          has_content_updates = (updates \<noteq> [] \<or> items \<noteq> [])
      in if \<not> has_membership_changes \<and> \<not> has_content_updates then (None, v2)
         else let v3 = (if has_subquery_table_changes \<and> has_content_updates then bump_content_generation v2 else v2);
                  new_hash = compute_hash en v3
              in if new_hash = vw_last_hash v3 \<and> \<not> has_content_updates then (None, v3)
                 else let v4 = v3\<lparr>vw_last_hash := new_hash\<rparr>
                      in (Some \<lparr>vd_query_id = query_id, vd_additions = additions, vd_removals = removals, vd_updates = updates,
                            vd_row_count = length (vw_cache v4), vd_result_hash = vw_last_hash v4,
                            vd_subquery_items = items, vd_auth_id = vw_auth_id v4, vd_initial = False\<rparr>, v4))"

definition initial_delta :: "engine \<Rightarrow> store \<Rightarrow> string \<Rightarrow> zset \<Rightarrow> view \<Rightarrow> view_delta option \<times> view" where
  "initial_delta en s query_id out v =
     (if out = [] then (None, v)
      else let additions = map fst (filter (\<lambda>(_, w). w_pos w) out);
               v1 = apply_delta out v;
               v2 = v1\<lparr>vw_last_hash := compute_hash en v1\<rparr>;
               new_set = compute_current_subquery_set s v2;
               v3 = v2\<lparr>vw_subquery_cache := new_set\<rparr>
           in (Some \<lparr>vd_query_id = query_id, vd_additions = additions, vd_removals = [], vd_updates = [],
                 vd_row_count = length (vw_cache v3), vd_result_hash = vw_last_hash v3,
                 vd_subquery_items = map (subquery_item SubAdd) new_set, vd_auth_id = vw_auth_id v3,
                 vd_initial = True\<rparr>, v3))"

end
