(* ===== verification/Circuits.thy ===== *)
theory Circuits
  imports Stepping
begin

section \<open>The circuit\<close>

text \<open>
  Model of \<^verbatim>\<open>Circuit\<close> (\<^verbatim>\<open>circuit/circuit.rs\<close>): the store, one graph and one view per registered
  query, the routing of tables to queries, and the registrations that share a graph. Every
  operation takes the circuit and returns the changed one; an operation that executes a graph can
  panic. The ordered sets of the store's indexes (\<open>ops\<close>), the digest and printer library
  (\<open>cdc\<close>) and the parameters of \<open>engine\<close> are arguments.

  The circuit has no secondary index definitions, so \<^verbatim>\<open>build_graph\<close> is \<^verbatim>\<open>Graph::from_plan\<close> and
  there is no index to prewarm or release. The schema texts the circuit only hands to the query
  converter (permissions, link targets, columns) are not part of the state.
\<close>

record subscriber =
  sb_query_id :: string
  sb_auth_id :: string

record circuit =
  ci_store :: store
  ci_graphs :: "(string, graph) hmap"
  ci_views :: "(string, view) hmap"
  ci_dependency_map :: "(string, string list) hmap"
  ci_merge_index :: "(string, string) hmap"
  ci_subscribers :: "(string, subscriber list) hmap"
  ci_detached_owners :: "string list"
  ci_monotonic_row_versions :: bool
  ci_rv_floor :: i64
  ci_synthesized :: u64
  ci_synthesized_missing :: u64
  ci_opaque_fields :: "(string, string list) hmap"
  ci_projection :: bool
  ci_missing_fields :: "(string, string list) hmap"

definition circuit_new :: circuit where
  "circuit_new =
     \<lparr>ci_store = store_new, ci_graphs = [], ci_views = [], ci_dependency_map = [], ci_merge_index = [],
      ci_subscribers = [], ci_detached_owners = [], ci_monotonic_row_versions = False, ci_rv_floor = 0,
      ci_synthesized = 0, ci_synthesized_missing = 0, ci_opaque_fields = [], ci_projection = False,
      ci_missing_fields = []\<rparr>"

definition hm_entry :: "('k, 'v list) hmap \<Rightarrow> 'k \<Rightarrow> 'v list" where
  "hm_entry m k = (case hm_get m k of None \<Rightarrow> [] | Some vs \<Rightarrow> vs)"

definition hm_push :: "'k \<Rightarrow> 'v \<Rightarrow> ('k, 'v list) hmap \<Rightarrow> ('k, 'v list) hmap" where
  "hm_push k v m = hm_insert k (hm_entry m k @ [v]) m"

definition hm_put :: "'k \<Rightarrow> 'v \<Rightarrow> ('k, 'v list) hmap \<Rightarrow> ('k, 'v list) hmap" where
  "hm_put k v m = hm_insert k (List.insert v (hm_entry m k)) m"

subsection \<open>Loading and retained fields\<close>

record record_in =
  rc_table :: string
  rc_id :: string
  rc_data :: "value"

definition circuit_load :: "codec \<Rightarrow> index_ops \<Rightarrow> record_in list \<Rightarrow> circuit \<Rightarrow> circuit" where
  "circuit_load cdc ops records c =
     c\<lparr>ci_store := fold (\<lambda>r s. snd (apply_owned cdc ops (rc_table r) OpCreate (rc_id r) (rc_data r) s)) records (ci_store c)\<rparr>"

definition evaluated_fields :: "circuit \<Rightarrow> (string, string list) hmap" where
  "evaluated_fields c =
     fold (\<lambda>(_, v). fold (\<lambda>(t, f). hm_put t f) (evaluated_field_refs (qp_root (vw_plan v)))) (ci_views c) []"

definition refresh_retained_fields :: "circuit \<Rightarrow> circuit" where
  "refresh_retained_fields c =
     (if \<not> ci_projection c then c
      else let wanted = evaluated_fields c;
               s = fold (\<lambda>t s. snd (ensure_collection t s)) (hm_keys wanted) (ci_store c)
           in c\<lparr>ci_store := s\<lparr>sto_collections :=
                 map (\<lambda>(t, co). (t, co\<lparr>co_retained := Some (hm_entry wanted t)\<rparr>)) (sto_collections s)\<rparr>\<rparr>)"

definition set_projection :: "bool \<Rightarrow> circuit \<Rightarrow> circuit" where
  "set_projection enabled c =
     (if enabled then refresh_retained_fields (c\<lparr>ci_projection := True\<rparr>)
      else c\<lparr>ci_projection := False, ci_store := (ci_store c)\<lparr>sto_collections :=
             map (\<lambda>(t, co). (t, co\<lparr>co_retained := None\<rparr>)) (sto_collections (ci_store c))\<rparr>\<rparr>)"

definition note_missing_field :: "store \<Rightarrow> string \<times> string \<Rightarrow> (string, string list) hmap \<Rightarrow> (string, string list) hmap" where
  "note_missing_field s e missing =
     (case e of (table, field) \<Rightarrow>
        case hm_get (sto_collections s) table of
          None \<Rightarrow> missing
        | Some co \<Rightarrow>
            if co_rows co = [] then missing
            else if (case co_retained co of None \<Rightarrow> True | Some kept \<Rightarrow> field \<in> set kept \<or> field \<in> set always_retained)
            then missing else hm_put table field missing)"

definition note_missing_fields :: "operator_plan \<Rightarrow> circuit \<Rightarrow> circuit" where
  "note_missing_fields root c =
     (if \<not> ci_projection c then c
      else c\<lparr>ci_missing_fields := fold (note_missing_field (ci_store c)) (evaluated_field_refs root) (ci_missing_fields c)\<rparr>)"

definition take_missing_fields :: "circuit \<Rightarrow> (string, string list) hmap \<times> circuit" where
  "take_missing_fields c = (ci_missing_fields c, c\<lparr>ci_missing_fields := []\<rparr>)"

definition circuit_compact :: "codec \<Rightarrow> circuit \<Rightarrow> circuit" where
  "circuit_compact cdc c = c\<lparr>ci_store := (ci_store c)\<lparr>sto_collections :=
     map (\<lambda>(t, co). (t, collection_compact cdc co)) (sto_collections (ci_store c))\<rparr>\<rparr>"

definition forget_table :: "string \<Rightarrow> circuit \<Rightarrow> circuit" where
  "forget_table table c =
     c\<lparr>ci_store := (ci_store c)\<lparr>sto_collections := hm_remove table (sto_collections (ci_store c))\<rparr>,
       ci_opaque_fields := hm_remove table (ci_opaque_fields c),
       ci_missing_fields := hm_remove table (ci_missing_fields c)\<rparr>"

subsection \<open>Registering and removing queries\<close>

definition run_initial_snapshot :: "engine \<Rightarrow> string \<Rightarrow> circuit \<Rightarrow> (view_delta option \<times> circuit) outcome" where
  "run_initial_snapshot en query_id c =
     (case (hm_get (ci_graphs c) query_id, hm_get (ci_views c) query_id) of
        (Some g, Some v) \<Rightarrow>
          (case prime_graph en (ci_store c) (vw_params v) g of
             Panic \<Rightarrow> Panic
           | Ret (None, g') \<Rightarrow> Ret (None, c\<lparr>ci_graphs := hm_insert query_id g' (ci_graphs c)\<rparr>)
           | Ret (Some out, g') \<Rightarrow>
               (case initial_delta en (ci_store c) query_id out v of
                  (delta, v') \<Rightarrow> Ret (delta, c\<lparr>ci_graphs := hm_insert query_id g' (ci_graphs c),
                                               ci_views := hm_insert query_id v' (ci_views c)\<rparr>)))
      | _ \<Rightarrow> Ret (None, c))"

definition add_query_with_auth ::
  "engine \<Rightarrow> query_plan \<Rightarrow> json option \<Rightarrow> output_format option \<Rightarrow> string \<Rightarrow> circuit \<Rightarrow> (view_delta option \<times> circuit) outcome" where
  "add_query_with_auth en plan0 params format auth_id c =
     (let plan = plan0\<lparr>qp_id := canonical_query_id (qp_id plan0)\<rparr>;
          query_id = qp_id plan;
          tables = referenced_tables (qp_root plan);
          v = view_new query_id plan (case format of None \<Rightarrow> Flat | Some f \<Rightarrow> f) (map_option value_of_json params) tables auth_id
      in case from_plan (qp_root plan) of
           Panic \<Rightarrow> Panic
         | Ret g \<Rightarrow>
             let c1 = note_missing_fields (qp_root plan) c;
                 c2 = c1\<lparr>ci_graphs := hm_insert query_id g (ci_graphs c1), ci_views := hm_insert query_id v (ci_views c1),
                         ci_dependency_map := fold (\<lambda>t. hm_push t query_id) tables (ci_dependency_map c1)\<rparr>
             in run_initial_snapshot en query_id (refresh_retained_fields c2))"

definition add_query ::
  "engine \<Rightarrow> query_plan \<Rightarrow> json option \<Rightarrow> output_format option \<Rightarrow> circuit \<Rightarrow> (view_delta option \<times> circuit) outcome" where
  "add_query en plan params format c = add_query_with_auth en plan params format [] c"

definition release_table :: "string \<Rightarrow> store \<Rightarrow> store" where
  "release_table table s =
     (case hm_get (sto_collections s) table of
        None \<Rightarrow> s
      | Some co \<Rightarrow> s\<lparr>sto_collections := hm_insert table (release_membership co) (sto_collections s)\<rparr>)"

definition remove_query :: "string \<Rightarrow> circuit \<Rightarrow> circuit" where
  "remove_query id0 c =
     (let query_id = canonical_query_id id0;
          dm = map (\<lambda>(t, ids). (t, filter (\<lambda>i. i \<noteq> query_id) ids)) (ci_dependency_map c);
          orphaned = map fst (filter (\<lambda>(_, ids). ids = []) dm)
      in c\<lparr>ci_graphs := hm_remove query_id (ci_graphs c), ci_views := hm_remove query_id (ci_views c),
           ci_dependency_map := filter (\<lambda>(_, ids). ids \<noteq> []) dm,
           ci_store := fold release_table orphaned (ci_store c)\<rparr>)"

definition get_view :: "string \<Rightarrow> circuit \<Rightarrow> view option" where
  "get_view query_id c =
     (case hm_get (ci_views c) query_id of
        Some v \<Rightarrow> Some v
      | None \<Rightarrow> hm_get (ci_views c) (canonical_query_id query_id))"

definition view_keys :: "string \<Rightarrow> circuit \<Rightarrow> row_key list" where
  "view_keys query_id c = (case get_view query_id c of None \<Rightarrow> [] | Some v \<Rightarrow> hm_keys (vw_cache v))"

subsection \<open>Registrations that share a graph\<close>

definition owner_for_merge_key :: "string \<Rightarrow> circuit \<Rightarrow> string option" where
  "owner_for_merge_key merge_key c = hm_get (ci_merge_index c) merge_key"

definition claim_merge_key :: "string \<Rightarrow> string \<Rightarrow> circuit \<Rightarrow> circuit" where
  "claim_merge_key merge_key query_id c =
     c\<lparr>ci_merge_index := hm_insert merge_key (canonical_query_id query_id) (ci_merge_index c)\<rparr>"

definition snapshot_delta_from :: "string \<Rightarrow> string \<Rightarrow> string \<Rightarrow> circuit \<Rightarrow> view_delta option" where
  "snapshot_delta_from source query_id auth_id c =
     (case get_view source c of
        None \<Rightarrow> None
      | Some v \<Rightarrow>
          Some \<lparr>vd_query_id = canonical_query_id query_id, vd_additions = hm_keys (vw_cache v), vd_removals = [],
            vd_updates = [], vd_row_count = length (hm_keys (vw_cache v)), vd_result_hash = vw_last_hash v,
            vd_subquery_items = map (subquery_item SubAdd) (vw_subquery_cache v), vd_auth_id = auth_id,
            vd_initial = True\<rparr>)"

definition attach_subscriber :: "string \<Rightarrow> string \<Rightarrow> string \<Rightarrow> circuit \<Rightarrow> view_delta option \<times> circuit" where
  "attach_subscriber owner0 id0 auth_id c =
     (let owner = canonical_query_id owner0; query_id = canonical_query_id id0
      in case snapshot_delta_from owner query_id auth_id c of
           None \<Rightarrow> (None, c)
         | Some delta \<Rightarrow>
             let subs = hm_entry (ci_subscribers c) owner;
                 subs' = (if list_ex (\<lambda>sb. sb_query_id sb = query_id) subs then subs
                          else subs @ [\<lparr>sb_query_id = query_id, sb_auth_id = auth_id\<rparr>])
             in (Some delta, c\<lparr>ci_subscribers := hm_insert owner subs' (ci_subscribers c)\<rparr>))"

definition owner_of :: "string \<Rightarrow> circuit \<Rightarrow> string option" where
  "owner_of query_id c =
     map_option fst (List.find (\<lambda>(_, subs). list_ex (\<lambda>sb. sb_query_id sb = query_id) subs) (ci_subscribers c))"

fun find_registration :: "string \<Rightarrow> (string, subscriber list) hmap \<Rightarrow> (string \<times> string) option" where
  "find_registration key [] = None"
| "find_registration key ((owner, subs) # rest) =
     (case List.find (\<lambda>sb. sb_query_id sb = key) subs of
        Some sb \<Rightarrow> Some (owner, sb_auth_id sb)
      | None \<Rightarrow> find_registration key rest)"

definition registration :: "string \<Rightarrow> circuit \<Rightarrow> (string \<times> string) option" where
  "registration query_id c =
     (let key = canonical_query_id query_id
      in case hm_get (ci_views c) key of
           Some v \<Rightarrow> Some (key, vw_auth_id v)
         | None \<Rightarrow> find_registration key (ci_subscribers c))"

definition is_registered :: "string \<Rightarrow> circuit \<Rightarrow> bool" where
  "is_registered query_id c =
     (let key = canonical_query_id query_id
      in hm_contains (ci_views c) key \<and> key \<notin> set (ci_detached_owners c) \<or> owner_of key c \<noteq> None)"

definition registration_ids :: "circuit \<Rightarrow> string list" where
  "registration_ids c =
     filter (\<lambda>i. i \<notin> set (ci_detached_owners c)) (hm_keys (ci_views c))
     @ concat (map (map sb_query_id \<circ> snd) (ci_subscribers c))"

definition drop_graph_if_unused :: "string \<Rightarrow> circuit \<Rightarrow> bool \<times> circuit" where
  "drop_graph_if_unused owner c =
     (if hm_entry (ci_subscribers c) owner \<noteq> [] \<or> owner \<notin> set (ci_detached_owners c) then (False, c)
      else let c1 = remove_query owner c
           in (True, c1\<lparr>ci_subscribers := hm_remove owner (ci_subscribers c1),
                      ci_detached_owners := removeAll owner (ci_detached_owners c1),
                      ci_merge_index := filter (\<lambda>(_, o'). o' \<noteq> owner) (ci_merge_index c1)\<rparr>))"

definition detach_subscriber :: "string \<Rightarrow> circuit \<Rightarrow> bool \<times> circuit" where
  "detach_subscriber id0 c =
     (let query_id = canonical_query_id id0
      in case owner_of query_id c of
           Some owner \<Rightarrow>
             drop_graph_if_unused owner
               (c\<lparr>ci_subscribers :=
                   map (\<lambda>(o', subs). (o', if o' = owner then filter (\<lambda>sb. sb_query_id sb \<noteq> query_id) subs else subs))
                     (ci_subscribers c)\<rparr>)
         | None \<Rightarrow>
             if hm_contains (ci_views c) query_id
             then drop_graph_if_unused query_id
                    (c\<lparr>ci_detached_owners := List.insert query_id (ci_detached_owners c)\<rparr>)
             else (False, c))"

definition fan_out :: "circuit \<Rightarrow> view_delta \<Rightarrow> view_delta list" where
  "fan_out c delta =
     (let detached = (vd_query_id delta \<in> set (ci_detached_owners c));
          subs = hm_entry (ci_subscribers c) (vd_query_id delta);
          own = (if detached then [] else [delta])
      in if subs = [] then own
         else map (\<lambda>sb. delta\<lparr>vd_query_id := sb_query_id sb, vd_auth_id := sb_auth_id sb\<rparr>) subs @ own)"

definition snapshot_deltas_for_view :: "string \<Rightarrow> circuit \<Rightarrow> view_delta list" where
  "snapshot_deltas_for_view query_id c =
     (case get_view query_id c of
        None \<Rightarrow> []
      | Some v \<Rightarrow>
          (case snapshot_delta_from query_id query_id (vw_auth_id v) c of None \<Rightarrow> [] | Some d \<Rightarrow> fan_out c d))"

definition reprime_view :: "engine \<Rightarrow> string \<Rightarrow> circuit \<Rightarrow> (view_delta list \<times> circuit) outcome" where
  "reprime_view en i c =
     (case hm_get (ci_views c) i of
        None \<Rightarrow> Ret ([], c)
      | Some v \<Rightarrow>
          (case from_plan (qp_root (vw_plan v)) of
             Panic \<Rightarrow> Panic
           | Ret g \<Rightarrow>
               let previous = hm_keys (vw_cache v);
                   v1 = v\<lparr>vw_cache := [], vw_subquery_cache := [], vw_last_hash := []\<rparr>;
                   c1 = c\<lparr>ci_views := hm_insert i v1 (ci_views c), ci_graphs := hm_insert i g (ci_graphs c)\<rparr>
               in case run_initial_snapshot en i c1 of
                    Panic \<Rightarrow> Panic
                  | Ret (Some delta, c2) \<Rightarrow> Ret (fan_out c2 delta, c2)
                  | Ret (None, c2) \<Rightarrow>
                      (case hm_get (ci_views c2) i of
                         None \<Rightarrow> Panic
                       | Some v2 \<Rightarrow>
                           let v3 = v2\<lparr>vw_last_hash := compute_hash en v2\<rparr>;
                               c3 = c2\<lparr>ci_views := hm_insert i v3 (ci_views c2)\<rparr>
                           in Ret (fan_out c3 \<lparr>vd_query_id = i, vd_additions = [], vd_removals = previous, vd_updates = [],
                                vd_row_count = 0, vd_result_hash = vw_last_hash v3, vd_subquery_items = [],
                                vd_auth_id = vw_auth_id v3, vd_initial = True\<rparr>, c3))))"

fun reprime_views :: "engine \<Rightarrow> string list \<Rightarrow> circuit \<Rightarrow> (view_delta list \<times> circuit) outcome" where
  "reprime_views en [] c = Ret ([], c)"
| "reprime_views en (i # is) c =
     (case reprime_view en i c of
        Panic \<Rightarrow> Panic
      | Ret (ds, c1) \<Rightarrow> (case reprime_views en is c1 of Panic \<Rightarrow> Panic | Ret (es, c2) \<Rightarrow> Ret (ds @ es, c2)))"

definition replace_store :: "engine \<Rightarrow> store \<Rightarrow> circuit \<Rightarrow> (view_delta list \<times> circuit) outcome" where
  "replace_store en s c =
     (let c1 = refresh_retained_fields (c\<lparr>ci_store := clear_pending_deleted_rows s\<rparr>)
      in reprime_views en (hm_keys (ci_views c1)) c1)"

end
