(* ===== verification/Ingest.thy ===== *)
theory Ingest
  imports Circuits
begin

section \<open>Ingesting changes\<close>

text \<open>
  Model of \<^verbatim>\<open>Circuit::step_timed\<close> and \<^verbatim>\<open>reconcile\<close> (\<^verbatim>\<open>circuit/circuit.rs\<close>): a set of changes
  is applied to the store, giving a delta per table and the rows whose content changed in place;
  every query that reads a changed table is stepped, re-primed if its window lost rows, and its
  delta is published to the registrations sharing its graph.
\<close>

subsection \<open>Row versions and opaque fields\<close>

definition max_i64 :: "i64 \<Rightarrow> i64 \<Rightarrow> i64" where
  "max_i64 a b = (if sint a \<le> sint b then b else a)"

fun maximum_i64 :: "i64 list \<Rightarrow> i64 option" where
  "maximum_i64 [] = None"
| "maximum_i64 (x # xs) = Some (fold max_i64 xs x)"

definition max_rv :: "row_table \<Rightarrow> i64 option" where
  "max_rv rows = maximum_i64 (List.map_filter (rv_of rows) (hm_keys rows))"

definition max_row_versions :: "circuit \<Rightarrow> (string, i64) hmap" where
  "max_row_versions c =
     map (\<lambda>(t, co). (t, case max_rv (co_rows co) of None \<Rightarrow> - 1 | Some rv \<Rightarrow> rv)) (sto_collections (ci_store c))"

definition stamp_version :: "i64 \<Rightarrow> value \<Rightarrow> value" where
  "stamp_version rv data = (case data of VObject m \<Rightarrow> VObject (hm_insert ''_00_rv'' (VInt rv) m) | _ \<Rightarrow> data)"

definition incoming_version :: "value \<Rightarrow> i64 option" where
  "incoming_version data =
     (case value_get data ''_00_rv'' of Some (VInt v) \<Rightarrow> if 0 < sint v then Some v else None | _ \<Rightarrow> None)"

definition floor_row_version :: "string \<Rightarrow> string \<Rightarrow> value \<Rightarrow> circuit \<Rightarrow> value \<times> circuit" where
  "floor_row_version table i data c0 =
     (let incoming = incoming_version data;
          c = (case incoming of None \<Rightarrow> c0 | Some v \<Rightarrow> c0\<lparr>ci_rv_floor := max_i64 (ci_rv_floor c0) v\<rparr>);
          raw = raw_id i
      in case hm_get (sto_collections (ci_store c)) table of
           None \<Rightarrow> (data, c)
         | Some co \<Rightarrow>
             if \<not> hm_contains (co_rows co) raw then (data, c)
             else let stored = rv_of (co_rows co) raw
                  in if (case (incoming, stored) of
                           (Some v, Some rv) \<Rightarrow> sint rv < sint v | (Some _, None) \<Rightarrow> True | _ \<Rightarrow> False)
                     then (data, c)
                     else let floor = (if ci_rv_floor c = 0
                                       then max_i64 (case maximum_i64 (map snd (max_row_versions c)) of None \<Rightarrow> 0 | Some m \<Rightarrow> m) 0
                                       else ci_rv_floor c);
                              nxt = max_i64 floor (case stored of None \<Rightarrow> 0 | Some rv \<Rightarrow> rv) + 1
                          in (stamp_version nxt data,
                              c\<lparr>ci_rv_floor := nxt, ci_synthesized := ci_synthesized c + 1,
                                ci_synthesized_missing := ci_synthesized_missing c + (if incoming = None then 1 else 0)\<rparr>))"

fun strip_path :: "string list \<Rightarrow> value \<Rightarrow> value" where
  "strip_path [] v = v"
| "strip_path [leaf] v = (case v of VObject m \<Rightarrow> VObject (hm_remove leaf m) | _ \<Rightarrow> v)"
| "strip_path (head # seg # rest) v =
     (case v of
        VObject m \<Rightarrow>
          (case hm_get m head of
             None \<Rightarrow> v
           | Some inner \<Rightarrow> VObject (hm_insert head (strip_path (seg # rest) inner) m))
      | _ \<Rightarrow> v)"

definition strip_opaque :: "string list \<Rightarrow> value \<Rightarrow> value" where
  "strip_opaque names row = fold (\<lambda>field. strip_path (split_on CHR ''.'' field)) names row"

subsection \<open>Phase 1: the store\<close>

record ingest =
  ig_circuit :: circuit
  ig_deltas :: table_deltas
  ig_updates :: content_updates
  ig_changed :: "string list"

definition bump_delta :: "string \<Rightarrow> row_key \<Rightarrow> weight \<Rightarrow> table_deltas \<Rightarrow> table_deltas" where
  "bump_delta table key w tds =
     (let d = hm_entry tds table in hm_insert table (hm_insert key (zget d key + w) d) tds)"

definition write_change :: "codec \<Rightarrow> index_ops \<Rightarrow> change \<Rightarrow> circuit \<Rightarrow> applied \<times> circuit" where
  "write_change cdc ops ch c0 =
     (let table = ch_table ch; op = ch_op ch; i = ch_id ch;
          c1 = (if op = OpDelete then c0\<lparr>ci_store := stage_deleted_row table i (ci_store c0)\<rparr> else c0);
          data1 = strip_opaque (hm_entry (ci_opaque_fields c1) table) (ch_data ch);
          (data, c2) = (if ci_monotonic_row_versions c1 \<and> op \<in> {OpCreate, OpUpdate}
                        then floor_row_version table i data1 c1 else (data1, c1));
          (a, s) = apply_owned cdc ops table op i data (ci_store c2)
      in (a, c2\<lparr>ci_store := s\<rparr>))"

definition track_change :: "string \<Rightarrow> applied \<Rightarrow> ingest \<Rightarrow> ingest" where
  "track_change table a st =
     (if \<not> ap_content_changed a then st
      else let st1 = (if ap_weight a \<noteq> 0
                      then st\<lparr>ig_deltas := bump_delta table (ap_key a) (ap_weight a) (ig_deltas st)\<rparr>
                      else st\<lparr>ig_updates := hm_push table (ap_key a) (ig_updates st)\<rparr>)
           in st1\<lparr>ig_changed := (if table \<in> set (ig_changed st1) then ig_changed st1 else ig_changed st1 @ [table])\<rparr>)"

definition ingest_change :: "codec \<Rightarrow> index_ops \<Rightarrow> change \<Rightarrow> ingest \<Rightarrow> ingest" where
  "ingest_change cdc ops ch st =
     (case write_change cdc ops ch (ig_circuit st) of
        (a, c) \<Rightarrow> track_change (ch_table ch) a (st\<lparr>ig_circuit := c\<rparr>))"

text \<open>
  A key whose weights cancel and that is held now was written again in the same step: it is a
  content update.
\<close>

definition settle_table :: "store \<Rightarrow> string \<times> zset \<Rightarrow> table_deltas \<times> content_updates \<Rightarrow> table_deltas \<times> content_updates" where
  "settle_table s e st =
     (case e of (table, delta) \<Rightarrow> case st of (tds, cu) \<Rightarrow>
        let held = (\<lambda>key. case hm_get (sto_collections s) table of None \<Rightarrow> False | Some co \<Rightarrow> has_key co key)
        in (hm_insert table (hm_retain (\<lambda>_ w. w \<noteq> 0) delta) tds,
            fold (\<lambda>(key, w) u. if w = 0 \<and> held key then hm_push table key u else u) delta cu))"

definition settle_deltas :: "store \<Rightarrow> table_deltas \<Rightarrow> content_updates \<Rightarrow> table_deltas \<times> content_updates" where
  "settle_deltas s tds cu = fold (settle_table s) tds (tds, cu)"

definition store_phase :: "codec \<Rightarrow> index_ops \<Rightarrow> change list \<Rightarrow> circuit \<Rightarrow> ingest" where
  "store_phase cdc ops changes c =
     (let st = fold (ingest_change cdc ops) changes \<lparr>ig_circuit = c, ig_deltas = [], ig_updates = [], ig_changed = []\<rparr>;
          (tds, cu) = settle_deltas (ci_store (ig_circuit st)) (ig_deltas st) (ig_updates st)
      in st\<lparr>ig_deltas := tds, ig_updates := cu\<rparr>)"

subsection \<open>Phases 2 and 3: the affected queries\<close>

definition affected_queries :: "circuit \<Rightarrow> string list \<Rightarrow> string list" where
  "affected_queries c tables =
     fold (\<lambda>t qs. fold (\<lambda>q qs. if q \<in> set qs then qs else qs @ [q]) (hm_entry (ci_dependency_map c) t) qs) tables []"

definition step_query ::
  "engine \<Rightarrow> table_deltas \<Rightarrow> content_updates \<Rightarrow> string \<Rightarrow> circuit \<Rightarrow> (view_delta option \<times> circuit) outcome" where
  "step_query en tds cu query_id c =
     (case (hm_get (ci_graphs c) query_id, hm_get (ci_views c) query_id) of
        (Some g, Some v) \<Rightarrow>
          (case graph_delta en (ci_store c) (vw_params v) tds cu (vw_cache v) g of
             Panic \<Rightarrow> Panic
           | Ret (None, g') \<Rightarrow> Ret (None, c\<lparr>ci_graphs := hm_insert query_id g' (ci_graphs c)\<rparr>)
           | Ret (Some delta, g') \<Rightarrow>
               (case publish_delta en (ci_store c) tds cu query_id delta v of
                  (d, v') \<Rightarrow> Ret (d, c\<lparr>ci_graphs := hm_insert query_id g' (ci_graphs c),
                                      ci_views := hm_insert query_id v' (ci_views c)\<rparr>)))
      | _ \<Rightarrow> Ret (None, c))"

definition step_affected ::
  "engine \<Rightarrow> table_deltas \<Rightarrow> content_updates \<Rightarrow> string \<Rightarrow> circuit \<Rightarrow> (view_delta list \<times> circuit) outcome" where
  "step_affected en tds cu query_id c =
     (case step_query en tds cu query_id c of
        Panic \<Rightarrow> Panic
      | Ret (delta, c1) \<Rightarrow>
          if (case hm_get (ci_graphs c1) query_id of None \<Rightarrow> False | Some g \<Rightarrow> graph_needs_rebuild g)
          then reprime_view en query_id c1
          else (case delta of None \<Rightarrow> Ret ([], c1) | Some d \<Rightarrow> Ret (fan_out c1 d, c1)))"

fun step_queries ::
  "engine \<Rightarrow> table_deltas \<Rightarrow> content_updates \<Rightarrow> string list \<Rightarrow> circuit \<Rightarrow> (view_delta list \<times> circuit) outcome" where
  "step_queries en tds cu [] c = Ret ([], c)"
| "step_queries en tds cu (q # qs) c =
     (case step_affected en tds cu q c of
        Panic \<Rightarrow> Panic
      | Ret (ds, c1) \<Rightarrow>
          (case step_queries en tds cu qs c1 of Panic \<Rightarrow> Panic | Ret (es, c2) \<Rightarrow> Ret (ds @ es, c2)))"

definition circuit_step ::
  "codec \<Rightarrow> index_ops \<Rightarrow> engine \<Rightarrow> change list \<Rightarrow> circuit \<Rightarrow> (view_delta list \<times> circuit) outcome" where
  "circuit_step cdc ops en changes c =
     (if changes = [] then Ret ([], c)
      else let st = store_phase cdc ops changes c; c1 = ig_circuit st
           in case step_queries en (ig_deltas st) (ig_updates st) (affected_queries c1 (ig_changed st)) c1 of
                Panic \<Rightarrow> Panic
              | Ret (results, c2) \<Rightarrow> Ret (results, c2\<lparr>ci_store := clear_pending_deleted_rows (ci_store c2)\<rparr>))"

subsection \<open>Reconciling a table\<close>

record reconciled =
  re_fetch :: "string list"
  re_deleted :: nat
  re_deltas :: "view_delta list"

definition reconcile_sets :: "string \<Rightarrow> (string \<times> i64) list \<Rightarrow> store \<Rightarrow> string list \<times> string list" where
  "reconcile_sets table entries s =
     (case hm_get (sto_collections s) table of
        None \<Rightarrow> (map fst entries, [])
      | Some co \<Rightarrow>
          (map fst (filter (\<lambda>(i, rv). case rv_of (co_rows co) (raw_id i) of Some stored \<Rightarrow> sint stored < sint rv | None \<Rightarrow> True) entries),
           filter (\<lambda>i. i \<notin> raw_id ` fst ` set entries) (hm_keys (co_rows co))))"

definition delete_change :: "string \<Rightarrow> string \<Rightarrow> change" where
  "delete_change table i = \<lparr>ch_table = table, ch_op = OpDelete, ch_id = i, ch_data = VNull\<rparr>"

definition reconcile ::
  "codec \<Rightarrow> index_ops \<Rightarrow> engine \<Rightarrow> string \<Rightarrow> (string \<times> i64) list \<Rightarrow> circuit \<Rightarrow> (reconciled \<times> circuit) outcome" where
  "reconcile cdc ops en table entries c =
     (case reconcile_sets table entries (ci_store c) of
        (fetch, stale) \<Rightarrow>
          if stale = [] then Ret (\<lparr>re_fetch = fetch, re_deleted = 0, re_deltas = []\<rparr>, c)
          else (case circuit_step cdc ops en (map (delete_change table) stale) c of
                  Panic \<Rightarrow> Panic
                | Ret (deltas, c') \<Rightarrow>
                    Ret (\<lparr>re_fetch = fetch, re_deleted = length stale, re_deltas = deltas\<rparr>, c')))"

end
