(* ===== verification/Sharing.thy ===== *)
theory Sharing
  imports Ingest
begin

section \<open>Registrations and shared graphs\<close>

text \<open>
  The life of registrations in a circuit as a step relation: registering a new query, attaching a
  registration to an existing graph, claiming a merge key, leaving, and every operation that
  changes rows. The invariant says that the routing tables agree: every graph has its view, every
  subscriber and every merge key names a graph that exists, no id is registered twice, an owner
  that left is kept only for its subscribers, and the dependency map lists a query under exactly
  the tables it references.
\<close>

subsection \<open>What an operation leaves alone\<close>

definition view_card :: "circuit \<Rightarrow> string \<Rightarrow> (string list \<times> string) option" where
  "view_card c q = map_option (\<lambda>v. (vw_referenced_tables v, vw_auth_id v)) (hm_get (ci_views c) q)"

definition same_regs :: "circuit \<Rightarrow> circuit \<Rightarrow> bool" where
  "same_regs c c' \<longleftrightarrow> ci_subscribers c' = ci_subscribers c \<and> ci_detached_owners c' = ci_detached_owners c
     \<and> ci_merge_index c' = ci_merge_index c \<and> ci_dependency_map c' = ci_dependency_map c
     \<and> hm_keys (ci_views c') = hm_keys (ci_views c) \<and> set (hm_keys (ci_graphs c')) = set (hm_keys (ci_graphs c))
     \<and> view_card c' = view_card c"

lemma same_regs_refl [simp]: "same_regs c c"
  by (simp add: same_regs_def)

lemma same_regs_trans [trans]: "same_regs a b \<Longrightarrow> same_regs b c \<Longrightarrow> same_regs a c"
  by (simp add: same_regs_def)

lemma hm_keys_update [simp]: "hm_get m k = Some v \<Longrightarrow> hm_keys (hm_insert k v' m) = hm_keys m"
  by (induction m) (auto simp: hm_keys_def split: if_splits)

lemma insert_key_absorb: "hm_get m k = Some v \<Longrightarrow> insert k (set (hm_keys m)) = set (hm_keys m)"
  by (auto simp: in_hm_keys)

lemma same_regs_store [simp]: "same_regs c (c\<lparr>ci_store := s\<rparr>)" "same_regs c (c'\<lparr>ci_store := s\<rparr>) = same_regs c c'"
  by (simp_all add: same_regs_def view_card_def fun_eq_iff)

lemma apply_delta_fields [simp]:
  "vw_referenced_tables (apply_delta d v) = vw_referenced_tables v" "vw_auth_id (apply_delta d v) = vw_auth_id v"
  "vw_plan (apply_delta d v) = vw_plan v" "vw_params (apply_delta d v) = vw_params v"
  by (simp_all add: apply_delta_def)

lemma bump_fields [simp]:
  "vw_referenced_tables (bump_content_generation v) = vw_referenced_tables v"
  "vw_auth_id (bump_content_generation v) = vw_auth_id v" "vw_plan (bump_content_generation v) = vw_plan v"
  "vw_params (bump_content_generation v) = vw_params v" "vw_cache (bump_content_generation v) = vw_cache v"
  by (simp_all add: bump_content_generation_def)

lemma publish_fields:
  "publish_delta en s tds cu q delta v = (d, v') \<Longrightarrow>
   vw_referenced_tables v' = vw_referenced_tables v \<and> vw_auth_id v' = vw_auth_id v \<and> vw_plan v' = vw_plan v
   \<and> vw_params v' = vw_params v \<and> vw_cache v' = vw_cache (apply_delta delta v)"
  by (auto simp: publish_delta_def Let_def split: if_splits)

lemma initial_fields:
  "initial_delta en s q out v = (d, v') \<Longrightarrow>
   vw_referenced_tables v' = vw_referenced_tables v \<and> vw_auth_id v' = vw_auth_id v \<and> vw_plan v' = vw_plan v
   \<and> vw_params v' = vw_params v \<and> vw_cache v' = vw_cache (apply_delta out v)"
  by (auto simp: initial_delta_def Let_def apply_delta_def split: if_splits)

lemma same_regs_graph: "hm_get (ci_graphs c) q = Some g \<Longrightarrow> same_regs c (c\<lparr>ci_graphs := hm_insert q g' (ci_graphs c)\<rparr>)"
  by (simp add: same_regs_def view_card_def fun_eq_iff)

lemma same_regs_view:
  "hm_get (ci_views c) q = Some v \<Longrightarrow> vw_referenced_tables v' = vw_referenced_tables v \<Longrightarrow> vw_auth_id v' = vw_auth_id v \<Longrightarrow>
   same_regs c (c\<lparr>ci_views := hm_insert q v' (ci_views c)\<rparr>)"
  by (simp add: same_regs_def view_card_def fun_eq_iff)

lemma same_regs_graph_view:
  assumes "hm_get (ci_graphs c) q = Some g" and "hm_get (ci_views c) q = Some v"
    and "vw_referenced_tables v' = vw_referenced_tables v" and "vw_auth_id v' = vw_auth_id v"
  shows "same_regs c (c\<lparr>ci_graphs := hm_insert q g' (ci_graphs c), ci_views := hm_insert q v' (ci_views c)\<rparr>)"
  using assms by (simp add: same_regs_def view_card_def fun_eq_iff)

lemma run_initial_same:
  assumes "run_initial_snapshot en q c = Ret (d, c')"
  shows "same_regs c c' \<and> ci_store c' = ci_store c"
proof (cases "hm_get (ci_graphs c) q"; cases "hm_get (ci_views c) q")
  fix g v assume gv: "hm_get (ci_graphs c) q = Some g" "hm_get (ci_views c) q = Some v"
  obtain out g' where p: "prime_graph en (ci_store c) (vw_params v) g = Ret (out, g')"
    using assms gv by (cases "prime_graph en (ci_store c) (vw_params v) g") (auto simp: run_initial_snapshot_def)
  show ?thesis
  proof (cases out)
    case None
    then show ?thesis using assms gv p same_regs_graph [OF gv(1)] by (auto simp: run_initial_snapshot_def)
  next
    case (Some z)
    obtain d' v' where i: "initial_delta en (ci_store c) q z v = (d', v')" by fastforce
    then show ?thesis
      using assms gv p Some initial_fields [OF i] same_regs_graph_view [OF gv]
      by (auto simp: run_initial_snapshot_def)
  qed
qed (use assms in \<open>auto simp: run_initial_snapshot_def\<close>)

lemma step_query_same:
  assumes "step_query en tds cu q c = Ret (d, c')"
  shows "same_regs c c' \<and> ci_store c' = ci_store c"
proof (cases "hm_get (ci_graphs c) q"; cases "hm_get (ci_views c) q")
  fix g v assume gv: "hm_get (ci_graphs c) q = Some g" "hm_get (ci_views c) q = Some v"
  obtain out g' where p: "graph_delta en (ci_store c) (vw_params v) tds cu (vw_cache v) g = Ret (out, g')"
    using assms gv by (cases "graph_delta en (ci_store c) (vw_params v) tds cu (vw_cache v) g") (auto simp: step_query_def)
  show ?thesis
  proof (cases out)
    case None
    then show ?thesis using assms gv p same_regs_graph [OF gv(1)] by (auto simp: step_query_def)
  next
    case (Some z)
    obtain d' v' where i: "publish_delta en (ci_store c) tds cu q z v = (d', v')" by fastforce
    then show ?thesis
      using assms gv p Some publish_fields [OF i] same_regs_graph_view [OF gv] by (auto simp: step_query_def)
  qed
qed (use assms in \<open>auto simp: step_query_def\<close>)

definition keys_ok :: "circuit \<Rightarrow> bool" where
  "keys_ok c \<longleftrightarrow> set (hm_keys (ci_graphs c)) = set (hm_keys (ci_views c))"

lemma same_regs_keys_ok: "same_regs c c' \<Longrightarrow> keys_ok c \<Longrightarrow> keys_ok c'"
  by (simp add: same_regs_def keys_ok_def)

lemma reprime_view_same:
  assumes keys: "keys_ok c" and r: "reprime_view en q c = Ret (ds, c')"
  shows "same_regs c c' \<and> ci_store c' = ci_store c"
proof (cases "hm_get (ci_views c) q")
  case None
  then show ?thesis using r by (simp add: reprime_view_def)
next
  case (Some v)
  then obtain g0 where g0: "hm_get (ci_graphs c) q = Some g0"
    using keys by (auto simp: keys_ok_def in_hm_keys set_eq_iff)
  obtain g where g: "from_plan (qp_root (vw_plan v)) = Ret g"
    using r Some by (cases "from_plan (qp_root (vw_plan v))") (auto simp: reprime_view_def)
  let ?v = "v\<lparr>vw_cache := [], vw_subquery_cache := [], vw_last_hash := []\<rparr>"
  let ?c = "c\<lparr>ci_views := hm_insert q ?v (ci_views c), ci_graphs := hm_insert q g (ci_graphs c)\<rparr>"
  have c1: "same_regs c ?c"
    using same_regs_graph_view [OF g0 Some, of ?v g] by (simp add: same_regs_def view_card_def fun_eq_iff)
  obtain d c2 where i: "run_initial_snapshot en q ?c = Ret (d, c2)"
    using r Some g by (cases "run_initial_snapshot en q ?c") (auto simp: reprime_view_def Let_def)
  have c2: "same_regs c c2" "ci_store c2 = ci_store c"
    using run_initial_same [OF i] c1 same_regs_trans by auto
  show ?thesis
  proof (cases d)
    case d: None
    obtain v2 where v2: "hm_get (ci_views c2) q = Some v2"
      using r Some g i d by (cases "hm_get (ci_views c2) q") (auto simp: reprime_view_def Let_def)
    have "same_regs c2 (c2\<lparr>ci_views := hm_insert q (v2\<lparr>vw_last_hash := compute_hash en v2\<rparr>) (ci_views c2)\<rparr>)"
      by (rule same_regs_view [OF v2]) simp_all
    then show ?thesis using r Some g i d v2 c2 same_regs_trans by (auto simp: reprime_view_def Let_def)
  next
    case (Some d')
    then show ?thesis using r \<open>hm_get (ci_views c) q = Some v\<close> g i c2 by (auto simp: reprime_view_def Let_def)
  qed
qed

lemma step_affected_same:
  assumes "keys_ok c" and "step_affected en tds cu q c = Ret (ds, c')"
  shows "same_regs c c' \<and> ci_store c' = ci_store c"
proof -
  obtain d c1 where s: "step_query en tds cu q c = Ret (d, c1)"
    using assms(2) by (cases "step_query en tds cu q c") (auto simp: step_affected_def)
  note S = step_query_same [OF s]
  have "same_regs c1 c' \<and> ci_store c' = ci_store c1"
    using assms(2) s reprime_view_same [of c1] same_regs_keys_ok [OF _ assms(1)] S
    by (auto simp: step_affected_def split: if_splits option.splits)
  then show ?thesis using S same_regs_trans by metis
qed

lemma step_queries_same:
  "keys_ok c \<Longrightarrow> step_queries en tds cu qs c = Ret (ds, c') \<Longrightarrow> same_regs c c' \<and> ci_store c' = ci_store c"
proof (induction qs arbitrary: c ds)
  case (Cons q qs)
  obtain ds1 c1 where 1: "step_affected en tds cu q c = Ret (ds1, c1)"
    using Cons.prems(2) by (cases "step_affected en tds cu q c") auto
  obtain ds2 where 2: "step_queries en tds cu qs c1 = Ret (ds2, c')"
    using Cons.prems(2) 1 by (cases "step_queries en tds cu qs c1") auto
  have S: "same_regs c c1" "ci_store c1 = ci_store c" using step_affected_same [OF Cons.prems(1) 1] by simp_all
  show ?case using Cons.IH [OF same_regs_keys_ok [OF S(1) Cons.prems(1)] 2] S same_regs_trans by metis
qed simp

lemma reprime_views_same:
  "keys_ok c \<Longrightarrow> reprime_views en qs c = Ret (ds, c') \<Longrightarrow> same_regs c c' \<and> ci_store c' = ci_store c"
proof (induction qs arbitrary: c ds)
  case (Cons q qs)
  obtain ds1 c1 where 1: "reprime_view en q c = Ret (ds1, c1)"
    using Cons.prems(2) by (cases "reprime_view en q c") auto
  obtain ds2 where 2: "reprime_views en qs c1 = Ret (ds2, c')"
    using Cons.prems(2) 1 by (cases "reprime_views en qs c1") auto
  have S: "same_regs c c1" "ci_store c1 = ci_store c" using reprime_view_same [OF Cons.prems(1) 1] by simp_all
  show ?case using Cons.IH [OF same_regs_keys_ok [OF S(1) Cons.prems(1)] 2] S same_regs_trans by metis
qed simp

lemma floor_row_version_same: "floor_row_version t i v c = (v', c') \<Longrightarrow> same_regs c c' \<and> ci_store c' = ci_store c"
  by (auto simp: floor_row_version_def Let_def same_regs_def view_card_def fun_eq_iff split: option.splits if_splits)

lemma track_change_circuit [simp]: "ig_circuit (track_change t a st) = ig_circuit st"
  by (simp add: track_change_def Let_def)

lemma write_change_same: "same_regs c (snd (write_change cdc ops ch c))"
proof -
  define c1 where "c1 = (if ch_op ch = OpDelete then c\<lparr>ci_store := stage_deleted_row (ch_table ch) (ch_id ch) (ci_store c)\<rparr> else c)"
  define data1 where "data1 = strip_opaque (hm_entry (ci_opaque_fields c1) (ch_table ch)) (ch_data ch)"
  obtain data c2 where f: "(if ci_monotonic_row_versions c1 \<and> ch_op ch \<in> {OpCreate, OpUpdate}
      then floor_row_version (ch_table ch) (ch_id ch) data1 c1 else (data1, c1)) = (data, c2)" by fastforce
  have "same_regs c c1" by (simp add: c1_def)
  moreover have "same_regs c1 c2" using f floor_row_version_same by (auto split: if_splits)
  ultimately have "same_regs c c2" using same_regs_trans by blast
  then show ?thesis
    unfolding write_change_def Let_def c1_def [symmetric] data1_def [symmetric] f by (simp split: prod.splits)
qed

lemma ingest_change_same: "same_regs (ig_circuit st) (ig_circuit (ingest_change cdc ops ch st))"
  using write_change_same [of "ig_circuit st" cdc ops ch] by (simp add: ingest_change_def case_prod_beta)

lemma ingest_changes_same: "same_regs (ig_circuit st) (ig_circuit (fold (ingest_change cdc ops) chs st))"
  by (induction chs arbitrary: st) (simp, metis (no_types, lifting) fold_simps(2) ingest_change_same same_regs_trans)

lemma store_phase_same: "same_regs c (ig_circuit (store_phase cdc ops chs c))"
  using ingest_changes_same [of "\<lparr>ig_circuit = c, ig_deltas = [], ig_updates = [], ig_changed = []\<rparr>" cdc ops chs]
  by (simp add: store_phase_def Let_def case_prod_beta)

lemma circuit_step_same:
  assumes "keys_ok c" and "circuit_step cdc ops en chs c = Ret (ds, c')"
  shows "same_regs c c'"
proof (cases "chs = []")
  case False
  let ?st = "store_phase cdc ops chs c"
  obtain ds' c2 where q: "step_queries en (ig_deltas ?st) (ig_updates ?st) (affected_queries (ig_circuit ?st) (ig_changed ?st)) (ig_circuit ?st)
      = Ret (ds', c2)"
    using assms(2) False
    by (cases "step_queries en (ig_deltas ?st) (ig_updates ?st) (affected_queries (ig_circuit ?st) (ig_changed ?st)) (ig_circuit ?st)")
      (auto simp: circuit_step_def Let_def)
  have "same_regs (ig_circuit ?st) c2"
    using step_queries_same [OF same_regs_keys_ok [OF store_phase_same assms(1)] q] by simp
  then show ?thesis
    using assms(2) False q same_regs_trans [OF store_phase_same] by (auto simp: circuit_step_def Let_def)
qed (use assms in \<open>simp add: circuit_step_def\<close>)

lemma refresh_retained_same: "same_regs c (refresh_retained_fields c)"
  by (simp add: refresh_retained_fields_def Let_def)

lemma note_missing_same: "same_regs c (note_missing_fields root c) \<and> ci_store (note_missing_fields root c) = ci_store c"
  by (simp add: note_missing_fields_def same_regs_def view_card_def fun_eq_iff)

lemma replace_store_same:
  assumes "keys_ok c" and "replace_store en s c = Ret (ds, c')"
  shows "same_regs c c'"
proof -
  let ?c = "refresh_retained_fields (c\<lparr>ci_store := clear_pending_deleted_rows s\<rparr>)"
  have S: "same_regs c ?c" using refresh_retained_same [of "c\<lparr>ci_store := clear_pending_deleted_rows s\<rparr>"]
    same_regs_trans [OF same_regs_store(1)] by blast
  have "same_regs ?c c'"
    using reprime_views_same [OF same_regs_keys_ok [OF S assms(1)], of en] assms(2) by (auto simp: replace_store_def Let_def)
  then show ?thesis using S same_regs_trans by blast
qed

lemma reconcile_same:
  assumes "keys_ok c" and "reconcile cdc ops en t es c = Ret (r, c')"
  shows "same_regs c c'"
proof -
  obtain fetch stale where f: "reconcile_sets t es (ci_store c) = (fetch, stale)" by fastforce
  show ?thesis
  proof (cases "stale = []")
    case False
    then show ?thesis
      using assms f circuit_step_same [OF assms(1), of cdc ops en "map (delete_change t) stale"]
      by (auto simp: reconcile_def split: outcome.splits)
  qed (use assms f in \<open>simp add: reconcile_def\<close>)
qed

end
