(* ===== verification/Sharing_Invariant.thy ===== *)
theory Sharing_Invariant
  imports Sharing
begin

section \<open>The registration invariant\<close>

text \<open>
  The invariant of the registration tables, that every operation of the circuit keeps it, and
  what it gives: a registration that leaves takes nothing from its siblings, and a published
  delta reaches every registration of its graph exactly once.
\<close>

abbreviation view_ids :: "circuit \<Rightarrow> string set" where
  "view_ids c \<equiv> set (hm_keys (ci_views c))"

definition sub_ids :: "circuit \<Rightarrow> string \<Rightarrow> string list" where
  "sub_ids c owner = map sb_query_id (hm_entry (ci_subscribers c) owner)"

definition routes_exact :: "circuit \<Rightarrow> bool" where
  "routes_exact c \<longleftrightarrow> hm_wf (ci_dependency_map c) \<and> (\<forall>t. distinct (hm_entry (ci_dependency_map c) t)
     \<and> set (hm_entry (ci_dependency_map c) t) = {q. \<exists>ts a. view_card c q = Some (ts, a) \<and> t \<in> set ts})"

definition subs_ok :: "string set \<Rightarrow> (string \<Rightarrow> string list) \<Rightarrow> bool" where
  "subs_ok V S \<longleftrightarrow> (\<forall>o1. distinct (S o1) \<and> (S o1 \<noteq> [] \<longrightarrow> o1 \<in> V)
     \<and> (\<forall>i \<in> set (S o1). canonical_query_id i = i \<and> i \<notin> V \<and> (\<forall>o2. i \<in> set (S o2) \<longrightarrow> o2 = o1)))"

definition reg_core :: "circuit \<Rightarrow> bool" where
  "reg_core c \<longleftrightarrow> keys_ok c \<and> hm_wf (ci_views c) \<and> hm_wf (ci_subscribers c) \<and> routes_exact c
     \<and> set (ci_detached_owners c) \<subseteq> view_ids c \<and> snd ` set (ci_merge_index c) \<subseteq> view_ids c
     \<and> (\<forall>i \<in> view_ids c. canonical_query_id i = i) \<and> subs_ok (view_ids c) (sub_ids c)"

definition reg_inv :: "circuit \<Rightarrow> bool" where
  "reg_inv c \<longleftrightarrow> reg_core c \<and> (\<forall>i \<in> set (ci_detached_owners c). sub_ids c i \<noteq> [])"

lemma sub_ids_cong: "ci_subscribers c' = ci_subscribers c \<Longrightarrow> sub_ids c' = sub_ids c"
  by (simp add: sub_ids_def fun_eq_iff)

lemma same_regs_core: "same_regs c c' \<Longrightarrow> reg_core c \<Longrightarrow> reg_core c'"
  using sub_ids_cong [of c' c]
  by (simp add: same_regs_def reg_core_def keys_ok_def routes_exact_def hm_wf_def hm_keys_def)

lemma subs_ok_owner: "subs_ok V S \<Longrightarrow> i \<in> set (S o1) \<Longrightarrow> o1 \<in> V"
  unfolding subs_ok_def by (metis empty_iff list.set(1))

lemma subs_ok_not_view: "subs_ok V S \<Longrightarrow> i \<in> set (S o1) \<Longrightarrow> i \<notin> V"
  unfolding subs_ok_def by blast

lemma subs_ok_view: "subs_ok V S \<Longrightarrow> \<forall>i. q \<notin> set (S i) \<Longrightarrow> subs_ok (insert q V) S"
  by (auto simp: subs_ok_def)

lemma subs_ok_append:
  "subs_ok V S \<Longrightarrow> \<forall>i. q \<notin> set (S i) \<Longrightarrow> q \<notin> V \<Longrightarrow> canonical_query_id q = q \<Longrightarrow> o1 \<in> V \<Longrightarrow> subs_ok V (S(o1 := S o1 @ [q]))"
  by (auto simp: subs_ok_def)

lemma subs_ok_filter: "subs_ok V S \<Longrightarrow> subs_ok V (S(o1 := filter p (S o1)))"
  unfolding subs_ok_def by (auto split: if_splits) (metis filter.simps(1))+

lemma subs_ok_remove: "subs_ok V S \<Longrightarrow> S q = [] \<Longrightarrow> subs_ok (V - {q}) S"
  by (auto simp: subs_ok_def)

lemma same_regs_inv: "same_regs c c' \<Longrightarrow> reg_inv c \<Longrightarrow> reg_inv c'"
  using same_regs_core [of c c'] by (simp add: reg_inv_def same_regs_def sub_ids_def)

lemma reg_core_keys: "reg_core c \<Longrightarrow> keys_ok c"
  by (simp add: reg_core_def)

lemma hm_entry_Nil [simp]: "hm_entry [] k = []"
  by (simp add: hm_entry_def)

lemma hm_entry_insert [simp]: "hm_entry (hm_insert k v m) k' = (if k' = k then v else hm_entry m k')"
  by (simp add: hm_entry_def)

lemma hm_entry_remove [simp]: "hm_entry (hm_remove k m) k' = (if k' = k then [] else hm_entry m k')"
  by (simp add: hm_entry_def)

lemma hm_entry_set: "hm_wf m \<Longrightarrow> (k, vs) \<in> set m \<Longrightarrow> hm_entry m k = vs"
  by (simp add: hm_entry_def hm_get_eq_Some_iff [THEN iffD2])

lemma in_hm_entry: "v \<in> set (hm_entry m k) \<Longrightarrow> \<exists>vs. (k, vs) \<in> set m \<and> v \<in> set vs"
  by (cases "hm_get m k") (auto simp: hm_entry_def dest: map_of_SomeD)

lemma hm_entry_push: "hm_entry (hm_push k v m) k' = hm_entry m k' @ (if k' = k then [v] else [])"
  by (simp add: hm_push_def)

lemma hm_wf_push [simp]: "hm_wf m \<Longrightarrow> hm_wf (hm_push k v m)"
  by (simp add: hm_push_def)

lemma reg_core_new: "reg_core circuit_new"
  by (simp add: reg_core_def circuit_new_def keys_ok_def routes_exact_def sub_ids_def view_card_def hm_keys_def subs_ok_def)

subsection \<open>Registering\<close>

lemma hm_entry_pushes:
  "distinct ts \<Longrightarrow> hm_entry (fold (\<lambda>t. hm_push t q) ts m) t = hm_entry m t @ (if t \<in> set ts then [q] else [])"
  by (induction ts arbitrary: m) (auto simp: hm_entry_push)

lemma hm_wf_pushes: "hm_wf m \<Longrightarrow> hm_wf (fold (\<lambda>t. hm_push t q) ts m)"
  by (induction ts arbitrary: m) simp_all

definition installed :: "string \<Rightarrow> graph \<Rightarrow> view \<Rightarrow> circuit \<Rightarrow> circuit" where
  "installed q g v c =
     c\<lparr>ci_graphs := hm_insert q g (ci_graphs c), ci_views := hm_insert q v (ci_views c),
       ci_dependency_map := fold (\<lambda>t. hm_push t q) (vw_referenced_tables v) (ci_dependency_map c)\<rparr>"

lemma installed_inv:
  assumes inv: "reg_inv c" and q: "canonical_query_id q = q" and new: "q \<notin> view_ids c" "\<forall>i. q \<notin> set (sub_ids c i)"
    and d: "distinct (vw_referenced_tables v)"
  shows "reg_inv (installed q g v c)"
proof -
  let ?c = "installed q g v c"
  have ids: "view_ids ?c = insert q (view_ids c)" "sub_ids ?c = sub_ids c"
    "ci_detached_owners ?c = ci_detached_owners c" "ci_merge_index ?c = ci_merge_index c"
    "ci_subscribers ?c = ci_subscribers c"
    by (auto simp: installed_def hm_keys_insert sub_ids_def fun_eq_iff)
  have card: "view_card ?c i = (if i = q then Some (vw_referenced_tables v, vw_auth_id v) else view_card c i)" for i
    by (simp add: installed_def view_card_def)
  have none: "view_card c q = None" using new(1) by (simp add: view_card_def in_hm_keys)
  have core: "reg_core c" using inv by (simp add: reg_inv_def)
  have "routes_exact ?c"
    using core none d unfolding reg_core_def routes_exact_def card
    by (auto simp: installed_def hm_entry_pushes hm_wf_pushes)
  moreover have "keys_ok ?c" using core by (simp add: reg_core_def keys_ok_def installed_def hm_keys_insert)
  moreover have "hm_wf (ci_views ?c)" using core by (simp add: reg_core_def installed_def)
  ultimately have "reg_core ?c"
    using core q subs_ok_view [OF _ new(2)] unfolding reg_core_def ids by auto
  then show ?thesis using inv by (simp add: reg_inv_def ids)
qed

lemma find_SomeD: "List.find p xs = Some x \<Longrightarrow> p x \<and> x \<in> set xs"
  by (induction xs) (auto split: if_splits)

lemma find_registration_None: "find_registration q m = None \<longleftrightarrow> (\<forall>(o1, subs) \<in> set m. q \<notin> sb_query_id ` set subs)"
proof (induction q m rule: find_registration.induct)
  case (2 q o1 subs rest)
  show ?case
  proof (cases "List.find (\<lambda>sb. sb_query_id sb = q) subs")
    case None
    then have "q \<notin> sb_query_id ` set subs" by (auto simp: find_None_iff)
    then show ?thesis using None 2 by simp
  next
    case (Some sb)
    then show ?thesis using find_SomeD [OF Some] by auto
  qed
qed simp

lemma fresh_id:
  assumes "reg_core c" and "registration i c = None"
  shows "canonical_query_id i \<notin> view_ids c" "canonical_query_id i \<notin> set (sub_ids c o1)"
  using assms in_hm_entry [of _ "ci_subscribers c" o1]
  by (fastforce simp: registration_def Let_def in_hm_keys find_registration_None sub_ids_def split: option.splits)+

lemma add_query_installed:
  assumes "add_query_with_auth en plan params fmt auth c = Ret (d, c')"
  obtains g v c0 c1 where "same_regs c c0" "same_regs (installed (canonical_query_id (qp_id plan)) g v c0) c'"
    "distinct (vw_referenced_tables v)"
proof -
  obtain g where g: "from_plan (qp_root plan) = Ret g"
    using assms by (cases "from_plan (qp_root plan)") (auto simp: add_query_with_auth_def Let_def)
  let ?q = "canonical_query_id (qp_id plan)" and ?c = "note_missing_fields (qp_root plan) c"
  define v where "v = view_new ?q (plan\<lparr>qp_id := ?q\<rparr>) (case fmt of None \<Rightarrow> Flat | Some f \<Rightarrow> f) (map_option value_of_json params)
    (referenced_tables (qp_root plan)) auth"
  have "run_initial_snapshot en ?q (refresh_retained_fields (installed ?q g v ?c)) = Ret (d, c')"
    using assms g by (simp add: add_query_with_auth_def Let_def installed_def v_def view_new_def)
  then have "same_regs (installed ?q g v ?c) c'"
    using run_initial_same refresh_retained_same same_regs_trans by blast
  moreover have "distinct (vw_referenced_tables v)"
    by (simp add: v_def view_new_def referenced_tables_def)
  ultimately show ?thesis using that [of ?c g v] note_missing_same by blast
qed

lemma register_inv:
  assumes inv: "reg_inv c" and new: "registration (qp_id plan) c = None"
    and add: "add_query_with_auth en plan params fmt auth c = Ret (d, c')"
  shows "reg_inv c'"
proof -
  let ?q = "canonical_query_id (qp_id plan)"
  obtain g v c0 where c0: "same_regs c c0" "same_regs (installed ?q g v c0) c'" "distinct (vw_referenced_tables v)"
    using add_query_installed [OF add] by metis
  have i0: "reg_inv c0" using same_regs_inv [OF c0(1) inv] .
  have "?q \<notin> view_ids c0" "\<forall>i. ?q \<notin> set (sub_ids c0 i)"
    using fresh_id [OF _ new] inv c0(1) by (simp_all add: reg_inv_def same_regs_def sub_ids_def)
  then show ?thesis using same_regs_inv [OF c0(2)] installed_inv [OF i0 _ _ _ c0(3)] by simp
qed

lemma attach_inv:
  assumes inv: "reg_inv c" and new: "registration i c = None" and at: "attach_subscriber o0 i auth c = (Some d, c')"
  shows "reg_inv c'"
proof -
  let ?q = "canonical_query_id i" and ?o = "canonical_query_id o0"
  have core: "reg_core c" using inv by (simp add: reg_inv_def)
  have fresh: "?q \<notin> view_ids c" "\<And>o1. ?q \<notin> set (sub_ids c o1)" using fresh_id [OF core new] by simp_all
  have "snapshot_delta_from ?o ?q auth c \<noteq> None" using at by (auto simp: attach_subscriber_def Let_def split: option.splits)
  then have o: "?o \<in> view_ids c"
    by (auto simp: snapshot_delta_from_def get_view_def in_hm_keys split: option.splits)
  have "\<not> list_ex (\<lambda>sb. sb_query_id sb = ?q) (hm_entry (ci_subscribers c) ?o)"
    using fresh(2) [of ?o] by (force simp: sub_ids_def list_ex_iff)
  then have c': "c' = c\<lparr>ci_subscribers := hm_insert ?o (hm_entry (ci_subscribers c) ?o @ [\<lparr>sb_query_id = ?q, sb_auth_id = auth\<rparr>]) (ci_subscribers c)\<rparr>"
    using at by (auto simp: attach_subscriber_def Let_def split: option.splits)
  have ids: "sub_ids c' = (sub_ids c)(?o := sub_ids c ?o @ [?q])" by (simp add: c' sub_ids_def fun_eq_iff)
  have rest: "ci_views c' = ci_views c" "ci_detached_owners c' = ci_detached_owners c" "ci_merge_index c' = ci_merge_index c"
    "routes_exact c' = routes_exact c" "keys_ok c' = keys_ok c"
    by (simp_all add: c' routes_exact_def keys_ok_def view_card_def)
  have "hm_wf (ci_subscribers c')" using core by (simp add: c' reg_core_def)
  then have "reg_core c'"
    using core subs_ok_append [OF _ _ fresh(1) _ o, of "sub_ids c"] fresh(2) unfolding reg_core_def rest ids by simp
  then show ?thesis using inv by (simp add: reg_inv_def rest ids)
qed

lemma claim_inv:
  assumes "reg_inv c" and "canonical_query_id q \<in> view_ids c"
  shows "reg_inv (claim_merge_key k q c)"
proof -
  let ?c = "claim_merge_key k q c"
  have m: "snd ` set (ci_merge_index ?c) \<subseteq> insert (canonical_query_id q) (snd ` set (ci_merge_index c))"
    using set_hm_insert_subset [of k "canonical_query_id q" "ci_merge_index c"] by (force simp: claim_merge_key_def)
  have "ci_views ?c = ci_views c" "ci_detached_owners ?c = ci_detached_owners c" "ci_subscribers ?c = ci_subscribers c"
    "routes_exact ?c = routes_exact c" "keys_ok ?c = keys_ok c" "sub_ids ?c = sub_ids c"
    by (simp_all add: claim_merge_key_def routes_exact_def keys_ok_def view_card_def sub_ids_def fun_eq_iff)
  moreover have "snd ` set (ci_merge_index ?c) \<subseteq> view_ids c"
  proof -
    have "snd ` set (ci_merge_index c) \<subseteq> view_ids c" using assms(1) by (simp add: reg_inv_def reg_core_def)
    then show ?thesis using assms(2) by (intro subset_trans [OF m]) simp
  qed
  ultimately show ?thesis using assms by (simp add: reg_inv_def reg_core_def)
qed

subsection \<open>Leaving\<close>

lemma hm_entry_map: "hm_entry (map (\<lambda>(k, vs). (k, f k vs)) m) k = (if hm_get m k = None then [] else f k (hm_entry m k))"
  by (induction m) (auto simp: hm_entry_def)

lemma hm_keys_map [simp]: "hm_keys (map (\<lambda>(k, vs). (k, f k vs)) m) = hm_keys m"
  by (simp add: hm_keys_def comp_def case_prod_beta)

lemma hm_wf_keys: "hm_keys a = hm_keys b \<Longrightarrow> hm_wf a = hm_wf b"
  by (simp add: hm_wf_def hm_keys_def)

lemma hm_entry_filter: "hm_wf m \<Longrightarrow> hm_entry (filter (\<lambda>(_, vs). vs \<noteq> []) m) k = hm_entry m k"
  using hm_get_filter [of m "\<lambda>_ vs. vs \<noteq> []" k] by (simp add: hm_entry_def split: option.splits)

lemma remove_query_core:
  assumes core: "reg_core c" and q: "canonical_query_id q = q"
  shows "keys_ok (remove_query q c) \<and> hm_wf (ci_views (remove_query q c)) \<and> routes_exact (remove_query q c)
    \<and> view_ids (remove_query q c) = view_ids c - {q}"
proof -
  let ?c = "remove_query q c"
  let ?dm = "map (\<lambda>(t, ids). (t, filter (\<lambda>i. i \<noteq> q) ids)) (ci_dependency_map c)"
  have R: "routes_exact c" "hm_wf (ci_views c)" "keys_ok c" using core by (simp_all add: reg_core_def)
  have dm: "hm_wf ?dm" using R(1) hm_wf_keys [OF hm_keys_map [of "\<lambda>_ ids. filter (\<lambda>i. i \<noteq> q) ids" "ci_dependency_map c"]]
    by (simp add: routes_exact_def)
  have dep: "hm_entry (ci_dependency_map ?c) t = filter (\<lambda>i. i \<noteq> q) (hm_entry (ci_dependency_map c) t)" for t
    using hm_entry_filter [OF dm, of t] hm_entry_map [of "\<lambda>_ ids. filter (\<lambda>i. i \<noteq> q) ids" "ci_dependency_map c" t] q
    by (simp add: remove_query_def Let_def hm_entry_def split: if_splits option.splits)
  have card: "view_card ?c i = (if i = q then None else view_card c i)" for i
    using q by (simp add: remove_query_def Let_def view_card_def)
  have "hm_wf (ci_dependency_map ?c)" using dm q by (simp add: remove_query_def Let_def)
  then have "routes_exact ?c" using R(1) unfolding routes_exact_def dep card by auto
  then show ?thesis
    using R q by (auto simp: remove_query_def Let_def keys_ok_def hm_keys_remove)
qed

lemma owner_of_Some:
  assumes "hm_wf (ci_subscribers c)" and "owner_of q c = Some o1"
  shows "q \<in> set (sub_ids c o1)"
proof -
  obtain subs where "List.find (\<lambda>(_, subs). list_ex (\<lambda>sb. sb_query_id sb = q) subs) (ci_subscribers c) = Some (o1, subs)"
    using assms(2) by (auto simp: owner_of_def)
  from find_SomeD [OF this] have "(o1, subs) \<in> set (ci_subscribers c)" "list_ex (\<lambda>sb. sb_query_id sb = q) subs" by auto
  then show ?thesis using hm_entry_set [OF assms(1)] by (auto simp: sub_ids_def list_ex_iff)
qed

lemma owner_of_None:
  assumes "owner_of q c = None"
  shows "q \<notin> set (sub_ids c o1)"
proof
  assume "q \<in> set (sub_ids c o1)"
  then obtain sb where "sb \<in> set (hm_entry (ci_subscribers c) o1)" "sb_query_id sb = q" by (auto simp: sub_ids_def)
  moreover from this obtain subs where "(o1, subs) \<in> set (ci_subscribers c)" "sb \<in> set subs" using in_hm_entry by metis
  ultimately show False using assms by (auto simp: owner_of_def find_None_iff list_ex_iff)
qed

lemma owner_of_iff:
  assumes "reg_core c"
  shows "owner_of q c = Some o1 \<longleftrightarrow> q \<in> set (sub_ids c o1)"
proof
  have wf: "hm_wf (ci_subscribers c)" and S: "subs_ok (view_ids c) (sub_ids c)" using assms by (simp_all add: reg_core_def)
  show "owner_of q c = Some o1 \<Longrightarrow> q \<in> set (sub_ids c o1)" by (rule owner_of_Some [OF wf])
  assume i: "q \<in> set (sub_ids c o1)"
  then obtain o2 where "owner_of q c = Some o2" using owner_of_None [of q c o1] by (cases "owner_of q c") auto
  then show "owner_of q c = Some o1" using owner_of_Some [OF wf] S i by (auto simp: subs_ok_def)
qed

text \<open>The circuit after a registration has left and before its graph is dropped.\<close>

lemma drop_inv:
  assumes core: "reg_core c" and q: "q \<in> view_ids c"
    and kept: "\<forall>i \<in> set (ci_detached_owners c). i \<noteq> q \<longrightarrow> sub_ids c i \<noteq> []"
  shows "reg_inv (snd (drop_graph_if_unused q c))"
proof (cases "hm_entry (ci_subscribers c) q \<noteq> [] \<or> q \<notin> set (ci_detached_owners c)")
  case True
  then show ?thesis using core kept by (auto simp: drop_graph_if_unused_def reg_inv_def sub_ids_def)
next
  case False
  let ?c = "snd (drop_graph_if_unused q c)"
  have cq: "canonical_query_id q = q" using core q by (simp add: reg_core_def)
  note R = remove_query_core [OF core cq]
  have r: "ci_subscribers (remove_query q c) = ci_subscribers c" "ci_detached_owners (remove_query q c) = ci_detached_owners c"
    "ci_merge_index (remove_query q c) = ci_merge_index c"
    by (simp_all add: remove_query_def Let_def)
  have v: "ci_views ?c = ci_views (remove_query q c)" "keys_ok ?c = keys_ok (remove_query q c)"
    "routes_exact ?c = routes_exact (remove_query q c)"
    "ci_subscribers ?c = hm_remove q (ci_subscribers c)" "ci_detached_owners ?c = removeAll q (ci_detached_owners c)"
    "ci_merge_index ?c = filter (\<lambda>(_, o'). o' \<noteq> q) (ci_merge_index c)"
    using False r by (auto simp: drop_graph_if_unused_def Let_def keys_ok_def routes_exact_def view_card_def)
  have ids: "sub_ids ?c = sub_ids c" using False v(4) by (auto simp: sub_ids_def fun_eq_iff)
  have empty: "sub_ids c q = []" using False by (simp add: sub_ids_def)
  have "reg_core ?c"
    using core R subs_ok_remove [where S = "sub_ids c", OF _ empty, of "view_ids c"] unfolding reg_core_def v ids by (auto simp: v)
  then show ?thesis using kept unfolding reg_inv_def ids v by auto
qed

definition left_sub :: "string \<Rightarrow> string \<Rightarrow> circuit \<Rightarrow> circuit" where
  "left_sub q owner c =
     c\<lparr>ci_subscribers :=
       map (\<lambda>(o', subs). (o', if o' = owner then filter (\<lambda>sb. sb_query_id sb \<noteq> q) subs else subs)) (ci_subscribers c)\<rparr>"

definition left_owner :: "string \<Rightarrow> circuit \<Rightarrow> circuit" where
  "left_owner q c = c\<lparr>ci_detached_owners := List.insert q (ci_detached_owners c)\<rparr>"

lemma entry_left_sub:
  "hm_entry (ci_subscribers (left_sub q o1 c)) o2 =
   (if o2 = o1 then filter (\<lambda>sb. sb_query_id sb \<noteq> q) (hm_entry (ci_subscribers c) o2) else hm_entry (ci_subscribers c) o2)"
  using hm_entry_map [of "\<lambda>o' subs. if o' = o1 then filter (\<lambda>sb. sb_query_id sb \<noteq> q) subs else subs" "ci_subscribers c" o2]
  by (simp add: left_sub_def hm_entry_def split: if_splits option.splits)

lemma left_fields [simp]:
  "ci_views (left_sub q o1 c) = ci_views c" "ci_graphs (left_sub q o1 c) = ci_graphs c"
  "ci_detached_owners (left_sub q o1 c) = ci_detached_owners c" "ci_views (left_owner q c) = ci_views c"
  "ci_graphs (left_owner q c) = ci_graphs c" "ci_subscribers (left_owner q c) = ci_subscribers c"
  "set (ci_detached_owners (left_owner q c)) = insert q (set (ci_detached_owners c))"
  by (simp_all add: left_sub_def left_owner_def)

lemma ids_left_sub: "sub_ids (left_sub q o1 c) = (sub_ids c)(o1 := filter (\<lambda>i. i \<noteq> q) (sub_ids c o1))"
  by (simp add: sub_ids_def entry_left_sub fun_eq_iff filter_map comp_def)

lemma ids_left_owner [simp]: "sub_ids (left_owner q c) = sub_ids c"
  by (simp add: left_owner_def sub_ids_def fun_eq_iff)

lemma core_left_sub: "reg_core c \<Longrightarrow> reg_core (left_sub q o1 c)"
  using subs_ok_filter [of "view_ids c" "sub_ids c" o1 "\<lambda>i. i \<noteq> q"]
    hm_wf_keys [OF hm_keys_map [of "\<lambda>o' subs. if o' = o1 then filter (\<lambda>sb. sb_query_id sb \<noteq> q) subs else subs" "ci_subscribers c"]]
  unfolding reg_core_def ids_left_sub by (simp add: left_sub_def keys_ok_def routes_exact_def view_card_def)

lemma core_left_owner: "reg_core c \<Longrightarrow> q \<in> view_ids c \<Longrightarrow> reg_core (left_owner q c)"
  unfolding reg_core_def ids_left_owner by (simp add: left_owner_def keys_ok_def routes_exact_def view_card_def)

lemma detach_cases:
  assumes "reg_core c"
  obtains (sub) o1 where "canonical_query_id i \<in> set (sub_ids c o1)" "o1 \<in> view_ids c"
      "detach_subscriber i c = drop_graph_if_unused o1 (left_sub (canonical_query_id i) o1 c)"
    | (own) "canonical_query_id i \<in> view_ids c" "\<forall>o1. canonical_query_id i \<notin> set (sub_ids c o1)"
      "detach_subscriber i c = drop_graph_if_unused (canonical_query_id i) (left_owner (canonical_query_id i) c)"
    | (none) "canonical_query_id i \<notin> view_ids c" "\<forall>o1. canonical_query_id i \<notin> set (sub_ids c o1)"
      "detach_subscriber i c = (False, c)"
proof (cases "owner_of (canonical_query_id i) c")
  case (Some o1)
  then have q: "canonical_query_id i \<in> set (sub_ids c o1)" using owner_of_iff [OF assms] by simp
  moreover have "o1 \<in> view_ids c" using q assms by (auto simp: reg_core_def intro: subs_ok_owner)
  ultimately show ?thesis using sub Some by (simp add: detach_subscriber_def left_sub_def)
next
  case None
  note n = owner_of_None [OF None]
  show ?thesis
  proof (cases "canonical_query_id i \<in> view_ids c")
    case True
    then show ?thesis using own n None by (simp add: detach_subscriber_def left_owner_def hm_contains_def in_hm_keys Let_def)
  next
    case False
    then show ?thesis using none n None by (simp add: detach_subscriber_def hm_contains_def in_hm_keys)
  qed
qed

lemma detach_inv:
  assumes inv: "reg_inv c"
  shows "reg_inv (snd (detach_subscriber i c))"
proof -
  have core: "reg_core c" using inv by (simp add: reg_inv_def)
  from core show ?thesis
  proof (cases rule: detach_cases [of c i])
    case (sub o1)
    have "reg_inv (snd (drop_graph_if_unused o1 (left_sub (canonical_query_id i) o1 c)))"
      by (rule drop_inv [OF core_left_sub [OF core]]) (use sub inv in \<open>auto simp: ids_left_sub reg_inv_def\<close>)
    then show ?thesis using sub by simp
  next
    case own
    have "reg_inv (snd (drop_graph_if_unused (canonical_query_id i) (left_owner (canonical_query_id i) c)))"
      by (rule drop_inv [OF core_left_owner [OF core own(1)]]) (use own inv in \<open>auto simp: reg_inv_def\<close>)
    then show ?thesis using own by simp
  next
    case none
    then show ?thesis using inv by simp
  qed
qed

subsection \<open>Every reachable circuit\<close>

inductive circuit_event :: "codec \<Rightarrow> index_ops \<Rightarrow> engine \<Rightarrow> circuit \<Rightarrow> circuit \<Rightarrow> bool" for cdc ops en where
  register: "registration (qp_id plan) c = None \<Longrightarrow> add_query_with_auth en plan params fmt auth c = Ret (d, c') \<Longrightarrow>
     circuit_event cdc ops en c c'"
| attach: "registration i c = None \<Longrightarrow> attach_subscriber owner i auth c = (Some delta, c') \<Longrightarrow> circuit_event cdc ops en c c'"
| claim: "hm_contains (ci_views c) (canonical_query_id i) \<Longrightarrow> circuit_event cdc ops en c (claim_merge_key k i c)"
| leave: "detach_subscriber i c = (dropped, c') \<Longrightarrow> circuit_event cdc ops en c c'"
| ingest: "circuit_step cdc ops en chs c = Ret (ds, c') \<Longrightarrow> circuit_event cdc ops en c c'"
| reconcile: "reconcile cdc ops en t es c = Ret (r, c') \<Longrightarrow> circuit_event cdc ops en c c'"
| restore: "replace_store en s c = Ret (ds, c') \<Longrightarrow> circuit_event cdc ops en c c'"
| load: "circuit_event cdc ops en c (circuit_load cdc ops rs c)"
| compact: "circuit_event cdc ops en c (circuit_compact cdc c)"
| project: "circuit_event cdc ops en c (set_projection b c)"
| versions: "circuit_event cdc ops en c (c\<lparr>ci_monotonic_row_versions := b\<rparr>)"
| opaque: "circuit_event cdc ops en c (c\<lparr>ci_opaque_fields := names\<rparr>)"
| missing: "circuit_event cdc ops en c (snd (take_missing_fields c))"
| forget: "circuit_event cdc ops en c (forget_table t c)"

inductive reachable :: "codec \<Rightarrow> index_ops \<Rightarrow> engine \<Rightarrow> circuit \<Rightarrow> bool" for cdc ops en where
  start: "reachable cdc ops en circuit_new"
| step: "reachable cdc ops en c \<Longrightarrow> circuit_event cdc ops en c c' \<Longrightarrow> reachable cdc ops en c'"

lemma same_regs_flags [simp]:
  "same_regs c (c\<lparr>ci_monotonic_row_versions := b\<rparr>)" "same_regs c (c\<lparr>ci_opaque_fields := ms\<rparr>)"
  "same_regs c (c\<lparr>ci_missing_fields := ms\<rparr>)" "same_regs c (c\<lparr>ci_projection := b\<rparr>)"
  by (simp_all add: same_regs_def view_card_def fun_eq_iff)

lemma set_projection_same: "same_regs c (set_projection b c)"
proof (cases b)
  case True
  then show ?thesis
    using same_regs_trans [OF same_regs_flags(4) refresh_retained_same] by (simp add: set_projection_def)
next
  case False
  then show ?thesis by (simp add: set_projection_def same_regs_def view_card_def fun_eq_iff)
qed

lemma circuit_event_inv:
  assumes "circuit_event cdc ops en c c'" and "reg_inv c"
  shows "reg_inv c'"
proof -
  have keys: "keys_ok c" using assms(2) by (simp add: reg_inv_def reg_core_def)
  from assms(1) show ?thesis
  proof (cases rule: circuit_event.cases)
    case (register plan params fmt auth d)
    then show ?thesis using register_inv [OF assms(2)] by simp
  next
    case (attach i owner auth delta)
    then show ?thesis using attach_inv [OF assms(2)] by simp
  next
    case (claim i k)
    then show ?thesis using claim_inv [OF assms(2)] by (simp add: hm_contains_def in_hm_keys)
  next
    case (leave i dropped)
    then show ?thesis using detach_inv [OF assms(2), of i] by simp
  next
    case forget
    then show ?thesis
      using same_regs_inv [OF _ assms(2)] by (simp add: forget_table_def same_regs_def view_card_def fun_eq_iff)
  qed (use same_regs_inv [OF _ assms(2)] circuit_step_same [OF keys] reconcile_same [OF keys] replace_store_same [OF keys] set_projection_same in
      \<open>simp_all add: circuit_load_def circuit_compact_def take_missing_fields_def\<close>)
qed

lemma reachable_inv: "reachable cdc ops en c \<Longrightarrow> reg_inv c"
  by (induction rule: reachable.induct) (use reg_core_new circuit_event_inv in \<open>auto simp: reg_inv_def circuit_new_def\<close>)

subsection \<open>Who is registered\<close>

lemma set_registration_ids:
  "hm_wf (ci_subscribers c) \<Longrightarrow>
   set (registration_ids c) = (view_ids c - set (ci_detached_owners c)) \<union> {i. \<exists>o1. i \<in> set (sub_ids c o1)}"
proof -
  assume wf: "hm_wf (ci_subscribers c)"
  have "(\<Union>e \<in> set (ci_subscribers c). sb_query_id ` set (snd e)) = {i. \<exists>o1. i \<in> set (sub_ids c o1)}"
  proof (intro set_eqI iffI)
    fix i assume "i \<in> (\<Union>e \<in> set (ci_subscribers c). sb_query_id ` set (snd e))"
    then obtain o1 subs where e: "(o1, subs) \<in> set (ci_subscribers c)" "i \<in> sb_query_id ` set subs" by auto
    then have "i \<in> set (sub_ids c o1)" using hm_entry_set [OF wf e(1)] by (simp add: sub_ids_def)
    then show "i \<in> {i. \<exists>o1. i \<in> set (sub_ids c o1)}" by blast
  next
    fix i assume "i \<in> {i. \<exists>o1. i \<in> set (sub_ids c o1)}"
    then obtain o1 sb where sb: "sb \<in> set (hm_entry (ci_subscribers c) o1)" "i = sb_query_id sb" by (auto simp: sub_ids_def)
    then show "i \<in> (\<Union>e \<in> set (ci_subscribers c). sb_query_id ` set (snd e))" using in_hm_entry [OF sb(1)] by force
  qed
  then show ?thesis by (auto simp: registration_ids_def)
qed

lemma find_registration_SomeD:
  "find_registration q m = Some (o1, a) \<Longrightarrow>
   \<exists>subs sb. (o1, subs) \<in> set m \<and> sb \<in> set subs \<and> sb_query_id sb = q \<and> sb_auth_id sb = a"
proof (induction q m rule: find_registration.induct)
  case (2 q o2 subs rest)
  show ?case
  proof (cases "List.find (\<lambda>sb. sb_query_id sb = q) subs")
    case None
    then show ?thesis using 2 by auto
  next
    case (Some sb)
    then show ?thesis using 2(2) find_SomeD [OF Some] by auto
  qed
qed simp

lemma sub_unique:
  assumes "reg_core c" and "sb \<in> set (hm_entry (ci_subscribers c) o1)" and "sb' \<in> set (hm_entry (ci_subscribers c) o2)"
    and "sb_query_id sb = sb_query_id sb'"
  shows "o1 = o2 \<and> sb = sb'"
proof -
  have S: "subs_ok (view_ids c) (sub_ids c)" using assms(1) by (simp add: reg_core_def)
  have "sb_query_id sb \<in> set (sub_ids c o1)" using assms(2) by (simp add: sub_ids_def)
  moreover have "sb_query_id sb \<in> set (sub_ids c o2)" using assms(3,4) by (simp add: sub_ids_def)
  ultimately have o: "o1 = o2" using S unfolding subs_ok_def by metis
  moreover have "inj_on sb_query_id (set (hm_entry (ci_subscribers c) o1))"
    using S by (simp add: subs_ok_def sub_ids_def distinct_map)
  ultimately show ?thesis using assms(2-4) by (auto dest: inj_onD)
qed

lemma registration_sub:
  assumes core: "reg_core c" and sb: "sb \<in> set (hm_entry (ci_subscribers c) o1)"
  shows "registration (sb_query_id sb) c = Some (o1, sb_auth_id sb)"
proof -
  let ?q = "sb_query_id sb"
  have wf: "hm_wf (ci_subscribers c)" and S: "subs_ok (view_ids c) (sub_ids c)" using core by (simp_all add: reg_core_def)
  have "?q \<in> set (sub_ids c o1)" using sb by (simp add: sub_ids_def)
  then have q: "canonical_query_id ?q = ?q" "?q \<notin> view_ids c" using S by (auto simp: subs_ok_def)
  obtain subs where "(o1, subs) \<in> set (ci_subscribers c)" "sb \<in> set subs" using in_hm_entry [OF sb] by blast
  then have "find_registration ?q (ci_subscribers c) \<noteq> None" unfolding find_registration_None by force
  then obtain o2 a where f: "find_registration ?q (ci_subscribers c) = Some (o2, a)" by auto
  then obtain sb' where sb': "sb' \<in> set (hm_entry (ci_subscribers c) o2)" "sb_query_id sb' = ?q" "sb_auth_id sb' = a"
    using find_registration_SomeD [OF f] hm_entry_set [OF wf] by blast
  then have "o1 = o2 \<and> sb = sb'" using sub_unique [OF core sb sb'(1)] by simp
  then show ?thesis using f sb'(3) q by (simp add: registration_def in_hm_keys)
qed

lemma registration_view:
  assumes "reg_core c" and "i \<in> view_ids c"
  obtains v where "hm_get (ci_views c) i = Some v" "registration i c = Some (i, vw_auth_id v)"
proof -
  obtain v where "hm_get (ci_views c) i = Some v" using assms(2) by (auto simp: in_hm_keys)
  moreover have "canonical_query_id i = i" using assms by (simp add: reg_core_def)
  ultimately show ?thesis using that by (simp add: registration_def)
qed

lemma registered_cases:
  assumes "reg_core c" and "i \<in> set (registration_ids c)"
  obtains (own) "i \<in> view_ids c" "i \<notin> set (ci_detached_owners c)"
    | (sub) sb o1 where "sb \<in> set (hm_entry (ci_subscribers c) o1)" "i = sb_query_id sb" "o1 \<in> view_ids c"
proof -
  have wf: "hm_wf (ci_subscribers c)" and S: "subs_ok (view_ids c) (sub_ids c)" using assms(1) by (simp_all add: reg_core_def)
  from assms(2) consider "i \<in> view_ids c - set (ci_detached_owners c)" | o1 where "i \<in> set (sub_ids c o1)"
    by (auto simp: set_registration_ids [OF wf])
  then show ?thesis
  proof cases
    case 1
    then show ?thesis using own by simp
  next
    case 2
    then show ?thesis using sub subs_ok_owner [OF S 2] by (auto simp: sub_ids_def)
  qed
qed

lemma distinct_registration_ids:
  assumes "reg_core c"
  shows "distinct (registration_ids c)"
proof -
  have wf: "hm_wf (ci_subscribers c)" "hm_wf (ci_views c)" and S: "subs_ok (view_ids c) (sub_ids c)"
    using assms by (simp_all add: reg_core_def)
  have e: "hm_entry (ci_subscribers c) (fst x) = snd x" if "x \<in> set (ci_subscribers c)" for x
    using hm_entry_set [OF wf(1)] that by (metis prod.collapse)
  have "distinct (concat (map (map sb_query_id \<circ> snd) m))"
    if "set m \<subseteq> set (ci_subscribers c)" "hm_wf m" for m
    using that
  proof (induction m)
    case (Cons x m)
    have "distinct (sub_ids c (fst x))" using S by (simp add: subs_ok_def)
    then have d: "distinct (map sb_query_id (snd x))" using e [of x] Cons.prems(1) by (simp add: sub_ids_def)
    have "i \<notin> sb_query_id ` set (snd y)" if "i \<in> sb_query_id ` set (snd x)" "y \<in> set m" for i y
    proof
      assume i: "i \<in> sb_query_id ` set (snd y)"
      have "x \<in> set (ci_subscribers c)" "y \<in> set (ci_subscribers c)" using that(2) Cons.prems(1) by auto
      then have "i \<in> set (sub_ids c (fst x))" "i \<in> set (sub_ids c (fst y))"
        using that(1) i e [of x] e [of y] by (simp_all add: sub_ids_def)
      then have "fst x = fst y" using S unfolding subs_ok_def by metis
      then show False using that Cons.prems(2) by (cases x) (auto simp: image_iff)
    qed
    then show ?case using d Cons by (cases x) auto
  qed simp
  moreover have "distinct (hm_keys (ci_views c))" using wf(2) by (simp add: hm_wf_def hm_keys_def)
  moreover have "i \<notin> view_ids c" if "x \<in> set (ci_subscribers c)" "i \<in> sb_query_id ` set (snd x)" for x i
    by (rule subs_ok_not_view [OF S, of _ "fst x"]) (use e [OF that(1)] that(2) in \<open>simp add: sub_ids_def\<close>)
  ultimately show ?thesis using wf(1) unfolding registration_ids_def by fastforce
qed

subsection \<open>The theorems\<close>

lemma drop_frame:
  assumes "canonical_query_id q = q"
  shows "\<forall>i. i \<noteq> q \<longrightarrow> hm_get (ci_views (snd (drop_graph_if_unused q c))) i = hm_get (ci_views c) i
      \<and> hm_get (ci_graphs (snd (drop_graph_if_unused q c))) i = hm_get (ci_graphs c) i"
    and "fst (drop_graph_if_unused q c) \<longleftrightarrow> hm_entry (ci_subscribers c) q = [] \<and> q \<in> set (ci_detached_owners c)"
    and "\<not> fst (drop_graph_if_unused q c) \<Longrightarrow> snd (drop_graph_if_unused q c) = c"
    and "fst (drop_graph_if_unused q c) \<Longrightarrow> view_ids (snd (drop_graph_if_unused q c)) = view_ids c - {q}
      \<and> ci_subscribers (snd (drop_graph_if_unused q c)) = hm_remove q (ci_subscribers c)
      \<and> set (ci_detached_owners (snd (drop_graph_if_unused q c))) = set (ci_detached_owners c) - {q}"
  using assms by (auto simp: drop_graph_if_unused_def remove_query_def Let_def hm_keys_remove)

lemma drop_registrations:
  assumes q: "canonical_query_id q = q" and wf: "hm_wf (ci_subscribers c)"
  shows "set (registration_ids (snd (drop_graph_if_unused q c))) = set (registration_ids c)"
    and "hm_entry (ci_subscribers (snd (drop_graph_if_unused q c))) o1 = hm_entry (ci_subscribers c) o1"
proof -
  let ?c = "snd (drop_graph_if_unused q c)"
  note D = drop_frame [OF q, of c]
  show e: "hm_entry (ci_subscribers ?c) o1 = hm_entry (ci_subscribers c) o1" for o1
    using D(2,3,4) by (cases "fst (drop_graph_if_unused q c)") auto
  then have s: "sub_ids ?c = sub_ids c" by (simp add: sub_ids_def fun_eq_iff)
  have "hm_wf (ci_subscribers ?c)" using D(3,4) wf by (cases "fst (drop_graph_if_unused q c)") auto
  then show "set (registration_ids ?c) = set (registration_ids c)"
    using D(2,3,4) by (cases "fst (drop_graph_if_unused q c)") (auto simp: set_registration_ids wf s)
qed

lemma same_registration:
  assumes c: "reg_core c" and c': "reg_core c'" and i: "i \<in> set (registration_ids c')"
    and views: "\<forall>i \<in> view_ids c'. hm_get (ci_views c') i = hm_get (ci_views c) i"
    and subs: "\<forall>o1. set (hm_entry (ci_subscribers c') o1) \<subseteq> set (hm_entry (ci_subscribers c) o1)"
  shows "\<exists>o1 a. registration i c' = Some (o1, a) \<and> registration i c = Some (o1, a) \<and> o1 \<in> view_ids c'"
  using c' i
proof (cases rule: registered_cases)
  case own
  then have "hm_get (ci_views c') i = hm_get (ci_views c) i" using views by blast
  then have "i \<in> view_ids c" using own(1) by (simp add: in_hm_keys)
  then show ?thesis
    using registration_view [OF c' own(1)] registration_view [OF c] own(1) views by (metis option.inject)
next
  case (sub sb o1)
  then show ?thesis using registration_sub [OF c' sub(1)] registration_sub [OF c] subs by blast
qed

text \<open>
  C36. Sharing graphs is sound in every circuit that registrations, departures, ingests,
  reconciliations, store swaps and reconfigurations can reach: no registration is listed twice;
  each one reads a graph that is there, with its view; a merge key always names such a graph; an
  owner that left is kept only while someone reads its graph; and a table's changes are routed to
  exactly the queries that reference it, once each.
\<close>

theorem registrations_sound:
  assumes "reachable cdc ops en c"
  shows "distinct (registration_ids c)
    \<and> set (hm_keys (ci_graphs c)) = set (hm_keys (ci_views c))
    \<and> (\<forall>i \<in> set (registration_ids c). \<exists>o1 a. registration i c = Some (o1, a) \<and> hm_contains (ci_graphs c) o1)
    \<and> snd ` set (ci_merge_index c) \<subseteq> set (hm_keys (ci_graphs c))
    \<and> (\<forall>i \<in> set (ci_detached_owners c). hm_entry (ci_subscribers c) i \<noteq> [])
    \<and> (\<forall>t. distinct (hm_entry (ci_dependency_map c) t) \<and> set (hm_entry (ci_dependency_map c) t) =
          {q. \<exists>v. hm_get (ci_views c) q = Some v \<and> t \<in> set (vw_referenced_tables v)})"
proof -
  have inv: "reg_inv c" "reg_core c" using reachable_inv [OF assms] by (simp_all add: reg_inv_def)
  have g: "set (hm_keys (ci_graphs c)) = view_ids c" using inv(2) by (simp add: reg_core_def keys_ok_def)
  have "\<exists>o1 a. registration i c = Some (o1, a) \<and> hm_contains (ci_graphs c) o1" if "i \<in> set (registration_ids c)" for i
    using same_registration [OF inv(2) inv(2) that] g by (auto simp: hm_contains_def in_hm_keys)
  moreover have "\<forall>i \<in> set (ci_detached_owners c). hm_entry (ci_subscribers c) i \<noteq> []"
    using inv(1) by (auto simp: reg_inv_def sub_ids_def)
  moreover have "\<forall>t. distinct (hm_entry (ci_dependency_map c) t) \<and> set (hm_entry (ci_dependency_map c) t) =
          {q. \<exists>v. hm_get (ci_views c) q = Some v \<and> t \<in> set (vw_referenced_tables v)}"
    using inv(2) by (auto simp: reg_core_def routes_exact_def view_card_def)
  ultimately show ?thesis using distinct_registration_ids [OF inv(2)] inv(2) g by (simp add: reg_core_def)
qed

text \<open>
  C37. Leaving a shared graph takes nothing from the others: after a registration is released,
  exactly that one is gone, and every other registration still has the same identity and reads
  the same graph with the same view.
\<close>

theorem detach_keeps_siblings:
  assumes "reachable cdc ops en c" and "detach_subscriber i c = (dropped, c')"
  shows "set (registration_ids c') = set (registration_ids c) - {canonical_query_id i}
    \<and> (\<forall>j \<in> set (registration_ids c'). \<exists>o1 a. registration j c' = Some (o1, a) \<and> registration j c = Some (o1, a)
         \<and> hm_get (ci_graphs c') o1 = hm_get (ci_graphs c) o1 \<and> hm_get (ci_views c') o1 = hm_get (ci_views c) o1)"
proof -
  let ?q = "canonical_query_id i"
  have inv: "reg_inv c" "reg_core c" using reachable_inv [OF assms(1)] by (simp_all add: reg_inv_def)
  have core': "reg_core c'" using detach_inv [OF inv(1), of i] assms(2) by (simp add: reg_inv_def)
  have wf: "hm_wf (ci_subscribers c)" and can: "\<forall>i \<in> view_ids c. canonical_query_id i = i"
    and S: "subs_ok (view_ids c) (sub_ids c)" using inv(2) by (simp_all add: reg_core_def)
  have main: "set (registration_ids c') = set (registration_ids c) - {?q}
    \<and> (\<forall>o1. set (hm_entry (ci_subscribers c') o1) \<subseteq> set (hm_entry (ci_subscribers c) o1))
    \<and> (\<forall>o1 \<in> view_ids c'. hm_get (ci_views c') o1 = hm_get (ci_views c) o1 \<and> hm_get (ci_graphs c') o1 = hm_get (ci_graphs c) o1)"
    using inv(2)
  proof (cases rule: detach_cases [of c i])
    case (sub o1)
    let ?l = "left_sub ?q o1 c"
    have l: "reg_core ?l" using core_left_sub [OF inv(2)] .
    have o1: "canonical_query_id o1 = o1" using can sub(2) by simp
    have wl: "hm_wf (ci_subscribers ?l)" using l by (simp add: reg_core_def)
    have c': "c' = snd (drop_graph_if_unused o1 ?l)" using sub(3) assms(2) by (metis snd_conv)
    have qv: "?q \<notin> view_ids c" "\<forall>o2. ?q \<in> set (sub_ids c o2) \<longrightarrow> o2 = o1" using S sub(1) by (auto simp: subs_ok_def)
    have "set (registration_ids ?l) = set (registration_ids c) - {?q}"
      using qv by (auto simp: set_registration_ids wl wf ids_left_sub)
    moreover have "hm_get (ci_views c') o2 = hm_get (ci_views c) o2 \<and> hm_get (ci_graphs c') o2 = hm_get (ci_graphs c) o2"
      if "o2 \<in> view_ids c'" for o2
      using that drop_frame(1,3,4) [OF o1, of ?l] unfolding c' by (cases "o2 = o1"; cases "fst (drop_graph_if_unused o1 ?l)") auto
    ultimately show ?thesis
      using drop_registrations [OF o1 wl] c' by (auto simp: entry_left_sub)
  next
    case own
    let ?l = "left_owner ?q c"
    have q: "canonical_query_id ?q = ?q" by simp
    have c': "c' = snd (drop_graph_if_unused ?q ?l)" using own(3) assms(2) by (metis snd_conv)
    have wl: "hm_wf (ci_subscribers ?l)" using wf by simp
    have "set (registration_ids ?l) = set (registration_ids c) - {?q}"
      using own by (auto simp: set_registration_ids [OF wl] set_registration_ids [OF wf])
    moreover have "hm_get (ci_views c') o2 = hm_get (ci_views c) o2 \<and> hm_get (ci_graphs c') o2 = hm_get (ci_graphs c) o2"
      if "o2 \<in> view_ids c'" for o2
      using that drop_frame(1,3,4) [OF q, of ?l] unfolding c' by (cases "o2 = ?q"; cases "fst (drop_graph_if_unused ?q ?l)") auto
    ultimately show ?thesis using drop_registrations [OF q wl] c' by auto
  next
    case none
    then have "?q \<notin> set (registration_ids c)" by (auto simp: set_registration_ids [OF wf])
    then show ?thesis using none assms(2) by auto
  qed
  have "\<exists>o1 a. registration j c' = Some (o1, a) \<and> registration j c = Some (o1, a) \<and> o1 \<in> view_ids c'"
    if "j \<in> set (registration_ids c')" for j
    by (rule same_registration [OF inv(2) core' that]) (use main in auto)
  then show ?thesis using main by (metis (no_types, lifting))
qed

text \<open>
  C38. A delta of a graph is published to each registration that reads the graph exactly once,
  under the identity it registered with, and to no other; only the id and the identity differ
  between the copies.
\<close>

theorem fan_out_exact:
  assumes "reachable cdc ops en c" and "hm_contains (ci_views c) owner" and "vd_query_id delta = owner"
    and "registration owner c = Some (owner, vd_auth_id delta)"
  shows "distinct (map vd_query_id (fan_out c delta))
    \<and> (\<lambda>d. (vd_query_id d, vd_auth_id d)) ` set (fan_out c delta) =
        {(i, a). i \<in> set (registration_ids c) \<and> registration i c = Some (owner, a)}
    \<and> (\<forall>d \<in> set (fan_out c delta). d\<lparr>vd_query_id := owner, vd_auth_id := vd_auth_id delta\<rparr> = delta)"
proof -
  have core: "reg_core c" using reachable_inv [OF assms(1)] by (simp add: reg_inv_def)
  have S: "subs_ok (view_ids c) (sub_ids c)" and wf: "hm_wf (ci_subscribers c)" using core by (simp_all add: reg_core_def)
  let ?subs = "hm_entry (ci_subscribers c) owner" and ?own = "owner \<notin> set (ci_detached_owners c)"
  have v: "owner \<in> view_ids c" using assms(2) by (simp add: hm_contains_def in_hm_keys)
  have f: "fan_out c delta = map (\<lambda>sb. delta\<lparr>vd_query_id := sb_query_id sb, vd_auth_id := sb_auth_id sb\<rparr>) ?subs
      @ (if ?own then [delta] else [])"
    using assms(3) by (simp add: fan_out_def Let_def)
  have ids: "map vd_query_id (fan_out c delta) = sub_ids c owner @ (if ?own then [owner] else [])"
    using assms(3) by (simp add: f sub_ids_def)
  have "owner \<notin> set (sub_ids c owner)" "distinct (sub_ids c owner)" using S v by (auto simp: subs_ok_def)
  then have d: "distinct (map vd_query_id (fan_out c delta))" unfolding ids by auto
  have "(\<lambda>d. (vd_query_id d, vd_auth_id d)) ` set (fan_out c delta) =
      (\<lambda>sb. (sb_query_id sb, sb_auth_id sb)) ` set ?subs \<union> (if ?own then {(owner, vd_auth_id delta)} else {})"
    using assms(3) by (simp add: f image_Un image_image)
  also have "\<dots> = {(i, a). i \<in> set (registration_ids c) \<and> registration i c = Some (owner, a)}" (is "?L = ?R")
  proof
    show "?L \<subseteq> ?R"
      using registration_sub [OF core] v assms(4)
      by (auto simp: set_registration_ids [OF wf] sub_ids_def split: if_splits)
    show "?R \<subseteq> ?L"
    proof
      fix e assume "e \<in> ?R"
      then obtain i a where e: "e = (i, a)" and i: "i \<in> set (registration_ids c)" and r: "registration i c = Some (owner, a)"
        by blast
      from core i have "(i, a) \<in> ?L"
      proof (cases rule: registered_cases)
        case own
        then have "i = owner" using registration_view [OF core own(1)] r by auto
        then show ?thesis using own r assms(4) by simp
      next
        case (sub sb o1)
        then show ?thesis using registration_sub [OF core sub(1)] r by auto
      qed
      then show "e \<in> ?L" by (simp only: e)
    qed
  qed
  finally show ?thesis using d assms(3) by (auto simp: f)
qed

lemma registration_NoneI:
  assumes "hm_wf (ci_subscribers c)" and "canonical_query_id i = i" and "i \<notin> view_ids c" and "\<forall>o1. i \<notin> set (sub_ids c o1)"
  shows "registration i c = None"
proof -
  have "i \<notin> sb_query_id ` set subs" if "(o1, subs) \<in> set (ci_subscribers c)" for o1 subs
    using hm_entry_set [OF assms(1) that] assms(4) by (metis image_set sub_ids_def)
  then have "find_registration i (ci_subscribers c) = None" by (auto simp: find_registration_None)
  then show ?thesis using assms(2,3) by (simp add: registration_def in_hm_keys)
qed

lemma drop_detached:
  assumes core: "reg_core c" and q: "canonical_query_id q = q" and i: "i \<in> set (ci_detached_owners c)"
    and c': "c' = snd (drop_graph_if_unused q c)"
  shows "i \<in> set (ci_detached_owners c') \<or> registration i c' = None"
proof (cases "fst (drop_graph_if_unused q c) \<and> i = q")
  case True
  have S: "subs_ok (view_ids c) (sub_ids c)" and wf: "hm_wf (ci_subscribers c)" using core by (simp_all add: reg_core_def)
  have "i \<in> view_ids c" using i core by (auto simp: reg_core_def)
  then have no: "i \<notin> set (sub_ids c o1)" for o1 using subs_ok_not_view [OF S] by blast
  have "\<forall>o1. i \<notin> set (sub_ids c' o1)" using no drop_registrations(2) [OF q wf] by (simp add: c' sub_ids_def)
  moreover have "hm_wf (ci_subscribers c')" "i \<notin> view_ids c'" using drop_frame(4) [OF q, of c] True wf by (simp_all add: c')
  ultimately show ?thesis using registration_NoneI [of c' i] True q by simp
next
  case False
  then show ?thesis
    using drop_frame(3,4) [OF q, of c] i by (cases "fst (drop_graph_if_unused q c)") (auto simp: c')
qed

lemma detach_detached:
  assumes core: "reg_core c" and i: "i \<in> set (ci_detached_owners c)" and c': "detach_subscriber j c = (b, c')"
  shows "i \<in> set (ci_detached_owners c') \<or> registration i c' = None"
  using core
proof (cases rule: detach_cases [of c j])
  case (sub o1)
  have "canonical_query_id o1 = o1" using core sub(2) by (simp add: reg_core_def)
  then show ?thesis using drop_detached [OF core_left_sub [OF core]] i sub(3) c' by (metis left_fields(3) snd_conv)
next
  case own
  then show ?thesis
    using drop_detached [OF core_left_owner [OF core own(1)] canonical_query_id_idem] i own(3) c'
    by (metis insertCI left_fields(7) snd_conv)
next
  case none
  then show ?thesis using i c' by simp
qed

lemma detached_installed [simp]: "ci_detached_owners (installed q g v c) = ci_detached_owners c"
  by (simp add: installed_def)

text \<open>
  C39. An owner that left while others read its graph cannot come back before they leave: the
  circuit still reports its id as registered, so a new registration of it is taken for a repeat
  and does not install anything, but it is never published to; and whatever happens next, either
  that stays so or the id is unknown again.
\<close>

theorem detached_owner_locked_out:
  assumes "reachable cdc ops en c" and "i \<in> set (ci_detached_owners c)"
  shows "registration i c \<noteq> None \<and> \<not> is_registered i c \<and> i \<notin> vd_query_id ` set (fan_out c delta)
    \<and> (\<forall>c'. circuit_event cdc ops en c c' \<longrightarrow> i \<in> set (ci_detached_owners c') \<or> registration i c' = None)"
proof (intro conjI allI impI)
  have inv: "reg_inv c" "reg_core c" using reachable_inv [OF assms(1)] by (simp_all add: reg_inv_def)
  have v: "i \<in> view_ids c" and can: "canonical_query_id i = i" and S: "subs_ok (view_ids c) (sub_ids c)"
    using inv(2) assms(2) by (auto simp: reg_core_def)
  have no: "i \<notin> set (sub_ids c o1)" for o1 using subs_ok_not_view [OF S] v by blast
  show "registration i c \<noteq> None" using registration_view [OF inv(2) v] by (metis option.distinct(1))
  have "owner_of i c = None" using no owner_of_iff [OF inv(2), of i] by (cases "owner_of i c") auto
  then show "\<not> is_registered i c" using assms(2) can by (simp add: is_registered_def Let_def)
  show "i \<notin> vd_query_id ` set (fan_out c delta)"
    using no [of "vd_query_id delta"] assms(2) by (auto simp: fan_out_def Let_def sub_ids_def image_iff split: if_splits)
  fix c' assume ev: "circuit_event cdc ops en c c'"
  have same: "i \<in> set (ci_detached_owners c')" if "same_regs c c'" using that assms(2) by (simp add: same_regs_def)
  have keys: "keys_ok c" using inv(2) by (simp add: reg_core_def)
  from ev show "i \<in> set (ci_detached_owners c') \<or> registration i c' = None"
  proof (cases rule: circuit_event.cases)
    case (register plan params fmt auth d)
    obtain g v c0 where "same_regs c c0" "same_regs (installed (canonical_query_id (qp_id plan)) g v c0) c'"
      using add_query_installed [OF register(2)] by metis
    then show ?thesis using assms(2) by (simp add: same_regs_def)
  next
    case (attach j owner auth delta)
    then show ?thesis using assms(2) by (auto simp: attach_subscriber_def Let_def split: option.splits)
  next
    case (claim j k)
    then show ?thesis using assms(2) by (simp add: claim_merge_key_def)
  next
    case (leave j dropped)
    then show ?thesis using detach_detached [OF inv(2) assms(2)] by simp
  next
    case forget
    then show ?thesis using assms(2) by (simp add: forget_table_def)
  qed (use same circuit_step_same [OF keys] reconcile_same [OF keys] replace_store_same [OF keys] set_projection_same in
      \<open>simp_all add: circuit_load_def circuit_compact_def take_missing_fields_def\<close>)
qed

subsection \<open>A shared graph\<close>

definition demo_plan :: query_plan where
  "demo_plan = \<lparr>qp_id = ''q'', qp_root = Scan ''u''\<rparr>"

definition demo_engine :: engine where
  "demo_engine = \<lparr>en_hash = (\<lambda>_. 0), en_ops = list_set_ops entry_cmp\<rparr>"

definition circuit_one :: circuit where
  "circuit_one =
     (case add_query_with_auth demo_engine demo_plan None None ''user:a'' circuit_new of
        Ret (_, c) \<Rightarrow> c | Panic \<Rightarrow> circuit_new)"

definition circuit_two :: circuit where
  "circuit_two = snd (attach_subscriber ''q'' ''s'' ''user:b'' circuit_one)"

lemma circuit_one_added: "add_query_with_auth demo_engine demo_plan None None ''user:a'' circuit_new = Ret (None, circuit_one)"
  by code_simp

lemma circuit_two_reachable: "reachable cdc ops demo_engine circuit_two"
proof -
  have "registration (qp_id demo_plan) circuit_new = None" by code_simp
  then have "reachable cdc ops demo_engine circuit_one"
    using circuit_event.register [OF _ circuit_one_added] reachable.step [OF reachable.start] by blast
  moreover have "registration ''s'' circuit_one = None" by code_simp
  moreover have "\<exists>d. attach_subscriber ''q'' ''s'' ''user:b'' circuit_one = (Some d, circuit_two)"
    unfolding circuit_two_def by (rule exI [of _ "the (fst (attach_subscriber ''q'' ''s'' ''user:b'' circuit_one))"]) code_simp
  ultimately show ?thesis using circuit_event.attach reachable.step by blast
qed

theorem registrations_sound_witness:
  "registration_ids circuit_two = [''q'', ''s''] \<and> distinct (registration_ids circuit_two)
   \<and> (\<exists>o1 a. registration ''s'' circuit_two = Some (o1, a) \<and> hm_contains (ci_graphs circuit_two) o1)"
proof -
  have ids: "registration_ids circuit_two = [''q'', ''s'']" by code_simp
  then show ?thesis using registrations_sound [OF circuit_two_reachable [of sample_codec "list_set_ops index_entry_cmp"]] by auto
qed

theorem detach_keeps_siblings_witness:
  "set (registration_ids (snd (detach_subscriber ''q'' circuit_two))) = {''s''}
   \<and> hm_get (ci_graphs (snd (detach_subscriber ''q'' circuit_two))) ''q'' = hm_get (ci_graphs circuit_two) ''q''"
proof -
  have ids: "registration_ids circuit_two = [''q'', ''s'']" "canonical_query_id ''q'' = ''q''"
    "registration ''s'' circuit_two = Some (''q'', ''user:b'')" by code_simp+
  let ?c = "snd (detach_subscriber ''q'' circuit_two)"
  note D = detach_keeps_siblings [OF circuit_two_reachable [of sample_codec "list_set_ops index_entry_cmp"] surjective_pairing, of "''q''"]
  have s: "set (registration_ids ?c) = {''s''}" using conjunct1 [OF D] unfolding ids by simp
  then show ?thesis using bspec [OF conjunct2 [OF D], of "''s''"] unfolding ids(3) by simp
qed

definition demo_delta :: view_delta where
  "demo_delta = \<lparr>vd_query_id = ''q'', vd_additions = [''u:1''], vd_removals = [], vd_updates = [], vd_row_count = 1,
     vd_result_hash = [], vd_subquery_items = [], vd_auth_id = ''user:a'', vd_initial = False\<rparr>"

theorem fan_out_exact_witness:
  "distinct (map vd_query_id (fan_out circuit_two demo_delta))
   \<and> (''s'', ''user:b'') \<in> (\<lambda>d. (vd_query_id d, vd_auth_id d)) ` set (fan_out circuit_two demo_delta)"
proof -
  have h: "hm_contains (ci_views circuit_two) ''q''" "vd_query_id demo_delta = ''q''"
    "registration ''q'' circuit_two = Some (''q'', vd_auth_id demo_delta)" by code_simp+
  have "''s'' \<in> set (registration_ids circuit_two) \<and> registration ''s'' circuit_two = Some (''q'', ''user:b'')" by code_simp
  then show ?thesis
    using fan_out_exact [OF circuit_two_reachable [of sample_codec "list_set_ops index_entry_cmp"] h] by auto
qed

theorem detached_owner_locked_out_witness:
  "\<exists>c. registration ''q'' c = Some (''q'', ''user:a'') \<and> \<not> is_registered ''q'' c
     \<and> ''q'' \<notin> vd_query_id ` set (fan_out c demo_delta) \<and> registration_ids c = [''s'']"
proof -
  let ?c = "snd (detach_subscriber ''q'' circuit_two)" and ?ops = "list_set_ops index_entry_cmp"
  have r: "reachable sample_codec ?ops demo_engine ?c"
    using reachable.step [OF circuit_two_reachable circuit_event.leave [OF surjective_pairing]] .
  have "''q'' \<in> set (ci_detached_owners ?c) \<and> registration ''q'' ?c = Some (''q'', ''user:a'') \<and> registration_ids ?c = [''s'']"
    by code_simp
  then show ?thesis using detached_owner_locked_out [OF r, of "''q''" demo_delta] by (intro exI [of _ ?c]) simp
qed

end
