(* ===== verification/Execution.thy ===== *)
theory Execution
  imports Graph_Order Sharing_Invariant
begin

section \<open>Execution never panics\<close>

text \<open>
  The code indexes its vectors by node id and unwraps the outputs of a node's inputs. Every graph
  in a reachable circuit keeps the wiring of a compiled plan, so none of these can fail:
  registering, ingesting, reconciling and swapping the store always return.
\<close>

definition graph_ok :: "graph \<Rightarrow> bool" where
  "graph_ok g \<longleftrightarrow> nodes_ok (gr_nodes g) \<and> runs_in_order (gr_nodes g) (gr_topo_order g)
     \<and> gr_output_node g < length (gr_nodes g)"

definition same_wiring :: "node list \<Rightarrow> node list \<Rightarrow> bool" where
  "same_wiring ns ns' \<longleftrightarrow> map nd_id ns' = map nd_id ns \<and> map nd_inputs ns' = map nd_inputs ns"

lemma same_wiring_refl [simp]: "same_wiring ns ns"
  by (simp add: same_wiring_def)

lemma same_wiring_trans: "same_wiring a b \<Longrightarrow> same_wiring b c \<Longrightarrow> same_wiring a c"
  by (simp add: same_wiring_def)

lemma same_wiring_length: "same_wiring ns ns' \<Longrightarrow> length ns' = length ns"
  unfolding same_wiring_def by (metis length_map)

lemma same_wiring_nth: "same_wiring ns ns' \<Longrightarrow> i < length ns \<Longrightarrow> nd_id (ns' ! i) = nd_id (ns ! i) \<and> nd_inputs (ns' ! i) = nd_inputs (ns ! i)"
  unfolding same_wiring_def by (metis length_map nth_map)

lemma same_wiring_update: "same_wiring ns ns' \<Longrightarrow> i < length ns' \<Longrightarrow> same_wiring ns (ns'[i := (ns' ! i)\<lparr>nd_operator := x\<rparr>])"
proof -
  assume w: "same_wiring ns ns'" and i: "i < length ns'"
  have "map nd_id (ns'[i := (ns' ! i)\<lparr>nd_operator := x\<rparr>]) = map nd_id ns'"
    by (rule nth_equalityI) (use i in \<open>auto simp: nth_list_update\<close>)
  moreover have "map nd_inputs (ns'[i := (ns' ! i)\<lparr>nd_operator := x\<rparr>]) = map nd_inputs ns'"
    by (rule nth_equalityI) (use i in \<open>auto simp: nth_list_update\<close>)
  ultimately show ?thesis using w by (simp add: same_wiring_def)
qed

lemma same_wiring_map: "same_wiring ns (map (\<lambda>n. n\<lparr>nd_operator := f n\<rparr>) ns)"
  by (simp add: same_wiring_def comp_def)

lemma same_wiring_map2: "length vs = length ns \<Longrightarrow> same_wiring ns (map2 (\<lambda>n v. n\<lparr>nd_operator := snd v\<rparr>) ns vs)"
  by (auto simp: same_wiring_def intro!: nth_equalityI)

lemma node_edges_wiring: "node_edges ns = concat (map2 (\<lambda>i as. map (\<lambda>a. (a, i)) as) (map nd_id ns) (map nd_inputs ns))"
  by (induction ns) (simp_all add: node_edges_def)

lemma same_wiring_ok:
  assumes "same_wiring ns ns'"
  shows "nodes_ok ns' = nodes_ok ns" "runs_in_order ns' order = runs_in_order ns order"
proof -
  note l = same_wiring_length [OF assms] and n = same_wiring_nth [OF assms]
  show "nodes_ok ns' = nodes_ok ns" unfolding nodes_ok_def l using n by auto
  have "node_edges ns' = node_edges ns" using assms by (simp add: node_edges_wiring same_wiring_def)
  then show "runs_in_order ns' order = runs_in_order ns order" by (simp add: runs_in_order_def l)
qed

lemma same_wiring_graph_ok: "graph_ok g \<Longrightarrow> same_wiring (gr_nodes g) ns \<Longrightarrow> graph_ok (g\<lparr>gr_nodes := ns\<rparr>)"
  using same_wiring_ok [of "gr_nodes g" ns] same_wiring_length [of "gr_nodes g" ns] by (simp add: graph_ok_def)

subsection \<open>Walking the nodes\<close>

definition in_range :: "nat list list \<Rightarrow> nat list \<Rightarrow> nat \<Rightarrow> bool" where
  "in_range ins order n \<longleftrightarrow> (\<forall>i \<in> set order. i < length ins \<and> i < n \<and> (\<forall>j \<in> set (ins ! i). j < n))"

lemma in_range_graph:
  assumes "nodes_ok ns" and "runs_in_order ns order"
  shows "in_range (map nd_inputs ns) order (length ns)"
  using assms unfolding in_range_def runs_in_order_def nodes_ok_def by (auto, metis less_trans)

lemma walk_nodes_returns:
  assumes "in_range ins order (length evals)" and "P a" and "\<And>i es a. i \<in> set order \<Longrightarrow> P a \<Longrightarrow> P (snd (F i es a))"
  shows "\<exists>evals' a'. walk_nodes F ins order evals a = Ret (evals', a') \<and> length evals' = length evals \<and> P a'"
  using assms
proof (induction order arbitrary: evals a)
  case (Cons i order)
  obtain b a1 where F: "F i (map (\<lambda>j. evals ! j) (ins ! i)) a = (b, a1)" by fastforce
  have "P a1" using Cons.prems(2,3) F by (metis list.set_intros(1) snd_conv)
  moreover have "in_range ins order (length (evals[i := b]))" using Cons.prems(1) by (simp add: in_range_def)
  ultimately obtain e' a' where "walk_nodes F ins order (evals[i := b]) a1 = Ret (e', a') \<and> length e' = length evals \<and> P a'"
    using Cons.IH [of "evals[i := b]" a1] Cons.prems(3) by auto
  moreover have "i < length ins" "i < length evals" "list_all (\<lambda>j. j < length evals) (ins ! i)"
    using Cons.prems(1) by (simp_all add: in_range_def list_all_iff)
  ultimately show ?case using F by simp
qed simp

lemma fold_inject_returns:
  assumes "nodes_ok ns" and "runs_in_order ns order"
  shows "\<exists>extra'. fold (inject_key en s params order ns) keys (Ret extra) = Ret extra'"
proof (induction keys arbitrary: extra)
  case (Cons key keys)
  obtain e a where "walk_nodes (inject_node en s params ns key) (map nd_inputs ns) order (replicate (length ns) False) extra = Ret (e, a)"
    using walk_nodes_returns [where P = "\<lambda>_. True" and F = "inject_node en s params ns key"]
      in_range_graph [OF assms] by (metis length_replicate)
  then show ?case using Cons by (simp add: inject_key_def)
qed simp

lemma push_down_returns:
  assumes "in_range (map nd_inputs ns) order (length outs)" and "same_wiring ns nodes" and "length outs = length ns"
  shows "\<exists>nodes' outs'. push_down en s params order nodes outs = Ret (nodes', outs') \<and> same_wiring ns nodes' \<and> length outs' = length ns"
  using assms
proof (induction order arbitrary: nodes outs)
  case (Cons i order)
  have i: "i < length ns" "i < length nodes" "i < length outs" "\<forall>j \<in> set (nd_inputs (nodes ! i)). j < length outs"
    using Cons.prems(1,3) same_wiring_length [OF Cons.prems(2)] same_wiring_nth [OF Cons.prems(2), of i]
    by (auto simp: in_range_def)
  have r: "in_range (map nd_inputs ns) order (length outs)" using Cons.prems(1) by (simp add: in_range_def)
  show ?case
  proof (cases "list_ex (\<lambda>j. outs ! j \<noteq> None) (nd_inputs (nodes ! i))")
    case True
    obtain out op' where o: "op_step en s params (nd_operator (nodes ! i))
        (map (\<lambda>j. case outs ! j of None \<Rightarrow> [] | Some d \<Rightarrow> d) (nd_inputs (nodes ! i))) = (out, op')" by fastforce
    show ?thesis
      using Cons.IH [of "outs[i := Some out]" "nodes[i := (nodes ! i)\<lparr>nd_operator := op'\<rparr>]"] r i o True Cons.prems(3)
        same_wiring_update [OF Cons.prems(2) i(2), of op'] by (simp add: list_all_iff)
  next
    case False
    then show ?thesis using Cons.IH [OF r Cons.prems(2,3)] i by (simp add: list_all_iff)
  qed
qed simp

lemma reorder_node_wiring:
  assumes "i < length ns" and "same_wiring ns (fst a)" and "\<forall>f d. snd a = Some (f, d) \<longrightarrow> f < length ns"
  shows "same_wiring ns (fst (snd (reorder_node en s params key i es a)))
    \<and> (\<forall>f d. snd (snd (reorder_node en s params key i es a)) = Some (f, d) \<longrightarrow> f < length ns)"
proof (cases "snd a")
  case None
  obtain nodes where a: "a = (nodes, None)" using None by (cases a) simp
  have "i < length nodes" using assms a same_wiring_length by auto
  then show ?thesis
    using a assms same_wiring_update [of ns nodes i]
    by (cases "op_reorder_key en s (nd_operator (nodes ! i)) key (case es of [] \<Rightarrow> True | e # _ \<Rightarrow> e)")
      (auto simp: reorder_node_def Let_def)
next
  case (Some fd)
  then show ?thesis using assms by (cases a) (auto simp: reorder_node_def Let_def)
qed

lemma in_range_tl_dropWhile: "in_range ins order n \<Longrightarrow> in_range ins (tl (dropWhile p order)) n"
proof -
  have "set (tl xs) \<subseteq> set xs" for xs :: "nat list" by (cases xs) auto
  then have "set (tl (dropWhile p order)) \<subseteq> set order" using set_dropWhileD [of _ p order] by blast
  then show "in_range ins order n \<Longrightarrow> in_range ins (tl (dropWhile p order)) n" by (auto simp: in_range_def)
qed

lemma reevaluate_returns:
  assumes ok: "nodes_ok ns" "runs_in_order ns order" "out < length ns" and w: "same_wiring ns nodes"
  shows "\<exists>nodes' delta'. reevaluate_key en s params order out cache key (Ret (nodes, delta)) = Ret (nodes', delta') \<and> same_wiring ns nodes'"
proof -
  note len = same_wiring_length [OF w]
  have ins: "map nd_inputs nodes = map nd_inputs ns" using w by (simp add: same_wiring_def)
  have range: "in_range (map nd_inputs ns) order (length ns)" by (rule in_range_graph [OF ok(1,2)])
  let ?P = "\<lambda>a. same_wiring ns (fst a) \<and> (\<forall>f d. snd a = Some (f, d) \<longrightarrow> f < length ns)"
  have step: "?P (snd (reorder_node en s params key i es a))" if "i \<in> set order" "?P a" for i es a
    using reorder_node_wiring [of i ns a] that range by (simp add: in_range_def)
  have start: "?P (nodes, None)" using w by simp
  have fits: "in_range (map nd_inputs nodes) order (length (replicate (length nodes) False))"
    using range ins len by simp
  from walk_nodes_returns [where F = "reorder_node en s params key" and P = ?P, OF fits start step]
  obtain evals a where wa: "walk_nodes (reorder_node en s params key) (map nd_inputs nodes) order
      (replicate (length nodes) False) (nodes, None) = Ret (evals, a) \<and> length evals = length nodes \<and> ?P a"
    by (metis (no_types, lifting) length_replicate)
  obtain nodes1 r where a: "a = (nodes1, r)" by (cases a)
  have W: "walk_nodes (reorder_node en s params key) (map nd_inputs nodes) order
      (replicate (length nodes) False) (nodes, None) = Ret (evals, nodes1, r)"
    "length evals = length ns" "same_wiring ns nodes1" "\<forall>f d. r = Some (f, d) \<longrightarrow> f < length ns"
    using wa a len by simp_all
  show ?thesis
  proof (cases r)
    case None
    then show ?thesis using W ok(3) by (simp add: reevaluate_key_def)
  next
    case (Some fm)
    obtain f m where fm: "fm = (f, m)" by (cases fm)
    let ?outs = "(replicate (length nodes) None)[f := Some m]"
    obtain nodes2 outs where P: "push_down en s params (tl (dropWhile (\<lambda>n. n \<noteq> f) order)) nodes1 ?outs = Ret (nodes2, outs)"
      "same_wiring ns nodes2" "length outs = length ns"
      using push_down_returns [of ns "tl (dropWhile (\<lambda>n. n \<noteq> f) order)" ?outs nodes1 en s params] in_range_tl_dropWhile [OF range] W(3) len
      by auto
    then show ?thesis using W(1) Some fm ok(3) by (cases "outs ! out") (simp_all add: reevaluate_key_def)
  qed
qed

lemma fold_reevaluate_returns:
  assumes "nodes_ok ns" and "runs_in_order ns order" and "out < length ns" and "same_wiring ns nodes"
  shows "\<exists>nodes' delta'. fold (reevaluate_key en s params order out cache) keys (Ret (nodes, delta)) = Ret (nodes', delta')
    \<and> same_wiring ns nodes'"
  using assms(4)
proof (induction keys arbitrary: nodes delta)
  case (Cons key keys)
  then show ?case using reevaluate_returns [OF assms(1-3) Cons.prems, of en s params cache key delta] by auto
qed simp

lemma graph_delta_returns:
  assumes "graph_ok g"
  shows "\<exists>delta g'. graph_delta en s params tds cu cache g = Ret (Some delta, g') \<and> graph_ok g'"
proof -
  let ?ns = "note_nodes cu (gr_nodes g)"
  have w0: "same_wiring (gr_nodes g) ?ns" by (simp add: note_nodes_def same_wiring_map)
  note len = same_wiring_length [OF w0]
  have ok: "nodes_ok ?ns" "runs_in_order ?ns (gr_topo_order g)" "gr_output_node g < length ?ns"
    using assms same_wiring_ok [OF w0] len by (simp_all add: graph_ok_def)
  obtain extra where e: "fold (inject_key en s params (gr_topo_order g) ?ns) (updated_keys cu) (Ret []) = Ret extra"
    using fold_inject_returns [OF ok(1,2)] by metis
  let ?F = "step_node en s params tds extra"
  let ?nodes = "map2 (\<lambda>n v. n\<lparr>nd_operator := snd v\<rparr>) ?ns (node_values ?F ?ns)"
  have r: "run_nodes ?F (gr_topo_order g) ?ns (replicate (length ?ns) None) = Ret (?nodes, map (Some \<circ> fst) (node_values ?F ?ns))"
    by (rule run_nodes_result [OF ok(1,2)])
  have w1: "same_wiring ?ns ?nodes" by (simp add: same_wiring_map2)
  obtain nodes' delta' where f: "fold (reevaluate_key en s params (gr_topo_order g) (gr_output_node g) cache) (updated_keys cu)
      (Ret (?nodes, fst (node_values ?F ?ns ! gr_output_node g))) = Ret (nodes', delta')" "same_wiring ?ns nodes'"
    using fold_reevaluate_returns [OF ok w1] by metis
  have "graph_ok (g\<lparr>gr_nodes := nodes'\<rparr>)" using same_wiring_graph_ok [OF assms same_wiring_trans [OF w0 f(2)]] .
  then show ?thesis using e r f(1) ok(3) by (simp add: graph_delta_def Let_def)
qed

lemma prime_graph_returns:
  assumes "graph_ok g"
  shows "\<exists>out g'. prime_graph en s params g = Ret (Some out, g') \<and> graph_ok g'"
proof -
  let ?F = "prime_node en s params" and ?ns = "gr_nodes g"
  have ok: "nodes_ok ?ns" "runs_in_order ?ns (gr_topo_order g)" "gr_output_node g < length ?ns"
    using assms by (simp_all add: graph_ok_def)
  have "graph_ok (g\<lparr>gr_nodes := map2 (\<lambda>n v. n\<lparr>nd_operator := snd v\<rparr>) ?ns (node_values ?F ?ns)\<rparr>)"
    by (rule same_wiring_graph_ok [OF assms]) (simp add: same_wiring_map2)
  then show ?thesis using run_nodes_result [OF ok(1,2), of ?F] ok(3) by (simp add: prime_graph_def)
qed

lemma from_plan_returns: "\<exists>g. from_plan p = Ret g \<and> graph_ok g"
  using from_plan_ok [of p] by (metis graph_ok_def lessI)

subsection \<open>The circuit\<close>

definition graphs_ok :: "circuit \<Rightarrow> bool" where
  "graphs_ok c \<longleftrightarrow> (\<forall>q g. hm_get (ci_graphs c) q = Some g \<longrightarrow> graph_ok g)"

lemma graphs_ok_insert: "graphs_ok c \<Longrightarrow> graph_ok g \<Longrightarrow> ci_graphs c' = hm_insert q g (ci_graphs c) \<Longrightarrow> graphs_ok c'"
  by (auto simp: graphs_ok_def split: if_splits)

lemma graphs_ok_cong: "graphs_ok c \<Longrightarrow> ci_graphs c' = ci_graphs c \<Longrightarrow> graphs_ok c'"
  by (simp add: graphs_ok_def)

lemma run_initial_returns:
  assumes "graphs_ok c"
  shows "\<exists>d c'. run_initial_snapshot en q c = Ret (d, c') \<and> graphs_ok c'"
proof (cases "hm_get (ci_graphs c) q"; cases "hm_get (ci_views c) q")
  fix g v assume gv: "hm_get (ci_graphs c) q = Some g" "hm_get (ci_views c) q = Some v"
  then have "graph_ok g" using assms by (simp add: graphs_ok_def)
  then obtain out g' where p: "prime_graph en (ci_store c) (vw_params v) g = Ret (Some out, g')" "graph_ok g'"
    using prime_graph_returns by blast
  obtain d v' where "initial_delta en (ci_store c) q out v = (d, v')" by fastforce
  then show ?thesis using gv p graphs_ok_insert [OF assms p(2)] by (simp add: run_initial_snapshot_def)
qed (use assms in \<open>simp_all add: run_initial_snapshot_def\<close>)

lemma step_query_returns:
  assumes "graphs_ok c"
  shows "\<exists>d c'. step_query en tds cu q c = Ret (d, c') \<and> graphs_ok c'"
proof (cases "hm_get (ci_graphs c) q"; cases "hm_get (ci_views c) q")
  fix g v assume gv: "hm_get (ci_graphs c) q = Some g" "hm_get (ci_views c) q = Some v"
  then have "graph_ok g" using assms by (simp add: graphs_ok_def)
  then obtain out g' where p: "graph_delta en (ci_store c) (vw_params v) tds cu (vw_cache v) g = Ret (Some out, g')" "graph_ok g'"
    using graph_delta_returns by blast
  obtain d v' where "publish_delta en (ci_store c) tds cu q out v = (d, v')" by fastforce
  then show ?thesis using gv p graphs_ok_insert [OF assms p(2)] by (simp add: step_query_def)
qed (use assms in \<open>simp_all add: step_query_def\<close>)

lemma reprime_view_returns:
  assumes "graphs_ok c"
  shows "\<exists>ds c'. reprime_view en q c = Ret (ds, c') \<and> graphs_ok c'"
proof (cases "hm_get (ci_views c) q")
  case None
  then show ?thesis using assms by (simp add: reprime_view_def)
next
  case (Some v)
  obtain g where g: "from_plan (qp_root (vw_plan v)) = Ret g" "graph_ok g" using from_plan_returns by blast
  let ?v = "v\<lparr>vw_cache := [], vw_subquery_cache := [], vw_last_hash := []\<rparr>"
  let ?c = "c\<lparr>ci_views := hm_insert q ?v (ci_views c), ci_graphs := hm_insert q g (ci_graphs c)\<rparr>"
  have "graphs_ok ?c" using graphs_ok_insert [OF assms g(2)] by simp
  then obtain d c2 where r: "run_initial_snapshot en q ?c = Ret (d, c2)" "graphs_ok c2" using run_initial_returns by blast
  have "hm_keys (ci_views c2) = hm_keys (ci_views ?c)" using run_initial_same [OF r(1)] by (simp add: same_regs_def)
  moreover have "q \<in> set (hm_keys (ci_views ?c))" by (simp add: hm_keys_insert)
  ultimately obtain v2 where "hm_get (ci_views c2) q = Some v2" using in_hm_keys [of q "ci_views c2"] by auto
  then show ?thesis
    using Some g r graphs_ok_cong [OF r(2)] by (cases d) (simp_all add: reprime_view_def Let_def)
qed

lemma step_affected_returns:
  assumes "graphs_ok c"
  shows "\<exists>ds c'. step_affected en tds cu q c = Ret (ds, c') \<and> graphs_ok c'"
proof -
  obtain d c1 where r: "step_query en tds cu q c = Ret (d, c1)" "graphs_ok c1" using step_query_returns [OF assms] by blast
  show ?thesis
    using r reprime_view_returns [OF r(2), of en q] by (cases d) (simp_all add: step_affected_def)
qed

lemma step_queries_returns: "graphs_ok c \<Longrightarrow> \<exists>ds c'. step_queries en tds cu qs c = Ret (ds, c') \<and> graphs_ok c'"
proof (induction qs arbitrary: c)
  case (Cons q qs)
  obtain ds c1 where r: "step_affected en tds cu q c = Ret (ds, c1)" "graphs_ok c1" using step_affected_returns [OF Cons.prems] by blast
  obtain es c2 where "step_queries en tds cu qs c1 = Ret (es, c2)" "graphs_ok c2" using Cons.IH [OF r(2)] by blast
  then show ?case using r by simp
qed simp

lemma reprime_views_returns: "graphs_ok c \<Longrightarrow> \<exists>ds c'. reprime_views en qs c = Ret (ds, c') \<and> graphs_ok c'"
proof (induction qs arbitrary: c)
  case (Cons q qs)
  obtain ds c1 where r: "reprime_view en q c = Ret (ds, c1)" "graphs_ok c1" using reprime_view_returns [OF Cons.prems] by blast
  obtain es c2 where "reprime_views en qs c1 = Ret (es, c2)" "graphs_ok c2" using Cons.IH [OF r(2)] by blast
  then show ?case using r by simp
qed simp

lemma floor_row_version_graphs: "ci_graphs (snd (floor_row_version t i v c)) = ci_graphs c"
  by (simp add: floor_row_version_def Let_def split: option.splits)

lemma write_change_graphs: "ci_graphs (snd (write_change cdc ops ch c)) = ci_graphs c"
  using floor_row_version_graphs by (simp add: write_change_def Let_def case_prod_beta)

lemma ingest_graphs: "ci_graphs (ig_circuit (fold (ingest_change cdc ops) chs st)) = ci_graphs (ig_circuit st)"
  by (induction chs arbitrary: st) (simp_all add: ingest_change_def case_prod_beta write_change_graphs)

lemma circuit_step_returns:
  assumes "graphs_ok c"
  shows "\<exists>ds c'. circuit_step cdc ops en chs c = Ret (ds, c') \<and> graphs_ok c'"
proof -
  let ?st = "store_phase cdc ops chs c"
  have "graphs_ok (ig_circuit ?st)"
    by (rule graphs_ok_cong [OF assms]) (simp add: store_phase_def Let_def case_prod_beta ingest_graphs)
  then obtain ds c2 where q: "step_queries en (ig_deltas ?st) (ig_updates ?st) (affected_queries (ig_circuit ?st) (ig_changed ?st)) (ig_circuit ?st)
      = Ret (ds, c2)" "graphs_ok c2" using step_queries_returns by blast
  show ?thesis using q graphs_ok_cong [OF q(2)] assms by (simp add: circuit_step_def Let_def)
qed

lemma reconcile_returns:
  assumes "graphs_ok c"
  shows "\<exists>r c'. reconcile cdc ops en t es c = Ret (r, c') \<and> graphs_ok c'"
proof -
  obtain fetch stale where f: "reconcile_sets t es (ci_store c) = (fetch, stale)" by fastforce
  obtain ds c' where "circuit_step cdc ops en (map (delete_change t) stale) c = Ret (ds, c')" "graphs_ok c'"
    using circuit_step_returns [OF assms] by blast
  then show ?thesis using f assms by (simp add: reconcile_def)
qed

lemma refresh_graphs: "ci_graphs (refresh_retained_fields c) = ci_graphs c" "ci_graphs (note_missing_fields root c) = ci_graphs c"
  by (simp_all add: refresh_retained_fields_def note_missing_fields_def Let_def)

lemma replace_store_returns:
  assumes "graphs_ok c"
  shows "\<exists>ds c'. replace_store en s c = Ret (ds, c') \<and> graphs_ok c'"
  unfolding replace_store_def Let_def
  by (rule reprime_views_returns) (rule graphs_ok_cong [OF assms], simp add: refresh_graphs)

lemma add_query_returns:
  assumes "graphs_ok c"
  shows "\<exists>d c'. add_query_with_auth en plan params fmt auth c = Ret (d, c') \<and> graphs_ok c'"
proof -
  obtain g where g: "from_plan (qp_root plan) = Ret g" "graph_ok g" using from_plan_returns by blast
  show ?thesis
    unfolding add_query_with_auth_def Let_def using g
    by (simp, intro run_initial_returns graphs_ok_insert [OF assms g(2)]) (simp add: refresh_graphs)
qed

lemma reachable_graphs_ok: "reachable cdc ops en c \<Longrightarrow> graphs_ok c"
proof (induction rule: reachable.induct)
  case start
  then show ?case by (simp add: graphs_ok_def circuit_new_def)
next
  case (step c c')
  from step(2) step(3) show ?case
  proof (cases rule: circuit_event.cases)
    case (register plan params fmt auth d)
    then show ?thesis using add_query_returns [OF step(3), of en plan params fmt auth] by auto
  next
    case (leave i dropped)
    have "hm_get (ci_graphs c') q = Some g \<Longrightarrow> hm_get (ci_graphs c) q = Some g" for q g
      using leave by (auto simp: detach_subscriber_def drop_graph_if_unused_def remove_query_def Let_def split: option.splits if_splits)
    then show ?thesis using step(3) by (auto simp: graphs_ok_def)
  next
    case (ingest chs ds)
    then show ?thesis using circuit_step_returns [OF step(3), of cdc ops en chs] by auto
  next
    case (reconcile t es r)
    then show ?thesis using reconcile_returns [OF step(3), of cdc ops en t es] by auto
  next
    case (restore s ds)
    then show ?thesis using replace_store_returns [OF step(3), of en s] by auto
  next
    case (attach i owner auth delta)
    then show ?thesis
      using graphs_ok_cong [OF step(3)] by (auto simp: attach_subscriber_def Let_def split: option.splits)
  qed (use graphs_ok_cong [OF step(3)] in \<open>auto simp: claim_merge_key_def circuit_load_def circuit_compact_def
      set_projection_def refresh_graphs take_missing_fields_def forget_table_def\<close>)
qed

text \<open>
  C40. No operation of a reachable circuit panics: registering any query, ingesting any set of
  changes, reconciling a table against any listing and swapping in any store all return.
\<close>

theorem circuit_never_panics:
  assumes "reachable cdc ops en c"
  shows "(\<exists>d c'. add_query_with_auth en plan params fmt auth c = Ret (d, c'))
    \<and> (\<exists>ds c'. circuit_step cdc ops en chs c = Ret (ds, c'))
    \<and> (\<exists>r c'. reconcile cdc ops en t es c = Ret (r, c'))
    \<and> (\<exists>ds c'. replace_store en s c = Ret (ds, c'))"
  using add_query_returns circuit_step_returns reconcile_returns replace_store_returns reachable_graphs_ok [OF assms] by metis

theorem circuit_never_panics_witness:
  "\<exists>ds c'. circuit_step sample_codec (list_set_ops index_entry_cmp) demo_engine
     [\<lparr>ch_table = ''u'', ch_op = OpCreate, ch_id = ''1'', ch_data = VObject [(''k'', VBool True)]\<rparr>] circuit_two = Ret (ds, c')"
  using circuit_never_panics [OF circuit_two_reachable] by blast

end
