(* ===== verification/Maintenance.thy ===== *)
theory Maintenance
  imports Registration Execution
begin

section \<open>Keeping a plan up to date\<close>

text \<open>
  The composition of the operators of \<^verbatim>\<open>operator/*.rs\<close> in a graph (\<^verbatim>\<open>circuit/graph.rs\<close>): when
  rows enter and leave the store, one pass over the nodes emits at every node the difference
  between the full evaluations of its plan after and before, and leaves every operator holding
  what it would hold had it been primed on the new store. A row that leaves can still be read by
  the filters (\<^verbatim>\<open>Store::stage_deleted_row\<close>), and no row changes its content.
\<close>

definition row_present_in :: "store \<Rightarrow> row_key \<Rightarrow> bool" where
  "row_present_in s k \<longleftrightarrow> \<not> is_missing (get_row_by_key s k)"

definition moves :: "store \<Rightarrow> store \<Rightarrow> bool" where
  "moves s s' \<longleftrightarrow> (\<forall>k. row_present_in s k \<longrightarrow>
     get_row_by_key_or_deleted s' k = get_row_by_key_or_deleted s k
     \<and> (row_present_in s' k \<longrightarrow> get_row_by_key s' k = get_row_by_key s k))"

definition live_in :: "store \<Rightarrow> zset \<Rightarrow> bool" where
  "live_in s z \<longleftrightarrow> hm_wf z \<and> (\<forall>k. zget z k \<noteq> 0 \<longrightarrow> row_present_in s k)"

definition unit_weights :: "zset \<Rightarrow> bool" where
  "unit_weights z \<longleftrightarrow> (\<forall>k. zget z k = 0 \<or> zget z k = 1)"

definition delta_between :: "zset \<Rightarrow> zset \<Rightarrow> zset \<Rightarrow> bool" where
  "delta_between old new d \<longleftrightarrow> hm_wf d \<and> (\<forall>k. zget d k = zget new k - zget old k)"

subsection \<open>Plans that are maintained\<close>

text \<open>
  The output of a plan holds every row at most once. A union or a hash join may hold a row
  several times.
\<close>

fun unit_plan :: "operator_plan \<Rightarrow> bool" where
  "unit_plan (Scan table) = True"
| "unit_plan (Filter p predicate) = unit_plan p"
| "unit_plan (Join p q on) = False"
| "unit_plan (SemiJoin p q on) = True"
| "unit_plan (AntiJoin p q on) = True"
| "unit_plan (UnionPlan p q) = False"
| "unit_plan (Distinct p) = True"
| "unit_plan (Project p projections) = unit_plan p"
| "unit_plan (Limit p limit start order_by) = True"

fun steady_plan :: "operator_plan \<Rightarrow> bool" where
  "steady_plan (Scan table) = True"
| "steady_plan (Filter p predicate) = steady_plan p"
| "steady_plan (Join p q on) = False"
| "steady_plan (SemiJoin p q on) = (steady_plan p \<and> steady_plan q)"
| "steady_plan (AntiJoin p q on) = (steady_plan p \<and> steady_plan q)"
| "steady_plan (UnionPlan p q) = (steady_plan p \<and> steady_plan q)"
| "steady_plan (Distinct p) = steady_plan p"
| "steady_plan (Project p projections) = steady_plan p"
| "steady_plan (Limit p limit start order_by) = (steady_plan p \<and> unit_plan p)"

definition order_dirs :: "order_spec list option \<Rightarrow> bool list" where
  "order_dirs order_by = (case order_by of None \<Rightarrow> [False] | Some orders \<Rightarrow> map is_desc orders)"

abbreviation evaluate :: "engine \<Rightarrow> store \<Rightarrow> value option \<Rightarrow> operator_plan \<Rightarrow> zset" where
  "evaluate en s params p \<equiv> plan_output (op_snapshot en s params) p"

lemma order_dirs_exact:
  assumes "\<forall>k. key_exact dirs (compute_sort_key order_by k s)"
  shows "key_exact (order_dirs order_by) (compute_sort_key order_by k s)"
  using assms [rule_format, of k]
  by (cases order_by) (auto simp: key_exact_def order_dirs_def compute_sort_key_def list_all2_map2 list_all2_map1
      list_all2_Cons2 sortable_from_value_def list.rel_refl_strong list_all2_conv_all_nth)

subsection \<open>What a plan evaluates to\<close>

lemma hm_wf_evaluate:
  assumes "memberships_ok s"
  shows "hm_wf (evaluate en s params p)"
proof (induction p rule: plan_induct)
  case (Scan table)
  then show ?case using hm_wf_scan [OF assms] by (simp add: op_snapshot_simps)
qed (simp_all add: op_snapshot_simps hm_wf_snapshots zset_ok_hash_join [THEN zset_ok_hm_wf] join_snapshot_def
    union_snapshot_def distinct_snapshot_def witness_snapshot_def)

lemma zget_topk_snapshot_nonzero:
  assumes "hm_wf z" and "zget (topk_snapshot tk s [z]) k \<noteq> 0"
  shows "zget (topk_snapshot tk s [z]) k = 1 \<and> zget z k \<noteq> 0"
proof -
  have f: "zget (fold (\<lambda>(_, key) out. hm_insert key 1 out) es out) k = (if k \<in> snd ` set es then 1 else zget out k)"
    for es :: "entry list" and out
    by (induction es arbitrary: out) auto
  let ?items = "map (\<lambda>(key, _). (compute_sort_key (tk_order_by tk) key s, key)) (filter (\<lambda>(_, w). w_pos w) z)"
  have "zget (topk_snapshot tk s [z]) k = (if k \<in> snd ` set (take (tk_limit tk) (drop (tk_offset tk) (cmp_sort entry_cmp ?items))) then 1 else 0)"
    by (simp add: topk_snapshot_def Let_def f)
  moreover have "set (take (tk_limit tk) (drop (tk_offset tk) (cmp_sort entry_cmp ?items))) \<subseteq> set ?items"
    using set_take_subset [of "tk_limit tk" "drop (tk_offset tk) (cmp_sort entry_cmp ?items)"]
      set_drop_subset [of "tk_offset tk" "cmp_sort entry_cmp ?items"] set_cmp_sort [of entry_cmp ?items] by blast
  ultimately have "zget (topk_snapshot tk s [z]) k = 1" "k \<in> snd ` set ?items" using assms(2) by (auto split: if_splits)
  moreover from this(2) obtain w where "(k, w) \<in> set z" "w_pos w" by auto
  ultimately show ?thesis using hm_get_eq_Some_iff [OF assms(1), of k w] w_pos_nonzero by (auto simp: zget_def)
qed

definition store_live :: "store \<Rightarrow> bool" where
  "store_live s \<longleftrightarrow> memberships_ok s
     \<and> (\<forall>t k. zget (scan_snapshot t s) k \<noteq> 0 \<longrightarrow> zget (scan_snapshot t s) k = 1 \<and> row_present_in s k)"

lemma zget_evaluate:
  assumes "memberships_ok s"
  shows "zget (evaluate en s params (Filter p f)) k = (if check_predicate f k s params then zget (evaluate en s params p) k else 0)"
    and "zget (evaluate en s params (SemiJoin p q on)) k =
      of_bool (admitted (en_sip en) False on s (evaluate en s params p) (evaluate en s params q) k)"
    and "zget (evaluate en s params (AntiJoin p q on)) k =
      of_bool (admitted (en_sip en) True on s (evaluate en s params p) (evaluate en s params q) k)"
    and "zget (evaluate en s params (UnionPlan p q)) k = zget (evaluate en s params p) k + zget (evaluate en s params q) k"
    and "zget (evaluate en s params (Distinct p)) k = of_bool (w_pos (zget (evaluate en s params p) k))"
    and "evaluate en s params (Project p projections) = evaluate en s params p"
  using hm_wf_evaluate [OF assms]
  by (simp_all add: op_snapshot_simps zget_filter_snapshot zget_witness_snapshot union_snapshot_def zget_add
      distinct_snapshot_def zget_threshold)

lemma evaluate_nonzero:
  assumes s: "store_live s"
  shows "zget (evaluate en s params p) k \<noteq> 0 \<Longrightarrow> row_present_in s k"
proof (induction p rule: plan_induct)
  case (Scan table)
  then show ?case using s by (simp add: store_live_def op_snapshot_simps)
next
  case (Limit p limit start order_by)
  have m: "memberships_ok s" using s by (simp add: store_live_def)
  show ?case
    using Limit zget_topk_snapshot_nonzero [OF hm_wf_evaluate [OF m]] by (simp add: op_snapshot_simps)
next
  case (Join p q on)
  have "hm_wf (evaluate en s params p)" using s hm_wf_evaluate by (simp add: store_live_def)
  then show ?case
    using Join by (cases "zget (evaluate en s params p) k = 0") (simp_all add: op_snapshot_simps join_snapshot_def zget_hash_join)
next
  case (UnionPlan p q)
  then show ?case using s by (cases "zget (evaluate en s params p) k = 0")
      (simp_all add: store_live_def zget_evaluate del: plan_output.simps)
qed (use s w_pos_nonzero in \<open>auto simp: store_live_def zget_evaluate admitted_def simp del: plan_output.simps split: if_splits\<close>)

lemma live_evaluate: "store_live s \<Longrightarrow> live_in s (evaluate en s params p)"
  using evaluate_nonzero hm_wf_evaluate unfolding live_in_def store_live_def by blast

lemma unit_evaluate:
  assumes s: "store_live s"
  shows "unit_plan p \<Longrightarrow> unit_weights (evaluate en s params p)"
proof (induction p rule: plan_induct)
  case (Scan table)
  then show ?case using s by (auto simp: store_live_def op_snapshot_simps unit_weights_def)
next
  case (Limit p limit start order_by)
  have m: "memberships_ok s" using s by (simp add: store_live_def)
  show ?case
    unfolding unit_weights_def plan_output.simps op_snapshot_simps
    using zget_topk_snapshot_nonzero [OF hm_wf_evaluate [OF m]] by blast
qed (use s in \<open>auto simp: store_live_def zget_evaluate unit_weights_def simp del: plan_output.simps\<close>)

subsection \<open>The nodes of a plan\<close>

text \<open>
  Node \<open>i\<close> of \<open>ns\<close> computes plan \<open>p\<close> and its state, and the states below it, hold the inputs
  \<open>W\<close> gives for the subplans, read from the store \<open>s\<close>; and \<open>W\<close> is what the operators make of
  their inputs.
\<close>

definition window_ok :: "store \<Rightarrow> zset \<Rightarrow> top_k \<Rightarrow> bool" where
  "window_ok s z tk \<longleftrightarrow> topk_inv (order_dirs (tk_order_by tk))
      (\<lambda>k. if w_pos (zget z k) then Some (compute_sort_key (tk_order_by tk) k s) else None) tk
     \<and> \<not> topk_needs_rebuild tk"

definition node_is :: "node list \<Rightarrow> nat \<Rightarrow> operator \<Rightarrow> nat list \<Rightarrow> bool" where
  "node_is ns i operator inputs \<longleftrightarrow> nd_operator (ns ! i) = operator \<and> nd_inputs (ns ! i) = inputs"

fun tree_ok ::
  "engine \<Rightarrow> store \<Rightarrow> value option \<Rightarrow> (operator_plan \<Rightarrow> zset) \<Rightarrow> node list \<Rightarrow> operator_plan \<Rightarrow> nat \<Rightarrow> bool" where
  "tree_ok en s params W ns (Scan table) i \<longleftrightarrow> node_is ns i (OpScan table) []"
| "tree_ok en s params W ns (Filter p f) i \<longleftrightarrow>
     (\<exists>a. node_is ns i (OpFilter f) [a] \<and> tree_ok en s params W ns p a)
     \<and> (\<forall>k. zget (W (Filter p f)) k = (if check_predicate f k s params then zget (W p) k else 0))"
| "tree_ok en s params W ns (Join p q on) i \<longleftrightarrow> False"
| "tree_ok en s params W ns (SemiJoin p q on) i \<longleftrightarrow>
     (\<exists>a b st. node_is ns i (OpSemiJoin on st) [a, b] \<and> tree_ok en s params W ns p a \<and> tree_ok en s params W ns q b
       \<and> witness_inv (en_sip en) False on s (W p) (W q) st \<and> ws_content_updates st = [])
     \<and> (\<forall>k. zget (W (SemiJoin p q on)) k = of_bool (admitted (en_sip en) False on s (W p) (W q) k))"
| "tree_ok en s params W ns (AntiJoin p q on) i \<longleftrightarrow>
     (\<exists>a b st. node_is ns i (OpAntiJoin on st) [a, b] \<and> tree_ok en s params W ns p a \<and> tree_ok en s params W ns q b
       \<and> witness_inv (en_sip en) True on s (W p) (W q) st \<and> ws_content_updates st = [])
     \<and> (\<forall>k. zget (W (AntiJoin p q on)) k = of_bool (admitted (en_sip en) True on s (W p) (W q) k))"
| "tree_ok en s params W ns (UnionPlan p q) i \<longleftrightarrow>
     (\<exists>a b. node_is ns i OpUnion [a, b] \<and> tree_ok en s params W ns p a \<and> tree_ok en s params W ns q b)
     \<and> (\<forall>k. zget (W (UnionPlan p q)) k = zget (W p) k + zget (W q) k)"
| "tree_ok en s params W ns (Distinct p) i \<longleftrightarrow>
     (\<exists>a z. node_is ns i (OpDistinct z) [a] \<and> tree_ok en s params W ns p a \<and> hm_wf z \<and> zeq z (W p))
     \<and> (\<forall>k. zget (W (Distinct p)) k = of_bool (w_pos (zget (W p) k)))"
| "tree_ok en s params W ns (Project p projections) i \<longleftrightarrow>
     (\<exists>a. node_is ns i (OpMap projections) [a] \<and> tree_ok en s params W ns p a)
     \<and> (\<forall>k. zget (W (Project p projections)) k = zget (W p) k)"
| "tree_ok en s params W ns (Limit p limit start order_by) i \<longleftrightarrow>
     (\<exists>a tk. node_is ns i (OpTopK tk) [a] \<and> tree_ok en s params W ns p a \<and> window_ok s (W p) tk
       \<and> tk_limit tk = limit \<and> tk_offset tk = start \<and> tk_order_by tk = order_by)
     \<and> (\<forall>k. zget (W (Limit p limit start order_by)) k = zget (topk_snapshot (topk_new limit start order_by) s [W p]) k)"


subsection \<open>One operator, one step\<close>

lemma check_predicate_cong:
  "get_row_by_key_or_deleted s' k = get_row_by_key_or_deleted s k \<Longrightarrow> check_predicate f k s' params = check_predicate f k s params"
  by (induction f k s params rule: check_predicate.induct)
    (simp_all add: compare_field_def list_all_iff list_ex_iff cong: option.case_cong)

lemma delta_filter:
  assumes d: "delta_between x x' d" and x: "live_in s x" and m: "moves s s'"
  shows "hm_wf (filter_step f s' params [d])
    \<and> zget (filter_step f s' params [d]) k =
      (if check_predicate f k s' params then zget x' k else 0) - (if check_predicate f k s params then zget x k else 0)"
proof -
  have "check_predicate f k s' params = check_predicate f k s params" if "zget x k \<noteq> 0"
    using that x m by (intro check_predicate_cong) (simp add: live_in_def moves_def)
  then show ?thesis
    using d by (cases "zget x k = 0") (simp_all add: delta_between_def filter_step_def zget_filter_snapshot hm_wf_snapshots)
qed

lemma delta_distinct:
  assumes d: "delta_between x x' d" and z: "hm_wf z" "zeq z x" and r: "distinct_step z [d] = (out, z')"
  shows "hm_wf out \<and> hm_wf z' \<and> zeq z' x' \<and> zget out k = of_bool (w_pos (zget x' k)) - of_bool (w_pos (zget x k))"
proof -
  have "[zset_add z d] = [z'] \<and> hm_wf z'" "hm_wf out"
    "zget out k = zget (distinct_snapshot [zset_add z d]) k - zget (distinct_snapshot [z]) k"
    using distinct_op.step_delta [where s = z and xs = "[z]" and ds = "[d]", OF _ _ r] d z
    by (simp_all add: deltas_ok_1 delta_between_def)
  then show ?thesis
    using d z by (auto simp: delta_between_def distinct_snapshot_def zget_threshold zeq_def zget_add)
qed

lemma witness_inv_zeq:
  assumes "witness_inv sip anti cond s A B st" and "hm_wf A'" "hm_wf B'" "zeq A A'" "zeq B B'"
  shows "witness_inv sip anti cond s A' B' st"
  using assms by (simp add: witness_inv_def side_ok_def zeq_def admitted_def right_match_def)

lemma noted_moves:
  assumes "delta_between x x' d" and "live_in s x" and "live_in s' x'" and "moves s s'"
  shows "noted s s' us x d"
  unfolding noted_def
proof (intro allI impI)
  fix k assume k: "zget x k \<noteq> 0" "k \<notin> fst ` set d"
  then have "zget x' k \<noteq> 0" using assms(1) zget_absent [OF k(2)] by (auto simp: delta_between_def)
  then show "get_row_by_key s' k = get_row_by_key s k" using k(1) assms(2-4) by (simp add: live_in_def moves_def)
qed

lemma delta_witness:
  assumes d: "delta_between x x' d" and e: "delta_between y y' e"
    and live: "live_in s x" "live_in s y" "live_in s' x'" "live_in s' y'" and m: "moves s s'"
    and inv: "witness_inv sip anti cond s x y st" "ws_content_updates st = []"
    and r: "witness_step sip anti cond s' st [d, e] = (out, st')"
  shows "hm_wf out \<and> witness_inv sip anti cond s' x' y' st' \<and> ws_content_updates st' = []
    \<and> zget out k = of_bool (admitted sip anti cond s' x' y' k) - of_bool (admitted sip anti cond s x y k)"
proof -
  have wf: "hm_wf d" "hm_wf e" "hm_wf x'" "hm_wf y'" using d e live by (simp_all add: delta_between_def live_in_def)
  have z: "zeq (zset_add x d) x'" "zeq (zset_add y e) y'"
    using d e by (simp_all add: zeq_def delta_between_def zget_add)
  note S = witness_step_inv [OF inv(1) wf(1,2) noted_moves [OF d live(1,3) m] noted_moves [OF e live(2,4) m] r]
  have "admitted sip anti cond s' (zset_add x d) (zset_add y e) = admitted sip anti cond s' x' y'"
    using z by (simp add: fun_eq_iff admitted_def right_match_def zeq_def)
  then show ?thesis using S witness_inv_zeq [OF _ wf(3,4) z] by simp
qed

lemma fold_admit_entry:
  "hm_wf d \<Longrightarrow> fold (admit_entry ord s) d X k =
     (if w_pos (zget d k) then Some (compute_sort_key ord k s) else if sint (zget d k) < 0 then None else X k)"
proof (induction d arbitrary: X)
  case (Cons e d)
  obtain j w where e: "e = (j, w)" by (cases e)
  then have d: "j \<notin> fst ` set d" "hm_wf d" using Cons.prems by simp_all
  show ?case using Cons.IH [OF d(2)] zget_absent [OF d(1)] e by (auto simp: admit_entry_def zget_Cons w_pos_def)
qed (simp add: w_pos_def)

lemma admitted_after:
  assumes d: "delta_between x x' d" and u: "unit_weights x" "unit_weights x'"
    and live: "live_in s x" "live_in s' x'" and m: "moves s s'"
  shows "fold (admit_entry ord s') d (\<lambda>k. if w_pos (zget x k) then Some (compute_sort_key ord k s) else None) k =
    (if w_pos (zget x' k) then Some (compute_sort_key ord k s') else None)"
proof -
  have "compute_sort_key ord k s' = compute_sort_key ord k s" if "zget x k \<noteq> 0" "zget x' k \<noteq> 0"
    using that live m by (simp add: compute_sort_key_def live_in_def moves_def split: option.splits)
  moreover have "w_pos 1" "\<not> w_pos 0" "\<not> w_pos (- 1)" "sint (- 1 :: weight) < 0" "\<not> sint (0 :: weight) < 0" by (simp_all add: w_pos_def)
  moreover have "zget x k = 0 \<or> zget x k = 1" "zget x' k = 0 \<or> zget x' k = 1" using u by (simp_all add: unit_weights_def)
  ultimately show ?thesis
    using d fold_admit_entry [of d ord s'] by (auto simp: delta_between_def)
qed

lemma topk_snapshot_fields:
  "tk_limit tk = limit \<Longrightarrow> tk_offset tk = start \<Longrightarrow> tk_order_by tk = ord \<Longrightarrow>
   topk_snapshot (topk_new limit start ord) s xs = topk_snapshot tk s xs"
  by (simp add: topk_snapshot_def topk_new_def Let_def)

lemma delta_topk:
  assumes ops: "entry_sets en" and d: "delta_between x x' d" and u: "unit_weights x" "unit_weights x'"
    and live: "live_in s x" "live_in s' x'" and m: "moves s s'"
    and tk: "window_ok s x tk" and fit: "tk_offset tk + tk_limit tk \<le> usize_max"
    and exact: "\<forall>k. key_exact (order_dirs (tk_order_by tk)) (compute_sort_key (tk_order_by tk) k s')"
    and r: "topk_step (en_ops en) s' tk [d] = (out, tk')" and nr: "\<not> topk_needs_rebuild tk'"
  shows "hm_wf out \<and> window_ok s' x' tk'
    \<and> tk_limit tk' = tk_limit tk \<and> tk_offset tk' = tk_offset tk \<and> tk_order_by tk' = tk_order_by tk
    \<and> zget out k = zget (topk_snapshot tk s' [x']) k - zget (topk_snapshot tk s [x]) k"
proof -
  let ?dirs = "order_dirs (tk_order_by tk)" and ?ord = "tk_order_by tk"
  let ?X = "\<lambda>k. if w_pos (zget x k) then Some (compute_sort_key ?ord k s) else None"
  let ?X' = "\<lambda>k. if w_pos (zget x' k) then Some (compute_sort_key ?ord k s') else None"
  have tb: "topk_buffer ?dirs (en_ops en)" using ops by (simp add: topk_buffer_def)
  have inv: "topk_inv ?dirs ?X tk" using tk by (simp add: window_ok_def)
  have tk': "tk' = fold (step_key (en_ops en) s') d tk" using r by (simp add: topk_step_def Let_def)
  have f: "tk_limit tk' = tk_limit tk" "tk_offset tk' = tk_offset tk" "tk_order_by tk' = tk_order_by tk"
    using topk_buffer.fold_step_fields [OF tb, of s' d tk] tk' by simp_all
  have "fold (admit_entry ?ord s') d ?X = ?X'" using admitted_after [OF d u live m] by (rule ext)
  then have inv': "topk_inv ?dirs ?X' tk'"
    using topk_buffer.fold_step_inv [OF tb inv, of s' d] exact tk' by (simp add: list_all_iff case_prod_beta)
  have wf: "hm_wf x" "hm_wf x'" using live by (simp_all add: live_in_def)
  have "zget (topk_snapshot tk s [x]) k = of_bool (k \<in> set (current_window tk))"
    using topk_buffer.snapshot_exact [OF tb inv wf(1)] fit tk by (simp add: window_ok_def)
  moreover have "topk_snapshot tk s' [x'] = topk_snapshot tk' s' [x']" using f by (simp add: topk_snapshot_def)
  moreover have "zget (topk_snapshot tk' s' [x']) k = of_bool (k \<in> set (current_window tk'))"
    using topk_buffer.snapshot_exact [OF tb inv' wf(2), of s' k] f fit nr by simp
  moreover have "window_ok s' x' tk'" using inv' nr unfolding window_ok_def f(3) by simp
  ultimately show ?thesis
    using topk_buffer.topk_step_out [OF tb inv, of ?X' s' "[d]"] inv' r f by simp
qed


subsection \<open>One pass over the nodes\<close>

definition stepped :: "node list \<Rightarrow> (zset \<times> operator) list \<Rightarrow> node list" where
  "stepped ns vs = map2 (\<lambda>n v. n\<lparr>nd_operator := snd v\<rparr>) ns vs"

lemma node_is_stepped:
  "i < length ns \<Longrightarrow> length vs = length ns \<Longrightarrow>
   node_is (stepped ns vs) i operator inputs \<longleftrightarrow> snd (vs ! i) = operator \<and> nd_inputs (ns ! i) = inputs"
  by (simp add: node_is_def stepped_def)

text \<open>
  What a pass does: sources emit the change of their table, the other operators are stepped on
  the new store, and no window is left too short.
\<close>

definition passes ::
  "engine \<Rightarrow> store \<Rightarrow> value option \<Rightarrow> (operator_plan \<Rightarrow> zset) \<Rightarrow> node list
    \<Rightarrow> (nat \<Rightarrow> operator \<Rightarrow> zset list \<Rightarrow> zset \<times> operator) \<Rightarrow> bool" where
  "passes en s' params W ns F \<longleftrightarrow>
     (\<forall>i t. delta_between (W (Scan t)) (scan_snapshot t s') (fst (F i (OpScan t) [])) \<and> snd (F i (OpScan t) []) = OpScan t)
     \<and> (\<forall>i operator ins. op_arity operator \<noteq> 0 \<longrightarrow> F i operator ins = op_step en s' params operator ins)
     \<and> (\<forall>i tk d. i < length ns \<longrightarrow> nd_operator (ns ! i) = OpTopK tk \<longrightarrow> hm_wf d
          \<longrightarrow> tk_offset tk + tk_limit tk \<le> usize_max
          \<longrightarrow> (\<forall>k. key_exact (order_dirs (tk_order_by tk)) (compute_sort_key (tk_order_by tk) k s'))
          \<longrightarrow> snd (node_values F ns ! i) = OpTopK (snd (topk_step (en_ops en) s' tk [d]))
          \<longrightarrow> \<not> topk_needs_rebuild (snd (topk_step (en_ops en) s' tk [d])))"

definition before_ok :: "store \<Rightarrow> (operator_plan \<Rightarrow> zset) \<Rightarrow> bool" where
  "before_ok s W \<longleftrightarrow> (\<forall>q. live_in s (W q) \<and> (unit_plan q \<longrightarrow> unit_weights (W q)))"

lemma passes_inner:
  assumes "passes en s' params W ns F" and "nodes_ok ns" and "i < length ns" and "node_is ns i operator inputs"
    and "op_arity operator \<noteq> 0"
  shows "node_values F ns ! i = op_step en s' params operator (map (\<lambda>a. fst (node_values F ns ! a)) inputs)"
  using node_values_nth [OF assms(2,3), of F] assms by (simp add: passes_def node_is_def)

lemma node_is_inputs:
  "nodes_ok ns \<Longrightarrow> i < length ns \<Longrightarrow> node_is ns i operator inputs \<Longrightarrow> a \<in> set inputs \<Longrightarrow> a < length ns"
  unfolding node_is_def nodes_ok_def by (meson order_less_trans)

definition pass_ok ::
  "engine \<Rightarrow> store \<Rightarrow> store \<Rightarrow> value option \<Rightarrow> (operator_plan \<Rightarrow> zset) \<Rightarrow> node list
    \<Rightarrow> (nat \<Rightarrow> operator \<Rightarrow> zset list \<Rightarrow> zset \<times> operator) \<Rightarrow> bool" where
  "pass_ok en s s' params W ns F \<longleftrightarrow>
     entry_sets en \<and> nodes_ok ns \<and> moves s s' \<and> store_live s' \<and> before_ok s W \<and> passes en s' params W ns F"

text \<open>The outcome at node \<open>i\<close> of plan \<open>p\<close>.\<close>

definition pass_done ::
  "engine \<Rightarrow> store \<Rightarrow> value option \<Rightarrow> (operator_plan \<Rightarrow> zset) \<Rightarrow> node list
    \<Rightarrow> (nat \<Rightarrow> operator \<Rightarrow> zset list \<Rightarrow> zset \<times> operator) \<Rightarrow> operator_plan \<Rightarrow> nat \<Rightarrow> bool" where
  "pass_done en s' params W ns F p i \<longleftrightarrow>
     delta_between (W p) (evaluate en s' params p) (fst (node_values F ns ! i))
     \<and> tree_ok en s' params (evaluate en s' params) (stepped ns (node_values F ns)) p i"

lemma pass_okD:
  assumes "pass_ok en s s' params W ns F"
  shows "entry_sets en" "nodes_ok ns" "moves s s'" "live_in s (W q)" "unit_plan q \<Longrightarrow> unit_weights (W q)"
    "live_in s' (evaluate en s' params q)" "unit_plan q \<Longrightarrow> unit_weights (evaluate en s' params q)"
    "passes en s' params W ns F" "memberships_ok s'"
  using assms live_evaluate unit_evaluate by (auto simp: pass_ok_def before_ok_def store_live_def)

lemma pass_scan:
  assumes P: "pass_ok en s s' params W ns F" and i: "i < length ns" and t: "tree_ok en s params W ns (Scan t) i"
  shows "pass_done en s' params W ns F (Scan t) i"
proof -
  have n: "node_is ns i (OpScan t) []" using t by simp
  have "node_values F ns ! i = F i (OpScan t) []"
    using node_values_nth [OF pass_okD(2) [OF P] i, of F] n by (simp add: node_is_def)
  then show ?thesis
    using pass_okD(8) [OF P] n i by (simp add: pass_done_def passes_def node_is_stepped op_snapshot_simps) (simp add: node_is_def)
qed

lemma pass_filter:
  assumes P: "pass_ok en s s' params W ns F" and i: "i < length ns" and t: "tree_ok en s params W ns (Filter p f) i"
    and IH: "\<And>a. a < length ns \<Longrightarrow> tree_ok en s params W ns p a \<Longrightarrow> pass_done en s' params W ns F p a"
  shows "pass_done en s' params W ns F (Filter p f) i"
proof -
  obtain a where n: "node_is ns i (OpFilter f) [a]" and "tree_ok en s params W ns p a" using t by auto
  then have a: "pass_done en s' params W ns F p a" using IH node_is_inputs [OF pass_okD(2) [OF P] i n] by simp
  have v: "node_values F ns ! i = (filter_step f s' params [fst (node_values F ns ! a)], OpFilter f)"
    using passes_inner [OF pass_okD(8,2) [OF P] i n] by (simp add: op_arity_def op_step_def)
  have "delta_between (W p) (evaluate en s' params p) (fst (node_values F ns ! a))" using a by (simp add: pass_done_def)
  note D = delta_filter [OF this pass_okD(4,3) [OF P]]
  show ?thesis
    using a v D t n i pass_okD(9) [OF P]
    by (auto simp: pass_done_def delta_between_def node_is_stepped zget_evaluate simp del: plan_output.simps) (simp_all add: node_is_def)
qed

lemma pass_project:
  assumes P: "pass_ok en s s' params W ns F" and i: "i < length ns" and t: "tree_ok en s params W ns (Project p ps) i"
    and IH: "\<And>a. a < length ns \<Longrightarrow> tree_ok en s params W ns p a \<Longrightarrow> pass_done en s' params W ns F p a"
  shows "pass_done en s' params W ns F (Project p ps) i"
proof -
  obtain a where n: "node_is ns i (OpMap ps) [a]" and "tree_ok en s params W ns p a" using t by auto
  then have a: "pass_done en s' params W ns F p a" using IH node_is_inputs [OF pass_okD(2) [OF P] i n] by simp
  have v: "node_values F ns ! i = (fst (node_values F ns ! a), OpMap ps)"
    using passes_inner [OF pass_okD(8,2) [OF P] i n] by (simp add: op_arity_def op_step_def map_step_def)
  show ?thesis
    using a v t n i pass_okD(9) [OF P]
    by (auto simp: pass_done_def delta_between_def node_is_stepped zget_evaluate simp del: plan_output.simps) (simp_all add: node_is_def)
qed

lemma pass_distinct:
  assumes P: "pass_ok en s s' params W ns F" and i: "i < length ns" and t: "tree_ok en s params W ns (Distinct p) i"
    and IH: "\<And>a. a < length ns \<Longrightarrow> tree_ok en s params W ns p a \<Longrightarrow> pass_done en s' params W ns F p a"
  shows "pass_done en s' params W ns F (Distinct p) i"
proof -
  obtain a z where n: "node_is ns i (OpDistinct z) [a]" and "tree_ok en s params W ns p a" and z: "hm_wf z" "zeq z (W p)"
    using t by auto
  then have a: "pass_done en s' params W ns F p a" using IH node_is_inputs [OF pass_okD(2) [OF P] i n] by simp
  obtain out z' where r: "distinct_step z [fst (node_values F ns ! a)] = (out, z')" by fastforce
  have v: "node_values F ns ! i = (out, OpDistinct z')"
    using passes_inner [OF pass_okD(8,2) [OF P] i n] r by (simp add: op_arity_def op_step_def)
  have "delta_between (W p) (evaluate en s' params p) (fst (node_values F ns ! a))" using a by (simp add: pass_done_def)
  note D = delta_distinct [OF this z r]
  have "node_is (stepped ns (node_values F ns)) i (OpDistinct z') [a]" using v n i by (simp add: node_is_stepped) (simp add: node_is_def)
  then show ?thesis
    using a v D t pass_okD(9) [OF P]
    by (auto simp: pass_done_def delta_between_def zget_evaluate simp del: plan_output.simps)
qed

lemma pass_union:
  assumes P: "pass_ok en s s' params W ns F" and i: "i < length ns" and t: "tree_ok en s params W ns (UnionPlan p q) i"
    and IH: "\<And>a. a < length ns \<Longrightarrow> tree_ok en s params W ns p a \<Longrightarrow> pass_done en s' params W ns F p a"
      "\<And>b. b < length ns \<Longrightarrow> tree_ok en s params W ns q b \<Longrightarrow> pass_done en s' params W ns F q b"
  shows "pass_done en s' params W ns F (UnionPlan p q) i"
proof -
  obtain a b where n: "node_is ns i OpUnion [a, b]" and "tree_ok en s params W ns p a" "tree_ok en s params W ns q b" using t by auto
  then have a: "pass_done en s' params W ns F p a" and b: "pass_done en s' params W ns F q b"
    using IH node_is_inputs [OF pass_okD(2) [OF P] i n] by simp_all
  have v: "node_values F ns ! i = (union_step [fst (node_values F ns ! a), fst (node_values F ns ! b)], OpUnion)"
    using passes_inner [OF pass_okD(8,2) [OF P] i n] by (simp add: op_arity_def op_step_def)
  have "node_is (stepped ns (node_values F ns)) i OpUnion [a, b]" using v n i by (simp add: node_is_stepped) (simp add: node_is_def)
  then show ?thesis
    using a b v t pass_okD(9) [OF P]
    by (auto simp: pass_done_def delta_between_def union_step_def union_snapshot_def zget_add zget_evaluate simp del: plan_output.simps)
qed

lemma witness_node:
  assumes P: "pass_ok en s s' params W ns F" and i: "i < length ns"
    and n: "node_is ns i (if anti then OpAntiJoin on st else OpSemiJoin on st) [a, b]"
    and st: "witness_inv (en_sip en) anti on s (W p) (W q) st" "ws_content_updates st = []"
    and a: "pass_done en s' params W ns F p a" and b: "pass_done en s' params W ns F q b"
  shows "\<exists>st'. hm_wf (fst (node_values F ns ! i))
    \<and> (\<forall>k. zget (fst (node_values F ns ! i)) k =
        of_bool (admitted (en_sip en) anti on s' (evaluate en s' params p) (evaluate en s' params q) k)
        - of_bool (admitted (en_sip en) anti on s (W p) (W q) k))
    \<and> node_is (stepped ns (node_values F ns)) i (if anti then OpAntiJoin on st' else OpSemiJoin on st') [a, b]
    \<and> witness_inv (en_sip en) anti on s' (evaluate en s' params p) (evaluate en s' params q) st' \<and> ws_content_updates st' = []"
proof -
  obtain out st' where r: "witness_step (en_sip en) anti on s' st [fst (node_values F ns ! a), fst (node_values F ns ! b)] = (out, st')"
    by fastforce
  have v: "node_values F ns ! i = (out, if anti then OpAntiJoin on st' else OpSemiJoin on st')"
    using passes_inner [OF pass_okD(8,2) [OF P] i n] r by (cases anti) (simp_all add: op_arity_def op_step_def)
  have d: "delta_between (W p) (evaluate en s' params p) (fst (node_values F ns ! a))"
    "delta_between (W q) (evaluate en s' params q) (fst (node_values F ns ! b))" using a b by (simp_all add: pass_done_def)
  note D = delta_witness [OF d pass_okD(4,4,6,6,3) [OF P] st r]
  have "node_is (stepped ns (node_values F ns)) i (if anti then OpAntiJoin on st' else OpSemiJoin on st') [a, b]"
    using v n i by (simp add: node_is_stepped) (simp add: node_is_def)
  then show ?thesis using v D by auto
qed

lemma pass_semi:
  assumes P: "pass_ok en s s' params W ns F" and i: "i < length ns" and t: "tree_ok en s params W ns (SemiJoin p q on) i"
    and IH: "\<And>a. a < length ns \<Longrightarrow> tree_ok en s params W ns p a \<Longrightarrow> pass_done en s' params W ns F p a"
      "\<And>b. b < length ns \<Longrightarrow> tree_ok en s params W ns q b \<Longrightarrow> pass_done en s' params W ns F q b"
  shows "pass_done en s' params W ns F (SemiJoin p q on) i"
proof -
  obtain a b st where n: "node_is ns i (OpSemiJoin on st) [a, b]" and "tree_ok en s params W ns p a" "tree_ok en s params W ns q b"
    and st: "witness_inv (en_sip en) False on s (W p) (W q) st" "ws_content_updates st = []" using t by auto
  then have ab: "pass_done en s' params W ns F p a" "pass_done en s' params W ns F q b"
    using IH node_is_inputs [OF pass_okD(2) [OF P] i n] by simp_all
  show ?thesis
    using witness_node [OF P i _ st ab] n ab t pass_okD(9) [OF P]
    by (auto simp: pass_done_def delta_between_def zget_evaluate simp del: plan_output.simps)
qed

lemma pass_anti:
  assumes P: "pass_ok en s s' params W ns F" and i: "i < length ns" and t: "tree_ok en s params W ns (AntiJoin p q on) i"
    and IH: "\<And>a. a < length ns \<Longrightarrow> tree_ok en s params W ns p a \<Longrightarrow> pass_done en s' params W ns F p a"
      "\<And>b. b < length ns \<Longrightarrow> tree_ok en s params W ns q b \<Longrightarrow> pass_done en s' params W ns F q b"
  shows "pass_done en s' params W ns F (AntiJoin p q on) i"
proof -
  obtain a b st where n: "node_is ns i (OpAntiJoin on st) [a, b]" and "tree_ok en s params W ns p a" "tree_ok en s params W ns q b"
    and st: "witness_inv (en_sip en) True on s (W p) (W q) st" "ws_content_updates st = []" using t by auto
  then have ab: "pass_done en s' params W ns F p a" "pass_done en s' params W ns F q b"
    using IH node_is_inputs [OF pass_okD(2) [OF P] i n] by simp_all
  show ?thesis
    using witness_node [OF P i _ st ab] n ab t pass_okD(9) [OF P]
    by (auto simp: pass_done_def delta_between_def zget_evaluate simp del: plan_output.simps)
qed


lemma pass_limit:
  assumes P: "pass_ok en s s' params W ns F" and i: "i < length ns" and t: "tree_ok en s params W ns (Limit p limit start ord) i"
    and IH: "\<And>a. a < length ns \<Longrightarrow> tree_ok en s params W ns p a \<Longrightarrow> pass_done en s' params W ns F p a"
    and u: "unit_plan p" and ex: "plan_exact s' (Limit p limit start ord)"
  shows "pass_done en s' params W ns F (Limit p limit start ord) i"
proof -
  obtain a tk where n: "node_is ns i (OpTopK tk) [a]" and "tree_ok en s params W ns p a" and w: "window_ok s (W p) tk"
    and f: "tk_limit tk = limit" "tk_offset tk = start" "tk_order_by tk = ord" using t by auto
  then have a: "pass_done en s' params W ns F p a" using IH node_is_inputs [OF pass_okD(2) [OF P] i n] by simp
  let ?d = "fst (node_values F ns ! a)"
  obtain out tk' where r: "topk_step (en_ops en) s' tk [?d] = (out, tk')" by fastforce
  have v: "node_values F ns ! i = (out, OpTopK tk')"
    using passes_inner [OF pass_okD(8,2) [OF P] i n] r by (simp add: op_arity_def op_step_def)
  have d: "delta_between (W p) (evaluate en s' params p) ?d" using a by (simp add: pass_done_def)
  have fit: "tk_offset tk + tk_limit tk \<le> usize_max" using ex f by simp
  have exact: "\<forall>k. key_exact (order_dirs (tk_order_by tk)) (compute_sort_key (tk_order_by tk) k s')"
    using ex f order_dirs_exact by auto
  have nr: "\<not> topk_needs_rebuild tk'"
    using pass_okD(8) [OF P] n i d fit exact v r unfolding passes_def node_is_def delta_between_def by (metis snd_conv)
  note D = delta_topk [OF pass_okD(1) [OF P] d pass_okD(5) [OF P u] pass_okD(7) [OF P u] pass_okD(4,6,3) [OF P] w fit exact r nr]
  have "node_is (stepped ns (node_values F ns)) i (OpTopK tk') [a]" using v n i by (simp add: node_is_stepped) (simp add: node_is_def)
  then show ?thesis
    using a v D t f
    by (auto simp: pass_done_def delta_between_def topk_snapshot_fields [OF f] op_snapshot_simps)
qed

lemma pass_plan:
  assumes P: "pass_ok en s s' params W ns F"
  shows "steady_plan p \<Longrightarrow> plan_exact s' p \<Longrightarrow> i < length ns \<Longrightarrow> tree_ok en s params W ns p i \<Longrightarrow> pass_done en s' params W ns F p i"
proof (induction p arbitrary: i rule: plan_induct)
  case (Scan table)
  then show ?case using pass_scan [OF P] by simp
next
  case (Filter p f)
  show ?case by (rule pass_filter [OF P Filter.prems(3,4)]) (use Filter in simp)
next
  case (Project p ps)
  show ?case by (rule pass_project [OF P Project.prems(3,4)]) (use Project.IH(1) Project.prems in simp)
next
  case (Distinct p)
  show ?case by (rule pass_distinct [OF P Distinct.prems(3,4)]) (use Distinct in simp)
next
  case (UnionPlan p q)
  show ?case by (rule pass_union [OF P UnionPlan.prems(3,4)]) (use UnionPlan in simp_all)
next
  case (SemiJoin p q on)
  show ?case by (rule pass_semi [OF P SemiJoin.prems(3,4)]) (use SemiJoin in simp_all)
next
  case (AntiJoin p q on)
  show ?case by (rule pass_anti [OF P AntiJoin.prems(3,4)]) (use AntiJoin in simp_all)
next
  case (Limit p limit start ord)
  show ?case by (rule pass_limit [OF P Limit.prems(3,4) _ _ Limit.prems(2)]) (use Limit in simp_all)
qed simp_all

subsection \<open>Fresh graphs\<close>

definition fresh_operator :: "operator \<Rightarrow> bool" where
  "fresh_operator operator =
     (case operator of OpTopK tk \<Rightarrow> (\<exists>limit start ord. tk = topk_new limit start ord) | _ \<Rightarrow> True)"

definition fresh_nodes :: "node list \<Rightarrow> bool" where
  "fresh_nodes ns = list_all (\<lambda>n. fresh_operator (nd_operator n)) ns"

lemma fresh_push: "fresh_nodes ns \<Longrightarrow> fresh_operator operator \<Longrightarrow> push_node operator as ns = (i, ns') \<Longrightarrow> fresh_nodes ns'"
  by (auto simp: fresh_nodes_def push_node_def Let_def)

lemma fresh_unary:
  assumes "(let (a, nodes1, si1) = build_node p ns si; (i, nodes2) = push_node operator [a] nodes1
      in (i, nodes2, si1)) = (i, ns', si')"
    and "\<And>a ns1 si1. build_node p ns si = (a, ns1, si1) \<Longrightarrow> fresh_nodes ns1" and "fresh_operator operator"
  shows "fresh_nodes ns'"
proof -
  obtain a ns1 si1 where a: "build_node p ns si = (a, ns1, si1)" by (metis prod_cases3)
  then show ?thesis using assms(1) fresh_push [OF assms(2) [OF a] assms(3)] by (auto split: prod.splits)
qed

lemma fresh_binary:
  assumes "(let (a, nodes1, si1) = build_node p ns si; (b, nodes2, si2) = build_node q nodes1 si1;
          (i, nodes3) = push_node operator [a, b] nodes2 in (i, nodes3, si2)) = (i, ns', si')"
    and "\<And>a ns1 si1. build_node p ns si = (a, ns1, si1) \<Longrightarrow> fresh_nodes ns1"
    and "\<And>ns si b ns2 si2. fresh_nodes ns \<Longrightarrow> build_node q ns si = (b, ns2, si2) \<Longrightarrow> fresh_nodes ns2"
    and "fresh_operator operator"
  shows "fresh_nodes ns'"
proof -
  obtain a ns1 si1 where a: "build_node p ns si = (a, ns1, si1)" by (metis prod_cases3)
  obtain b ns2 si2 where b: "build_node q ns1 si1 = (b, ns2, si2)" by (metis prod_cases3)
  show ?thesis using assms(1) a b fresh_push [OF assms(3) [OF assms(2) [OF a] b] assms(4)] by (auto split: prod.splits)
qed

lemma fresh_build: "fresh_nodes ns \<Longrightarrow> build_node p ns si = (i, ns', si') \<Longrightarrow> fresh_nodes ns'"
proof (induction p arbitrary: ns si i ns' si' rule: plan_induct)
  case (Scan t)
  then show ?case using fresh_push [of ns "OpScan t" "[]"] by (auto simp: fresh_operator_def split: prod.splits)
next
  case (Filter p f)
  show ?case
    by (rule fresh_unary [OF Filter.prems(2) [unfolded build_node.simps] Filter.IH [OF Filter.prems(1)]]) (auto simp: fresh_operator_def)
next
  case (Distinct p)
  show ?case
    by (rule fresh_unary [OF Distinct.prems(2) [unfolded build_node.simps] Distinct.IH [OF Distinct.prems(1)]]) (auto simp: fresh_operator_def)
next
  case (Project p ps)
  show ?case
    by (rule fresh_unary [OF Project.prems(2) [unfolded build_node.simps] Project.IH(1) [OF Project.prems(1)]]) (auto simp: fresh_operator_def)
next
  case (Limit p l st ord)
  show ?case
    by (rule fresh_unary [OF Limit.prems(2) [unfolded build_node.simps] Limit.IH [OF Limit.prems(1)]]) (auto simp: fresh_operator_def)
next
  case (Join p q on)
  show ?case
    by (rule fresh_binary [OF Join.prems(2) [unfolded build_node.simps] Join.IH(1) [OF Join.prems(1)] Join.IH(2)]) (simp_all add: fresh_operator_def)
next
  case (SemiJoin p q on)
  show ?case
    by (rule fresh_binary [OF SemiJoin.prems(2) [unfolded build_node.simps] SemiJoin.IH(1) [OF SemiJoin.prems(1)] SemiJoin.IH(2)]) (simp_all add: fresh_operator_def)
next
  case (AntiJoin p q on)
  show ?case
    by (rule fresh_binary [OF AntiJoin.prems(2) [unfolded build_node.simps] AntiJoin.IH(1) [OF AntiJoin.prems(1)] AntiJoin.IH(2)]) (simp_all add: fresh_operator_def)
next
  case (UnionPlan p q)
  show ?case
    by (rule fresh_binary [OF UnionPlan.prems(2) [unfolded build_node.simps] UnionPlan.IH(1) [OF UnionPlan.prems(1)] UnionPlan.IH(2)]) (simp_all add: fresh_operator_def)
qed simp_all

lemma node_is_prefix: "take (length ns) ns' = ns \<Longrightarrow> i < length ns \<Longrightarrow> node_is ns' i = node_is ns i"
proof -
  assume "take (length ns) ns' = ns" and "i < length ns"
  then have "ns' ! i = ns ! i" by (metis nth_take)
  then show ?thesis by (simp add: node_is_def fun_eq_iff)
qed

lemma tree_ok_prefix:
  assumes ok: "nodes_ok ns" and pre: "take (length ns) ns' = ns"
  shows "i < length ns \<Longrightarrow> tree_ok en s params W ns p i \<Longrightarrow> tree_ok en s params W ns' p i"
proof (induction p arbitrary: i rule: plan_induct)
qed (use node_is_prefix [OF pre] node_is_inputs [OF ok] in \<open>simp_all, (metis list.set_intros)+\<close>)

lemma window_ok_new: "window_ok s [] (topk_new limit start ord)"
  using topk_inv_new [of _ limit start ord] by (simp add: window_ok_def w_pos_def topk_needs_rebuild_def) (simp add: topk_new_def Let_def)

lemma zget_topk_snapshot_empty [simp]: "zget (topk_snapshot tk s [[]]) k = 0"
  by (simp add: topk_snapshot_def cmp_sort_def)

lemma tree_unary:
  assumes eq: "(let (a, nodes1, si1) = build_node p ns si; (i, nodes2) = push_node operator [a] nodes1
      in (i, nodes2, si1)) = (i, ns', si')"
    and ok: "nodes_ok ns"
    and IH: "\<And>a ns1 si1. build_node p ns si = (a, ns1, si1) \<Longrightarrow> tree_ok en s params W ns1 p a"
  shows "\<exists>a. node_is ns' i operator [a] \<and> tree_ok en s params W ns' p a"
proof -
  obtain a ns1 si1 where a: "build_node p ns si = (a, ns1, si1)" by (metis prod_cases3)
  then obtain j ns2 where push: "push_node operator [a] ns1 = (j, ns2)" and i: "i = j" "ns' = ns2"
    using eq by (auto split: prod.splits)
  have A: "built ns a ns1" using built_node [OF ok a] .
  note P = built_push [OF A push]
  have "a < length ns1" "nodes_ok ns1" using A by (simp_all add: built_def)
  then show ?thesis using tree_ok_prefix [OF _ P(2) _ IH [OF a]] P(3,4) i by (auto simp: node_is_def)
qed

lemma tree_binary:
  assumes eq: "(let (a, nodes1, si1) = build_node p ns si; (b, nodes2, si2) = build_node q nodes1 si1;
          (i, nodes3) = push_node operator [a, b] nodes2 in (i, nodes3, si2)) = (i, ns', si')"
    and ok: "nodes_ok ns"
    and IH1: "\<And>a ns1 si1. build_node p ns si = (a, ns1, si1) \<Longrightarrow> tree_ok en s params W ns1 p a"
    and IH2: "\<And>ns si b ns2 si2. nodes_ok ns \<Longrightarrow> build_node q ns si = (b, ns2, si2) \<Longrightarrow> tree_ok en s params W ns2 q b"
  shows "\<exists>a b. node_is ns' i operator [a, b] \<and> tree_ok en s params W ns' p a \<and> tree_ok en s params W ns' q b"
proof -
  obtain a ns1 si1 where a: "build_node p ns si = (a, ns1, si1)" by (metis prod_cases3)
  obtain b ns2 si2 where b: "build_node q ns1 si1 = (b, ns2, si2)" by (metis prod_cases3)
  obtain j ns3 where push: "push_node operator [a, b] ns2 = (j, ns3)" and i: "i = j" "ns' = ns3"
    using eq a b by (auto split: prod.splits)
  have A: "built ns a ns1" using built_node [OF ok a] .
  have B: "built ns1 b ns2" using built_node [OF built_ok [OF A] b] .
  note P = built_push2 [OF A B push]
  have l: "a < length ns1" "nodes_ok ns1" "b < length ns2" "nodes_ok ns2" "take (length ns1) ns2 = ns1" "a < length ns2"
    using A B by (simp_all add: built_def)
  have "tree_ok en s params W ns2 p a" using tree_ok_prefix [OF l(2,5,1) IH1 [OF a]] .
  then show ?thesis
    using tree_ok_prefix [OF l(4) P(2)] l(3,6) IH2 [OF l(2) b] P(3,4) i by (auto simp: node_is_def)
qed

lemma witness_new_updates: "ws_content_updates witness_new = []"
  by (simp add: witness_new_def)

lemma tree_built:
  "steady_plan p \<Longrightarrow> nodes_ok ns \<Longrightarrow> build_node p ns si = (i, ns', si') \<Longrightarrow> tree_ok en s params (\<lambda>_. []) ns' p i"
proof (induction p arbitrary: ns si i ns' si' rule: plan_induct)
  case (Scan t)
  then show ?case using nodes_ok_push [OF Scan(2), of "[]" "OpScan t"] by (auto simp: node_is_def split: prod.splits)
next
  case (Filter p f)
  show ?case using tree_unary [OF Filter.prems(3) [unfolded build_node.simps] Filter.prems(2) Filter.IH] Filter.prems by simp
next
  case (Project p ps)
  show ?case using tree_unary [OF Project.prems(3) [unfolded build_node.simps] Project.prems(2) Project.IH(1)] Project.prems by simp
next
  case (Distinct p)
  then have "\<exists>a. node_is ns' i (OpDistinct []) [a] \<and> tree_ok en s params (\<lambda>_. []) ns' p a"
    using tree_unary [OF Distinct.prems(3) [unfolded build_node.simps] Distinct.prems(2) Distinct.IH] by simp
  then obtain a where t: "node_is ns' i (OpDistinct []) [a]" "tree_ok en s params (\<lambda>_. []) ns' p a" by blast
  show ?case unfolding tree_ok.simps
    by (intro conjI exI [of _ a] exI [of _ "[]"] allI t) (simp_all add: zeq_def w_pos_def)
next
  case (UnionPlan p q)
  show ?case
    using tree_binary [OF UnionPlan.prems(3) [unfolded build_node.simps] UnionPlan.prems(2) UnionPlan.IH] UnionPlan.prems by simp
next
  case (SemiJoin p q on)
  then have t: "\<exists>a b. node_is ns' i (OpSemiJoin on witness_new) [a, b] \<and> tree_ok en s params (\<lambda>_. []) ns' p a \<and> tree_ok en s params (\<lambda>_. []) ns' q b"
    using tree_binary [OF SemiJoin.prems(3) [unfolded build_node.simps] SemiJoin.prems(2) SemiJoin.IH] by simp
  show ?case
    unfolding tree_ok.simps using t witness_inv_new witness_new_updates by (intro conjI) (blast, simp add: admitted_def w_pos_def)
next
  case (AntiJoin p q on)
  then have t: "\<exists>a b. node_is ns' i (OpAntiJoin on witness_new) [a, b] \<and> tree_ok en s params (\<lambda>_. []) ns' p a \<and> tree_ok en s params (\<lambda>_. []) ns' q b"
    using tree_binary [OF AntiJoin.prems(3) [unfolded build_node.simps] AntiJoin.prems(2) AntiJoin.IH] by simp
  show ?case
    unfolding tree_ok.simps using t witness_inv_new witness_new_updates by (intro conjI) (blast, simp add: admitted_def w_pos_def)
next
  case (Limit p limit start ord)
  then have t: "\<exists>a. node_is ns' i (OpTopK (topk_new limit start ord)) [a] \<and> tree_ok en s params (\<lambda>_. []) ns' p a"
    using tree_unary [OF Limit.prems(3) [unfolded build_node.simps] Limit.prems(2) Limit.IH] by simp
  have "tk_limit (topk_new limit start ord) = limit" "tk_offset (topk_new limit start ord) = start"
    "tk_order_by (topk_new limit start ord) = ord" by (simp_all add: topk_new_def Let_def)
  then show ?case unfolding tree_ok.simps using t window_ok_new by (intro conjI) (blast, simp)
qed simp_all


subsection \<open>Priming a graph\<close>

definition graph_for :: "engine \<Rightarrow> store \<Rightarrow> value option \<Rightarrow> operator_plan \<Rightarrow> graph \<Rightarrow> bool" where
  "graph_for en s params p g \<longleftrightarrow> graph_ok g
     \<and> tree_ok en s params (evaluate en s params) (gr_nodes g) p (gr_output_node g)"

lemma before_ok_empty: "before_ok s (\<lambda>_. [])"
  by (simp add: before_ok_def live_in_def unit_weights_def)

lemma before_ok_evaluate: "store_live s \<Longrightarrow> before_ok s (evaluate en s params)"
  by (simp add: before_ok_def live_evaluate unit_evaluate)

lemma moves_refl: "moves s s"
  by (simp add: moves_def)

lemma passes_prime:
  assumes "entry_sets en" and "store_live s" and "fresh_nodes ns"
  shows "passes en s params (\<lambda>_. []) ns (prime_node en s params)"
  unfolding passes_def
proof (intro conjI allI impI)
  fix i t
  show "delta_between [] (scan_snapshot t s) (fst (prime_node en s params i (OpScan t) []))"
    using assms(2) hm_wf_scan first_step_simps(1) [of en s params t]
    by (simp add: delta_between_def store_live_def prime_node_def)
  show "snd (prime_node en s params i (OpScan t) []) = OpScan t"
    by (simp add: prime_node_def op_arity_def op_step_def)
next
  fix i tk and d :: zset
  assume i: "i < length ns" "nd_operator (ns ! i) = OpTopK tk" and d: "hm_wf d" "tk_offset tk + tk_limit tk \<le> usize_max"
    and ex: "\<forall>k. key_exact (order_dirs (tk_order_by tk)) (compute_sort_key (tk_order_by tk) k s)"
  have "fresh_operator (nd_operator (ns ! i))" using assms(3) i(1) by (auto simp: fresh_nodes_def list_all_length)
  then obtain limit start ord where tk: "tk = topk_new limit start ord" using i(2) by (auto simp: fresh_operator_def)
  have f: "tk_limit tk = limit" "tk_offset tk = start" "tk_order_by tk = ord" by (simp_all add: tk topk_new_def Let_def)
  have "topk_buffer (order_dirs ord) (en_ops en)" using assms(1) by (simp add: topk_buffer_def)
  from topk_buffer.prime_topk(3) [OF this d(1) _ _ d(1), of ord s start limit] ex d(2) f
  show "\<not> topk_needs_rebuild (snd (topk_step (en_ops en) s tk [d]))" by (simp add: tk zeq_def)
qed (simp add: prime_node_def)

lemma run_pass:
  assumes "graph_ok g" and "pass_ok en s s' params W (gr_nodes g) F" and "steady_plan p" and "plan_exact s' p"
    and "tree_ok en s params W (gr_nodes g) p (gr_output_node g)"
  shows "\<exists>out. run_nodes F (gr_topo_order g) (gr_nodes g) (replicate (length (gr_nodes g)) None) =
      Ret (stepped (gr_nodes g) (node_values F (gr_nodes g)), map (Some \<circ> fst) (node_values F (gr_nodes g)))
    \<and> map (Some \<circ> fst) (node_values F (gr_nodes g)) ! gr_output_node g = Some out
    \<and> delta_between (W p) (evaluate en s' params p) out
    \<and> graph_for en s' params p (g\<lparr>gr_nodes := stepped (gr_nodes g) (node_values F (gr_nodes g))\<rparr>)"
proof -
  have i: "gr_output_node g < length (gr_nodes g)" using assms(1) by (simp add: graph_ok_def)
  have "pass_done en s' params W (gr_nodes g) F p (gr_output_node g)"
    by (rule pass_plan [OF assms(2-4) i assms(5)])
  moreover have "graph_ok (g\<lparr>gr_nodes := stepped (gr_nodes g) (node_values F (gr_nodes g))\<rparr>)"
    by (rule same_wiring_graph_ok [OF assms(1)]) (simp add: stepped_def same_wiring_map2)
  ultimately show ?thesis
    using run_nodes_result [of "gr_nodes g" "gr_topo_order g" F] assms(1) i
    by (simp add: graph_ok_def graph_for_def pass_done_def stepped_def)
qed

lemma prime_graph_for:
  assumes en: "entry_sets en" and s: "store_live s" and p: "steady_plan p" "plan_exact s p" and g: "from_plan p = Ret g"
  shows "\<exists>out g'. prime_graph en s params g = Ret (Some out, g') \<and> graph_for en s params p g'
    \<and> hm_wf out \<and> (\<forall>k. zget out k = zget (evaluate en s params p) k)"
proof -
  have G: "graph_ok g" using from_plan_returns [of p] g by (metis outcome.inject)
  have b: "build_node p [] [] = (gr_output_node g, gr_nodes g, gr_scan_index g)"
    using from_plan_ok [of p] g by (metis outcome.inject)
  have "fresh_nodes (gr_nodes g)" using fresh_build [OF _ b] by (simp add: fresh_nodes_def)
  then have P: "pass_ok en s s params (\<lambda>_. []) (gr_nodes g) (prime_node en s params)"
    using G en s passes_prime [OF en s] by (simp add: pass_ok_def graph_ok_def moves_refl before_ok_empty)
  have "tree_ok en s params (\<lambda>_. []) (gr_nodes g) p (gr_output_node g)" by (rule tree_built [OF p(1) nodes_ok_Nil b])
  from run_pass [OF G P p this] G show ?thesis
    by (auto simp: prime_graph_def delta_between_def graph_ok_def)
qed


end
