(* ===== verification/Row_Batches.thy ===== *)
theory Row_Batches
  imports Maintenance
begin

section \<open>What a batch does to the rows\<close>

text \<open>
  The first phase of \<^verbatim>\<open>Circuit::step_timed\<close> seen from the queries: over a batch that names every
  row at most once and changes no row in place, the tables' deltas are the changes of membership,
  every row that was there and stays reads as before, and every row that left still reads as
  before where the filters look (\<^verbatim>\<open>get_row_by_key_or_deleted\<close>).
\<close>

definition stored_row :: "store \<Rightarrow> row_key \<Rightarrow> value option" where
  "stored_row s k =
     (case parse_key k of
        None \<Rightarrow> None
      | Some (t, i) \<Rightarrow>
          (case hm_get (sto_collections s) t of None \<Rightarrow> None | Some c \<Rightarrow> map_option fst (hm_get (co_rows c) i)))"

definition store_good :: "codec \<Rightarrow> store \<Rightarrow> bool" where
  "store_good cdc s \<longleftrightarrow> (\<forall>t c. hm_get (sto_collections s) t = Some c \<longrightarrow>
     coll_inv cdc c \<and> co_name c = t \<and> (\<forall>i. hm_contains (co_rows c) i \<longrightarrow> CHR '':'' \<notin> set i))"

lemma parse_key_colon: "parse_key k = Some (t, i) \<Longrightarrow> CHR '':'' \<in> set k"
  by (auto dest!: parse_key_row_key simp: row_key_of_def)

lemma get_row_by_key_stored:
  assumes "store_good cdc s"
  shows "get_row_by_key s k = from_opt (stored_row s k)"
proof (cases "parse_key k")
  case (Some ti)
  obtain t i where ti: "ti = (t, i)" by (cases ti)
  show ?thesis
  proof (cases "hm_get (sto_collections s) t")
    case c: (Some c)
    have "\<not> hm_contains (co_rows c) k"
      using assms c parse_key_colon [OF Some [unfolded ti]] by (auto simp: store_good_def)
    then have "hm_get (co_rows c) k = None" by (cases "hm_get (co_rows c) k") (simp_all add: hm_contains_def)
    then show ?thesis using Some ti c by (simp add: get_row_by_key_def stored_row_def rt_get_def Let_def)
  qed (simp add: get_row_by_key_def stored_row_def Some ti)
qed (simp add: get_row_by_key_def stored_row_def)

lemma row_present_stored: "store_good cdc s \<Longrightarrow> row_present_in s k \<longleftrightarrow> stored_row s k \<noteq> None"
  by (simp add: row_present_in_def get_row_by_key_stored)

definition of_table :: "string \<Rightarrow> row_key \<Rightarrow> bool" where
  "of_table t k \<longleftrightarrow> (\<exists>i. parse_key k = Some (t, i))"

lemma zget_scan:
  assumes "store_good cdc s"
  shows "zget (scan_snapshot t s) k = of_bool (of_table t k \<and> stored_row s k \<noteq> None)"
proof (cases "hm_get (sto_collections s) t")
  case None
  then show ?thesis by (auto simp: scan_snapshot_def of_table_def stored_row_def)
next
  case (Some c)
  then have c: "membership_ok c" "name_ok c" "co_name c = t" using assms by (simp_all add: store_good_def coll_inv_def)
  have "zget (fst (membership c)) k = mem_weight c k"
    using membership_spec [OF c(1,2), of "fst (membership c)" "snd (membership c)"] by simp
  then show ?thesis
    using Some c(3) by (auto simp: scan_snapshot_def of_table_def stored_row_def mem_weight_def hm_contains_def not_None_eq [symmetric]
        simp del: not_None_eq not_Some_eq split: option.splits)
qed

lemma memberships_good: "store_good cdc s \<Longrightarrow> memberships_ok s"
  by (simp add: store_good_def memberships_ok_def coll_inv_def)

lemma store_live_good: "store_good cdc s \<Longrightarrow> store_live s"
  by (simp add: store_live_def memberships_good zget_scan row_present_stored)

subsection \<open>One change\<close>

definition change_key :: "change \<Rightarrow> row_key" where
  "change_key ch = make_key (ch_table ch) (ch_id ch)"

definition plain_change :: "change \<Rightarrow> bool" where
  "plain_change ch \<longleftrightarrow> CHR '':'' \<notin> set (ch_table ch) \<and> CHR '':'' \<notin> set (raw_id (ch_id ch))"

lemma plain_change_key: "plain_change ch \<Longrightarrow> parse_key (change_key ch) = Some (ch_table ch, raw_id (ch_id ch))"
  by (simp add: plain_change_def change_key_def)

lemma collection_apply_rows:
  assumes "collection_apply cdc ops op i v c = (a, c')"
  shows "ap_key a = make_key (co_name c) i" "co_name c' = co_name c"
    "j \<noteq> raw_id i \<Longrightarrow> hm_get (co_rows c') j = hm_get (co_rows c) j"
    "\<not> ap_content_changed a \<Longrightarrow> c' = c"
    "ap_weight a = of_bool (hm_contains (co_rows c') (raw_id i)) - of_bool (hm_contains (co_rows c) (raw_id i))"
    "\<not> hm_contains (co_rows c') (raw_id i) \<Longrightarrow> hm_contains (co_rows c) (raw_id i) \<Longrightarrow> op = OpDelete"
  using assms by (auto simp: collection_apply_def Let_def split: if_splits)

lemma apply_owned_rows:
  assumes good: "store_good cdc s" and cdc: "codec_ok cdc" and t: "CHR '':'' \<notin> set t" "CHR '':'' \<notin> set (raw_id i)"
    and r: "apply_owned cdc ops t op i v s = (a, s')"
  shows "ap_key a = make_key t i" "store_good cdc s'" "sto_pending_deleted s' = sto_pending_deleted s"
    "k \<noteq> make_key t i \<Longrightarrow> stored_row s' k = stored_row s k"
    "\<not> ap_content_changed a \<Longrightarrow> stored_row s' k = stored_row s k"
    "ap_weight a = of_bool (stored_row s' (make_key t i) \<noteq> None) - of_bool (stored_row s (make_key t i) \<noteq> None)"
    "stored_row s' (make_key t i) = None \<Longrightarrow> stored_row s (make_key t i) \<noteq> None \<Longrightarrow> op = OpDelete"
proof -
  define c where "c = (case hm_get (sto_collections s) t of Some c \<Rightarrow> c | None \<Rightarrow> collection_new t)"
  obtain c' where ca: "collection_apply cdc ops op i v c = (a, c')"
    and s': "sto_collections s' = hm_insert t c' (if hm_get (sto_collections s) t = None
        then hm_insert t c (sto_collections s) else sto_collections s)"
      "sto_pending_deleted s' = sto_pending_deleted s"
    using r by (auto simp: apply_owned_def ensure_collection_def c_def split: option.splits prod.splits)
  note R = collection_apply_rows [OF ca]
  have new: "co_rows (collection_new t) = []" "co_name (collection_new t) = t"
    by (simp_all add: collection_new_def collection_from_rows_def)
  have c: "coll_inv cdc c" "co_name c = t" "\<And>j. hm_contains (co_rows c) j \<Longrightarrow> CHR '':'' \<notin> set j"
    using good t(1) new by (auto simp: store_good_def c_def hm_contains_def split: option.splits)
  have at: "stored_row s (row_key_of t j) = map_option fst (hm_get (co_rows c) j)"
    "stored_row s' (row_key_of t j) = map_option fst (hm_get (co_rows c') j)" for j
    using t(1) s'(1) new(1) by (auto simp: stored_row_def c_def split: option.splits)
  have get': "hm_get (sto_collections s') u = (if u = t then Some c' else hm_get (sto_collections s) u)" for u
    using s'(1) by auto
  show "ap_key a = make_key t i" "sto_pending_deleted s' = sto_pending_deleted s" using R(1) c(2) s'(2) by simp_all
  have "hm_contains (co_rows c') j \<Longrightarrow> CHR '':'' \<notin> set j" for j
    using R(3) [of j] c(3) [of j] t(2) by (cases "j = raw_id i") (auto simp: hm_contains_def)
  then show "store_good cdc s'"
    using good get' coll_inv_apply [OF cdc c(1), of ops op i v] ca R(2) c(2) by (auto simp: store_good_def)
  have other: "stored_row s' k = stored_row s k" if "\<And>j. k = row_key_of t j \<Longrightarrow> hm_get (co_rows c') j = hm_get (co_rows c) j"
  proof (cases "of_table t k")
    case True
    then obtain j where "k = row_key_of t j" using parse_key_row_key by (auto simp: of_table_def)
    then show ?thesis using at that by simp
  next
    case False
    then show ?thesis using get' by (auto simp: stored_row_def of_table_def split: option.splits)
  qed
  show "stored_row s' k = stored_row s k" if "k \<noteq> make_key t i"
    by (rule other) (use R(3) that in \<open>auto simp: make_key_row_key_of row_key_of_inj\<close>)
  show "stored_row s' k = stored_row s k" if "\<not> ap_content_changed a"
    by (rule other) (use R(4) that in simp)
  show "ap_weight a = of_bool (stored_row s' (make_key t i) \<noteq> None) - of_bool (stored_row s (make_key t i) \<noteq> None)"
    using R(5) at [of "raw_id i"] by (simp add: make_key_row_key_of hm_contains_def split: option.splits)
  show "op = OpDelete" if "stored_row s' (make_key t i) = None" "stored_row s (make_key t i) \<noteq> None"
    using R(6) at [of "raw_id i"] that by (simp add: make_key_row_key_of hm_contains_def split: option.splits)
qed

lemma stored_row_pending [simp]: "stored_row (s\<lparr>sto_pending_deleted := pd\<rparr>) = stored_row s"
  by (rule ext) (simp add: stored_row_def split: option.splits)

lemma store_good_pending [simp]: "store_good cdc (s\<lparr>sto_pending_deleted := pd\<rparr>) = store_good cdc s"
  by (simp add: store_good_def)

lemma stage_deleted_rows:
  assumes "store_good cdc s"
  shows "\<exists>pd. stage_deleted_row t i s = s\<lparr>sto_pending_deleted := pd\<rparr>
    \<and> (\<forall>k. hm_get pd k = (if k = make_key t i \<and> stored_row s k \<noteq> None then stored_row s k else hm_get (sto_pending_deleted s) k))"
proof (cases "stored_row s (make_key t i)")
  case None
  then show ?thesis
    using assms by (intro exI [of _ "sto_pending_deleted s"]) (simp add: stage_deleted_row_def get_row_by_key_stored Let_def)
next
  case (Some v)
  then show ?thesis
    using assms by (intro exI [of _ "hm_insert (make_key t i) v (sto_pending_deleted s)"])
      (auto simp: stage_deleted_row_def get_row_by_key_stored Let_def)
qed

lemma floor_row_version_store: "ci_store (snd (floor_row_version t i v c)) = ci_store c"
  by (simp add: floor_row_version_def Let_def split: option.splits)

lemma write_change_owned:
  "\<exists>v c2. ci_store c2 = (if ch_op ch = OpDelete then stage_deleted_row (ch_table ch) (ch_id ch) (ci_store c) else ci_store c)
    \<and> write_change cdc ops ch c =
       (case apply_owned cdc ops (ch_table ch) (ch_op ch) (ch_id ch) v (ci_store c2) of (a, s) \<Rightarrow> (a, c2\<lparr>ci_store := s\<rparr>))"
proof -
  let ?c1 = "if ch_op ch = OpDelete then c\<lparr>ci_store := stage_deleted_row (ch_table ch) (ch_id ch) (ci_store c)\<rparr> else c"
  let ?data1 = "strip_opaque (hm_entry (ci_opaque_fields ?c1) (ch_table ch)) (ch_data ch)"
  let ?r = "if ci_monotonic_row_versions ?c1 \<and> ch_op ch \<in> {OpCreate, OpUpdate}
    then floor_row_version (ch_table ch) (ch_id ch) ?data1 ?c1 else (?data1, ?c1)"
  have "ci_store (snd ?r) = (if ch_op ch = OpDelete then stage_deleted_row (ch_table ch) (ch_id ch) (ci_store c) else ci_store c)"
    by (simp add: floor_row_version_store)
  moreover have "write_change cdc ops ch c =
      (case apply_owned cdc ops (ch_table ch) (ch_op ch) (ch_id ch) (fst ?r) (ci_store (snd ?r)) of (a, s) \<Rightarrow> (a, (snd ?r)\<lparr>ci_store := s\<rparr>))"
    unfolding write_change_def Let_def by (simp only: case_prod_beta)
  ultimately show ?thesis by blast
qed

lemma write_change_rows:
  assumes good: "store_good cdc (ci_store c)" and cdc: "codec_ok cdc" and ch: "plain_change ch"
    and r: "write_change cdc ops ch c = (a, c')"
  defines "s \<equiv> ci_store c" and "s' \<equiv> ci_store c'" and "key \<equiv> change_key ch"
  shows "ap_key a = key" "store_good cdc s'"
    "k \<noteq> key \<Longrightarrow> stored_row s' k = stored_row s k \<and> hm_get (sto_pending_deleted s') k = hm_get (sto_pending_deleted s) k"
    "\<not> ap_content_changed a \<Longrightarrow> stored_row s' k = stored_row s k"
    "ap_weight a = of_bool (stored_row s' key \<noteq> None) - of_bool (stored_row s key \<noteq> None)"
    "stored_row s key = Some v \<Longrightarrow> stored_row s' key = None \<Longrightarrow> hm_get (sto_pending_deleted s') key = Some v"
proof -
  obtain w c2 s2 where c2: "ci_store c2 = (if ch_op ch = OpDelete then stage_deleted_row (ch_table ch) (ch_id ch) s else s)"
    and ao: "apply_owned cdc ops (ch_table ch) (ch_op ch) (ch_id ch) w (ci_store c2) = (a, s2)" and c': "c' = c2\<lparr>ci_store := s2\<rparr>"
  proof -
    obtain w c2 where w: "ci_store c2 = (if ch_op ch = OpDelete then stage_deleted_row (ch_table ch) (ch_id ch) s else s)"
      "write_change cdc ops ch c =
       (case apply_owned cdc ops (ch_table ch) (ch_op ch) (ch_id ch) w (ci_store c2) of (a, s) \<Rightarrow> (a, c2\<lparr>ci_store := s\<rparr>))"
      using write_change_owned [of ch c cdc ops] unfolding s_def by blast
    obtain b s2 where "apply_owned cdc ops (ch_table ch) (ch_op ch) (ch_id ch) w (ci_store c2) = (b, s2)" by fastforce
    then show ?thesis using that [OF w(1)] w(2) r by simp
  qed
  obtain pd where pd: "ci_store c2 = s\<lparr>sto_pending_deleted := pd\<rparr>"
    "\<And>k. hm_get pd k = (if ch_op ch = OpDelete \<and> k = key \<and> stored_row s k \<noteq> None then stored_row s k else hm_get (sto_pending_deleted s) k)"
  proof (cases "ch_op ch = OpDelete")
    case True
    with stage_deleted_rows [OF good, of "ch_table ch" "ch_id ch"] c2 that show ?thesis
      unfolding s_def key_def change_key_def by auto
  qed (use c2 that [of "sto_pending_deleted s"] in simp)
  have g2: "store_good cdc (ci_store c2)" using good pd(1) by (simp add: s_def)
  have t: "CHR '':'' \<notin> set (ch_table ch)" "CHR '':'' \<notin> set (raw_id (ch_id ch))" using ch by (simp_all add: plain_change_def)
  note R = apply_owned_rows [OF g2 cdc t ao, folded change_key_def, folded key_def]
  have s': "s' = s2" by (simp add: s'_def c')
  have old: "stored_row (ci_store c2) = stored_row s" by (simp add: pd(1))
  show "ap_key a = key" "store_good cdc s'" using R(1,2) s' by simp_all
  show "stored_row s' k = stored_row s k \<and> hm_get (sto_pending_deleted s') k = hm_get (sto_pending_deleted s) k" if "k \<noteq> key"
    using R(3,4) that s' old pd by simp
  show "stored_row s' k = stored_row s k" if "\<not> ap_content_changed a" using R(5) that s' old by simp
  show "ap_weight a = of_bool (stored_row s' key \<noteq> None) - of_bool (stored_row s key \<noteq> None)" using R(6) s' old by simp
  show "hm_get (sto_pending_deleted s') key = Some v" if "stored_row s key = Some v" "stored_row s' key = None"
    using R(3,7) that s' old pd by simp
qed


subsection \<open>A batch\<close>

definition batch_inv :: "codec \<Rightarrow> store \<Rightarrow> row_key set \<Rightarrow> ingest \<Rightarrow> bool" where
  "batch_inv cdc s0 K st \<longleftrightarrow>
     (let s = ci_store (ig_circuit st)
      in store_good cdc s
         \<and> (\<forall>k. k \<notin> K \<longrightarrow> stored_row s k = stored_row s0 k)
         \<and> (\<forall>k v. stored_row s0 k = Some v \<longrightarrow> stored_row s k = None \<longrightarrow> hm_get (sto_pending_deleted s) k = Some v)
         \<and> hm_wf (ig_deltas st) \<and> (\<forall>t. hm_wf (hm_entry (ig_deltas st) t))
         \<and> (\<forall>t k. zget (hm_entry (ig_deltas st) t) k =
              (if of_table t k then of_bool (stored_row s k \<noteq> None) - of_bool (stored_row s0 k \<noteq> None) else 0))
         \<and> (ig_updates st = [] \<longrightarrow> (\<forall>k. stored_row s0 k \<noteq> None \<longrightarrow> stored_row s k \<noteq> None \<longrightarrow> stored_row s k = stored_row s0 k))
         \<and> (\<forall>t k. of_table t k \<longrightarrow> t \<notin> set (ig_changed st) \<longrightarrow> stored_row s k = stored_row s0 k))"

lemma batch_invD:
  assumes "batch_inv cdc s0 K st"
  shows "store_good cdc (ci_store (ig_circuit st))"
    "k \<notin> K \<Longrightarrow> stored_row (ci_store (ig_circuit st)) k = stored_row s0 k"
    "stored_row s0 k = Some v \<Longrightarrow> stored_row (ci_store (ig_circuit st)) k = None \<Longrightarrow>
      hm_get (sto_pending_deleted (ci_store (ig_circuit st))) k = Some v"
    "hm_wf (ig_deltas st)" "hm_wf (hm_entry (ig_deltas st) t)"
    "zget (hm_entry (ig_deltas st) t) k =
       (if of_table t k then of_bool (stored_row (ci_store (ig_circuit st)) k \<noteq> None) - of_bool (stored_row s0 k \<noteq> None) else 0)"
    "ig_updates st = [] \<Longrightarrow> stored_row s0 k \<noteq> None \<Longrightarrow> stored_row (ci_store (ig_circuit st)) k \<noteq> None \<Longrightarrow>
      stored_row (ci_store (ig_circuit st)) k = stored_row s0 k"
    "of_table t k \<Longrightarrow> t \<notin> set (ig_changed st) \<Longrightarrow> stored_row (ci_store (ig_circuit st)) k = stored_row s0 k"
  using assms unfolding batch_inv_def Let_def by blast+

lemma hm_push_not_Nil [simp]: "hm_push k v m \<noteq> []"
  by (cases m) (auto simp: hm_push_def)

lemma batch_step:
  assumes inv: "batch_inv cdc s0 K st" and cdc: "codec_ok cdc" and ch: "plain_change ch" and new: "change_key ch \<notin> K"
  shows "batch_inv cdc s0 (insert (change_key ch) K) (ingest_change cdc ops ch st)"
proof -
  let ?key = "change_key ch"
  obtain a c where w: "write_change cdc ops ch (ig_circuit st) = (a, c)" by fastforce
  let ?s = "ci_store (ig_circuit st)" and ?s' = "ci_store c"
  let ?st' = "ingest_change cdc ops ch st"
  note I = batch_invD [OF inv]
  note R = write_change_rows [OF I(1) cdc ch w]
  have st': "?st' = track_change (ch_table ch) a (st\<lparr>ig_circuit := c\<rparr>)" using w by (simp add: ingest_change_def)
  have circ: "ig_circuit ?st' = c" by (simp add: st')
  have of: "of_table t ?key \<longleftrightarrow> t = ch_table ch" for t using plain_change_key [OF ch] by (auto simp: of_table_def)
  have key0: "stored_row ?s ?key = stored_row s0 ?key" using I(2) new by simp
  have unch: "ap_weight a = 0" if "\<not> ap_content_changed a" using R(4,5) that by simp
  have deltas: "ig_deltas ?st' = (if ap_weight a \<noteq> 0 then bump_delta (ch_table ch) ?key (ap_weight a) (ig_deltas st) else ig_deltas st)"
    using R(1) unch by (auto simp: st' track_change_def Let_def)
  have d: "zget (hm_entry (ig_deltas ?st') t) k =
      zget (hm_entry (ig_deltas st) t) k + (if t = ch_table ch \<and> k = ?key then ap_weight a else 0)"
    "hm_wf (hm_entry (ig_deltas ?st') t)" "hm_wf (ig_deltas ?st')" for t k
    using I(4,5) by (auto simp: deltas bump_delta_def Let_def)
  have upd: "ig_updates ?st' = [] \<Longrightarrow> ig_updates st = [] \<and> (ap_content_changed a \<longrightarrow> ap_weight a \<noteq> 0)"
    by (auto simp: st' track_change_def Let_def split: if_splits)
  have chg: "set (ig_changed ?st') = set (ig_changed st) \<union> (if ap_content_changed a then {ch_table ch} else {})"
    by (auto simp: st' track_change_def Let_def)
  have 1: "stored_row ?s' k = stored_row s0 k" if "k \<notin> insert ?key K" for k using R(3) I(2) that by auto
  have 2: "hm_get (sto_pending_deleted ?s') k = Some v" if "stored_row s0 k = Some v" "stored_row ?s' k = None" for k v
    using R(3) [of k] R(6) [of v] I(3) [of k v] key0 that by (cases "k = ?key") auto
  have 3: "zget (hm_entry (ig_deltas ?st') t) k =
      (if of_table t k then of_bool (stored_row ?s' k \<noteq> None) - of_bool (stored_row s0 k \<noteq> None) else 0)" for t k
    using d(1) [of t k] I(6) [of t k] R(3) [of k] R(5) of [of t] key0 by (cases "k = ?key") auto
  have 4: "stored_row ?s' k = stored_row s0 k" if "ig_updates ?st' = []" "stored_row s0 k \<noteq> None" "stored_row ?s' k \<noteq> None" for k
    using upd [OF that(1)] I(7) [of k] R(3) [of k] R(4) [of k] R(5) key0 that by (cases "k = ?key") auto
  have 5: "stored_row ?s' k = stored_row s0 k" if "of_table t k" "t \<notin> set (ig_changed ?st')" for t k
    using chg I(8) [of t k] R(3) [of k] R(4) [of k] of [of t] key0 that by (cases "k = ?key") (auto split: if_splits)
  show ?thesis unfolding batch_inv_def Let_def circ using R(2) d(2,3) 1 2 3 4 5 by blast
qed

lemma batch_fold:
  assumes "codec_ok cdc"
  shows "batch_inv cdc s0 K st \<Longrightarrow> list_all plain_change chs \<Longrightarrow> distinct (map change_key chs) \<Longrightarrow> change_key ` set chs \<inter> K = {} \<Longrightarrow>
    batch_inv cdc s0 (K \<union> change_key ` set chs) (fold (ingest_change cdc ops) chs st)"
proof (induction chs arbitrary: K st)
  case (Cons ch chs)
  have "batch_inv cdc s0 (insert (change_key ch) K) (ingest_change cdc ops ch st)"
    using batch_step [OF Cons.prems(1) assms] Cons.prems(2,4) by simp
  from Cons.IH [OF this] Cons.prems show ?case by auto
qed simp

lemma batch_start:
  assumes "store_good cdc (ci_store c)"
  shows "batch_inv cdc (ci_store c) {} \<lparr>ig_circuit = c, ig_deltas = [], ig_updates = [], ig_changed = []\<rparr>"
  using assms by (simp add: batch_inv_def)


subsection \<open>Settling the deltas\<close>

lemma settle_fold:
  assumes "set es \<subseteq> set tds" and "hm_wf tds" and "\<And>t. hm_wf (hm_entry tds t)"
    and "\<And>t. hm_wf (hm_entry m t) \<and> (\<forall>k. zget (hm_entry m t) k = zget (hm_entry tds t) k)"
    and "fold (settle_table s) es (m, u) = (m', u')"
  shows "hm_wf (hm_entry m' t) \<and> (\<forall>k. zget (hm_entry m' t) k = zget (hm_entry tds t) k) \<and> (u' = [] \<longrightarrow> u = [])"
  using assms
proof (induction es arbitrary: m u)
  case (Cons e es)
  obtain table d where e: "e = (table, d)" by (cases e)
  obtain m1 u1 where 1: "settle_table s e (m, u) = (m1, u1)" by fastforce
  have "hm_get tds table = Some d" using Cons.prems(1,2) e by (auto simp: hm_get_eq_Some_iff)
  then have d: "hm_entry tds table = d" by (simp add: hm_entry_def)
  have m1: "m1 = hm_insert table (hm_retain (\<lambda>_ w. w \<noteq> 0) d) m" using 1 e by (auto simp: settle_table_def Let_def)
  have ok: "hm_wf (hm_entry m1 t) \<and> (\<forall>k. zget (hm_entry m1 t) k = zget (hm_entry tds t) k)" for t
    using Cons.prems(3) [of table] Cons.prems(4) [of t] d by (simp add: m1 zget_retain_nonzero)
  have "fold (\<lambda>(key, w) u. if w = 0 \<and> P key then hm_push table key u else u) es' u = [] \<Longrightarrow> u = []" for P and es' :: zset and u
    by (induction es' arbitrary: u) (force split: if_splits prod.splits)+
  then have u1: "u1 = [] \<Longrightarrow> u = []" using 1 e by (auto simp: settle_table_def Let_def)
  have "set es \<subseteq> set tds" "fold (settle_table s) es (m1, u1) = (m', u')" using Cons.prems(1,5) 1 by simp_all
  from Cons.IH [OF this(1) Cons.prems(2,3) ok this(2)] u1 show ?case by blast
qed simp

definition row_batch :: "codec \<Rightarrow> index_ops \<Rightarrow> change list \<Rightarrow> circuit \<Rightarrow> bool" where
  "row_batch cdc ops chs c \<longleftrightarrow> list_all plain_change chs \<and> distinct (map change_key chs)
     \<and> ig_updates (store_phase cdc ops chs c) = []"

lemma phase_rows:
  assumes good: "store_good cdc (ci_store c)" and cdc: "codec_ok cdc" and b: "row_batch cdc ops chs c"
  defines "st \<equiv> store_phase cdc ops chs c"
  defines "s \<equiv> ci_store c" and "s' \<equiv> ci_store (ig_circuit st)"
  shows "store_good cdc s'" "moves s s'"
    "delta_between (scan_snapshot t s) (scan_snapshot t s') (table_delta (ig_deltas st) [t])"
    "of_table t k \<Longrightarrow> t \<notin> set (ig_changed st) \<Longrightarrow> stored_row s' k = stored_row s k"
proof -
  define st0 where "st0 = fold (ingest_change cdc ops) chs \<lparr>ig_circuit = c, ig_deltas = [], ig_updates = [], ig_changed = []\<rparr>"
  obtain tds cu where se: "settle_deltas (ci_store (ig_circuit st0)) (ig_deltas st0) (ig_updates st0) = (tds, cu)" by fastforce
  have st: "st = st0\<lparr>ig_deltas := tds, ig_updates := cu\<rparr>" using se by (simp add: st_def store_phase_def st0_def Let_def)
  have cu: "cu = []" using b st by (simp add: row_batch_def st_def)
  have "batch_inv cdc s ({} \<union> change_key ` set chs) st0"
    unfolding st0_def s_def by (rule batch_fold [OF cdc batch_start [OF good]]) (use b in \<open>simp_all add: row_batch_def\<close>)
  note I = batch_invD [OF this]
  have s': "s' = ci_store (ig_circuit st0)" by (simp add: s'_def st)
  have S: "hm_wf (hm_entry tds t) \<and> (\<forall>k. zget (hm_entry tds t) k = zget (hm_entry (ig_deltas st0) t) k) \<and> (cu = [] \<longrightarrow> ig_updates st0 = [])" for t
    using settle_fold [OF order_refl I(4,5) _ se [unfolded settle_deltas_def]] I(5) by blast
  have u0: "ig_updates st0 = []" using S cu by simp
  show g': "store_good cdc s'" using I(1) s' by simp
  have g: "store_good cdc s" using good by (simp add: s_def)
  have "get_row_by_key_or_deleted s' k = get_row_by_key_or_deleted s k
      \<and> (row_present_in s' k \<longrightarrow> get_row_by_key s' k = get_row_by_key s k)" if present: "row_present_in s k" for k
  proof -
    obtain v where v: "stored_row s k = Some v" using present row_present_stored [OF g] by auto
    show ?thesis
    proof (cases "stored_row s' k")
      case None
      then show ?thesis
        using I(3) [OF v, folded s'] v
        by (simp add: get_row_by_key_or_deleted_def get_row_by_key_stored [OF g] get_row_by_key_stored [OF g'] row_present_stored [OF g'])
    next
      case (Some w)
      then have "stored_row s' k = stored_row s k" using I(7) [OF u0, of k, folded s'] v by simp
      then show ?thesis using v by (simp add: get_row_by_key_or_deleted_def get_row_by_key_stored [OF g] get_row_by_key_stored [OF g'])
    qed
  qed
  then show "moves s s'" by (simp add: moves_def)
  have "table_delta (ig_deltas st) [t] = hm_entry tds t" by (simp add: st table_delta_def hm_entry_def)
  then show "delta_between (scan_snapshot t s) (scan_snapshot t s') (table_delta (ig_deltas st) [t])"
    using S [of t] I(6) [of t, folded s'] by (simp add: delta_between_def zget_scan [OF g] zget_scan [OF g'])
  show "stored_row s' k = stored_row s k" if "of_table t k" "t \<notin> set (ig_changed st)" using I(8) that s' by (simp add: st)
qed


end
