(* ===== verification/View_Maintenance.thy ===== *)
theory View_Maintenance
  imports Row_Batches
begin

section \<open>Views follow the store\<close>

text \<open>
  The end of the pipeline: after every batch the cache of a registered view holds exactly the
  rows its plan evaluates to on the store as it is then, whether the view was stepped, re-primed
  because a window ran short, or not touched because the batch changed none of its tables.
\<close>

subsection \<open>Stores that read alike\<close>

definition reads_alike :: "string set \<Rightarrow> store \<Rightarrow> store \<Rightarrow> bool" where
  "reads_alike T s s' \<longleftrightarrow> (\<forall>t \<in> T. zeq (scan_snapshot t s) (scan_snapshot t s')
     \<and> (\<forall>k. of_table t k \<longrightarrow> row_present_in s k \<longrightarrow>
          get_row_by_key s' k = get_row_by_key s k \<and> get_row_by_key_or_deleted s' k = get_row_by_key_or_deleted s k))"

lemma evaluate_of_table:
  assumes "store_good cdc s"
  shows "zget (evaluate en s params p) k \<noteq> 0 \<Longrightarrow> \<exists>t \<in> set (collect_tables p). of_table t k"
proof (induction p rule: plan_induct)
  case (Scan table)
  then show ?case using zget_scan [OF assms] by (auto simp: op_snapshot_simps split: if_splits)
next
  case (Limit p limit start order_by)
  then show ?case
    using zget_topk_snapshot_nonzero [OF hm_wf_evaluate [OF memberships_good [OF assms]]] by (simp add: op_snapshot_simps)
next
  case (Join p q on)
  then show ?case
    using hm_wf_evaluate [OF memberships_good [OF assms], of en params p]
    by (cases "zget (evaluate en s params p) k = 0") (auto simp: op_snapshot_simps join_snapshot_def zget_hash_join)
next
  case (UnionPlan p q)
  then show ?case
    using memberships_good [OF assms] by (cases "zget (evaluate en s params p) k = 0")
      (auto simp: zget_evaluate simp del: plan_output.simps)
qed (use memberships_good [OF assms] w_pos_nonzero in
  \<open>auto simp: zget_evaluate admitted_def simp del: plan_output.simps split: if_splits\<close>)

lemma evaluate_alike:
  assumes "store_good cdc s" and "reads_alike T s s'" and "set (collect_tables p) \<subseteq> T" and "zget (evaluate en s params p) k \<noteq> 0"
  shows "get_row_by_key s' k = get_row_by_key s k" "get_row_by_key_or_deleted s' k = get_row_by_key_or_deleted s k"
  using assms evaluate_of_table [OF assms(1,4)] evaluate_nonzero [OF store_live_good [OF assms(1)] assms(4)]
  unfolding reads_alike_def by blast+

lemma witness_inv_alike:
  assumes "witness_inv sip anti cond s A B st"
    and "\<And>k. zget A k \<noteq> 0 \<or> zget B k \<noteq> 0 \<Longrightarrow> get_row_by_key s' k = get_row_by_key s k"
  shows "witness_inv sip anti cond s' A B st" "admitted sip anti cond s' A B k = admitted sip anti cond s A B k"
proof -
  have "join_field s' f k = join_field s f k" if "zget A k \<noteq> 0 \<or> zget B k \<noteq> 0" for f k
    using assms(2) [OF that] by (simp add: join_field_def)
  then have rm: "right_match sip f s' B l = right_match sip f s B l" for f l
    using w_pos_nonzero unfolding right_match_def by metis
  show a: "admitted sip anti cond s' A B k = admitted sip anti cond s A B k" for k
    using assms(2) [of k] w_pos_nonzero [of "zget A k"] by (auto simp: admitted_def rm join_field_def)
  have "side_ok f s' A rows = side_ok f s A rows" "side_ok f s' B rows = side_ok f s B rows" for f rows
    using input_row_read_cong [OF assms(2)] by (auto simp: side_ok_def)
  then show "witness_inv sip anti cond s' A B st" using assms(1) a by (simp add: witness_inv_def)
qed

lemma window_ok_alike:
  assumes "window_ok s x tk" and "zeq x x'" and "\<And>k. zget x k \<noteq> 0 \<Longrightarrow> get_row_by_key s' k = get_row_by_key s k"
  shows "window_ok s' x' tk"
proof -
  have "compute_sort_key ord k s' = compute_sort_key ord k s" if "w_pos (zget x k)" for ord k
    using assms(3) [of k] w_pos_nonzero [OF that] by (simp add: compute_sort_key_def split: option.splits)
  then have "(\<lambda>k. if w_pos (zget x' k) then Some (compute_sort_key (tk_order_by tk) k s') else None) =
      (\<lambda>k. if w_pos (zget x k) then Some (compute_sort_key (tk_order_by tk) k s) else None)"
    using assms(2) by (auto simp: zeq_def)
  then show ?thesis using assms(1) unfolding window_ok_def by simp
qed

lemma window_snapshot:
  assumes "entry_sets en" and "window_ok s x tk" and "hm_wf x" and "tk_offset tk + tk_limit tk \<le> usize_max"
  shows "zget (topk_snapshot tk s [x]) k = of_bool (k \<in> set (current_window tk))"
proof -
  have tb: "topk_buffer (order_dirs (tk_order_by tk)) (en_ops en)" using assms(1) by (simp add: topk_buffer_def)
  have w: "topk_inv (order_dirs (tk_order_by tk)) (\<lambda>k. if w_pos (zget x k) then Some (compute_sort_key (tk_order_by tk) k s) else None) tk"
    "\<not> topk_needs_rebuild tk" using assms(2) by (simp_all add: window_ok_def)
  show ?thesis by (rule topk_buffer.snapshot_exact [OF tb w(1) assms(3) _ assms(4) w(2)]) simp
qed

lemma witness_alike:
  assumes g: "store_good cdc s" "store_good cdc s'" and T: "reads_alike T s s'"
    and t: "set (collect_tables p) \<subseteq> T" "set (collect_tables q) \<subseteq> T"
    and inv: "witness_inv (en_sip en) anti on s (evaluate en s params p) (evaluate en s params q) st"
    and eq: "zeq (evaluate en s params p) (evaluate en s' params p)" "zeq (evaluate en s params q) (evaluate en s' params q)"
  shows "witness_inv (en_sip en) anti on s' (evaluate en s' params p) (evaluate en s' params q) st"
    "admitted (en_sip en) anti on s' (evaluate en s' params p) (evaluate en s' params q) k =
     admitted (en_sip en) anti on s (evaluate en s params p) (evaluate en s params q) k"
proof -
  note w = witness_inv_alike [OF inv, of s'] and wf = hm_wf_evaluate [OF memberships_good [OF g(2)], of en params]
  have same: "get_row_by_key s' k = get_row_by_key s k" if "zget (evaluate en s params p) k \<noteq> 0 \<or> zget (evaluate en s params q) k \<noteq> 0" for k
    using evaluate_alike(1) [OF g(1) T t(1)] evaluate_alike(1) [OF g(1) T t(2)] that by blast
  show "witness_inv (en_sip en) anti on s' (evaluate en s' params p) (evaluate en s' params q) st"
    by (rule witness_inv_zeq [OF w(1) wf wf eq]) (rule same)
  have "admitted (en_sip en) anti on s' (evaluate en s' params p) (evaluate en s' params q) k =
      admitted (en_sip en) anti on s' (evaluate en s params p) (evaluate en s params q) k"
    using eq by (simp add: admitted_def right_match_def zeq_def)
  also have "\<dots> = admitted (en_sip en) anti on s (evaluate en s params p) (evaluate en s params q) k" by (rule w(2)) (rule same)
  finally show "admitted (en_sip en) anti on s' (evaluate en s' params p) (evaluate en s' params q) k =
     admitted (en_sip en) anti on s (evaluate en s params p) (evaluate en s params q) k" .
qed

text \<open>A graph that follows one store follows every store that reads alike.\<close>

definition follows_both :: "engine \<Rightarrow> store \<Rightarrow> store \<Rightarrow> value option \<Rightarrow> node list \<Rightarrow> operator_plan \<Rightarrow> nat \<Rightarrow> bool" where
  "follows_both en s s' params ns p i \<longleftrightarrow>
     tree_ok en s' params (evaluate en s' params) ns p i \<and> zeq (evaluate en s params p) (evaluate en s' params p)"

definition alike_ok :: "codec \<Rightarrow> engine \<Rightarrow> string set \<Rightarrow> store \<Rightarrow> store \<Rightarrow> bool" where
  "alike_ok cdc en T s s' \<longleftrightarrow> entry_sets en \<and> store_good cdc s \<and> store_good cdc s' \<and> reads_alike T s s'"

lemma alike_okD:
  assumes "alike_ok cdc en T s s'"
  shows "entry_sets en" "store_good cdc s" "store_good cdc s'" "reads_alike T s s'" "memberships_ok s" "memberships_ok s'"
  using assms memberships_good by (auto simp: alike_ok_def)

lemma alike_filter:
  assumes A: "alike_ok cdc en T s s'" and t: "tree_ok en s params (evaluate en s params) ns (Filter p f) i"
    and sub: "set (collect_tables (Filter p f)) \<subseteq> T"
    and IH1: "\<And>a. tree_ok en s params (evaluate en s params) ns p a \<Longrightarrow> follows_both en s s' params ns p a"
  shows "follows_both en s s' params ns (Filter p f) i"
proof -
  note en = alike_okD(1) [OF A] and g = alike_okD(2,3) [OF A] and T = alike_okD(4) [OF A] and m = alike_okD(5,6) [OF A]
  obtain a where a: "node_is ns i (OpFilter f) [a]" "tree_ok en s params (evaluate en s params) ns p a" using t by auto
  have IH: "tree_ok en s' params (evaluate en s' params) ns p a" "zeq (evaluate en s params p) (evaluate en s' params p)"
    using IH1 [OF a(2)] by (simp_all add: follows_both_def)
  have "check_predicate f k s' params = check_predicate f k s params" if "zget (evaluate en s params p) k \<noteq> 0" for k
    using evaluate_alike(2) [OF g(1) T _ that] sub by (intro check_predicate_cong) simp
  then have "zget (evaluate en s params (Filter p f)) k = zget (evaluate en s' params (Filter p f)) k" for k
    using IH(2) by (cases "zget (evaluate en s params p) k = 0") (simp_all add: zget_evaluate(1) [OF m(1)] zget_evaluate(1) [OF m(2)] zeq_def del: plan_output.simps)
  then show ?thesis unfolding follows_both_def using a IH(1) m by (auto simp: zeq_def zget_evaluate simp del: plan_output.simps)
qed

lemma alike_project:
  assumes A: "alike_ok cdc en T s s'" and t: "tree_ok en s params (evaluate en s params) ns (Project p ps) i"
    and sub: "set (collect_tables (Project p ps)) \<subseteq> T"
    and IH1: "\<And>a. tree_ok en s params (evaluate en s params) ns p a \<Longrightarrow> follows_both en s s' params ns p a"
  shows "follows_both en s s' params ns (Project p ps) i"
proof -
  note en = alike_okD(1) [OF A] and g = alike_okD(2,3) [OF A] and T = alike_okD(4) [OF A] and m = alike_okD(5,6) [OF A]
  obtain a where a: "node_is ns i (OpMap ps) [a]" "tree_ok en s params (evaluate en s params) ns p a" using t by auto
  have IH: "tree_ok en s' params (evaluate en s' params) ns p a" "zeq (evaluate en s params p) (evaluate en s' params p)"
    using IH1 [OF a(2)] by (simp_all add: follows_both_def)
  then show ?thesis unfolding follows_both_def using a m(1) m(2) by (auto simp: zget_evaluate simp del: plan_output.simps)
qed

lemma alike_distinct:
  assumes A: "alike_ok cdc en T s s'" and t: "tree_ok en s params (evaluate en s params) ns (Distinct p) i"
    and sub: "set (collect_tables (Distinct p)) \<subseteq> T"
    and IH1: "\<And>a. tree_ok en s params (evaluate en s params) ns p a \<Longrightarrow> follows_both en s s' params ns p a"
  shows "follows_both en s s' params ns (Distinct p) i"
proof -
  note en = alike_okD(1) [OF A] and g = alike_okD(2,3) [OF A] and T = alike_okD(4) [OF A] and m = alike_okD(5,6) [OF A]
  obtain a z where a: "node_is ns i (OpDistinct z) [a]" "tree_ok en s params (evaluate en s params) ns p a" "hm_wf z" "zeq z (evaluate en s params p)"
    using t by auto
  have IH: "tree_ok en s' params (evaluate en s' params) ns p a" "zeq (evaluate en s params p) (evaluate en s' params p)"
    using IH1 [OF a(2)] by (simp_all add: follows_both_def)
  have "zeq z (evaluate en s' params p)" using a(4) IH(2) by (simp add: zeq_def)
  then show ?thesis unfolding follows_both_def
    using a(1,3) IH zget_evaluate(5) [OF m(1)] zget_evaluate(5) [OF m(2)] by (auto simp: zeq_def simp del: plan_output.simps)
qed

lemma alike_union:
  assumes A: "alike_ok cdc en T s s'" and t: "tree_ok en s params (evaluate en s params) ns (UnionPlan p q) i"
    and sub: "set (collect_tables (UnionPlan p q)) \<subseteq> T"
    and IH1: "\<And>a. tree_ok en s params (evaluate en s params) ns p a \<Longrightarrow> follows_both en s s' params ns p a"
    and IH2: "\<And>b. tree_ok en s params (evaluate en s params) ns q b \<Longrightarrow> follows_both en s s' params ns q b"
  shows "follows_both en s s' params ns (UnionPlan p q) i"
proof -
  note en = alike_okD(1) [OF A] and g = alike_okD(2,3) [OF A] and T = alike_okD(4) [OF A] and m = alike_okD(5,6) [OF A]
  obtain a b where a: "node_is ns i OpUnion [a, b]" "tree_ok en s params (evaluate en s params) ns p a" "tree_ok en s params (evaluate en s params) ns q b"
    using t by auto
  have IH: "tree_ok en s' params (evaluate en s' params) ns p a" "zeq (evaluate en s params p) (evaluate en s' params p)"
    "tree_ok en s' params (evaluate en s' params) ns q b" "zeq (evaluate en s params q) (evaluate en s' params q)"
    using IH1 [OF a(2)] IH2 [OF a(3)] by (simp_all add: follows_both_def)
  then show ?thesis unfolding follows_both_def
    using a(1) zget_evaluate(4) [OF m(1)] zget_evaluate(4) [OF m(2)] by (auto simp: zeq_def simp del: plan_output.simps)
qed

lemma alike_semi:
  assumes A: "alike_ok cdc en T s s'" and t: "tree_ok en s params (evaluate en s params) ns (SemiJoin p q on) i"
    and sub: "set (collect_tables (SemiJoin p q on)) \<subseteq> T"
    and IH1: "\<And>a. tree_ok en s params (evaluate en s params) ns p a \<Longrightarrow> follows_both en s s' params ns p a"
    and IH2: "\<And>b. tree_ok en s params (evaluate en s params) ns q b \<Longrightarrow> follows_both en s s' params ns q b"
  shows "follows_both en s s' params ns (SemiJoin p q on) i"
proof -
  note en = alike_okD(1) [OF A] and g = alike_okD(2,3) [OF A] and T = alike_okD(4) [OF A] and m = alike_okD(5,6) [OF A]
  obtain a b st where a: "node_is ns i (OpSemiJoin on st) [a, b]" "tree_ok en s params (evaluate en s params) ns p a"
    "tree_ok en s params (evaluate en s params) ns q b" "witness_inv (en_sip en) False on s (evaluate en s params p) (evaluate en s params q) st"
    "ws_content_updates st = []" using t by auto
  have IH: "tree_ok en s' params (evaluate en s' params) ns p a" "zeq (evaluate en s params p) (evaluate en s' params p)"
    "tree_ok en s' params (evaluate en s' params) ns q b" "zeq (evaluate en s params q) (evaluate en s' params q)"
    using IH1 [OF a(2)] IH2 [OF a(3)] by (simp_all add: follows_both_def)
  note w = witness_alike [OF g T _ _ a(4) IH(2,4)]
  show ?thesis unfolding follows_both_def using a(1,5) IH(1,3) w sub zget_evaluate(2) [OF m(1)] zget_evaluate(2) [OF m(2)]
    by (auto simp: zeq_def simp del: plan_output.simps)
qed

lemma alike_anti:
  assumes A: "alike_ok cdc en T s s'" and t: "tree_ok en s params (evaluate en s params) ns (AntiJoin p q on) i"
    and sub: "set (collect_tables (AntiJoin p q on)) \<subseteq> T"
    and IH1: "\<And>a. tree_ok en s params (evaluate en s params) ns p a \<Longrightarrow> follows_both en s s' params ns p a"
    and IH2: "\<And>b. tree_ok en s params (evaluate en s params) ns q b \<Longrightarrow> follows_both en s s' params ns q b"
  shows "follows_both en s s' params ns (AntiJoin p q on) i"
proof -
  note en = alike_okD(1) [OF A] and g = alike_okD(2,3) [OF A] and T = alike_okD(4) [OF A] and m = alike_okD(5,6) [OF A]
  obtain a b st where a: "node_is ns i (OpAntiJoin on st) [a, b]" "tree_ok en s params (evaluate en s params) ns p a"
    "tree_ok en s params (evaluate en s params) ns q b" "witness_inv (en_sip en) True on s (evaluate en s params p) (evaluate en s params q) st"
    "ws_content_updates st = []" using t by auto
  have IH: "tree_ok en s' params (evaluate en s' params) ns p a" "zeq (evaluate en s params p) (evaluate en s' params p)"
    "tree_ok en s' params (evaluate en s' params) ns q b" "zeq (evaluate en s params q) (evaluate en s' params q)"
    using IH1 [OF a(2)] IH2 [OF a(3)] by (simp_all add: follows_both_def)
  note w = witness_alike [OF g T _ _ a(4) IH(2,4)]
  show ?thesis unfolding follows_both_def using a(1,5) IH(1,3) w sub zget_evaluate(3) [OF m(1)] zget_evaluate(3) [OF m(2)]
    by (auto simp: zeq_def simp del: plan_output.simps)
qed

lemma alike_limit:
  assumes A: "alike_ok cdc en T s s'" and t: "tree_ok en s params (evaluate en s params) ns (Limit p limit start order_by) i"
    and sub: "set (collect_tables (Limit p limit start order_by)) \<subseteq> T" and ex: "plan_exact s' (Limit p limit start order_by)"
    and IH1: "\<And>a. tree_ok en s params (evaluate en s params) ns p a \<Longrightarrow> follows_both en s s' params ns p a"
  shows "follows_both en s s' params ns (Limit p limit start order_by) i"
proof -
  note en = alike_okD(1) [OF A] and g = alike_okD(2,3) [OF A] and T = alike_okD(4) [OF A] and m = alike_okD(5,6) [OF A]
  obtain a tk where a: "node_is ns i (OpTopK tk) [a]" "tree_ok en s params (evaluate en s params) ns p a" "window_ok s (evaluate en s params p) tk"
    and f: "tk_limit tk = limit" "tk_offset tk = start" "tk_order_by tk = order_by" using t by auto
  have IH: "tree_ok en s' params (evaluate en s' params) ns p a" "zeq (evaluate en s params p) (evaluate en s' params p)"
    using IH1 [OF a(2)] by (simp_all add: follows_both_def)
  have w: "window_ok s' (evaluate en s' params p) tk"
    using window_ok_alike [OF a(3) IH(2)] evaluate_alike(1) [OF g(1) T] sub by simp
  have fit: "tk_offset tk + tk_limit tk \<le> usize_max" using ex f by simp
  have "zeq (evaluate en s params (Limit p limit start order_by)) (evaluate en s' params (Limit p limit start order_by))"
    using window_snapshot [OF en a(3) hm_wf_evaluate [OF m(1)] fit]
      window_snapshot [OF en w hm_wf_evaluate [OF m(2)] fit]
    by (simp add: zeq_def op_snapshot_simps topk_snapshot_fields [OF f])
  then show ?thesis unfolding follows_both_def using a(1) IH(1) w f by (auto simp: op_snapshot_simps)
qed

lemma tree_alike:
  assumes A: "alike_ok cdc en T s s'"
  shows "steady_plan p \<Longrightarrow> plan_exact s' p \<Longrightarrow> set (collect_tables p) \<subseteq> T \<Longrightarrow> tree_ok en s params (evaluate en s params) ns p i \<Longrightarrow>
    follows_both en s s' params ns p i"
proof (induction p arbitrary: i rule: plan_induct)
  case (Scan table)
  then show ?case using alike_okD(4) [OF A] by (simp add: follows_both_def reads_alike_def op_snapshot_simps)
next
  case (Filter p f)
  show ?case by (rule alike_filter [OF A Filter.prems(4,3)]) (use Filter in simp)
next
  case (Project p ps)
  show ?case by (rule alike_project [OF A Project.prems(4,3)]) (use Project.IH(1) Project.prems in simp)
next
  case (Distinct p)
  show ?case by (rule alike_distinct [OF A Distinct.prems(4,3)]) (use Distinct in simp)
next
  case (UnionPlan p q)
  show ?case by (rule alike_union [OF A UnionPlan.prems(4,3)]) (use UnionPlan in simp_all)
next
  case (SemiJoin p q on)
  show ?case by (rule alike_semi [OF A SemiJoin.prems(4,3)]) (use SemiJoin in simp_all)
next
  case (AntiJoin p q on)
  show ?case by (rule alike_anti [OF A AntiJoin.prems(4,3)]) (use AntiJoin in simp_all)
next
  case (Limit p limit start order_by)
  show ?case by (rule alike_limit [OF A Limit.prems(4,3,2)]) (use Limit in simp)
qed simp_all

subsection \<open>Stepping a graph\<close>

lemma graph_delta_no_updates:
  fixes en s params tds
  assumes "graph_ok g"
  defines "F \<equiv> step_node en s params tds []"
  shows "graph_delta en s params tds [] cache g =
    Ret (Some (fst (node_values F (gr_nodes g) ! gr_output_node g)), g\<lparr>gr_nodes := stepped (gr_nodes g) (node_values F (gr_nodes g))\<rparr>)"
  using assms(1) run_nodes_result [of "gr_nodes g" "gr_topo_order g" F]
  by (simp add: graph_delta_def Let_def note_nodes_def updated_keys_def graph_ok_def F_def stepped_def)

lemma passes_step:
  assumes d: "\<And>t. delta_between (scan_snapshot t s) (scan_snapshot t s') (table_delta tds [t])"
    and nr: "list_all (\<lambda>n. \<not> op_needs_rebuild (nd_operator n)) (stepped ns (node_values (step_node en s' params tds []) ns))"
  shows "passes en s' params (evaluate en s params) ns (step_node en s' params tds [])"
  unfolding passes_def
proof (intro conjI allI impI)
  let ?F = "step_node en s' params tds []"
  fix i t
  show "delta_between (evaluate en s params (Scan t)) (scan_snapshot t s') (fst (?F i (OpScan t) []))"
    "snd (?F i (OpScan t) []) = OpScan t"
    using d [of t] by (simp_all add: step_node_def op_arity_def op_collections_def op_step_def scan_step_def op_snapshot_simps)
next
  let ?F = "step_node en s' params tds []"
  fix i tk and d :: zset
  assume "i < length ns" and "snd (node_values ?F ns ! i) = OpTopK (snd (topk_step (en_ops en) s' tk [d]))"
  then show "\<not> topk_needs_rebuild (snd (topk_step (en_ops en) s' tk [d]))"
    using nr by (auto simp: list_all_length stepped_def op_needs_rebuild_def)
qed (simp add: step_node_def)

lemma step_graph_for:
  assumes en: "entry_sets en" and g: "graph_for en s params p g" and s: "store_live s" "store_live s'" "moves s s'"
    and d: "\<And>t. delta_between (scan_snapshot t s) (scan_snapshot t s') (table_delta tds [t])"
    and p: "steady_plan p" "plan_exact s' p"
  shows "\<exists>out g'. graph_delta en s' params tds [] cache g = Ret (Some out, g')
    \<and> (\<not> graph_needs_rebuild g' \<longrightarrow> graph_for en s' params p g' \<and> delta_between (evaluate en s params p) (evaluate en s' params p) out)"
proof -
  let ?F = "step_node en s' params tds []"
  let ?g = "g\<lparr>gr_nodes := stepped (gr_nodes g) (node_values ?F (gr_nodes g))\<rparr>"
  have G: "graph_ok g" "tree_ok en s params (evaluate en s params) (gr_nodes g) p (gr_output_node g)"
    using g by (simp_all add: graph_for_def)
  have "graph_for en s' params p ?g
      \<and> delta_between (evaluate en s params p) (evaluate en s' params p) (fst (node_values ?F (gr_nodes g) ! gr_output_node g))"
    if nr: "\<not> graph_needs_rebuild ?g"
  proof -
    have nr': "list_all (\<lambda>n. \<not> op_needs_rebuild (nd_operator n)) (stepped (gr_nodes g) (node_values ?F (gr_nodes g)))"
      using nr by (simp add: graph_needs_rebuild_def list_all_iff list_ex_iff)
    have "pass_ok en s s' params (evaluate en s params) (gr_nodes g) ?F"
      using en s G(1) passes_step [OF d nr'] before_ok_evaluate [OF s(1)] by (simp add: pass_ok_def graph_ok_def)
    from run_pass [OF G(1) this p G(2)] G(1) show ?thesis by (auto simp: graph_ok_def)
  qed
  then show ?thesis using graph_delta_no_updates [OF G(1), of en s' params tds cache] by blast
qed

subsection \<open>The cache\<close>

lemma zget_apply_entries:
  "hm_wf d \<Longrightarrow> zget (fold apply_entry d cache) k =
     (if k \<in> fst ` set d then of_bool (w_pos (zget cache k + zget d k)) else zget cache k)"
proof (induction d arbitrary: cache)
  case (Cons e d)
  obtain j w where e: "e = (j, w)" by (cases e)
  have d: "j \<notin> fst ` set d" "hm_wf d" using Cons.prems e by simp_all
  then show ?case using Cons.IH [OF d(2), of "apply_entry e cache"] e by (auto simp: apply_entry_def zget_Cons)
qed simp

lemma apply_delta_cache:
  assumes d: "delta_between x x' d" and u: "unit_weights x'" and c: "\<And>k. zget (vw_cache v) k = zget x k"
  shows "zget (vw_cache (apply_delta d v)) k = zget x' k"
proof -
  have "zget x' k = 0 \<or> zget x' k = 1" using u by (simp add: unit_weights_def)
  moreover have "k \<notin> fst ` set d \<Longrightarrow> zget x' k = zget x k" using d zget_absent [of k d] by (auto simp: delta_between_def)
  ultimately show ?thesis
    using d c by (auto simp: apply_delta_def zget_apply_entries delta_between_def w_pos_def)
qed

definition same_rows_view :: "view \<Rightarrow> view_delta option \<times> view \<Rightarrow> bool" where
  "same_rows_view v r \<longleftrightarrow> vw_cache (snd r) = vw_cache v \<and> vw_plan (snd r) = vw_plan v \<and> vw_params (snd r) = vw_params v"

lemma same_rows_let: "(\<And>x. x = a \<Longrightarrow> same_rows_view v (f x)) \<Longrightarrow> same_rows_view v (Let a f)"
  by simp

lemma same_rows_case:
  "(\<And>a b c. t = (a, b, c) \<Longrightarrow> same_rows_view v (f a b c)) \<Longrightarrow> same_rows_view v (case t of (a, b, c) \<Rightarrow> f a b c)"
  by (cases t) simp

lemma publish_delta_same: "same_rows_view (apply_delta d v) (publish_delta en s tds cu q d v)"
  unfolding publish_delta_def
  by (intro same_rows_let same_rows_case)
    (auto simp: same_rows_view_def bump_content_generation_def Let_def split: if_splits)

lemmas publish_delta_snd = publish_delta_same [unfolded same_rows_view_def]

lemma apply_delta_plan_params [simp]: "vw_plan (apply_delta d v) = vw_plan v" "vw_params (apply_delta d v) = vw_params v"
  by (simp_all add: apply_delta_def)

lemma publish_delta_view:
  assumes "publish_delta en s tds cu q d v = (vd, v')"
  shows "vw_cache v' = vw_cache (apply_delta d v)" "vw_plan v' = vw_plan v" "vw_params v' = vw_params v"
  using publish_delta_snd [of en s tds cu q d v] assms by simp_all

lemma initial_delta_view:
  assumes "initial_delta en s q out v = (vd, v')"
  shows "vw_cache v' = vw_cache (apply_delta out v)" "vw_plan v' = vw_plan v" "vw_params v' = vw_params v"
  using assms by (auto simp: initial_delta_def Let_def apply_delta_def split: if_splits)


subsection \<open>Stepping a circuit\<close>

text \<open>An operation on query \<open>q\<close> leaves the store, the routing and the other queries alone.\<close>

definition only_query :: "string \<Rightarrow> circuit \<Rightarrow> circuit \<Rightarrow> bool" where
  "only_query q c c' \<longleftrightarrow> ci_store c' = ci_store c \<and> ci_dependency_map c' = ci_dependency_map c
     \<and> (\<forall>q'. q' \<noteq> q \<longrightarrow> hm_get (ci_graphs c') q' = hm_get (ci_graphs c) q' \<and> hm_get (ci_views c') q' = hm_get (ci_views c) q')"

lemma only_query_trans: "only_query q c c1 \<Longrightarrow> only_query q c1 c2 \<Longrightarrow> only_query q c c2"
  by (simp add: only_query_def)

lemma run_initial_only: "run_initial_snapshot en q c = Ret (d, c') \<Longrightarrow> only_query q c c'"
  by (auto simp: run_initial_snapshot_def only_query_def split: option.splits outcome.splits prod.splits)

lemma step_query_only: "step_query en tds cu q c = Ret (d, c') \<Longrightarrow> only_query q c c'"
  by (auto simp: step_query_def only_query_def split: option.splits outcome.splits prod.splits)

lemma reprime_view_only:
  assumes "reprime_view en q c = Ret (ds, c')"
  shows "only_query q c c'"
proof (cases "hm_get (ci_views c) q")
  case None
  then show ?thesis using assms by (simp add: reprime_view_def only_query_def)
next
  case (Some v)
  obtain g where g: "from_plan (qp_root (vw_plan v)) = Ret g" using from_plan_returns by blast
  let ?c = "c\<lparr>ci_views := hm_insert q (v\<lparr>vw_cache := [], vw_subquery_cache := [], vw_last_hash := []\<rparr>) (ci_views c),
    ci_graphs := hm_insert q g (ci_graphs c)\<rparr>"
  obtain d c2 where i: "run_initial_snapshot en q ?c = Ret (d, c2)"
    using assms Some g by (cases "run_initial_snapshot en q ?c") (auto simp: reprime_view_def Let_def)
  have "only_query q c ?c" by (simp add: only_query_def)
  then have "only_query q c c2" using run_initial_only [OF i] only_query_trans by blast
  moreover have "only_query q c2 c'"
    using assms Some g i by (cases d) (auto simp: reprime_view_def Let_def only_query_def split: option.splits)
  ultimately show ?thesis by (rule only_query_trans)
qed

lemma step_affected_only:
  assumes "step_affected en tds cu q c = Ret (ds, c')"
  shows "only_query q c c'"
proof -
  obtain d c1 where s: "step_query en tds cu q c = Ret (d, c1)"
    using assms by (cases "step_query en tds cu q c") (auto simp: step_affected_def)
  have "c' = c1 \<or> reprime_view en q c1 = Ret (ds, c')"
    using assms s by (auto simp: step_affected_def split: if_splits option.splits)
  then show ?thesis
    using step_query_only [OF s] reprime_view_only only_query_trans by blast
qed

text \<open>The query's graph and its cache follow the store \<open>s\<close>.\<close>

definition query_at :: "engine \<Rightarrow> string \<Rightarrow> operator_plan \<Rightarrow> value option \<Rightarrow> store \<Rightarrow> circuit \<Rightarrow> bool" where
  "query_at en q p params s c \<longleftrightarrow> (\<exists>g v. hm_get (ci_graphs c) q = Some g \<and> hm_get (ci_views c) q = Some v
     \<and> qp_root (vw_plan v) = p \<and> vw_params v = params \<and> graph_for en s params p g
     \<and> (\<forall>k. zget (vw_cache v) k = zget (evaluate en s params p) k))"

lemma query_at_only: "query_at en q p params s c \<Longrightarrow> only_query q' c c' \<Longrightarrow> q \<noteq> q' \<Longrightarrow> query_at en q p params s c'"
  unfolding query_at_def only_query_def by metis

lemma run_initial_query_at:
  assumes en: "entry_sets en" and s: "store_live (ci_store c)" and p: "steady_plan p" "unit_plan p" "plan_exact (ci_store c) p"
    and g: "from_plan p = Ret g" "hm_get (ci_graphs c) q = Some g"
    and v: "hm_get (ci_views c) q = Some v" "vw_cache v = []" "qp_root (vw_plan v) = p"
    and r: "run_initial_snapshot en q c = Ret (d, c')"
  shows "query_at en q p (vw_params v) (ci_store c) c'"
proof -
  obtain out g' where o: "prime_graph en (ci_store c) (vw_params v) g = Ret (Some out, g')"
    "graph_for en (ci_store c) (vw_params v) p g'" "hm_wf out" "\<forall>k. zget out k = zget (evaluate en (ci_store c) (vw_params v) p) k"
    using prime_graph_for [OF en s p(1,3) g(1), of "vw_params v"] by blast
  obtain vd v' where i: "initial_delta en (ci_store c) q out v = (vd, v')" by fastforce
  have c': "c' = c\<lparr>ci_graphs := hm_insert q g' (ci_graphs c), ci_views := hm_insert q v' (ci_views c)\<rparr>"
    using r g(2) v(1) o(1) i by (simp add: run_initial_snapshot_def)
  have "delta_between [] (evaluate en (ci_store c) (vw_params v) p) out" using o(3,4) by (simp add: delta_between_def)
  from apply_delta_cache [OF this unit_evaluate [OF s p(2)], of v] v(2)
  have "zget (vw_cache v') k = zget (evaluate en (ci_store c) (vw_params v) p) k" for k
    using initial_delta_view(1) [OF i] by simp
  then show ?thesis using c' o(2) v(3) initial_delta_view(2,3) [OF i] by (simp add: query_at_def)
qed

lemma reprime_query_at:
  assumes en: "entry_sets en" and s: "store_live (ci_store c)" and p: "steady_plan p" "unit_plan p" "plan_exact (ci_store c) p"
    and v: "hm_get (ci_views c) q = Some v" "qp_root (vw_plan v) = p" and r: "reprime_view en q c = Ret (ds, c')"
  shows "query_at en q p (vw_params v) (ci_store c) c'"
proof -
  obtain g where g: "from_plan p = Ret g" using from_plan_returns by blast
  let ?v = "v\<lparr>vw_cache := [], vw_subquery_cache := [], vw_last_hash := []\<rparr>"
  let ?c = "c\<lparr>ci_views := hm_insert q ?v (ci_views c), ci_graphs := hm_insert q g (ci_graphs c)\<rparr>"
  obtain d c2 where i: "run_initial_snapshot en q ?c = Ret (d, c2)"
    using r v g by (cases "run_initial_snapshot en q ?c") (auto simp: reprime_view_def Let_def)
  have "query_at en q p (vw_params ?v) (ci_store ?c) c2"
    by (rule run_initial_query_at [OF en _ p(1,2) _ g _ _ _ _ i, of ?v]) (use s p(3) v in simp_all)
  then have Q: "query_at en q p (vw_params v) (ci_store c) c2" by simp
  show ?thesis
  proof (cases d)
    case (Some d')
    then show ?thesis using r v g i Q by (simp add: reprime_view_def Let_def)
  next
    case None
    then show ?thesis using r v g i Q by (auto simp: reprime_view_def Let_def query_at_def split: option.splits)
  qed
qed


lemma step_affected_query_at:
  assumes en: "entry_sets en" and q: "query_at en q p params s c" and s': "ci_store c = s'"
    and st: "store_live s" "store_live s'" "moves s s'"
    and d: "\<And>t. delta_between (scan_snapshot t s) (scan_snapshot t s') (table_delta tds [t])"
    and p: "steady_plan p" "unit_plan p" "plan_exact s' p" and r: "step_affected en tds [] q c = Ret (ds, c')"
  shows "query_at en q p params s' c'"
proof -
  obtain g v where c: "hm_get (ci_graphs c) q = Some g" "hm_get (ci_views c) q = Some v" "qp_root (vw_plan v) = p" "vw_params v = params"
    "graph_for en s params p g" "\<forall>k. zget (vw_cache v) k = zget (evaluate en s params p) k" using q by (auto simp: query_at_def)
  obtain out g' where o: "graph_delta en s' params tds [] (vw_cache v) g = Ret (Some out, g')"
    "\<not> graph_needs_rebuild g' \<Longrightarrow> graph_for en s' params p g' \<and> delta_between (evaluate en s params p) (evaluate en s' params p) out"
    using step_graph_for [OF en c(5) st d p(1,3), of "vw_cache v"] by auto
  obtain vd v' where u: "publish_delta en s' tds [] q out v = (vd, v')" by fastforce
  let ?c = "c\<lparr>ci_graphs := hm_insert q g' (ci_graphs c), ci_views := hm_insert q v' (ci_views c)\<rparr>"
  have sq: "step_query en tds [] q c = Ret (vd, ?c)" using c(1,2,4) s' o(1) u by (simp add: step_query_def)
  note V = publish_delta_view [OF u]
  show ?thesis
  proof (cases "graph_needs_rebuild g'")
    case True
    then have "reprime_view en q ?c = Ret (ds, c')" using r sq by (simp add: step_affected_def)
    from reprime_query_at [OF en _ p(1,2) _ _ _ this, of v'] show ?thesis using st(2) s' p(3) c(3,4) V by simp
  next
    case False
    then have "c' = ?c" using r sq by (auto simp: step_affected_def split: option.splits)
    moreover have "zget (vw_cache v') k = zget (evaluate en s' params p) k" for k
      using apply_delta_cache [OF conjunct2 [OF o(2) [OF False]] unit_evaluate [OF st(2) p(2)], of v k] c(6) V(1) by simp
    ultimately show ?thesis using o(2) [OF False] c(3,4) V by (simp add: query_at_def)
  qed
qed

lemma step_queries_keep:
  "query_at en q p params s c \<Longrightarrow> q \<notin> set qs \<Longrightarrow> step_queries en tds cu qs c = Ret (ds, c') \<Longrightarrow>
   ci_store c' = ci_store c \<and> ci_dependency_map c' = ci_dependency_map c \<and> query_at en q p params s c'"
proof (induction qs arbitrary: c ds)
  case (Cons i qs)
  obtain ds1 c1 where 1: "step_affected en tds cu i c = Ret (ds1, c1)"
    using Cons.prems(3) by (cases "step_affected en tds cu i c") auto
  obtain ds2 where 2: "step_queries en tds cu qs c1 = Ret (ds2, c')"
    using Cons.prems(3) 1 by (cases "step_queries en tds cu qs c1") auto
  have o: "only_query i c c1" by (rule step_affected_only [OF 1])
  have "query_at en q p params s c1" using query_at_only [OF Cons.prems(1) o] Cons.prems(2) by simp
  from Cons.IH [OF this _ 2] o Cons.prems(2) show ?case by (simp add: only_query_def)
qed simp

lemma step_queries_same_store: "step_queries en tds cu qs c = Ret (ds, c') \<Longrightarrow> ci_store c' = ci_store c"
proof (induction qs arbitrary: c ds)
  case (Cons i qs)
  obtain ds1 c1 where 1: "step_affected en tds cu i c = Ret (ds1, c1)"
    using Cons.prems by (cases "step_affected en tds cu i c") auto
  obtain ds2 where 2: "step_queries en tds cu qs c1 = Ret (ds2, c')"
    using Cons.prems 1 by (cases "step_queries en tds cu qs c1") auto
  show ?case using Cons.IH [OF 2] step_affected_only [OF 1] by (simp add: only_query_def)
qed simp

lemma step_queries_query_at:
  assumes en: "entry_sets en" and st: "store_live s" "store_live s'" "moves s s'"
    and d: "\<And>t. delta_between (scan_snapshot t s) (scan_snapshot t s') (table_delta tds [t])"
    and p: "steady_plan p" "unit_plan p" "plan_exact s' p"
  shows "query_at en q p params s c \<Longrightarrow> ci_store c = s' \<Longrightarrow> distinct qs \<Longrightarrow> q \<in> set qs \<Longrightarrow> step_queries en tds [] qs c = Ret (ds, c') \<Longrightarrow>
    ci_store c' = s' \<and> ci_dependency_map c' = ci_dependency_map c \<and> query_at en q p params s' c'"
proof (induction qs arbitrary: c ds)
  case (Cons i qs)
  obtain ds1 c1 where 1: "step_affected en tds [] i c = Ret (ds1, c1)"
    using Cons.prems(5) by (cases "step_affected en tds [] i c") auto
  obtain ds2 where 2: "step_queries en tds [] qs c1 = Ret (ds2, c')"
    using Cons.prems(5) 1 by (cases "step_queries en tds [] qs c1") auto
  have o: "only_query i c c1" by (rule step_affected_only [OF 1])
  show ?case
  proof (cases "i = q")
    case True
    have "query_at en q p params s' c1"
      by (rule step_affected_query_at [OF en Cons.prems(1,2) st d p]) (use 1 True in simp)
    then show ?thesis using step_queries_keep [OF _ _ 2] o Cons.prems(2,3) True by (simp add: only_query_def)
  next
    case False
    then have "query_at en q p params s c1" using query_at_only [OF Cons.prems(1) o] by simp
    from Cons.IH [OF this _ _ _ 2] o Cons.prems(2-4) False show ?thesis by (simp add: only_query_def)
  qed
qed simp

subsection \<open>A batch\<close>

lemma reads_alike_rows:
  assumes g: "store_good cdc s" "store_good cdc s'" and r: "\<And>t k. t \<in> T \<Longrightarrow> of_table t k \<Longrightarrow> stored_row s' k = stored_row s k"
  shows "reads_alike T s s'"
  unfolding reads_alike_def zeq_def zget_scan [OF g(1)] zget_scan [OF g(2)] get_row_by_key_or_deleted_def
    get_row_by_key_stored [OF g(1)] get_row_by_key_stored [OF g(2)] row_present_stored [OF g(1)] Let_def
  using r by auto

lemma query_at_alike:
  assumes "entry_sets en" and "store_good cdc s" "store_good cdc s'" and "reads_alike (set (collect_tables p)) s s'"
    and "steady_plan p" "plan_exact s' p" and "query_at en q p params s c"
  shows "query_at en q p params s' c"
proof -
  have "alike_ok cdc en (set (collect_tables p)) s s'" using assms(1-4) by (simp add: alike_ok_def)
  from tree_alike [OF this assms(5,6) order_refl] assms(7) show ?thesis
    unfolding query_at_def graph_for_def follows_both_def zeq_def by metis
qed

lemma clear_pending_simps [simp]:
  "stored_row (clear_pending_deleted_rows s) = stored_row s" "store_good cdc (clear_pending_deleted_rows s) = store_good cdc s"
  "get_row_by_key (clear_pending_deleted_rows s) = get_row_by_key s"
  by (simp_all add: clear_pending_deleted_rows_def fun_eq_iff get_row_by_key_def split: option.splits)

lemma compute_sort_key_clear [simp]: "compute_sort_key ord k (clear_pending_deleted_rows s) = compute_sort_key ord k s"
  by (simp add: compute_sort_key_def split: option.splits)

lemma plan_exact_clear: "plan_exact (clear_pending_deleted_rows s) p = plan_exact s p"
  by (induction p rule: plan_induct) simp_all

lemma query_at_store [simp]: "query_at en q p params s (c\<lparr>ci_store := x\<rparr>) = query_at en q p params s c"
  by (simp add: query_at_def)

lemma affected_queries_fold:
  "distinct qs \<Longrightarrow> distinct (fold (\<lambda>q qs. if q \<in> set qs then qs else qs @ [q]) as qs)
     \<and> set (fold (\<lambda>q qs. if q \<in> set qs then qs else qs @ [q]) as qs) = set qs \<union> set as"
  by (induction as arbitrary: qs) auto

lemma affected_queries_spec:
  "distinct (affected_queries c ts) \<and> set (affected_queries c ts) = (\<Union>t \<in> set ts. set (hm_entry (ci_dependency_map c) t))"
proof -
  let ?f = "\<lambda>t qs. fold (\<lambda>q qs. if q \<in> set qs then qs else qs @ [q]) (hm_entry (ci_dependency_map c) t) qs"
  have "distinct qs \<Longrightarrow> distinct (fold ?f ts qs) \<and> set (fold ?f ts qs) = set qs \<union> (\<Union>t \<in> set ts. set (hm_entry (ci_dependency_map c) t))" for qs
  proof (induction ts arbitrary: qs)
    case (Cons t ts)
    show ?case using Cons.IH [of "?f t qs"] affected_queries_fold [OF Cons.prems, of "hm_entry (ci_dependency_map c) t"] by auto
  qed simp
  from this [of "[]"] show ?thesis by (simp add: affected_queries_def)
qed

definition same_queries :: "circuit \<Rightarrow> circuit \<Rightarrow> bool" where
  "same_queries c c' \<longleftrightarrow> ci_graphs c' = ci_graphs c \<and> ci_views c' = ci_views c \<and> ci_dependency_map c' = ci_dependency_map c"

lemma floor_row_version_queries: "same_queries c (snd (floor_row_version t i v c))"
  by (simp add: same_queries_def floor_row_version_def Let_def split: option.splits)

lemma write_change_queries: "same_queries c (snd (write_change cdc ops ch c))"
  using floor_row_version_queries by (simp add: write_change_def Let_def case_prod_beta same_queries_def)

lemma ingest_queries: "same_queries (ig_circuit st) (ig_circuit (fold (ingest_change cdc ops) chs st))"
proof (induction chs arbitrary: st)
  case (Cons ch chs)
  have "same_queries (ig_circuit st) (ig_circuit (ingest_change cdc ops ch st))"
    using write_change_queries [of "ig_circuit st" cdc ops ch] by (simp add: ingest_change_def case_prod_beta)
  then show ?case using Cons [of "ingest_change cdc ops ch st"] by (simp add: same_queries_def)
qed (simp add: same_queries_def)

lemma store_phase_queries: "same_queries c (ig_circuit (store_phase cdc ops chs c))"
  using ingest_queries [of "\<lparr>ig_circuit = c, ig_deltas = [], ig_updates = [], ig_changed = []\<rparr>" cdc ops chs]
  by (simp add: store_phase_def Let_def case_prod_beta)

text \<open>The query follows the circuit's store, and every table its plan reads is routed to it.\<close>

definition query_ok :: "codec \<Rightarrow> engine \<Rightarrow> string \<Rightarrow> operator_plan \<Rightarrow> value option \<Rightarrow> circuit \<Rightarrow> bool" where
  "query_ok cdc en q p params c \<longleftrightarrow> store_good cdc (ci_store c) \<and> query_at en q p params (ci_store c) c
     \<and> (\<forall>t \<in> set (collect_tables p). q \<in> set (hm_entry (ci_dependency_map c) t))"

lemma circuit_step_query_ok:
  assumes cdc: "codec_ok cdc" and en: "entry_sets en" and p: "steady_plan p" "unit_plan p"
    and ok: "query_ok cdc en q p params c" and b: "row_batch cdc ops chs c"
    and r: "circuit_step cdc ops en chs c = Ret (ds, c')" and ex: "plan_exact (ci_store c') p"
  shows "query_ok cdc en q p params c'"
proof (cases "chs = []")
  case True
  then show ?thesis using ok r by (simp add: circuit_step_def)
next
  case False
  define st where "st = store_phase cdc ops chs c"
  let ?s = "ci_store c" and ?s' = "ci_store (ig_circuit st)" and ?qs = "affected_queries (ig_circuit st) (ig_changed st)"
  have g: "store_good cdc ?s" and Q: "query_at en q p params ?s c"
    and route: "\<forall>t \<in> set (collect_tables p). q \<in> set (hm_entry (ci_dependency_map c) t)" using ok by (simp_all add: query_ok_def)
  note P = phase_rows [OF g cdc b, folded st_def]
  have u: "ig_updates st = []" using b by (simp add: row_batch_def st_def)
  obtain c2 where sq: "step_queries en (ig_deltas st) [] ?qs (ig_circuit st) = Ret (ds, c2)"
    and c': "c' = c2\<lparr>ci_store := clear_pending_deleted_rows (ci_store c2)\<rparr>"
    using r False u by (auto simp: circuit_step_def Let_def st_def [symmetric] split: outcome.splits)
  have same: "same_queries c (ig_circuit st)" using store_phase_queries by (simp add: st_def)
  then have Q1: "query_at en q p params ?s (ig_circuit st)" using Q by (simp add: query_at_def same_queries_def)
  have keep: "ci_store c2 = ?s' \<and> ci_dependency_map c2 = ci_dependency_map c \<and> query_at en q p params (ci_store c') c2"
  proof (cases "q \<in> set ?qs")
    case True
    have ex1: "plan_exact ?s' p" if "ci_store c2 = ?s'" using ex c' that by (simp add: plan_exact_clear)
    have S: "ci_store c2 = ?s'"
      using step_queries_same_store [OF sq] by simp
    have "ci_dependency_map c2 = ci_dependency_map (ig_circuit st) \<and> query_at en q p params ?s' c2"
      using step_queries_query_at [OF en store_live_good [OF g] store_live_good [OF P(1)] P(2,3) p ex1 [OF S] Q1 refl _ True sq]
        affected_queries_spec by blast
    moreover have "query_at en q p params (ci_store c') c2" if "query_at en q p params ?s' c2"
      by (rule query_at_alike [OF en P(1) _ reads_alike_rows p(1) ex that]) (use P(1) c' S in simp_all)
    ultimately show ?thesis using S same by (simp add: same_queries_def)
  next
    case False
    then have nt: "t \<notin> set (ig_changed st)" if "t \<in> set (collect_tables p)" for t
      using affected_queries_spec [of "ig_circuit st" "ig_changed st"] route same that by (auto simp: same_queries_def)
    have K: "ci_store c2 = ?s'" "ci_dependency_map c2 = ci_dependency_map (ig_circuit st)" "query_at en q p params ?s c2"
      using step_queries_keep [OF Q1 False sq] by simp_all
    have "query_at en q p params (ci_store c') c2"
      by (rule query_at_alike [OF en g _ reads_alike_rows p(1) ex K(3)]) (use P(1,4) c' K(1) g nt in simp_all)
    then show ?thesis using K same by (simp add: same_queries_def)
  qed
  then show ?thesis using P(1) route unfolding query_ok_def c' by auto
qed


subsection \<open>Histories\<close>

text \<open>
  A circuit after any number of batches, each naming every row at most once and changing no row
  in place. The sort keys of the plan's windows stay exact.
\<close>

inductive row_batches :: "codec \<Rightarrow> index_ops \<Rightarrow> engine \<Rightarrow> operator_plan \<Rightarrow> circuit \<Rightarrow> circuit \<Rightarrow> bool" for cdc ops en p c where
  start: "row_batches cdc ops en p c c"
| batch: "row_batches cdc ops en p c c1 \<Longrightarrow> row_batch cdc ops chs c1 \<Longrightarrow> circuit_step cdc ops en chs c1 = Ret (ds, c2) \<Longrightarrow>
     plan_exact (ci_store c2) p \<Longrightarrow> row_batches cdc ops en p c c2"

lemma row_batches_query_ok:
  assumes "codec_ok cdc" and "entry_sets en" and "steady_plan p" "unit_plan p"
  shows "row_batches cdc ops en p c c' \<Longrightarrow> query_ok cdc en q p params c \<Longrightarrow> query_ok cdc en q p params c'"
  by (induction rule: row_batches.induct) (auto intro: circuit_step_query_ok [OF assms])

lemma push_tables: "q \<in> set (hm_entry (fold (\<lambda>t. hm_push t q) ts m) t) \<longleftrightarrow> t \<in> set ts \<or> q \<in> set (hm_entry m t)"
  by (induction ts arbitrary: m) (auto simp: hm_push_def)

lemma refresh_dependency: "ci_dependency_map (refresh_retained_fields c) = ci_dependency_map c"
  "ci_dependency_map (note_missing_fields root c) = ci_dependency_map c" "ci_views (refresh_retained_fields c) = ci_views c"
  by (simp_all add: refresh_retained_fields_def note_missing_fields_def Let_def)

lemma registration_query_ok:
  assumes en: "entry_sets en" and p: "steady_plan (qp_root plan)" "unit_plan (qp_root plan)"
    and r: "add_query_with_auth en plan prm fmt auth c = Ret (d, c1)"
    and g: "store_good cdc (ci_store c1)" and ex: "plan_exact (ci_store c1) (qp_root plan)"
  shows "query_ok cdc en (canonical_query_id (qp_id plan)) (qp_root plan) (map_option value_of_json prm) c1"
proof -
  let ?q = "canonical_query_id (qp_id plan)" and ?tables = "referenced_tables (qp_root plan)"
  let ?plan = "plan\<lparr>qp_id := ?q\<rparr>"
  let ?v = "view_new ?q ?plan (case fmt of None \<Rightarrow> Flat | Some f \<Rightarrow> f) (map_option value_of_json prm) ?tables auth"
  obtain gr where gr: "from_plan (qp_root plan) = Ret gr" using from_plan_returns by blast
  let ?c1 = "note_missing_fields (qp_root plan) c"
  let ?c2 = "?c1\<lparr>ci_graphs := hm_insert ?q gr (ci_graphs ?c1), ci_views := hm_insert ?q ?v (ci_views ?c1),
    ci_dependency_map := fold (\<lambda>t. hm_push t ?q) ?tables (ci_dependency_map ?c1)\<rparr>"
  have ri: "run_initial_snapshot en ?q (refresh_retained_fields ?c2) = Ret (d, c1)"
    using r gr by (simp add: add_query_with_auth_def Let_def)
  have o: "only_query ?q (refresh_retained_fields ?c2) c1" by (rule run_initial_only [OF ri])
  have "query_at en ?q (qp_root plan) (vw_params ?v) (ci_store (refresh_retained_fields ?c2)) c1"
    by (rule run_initial_query_at [OF en _ p _ gr _ _ _ _ ri])
      (use o store_live_good [OF g] ex in \<open>simp_all add: only_query_def refresh_graphs refresh_dependency view_new_def\<close>)
  moreover have "?q \<in> set (hm_entry (ci_dependency_map c1) t)" if "t \<in> set (collect_tables (qp_root plan))" for t
    using o that by (simp add: only_query_def refresh_dependency push_tables referenced_tables_def)
  ultimately show ?thesis using g o by (simp add: query_ok_def only_query_def view_new_def)
qed

text \<open>
  C1. A registered view follows the store: whatever query is registered (scans, filters, semi- and
  anti-joins, projections, distinct unions and bounded windows in any nesting) and whatever batches
  of rows entering and leaving the tables are ingested after it, the view's cache holds after each
  of them exactly the rows that evaluating the plan from scratch on the current store gives.
\<close>

theorem view_follows_store:
  assumes "codec_ok cdc"
    and "\<forall>dirs. ordered_set entry_cmp (\<lambda>e. key_exact dirs (fst e)) (en_ops en)"
    and "steady_plan (qp_root plan)" and "unit_plan (qp_root plan)"
    and "add_query_with_auth en plan prm fmt auth c = Ret (d, c1)"
    and "store_good cdc (ci_store c1)" and "plan_exact (ci_store c1) (qp_root plan)"
    and "row_batches cdc ops en (qp_root plan) c1 c2"
  shows "\<exists>v. hm_get (ci_views c2) (canonical_query_id (qp_id plan)) = Some v
    \<and> (\<forall>k. zget (vw_cache v) k =
          zget (plan_output (op_snapshot en (ci_store c2) (map_option value_of_json prm)) (qp_root plan)) k)"
  using row_batches_query_ok [OF assms(1-4,8) registration_query_ok [OF assms(2-7)]]
  by (auto simp: query_ok_def query_at_def)


definition member_plan :: query_plan where
  "member_plan = \<lparr>qp_id = ''q'', qp_root = Distinct (UnionPlan (SemiJoin (Scan ''u'') (Scan ''v'')
     \<lparr>jc_left_field = [''k''], jc_right_field = [''k'']\<rparr>) (Filter (Scan ''u'') PFalse))\<rparr>"

definition member_rows :: "change list" where
  "member_rows = [\<lparr>ch_table = ''u'', ch_op = OpCreate, ch_id = ''1'', ch_data = VObject [(''k'', VBool True)]\<rparr>,
     \<lparr>ch_table = ''v'', ch_op = OpCreate, ch_id = ''2'', ch_data = VObject [(''k'', VBool True)]\<rparr>]"

definition member_circuit :: circuit where
  "member_circuit = (case add_query_with_auth demo_engine member_plan None None [] circuit_new of Ret (_, c) \<Rightarrow> c | Panic \<Rightarrow> circuit_new)"

lemma member_steps:
  "add_query_with_auth demo_engine member_plan None None [] circuit_new = Ret (None, member_circuit)"
  "ci_store member_circuit = store_new"
  "ig_updates (store_phase sample_codec (list_set_ops index_entry_cmp) member_rows member_circuit) = []"
  "zget (evaluate demo_engine (clear_pending_deleted_rows (ci_store (ig_circuit
       (store_phase sample_codec (list_set_ops index_entry_cmp) member_rows member_circuit)))) None (qp_root member_plan)) ''u:1'' = 1"
  by code_simp+

lemma circuit_step_store:
  assumes "circuit_step cdc ops en chs c = Ret (ds, c')" and "chs \<noteq> []"
  shows "ci_store c' = clear_pending_deleted_rows (ci_store (ig_circuit (store_phase cdc ops chs c)))"
  using assms step_queries_same_store by (auto simp: circuit_step_def Let_def split: outcome.splits)

theorem view_follows_store_witness:
  "\<exists>ds c2 v. circuit_step sample_codec (list_set_ops index_entry_cmp) demo_engine member_rows member_circuit = Ret (ds, c2)
    \<and> hm_get (ci_views c2) ''q'' = Some v \<and> zget (vw_cache v) ''u:1'' = 1"
proof -
  let ?ops = "list_set_ops index_entry_cmp" and ?p = "qp_root member_plan"
  have en: "\<forall>dirs. ordered_set entry_cmp (\<lambda>e. key_exact dirs (fst e)) (en_ops demo_engine)"
    using topk_set.ordered_set_axioms by (simp add: demo_engine_def)
  have p: "steady_plan ?p" "unit_plan ?p" "plan_exact s ?p" "qp_id member_plan = ''q''" "canonical_query_id ''q'' = ''q''" for s
    by (simp_all add: member_plan_def canonical_query_id_def)
  have "graphs_ok member_circuit"
    using add_query_returns [of circuit_new demo_engine member_plan None None "[]"] member_steps(1)
    by (auto simp: graphs_ok_def circuit_new_def)
  then obtain ds c2 where r: "circuit_step sample_codec ?ops demo_engine member_rows member_circuit = Ret (ds, c2)"
    using circuit_step_returns by blast
  have b: "row_batch sample_codec ?ops member_rows member_circuit"
    unfolding row_batch_def by (intro conjI member_steps(3); code_simp)
  have "row_batches sample_codec ?ops demo_engine ?p member_circuit c2" by (rule row_batches.batch [OF row_batches.start b r p(3)])
  from view_follows_store [OF sample_codec_ok en p(1,2) member_steps(1) _ p(3) this]
  obtain v where "hm_get (ci_views c2) ''q'' = Some v" "zget (vw_cache v) ''u:1'' = zget (evaluate demo_engine (ci_store c2) None ?p) ''u:1''"
    using p(4,5) member_steps(2) by (auto simp: store_good_def store_new_def)
  moreover have "ci_store c2 = clear_pending_deleted_rows (ci_store (ig_circuit (store_phase sample_codec ?ops member_rows member_circuit)))"
    by (rule circuit_step_store [OF r]) (simp add: member_rows_def)
  ultimately show ?thesis using r member_steps(4) by auto
qed


end
