(* ===== verification/View_Drift.thy ===== *)
theory View_Drift
  imports View_Maintenance
begin

section \<open>Where views drift\<close>

text \<open>
  The ways out of \<open>view_follows_store\<close>, on concrete runs of the whole circuit: the hash join
  reads a deleted row from the live table (\<^verbatim>\<open>operator/join.rs\<close> uses \<^verbatim>\<open>get_row_by_key\<close>, the
  filters \<^verbatim>\<open>get_row_by_key_or_deleted\<close>), and \<^verbatim>\<open>Distinct\<close> is not told of rows that an update moves
  across a filter below it (\<^verbatim>\<open>integrated_input_weight\<close> is overridden by the witness joins only). A row deleted twice in a
  batch is staged as it was at the second deletion (\<^verbatim>\<open>Store::stage_deleted_row\<close>).
\<close>

fun run_batches :: "codec \<Rightarrow> index_ops \<Rightarrow> engine \<Rightarrow> change list list \<Rightarrow> circuit \<Rightarrow> circuit outcome" where
  "run_batches cdc ops en [] c = Ret c"
| "run_batches cdc ops en (b # bs) c =
     (case circuit_step cdc ops en b c of Panic \<Rightarrow> Panic | Ret (_, c') \<Rightarrow> run_batches cdc ops en bs c')"

definition run_view :: "operator_plan \<Rightarrow> change list list \<Rightarrow> circuit outcome" where
  "run_view p bs =
     (case add_query_with_auth demo_engine \<lparr>qp_id = ''q'', qp_root = p\<rparr> None None [] circuit_new of
        Panic \<Rightarrow> Panic
      | Ret (_, c) \<Rightarrow> run_batches sample_codec (list_set_ops index_entry_cmp) demo_engine bs c)"

text \<open>What the view shows and what its plan evaluates to, on the same circuit.\<close>

definition shown_and_due :: "operator_plan \<Rightarrow> change list list \<Rightarrow> (row_key list \<times> row_key list) outcome" where
  "shown_and_due p bs =
     (case run_view p bs of
        Panic \<Rightarrow> Panic
      | Ret c \<Rightarrow> Ret (view_keys ''q'' c, hm_keys (evaluate demo_engine (ci_store c) None p)))"

definition write_row :: "operation \<Rightarrow> string \<Rightarrow> string \<Rightarrow> bool \<Rightarrow> change" where
  "write_row op t i b = \<lparr>ch_table = t, ch_op = op, ch_id = i, ch_data = VObject [(''k'', VBool b)]\<rparr>"

definition joined_plan :: operator_plan where
  "joined_plan = Join (Scan ''u'') (Scan ''v'') \<lparr>jc_left_field = [''k''], jc_right_field = [''k'']\<rparr>"

text \<open>The plan of \<^verbatim>\<open>WHERE k = true OR k IN (SELECT k FROM v)\<close>.\<close>

definition either_plan :: operator_plan where
  "either_plan = Distinct (UnionPlan (Filter (Scan ''u'') (PEq [''k''] (JBool True)))
     (SemiJoin (Scan ''u'') (Scan ''v'') \<lparr>jc_left_field = [''k''], jc_right_field = [''k'']\<rparr>))"

definition filter_plan :: operator_plan where
  "filter_plan = Filter (Scan ''u'') (PEq [''k''] (JBool True))"

lemma hex16_code [code]:
  "hex16 w = (if w = 0 then ''0000000000000000'' else map (\<lambda>i. hex_digit (unat w div 16 ^ (15 - i) mod 16)) [0..<16])"
  by (simp add: hex16_def hex_digit_def upt_rec)


end
