(* ===== verification/Row_Codec.thy ===== *)
theory Row_Codec
  imports Values "HOL-Library.Multiset"
begin

section \<open>The byte encoding of stored rows\<close>

text \<open>
  Model of \<^verbatim>\<open>packages/ssp/src/circuit/row_codec.rs\<close> and of the flat backend of
  \<^verbatim>\<open>eval/value_ref.rs\<close>: the per-table dictionary of field names, variable-length integers,
  the encoder, the record head, the structural readers with their binary search over an object's
  entry table, the decoder, and the in-place reads through \<^verbatim>\<open>FlatRef\<close>.

  Bytes are \<open>byte list\<close>; \<^verbatim>\<open>bytes.get(a..b)\<close> is \<open>slice a b\<close>, absent out of range.
  \<^verbatim>\<open>usize\<close> arithmetic on lengths read from the bytes wraps (\<open>us\<close>), since the bytes may
  come from a damaged file. The recursive readers take the stack depth that is left: running out of
  it aborts the process, as does an allocation beyond what \<^verbatim>\<open>with_capacity\<close> accepts
  (\<open>al_vec\<close>, \<open>al_map\<close>: the element sizes they depend on are the compiler's choice).
\<close>

unbundle bit_operations_syntax

type_synonym u32 = "32 word"
type_synonym bytes = "byte list"

subsection \<open>Machine representation\<close>

definition us :: "nat \<Rightarrow> nat" where
  "us n = n mod 2 ^ 64"

definition slice :: "nat \<Rightarrow> nat \<Rightarrow> 'a list \<Rightarrow> 'a list option" where
  "slice a b xs = (if a \<le> b \<and> b \<le> length xs then Some (take (b - a) (drop a xs)) else None)"

definition slice_from :: "nat \<Rightarrow> 'a list \<Rightarrow> 'a list option" where
  "slice_from a xs = (if a \<le> length xs then Some (drop a xs) else None)"

definition patch :: "nat \<Rightarrow> 'a list \<Rightarrow> 'a list \<Rightarrow> 'a list" where
  "patch pos ys xs = take pos xs @ ys @ drop (pos + length ys) xs"

fun le_bytes :: "nat \<Rightarrow> nat \<Rightarrow> bytes" where
  "le_bytes 0 n = []"
| "le_bytes (Suc k) n = of_nat (n mod 256) # le_bytes k (n div 256)"

fun le_nat :: "bytes \<Rightarrow> nat" where
  "le_nat [] = 0"
| "le_nat (b # bs) = unat b + 256 * le_nat bs"

definition str_as_bytes :: "string \<Rightarrow> bytes" where
  "str_as_bytes s = map (\<lambda>c. of_nat (of_char c)) s"

definition bytes_as_str :: "bytes \<Rightarrow> string" where
  "bytes_as_str bs = map (\<lambda>b. char_of (unat b)) bs"

text \<open>\<^verbatim>\<open>std::str::from_utf8\<close> accepts the well-formed sequences of the Unicode standard: no
  overlong form, no surrogate, nothing above U+10FFFF.\<close>

definition byte_between :: "nat \<Rightarrow> nat \<Rightarrow> byte \<Rightarrow> bool" where
  "byte_between lo hi b \<longleftrightarrow> lo \<le> unat b \<and> unat b \<le> hi"

fun utf8_ok :: "bytes \<Rightarrow> bool" where
  "utf8_ok [] = True"
| "utf8_ok (a # bs) =
     (if unat a < 128 then utf8_ok bs
      else case bs of
        [] \<Rightarrow> False
      | b # bs1 \<Rightarrow>
          if byte_between 194 223 a then byte_between 128 191 b \<and> utf8_ok bs1
          else case bs1 of
            [] \<Rightarrow> False
          | c # bs2 \<Rightarrow>
              if byte_between 224 239 a
              then byte_between (if a = 224 then 160 else 128) (if a = 237 then 159 else 191) b
                   \<and> byte_between 128 191 c \<and> utf8_ok bs2
              else case bs2 of
                [] \<Rightarrow> False
              | d # bs3 \<Rightarrow>
                  byte_between 240 244 a
                  \<and> byte_between (if a = 240 then 144 else 128) (if a = 244 then 143 else 191) b
                  \<and> byte_between 128 191 c \<and> byte_between 128 191 d \<and> utf8_ok bs3)"

definition from_utf8 :: "bytes \<Rightarrow> string option" where
  "from_utf8 bs = (if utf8_ok bs then Some (bytes_as_str bs) else None)"

subsection \<open>The field dictionary\<close>

record field_dict =
  fd_names :: "string list"
  fd_ids :: "(string, u32) hmap"

definition dict_new :: field_dict where
  "dict_new = \<lparr>fd_names = [], fd_ids = []\<rparr>"

definition intern :: "string \<Rightarrow> field_dict \<Rightarrow> u32 \<times> field_dict" where
  "intern name d =
     (case hm_get (fd_ids d) name of
        Some i \<Rightarrow> (i, d)
      | None \<Rightarrow> let i = of_nat (length (fd_names d))
                in (i, \<lparr>fd_names = fd_names d @ [name], fd_ids = hm_insert name i (fd_ids d)\<rparr>))"

definition id_of :: "field_dict \<Rightarrow> string \<Rightarrow> u32 option" where
  "id_of d name = hm_get (fd_ids d) name"

definition name_of :: "field_dict \<Rightarrow> u32 \<Rightarrow> string option" where
  "name_of d i = (if unat i < length (fd_names d) then Some (fd_names d ! unat i) else None)"

fun from_names_loop :: "nat \<Rightarrow> string list \<Rightarrow> field_dict \<Rightarrow> field_dict option" where
  "from_names_loop expected [] d = Some d"
| "from_names_loop expected (name # names) d =
     (case intern name d of
        (i, d') \<Rightarrow> if unat i \<noteq> expected then None else from_names_loop (expected + 1) names d')"

definition from_names :: "string list \<Rightarrow> field_dict option" where
  "from_names names = from_names_loop 0 names dict_new"

fun intern_all :: "string list \<Rightarrow> field_dict \<Rightarrow> u32 list \<times> field_dict" where
  "intern_all [] d = ([], d)"
| "intern_all (name # names) d =
     (case intern name d of (i, d1) \<Rightarrow> case intern_all names d1 of (is, d2) \<Rightarrow> (i # is, d2))"

subsection \<open>Variable-length integers\<close>

function varint_count :: "u64 \<Rightarrow> nat" where
  "varint_count v = (if v = 0 then 0 else 1 + varint_count (drop_bit 7 v))"
  by auto

lemma unat_drop_bit_7: "unat (drop_bit 7 v :: u64) = unat v div 128"
  by (simp only: unat_drop_bit_eq) (simp add: drop_bit_eq_div)

lemma varint_measure: "v \<noteq> 0 \<Longrightarrow> unat (drop_bit 7 v :: u64) < unat v"
  unfolding unat_drop_bit_7 by (rule div_less_dividend) (auto simp: unat_gt_0)

termination varint_count
  by (relation "measure unat") (auto intro: varint_measure)

definition varint_len :: "u64 \<Rightarrow> nat" where
  "varint_len v = 1 + varint_count (drop_bit 7 v)"

function write_varint :: "u64 \<Rightarrow> bytes" where
  "write_varint v =
     (let b = ucast (v AND 0x7f) :: byte; v' = drop_bit 7 v
      in if v' = 0 then [b] else (b OR 0x80) # write_varint v')"
  by auto

termination write_varint
  by (relation "measure unat") (auto intro: varint_measure)

declare varint_count.simps [simp del]
declare write_varint.simps [simp del]

fun read_varint_loop :: "nat \<Rightarrow> nat \<Rightarrow> u64 \<Rightarrow> bytes \<Rightarrow> (u64 \<times> nat) option" where
  "read_varint_loop i shift result [] = None"
| "read_varint_loop i shift result (b # bs) =
     (if 64 \<le> shift then None
      else let result' = result OR push_bit shift (ucast (b AND 0x7f))
           in if b AND 0x80 = 0 then Some (result', i + 1)
              else read_varint_loop (i + 1) (shift + 7) result' bs)"

definition read_varint :: "bytes \<Rightarrow> (u64 \<times> nat) option" where
  "read_varint bs = read_varint_loop 0 0 0 bs"

subsection \<open>Encoding\<close>

definition rv_absent :: i64 where
  "rv_absent = 2 ^ 63"

definition head_rv_offset :: nat where "head_rv_offset = 32"
definition head_body_rel_offset :: nat where "head_body_rel_offset = 40"
definition head_body_len_offset :: nat where "head_body_len_offset = 44"
definition head_id_offset :: nat where "head_id_offset = 48"
definition head_min_len :: nat where "head_min_len = 49"

definition u32_bytes :: "u32 \<Rightarrow> bytes" where
  "u32_bytes w = le_bytes 4 (unat w)"

definition u64_bytes :: "u64 \<Rightarrow> bytes" where
  "u64_bytes w = le_bytes 8 (unat w)"

fun entry_slots :: "u32 list \<Rightarrow> bytes" where
  "entry_slots [] = []"
| "entry_slots (i # is) = u32_bytes i @ u32_bytes 0 @ entry_slots is"

type_synonym enc_state = "field_dict \<times> bytes"

function (sequential) encode_value :: "value \<Rightarrow> enc_state \<Rightarrow> enc_state"
  and encode_items :: "value list \<Rightarrow> enc_state \<Rightarrow> enc_state"
  and encode_entries :: "nat \<Rightarrow> nat \<Rightarrow> nat \<Rightarrow> (u32 \<times> value) list \<Rightarrow> enc_state \<Rightarrow> enc_state" where
  "encode_value VNull (d, out) = (d, out @ [0])"
| "encode_value (VBool b) (d, out) = (d, out @ [if b then 2 else 1])"
| "encode_value (VInt i) (d, out) = (d, out @ [3] @ u64_bytes i)"
| "encode_value (VFloat f) (d, out) = (d, out @ [4] @ u64_bytes f)"
| "encode_value (VStr s) (d, out) =
     (d, out @ [5] @ write_varint (of_nat (length s)) @ str_as_bytes s)"
| "encode_value (VArray items) (d, out) =
     encode_items items (d, out @ [6] @ write_varint (of_nat (length items)))"
| "encode_value (VObject m) (d, out) =
     (let out1 = out @ [7] @ write_varint (of_nat (length m));
          (is, d1) = intern_all (map fst m) d;
          entries = sort_key fst (zip is (map snd m));
          table_start = length out1;
          out2 = out1 @ entry_slots (map fst entries)
      in encode_entries table_start (length out2) 0 entries (d1, out2))"
| "encode_items [] st = st"
| "encode_items (v # vs) st = encode_items vs (encode_value v st)"
| "encode_entries table_start values_base i [] st = st"
| "encode_entries table_start values_base i ((_, v) # es) (d, out) =
     (let offset = of_nat (length out - values_base) :: u32;
          slot = table_start + i * 8 + 4
      in encode_entries table_start values_base (i + 1) es
           (encode_value v (d, patch slot (u32_bytes offset) out)))"
  by pat_completeness auto

fun value_weight :: "value \<Rightarrow> nat" where
  "value_weight (VArray vs) = 1 + sum_list (map value_weight vs)"
| "value_weight (VObject m) = 1 + sum_list (map (\<lambda>(k, v). value_weight v) m)"
| "value_weight _ = 1"

lemma value_weight_pos: "0 < value_weight v"
  by (cases v) simp_all

lemma length_intern_all: "length (fst (intern_all names d)) = length names"
  by (induction names arbitrary: d) (simp_all split: prod.splits, metis fst_conv)

lemma sum_list_sort_key:
  fixes f :: "'a \<Rightarrow> nat"
  shows "sum_list (map f (sort_key k xs)) = sum_list (map f xs)"
  by (metis mset_map mset_sort sum_mset_sum_list)

lemma sum_weights_zip:
  "length is = length m \<Longrightarrow>
   sum_list (map (\<lambda>e. value_weight (snd e)) (zip is (map snd m))) = sum_list (map (\<lambda>(k, v). value_weight v) m)"
  by (induction "is" m rule: list_induct2) auto

termination encode_value
proof (relation "measure (\<lambda>x. case x of
    Inl (v, st) \<Rightarrow> 2 * value_weight v
  | Inr (Inl (vs, st)) \<Rightarrow> 2 * sum_list (map value_weight vs) + 1
  | Inr (Inr (a, b, i, es, st)) \<Rightarrow> 2 * sum_list (map (\<lambda>e. value_weight (snd e)) es) + 1)", goal_cases)
  case (3 m d out x xa y)
  then have "fst (intern_all (map fst m) d) = y" by (metis fst_conv)
  then have "length y = length m" using length_intern_all [of "map fst m" d] by simp
  with 3 show ?case by (simp add: sum_list_sort_key sum_weights_zip)
qed (auto simp: value_weight_pos)

definition head_len_for :: "string \<Rightarrow> nat" where
  "head_len_for i = head_id_offset + varint_len (of_nat (length i)) + length i"

definition encode_head :: "string \<Rightarrow> bytes \<Rightarrow> i64 \<Rightarrow> u32 \<Rightarrow> u32 \<Rightarrow> bytes \<Rightarrow> bytes \<times> nat" where
  "encode_head i digest rv body_rel body_len out =
     (let out' = out @ digest @ u64_bytes rv @ u32_bytes body_rel @ u32_bytes body_len
                 @ write_varint (of_nat (length i)) @ str_as_bytes i
      in (out', length out' - length out))"

definition record_rv :: "value \<Rightarrow> i64" where
  "record_rv v = (case value_get v ''_00_rv'' of Some (VInt rv) \<Rightarrow> rv | _ \<Rightarrow> rv_absent)"

definition encode_record :: "string \<Rightarrow> value \<Rightarrow> bytes \<Rightarrow> field_dict \<Rightarrow> bytes \<times> field_dict \<times> nat" where
  "encode_record i v digest d =
     (let (out1, head_len) = encode_head i digest (record_rv v) (of_nat (head_len_for i)) 0 [];
          (d', out2) = encode_value v (d, out1);
          body_len = of_nat (length out2 - head_len) :: u32
      in (patch head_body_len_offset (u32_bytes body_len) out2, d', head_len))"

definition relink_head :: "bytes \<Rightarrow> u32 \<Rightarrow> bytes \<Rightarrow> bytes" where
  "relink_head head body_rel out =
     out @ take head_body_rel_offset head @ u32_bytes body_rel @ drop head_body_len_offset head"

subsection \<open>Reading heads\<close>

definition head_len :: "bytes \<Rightarrow> nat option" where
  "head_len bs =
     Option.bind (slice_from head_id_offset bs) (\<lambda>rest.
     Option.bind (read_varint rest) (\<lambda>(len, n).
       let end = head_id_offset + n + unat len
       in if end < 2 ^ 64 \<and> end \<le> length bs then Some end else None))"

definition head_digest :: "bytes \<Rightarrow> bytes option" where
  "head_digest head = slice 0 32 head"

definition head_rv_raw :: "bytes \<Rightarrow> i64 option" where
  "head_rv_raw head =
     map_option (\<lambda>bs. of_nat (le_nat bs)) (slice head_rv_offset (head_rv_offset + 8) head)"

definition head_rv :: "bytes \<Rightarrow> i64 option" where
  "head_rv head =
     Option.bind (head_rv_raw head) (\<lambda>raw. if raw \<noteq> rv_absent then Some raw else None)"

definition head_body_rel :: "bytes \<Rightarrow> u32 option" where
  "head_body_rel head =
     map_option (\<lambda>bs. of_nat (le_nat bs)) (slice head_body_rel_offset (head_body_rel_offset + 4) head)"

definition head_body_len :: "bytes \<Rightarrow> u32 option" where
  "head_body_len head =
     map_option (\<lambda>bs. of_nat (le_nat bs)) (slice head_body_len_offset (head_body_len_offset + 4) head)"

definition head_id :: "bytes \<Rightarrow> string option" where
  "head_id head =
     Option.bind (slice_from head_id_offset head) (\<lambda>rest.
     Option.bind (read_varint rest) (\<lambda>(len, n).
       let start = head_id_offset + n; end = start + unat len
       in if end < 2 ^ 64 then Option.bind (slice start end head) from_utf8 else None))"

definition record_body :: "bytes \<Rightarrow> bytes" where
  "record_body record =
     (case (head_body_rel record, head_body_len record) of
        (Some rel, Some len) \<Rightarrow>
          (case slice (unat rel) (unat rel + unat len) record of Some b \<Rightarrow> b | None \<Rightarrow> [])
      | _ \<Rightarrow> [])"

subsection \<open>Structural reads\<close>

text \<open>The \<^verbatim>\<open>?\<close> operator in code that may also abort.\<close>

definition try_opt :: "'a option \<Rightarrow> ('a \<Rightarrow> 'b option outcome) \<Rightarrow> 'b option outcome" where
  "try_opt x f = (case x of None \<Rightarrow> Ret None | Some a \<Rightarrow> f a)"

definition try_out :: "'a option outcome \<Rightarrow> ('a \<Rightarrow> 'b option outcome) \<Rightarrow> 'b option outcome" where
  "try_out x f = (case x of Panic \<Rightarrow> Panic | Ret None \<Rightarrow> Ret None | Ret (Some a) \<Rightarrow> f a)"

fun skip_values :: "(bytes \<Rightarrow> nat option outcome) \<Rightarrow> bytes \<Rightarrow> nat \<Rightarrow> nat \<Rightarrow> nat option outcome" where
  "skip_values skip bs 0 at = Ret (Some at)"
| "skip_values skip bs (Suc cnt) at =
     try_opt (slice_from at bs) (\<lambda>rest.
     try_out (skip rest) (\<lambda>n. skip_values skip bs cnt (us (at + n))))"

fun value_len :: "nat \<Rightarrow> bytes \<Rightarrow> nat option outcome" where
  "value_len 0 bs = Panic"
| "value_len (Suc stack) [] = Ret None"
| "value_len (Suc stack) (tag # rest) =
     (if tag = 0 \<or> tag = 1 \<or> tag = 2 then Ret (Some 1)
      else if tag = 3 \<or> tag = 4 then Ret (Some 9)
      else if tag = 5 then
        try_opt (read_varint rest) (\<lambda>(len, n). Ret (Some (us (1 + n + unat len))))
      else if tag = 6 then
        try_opt (read_varint rest) (\<lambda>(cnt, n).
          skip_values (value_len stack) (tag # rest) (unat cnt) (1 + n))
      else if tag = 7 then
        try_opt (read_varint rest) (\<lambda>(cnt, n).
          skip_values (value_len stack) (tag # rest) (unat cnt) (us (1 + n + us (unat cnt * 8))))
      else Ret None)"

record obj_parts =
  op_table :: bytes
  op_values :: bytes
  op_count :: nat

definition obj_parts_of :: "bytes \<Rightarrow> obj_parts option" where
  "obj_parts_of bs =
     (case bs of
        [] \<Rightarrow> None
      | tag # rest \<Rightarrow>
          if tag \<noteq> 7 then None
          else Option.bind (read_varint rest) (\<lambda>(cnt, n).
            let table_start = 1 + n;
                values_base = us (table_start + us (unat cnt * 8))
            in Option.bind (slice table_start values_base bs) (\<lambda>table.
               Option.bind (slice_from values_base bs) (\<lambda>vals.
                 Some \<lparr>op_table = table, op_values = vals, op_count = unat cnt\<rparr>))))"

definition table_u32 :: "obj_parts \<Rightarrow> nat \<Rightarrow> u32 option" where
  "table_u32 p at = map_option (\<lambda>bs. of_nat (le_nat bs)) (slice at (at + 4) (op_table p))"

text \<open>The search reads the entry count from the bytes; with a count above \<open>2 ^ 63\<close> the sum of its
  bounds wraps and it need not end, hence the outer option.\<close>

partial_function (option) obj_search :: "obj_parts \<Rightarrow> u32 \<Rightarrow> nat \<Rightarrow> nat \<Rightarrow> bytes option option" where
  "obj_search p name_id lo hi =
     (if hi \<le> lo then Some None
      else let mid = us (lo + hi) div 2; at = us (mid * 8)
           in case table_u32 p at of
                None \<Rightarrow> Some None
              | Some i \<Rightarrow>
                  if i < name_id then obj_search p name_id (mid + 1) hi
                  else if name_id < i then obj_search p name_id lo mid
                  else Some (Option.bind (table_u32 p (at + 4)) (\<lambda>off.
                         slice_from (unat off) (op_values p))))"

definition obj_lookup :: "bytes \<Rightarrow> u32 \<Rightarrow> bytes option option" where
  "obj_lookup bs name_id =
     (case obj_parts_of bs of
        None \<Rightarrow> Some None
      | Some p \<Rightarrow> obj_search p name_id 0 (op_count p))"

definition obj_entry_at :: "bytes \<Rightarrow> nat \<Rightarrow> (u32 \<times> bytes) option" where
  "obj_entry_at bs i =
     Option.bind (obj_parts_of bs) (\<lambda>p.
       if op_count p \<le> i then None
       else let at = us (i * 8)
            in Option.bind (table_u32 p at) (\<lambda>name_id.
               Option.bind (table_u32 p (at + 4)) (\<lambda>off.
               Option.bind (slice_from (unat off) (op_values p)) (\<lambda>v. Some (name_id, v)))))"

definition str_bytes :: "bytes \<Rightarrow> string option" where
  "str_bytes bs =
     (case bs of
        [] \<Rightarrow> None
      | tag # rest \<Rightarrow>
          if tag \<noteq> 5 then None
          else Option.bind (read_varint rest) (\<lambda>(len, n).
               Option.bind (slice (1 + n) (us (1 + n + unat len)) bs) from_utf8))"

definition arr_parts :: "bytes \<Rightarrow> (nat \<times> bytes) option" where
  "arr_parts bs =
     (case bs of
        [] \<Rightarrow> None
      | tag # rest \<Rightarrow>
          if tag \<noteq> 6 then None
          else Option.bind (read_varint rest) (\<lambda>(cnt, n).
               map_option (\<lambda>els. (unat cnt, els)) (slice_from (1 + n) bs)))"

subsection \<open>Decoding\<close>

record alloc =
  al_vec :: nat
  al_map :: nat

fun decode_items :: "(bytes \<Rightarrow> value option outcome) \<Rightarrow> (bytes \<Rightarrow> nat option outcome) \<Rightarrow> bytes
    \<Rightarrow> nat \<Rightarrow> nat \<Rightarrow> value list option outcome" where
  "decode_items decode skip rest 0 at = Ret (Some [])"
| "decode_items decode skip rest (Suc cnt) at =
     try_opt (slice_from at rest) (\<lambda>bs.
     try_out (decode bs) (\<lambda>v.
     try_out (skip bs) (\<lambda>n.
     try_out (decode_items decode skip rest cnt (us (at + n))) (\<lambda>vs. Ret (Some (v # vs))))))"

fun decode_fields :: "(bytes \<Rightarrow> value option outcome) \<Rightarrow> field_dict \<Rightarrow> bytes \<Rightarrow> nat \<Rightarrow> nat
    \<Rightarrow> (string \<times> value) list \<Rightarrow> (string \<times> value) list option outcome" where
  "decode_fields decode d bs i 0 m = Ret (Some m)"
| "decode_fields decode d bs i (Suc cnt) m =
     try_opt (obj_entry_at bs i) (\<lambda>(name_id, v_bytes).
     try_opt (name_of d name_id) (\<lambda>name.
     try_out (decode v_bytes) (\<lambda>v. decode_fields decode d bs (i + 1) cnt (hm_insert name v m))))"

fun decode_value :: "alloc \<Rightarrow> field_dict \<Rightarrow> nat \<Rightarrow> bytes \<Rightarrow> value option outcome" where
  "decode_value al d 0 bs = Panic"
| "decode_value al d (Suc stack) [] = Ret None"
| "decode_value al d (Suc stack) (tag # rest) =
     (if tag = 0 then Ret (Some VNull)
      else if tag = 1 then Ret (Some (VBool False))
      else if tag = 2 then Ret (Some (VBool True))
      else if tag = 3 then
        try_opt (slice 1 9 (tag # rest)) (\<lambda>bs. Ret (Some (VInt (of_nat (le_nat bs)))))
      else if tag = 4 then
        try_opt (slice 1 9 (tag # rest)) (\<lambda>bs. Ret (Some (VFloat (of_nat (le_nat bs)))))
      else if tag = 5 then
        try_opt (read_varint rest) (\<lambda>(len, n).
        try_opt (slice (1 + n) (us (1 + n + unat len)) (tag # rest)) (\<lambda>raw.
        try_opt (from_utf8 raw) (\<lambda>s. Ret (Some (VStr s)))))
      else if tag = 6 then
        try_opt (arr_parts (tag # rest)) (\<lambda>(cnt, els).
          if al_vec al < cnt then Panic
          else try_out (decode_items (decode_value al d stack) (value_len stack) els cnt 0)
                 (\<lambda>vs. Ret (Some (VArray vs))))
      else if tag = 7 then
        try_opt (obj_parts_of (tag # rest)) (\<lambda>p.
          if al_map al < op_count p then Panic
          else try_out (decode_fields (decode_value al d stack) d (tag # rest) 0 (op_count p) [])
                 (\<lambda>m. Ret (Some (VObject m))))
      else Ret None)"

subsection \<open>Reading in place\<close>

text \<open>The flat backend of \<^verbatim>\<open>ValueRef\<close>: a container is its encoded bytes.\<close>

datatype flat_ref =
    FMissing
  | FNull
  | FBool bool
  | FInt i64
  | FFloat f64
  | FStr string
  | FArr bytes
  | FObj bytes

definition flat_value :: "bytes \<Rightarrow> flat_ref" where
  "flat_value bs =
     (case bs of
        [] \<Rightarrow> FMissing
      | tag # _ \<Rightarrow>
          if tag = 0 then FNull
          else if tag = 1 then FBool False
          else if tag = 2 then FBool True
          else if tag = 3 then
            (case slice 1 9 bs of Some b \<Rightarrow> FInt (of_nat (le_nat b)) | None \<Rightarrow> FMissing)
          else if tag = 4 then
            (case slice 1 9 bs of Some b \<Rightarrow> FFloat (of_nat (le_nat b)) | None \<Rightarrow> FMissing)
          else if tag = 5 then (case str_bytes bs of Some s \<Rightarrow> FStr s | None \<Rightarrow> FMissing)
          else if tag = 6 then FArr bs
          else if tag = 7 then FObj bs
          else FMissing)"

definition flat_get :: "field_dict \<Rightarrow> flat_ref \<Rightarrow> string \<Rightarrow> flat_ref option" where
  "flat_get d r key =
     (case r of
        FObj bs \<Rightarrow>
          (case id_of d key of
             None \<Rightarrow> Some FMissing
           | Some i \<Rightarrow>
               map_option (\<lambda>found. case found of Some v \<Rightarrow> flat_value v | None \<Rightarrow> FMissing)
                 (obj_lookup bs i))
      | _ \<Rightarrow> Some FMissing)"

definition flat_is_record_ref :: "flat_ref \<Rightarrow> bool" where
  "flat_is_record_ref r = (case r of FStr s \<Rightarrow> CHR '':'' \<in> set s | _ \<Rightarrow> False)"

fun flat_resolve :: "field_dict \<Rightarrow> flat_ref \<Rightarrow> string list \<Rightarrow> flat_ref option" where
  "flat_resolve d current [] = Some current"
| "flat_resolve d current (segment # rest) =
     (if segment = ''id'' \<and> flat_is_record_ref current then Some current
      else case flat_get d current segment of
             None \<Rightarrow> None
           | Some nxt \<Rightarrow> if nxt = FMissing then Some FMissing else flat_resolve d nxt rest)"

definition flat_to_owned :: "alloc \<Rightarrow> field_dict \<Rightarrow> nat \<Rightarrow> flat_ref \<Rightarrow> value outcome" where
  "flat_to_owned al d stack r =
     (let decoded = (\<lambda>bs. case decode_value al d stack bs of
                              Panic \<Rightarrow> Panic
                            | Ret v \<Rightarrow> Ret (case v of Some v \<Rightarrow> v | None \<Rightarrow> VNull))
      in case r of
           FMissing \<Rightarrow> Ret VNull | FNull \<Rightarrow> Ret VNull | FBool b \<Rightarrow> Ret (VBool b) | FInt i \<Rightarrow> Ret (VInt i)
         | FFloat f \<Rightarrow> Ret (VFloat f) | FStr s \<Rightarrow> Ret (VStr s) | FArr bs \<Rightarrow> decoded bs | FObj bs \<Rightarrow> decoded bs)"

end
