(* ===== verification/Row_Encoding.thy ===== *)
theory Row_Encoding
  imports Row_Codec "HOL-Library.Sublist"
begin

section \<open>The encoding of rows is read back exactly\<close>

text \<open>
  What \<^verbatim>\<open>row_codec.rs\<close> promises: the readers of a record find what the encoder wrote, whatever
  bytes follow it. The relation \<open>encodes d v bs\<close> describes the layout once: \<open>bs\<close> is an encoding of
  \<open>v\<close> under the dictionary \<open>d\<close>. The encoder produces such bytes; the skipper, the decoder and the
  in-place reads are characterised on them.
\<close>

subsection \<open>Integers and strings\<close>

lemma length_le_bytes [simp]: "length (le_bytes k n) = k"
  by (induction k n rule: le_bytes.induct) simp_all

lemma le_nat_le_bytes: "le_nat (le_bytes k n) = n mod 256 ^ k"
proof (induction k n rule: le_bytes.induct)
  case (2 k n)
  have "unat (of_nat (n mod 256) :: byte) = n mod 256" by (simp add: unat_of_nat)
  with 2 show ?case by (simp add: mod_mult2_eq)
qed simp

lemma unat_bounds: "unat (w :: u32) < 2 ^ 32" "unat (x :: u64) < 2 ^ 64"
  using unsigned_less [of w, where ?'a = nat] unsigned_less [of x, where ?'a = nat] by simp_all

lemma le_nat_u32_bytes [simp]: "le_nat (u32_bytes w) = unat w" "length (u32_bytes w) = 4"
  using unat_bounds(1) [of w] by (simp_all add: u32_bytes_def le_nat_le_bytes)

lemma le_nat_u64_bytes [simp]: "le_nat (u64_bytes w) = unat w" "length (u64_bytes w) = 8"
  using unat_bounds(2) [of w] by (simp_all add: u64_bytes_def le_nat_le_bytes)

lemma length_str_as_bytes [simp]: "length (str_as_bytes s) = length s"
  by (simp add: str_as_bytes_def)

lemma bytes_as_str_as_bytes [simp]: "bytes_as_str (str_as_bytes s) = s"
proof -
  have "char_of (unat (of_nat (of_char c) :: byte)) = c" for c
    by (simp add: unat_of_nat char_of_mod_256)
  then show ?thesis by (simp add: bytes_as_str_def str_as_bytes_def comp_def)
qed

lemma us_small [simp]: "n < 2 ^ 64 \<Longrightarrow> us n = n"
  by (simp add: us_def)

lemma slice_append [simp]: "length xs = a \<Longrightarrow> slice a (a + length ys) (xs @ ys @ zs) = Some ys"
  by (auto simp: slice_def)

lemma slice_from_append [simp]: "length xs = a \<Longrightarrow> slice_from a (xs @ ys) = Some ys"
  by (auto simp: slice_from_def)

lemma patch_middle: "length xs = pos \<Longrightarrow> length ys = length ys' \<Longrightarrow> patch pos ys' (xs @ ys @ zs) = xs @ ys' @ zs"
  by (simp add: patch_def)

subsection \<open>Variable-length integers\<close>

lemma length_write_varint: "length (write_varint v) = varint_len v"
proof (induction v rule: write_varint.induct)
  case (1 v)
  show ?case
  proof (cases "drop_bit 7 v = 0")
    case True
    then show ?thesis by (subst write_varint.simps) (simp add: varint_len_def varint_count.simps [of 0])
  next
    case False
    then show ?thesis
      using 1 [OF refl refl] by (subst write_varint.simps) (simp add: varint_len_def varint_count.simps [of "drop_bit 7 v"])
  qed
qed

lemma varint_len_pos [simp]: "0 < varint_len v"
  by (simp add: varint_len_def)

lemma varint_count_bound: "unat v < 128 ^ k \<Longrightarrow> varint_count v \<le> k"
proof (induction k arbitrary: v)
  case (Suc k)
  then have "unat (drop_bit 7 v) < 128 ^ k" unfolding unat_drop_bit_7 by (simp add: less_mult_imp_div_less mult.commute)
  with Suc.IH show ?case by (subst varint_count.simps) simp
qed (simp add: varint_count.simps unat_eq_0)

lemma varint_len_bound: "varint_len v \<le> 10"
proof -
  have "unat v < 128 ^ 10" using unat_bounds(2) [of v] by simp
  then have "unat (drop_bit 7 v) < 128 ^ 9" unfolding unat_drop_bit_7 by (simp add: less_mult_imp_div_less)
  from varint_count_bound [OF this] show ?thesis by (simp add: varint_len_def)
qed

lemma byte_masks:
  fixes v :: u64
  defines "b \<equiv> ucast (v AND 0x7f) :: byte"
  shows "ucast (b AND 0x7f) = take_bit 7 v" "ucast ((b OR 0x80) AND 0x7f) = take_bit 7 v"
    "b AND 0x80 = 0" "(b OR 0x80) AND 0x80 \<noteq> 0"
proof -
  have m: "(0x7f :: byte) = mask 7" "(0x7f :: u64) = mask 7" by (simp_all add: mask_eq_exp_minus_1)
  have h: "bit (0x80 :: byte) n \<longleftrightarrow> n = 7" for n
    using bit_exp_iff [of 7 n, where ?'a = byte] by auto
  have h': "bit (0x80 :: int) n \<longleftrightarrow> n = 7" for n
    using bit_exp_iff [of 7 n, where ?'a = int] by auto
  show "ucast (b AND 0x7f) = take_bit 7 v"
    unfolding b_def m by (rule bit_word_eqI) (auto simp: bit_simps h h')
  show "ucast ((b OR 0x80) AND 0x7f) = take_bit 7 v"
    unfolding b_def m by (rule bit_word_eqI) (auto simp: bit_simps h h')
  show "b AND 0x80 = 0"
    unfolding b_def m by (rule bit_word_eqI) (auto simp: bit_simps h h')
  have "bit ((b OR 0x80) AND 0x80) 7" by (simp add: bit_simps h h')
  then show "(b OR 0x80) AND 0x80 \<noteq> 0" by auto
qed

lemma take_bit_step:
  "take_bit s v OR push_bit s (take_bit 7 (drop_bit s v)) = take_bit (s + 7) (v :: u64)"
  by (rule bit_word_eqI) (auto simp: bit_simps)

lemma drop_bit_shift: "drop_bit 7 (drop_bit s v) = drop_bit (s + 7) (v :: u64)"
  by (simp add: add.commute)

lemma read_varint_loop_write:
  "w = drop_bit s v \<Longrightarrow> s < 64 \<Longrightarrow>
   read_varint_loop i s (take_bit s v) (write_varint w @ zs) = Some (v, i + length (write_varint w))"
proof (induction w arbitrary: i s rule: write_varint.induct)
  case (1 w)
  note masks = byte_masks [of w]
  show ?case
  proof (cases "drop_bit 7 w = 0")
    case True
    then have top: "take_bit (s + 7) v = v"
      using 1(2) drop_bit_shift [of s v] by (simp add: take_bit_eq_self_iff_drop_bit_eq_0)
    from True show ?thesis
      using 1(3) masks(1,3) top take_bit_step [of s v] 1(2)
      by (subst (1 2) write_varint.simps) (simp add: Let_def)
  next
    case False
    then have "s + 7 < 64"
      using 1(2) drop_bit_shift [of s v] by (rule_tac ccontr) (simp add: drop_bit_eq_zero_iff_not_bit_last)
    moreover from False have "read_varint_loop (i + 1) (s + 7) (take_bit (s + 7) v) (write_varint (drop_bit 7 w) @ zs)
        = Some (v, i + 1 + length (write_varint (drop_bit 7 w)))"
      using 1(2) drop_bit_shift [of s v] calculation by (intro 1(1)) simp_all
    ultimately show ?thesis
      using False 1(2,3) masks(2,4) take_bit_step [of s v]
      by (subst (1 2) write_varint.simps) (simp add: Let_def)
  qed
qed

lemma read_write_varint [simp]: "read_varint (write_varint v @ zs) = Some (v, varint_len v)"
  using read_varint_loop_write [of v 0 v 0 zs] by (simp add: read_varint_def length_write_varint)

subsection \<open>The dictionary\<close>

definition dict_ok :: "field_dict \<Rightarrow> bool" where
  "dict_ok d \<longleftrightarrow> distinct (fd_names d) \<and> length (fd_names d) \<le> 2 ^ 32
     \<and> (\<forall>name i. hm_get (fd_ids d) name = Some i
           \<longleftrightarrow> unat i < length (fd_names d) \<and> fd_names d ! unat i = name)"

definition dict_le :: "field_dict \<Rightarrow> field_dict \<Rightarrow> bool" where
  "dict_le d d' \<longleftrightarrow> prefix (fd_names d) (fd_names d')"

lemma dict_le_refl [simp]: "dict_le d d"
  by (simp add: dict_le_def)

lemma dict_le_trans [trans]: "dict_le a b \<Longrightarrow> dict_le b c \<Longrightarrow> dict_le a c"
  by (auto simp: dict_le_def)

lemma name_of_le: "dict_le d d' \<Longrightarrow> name_of d i = Some s \<Longrightarrow> name_of d' i = Some s"
  by (auto simp: dict_le_def name_of_def prefix_def nth_append split: if_splits)

lemma id_of_iff: "dict_ok d \<Longrightarrow> id_of d name = Some i \<longleftrightarrow> name_of d i = Some name"
  by (auto simp: dict_ok_def id_of_def name_of_def)

lemma name_of_inj:
  "dict_ok d \<Longrightarrow> name_of d i = Some s \<Longrightarrow> name_of d j = Some s \<Longrightarrow> i = j"
  by (metis id_of_iff option.inject)

lemma dict_ok_new [simp]: "dict_ok dict_new"
  by (simp add: dict_ok_def dict_new_def)

lemma intern_le: "intern s d = (i, d') \<Longrightarrow> dict_le d d'"
  by (auto simp: intern_def dict_le_def Let_def split: option.splits)

lemma intern_ok:
  assumes "intern s d = (i, d')" and ok: "dict_ok d" and "length (fd_names d') \<le> 2 ^ 32"
  shows "dict_ok d' \<and> name_of d' i = Some s"
proof (cases "hm_get (fd_ids d) s")
  case (Some j)
  with assms show ?thesis by (auto simp: intern_def dict_ok_def name_of_def)
next
  case None
  let ?n = "length (fd_names d)"
  from None assms(1) have d': "d' = \<lparr>fd_names = fd_names d @ [s], fd_ids = hm_insert s (of_nat ?n) (fd_ids d)\<rparr>"
    and i: "i = of_nat ?n" by (auto simp: intern_def Let_def)
  with assms(3) have n: "unat (of_nat ?n :: u32) = ?n" by (simp add: unat_of_nat)
  have of_nat_below: "unat (of_nat j :: u32) = j" if "j < ?n" for j
    using that ok by (simp add: dict_ok_def unat_of_nat)
  have new: "s \<notin> set (fd_names d)"
  proof
    assume "s \<in> set (fd_names d)"
    then obtain j where j: "j < ?n" "fd_names d ! j = s" by (auto simp: in_set_conv_nth)
    then have "hm_get (fd_ids d) s = Some (of_nat j)"
      using ok of_nat_below [OF j(1)] by (simp add: dict_ok_def)
    with None show False by simp
  qed
  have "hm_get (fd_ids d') t = Some j \<longleftrightarrow> unat j < length (fd_names d') \<and> fd_names d' ! unat j = t" for t j
    using ok new n unfolding d' dict_ok_def
    by (auto simp: nth_append less_Suc_eq word_unat_eq_iff dest: nth_mem)
  with ok new d' i n assms(3) show ?thesis by (auto simp: dict_ok_def name_of_def)
qed

lemma intern_all_le: "dict_le d (snd (intern_all names d))"
proof (induction names arbitrary: d)
  case (Cons s names)
  obtain i d1 where "intern s d = (i, d1)" by fastforce
  moreover from this have "dict_le d d1" by (rule intern_le)
  ultimately show ?case using Cons.IH [of d1] by (auto split: prod.splits intro: dict_le_trans)
qed simp

lemma dict_le_length: "dict_le d d' \<Longrightarrow> length (fd_names d) \<le> length (fd_names d')"
  by (auto simp: dict_le_def prefix_length_le)

lemma intern_all_ok:
  "intern_all names d = (is, d') \<Longrightarrow> dict_ok d \<Longrightarrow> length (fd_names d') \<le> 2 ^ 32 \<Longrightarrow>
   dict_ok d' \<and> list_all2 (\<lambda>i s. name_of d' i = Some s) is names"
proof (induction names arbitrary: d "is")
  case (Cons s names)
  obtain i d1 where 1: "intern s d = (i, d1)" by fastforce
  obtain js d2 where 2: "intern_all names d1 = (js, d2)" by fastforce
  from 1 2 Cons.prems(1) have eq: "is = i # js" "d2 = d'" by simp_all
  from intern_all_le [of d1 names] 2 eq have le: "dict_le d1 d'" by simp
  with Cons.prems(3) have "length (fd_names d1) \<le> 2 ^ 32" using dict_le_length order_trans by blast
  with 1 Cons.prems(2) have ok: "dict_ok d1" "name_of d1 i = Some s" using intern_ok by blast+
  from Cons.IH [OF _ ok(1) Cons.prems(3)] 2 eq name_of_le [OF le ok(2)] show ?case by simp
qed simp

subsection \<open>The layout\<close>

fun value_wf :: "value \<Rightarrow> bool" where
  "value_wf (VArray vs) = list_all value_wf vs"
| "value_wf (VObject m) = (hm_wf m \<and> list_all (\<lambda>(k, v). value_wf v) m)"
| "value_wf _ = True"

fun entry_table :: "nat \<Rightarrow> (u32 \<times> value \<times> bytes) list \<Rightarrow> bytes" where
  "entry_table off [] = []"
| "entry_table off ((i, v, bs) # rows) =
     u32_bytes i @ u32_bytes (of_nat off) @ entry_table (off + length bs) rows"

inductive encodes :: "field_dict \<Rightarrow> value \<Rightarrow> bytes \<Rightarrow> bool" for d where
  enc_null: "encodes d VNull [0]"
| enc_bool: "encodes d (VBool b) [if b then 2 else 1]"
| enc_int: "encodes d (VInt i) (3 # u64_bytes i)"
| enc_float: "encodes d (VFloat f) (4 # u64_bytes f)"
| enc_str: "encodes d (VStr s) (5 # write_varint (of_nat (length s)) @ str_as_bytes s)"
| enc_array: "list_all2 (encodes d) vs bss \<Longrightarrow>
    encodes d (VArray vs) (6 # write_varint (of_nat (length vs)) @ concat bss)"
| enc_object: "(\<And>i v bs. (i, v, bs) \<in> set rows \<Longrightarrow> encodes d v bs) \<Longrightarrow>
    sorted_wrt (<) (map fst rows) \<Longrightarrow>
    mset (map (\<lambda>(i, v, bs). (name_of d i, v)) rows) = mset (map (\<lambda>(k, v). (Some k, v)) m) \<Longrightarrow>
    encodes d (VObject m)
      (7 # write_varint (of_nat (length m)) @ entry_table 0 rows @ concat (map (\<lambda>(i, v, bs). bs) rows))"

lemma encodes_objectD:
  assumes "encodes d (VObject m) enc"
  shows "\<exists>rows. (\<forall>i v bs. (i, v, bs) \<in> set rows \<longrightarrow> encodes d v bs) \<and> sorted_wrt (<) (map fst rows)
     \<and> mset (map (\<lambda>(i, v, bs). (name_of d i, v)) rows) = mset (map (\<lambda>(k, v). (Some k, v)) m)
     \<and> enc = 7 # write_varint (of_nat (length m)) @ entry_table 0 rows @ concat (map (\<lambda>(i, v, bs). bs) rows)"
  using assms
proof (cases rule: encodes.cases)
  case (enc_object rows)
  then show ?thesis by (intro exI [of _ rows]) (simp del: mset_map)
qed

lemma length_entry_slots [simp]: "length (entry_slots is) = 8 * length is"
  by (induction "is") simp_all

lemma length_entry_table [simp]: "length (entry_table off rows) = 8 * length rows"
  by (induction off rows rule: entry_table.induct) simp_all

lemma encode_dict_le:
  "dict_le (fst st) (fst (encode_value v st))"
  "dict_le (fst st) (fst (encode_items vs st))"
  "dict_le (fst st) (fst (encode_entries a b i es st))"
proof (induction v st and vs st and a b i es st rule: encode_value_encode_items_encode_entries.induct)
  case (7 m d out)
  obtain js d1 where "intern_all (map fst m) d = (js, d1)" by fastforce
  with 7 intern_all_le [of d "map fst m"] show ?case
    by (auto simp: Let_def ac_simps intro: dict_le_trans)
next
  case (11 ts vb i u v es d out)
  from dict_le_trans [OF 11(1) [OF refl refl] 11(2) [OF refl refl]] show ?case by (simp add: Let_def)
qed (auto intro: dict_le_trans)

lemma sorted_wrt_sort_key:
  assumes "distinct (map fst es)"
  shows "sorted_wrt (<) (map fst (sort_key fst (es :: (u32 \<times> 'a) list)))"
proof -
  have "distinct (map fst (sort_key fst es))"
    using assms by (metis distinct_map distinct_sort set_sort)
  then show ?thesis by (simp add: strict_sorted_iff)
qed

lemma concat_rows: "length bss = length es \<Longrightarrow>
    concat (map (\<lambda>(i, v, bs). bs) (map2 (\<lambda>(i, v) bs. (i, v, bs)) es bss)) = concat bss"
  by (induction es bss rule: list_induct2') auto

lemma encode_object:
  assumes "intern_all (map fst m) d = (is, d1)" and ok: "dict_ok d1"
    and names: "list_all2 (\<lambda>i s. name_of d1 i = Some s) is (map fst m)"
    and wf: "hm_wf m" and es: "es = sort_key fst (zip is (map snd m))"
    and bss: "list_all2 (\<lambda>e bs. encodes D (snd e) bs) es bss"
    and le: "dict_le d1 D"
  defines "rows \<equiv> map2 (\<lambda>(i, v) bs. (i, v, bs)) es bss"
  shows "encodes D (VObject m) (7 # write_varint (of_nat (length m)) @ entry_table 0 rows @ concat bss)"
proof -
  have len: "length bss = length es" using bss by (simp add: list_all2_lengthD)
  have dist: "distinct is"
    using names wf ok unfolding hm_wf_def list_all2_conv_all_nth distinct_conv_nth
    by (metis (no_types, lifting) option.inject)
  then have "distinct (map fst (zip is (map snd m)))"
    using names by (simp add: list_all2_lengthD)
  from sorted_wrt_sort_key [OF this] have sorted: "sorted_wrt (<) (map fst es)" by (simp add: es)
  have fst: "map fst rows = map fst es" and snd: "map (\<lambda>(i, v, bs). (name_of D i, v)) rows = map (\<lambda>(i, v). (name_of D i, v)) es"
    using len by (auto simp: rows_def list_eq_iff_nth_eq split_beta)
  have "mset (map (\<lambda>(i, v). (name_of D i, v)) es) = mset (map (\<lambda>(i, v). (name_of D i, v)) (zip is (map snd m)))"
    by (simp add: es)
  also have "map (\<lambda>(i, v). (name_of D i, v)) (zip is (map snd m)) = map (\<lambda>(k, v). (Some k, v)) m"
    using names name_of_le [OF le]
    by (auto simp: list_eq_iff_nth_eq list_all2_conv_all_nth split_beta)
  finally have ms: "mset (map (\<lambda>(i, v, bs). (name_of D i, v)) rows) = mset (map (\<lambda>(k, v). (Some k, v)) m)"
    by (simp add: snd)
  have el: "encodes D v bs" if "(i, v, bs) \<in> set rows" for i v bs
    using that bss by (auto simp: rows_def set_zip list_all2_conv_all_nth split_beta)
  have "concat (map (\<lambda>(i, v, bs). bs) rows) = concat bss" unfolding rows_def by (rule concat_rows [OF len])
  with enc_object [where rows = rows and d = D and m = m, OF el] sorted fst ms show ?thesis by simp
qed

definition emits_value :: "enc_state \<Rightarrow> value \<Rightarrow> enc_state \<Rightarrow> bool" where
  "emits_value st v st' \<longleftrightarrow>
     dict_ok (fst st') \<and> (\<exists>bs. snd st' = snd st @ bs \<and> (\<forall>D. dict_le (fst st') D \<longrightarrow> encodes D v bs))"

definition emits_items :: "enc_state \<Rightarrow> value list \<Rightarrow> enc_state \<Rightarrow> bool" where
  "emits_items st vs st' \<longleftrightarrow>
     dict_ok (fst st')
     \<and> (\<exists>bss. snd st' = snd st @ concat bss \<and> (\<forall>D. dict_le (fst st') D \<longrightarrow> list_all2 (encodes D) vs bss))"

definition emits_entries :: "bytes \<Rightarrow> bytes \<Rightarrow> (u32 \<times> value) list \<Rightarrow> enc_state \<Rightarrow> bool" where
  "emits_entries pre vals es st' \<longleftrightarrow>
     dict_ok (fst st')
     \<and> (\<exists>bss. length bss = length es
          \<and> snd st' = pre @ entry_table (length vals) (map2 (\<lambda>(i, v) bs. (i, v, bs)) es bss) @ vals @ concat bss
          \<and> (\<forall>D. dict_le (fst st') D \<longrightarrow> list_all2 (\<lambda>e bs. encodes D (snd e) bs) es bss))"

lemma entry_step:
  fixes i :: nat
  assumes "length pre = ts" "length tbl = i * 8" "vb = ts + i * 8 + 8 * length (j # js)"
  shows "patch (ts + i * 8 + 4) (u32_bytes (of_nat (length (pre @ tbl @ entry_slots (j # js) @ vals) - vb)))
           (pre @ tbl @ entry_slots (j # js) @ vals)
         = pre @ (tbl @ u32_bytes j @ u32_bytes (of_nat (length vals))) @ entry_slots js @ vals"
proof -
  have "length (pre @ tbl @ entry_slots (j # js) @ vals) - vb = length vals" using assms by simp
  moreover have "patch (ts + i * 8 + 4) (u32_bytes w) ((pre @ tbl @ u32_bytes j) @ u32_bytes 0 @ entry_slots js @ vals)
      = (pre @ tbl @ u32_bytes j) @ u32_bytes w @ entry_slots js @ vals" for w
    using assms by (intro patch_middle) simp_all
  ultimately show ?thesis by simp
qed

lemma emits_entries_Cons:
  assumes 1: "emits_value (d, p @ entry_slots js @ vals) v st1"
    and 2: "\<And>vals'. snd st1 = p @ entry_slots js @ vals' \<Longrightarrow> emits_entries p vals' es st2"
    and le: "dict_le (fst st1) (fst st2)"
    and tbl: "p = pre' @ u32_bytes j @ u32_bytes (of_nat (length vals))"
  shows "emits_entries pre' vals ((j, v) # es) st2"
proof -
  from 1 obtain bs where bs: "snd st1 = p @ entry_slots js @ vals @ bs"
    "\<And>D. dict_le (fst st1) D \<Longrightarrow> encodes D v bs"
    by (auto simp: emits_value_def)
  then have "emits_entries p (vals @ bs) es st2" by (intro 2) simp
  then obtain bss where st2: "dict_ok (fst st2)" "length bss = length es"
    "snd st2 = p @ entry_table (length (vals @ bs)) (map2 (\<lambda>(i, v) bs. (i, v, bs)) es bss) @ (vals @ bs) @ concat bss"
    "\<And>D. dict_le (fst st2) D \<Longrightarrow> list_all2 (\<lambda>e bs. encodes D (snd e) bs) es bss"
    by (auto simp: emits_entries_def)
  have "encodes D v bs" if "dict_le (fst st2) D" for D
    using that bs(2) dict_le_trans [OF le] by blast
  with st2 show ?thesis
    unfolding emits_entries_def tbl by (intro conjI exI [of _ "bs # bss"]) auto
qed

lemma encode_spec:
  "dict_ok (fst st) \<Longrightarrow> value_wf v \<Longrightarrow> length (fd_names (fst (encode_value v st))) \<le> 2 ^ 32 \<Longrightarrow>
     emits_value st v (encode_value v st)"
  "dict_ok (fst st) \<Longrightarrow> list_all value_wf vs \<Longrightarrow> length (fd_names (fst (encode_items vs st))) \<le> 2 ^ 32 \<Longrightarrow>
     emits_items st vs (encode_items vs st)"
  "dict_ok (fst st) \<Longrightarrow> list_all (\<lambda>e. value_wf (snd e)) es \<Longrightarrow>
     length (fd_names (fst (encode_entries ts vb i es st))) \<le> 2 ^ 32 \<Longrightarrow>
     snd st = (pre @ tbl) @ entry_slots (map fst es) @ vals \<Longrightarrow>
     length pre = ts \<Longrightarrow> length tbl = i * 8 \<Longrightarrow> vb = ts + i * 8 + 8 * length es \<Longrightarrow>
     emits_entries (pre @ tbl) vals es (encode_entries ts vb i es st)"
proof (induction v st and vs st and ts vb i es st arbitrary: and and pre tbl vals
    rule: encode_value_encode_items_encode_entries.induct)
  case (2 b d out)
  then show ?case using enc_bool [of _ b] by (auto simp: emits_value_def)
next
  case (8 st)
  then show ?case by (auto simp: emits_items_def intro!: exI [of _ "[]"])
next
  case (6 items d out)
  then have "emits_items (d, out @ [6] @ write_varint (of_nat (length items))) items
      (encode_value (VArray items) (d, out))" by simp
  then show ?case unfolding emits_items_def emits_value_def by (force intro: enc_array)
next
  case (7 m d out)
  obtain js d1 where js: "intern_all (map fst m) d = (js, d1)" by fastforce
  define es where "es = sort_key fst (zip js (map snd m))"
  define out1 where "out1 = out @ [7] @ write_varint (of_nat (length m))"
  let ?st = "(d1, out1 @ entry_slots (map fst es))"
  let ?st2 = "encode_entries (length out1) (length (snd ?st)) 0 es ?st"
  have eq: "encode_value (VObject m) (d, out) = ?st2"
    by (simp add: js es_def out1_def Let_def add.assoc)
  have le: "dict_le d1 (fst ?st2)" using encode_dict_le(3) [of ?st] by simp
  with 7(4) eq have "length (fd_names d1) \<le> 2 ^ 32" using dict_le_length le_trans by metis
  with 7(2) js have ok: "dict_ok d1" "list_all2 (\<lambda>i s. name_of d1 i = Some s) js (map fst m)"
    using intern_all_ok by auto
  have wf: "hm_wf m" "list_all (\<lambda>e. value_wf (snd e)) es"
    using 7(3) by (fastforce simp: es_def list_all_iff dest!: set_zip_rightD)+
  have "emits_entries (out1 @ []) [] es ?st2"
    using 7(1) [OF out1_def refl js [symmetric] es_def refl refl, of out1 "[]" "[]"] ok wf 7(4) eq by (simp add: out1_def)
  then obtain bss where dok: "dict_ok (fst ?st2)" and out: "length bss = length es"
     "snd ?st2 = out1 @ entry_table 0 (map2 (\<lambda>(i, v) bs. (i, v, bs)) es bss) @ concat bss"
    and bss: "\<And>D. dict_le (fst ?st2) D \<Longrightarrow> list_all2 (\<lambda>e bs. encodes D (snd e) bs) es bss"
    by (auto simp: emits_entries_def)
  have "encodes D (VObject m) (7 # write_varint (of_nat (length m))
          @ entry_table 0 (map2 (\<lambda>(i, v) bs. (i, v, bs)) es bss) @ concat bss)"
    if "dict_le (fst ?st2) D" for D
    by (rule encode_object [OF js ok wf(1) es_def bss [OF that] dict_le_trans [OF le that]])
  with dok out eq show ?case by (auto simp: emits_value_def out1_def)
next
  case (9 v vs st)
  let ?st1 = "encode_value v st" and ?st2 = "encode_items (v # vs) st"
  have fin: "?st2 = encode_items vs ?st1" by simp
  have le: "dict_le (fst ?st1) (fst ?st2)" unfolding fin by (rule encode_dict_le)
  with 9(5) have "length (fd_names (fst ?st1)) \<le> 2 ^ 32" using dict_le_length le_trans by blast
  with 9(1,3,4) have 1: "emits_value st v ?st1" by simp
  with 9(2,4,5) have "emits_items ?st1 vs ?st2" by (simp add: emits_value_def)
  then obtain bss where "dict_ok (fst ?st2)" "snd ?st2 = snd ?st1 @ concat bss"
    "\<And>D. dict_le (fst ?st2) D \<Longrightarrow> list_all2 (encodes D) vs bss" by (auto simp: emits_items_def)
  moreover from 1 obtain bs where "snd ?st1 = snd st @ bs" "\<And>D. dict_le (fst ?st1) D \<Longrightarrow> encodes D v bs"
    by (auto simp: emits_value_def)
  ultimately show ?case
    unfolding emits_items_def using dict_le_trans [OF le] by (intro conjI exI [of _ "bs # bss"]) auto
next
  case (11 ts vb i j v es d out)
  let ?tbl = "tbl @ u32_bytes j @ u32_bytes (of_nat (length vals))"
  let ?out1 = "(pre @ ?tbl) @ entry_slots (map fst es) @ vals"
  let ?st1 = "encode_value v (d, ?out1)"
  let ?st2 = "encode_entries ts vb (i + 1) es ?st1"
  have "out = pre @ tbl @ entry_slots (j # map fst es) @ vals" using 11(6) by simp
  with entry_step [OF 11(7,8), of vb j "map fst es" vals] 11(9)
  have patch: "patch (ts + i * 8 + 4) (u32_bytes (of_nat (length out - vb))) out = ?out1" by simp
  have fin: "encode_entries ts vb i ((j, v) # es) (d, out) = ?st2" by (simp add: Let_def patch)
  have le: "dict_le (fst ?st1) (fst ?st2)" by (rule encode_dict_le)
  from dict_le_length [OF le] 11(5) have "length (fd_names (fst ?st1)) \<le> 2 ^ 32"
    unfolding fin by (rule le_trans)
  with 11(1) [OF refl refl, unfolded patch] 11(3,4) have 1: "emits_value (d, ?out1) v ?st1" by simp
  have 2: "emits_entries (pre @ ?tbl) vals' es ?st2"
    if "snd ?st1 = (pre @ ?tbl) @ entry_slots (map fst es) @ vals'" for vals'
  proof (rule 11(2) [OF refl refl, unfolded patch])
    show "dict_ok (fst ?st1)" using 1 by (simp add: emits_value_def)
    show "length (fd_names (fst ?st2)) \<le> 2 ^ 32" using 11(5) unfolding fin .
    show "list_all (\<lambda>e. value_wf (snd e)) es" using 11(4) by simp
    show "length ?tbl = (i + 1) * 8" "vb = ts + (i + 1) * 8 + 8 * length es" using 11(8,9) by simp_all
  qed (fact that 11(7))+
  show ?case unfolding fin by (rule emits_entries_Cons [OF 1 2 le]) simp_all
qed (auto simp: emits_value_def emits_items_def emits_entries_def intro: encodes.intros)

subsection \<open>Reading an encoding\<close>

text \<open>The same value: objects are maps, so the order of their fields does not count.\<close>

fun same_value :: "value \<Rightarrow> value \<Rightarrow> bool" where
  "same_value (VArray vs) w =
     (case w of VArray ws \<Rightarrow> list_all2 same_value vs ws | _ \<Rightarrow> False)"
| "same_value (VObject m) w =
     (case w of
        VObject m' \<Rightarrow> length m = length m' \<and> hm_wf m'
          \<and> list_all (\<lambda>(k, v). case hm_get m' k of None \<Rightarrow> False | Some v' \<Rightarrow> same_value v v') m
      | _ \<Rightarrow> False)"
| "same_value v w = (v = w)"

fun value_depth :: "value \<Rightarrow> nat" where
  "value_depth (VArray vs) = Suc (Max (insert 0 (value_depth ` set vs)))"
| "value_depth (VObject m) = Suc (Max (insert 0 ((\<lambda>(k, v). value_depth v) ` set m)))"
| "value_depth _ = Suc 0"

fun strings_ok :: "value \<Rightarrow> bool" where
  "strings_ok (VStr s) = utf8_ok (str_as_bytes s)"
| "strings_ok (VArray vs) = list_all strings_ok vs"
| "strings_ok (VObject m) = list_all (\<lambda>(k, v). strings_ok v) m"
| "strings_ok _ = True"

lemma try_simps [simp]:
  "try_opt None f = Ret None" "try_opt (Some a) f = f a"
  "try_out (Ret (Some a)) f = f a" "try_out (Ret None) f = Ret None" "try_out Panic f = Panic"
  by (simp_all add: try_opt_def try_out_def)

lemma varint_of_length:
  "n < 2 ^ 32 \<Longrightarrow> unat (of_nat n :: u64) = n"
  by (simp add: unat_of_nat)

lemma skip_values_spec:
  assumes "\<And>bs zs. bs \<in> set bss \<Longrightarrow> skip (bs @ zs) = Ret (Some (length bs))"
    and "length pre + length (concat bss) < 2 ^ 64"
  shows "skip_values skip (pre @ concat bss @ zs) (length bss) (length pre)
         = Ret (Some (length pre + length (concat bss)))"
  using assms
proof (induction bss arbitrary: pre)
  case (Cons bs bss)
  have "slice_from (length pre) (pre @ bs @ concat bss @ zs) = Some (bs @ concat bss @ zs)" by simp
  moreover have "skip (bs @ concat bss @ zs) = Ret (Some (length bs))" using Cons.prems(1) by simp
  moreover have "us (length pre + length bs) = length (pre @ bs)" using Cons.prems(2) by simp
  ultimately show ?case using Cons.IH [of "pre @ bs"] Cons.prems by simp
qed simp

lemma value_len_tags [simp]:
  "value_len (Suc k) (0 # rest) = Ret (Some 1)" "value_len (Suc k) (1 # rest) = Ret (Some 1)"
  "value_len (Suc k) (2 # rest) = Ret (Some 1)" "value_len (Suc k) (3 # rest) = Ret (Some 9)"
  "value_len (Suc k) (4 # rest) = Ret (Some 9)"
  "value_len (Suc k) (5 # rest) = try_opt (read_varint rest) (\<lambda>(len, n). Ret (Some (us (1 + n + unat len))))"
  "value_len (Suc k) (6 # rest) = try_opt (read_varint rest) (\<lambda>(cnt, n).
     skip_values (value_len k) (6 # rest) (unat cnt) (1 + n))"
  "value_len (Suc k) (7 # rest) = try_opt (read_varint rest) (\<lambda>(cnt, n).
     skip_values (value_len k) (7 # rest) (unat cnt) (us (1 + n + us (unat cnt * 8))))"
  by simp_all

declare value_len.simps(3) [simp del]

lemma encodes_not_Nil: "encodes d v bs \<Longrightarrow> bs \<noteq> []"
  by (induction rule: encodes.induct) simp_all

lemma length_le_concat: "(\<And>bs. bs \<in> set bss \<Longrightarrow> bs \<noteq> []) \<Longrightarrow> length bss \<le> length (concat bss)"
proof (induction bss)
  case (Cons bs bss)
  then have "bs \<noteq> []" "length bss \<le> length (concat bss)" by auto
  then show ?case by (cases bs) simp_all
qed simp

lemma length_member_concat: "bs \<in> set bss \<Longrightarrow> length bs \<le> length (concat bss)"
  by (auto simp: in_set_conv_decomp)

lemma depth_member:
  "v \<in> set vs \<Longrightarrow> value_depth (VArray vs) \<le> Suc k \<Longrightarrow> value_depth v \<le> k"
  "(s, v) \<in> set m \<Longrightarrow> value_depth (VObject m) \<le> Suc k \<Longrightarrow> value_depth v \<le> k"
  by (force simp: Max_le_iff)+

lemma rows_fields:
  assumes "mset (map (\<lambda>(i, v, bs). (name_of d i, v)) rows) = mset (map (\<lambda>(k, v). (Some k, v)) m)"
  shows "length rows = length m"
    and "(i, v, bs) \<in> set rows \<Longrightarrow> \<exists>k. name_of d i = Some k \<and> (k, v) \<in> set m"
    and "(k, v) \<in> set m \<Longrightarrow> \<exists>i bs. name_of d i = Some k \<and> (i, v, bs) \<in> set rows"
proof -
  from arg_cong [OF assms, of size] show "length rows = length m" by simp
  from assms have *: "(\<lambda>(i, v, bs). (name_of d i, v)) ` set rows = (\<lambda>(k, v). (Some k, v)) ` set m"
    using mset_eq_setD [OF assms] by (simp only: set_map)
  show "\<exists>k. name_of d i = Some k \<and> (k, v) \<in> set m" if "(i, v, bs) \<in> set rows"
  proof -
    have "(name_of d i, v) \<in> (\<lambda>(k, v). (Some k, v)) ` set m"
      unfolding * [symmetric] using that by (rule rev_image_eqI) simp
    then show ?thesis by auto
  qed
  show "\<exists>i bs. name_of d i = Some k \<and> (i, v, bs) \<in> set rows" if "(k, v) \<in> set m"
  proof -
    have "(Some k, v) \<in> (\<lambda>(i, v, bs). (name_of d i, v)) ` set rows"
      unfolding * using that by (rule rev_image_eqI) simp
    then show ?thesis by auto
  qed
qed

lemma encodes_mono: "encodes d v bs \<Longrightarrow> dict_le d D \<Longrightarrow> encodes D v bs"
proof (induction rule: encodes.induct)
  case (enc_bool b)
  show ?case by (rule encodes.enc_bool)
next
  case (enc_array vs bss)
  then show ?case by (auto intro!: encodes.intros elim: list_all2_mono)
next
  case (enc_object rows m)
  have "map (\<lambda>(i, v, bs). (name_of D i, v)) rows = map (\<lambda>(i, v, bs). (name_of d i, v)) rows"
    using rows_fields(2) [OF enc_object.hyps(3)] name_of_le [OF enc_object.prems] by fastforce
  then have "mset (map (\<lambda>(i, v, bs). (name_of D i, v)) rows) = mset (map (\<lambda>(k, v). (Some k, v)) m)"
    using enc_object.hyps(3) by (simp only:)
  with enc_object.IH [OF _ enc_object.prems] enc_object.hyps(2) show ?case by (rule encodes.enc_object)
qed (auto intro: encodes.intros)

lemma value_len_spec:
  "encodes d v bs \<Longrightarrow> value_depth v \<le> stack \<Longrightarrow> length bs < 2 ^ 32 \<Longrightarrow>
   value_len stack (bs @ zs) = Ret (Some (length bs))"
proof (induction arbitrary: stack zs rule: encodes.induct)
  case (enc_array vs bss)
  then obtain k where stack: "stack = Suc k" by (cases stack) auto
  have len: "length vs = length bss" using enc_array(1) by (simp add: list_all2_lengthD)
  have ne: "bs \<noteq> []" if "bs \<in> set bss" for bs
    using that enc_array(1) by (auto simp: list_all2_conv_all_nth in_set_conv_nth dest: encodes_not_Nil)
  have el: "value_len k (bs @ zs) = Ret (Some (length bs))" if "bs \<in> set bss" for bs zs
  proof -
    from that obtain v where v: "v \<in> set vs"
      "\<And>stack zs. value_depth v \<le> stack \<Longrightarrow> length bs < 2 ^ 32 \<Longrightarrow> value_len stack (bs @ zs) = Ret (Some (length bs))"
      using enc_array(1) by (fastforce simp: list_all2_conv_all_nth in_set_conv_nth)
    from depth_member(1) [OF v(1)] enc_array(2) stack have "value_depth v \<le> k" by simp
    with v(2) length_member_concat [OF that] enc_array(3) show ?thesis by simp
  qed
  have "length bss < 2 ^ 32" using length_le_concat [of bss] ne enc_array(3) by simp
  moreover have "skip_values (value_len k) ((6 # write_varint (of_nat (length bss))) @ concat bss @ zs) (length bss)
      (length (6 # write_varint (of_nat (length bss)))) = Ret (Some (length (6 # write_varint (of_nat (length bss))) + length (concat bss)))"
    using el enc_array(3) len by (intro skip_values_spec) auto
  ultimately show ?case by (simp add: stack len varint_of_length length_write_varint)
next
  case (enc_object rows m)
  then obtain k where stack: "stack = Suc k" by (cases stack) auto
  let ?bss = "map (\<lambda>(i, v, bs). bs) rows"
  note fields = rows_fields [OF enc_object.hyps(3)]
  define pre where "pre = (7 :: byte) # write_varint (of_nat (length m)) @ entry_table 0 rows"
  have el: "value_len k (bs @ zs) = Ret (Some (length bs))" if "bs \<in> set ?bss" for bs zs
  proof -
    from that obtain i v where row: "(i, v, bs) \<in> set rows" by auto
    then obtain s where "(s, v) \<in> set m" using fields(2) by blast
    from depth_member(2) [OF this] enc_object.prems(1) stack have "value_depth v \<le> k" by simp
    with enc_object.IH [OF row] length_member_concat [OF that] enc_object.prems(2) show ?thesis by simp
  qed
  have n: "Suc (varint_len (of_nat (length m)) + length m * 8) < 2 ^ 32"
    using enc_object.prems(2) fields(1) by (simp add: length_write_varint)
  have "skip_values (value_len k) (pre @ concat ?bss @ zs) (length ?bss) (length pre)
      = Ret (Some (length pre + length (concat ?bss)))"
    using el enc_object.prems(2) by (intro skip_values_spec) (auto simp: pre_def)
  with n fields(1) show ?case
    by (simp add: stack pre_def varint_of_length length_write_varint mult.commute ac_simps)
qed (case_tac stack; simp add: length_write_varint varint_of_length)+

abbreviation row_bytes :: "(u32 \<times> value \<times> bytes) list \<Rightarrow> bytes" where
  "row_bytes rows \<equiv> concat (map (\<lambda>(i, v, bs). bs) rows)"

lemma entry_table_append:
  "entry_table off (xs @ ys) = entry_table off xs @ entry_table (off + length (row_bytes xs)) ys"
  by (induction off xs rule: entry_table.induct) (simp_all add: add.assoc)

lemma obj_parts_encoded:
  assumes "length m < 2 ^ 32" "length rows = length m"
    "length (7 # write_varint (of_nat (length m)) @ entry_table 0 rows) < 2 ^ 32"
  shows "obj_parts_of (7 # write_varint (of_nat (length m)) @ entry_table 0 rows @ vals)
         = Some \<lparr>op_table = entry_table 0 rows, op_values = vals, op_count = length m\<rparr>"
proof -
  let ?pre = "(7 :: byte) # write_varint (of_nat (length m))" and ?t = "entry_table 0 rows"
  have "slice (length ?pre) (length ?pre + length ?t) (?pre @ ?t @ vals) = Some ?t"
    by (rule slice_append) simp
  moreover have "slice_from (length (?pre @ ?t)) ((?pre @ ?t) @ vals) = Some vals"
    by (rule slice_from_append) simp
  ultimately show ?thesis
    using assms by (simp add: obj_parts_of_def varint_of_length length_write_varint mult.commute)
qed

lemma table_entry:
  assumes "rows = xs @ (i, v, bs) # ys" "at = length xs * 8" "length (row_bytes rows) < 2 ^ 32"
    and p: "p = \<lparr>op_table = entry_table 0 rows, op_values = row_bytes rows @ zs, op_count = cnt\<rparr>"
  shows "table_u32 p at = Some i"
    and "Option.bind (table_u32 p (at + 4)) (\<lambda>off. slice_from (unat off) (op_values p))
         = Some (bs @ row_bytes ys @ zs)"
proof -
  let ?o = "u32_bytes (of_nat (length (row_bytes xs)))"
  have t: "entry_table 0 rows = entry_table 0 xs @ u32_bytes i @ ?o @ entry_table (length (row_bytes xs) + length bs) ys"
    by (simp add: assms(1) entry_table_append)
  have "slice at (at + length (u32_bytes i)) (entry_table 0 rows) = Some (u32_bytes i)"
    unfolding t using assms(2) by (intro slice_append) simp
  then show "table_u32 p at = Some i" by (simp add: table_u32_def p)
  have "slice (at + 4) (at + 4 + length ?o) ((entry_table 0 xs @ u32_bytes i) @ ?o @ entry_table (length (row_bytes xs) + length bs) ys) = Some ?o"
    using assms(2) by (intro slice_append) simp
  moreover have "unat (of_nat (length (row_bytes xs)) :: u32) = length (row_bytes xs)"
    using assms(1,3) by (simp add: unat_of_nat)
  moreover have "slice_from (length (row_bytes xs)) (row_bytes xs @ bs @ row_bytes ys @ zs) = Some (bs @ row_bytes ys @ zs)"
    by simp
  ultimately show "Option.bind (table_u32 p (at + 4)) (\<lambda>off. slice_from (unat off) (op_values p))
         = Some (bs @ row_bytes ys @ zs)"
    by (simp add: table_u32_def p t) (simp add: assms(1))
qed

end
