(* ===== verification/Row_Reading.thy ===== *)
theory Row_Reading
  imports Row_Encoding
begin

section \<open>Decoding and in-place reads of encoded rows\<close>

text \<open>
  The decoder inverts the encoder, the binary search over an object's entry table finds exactly the
  fields of the object, and path resolution on the encoded bytes agrees with path resolution on the
  value they encode. The last sections are about damaged bytes.
\<close>

subsection \<open>The decoder\<close>

lemma decode_tags [simp]:
  "decode_value al d (Suc k) (0 # rest) = Ret (Some VNull)"
  "decode_value al d (Suc k) (1 # rest) = Ret (Some (VBool False))"
  "decode_value al d (Suc k) (2 # rest) = Ret (Some (VBool True))"
  "decode_value al d (Suc k) (3 # rest) = try_opt (slice 1 9 (3 # rest)) (\<lambda>bs. Ret (Some (VInt (of_nat (le_nat bs)))))"
  "decode_value al d (Suc k) (4 # rest) = try_opt (slice 1 9 (4 # rest)) (\<lambda>bs. Ret (Some (VFloat (of_nat (le_nat bs)))))"
  "decode_value al d (Suc k) (5 # rest) = try_opt (read_varint rest) (\<lambda>(len, n).
     try_opt (slice (1 + n) (us (1 + n + unat len)) (5 # rest)) (\<lambda>raw.
     try_opt (from_utf8 raw) (\<lambda>s. Ret (Some (VStr s)))))"
  "decode_value al d (Suc k) (6 # rest) = try_opt (arr_parts (6 # rest)) (\<lambda>(cnt, els).
     if al_vec al < cnt then Panic
     else try_out (decode_items (decode_value al d k) (value_len k) els cnt 0) (\<lambda>vs. Ret (Some (VArray vs))))"
  "decode_value al d (Suc k) (7 # rest) = try_opt (obj_parts_of (7 # rest)) (\<lambda>p.
     if al_map al < op_count p then Panic
     else try_out (decode_fields (decode_value al d k) d (7 # rest) 0 (op_count p) []) (\<lambda>m. Ret (Some (VObject m))))"
  by simp_all

declare decode_value.simps(3) [simp del]

lemma list_all2_choice: "(\<And>x. x \<in> set xs \<Longrightarrow> \<exists>y. P x y) \<Longrightarrow> \<exists>ys. list_all2 P xs ys"
proof (induction xs)
  case (Cons x xs)
  then obtain y ys where "P x y" "list_all2 P xs ys" by (metis list.set_intros(1,2))
  then have "list_all2 P (x # xs) (y # ys)" by simp
  then show ?case ..
qed (simp add: exI [of _ "[]"])

lemma payload:
  "slice (Suc 0) 9 (tag # u64_bytes w @ zs) = Some (u64_bytes w)"
  using slice_append [of "[tag]" 1 "u64_bytes w" zs] by simp

lemma decode_items_spec:
  assumes "list_all2 (\<lambda>bs v. (\<forall>zs. decode (bs @ zs) = Ret (Some v)) \<and> (\<forall>zs. skip (bs @ zs) = Ret (Some (length bs)))) bss vs"
    and "length pre + length (concat bss) < 2 ^ 64"
  shows "decode_items decode skip (pre @ concat bss @ zs) (length bss) (length pre) = Ret (Some vs)"
  using assms
proof (induction bss vs arbitrary: pre rule: list_all2_induct)
  case (Cons bs bss v vs)
  have "slice_from (length pre) (pre @ bs @ concat bss @ zs) = Some (bs @ concat bss @ zs)" by simp
  moreover have "us (length pre + length bs) = length (pre @ bs)" using Cons.prems by simp
  ultimately show ?case using Cons.IH [of "pre @ bs"] Cons.hyps Cons.prems by simp
qed simp

lemma decode_fields_spec:
  assumes rows: "length rows < 2 ^ 32" "length (row_bytes rows) < 2 ^ 32"
    and parts: "obj_parts_of bs = Some \<lparr>op_table = entry_table 0 rows, op_values = row_bytes rows @ zs, op_count = length rows\<rparr>"
    and "list_all2 (\<lambda>(i, v, b) (k, v'). name_of d i = Some k \<and> (\<forall>zs. decode (b @ zs) = Ret (Some v'))) ys fs"
    and "rows = xs @ ys" and "distinct (map fst (acc @ fs))"
  shows "decode_fields decode d bs (length xs) (length ys) acc = Ret (Some (acc @ fs))"
  using assms(4-)
proof (induction ys fs arbitrary: xs acc rule: list_all2_induct)
  case (Cons y ys f fs)
  obtain i v b where y: "y = (i, v, b)" by (cases y)
  obtain k v' where f: "f = (k, v')" by (cases f)
  from Cons.hyps y f have row: "name_of d i = Some k" "\<And>zs. decode (b @ zs) = Ret (Some v')" by simp_all
  from Cons.prems(1) y have rows': "rows = xs @ (i, v, b) # ys" by simp
  note entry = table_entry [OF rows' refl rows(2) refl, of zs "length rows"]
  have "length xs * 8 < 2 ^ 64" "length xs < length rows" using rows(1) rows' by simp_all
  with entry parts have "obj_entry_at bs (length xs) = Some (i, b @ row_bytes ys @ zs)"
    by (auto simp: obj_entry_at_def Let_def split: option.splits Option.bind_splits)
  moreover have "hm_insert k v' acc = acc @ [(k, v')]"
    using Cons.prems(2) f by (intro hm_insert_new) auto
  moreover have "decode_fields decode d bs (length (xs @ [y])) (length ys) (acc @ [(k, v')]) = Ret (Some ((acc @ [(k, v')]) @ fs))"
    using Cons.prems f by (intro Cons.IH) auto
  ultimately show ?case using row f by simp
qed simp

definition roomy :: "alloc \<Rightarrow> bool" where
  "roomy al \<longleftrightarrow> 2 ^ 32 \<le> al_vec al \<and> 2 ^ 32 \<le> al_map al"

definition decodes :: "alloc \<Rightarrow> field_dict \<Rightarrow> nat \<Rightarrow> bytes \<Rightarrow> value \<Rightarrow> bool" where
  "decodes al d stack bs v \<longleftrightarrow>
     (\<exists>v'. same_value v v' \<and> (\<forall>zs. decode_value al d stack (bs @ zs) = Ret (Some v')))"

lemma decodes_array:
  assumes al: "roomy al" and small: "length (6 # write_varint (of_nat (length vs)) @ concat bss) < 2 ^ 32"
    and enc: "list_all2 (\<lambda>v bs. encodes d v bs \<and> decodes al d k bs v) vs bss" and depth: "value_depth (VArray vs) \<le> Suc k"
  shows "decodes al d (Suc k) (6 # write_varint (of_nat (length vs)) @ concat bss) (VArray vs)"
proof -
  have len: "length bss = length vs" using enc by (simp add: list_all2_lengthD)
  let ?P = "\<lambda>(v, bs) v'. same_value v v' \<and> (\<forall>zs. decode_value al d k (bs @ zs) = Ret (Some v'))
                \<and> (\<forall>zs. value_len k (bs @ zs) = Ret (Some (length bs)))"
  have "\<exists>v'. ?P x v'" if x: "x \<in> set (zip vs bss)" for x
  proof -
    obtain v bs where e: "x = (v, bs)" by (cases x)
    with x have m: "v \<in> set vs" "bs \<in> set bss" "encodes d v bs" and dec: "decodes al d k bs v"
      using enc by (auto simp: list_all2_iff dest: set_zip_leftD set_zip_rightD)
    have "value_len k (bs @ zs) = Ret (Some (length bs))" for zs
      using value_len_spec [OF m(3)] depth_member(1) [OF m(1) depth] length_member_concat [OF m(2)] small by simp
    with dec e show ?thesis by (auto simp: decodes_def)
  qed
  from list_all2_choice [of "zip vs bss" ?P, OF this] obtain ws where ws: "list_all2 ?P (zip vs bss) ws" by blast
  then have "list_all2 same_value vs ws" using len by (auto simp: list_all2_conv_all_nth)
  moreover have "decode_items (decode_value al d k) (value_len k) ([] @ concat bss @ zs) (length bss) (length ([] :: bytes)) = Ret (Some ws)" for zs
    using ws len small by (intro decode_items_spec) (auto simp: list_all2_conv_all_nth)
  moreover have "length vs \<le> length (concat bss)"
    using length_le_concat [of bss] len enc
    by (fastforce simp: list_all2_conv_all_nth in_set_conv_nth dest: encodes_not_Nil)
  moreover from this small have n: "length vs < 2 ^ 32" by simp
  moreover have "slice_from (Suc (varint_len (of_nat (length vs)))) ((6 # write_varint (of_nat (length vs))) @ concat bss @ zs)
       = Some (concat bss @ zs)" for zs
    by (rule slice_from_append) (simp add: length_write_varint)
  ultimately show ?thesis
    using al len unfolding decodes_def
    by (intro exI [of _ "VArray ws"]) (simp add: arr_parts_def roomy_def varint_of_length)
qed

lemma names_distinct:
  assumes "mset (map (\<lambda>(i, v, bs). (name_of d i, v)) rows) = mset (map (\<lambda>(k, v). (Some k, v)) m)" and "hm_wf m"
  shows "distinct (map (\<lambda>(i, v, bs). name_of d i) rows)"
proof -
  have "mset (map fst (map (\<lambda>(i, v, bs). (name_of d i, v)) rows)) = mset (map fst (map (\<lambda>(k, v). (Some k, v)) m))"
    by (simp only: mset_map [of fst] assms(1))
  then have "mset (map (\<lambda>(i, v, bs). name_of d i) rows) = mset (map Some (map fst m))"
    by (simp add: comp_def case_prod_unfold)
  moreover have "distinct (map Some (map fst m))" using assms(2) by (subst distinct_map) (simp add: hm_wf_def)
  ultimately show ?thesis using mset_eq_imp_distinct_iff by blast
qed

lemma decodes_object:
  assumes al: "roomy al"
    and small: "length (7 # write_varint (of_nat (length m)) @ entry_table 0 rows @ row_bytes rows) < 2 ^ 32"
    and ms: "mset (map (\<lambda>(i, v, bs). (name_of d i, v)) rows) = mset (map (\<lambda>(k, v). (Some k, v)) m)"
    and wf: "hm_wf m"
    and dec: "\<And>i v bs. (i, v, bs) \<in> set rows \<Longrightarrow> decodes al d k bs v"
  shows "decodes al d (Suc k) (7 # write_varint (of_nat (length m)) @ entry_table 0 rows @ row_bytes rows) (VObject m)"
proof -
  note fields = rows_fields [OF ms]
  let ?P = "\<lambda>(i, v, b) (s, v'). name_of d i = Some s \<and> same_value v v' \<and> (\<forall>zs. decode_value al d k (b @ zs) = Ret (Some v'))"
  have "\<exists>f. ?P row f" if "row \<in> set rows" for row
  proof -
    obtain i v b where e: "row = (i, v, b)" by (cases row)
    with that fields(2) obtain s where s: "name_of d i = Some s" by blast
    from that e have "decodes al d k b v" by (intro dec) simp
    then obtain v' where "same_value v v'" "\<forall>zs. decode_value al d k (b @ zs) = Ret (Some v')"
      by (auto simp: decodes_def)
    with e s show ?thesis by (intro exI [of _ "(s, v')"]) simp
  qed
  from list_all2_choice [of rows ?P, OF this] obtain fs where fs: "list_all2 ?P rows fs" by blast
  then have len: "length fs = length m" using fields(1) by (simp add: list_all2_lengthD)
  have "map (\<lambda>(i, v, bs). name_of d i) rows = map Some (map fst fs)"
    using fs by (auto simp: list_all2_conv_all_nth list_eq_iff_nth_eq split_beta)
  with names_distinct [OF ms wf] have dist: "distinct (map fst fs)" by (metis distinct_map)
  have n: "length m < 2 ^ 32" using small fields(1) by simp
  have parts: "obj_parts_of (7 # write_varint (of_nat (length m)) @ entry_table 0 rows @ row_bytes rows @ zs)
     = Some \<lparr>op_table = entry_table 0 rows, op_values = row_bytes rows @ zs, op_count = length rows\<rparr>" for zs
    using obj_parts_encoded [of m rows "row_bytes rows @ zs"] fields(1) n small by simp
  have "decode_fields (decode_value al d k) d (7 # write_varint (of_nat (length m)) @ entry_table 0 rows @ row_bytes rows @ zs)
      (length ([] :: (u32 \<times> value \<times> bytes) list)) (length rows) [] = Ret (Some ([] @ fs))" for zs
    using fs dist n fields(1) small
    by (intro decode_fields_spec [OF _ _ parts]) (auto elim: list_all2_mono)
  moreover have "same_value (VObject m) (VObject fs)"
  proof -
    have "\<exists>v'. hm_get fs s = Some v' \<and> same_value v v'" if "(s, v) \<in> set m" for s v
    proof -
      from fields(3) [OF that] obtain j where j: "j < length rows" "name_of d (fst (rows ! j)) = Some s" "fst (snd (rows ! j)) = v"
        by (auto simp: in_set_conv_nth)
      with fs have "fst (fs ! j) = s" "same_value v (snd (fs ! j))" "j < length fs"
        by (auto simp: list_all2_conv_all_nth split_beta)
      then have "(s, snd (fs ! j)) \<in> set fs" "same_value v (snd (fs ! j))" by (metis nth_mem prod.collapse)+
      moreover from dist have "hm_wf fs" by (simp add: hm_wf_def)
      ultimately show ?thesis by (auto simp: hm_get_eq_Some_iff)
    qed
    then show ?thesis using len dist by (fastforce simp: list_all_iff hm_wf_def)
  qed
  ultimately show ?thesis
    using al n fields(1) parts unfolding decodes_def
    by (intro exI [of _ "VObject fs"]) (simp add: roomy_def)
qed

lemma decode_spec:
  "encodes d v bs \<Longrightarrow> roomy al \<Longrightarrow> value_wf v \<Longrightarrow> strings_ok v \<Longrightarrow> value_depth v \<le> stack \<Longrightarrow>
   length bs < 2 ^ 32 \<Longrightarrow> decodes al d stack bs v"
proof (induction arbitrary: stack rule: encodes.induct)
  case (enc_str s)
  then obtain k where "stack = Suc k" by (cases stack) auto
  moreover have n: "length s < 2 ^ 32" "1 + varint_len (of_nat (length s)) + length s < 2 ^ 32"
    using enc_str(5) by (simp_all add: length_write_varint)
  moreover have "slice (1 + varint_len (of_nat (length s))) (1 + varint_len (of_nat (length s)) + length (str_as_bytes s))
      ((5 # write_varint (of_nat (length s))) @ str_as_bytes s @ zs) = Some (str_as_bytes s)" for zs
    by (rule slice_append) (simp add: length_write_varint)
  ultimately show ?case using enc_str(3)
    by (simp add: decodes_def varint_of_length from_utf8_def)
next
  case (enc_array vs bss)
  then obtain k where stack: "stack = Suc k" by (cases stack) auto
  have "encodes d v bs \<and> decodes al d k bs v" if zip: "(v, bs) \<in> set (zip vs bss)" for v bs
  proof -
    from zip have m: "v \<in> set vs" "bs \<in> set bss" by (auto dest: set_zip_leftD set_zip_rightD)
    have "value_depth v \<le> k" using depth_member(1) [OF m(1)] enc_array.prems(4) stack by simp
    moreover have "value_wf v" "strings_ok v" "length bs < 2 ^ 32"
      using enc_array.prems m(1) length_member_concat [OF m(2)] by (simp_all add: list_all_iff)
    ultimately show ?thesis using enc_array(1) zip enc_array.prems(1) by (auto simp: list_all2_iff)
  qed
  moreover from enc_array(1) have "length vs = length bss" by (rule list_all2_lengthD)
  ultimately have "list_all2 (\<lambda>v bs. encodes d v bs \<and> decodes al d k bs v) vs bss"
    by (auto simp: list_all2_iff)
  with enc_array.prems show ?case unfolding stack by (intro decodes_array) simp_all
next
  case (enc_object rows m)
  then obtain k where stack: "stack = Suc k" by (cases stack) auto
  note fields = rows_fields [OF enc_object.hyps(3)]
  have "decodes al d k bs v" if row: "(i, v, bs) \<in> set rows" for i v bs
  proof -
    from fields(2) [OF row] obtain s where s: "(s, v) \<in> set m" by blast
    have "bs \<in> set (map (\<lambda>(i, v, bs). bs) rows)" using row by force
    from enc_object.IH [OF row enc_object.prems(1)] length_member_concat [OF this] enc_object.prems
      depth_member(2) [OF s] s stack
    show ?thesis by (fastforce simp: list_all_iff)
  qed
  with enc_object show ?case unfolding stack by (intro decodes_object) simp_all
qed (case_tac stack; auto simp: decodes_def payload)+

subsection \<open>The binary search\<close>

definition search_hit :: "(u32 \<times> value \<times> bytes) list \<Rightarrow> bytes \<Rightarrow> u32 \<Rightarrow> bytes option option \<Rightarrow> bool" where
  "search_hit rows zs name_id r \<longleftrightarrow>
     (\<forall>j < length rows. fst (rows ! j) = name_id \<longrightarrow>
        r = Some (Some (snd (snd (rows ! j)) @ row_bytes (drop (Suc j) rows) @ zs)))
     \<and> (name_id \<notin> fst ` set rows \<longrightarrow> r = Some None)"

lemma obj_search_spec:
  assumes small: "length rows < 2 ^ 32" "length (row_bytes rows) < 2 ^ 32"
    and sorted: "sorted_wrt (<) (map fst rows)"
    and p: "p = \<lparr>op_table = entry_table 0 rows, op_values = row_bytes rows @ zs, op_count = cnt\<rparr>"
  shows "lo \<le> hi \<Longrightarrow> hi \<le> length rows \<Longrightarrow>
     (\<And>j. j < length rows \<Longrightarrow> fst (rows ! j) = name_id \<Longrightarrow> lo \<le> j \<and> j < hi) \<Longrightarrow>
     search_hit rows zs name_id (obj_search p name_id lo hi)"
proof (induction "hi - lo" arbitrary: lo hi rule: less_induct)
  case less
  show ?case
  proof (cases "hi \<le> lo")
    case True
    with less.prems(3) show ?thesis by (fastforce simp: search_hit_def obj_search.simps)
  next
    case False
    define mid where "mid = (lo + hi) div 2"
    have mid: "lo \<le> mid" "mid < hi" "mid < length rows" using False less.prems by (simp_all add: mid_def)
    have arith: "us (lo + hi) div 2 = mid" "us (mid * 8) = mid * 8"
      using less.prems small(1) mid by (simp_all add: mid_def)
    obtain i v bs where row: "rows ! mid = (i, v, bs)" by (cases "rows ! mid")
    have split: "rows = take mid rows @ (i, v, bs) # drop (Suc mid) rows"
      using id_take_nth_drop [OF mid(3)] row by simp
    have "length (take mid rows) = mid" using mid(3) by simp
    with table_entry [OF split _ small(2) p, of "mid * 8"]
    have entry: "table_u32 p (mid * 8) = Some i"
      "Option.bind (table_u32 p (mid * 8 + 4)) (\<lambda>off. slice_from (unat off) (op_values p)) = Some (bs @ row_bytes (drop (Suc mid) rows) @ zs)"
      by simp_all
    have below: "fst (rows ! a) < fst (rows ! b)" if "a < b" "b < length rows" for a b
      using sorted_wrt_nth_less [OF sorted that(1)] that by simp
    have step: "obj_search p name_id lo hi =
        (if i < name_id then obj_search p name_id (mid + 1) hi
         else if name_id < i then obj_search p name_id lo mid
         else Some (Some (bs @ row_bytes (drop (Suc mid) rows) @ zs)))"
      using False entry by (subst obj_search.simps) (simp add: arith Let_def)
    consider "i < name_id" | "name_id < i" "\<not> i < name_id" | "i = name_id" by fastforce
    then show ?thesis
    proof cases
      case 1
      have "mid + 1 \<le> j \<and> j < hi" if "j < length rows" "fst (rows ! j) = name_id" for j
        using less.prems(3) [OF that] below [of j mid] mid(3) row 1 that by (cases "j = mid"; cases "j < mid") auto
      then have "search_hit rows zs name_id (obj_search p name_id (mid + 1) hi)"
        using less.prems mid False by (intro less.hyps) simp_all
      with 1 step show ?thesis by simp
    next
      case 2
      have "lo \<le> j \<and> j < mid" if "j < length rows" "fst (rows ! j) = name_id" for j
        using less.prems(3) [OF that] below [of mid j] row 2 that by (cases "j = mid"; cases "mid < j") auto
      then have "search_hit rows zs name_id (obj_search p name_id lo mid)"
        using less.prems mid False by (intro less.hyps) simp_all
      with 2 step show ?thesis by simp
    next
      case 3
      have "j = mid" if "j < length rows" "fst (rows ! j) = name_id" for j
        using below [of j mid] below [of mid j] that mid(3) row 3 by (cases "j < mid"; cases "mid < j") auto
      moreover have "name_id \<in> fst ` set rows" using 3 row mid(3) by (metis fst_conv image_eqI nth_mem)
      ultimately show ?thesis using 3 row step by (auto simp: search_hit_def)
    qed
  qed
qed

subsection \<open>Reads in place\<close>

text \<open>A value the store holds: distinct field names, UTF-8 strings, and an encoding whose offsets fit
  32 bits, read with enough stack for its nesting.\<close>

definition storable :: "nat \<Rightarrow> value \<Rightarrow> bool" where
  "storable stack v \<longleftrightarrow> value_wf v \<and> strings_ok v \<and> value_depth v \<le> stack"

definition held :: "nat \<Rightarrow> field_dict \<Rightarrow> value \<Rightarrow> bytes \<Rightarrow> bool" where
  "held stack d v bs \<longleftrightarrow> storable stack v \<and> (\<exists>enc zs. bs = enc @ zs \<and> encodes d v enc \<and> length enc < 2 ^ 32)"

definition reads :: "nat \<Rightarrow> field_dict \<Rightarrow> flat_ref \<Rightarrow> value_ref \<Rightarrow> bool" where
  "reads stack d r rr \<longleftrightarrow>
     r = FMissing \<and> rr = RMissing \<or> (\<exists>v bs. held stack d v bs \<and> r = flat_value bs \<and> rr = from_value v)"

lemma flat_value_held:
  assumes "held stack d v bs"
  shows "flat_value bs =
     (case v of VNull \<Rightarrow> FNull | VBool b \<Rightarrow> FBool b | VInt i \<Rightarrow> FInt i | VFloat f \<Rightarrow> FFloat f | VStr s \<Rightarrow> FStr s
      | VArray _ \<Rightarrow> FArr bs | VObject _ \<Rightarrow> FObj bs)"
proof -
  from assms obtain enc zs where bs: "bs = enc @ zs" and enc: "encodes d v enc" "length enc < 2 ^ 32"
    and v: "strings_ok v" by (auto simp: held_def storable_def)
  from enc(1) show ?thesis
  proof cases
    case (enc_str s)
    have n: "length s < 2 ^ 32" "1 + varint_len (of_nat (length s)) + length s < 2 ^ 32"
      using enc(2) enc_str by (simp_all add: length_write_varint)
    have "slice (1 + varint_len (of_nat (length s))) (1 + varint_len (of_nat (length s)) + length (str_as_bytes s))
        ((5 # write_varint (of_nat (length s))) @ str_as_bytes s @ zs) = Some (str_as_bytes s)"
      by (rule slice_append) (simp add: length_write_varint)
    with n enc_str v show ?thesis by (simp add: bs flat_value_def str_bytes_def from_utf8_def varint_of_length)
  qed (simp_all add: bs flat_value_def payload)
qed

lemma storable_field:
  assumes "storable stack (VObject m)" "(k, v) \<in> set m"
  shows "storable stack v"
proof -
  from assms(1) obtain s where s: "stack = Suc s" by (cases stack) (auto simp: storable_def)
  with depth_member(2) [OF assms(2)] assms(1) have "value_depth v \<le> stack" by (simp add: storable_def le_SucI)
  with assms show ?thesis by (auto simp: storable_def list_all_iff)
qed

lemma object_field_held:
  assumes d: "dict_ok d" and held: "held stack d (VObject m) bs"
  shows "\<exists>r. flat_get d (FObj bs) key = Some r \<and> reads stack d r (ref_get (RObj m) key)"
proof -
  from held obtain enc zs where bs: "bs = enc @ zs" and enc: "encodes d (VObject m) enc" "length enc < 2 ^ 32"
    and st: "storable stack (VObject m)" unfolding held_def by blast
  from st have wf: "hm_wf m" by (simp add: storable_def)
  from encodes_objectD [OF enc(1)] obtain rows where rows: "\<And>i v bs. (i, v, bs) \<in> set rows \<Longrightarrow> encodes d v bs"
    "sorted_wrt (<) (map fst rows)"
    and ms: "mset (map (\<lambda>(i, v, bs). (name_of d i, v)) rows) = mset (map (\<lambda>(k, v). (Some k, v)) m)"
    and e: "enc = 7 # write_varint (of_nat (length m)) @ entry_table 0 rows @ row_bytes rows"
    by blast
  note fields = rows_fields [OF ms]
  have n: "length m < 2 ^ 32" using enc(2) fields(1) unfolding e by simp
  define p where "p = \<lparr>op_table = entry_table 0 rows, op_values = row_bytes rows @ zs, op_count = length m\<rparr>"
  have "obj_parts_of bs = Some p"
    using obj_parts_encoded [of m rows "row_bytes rows @ zs"] n fields(1) enc(2) by (simp add: bs e p_def)
  then have lookup: "search_hit rows zs i (obj_lookup bs i)" for i
    using obj_search_spec [of rows p zs "length m" 0 "length m" i] rows(2) n fields(1) enc(2)
    by (simp add: obj_lookup_def p_def e)
  show ?thesis
  proof (cases "hm_get m key")
    case None
    then have "key \<notin> fst ` set m" by (simp add: hm_get_eq_None_iff)
    have "i \<notin> fst ` set rows" if "id_of d key = Some i" for i
    proof
      assume "i \<in> fst ` set rows"
      then obtain v b where "(i, v, b) \<in> set rows" by force
      with fields(2) obtain k where "name_of d i = Some k" "(k, v) \<in> set m" by blast
      with that d \<open>key \<notin> fst ` set m\<close> show False by (force simp: id_of_iff)
    qed
    with lookup None show ?thesis
      by (cases "id_of d key") (auto simp: flat_get_def ref_get_def reads_def search_hit_def)
  next
    case (Some v)
    then have mem: "(key, v) \<in> set m" using wf by (simp add: hm_get_eq_Some_iff)
    from fields(3) [OF this] obtain i b where row: "name_of d i = Some key" "(i, v, b) \<in> set rows" by blast
    then obtain j where j: "j < length rows" "rows ! j = (i, v, b)" by (auto simp: in_set_conv_nth)
    with lookup [of i] have "obj_lookup bs i = Some (Some (b @ row_bytes (drop (Suc j) rows) @ zs))"
      by (auto simp: search_hit_def)
    moreover have "b \<in> set (map (\<lambda>(i, v, bs). bs) rows)" using row(2) by force
    then have "held stack d v (b @ row_bytes (drop (Suc j) rows) @ zs)"
      using rows(1) [OF row(2)] storable_field [OF st mem] length_member_concat enc(2) unfolding held_def e
      by (intro conjI exI [of _ b] exI [of _ "row_bytes (drop (Suc j) rows) @ zs"]) fastforce+
    moreover have "id_of d key = Some i" using row(1) d by (simp add: id_of_iff)
    ultimately show ?thesis
      using Some by (auto simp: flat_get_def ref_get_def reads_def)
  qed
qed

lemma flat_get_reads:
  assumes "dict_ok d" and "reads stack d r rr"
  shows "\<exists>r'. flat_get d r key = Some r' \<and> reads stack d r' (ref_get rr key)"
  using assms(2) unfolding reads_def [of stack d r]
proof (elim disjE exE conjE)
  assume "r = FMissing" "rr = RMissing"
  then show ?thesis by (simp add: flat_get_def ref_get_def reads_def)
next
  fix v bs
  assume v: "held stack d v bs" "r = flat_value bs" "rr = from_value v"
  show ?thesis
  proof (cases v)
    case (VObject m)
    with v object_field_held [OF assms(1), of stack m bs key] flat_value_held [OF v(1)] show ?thesis by simp
  qed (use v flat_value_held [OF v(1)] in \<open>simp_all add: flat_get_def ref_get_def reads_def\<close>)
qed

lemma reads_kind:
  assumes "reads stack d r rr"
  shows "flat_is_record_ref r = is_record_ref rr" "r = FMissing \<longleftrightarrow> rr = RMissing"
proof -
  have "flat_is_record_ref (flat_value bs) = is_record_ref (from_value v)
        \<and> flat_value bs \<noteq> FMissing \<and> from_value v \<noteq> RMissing" if "held stack d v bs" for v bs
    using flat_value_held [OF that] by (cases v) (simp_all add: flat_is_record_ref_def is_record_ref_def)
  with assms show "flat_is_record_ref r = is_record_ref rr" "r = FMissing \<longleftrightarrow> rr = RMissing"
    by (auto simp: reads_def flat_is_record_ref_def is_record_ref_def)
qed

lemma flat_resolve_reads:
  "dict_ok d \<Longrightarrow> reads stack d r rr \<Longrightarrow>
   \<exists>r'. flat_resolve d r path = Some r' \<and> reads stack d r' (resolve_segments rr path)"
proof (induction path arbitrary: r rr)
  case (Cons seg path)
  from flat_get_reads [OF Cons.prems, of seg] obtain r' where
    r': "flat_get d r seg = Some r'" "reads stack d r' (ref_get rr seg)" by blast
  with Cons.IH [OF Cons.prems(1) r'(2)] Cons.prems(2) reads_kind [OF r'(2)] reads_kind [OF Cons.prems(2)]
  show ?case by (auto simp: Let_def is_missing_iff reads_def [of stack d FMissing])
qed simp

lemma to_owned_reads:
  assumes "roomy al" and "reads stack d r rr"
  shows "\<exists>w. flat_to_owned al d stack r = Ret w \<and> same_value (to_owned_value rr) w"
proof (cases "rr = RMissing")
  case True
  with reads_kind [OF assms(2)] show ?thesis by (simp add: flat_to_owned_def to_owned_value_def Let_def)
next
  case False
  with assms(2) obtain v bs where v: "held stack d v bs" "r = flat_value bs" "rr = from_value v"
    unfolding reads_def by blast
  then obtain enc zs where "bs = enc @ zs" "encodes d v enc" "length enc < 2 ^ 32" "storable stack v"
    unfolding held_def by blast
  with decode_spec [of d v enc al stack] assms(1) obtain w where
    "same_value v w" "decode_value al d stack bs = Ret (Some w)" by (auto simp: decodes_def storable_def)
  then show ?thesis using v flat_value_held [OF v(1)] by (cases v) (auto simp: flat_to_owned_def to_owned_value_def Let_def)
qed

subsection \<open>Whole records\<close>

text \<open>The fields of a head, wherever it was written.\<close>

lemma head_fields:
  assumes digest: "length digest = 32" and i: "length i < 2 ^ 32"
    and rec: "rec = digest @ u64_bytes rv @ u32_bytes rel @ u32_bytes len
                @ write_varint (of_nat (length i)) @ str_as_bytes i @ zs"
  shows "head_digest rec = Some digest" "head_rv_raw rec = Some rv" "head_body_rel rec = Some rel"
    "head_body_len rec = Some len"
    "head_len rec = Some (head_len_for i)"
    "utf8_ok (str_as_bytes i) \<Longrightarrow> head_id rec = Some i"
proof -
  let ?v = "write_varint (of_nat (length i))" and ?n = "varint_len (of_nat (length i))"
  show "head_digest rec = Some digest"
    using slice_append [of "[]" 0 digest] digest by (simp add: head_digest_def rec)
  have "slice 32 (32 + length (u64_bytes rv)) (digest @ u64_bytes rv @ u32_bytes rel @ u32_bytes len @ ?v @ str_as_bytes i @ zs) = Some (u64_bytes rv)"
    using digest by (intro slice_append) simp
  then show "head_rv_raw rec = Some rv" by (simp add: head_rv_raw_def head_rv_offset_def rec)
  have "slice 40 (40 + length (u32_bytes rel)) ((digest @ u64_bytes rv) @ u32_bytes rel @ u32_bytes len @ ?v @ str_as_bytes i @ zs) = Some (u32_bytes rel)"
    using digest by (intro slice_append) simp
  then show "head_body_rel rec = Some rel" by (simp add: head_body_rel_def head_body_rel_offset_def rec)
  have "slice 44 (44 + length (u32_bytes len)) ((digest @ u64_bytes rv @ u32_bytes rel) @ u32_bytes len @ ?v @ str_as_bytes i @ zs) = Some (u32_bytes len)"
    using digest by (intro slice_append) simp
  then show "head_body_len rec = Some len" by (simp add: head_body_len_def head_body_len_offset_def rec)
  have tail: "slice_from head_id_offset rec = Some (?v @ str_as_bytes i @ zs)"
    using slice_from_append [of "digest @ u64_bytes rv @ u32_bytes rel @ u32_bytes len" head_id_offset "?v @ str_as_bytes i @ zs"] digest
    by (simp add: head_id_offset_def rec)
  note n = varint_len_bound [of "of_nat (length i)"]
  show "head_len rec = Some (head_len_for i)"
    using tail i n digest by (simp add: head_len_def head_len_for_def Let_def varint_of_length length_write_varint head_id_offset_def rec)
  have "slice (48 + ?n) (48 + ?n + length (str_as_bytes i)) ((digest @ u64_bytes rv @ u32_bytes rel @ u32_bytes len @ ?v) @ str_as_bytes i @ zs) = Some (str_as_bytes i)"
    using digest by (intro slice_append) (simp add: length_write_varint)
  then show "head_id rec = Some i" if "utf8_ok (str_as_bytes i)"
    using tail i n that by (simp add: head_id_def Let_def varint_of_length head_id_offset_def from_utf8_def rec)
qed

lemma encode_record_layout:
  assumes enc: "encode_record i v digest d = (rec, d', hl)" and d: "dict_ok d" and v: "value_wf v"
    and digest: "length digest = 32" and names: "length (fd_names d') \<le> 2 ^ 32" and small: "length rec < 2 ^ 32"
  obtains body where "hl = head_len_for i" "dict_ok d'" "dict_le d d'" "\<And>D. dict_le d' D \<Longrightarrow> encodes D v body"
    "rec = digest @ u64_bytes (record_rv v) @ u32_bytes (of_nat hl) @ u32_bytes (of_nat (length body))
             @ write_varint (of_nat (length i)) @ str_as_bytes i @ body"
    "length rec = hl + length body"
proof -
  define pre where "pre = digest @ u64_bytes (record_rv v) @ u32_bytes (of_nat (head_len_for i))"
  define idb where "idb = write_varint (of_nat (length i)) @ str_as_bytes i"
  define out1 where "out1 = pre @ u32_bytes 0 @ idb"
  have hl1: "length out1 = head_len_for i"
    using digest by (simp add: out1_def pre_def idb_def head_len_for_def head_id_offset_def length_write_varint)
  let ?st = "encode_value v (d, out1)"
  have st: "d' = fst ?st" "rec = patch head_body_len_offset (u32_bytes (of_nat (length (snd ?st) - hl))) (snd ?st)"
    and hl: "hl = head_len_for i"
    using enc hl1 by (auto simp: encode_record_def encode_head_def Let_def out1_def pre_def idb_def split: prod.splits)
  from encode_spec(1) [of "(d, out1)" v] d v names st(1) have "emits_value (d, out1) v ?st" by simp
  then obtain body where body: "dict_ok d'" "snd ?st = out1 @ body" "\<And>D. dict_le d' D \<Longrightarrow> encodes D v body"
    using st(1) by (auto simp: emits_value_def)
  have "patch head_body_len_offset (u32_bytes w) (pre @ u32_bytes 0 @ idb @ body) = pre @ u32_bytes w @ idb @ body" for w
    using digest by (intro patch_middle) (simp_all add: pre_def head_body_len_offset_def)
  moreover have "length (snd ?st) - hl = length body" using body(2) hl hl1 by simp
  ultimately have "rec = pre @ u32_bytes (of_nat (length body)) @ idb @ body"
    using st(2) body(2) by (simp add: out1_def)
  then show thesis
    using that body(1,3) hl hl1 encode_dict_le(1) [of "(d, out1)" v] st(1)
    by (simp add: pre_def idb_def out1_def)
qed

text \<open>
  C10. A row encoded by the store is read back: its head gives the length, digest, version, id and
  body pointer it was written with, the decoder returns the row (the same fields, in whatever order),
  and resolving a path on the bytes gives what resolving it on the row gives, missing fields
  included. This holds for every dictionary that extends the one the row was encoded with.
\<close>

theorem record_round_trip:
  assumes "encode_record i v digest d = (rec, d', hl)" and "dict_ok d"
    and "length digest = 32" and "utf8_ok (str_as_bytes i)" and "storable stack v"
    and "length (fd_names d') \<le> 2 ^ 32" and "length rec < 2 ^ 32"
    and "dict_ok D" and "dict_le d' D" and "roomy al"
  shows "hl = head_len_for i \<and> head_len rec = Some hl \<and> head_id rec = Some i \<and> head_digest rec = Some digest
    \<and> head_rv rec = (if record_rv v = rv_absent then None else Some (record_rv v))
    \<and> head_body_rel rec = Some (of_nat hl) \<and> head_body_len rec = Some (of_nat (length rec - hl))
    \<and> (\<exists>w. decode_value al D stack (record_body rec) = Ret (Some w) \<and> same_value v w)
    \<and> (\<exists>r w. flat_resolve D (flat_value (record_body rec)) path = Some r
         \<and> (r = FMissing \<longleftrightarrow> resolve_segments (from_value v) path = RMissing)
         \<and> flat_to_owned al D stack r = Ret w
         \<and> same_value (to_owned_value (resolve_segments (from_value v) path)) w)"
proof -
  from assms(5) have v: "value_wf v" "strings_ok v" "value_depth v \<le> stack" by (simp_all add: storable_def)
  obtain body where hl: "hl = head_len_for i" and body: "encodes D v body"
    and rec: "rec = digest @ u64_bytes (record_rv v) @ u32_bytes (of_nat hl) @ u32_bytes (of_nat (length body))
             @ write_varint (of_nat (length i)) @ str_as_bytes i @ body"
    and len: "length rec = hl + length body"
    using encode_record_layout [OF assms(1,2) v(1) assms(3,6,7)] assms(9) by metis
  have "length i < 2 ^ 32" using assms(7) unfolding rec by simp
  note head = head_fields [OF assms(3) this rec]
  have small: "unat (of_nat hl :: u32) = hl" "unat (of_nat (length body) :: u32) = length body"
    using len assms(7) by (simp_all add: unat_of_nat)
  have "drop hl rec = body" using len by (simp add: rec)
  then have "slice hl (hl + length body) rec = Some body" using len by (simp add: slice_def)
  then have rb: "record_body rec = body" using head(3,4) small by (simp add: record_body_def)
  have held: "held stack D v body"
    using body len assms(5,7) unfolding held_def by (intro conjI exI [of _ body] exI [of _ "[]"]) simp_all
  then have reads: "reads stack D (flat_value body) (from_value v)" by (auto simp: reads_def)
  from flat_resolve_reads [OF assms(8) this, of path] obtain r where
    r: "flat_resolve D (flat_value body) path = Some r" "reads stack D r (resolve_segments (from_value v) path)" by blast
  from to_owned_reads [OF assms(10) r(2)] reads_kind(2) [OF r(2)] r(1)
  have "\<exists>r w. flat_resolve D (flat_value (record_body rec)) path = Some r
         \<and> (r = FMissing \<longleftrightarrow> resolve_segments (from_value v) path = RMissing)
         \<and> flat_to_owned al D stack r = Ret w
         \<and> same_value (to_owned_value (resolve_segments (from_value v) path)) w"
    unfolding rb by blast
  moreover from decode_spec [OF body assms(10) v] len assms(7) obtain w where
    "same_value v w" "\<forall>zs. decode_value al D stack (body @ zs) = Ret (Some w)" by (auto simp: decodes_def)
  then have "\<exists>w. decode_value al D stack (record_body rec) = Ret (Some w) \<and> same_value v w"
    unfolding rb by (metis append_Nil2)
  ultimately show ?thesis using head assms(4) hl len by (simp add: head_rv_def)
qed

definition demo_value :: "value" where
  "demo_value = VObject [(''x'', VArray [VInt 5, VStr ''hi'']), (''_00_rv'', VInt 3)]"

definition demo_alloc :: alloc where
  "demo_alloc = \<lparr>al_vec = 2 ^ 32, al_map = 2 ^ 32\<rparr>"

definition demo_dict :: field_dict where
  "demo_dict = \<lparr>fd_names = [''x'', ''_00_rv''], fd_ids = [(''x'', 0), (''_00_rv'', 1)]\<rparr>"

definition demo_record :: bytes where
  "demo_record = fst (encode_record ''a'' demo_value (replicate 32 0) dict_new)"

lemma demo_encoded:
  "encode_record ''a'' demo_value (replicate 32 0) dict_new = (demo_record, demo_dict, 50)"
  "length demo_record = 92"
  by code_simp+

lemma demo_dict_ok: "dict_ok demo_dict"
proof -
  have "value_wf demo_value" by code_simp
  then show ?thesis
    using demo_encoded(2) by (rule_tac encode_record_layout [OF demo_encoded(1) dict_ok_new]) (simp_all add: demo_dict_def)
qed

lemma record_round_trip_witness:
  "head_id demo_record = Some ''a'' \<and> head_rv demo_record = Some 3
   \<and> (\<exists>w. decode_value demo_alloc demo_dict 3 (record_body demo_record) = Ret (Some w) \<and> same_value demo_value w)"
proof -
  have "storable 3 demo_value" "utf8_ok (str_as_bytes ''a'')" "record_rv demo_value = 3" by code_simp+
  moreover have "roomy demo_alloc" by (simp add: roomy_def demo_alloc_def)
  moreover have "length (fd_names demo_dict) \<le> 2 ^ 32" "length demo_record < 2 ^ 32"
    using demo_encoded(2) by (simp_all add: demo_dict_def)
  ultimately show ?thesis
    using record_round_trip [OF demo_encoded(1) dict_ok_new, of 3 demo_dict demo_alloc "[]"] demo_dict_ok
    by (simp add: rv_absent_def)
qed

subsection \<open>Damaged bytes\<close>

text \<open>An object of two fields whose table points both at a trailing null, while its first value claims
  a string so long that the walk over the values comes back to the start of the object.\<close>

definition far_string :: bytes where
  "far_string = 5 # write_varint 0xffffffffffffffe3"

definition damaged_table :: bytes where
  "damaged_table = [0, 0, 0, 0, 11, 0, 0, 0, 1, 0, 0, 0, 11, 0, 0, 0]"

definition damaged_object :: bytes where
  "damaged_object = [7, 2] @ damaged_table @ far_string @ [0]"

lemma damaged_shape:
  "length damaged_table = 16" "length far_string = 11"
  "read_varint (2 # bs) = Some (2, 1)"
  "value_len (Suc k) (far_string @ [0]) = Ret (Some 0xffffffffffffffee)"
proof -
  show "length damaged_table = 16" "length far_string = 11" by code_simp+
  have "read_varint (write_varint 2 @ bs) = Some (2, varint_len 2)" by simp
  moreover have "write_varint 2 = [2]" "varint_len 2 = 1" by code_simp+
  ultimately show "read_varint (2 # bs) = Some (2, 1)" by simp
  have "varint_len 0xffffffffffffffe3 = 10" by code_simp
  then show "value_len (Suc k) (far_string @ [0]) = Ret (Some 0xffffffffffffffee)"
    by (simp add: far_string_def us_def)
qed

lemma two_rounds:
  "skip_values skip bs 2 at = try_opt (slice_from at bs) (\<lambda>rest.
     try_out (skip rest) (\<lambda>n. skip_values skip bs (Suc 0) (us (at + n))))"
  "decode_fields decode d bs 0 2 m = try_opt (obj_entry_at bs 0) (\<lambda>(i, v_bytes). try_opt (name_of d i) (\<lambda>name.
     try_out (decode v_bytes) (\<lambda>v. decode_fields decode d bs 1 (Suc 0) (hm_insert name v m))))"
  by (simp_all add: numeral_2_eq_2)

lemma damaged_parts:
  "obj_parts_of damaged_object = Some \<lparr>op_table = damaged_table, op_values = far_string @ [0], op_count = 2\<rparr>"
proof -
  have "slice 2 (2 + length damaged_table) ([7, 2] @ damaged_table @ far_string @ [0]) = Some damaged_table"
    by (rule slice_append) simp
  moreover have "slice_from 18 (([7, 2] @ damaged_table) @ far_string @ [0]) = Some (far_string @ [0])"
    by (rule slice_from_append) (simp add: damaged_shape)
  ultimately show ?thesis
    by (simp add: obj_parts_of_def damaged_object_def damaged_shape us_def flip: numeral_2_eq_2)
qed

lemma damaged_object_walk: "value_len stack damaged_object = Panic"
proof (induction stack)
  case (Suc stack)
  have "slice_from 18 (([7, 2] @ damaged_table) @ far_string @ [0]) = Some (far_string @ [0])"
    by (rule slice_from_append) (simp add: damaged_shape)
  then have first: "slice_from 18 damaged_object = Some (far_string @ [0])" by (simp add: damaged_object_def)
  have walk: "value_len (Suc stack) damaged_object = skip_values (value_len stack) damaged_object 2 18"
    by (simp add: damaged_object_def damaged_shape us_def)
  show ?case
  proof (cases stack)
    case (Suc k)
    with Suc.IH show ?thesis
      unfolding walk using first damaged_shape(4) [of k]
      by (simp add: two_rounds us_def slice_from_def [of 0])
  qed (use first walk in \<open>simp add: two_rounds\<close>)
qed simp

lemma damaged_object_decodes:
  "decode_value demo_alloc demo_dict stack damaged_object \<in>
     {Panic, Ret (Some (VObject [(''x'', VNull), (''_00_rv'', VNull)]))}"
proof -
  let ?p = "\<lparr>op_table = damaged_table, op_values = far_string @ [0], op_count = 2\<rparr>"
  have "table_u32 ?p 0 = Some 0" "table_u32 ?p 4 = Some 11" "table_u32 ?p 8 = Some 1" "table_u32 ?p 12 = Some 11"
    by code_simp+
  moreover have "slice_from 11 (far_string @ [0]) = Some [0]" by (rule slice_from_append) (rule damaged_shape)
  ultimately have "obj_entry_at damaged_object 0 = Some (0, [0])" "obj_entry_at damaged_object (Suc 0) = Some (1, [0])"
    by (simp_all add: obj_entry_at_def damaged_parts us_def)
  moreover have "name_of demo_dict 0 = Some ''x''" "name_of demo_dict 1 = Some ''_00_rv''" by code_simp+
  moreover have "damaged_object = 7 # tl damaged_object" by (simp add: damaged_object_def)
  ultimately show ?thesis
    using decode_tags(8) [of demo_alloc demo_dict "stack - 1" "tl damaged_object"] damaged_parts
    by (cases stack; cases "stack - 1") (simp_all add: demo_alloc_def two_rounds)
qed

text \<open>
  C27. Damaged bytes can abort the process: decoding an array that holds the object above never
  returns, however deep the stack is, because skipping the object walks back into itself; and an
  array whose element count exceeds what can be allocated aborts at once. A variable-length integer
  whose tenth byte carries more than one bit is accepted with those bits dropped.
\<close>

theorem damaged_bytes_abort:
  "(\<forall>stack. decode_value demo_alloc demo_dict stack ([6, 1] @ damaged_object) = Panic)
   \<and> (\<forall>stack d. decode_value demo_alloc d stack (6 # write_varint 0xffffffffffffffff) = Panic)
   \<and> read_varint (replicate 9 0x80 @ [2]) = Some (0, 10)"
proof (intro conjI allI)
  fix stack
  have "read_varint (write_varint 1 @ damaged_object) = Some (1, varint_len 1)" by simp
  moreover have "write_varint 1 = [1]" "varint_len 1 = 1" by code_simp+
  ultimately have parts: "arr_parts ([6, 1] @ damaged_object) = Some (1, damaged_object)"
    by (simp add: arr_parts_def slice_from_def)
  show "decode_value demo_alloc demo_dict stack ([6, 1] @ damaged_object) = Panic"
  proof (cases stack)
    case (Suc k)
    with damaged_object_decodes [of k] damaged_object_walk [of k] parts show ?thesis
      by (auto simp: slice_from_def demo_alloc_def)
  qed simp
next
  fix stack d
  have "read_varint (write_varint 0xffffffffffffffff @ []) = Some (0xffffffffffffffff, varint_len 0xffffffffffffffff)"
    by (rule read_write_varint)
  moreover have "slice_from (1 + varint_len 0xffffffffffffffff) ((6 # write_varint 0xffffffffffffffff) @ []) = Some ([] :: bytes)"
    by (rule slice_from_append) (simp add: length_write_varint)
  ultimately show "decode_value demo_alloc d stack (6 # write_varint 0xffffffffffffffff) = Panic"
    by (cases stack) (simp_all add: arr_parts_def demo_alloc_def)
  show "read_varint (replicate 9 0x80 @ [2]) = Some (0, 10)" by code_simp
qed

end
