(* ===== verification/Row_Table.thy ===== *)
theory Row_Table
  imports Row_Reading
begin

section \<open>Row tables: encoded rows in an arena behind an index\<close>

text \<open>
  Model of \<^verbatim>\<open>packages/ssp/src/circuit/row_table.rs\<close> and of the heap backing of
  \<^verbatim>\<open>circuit/arena.rs\<close>: an append-only arena of byte segments, an index of slots keyed by the hash
  of the record id, the operations of the table and its checkpoint bookkeeping (watermark,
  tombstones, what an incremental checkpoint carries).

  The \<^verbatim>\<open>Arena\<close> trait is the record \<open>arena_ops\<close>; its contract is locale \<open>arena\<close>. The
  index is the \<^verbatim>\<open>hashbrown\<close> crate's \<^verbatim>\<open>HashTable\<close>, a parameter \<open>ht_ops\<close> whose
  documented behaviour is locale \<open>hash_table\<close>; \<open>te_hash\<close> is \<^verbatim>\<open>FxHasher\<close> on an id.
  The scratch buffer of the table, cleared before every use, is a local value. A fresh epoch, drawn
  from a process-wide counter, is an argument.
\<close>

subsection \<open>Spans, cursors and the arena interface\<close>

record span =
  sp_seg :: "16 word"
  sp_off :: u32
  sp_len :: u32

record cursor =
  cu_seg :: "16 word"
  cu_off :: u32

definition span_start :: "span \<Rightarrow> cursor" where
  "span_start s = \<lparr>cu_seg = sp_seg s, cu_off = sp_off s\<rparr>"

definition cursor_less :: "cursor \<Rightarrow> cursor \<Rightarrow> bool" where
  "cursor_less a b \<longleftrightarrow> cu_seg a < cu_seg b \<or> cu_seg a = cu_seg b \<and> cu_off a < cu_off b"

record 'a arena_ops =
  ar_append :: "bytes \<Rightarrow> 'a \<Rightarrow> span \<times> 'a"
  ar_get :: "span \<Rightarrow> 'a \<Rightarrow> bytes"
  ar_free :: "span \<Rightarrow> 'a \<Rightarrow> 'a"
  ar_adopt :: "u64 \<Rightarrow> 'a \<Rightarrow> 'a"
  ar_end_cursor :: "'a \<Rightarrow> cursor"
  ar_clear :: "'a \<Rightarrow> 'a"

definition u64_saturating_sub :: "u64 \<Rightarrow> u64 \<Rightarrow> u64" where
  "u64_saturating_sub a b = (if a < b then 0 else a - b)"

record heap_arena =
  ha_segs :: "bytes list"
  ha_sealed :: nat
  ha_live :: u64
  ha_dead :: u64

definition heap_segment_bytes :: nat where
  "heap_segment_bytes = 4194304"

definition heap_new :: heap_arena where
  "heap_new = \<lparr>ha_segs = [], ha_sealed = 0, ha_live = 0, ha_dead = 0\<rparr>"

definition heap_from_buf :: "bytes \<Rightarrow> u64 \<Rightarrow> heap_arena" where
  "heap_from_buf buf live =
     \<lparr>ha_segs = [buf], ha_sealed = 1, ha_live = live, ha_dead = u64_saturating_sub (of_nat (length buf)) live\<rparr>"

definition heap_writable :: "nat \<Rightarrow> heap_arena \<Rightarrow> nat \<times> heap_arena" where
  "heap_writable incoming a =
     (let open_seg = (ha_sealed a < length (ha_segs a)
            \<and> (last (ha_segs a) = [] \<or> length (last (ha_segs a)) + incoming \<le> heap_segment_bytes));
          a' = (if open_seg then a else a\<lparr>ha_segs := ha_segs a @ [[]]\<rparr>)
      in (length (ha_segs a') - 1, a'))"

definition heap_append :: "bytes \<Rightarrow> heap_arena \<Rightarrow> span \<times> heap_arena" where
  "heap_append bs a0 =
     (case heap_writable (length bs) a0 of
        (idx, a) \<Rightarrow>
          let seg = ha_segs a ! idx
          in (\<lparr>sp_seg = of_nat idx, sp_off = of_nat (length seg), sp_len = of_nat (length bs)\<rparr>,
              a\<lparr>ha_segs := (ha_segs a)[idx := seg @ bs], ha_live := ha_live a + of_nat (length bs)\<rparr>))"

definition heap_get :: "span \<Rightarrow> heap_arena \<Rightarrow> bytes" where
  "heap_get s a =
     (let start = unat (sp_off s); end = start + unat (sp_len s)
      in if unat (sp_seg s) < length (ha_segs a)
         then (case slice start end (ha_segs a ! unat (sp_seg s)) of Some bs \<Rightarrow> bs | None \<Rightarrow> [])
         else [])"

definition heap_free :: "span \<Rightarrow> heap_arena \<Rightarrow> heap_arena" where
  "heap_free s a =
     a\<lparr>ha_live := u64_saturating_sub (ha_live a) (ucast (sp_len s)), ha_dead := ha_dead a + ucast (sp_len s)\<rparr>"

definition heap_adopt :: "u64 \<Rightarrow> heap_arena \<Rightarrow> heap_arena" where
  "heap_adopt n a = a\<lparr>ha_live := ha_live a + n, ha_dead := u64_saturating_sub (ha_dead a) n\<rparr>"

definition heap_end_cursor :: "heap_arena \<Rightarrow> cursor" where
  "heap_end_cursor a =
     (if ha_segs a = [] then \<lparr>cu_seg = 0, cu_off = 0\<rparr>
      else if length (ha_segs a) \<le> ha_sealed a
      then \<lparr>cu_seg = of_nat (length (ha_segs a)), cu_off = 0\<rparr>
      else \<lparr>cu_seg = of_nat (length (ha_segs a) - 1), cu_off = of_nat (length (last (ha_segs a)))\<rparr>)"

definition heap_clear :: "heap_arena \<Rightarrow> heap_arena" where
  "heap_clear a = heap_new"

definition heap_ops :: "heap_arena arena_ops" where
  "heap_ops = \<lparr>ar_append = heap_append, ar_get = heap_get, ar_free = heap_free, ar_adopt = heap_adopt,
     ar_end_cursor = heap_end_cursor, ar_clear = heap_clear\<rparr>"

subsection \<open>The table\<close>

type_synonym row_slot = span

record 'h ht_ops =
  ht_new :: 'h
  ht_find :: "u64 \<Rightarrow> (row_slot \<Rightarrow> bool) \<Rightarrow> 'h \<Rightarrow> row_slot option"
  ht_replace :: "u64 \<Rightarrow> (row_slot \<Rightarrow> bool) \<Rightarrow> row_slot \<Rightarrow> 'h \<Rightarrow> 'h"
  ht_insert_unique :: "u64 \<Rightarrow> row_slot \<Rightarrow> (row_slot \<Rightarrow> u64) \<Rightarrow> 'h \<Rightarrow> 'h"
  ht_remove :: "u64 \<Rightarrow> (row_slot \<Rightarrow> bool) \<Rightarrow> 'h \<Rightarrow> 'h"
  ht_iter :: "'h \<Rightarrow> row_slot list"

record ('a, 'h) table_env =
  te_arena :: "'a arena_ops"
  te_index :: "'h ht_ops"
  te_hash :: "string \<Rightarrow> u64"

record ('a, 'h) flat_table =
  tb_dict :: field_dict
  tb_index :: 'h
  tb_arena :: 'a
  tb_epoch :: u64
  tb_persisted :: "cursor option"
  tb_tombstones :: "string list"

record checkpoint_mark =
  cm_epoch :: u64
  cm_cursor :: cursor
  cm_tombstones :: nat

definition max_tombstones :: nat where
  "max_tombstones = 1048576"

definition body_of :: "bytes \<Rightarrow> row_slot \<Rightarrow> span option" where
  "body_of head slot =
     Option.bind (head_body_rel head) (\<lambda>rel.
     Option.bind (head_body_len head) (\<lambda>len.
       if len = 0 then None
       else if 2 ^ 32 \<le> unat (sp_off slot) + unat rel then None
       else Some \<lparr>sp_seg = sp_seg slot, sp_off = sp_off slot + rel, sp_len = len\<rparr>))"

definition from_parts :: "u64 \<Rightarrow> field_dict \<Rightarrow> 'h \<Rightarrow> 'a \<Rightarrow> ('a, 'h) flat_table" where
  "from_parts epoch d idx a =
     \<lparr>tb_dict = d, tb_index = idx, tb_arena = a, tb_epoch = epoch, tb_persisted = None, tb_tombstones = []\<rparr>"

definition with_arena :: "('a, 'h) table_env \<Rightarrow> u64 \<Rightarrow> 'a \<Rightarrow> ('a, 'h) flat_table" where
  "with_arena E epoch a = from_parts epoch dict_new (ht_new (te_index E)) a"

definition slot_id :: "('a, 'h) table_env \<Rightarrow> 'a \<Rightarrow> row_slot \<Rightarrow> string option" where
  "slot_id E a slot = head_id (ar_get (te_arena E) slot a)"

definition slot_hash :: "('a, 'h) table_env \<Rightarrow> 'a \<Rightarrow> row_slot \<Rightarrow> u64" where
  "slot_hash E a slot = (case slot_id E a slot of None \<Rightarrow> 0 | Some i \<Rightarrow> te_hash E i)"

definition find_slot :: "('a, 'h) table_env \<Rightarrow> ('a, 'h) flat_table \<Rightarrow> string \<Rightarrow> row_slot option" where
  "find_slot E t i =
     ht_find (te_index E) (te_hash E i) (\<lambda>slot. slot_id E (tb_arena t) slot = Some i) (tb_index t)"

definition tb_len :: "('a, 'h) table_env \<Rightarrow> ('a, 'h) flat_table \<Rightarrow> nat" where
  "tb_len E t = length (ht_iter (te_index E) (tb_index t))"

definition contains_key :: "('a, 'h) table_env \<Rightarrow> ('a, 'h) flat_table \<Rightarrow> string \<Rightarrow> bool" where
  "contains_key E t i \<longleftrightarrow> find_slot E t i \<noteq> None"

definition tb_keys :: "('a, 'h) table_env \<Rightarrow> ('a, 'h) flat_table \<Rightarrow> string list" where
  "tb_keys E t = List.map_filter (slot_id E (tb_arena t)) (ht_iter (te_index E) (tb_index t))"

definition slot_body :: "('a, 'h) table_env \<Rightarrow> 'a \<Rightarrow> row_slot \<Rightarrow> bytes" where
  "slot_body E a slot =
     (case body_of (ar_get (te_arena E) slot a) slot of Some s \<Rightarrow> ar_get (te_arena E) s a | None \<Rightarrow> [])"

definition tb_get :: "('a, 'h) table_env \<Rightarrow> ('a, 'h) flat_table \<Rightarrow> string \<Rightarrow> flat_ref" where
  "tb_get E t i =
     (case find_slot E t i of
        None \<Rightarrow> FMissing
      | Some slot \<Rightarrow>
          let body = slot_body E (tb_arena t) slot
          in if body = [] then FMissing else flat_value body)"

definition tb_head :: "('a, 'h) table_env \<Rightarrow> ('a, 'h) flat_table \<Rightarrow> string \<Rightarrow> bytes option" where
  "tb_head E t i =
     Option.bind (find_slot E t i) (\<lambda>slot.
       let head = ar_get (te_arena E) slot (tb_arena t) in if head = [] then None else Some head)"

definition tb_digest_of :: "('a, 'h) table_env \<Rightarrow> ('a, 'h) flat_table \<Rightarrow> string \<Rightarrow> bytes option" where
  "tb_digest_of E t i = Option.bind (tb_head E t i) head_digest"

definition tb_rv_of :: "('a, 'h) table_env \<Rightarrow> ('a, 'h) flat_table \<Rightarrow> string \<Rightarrow> i64 option" where
  "tb_rv_of E t i = Option.bind (tb_head E t i) head_rv"

definition free_slot :: "('a, 'h) table_env \<Rightarrow> row_slot \<Rightarrow> 'a \<Rightarrow> 'a" where
  "free_slot E slot a =
     (let body = body_of (ar_get (te_arena E) slot a) slot; a' = ar_free (te_arena E) slot a
      in case body of None \<Rightarrow> a' | Some s \<Rightarrow> ar_free (te_arena E) s a')"

definition place :: "('a, 'h) table_env \<Rightarrow> string \<Rightarrow> row_slot \<Rightarrow> ('a, 'h) flat_table \<Rightarrow> bool \<times> ('a, 'h) flat_table" where
  "place E i slot t =
     (let same = (\<lambda>s. slot_id E (tb_arena t) s = Some i); ops = te_index E
      in case ht_find ops (te_hash E i) same (tb_index t) of
           Some old \<Rightarrow>
             (True, t\<lparr>tb_index := ht_replace ops (te_hash E i) same slot (tb_index t),
                      tb_arena := free_slot E old (tb_arena t)\<rparr>)
         | None \<Rightarrow>
             (False, t\<lparr>tb_index := ht_insert_unique ops (te_hash E i) slot (slot_hash E (tb_arena t)) (tb_index t)\<rparr>))"

definition append_record :: "('a, 'h) table_env \<Rightarrow> bytes \<Rightarrow> nat \<Rightarrow> ('a, 'h) flat_table \<Rightarrow> row_slot \<times> ('a, 'h) flat_table" where
  "append_record E rec hl t =
     (case ar_append (te_arena E) rec (tb_arena t) of
        (s, a) \<Rightarrow> (s\<lparr>sp_len := of_nat hl\<rparr>, t\<lparr>tb_arena := a\<rparr>))"

definition tb_insert :: "('a, 'h) table_env \<Rightarrow> string \<Rightarrow> value \<Rightarrow> bytes \<Rightarrow> ('a, 'h) flat_table
    \<Rightarrow> row_slot \<times> ('a, 'h) flat_table" where
  "tb_insert E i v digest t =
     (case encode_record i v digest (tb_dict t) of
        (rec, d, hl) \<Rightarrow>
          case append_record E rec hl (t\<lparr>tb_dict := d\<rparr>) of
            (slot, t1) \<Rightarrow> (slot, snd (place E i slot t1)))"

definition tb_insert_raw :: "('a, 'h) table_env \<Rightarrow> string \<Rightarrow> bytes \<Rightarrow> i64 \<Rightarrow> bytes \<Rightarrow> ('a, 'h) flat_table
    \<Rightarrow> (row_slot \<times> bool) \<times> ('a, 'h) flat_table" where
  "tb_insert_raw E i digest rv body t =
     (case encode_head i digest rv (of_nat (head_len_for i)) (of_nat (length body)) [] of
        (head, hl) \<Rightarrow>
          case append_record E (head @ body) hl t of
            (slot, t1) \<Rightarrow> case place E i slot t1 of (replaced, t2) \<Rightarrow> ((slot, replaced), t2))"

definition remove_slot :: "('a, 'h) table_env \<Rightarrow> string \<Rightarrow> ('a, 'h) flat_table \<Rightarrow> bool \<times> ('a, 'h) flat_table" where
  "remove_slot E i t =
     (let same = (\<lambda>s. slot_id E (tb_arena t) s = Some i); ops = te_index E
      in case ht_find ops (te_hash E i) same (tb_index t) of
           None \<Rightarrow> (False, t)
         | Some slot \<Rightarrow>
             (True, t\<lparr>tb_index := ht_remove ops (te_hash E i) same (tb_index t),
                      tb_arena := free_slot E slot (tb_arena t)\<rparr>))"

definition tb_remove :: "('a, 'h) table_env \<Rightarrow> string \<Rightarrow> ('a, 'h) flat_table \<Rightarrow> bool \<times> ('a, 'h) flat_table" where
  "tb_remove E i t =
     (case remove_slot E i t of
        (False, t1) \<Rightarrow> (False, t1)
      | (True, t1) \<Rightarrow>
          (True,
           if tb_persisted t1 = None then t1
           else let ts = tb_tombstones t1 @ [i]
                in if max_tombstones < length ts then t1\<lparr>tb_persisted := None, tb_tombstones := []\<rparr>
                   else t1\<lparr>tb_tombstones := ts\<rparr>))"

definition tb_clear :: "('a, 'h) table_env \<Rightarrow> u64 \<Rightarrow> ('a, 'h) flat_table \<Rightarrow> ('a, 'h) flat_table" where
  "tb_clear E epoch t =
     \<lparr>tb_dict = dict_new, tb_index = ht_new (te_index E), tb_arena = ar_clear (te_arena E) (tb_arena t),
      tb_epoch = epoch, tb_persisted = None, tb_tombstones = []\<rparr>"

definition slot_record :: "('a, 'h) table_env \<Rightarrow> 'a \<Rightarrow> row_slot \<Rightarrow> (bytes \<times> bytes) option" where
  "slot_record E a slot =
     (let head = ar_get (te_arena E) slot a
      in if head = [] then None
         else map_option (\<lambda>s. (head, ar_get (te_arena E) s a)) (body_of head slot))"

definition tb_records :: "('a, 'h) table_env \<Rightarrow> ('a, 'h) flat_table \<Rightarrow> (bytes \<times> bytes) list" where
  "tb_records E t = List.map_filter (slot_record E (tb_arena t)) (ht_iter (te_index E) (tb_index t))"

definition restore_dict :: "('a, 'h) table_env \<Rightarrow> string list \<Rightarrow> ('a, 'h) flat_table \<Rightarrow> bool \<times> ('a, 'h) flat_table" where
  "restore_dict E names t =
     (if ht_iter (te_index E) (tb_index t) \<noteq> [] \<or> fd_names (tb_dict t) \<noteq> [] then (False, t)
      else case from_names names of Some d \<Rightarrow> (True, t\<lparr>tb_dict := d\<rparr>) | None \<Rightarrow> (False, t))"

fun extend_dict_loop :: "string list \<Rightarrow> field_dict \<Rightarrow> bool \<times> field_dict" where
  "extend_dict_loop [] d = (True, d)"
| "extend_dict_loop (name # names) d =
     (case intern name d of
        (i, d') \<Rightarrow> if i \<noteq> of_nat (length (fd_names d)) then (False, d') else extend_dict_loop names d')"

definition extend_dict :: "string list \<Rightarrow> ('a, 'h) flat_table \<Rightarrow> bool \<times> ('a, 'h) flat_table" where
  "extend_dict names t =
     (case extend_dict_loop names (tb_dict t) of (ok, d) \<Rightarrow> (ok, t\<lparr>tb_dict := d\<rparr>))"

subsection \<open>Checkpoints\<close>

definition take_mark :: "('a, 'h) table_env \<Rightarrow> ('a, 'h) flat_table \<Rightarrow> checkpoint_mark" where
  "take_mark E t =
     \<lparr>cm_epoch = tb_epoch t, cm_cursor = ar_end_cursor (te_arena E) (tb_arena t),
      cm_tombstones = length (tb_tombstones t)\<rparr>"

definition mark_persisted :: "checkpoint_mark \<Rightarrow> ('a, 'h) flat_table \<Rightarrow> bool \<times> ('a, 'h) flat_table" where
  "mark_persisted mark t =
     (if cm_epoch mark \<noteq> tb_epoch t then (False, t)
      else (True, t\<lparr>tb_persisted := Some (cm_cursor mark),
                    tb_tombstones := drop (min (cm_tombstones mark) (length (tb_tombstones t))) (tb_tombstones t)\<rparr>))"

definition set_persisted_at_end :: "('a, 'h) table_env \<Rightarrow> ('a, 'h) flat_table \<Rightarrow> ('a, 'h) flat_table" where
  "set_persisted_at_end E t =
     t\<lparr>tb_persisted := Some (ar_end_cursor (te_arena E) (tb_arena t)), tb_tombstones := []\<rparr>"

definition records_since_persisted :: "('a, 'h) table_env \<Rightarrow> ('a, 'h) flat_table \<Rightarrow> (bytes \<times> bytes) list" where
  "records_since_persisted E t =
     List.map_filter (\<lambda>slot.
       if (case tb_persisted t of Some c \<Rightarrow> cursor_less (span_start slot) c | None \<Rightarrow> False) then None
       else slot_record E (tb_arena t) slot)
     (ht_iter (te_index E) (tb_index t))"

fun pending_loop :: "(string \<Rightarrow> bool) \<Rightarrow> string list \<Rightarrow> string list \<Rightarrow> string list" where
  "pending_loop live seen [] = []"
| "pending_loop live seen (i # is) =
     (if i \<notin> set seen \<and> \<not> live i then [i] else []) @ pending_loop live (List.insert i seen) is"

definition tombstones_pending :: "('a, 'h) table_env \<Rightarrow> ('a, 'h) flat_table \<Rightarrow> string list" where
  "tombstones_pending E t = pending_loop (contains_key E t) [] (tb_tombstones t)"

end
