(* ===== verification/Table_Refinement.thy ===== *)
theory Table_Refinement
  imports Row_Table
begin

section \<open>Row tables refine maps from ids to rows\<close>

text \<open>
  The contract of an arena (locale \<open>arena\<close>) and the documented behaviour of the hash table (locale
  \<open>hash_table\<close>) give the contract of a row table: it behaves as a finite map from record ids to
  rows with their digests. The rest of the store (\<open>Row_Store\<close>) works with that map.
\<close>

subsection \<open>Interfaces\<close>

locale arena =
  fixes aops :: "'a arena_ops" and ok :: "'a \<Rightarrow> bool" and room :: "bytes \<Rightarrow> 'a \<Rightarrow> bool"
  assumes append_ok: "ok a \<Longrightarrow> room bs a \<Longrightarrow> ar_append aops bs a = (s, a') \<Longrightarrow>
      ok a' \<and> unat (sp_off s) + length bs < 2 ^ 32"
    and append_get: "ok a \<Longrightarrow> room bs a \<Longrightarrow> ar_append aops bs a = (s, a') \<Longrightarrow> k + l \<le> length bs \<Longrightarrow>
      ar_get aops \<lparr>sp_seg = sp_seg s, sp_off = sp_off s + of_nat k, sp_len = of_nat l\<rparr> a' = take l (drop k bs)"
    and append_keeps: "ok a \<Longrightarrow> room bs a \<Longrightarrow> ar_append aops bs a = (s, a') \<Longrightarrow> ar_get aops s' a \<noteq> [] \<Longrightarrow>
      ar_get aops s' a' = ar_get aops s' a"
    and append_after: "ok a \<Longrightarrow> room bs a \<Longrightarrow> ar_append aops bs a = (s, a') \<Longrightarrow>
      \<not> cursor_less (span_start s) (ar_end_cursor aops a)"
    and append_end: "ok a \<Longrightarrow> room bs a \<Longrightarrow> ar_append aops bs a = (s, a') \<Longrightarrow>
      \<not> cursor_less (ar_end_cursor aops a') (ar_end_cursor aops a)"
    and end_after: "ok a \<Longrightarrow> ar_get aops s a \<noteq> [] \<Longrightarrow> cursor_less (span_start s) (ar_end_cursor aops a)"
    and free_get: "ar_get aops s (ar_free aops s' a) = ar_get aops s a"
    and free_end: "ar_end_cursor aops (ar_free aops s' a) = ar_end_cursor aops a"
    and free_ok: "ok a \<Longrightarrow> ok (ar_free aops s' a)"

locale hash_table =
  fixes hops :: "'h ht_ops" and items :: "'h \<Rightarrow> (u64 \<times> row_slot) list"
  assumes new_items: "items (ht_new hops) = []"
    and iter_items: "mset (ht_iter hops t) = mset (map snd (items t))"
    and find_Some: "ht_find hops h p t = Some s \<Longrightarrow> p s \<and> (\<exists>h'. (h', s) \<in> set (items t))"
    and find_None: "ht_find hops h p t = None \<Longrightarrow> (h, s) \<in> set (items t) \<Longrightarrow> \<not> p s"
    and insert_items: "(\<And>h' s'. (h', s') \<in> set (items t) \<Longrightarrow> hasher s' = h') \<Longrightarrow> hasher s = h \<Longrightarrow>
      mset (items (ht_insert_unique hops h s hasher t)) = add_mset (h, s) (mset (items t))"
    and replace_items: "ht_find hops h p t = Some s \<Longrightarrow> \<exists>h'. (h', s) \<in> set (items t) \<and>
      mset (items (ht_replace hops h p s' t)) = add_mset (h', s') (mset (items t) - {#(h', s)#})"
    and remove_items: "ht_find hops h p t = Some s \<Longrightarrow> \<exists>h'. (h', s) \<in> set (items t) \<and>
      mset (items (ht_remove hops h p t)) = mset (items t) - {#(h', s)#}"

subsection \<open>The heap arena\<close>

definition heap_ok :: "heap_arena \<Rightarrow> bool" where
  "heap_ok a \<longleftrightarrow> length (ha_segs a) < 2 ^ 16 \<and> (\<forall>seg \<in> set (drop (ha_sealed a) (ha_segs a)). length seg < 2 ^ 32)"

definition heap_room :: "bytes \<Rightarrow> heap_arena \<Rightarrow> bool" where
  "heap_room bs a \<longleftrightarrow>
     (let a' = snd (heap_writable (length bs) a)
      in length (ha_segs a') < 2 ^ 16 \<and> length (last (ha_segs a')) + length bs < 2 ^ 32)"

lemma heap_writable_segs:
  obtains segs seg where "heap_writable n a = (length segs, a\<lparr>ha_segs := segs @ [seg]\<rparr>)"
    "ha_segs a = segs @ [seg] \<and> ha_sealed a < length (ha_segs a) \<or> ha_segs a = segs \<and> seg = []"
proof (cases "ha_sealed a < length (ha_segs a) \<and> (last (ha_segs a) = [] \<or> length (last (ha_segs a)) + n \<le> heap_segment_bytes)")
  case True
  then have "ha_segs a \<noteq> []" by auto
  then have "ha_segs a = butlast (ha_segs a) @ [last (ha_segs a)]" by simp
  with True show thesis
    by (intro that [of "butlast (ha_segs a)" "last (ha_segs a)"]) (auto simp: heap_writable_def Let_def)
next
  case False
  then show thesis by (intro that [of "ha_segs a" "[]"]) (auto simp: heap_writable_def Let_def)
qed

lemma heap_append_segs:
  assumes "heap_ok a" "heap_room bs a" "heap_append bs a = (s, a')"
  obtains segs seg where "ha_segs a' = segs @ [seg @ bs]" "ha_sealed a' = ha_sealed a"
    "ha_segs a = segs @ [seg] \<and> ha_sealed a < length (ha_segs a) \<or> ha_segs a = segs \<and> seg = []"
    "unat (sp_seg s) = length segs" "unat (sp_off s) = length seg" "length segs < 2 ^ 16 - 1" "length seg + length bs < 2 ^ 32"
proof -
  obtain segs seg where w: "heap_writable (length bs) a = (length segs, a\<lparr>ha_segs := segs @ [seg]\<rparr>)"
    and old: "ha_segs a = segs @ [seg] \<and> ha_sealed a < length (ha_segs a) \<or> ha_segs a = segs \<and> seg = []"
    by (rule heap_writable_segs)
  from assms(2) w have room: "length segs < 2 ^ 16 - 1" "length seg + length bs < 2 ^ 32"
    by (simp_all add: heap_room_def)
  from assms(3) w have "s = \<lparr>sp_seg = of_nat (length segs), sp_off = of_nat (length seg), sp_len = of_nat (length bs)\<rparr>"
    "ha_segs a' = segs @ [seg @ bs]" "ha_sealed a' = ha_sealed a"
    by (auto simp: heap_append_def Let_def)
  with room old show thesis by (intro that) (simp_all add: unat_of_nat)
qed

lemma heap_get_eq:
  "heap_get s a = (if unat (sp_seg s) < length (ha_segs a)
     \<and> unat (sp_off s) + unat (sp_len s) \<le> length (ha_segs a ! unat (sp_seg s))
     then take (unat (sp_len s)) (drop (unat (sp_off s)) (ha_segs a ! unat (sp_seg s))) else [])"
  by (simp add: heap_get_def slice_def Let_def)

lemma heap_append_get:
  assumes "heap_ok a" "heap_room bs a" "heap_append bs a = (s, a')" "k + l \<le> length bs"
  shows "heap_get \<lparr>sp_seg = sp_seg s, sp_off = sp_off s + of_nat k, sp_len = of_nat l\<rparr> a' = take l (drop k bs)"
proof -
  obtain segs seg where a': "ha_segs a' = segs @ [seg @ bs]"
    and s: "unat (sp_seg s) = length segs" "unat (sp_off s) = length seg" "length seg + length bs < 2 ^ 32"
    using heap_append_segs [OF assms(1-3)] by metis
  have "unat (of_nat k :: u32) = k" "unat (of_nat l :: u32) = l" using assms(4) s(3) by (simp_all add: unat_of_nat)
  moreover from this have "unat (sp_off s + of_nat k) = length seg + k"
    using s assms(4) by (simp add: unat_add_lem [THEN iffD1])
  ultimately show ?thesis using a' s assms(4) by (simp add: heap_get_eq)
qed

lemma heap_append_keeps:
  assumes "heap_ok a" "heap_room bs a" "heap_append bs a = (s, a')" "heap_get s' a \<noteq> []"
  shows "heap_get s' a' = heap_get s' a"
proof -
  obtain segs seg where a': "ha_segs a' = segs @ [seg @ bs]"
    and a: "ha_segs a = segs @ [seg] \<or> ha_segs a = segs"
    using heap_append_segs [OF assms(1-3)] by metis
  from a a' assms(4) show ?thesis by (auto simp: heap_get_eq nth_append split: if_splits)
qed

lemma cursor_less_iff:
  "cursor_less a b \<longleftrightarrow> unat (cu_seg a) < unat (cu_seg b)
     \<or> unat (cu_seg a) = unat (cu_seg b) \<and> unat (cu_off a) < unat (cu_off b)"
  by (simp add: cursor_less_def word_less_nat_alt word_unat_eq_iff)

lemma heap_end_cursor_eq:
  assumes "heap_ok a"
  shows "unat (cu_seg (heap_end_cursor a)) =
      (if ha_segs a = [] then 0 else if length (ha_segs a) \<le> ha_sealed a then length (ha_segs a) else length (ha_segs a) - 1)"
    "unat (cu_off (heap_end_cursor a)) =
      (if length (ha_segs a) \<le> ha_sealed a \<or> ha_segs a = [] then 0 else length (last (ha_segs a)))"
proof -
  have small: "n < 2 ^ 16 \<Longrightarrow> unat (of_nat n :: 16 word) = n" for n by (simp add: unat_of_nat)
  have "length (last (ha_segs a)) < 2 ^ 32" if "ha_sealed a < length (ha_segs a)"
  proof -
    from that have "last (drop (ha_sealed a) (ha_segs a)) = last (ha_segs a)" "drop (ha_sealed a) (ha_segs a) \<noteq> []"
      by (simp_all add: last_drop)
    with assms show ?thesis unfolding heap_ok_def by (metis last_in_set)
  qed
  then show "unat (cu_off (heap_end_cursor a)) =
      (if length (ha_segs a) \<le> ha_sealed a \<or> ha_segs a = [] then 0 else length (last (ha_segs a)))"
    by (simp add: heap_end_cursor_def unat_of_nat)
  show "unat (cu_seg (heap_end_cursor a)) =
      (if ha_segs a = [] then 0 else if length (ha_segs a) \<le> ha_sealed a then length (ha_segs a) else length (ha_segs a) - 1)"
  proof -
    from assms have "length (ha_segs a) < 2 ^ 16" "length (ha_segs a) - 1 < 2 ^ 16" by (auto simp: heap_ok_def)
    from this [THEN small] show ?thesis by (simp add: heap_end_cursor_def del: of_nat_diff)
  qed
qed

lemma heap_end_after:
  assumes "heap_ok a" "heap_get s a \<noteq> []"
  shows "cursor_less (span_start s) (heap_end_cursor a)"
proof -
  from assms(2) have s: "unat (sp_seg s) < length (ha_segs a)" "unat (sp_off s) < length (ha_segs a ! unat (sp_seg s))"
    by (auto simp: heap_get_eq split: if_splits)
  then have "ha_segs a \<noteq> []" by auto
  moreover have "unat (sp_seg s) = length (ha_segs a) - 1 \<Longrightarrow> unat (sp_off s) < length (last (ha_segs a))"
    using s \<open>ha_segs a \<noteq> []\<close> by (simp add: last_conv_nth)
  ultimately show ?thesis
    using s heap_end_cursor_eq [OF assms(1)] by (auto simp: cursor_less_iff span_start_def)
qed

lemma heap_append_ok:
  assumes "heap_ok a" "ha_segs a' = segs @ [seg @ bs]" "ha_sealed a' = ha_sealed a"
    and "ha_segs a = segs @ [seg] \<or> ha_segs a = segs" "length segs < 2 ^ 16 - 1" "length seg + length bs < 2 ^ 32"
  shows "heap_ok a'"
  using assms by (cases "ha_sealed a - length segs") (auto simp: heap_ok_def)

lemma heap_append_end:
  assumes "heap_ok a" "heap_room bs a" "heap_append bs a = (s, a')"
  shows "\<not> cursor_less (heap_end_cursor a') (heap_end_cursor a)"
proof -
  obtain segs seg where a': "ha_segs a' = segs @ [seg @ bs]" "ha_sealed a' = ha_sealed a"
    and a: "ha_segs a = segs @ [seg] \<and> ha_sealed a < length (ha_segs a) \<or> ha_segs a = segs \<and> seg = []"
    and small: "length segs < 2 ^ 16 - 1" "length seg + length bs < 2 ^ 32"
    using heap_append_segs [OF assms] by metis
  have "heap_ok a'" by (rule heap_append_ok [OF assms(1) a' _ small]) (use a in blast)
  note fin = heap_end_cursor_eq [OF assms(1)] heap_end_cursor_eq [OF this]
  from a show ?thesis
  proof (elim disjE conjE)
    assume "ha_segs a = segs @ [seg]" "ha_sealed a < length (ha_segs a)"
    then show ?thesis using fin a' by (simp add: cursor_less_iff)
  next
    assume "ha_segs a = segs" "seg = []"
    then show ?thesis using fin a'
      by (cases segs; cases "length segs \<le> ha_sealed a"; cases "Suc (length segs) \<le> ha_sealed a")
        (simp_all add: cursor_less_iff not_less)
  qed
qed

interpretation heap: arena heap_ops heap_ok heap_room
proof (unfold_locales, goal_cases)
  case (1 a bs s a')
  then obtain segs seg where a': "ha_segs a' = segs @ [seg @ bs]" "ha_sealed a' = ha_sealed a"
    "ha_segs a = segs @ [seg] \<or> ha_segs a = segs" "length segs < 2 ^ 16 - 1" "length seg + length bs < 2 ^ 32"
    and "unat (sp_off s) = length seg"
    using heap_append_segs [OF 1 [unfolded heap_ops_def arena_ops.simps]] by metis
  with heap_append_ok [OF 1(1) a'] show ?case by simp
next
  case (2 a bs s a' k l)
  then show ?case using heap_append_get by (simp add: heap_ops_def)
next
  case (3 a bs s a' s')
  then show ?case using heap_append_keeps by (simp add: heap_ops_def)
next
  case (4 a bs s a')
  then obtain segs seg where a: "ha_segs a = segs @ [seg] \<and> ha_sealed a < length (ha_segs a) \<or> ha_segs a = segs \<and> seg = []"
    and s: "unat (sp_seg s) = length segs" "unat (sp_off s) = length seg"
    using heap_append_segs [OF 4 [unfolded heap_ops_def arena_ops.simps]] by metis
  note fin = heap_end_cursor_eq [OF 4(1)]
  from a have "\<not> cursor_less (span_start s) (heap_end_cursor a)"
  proof (elim disjE conjE)
    assume "ha_segs a = segs @ [seg]" "ha_sealed a < length (ha_segs a)"
    then show ?thesis using fin s by (simp add: cursor_less_iff span_start_def)
  next
    assume "ha_segs a = segs" "seg = []"
    then show ?thesis using fin s by (cases "segs = []"; cases "length segs \<le> ha_sealed a")
        (simp_all add: cursor_less_iff span_start_def not_less)
  qed
  then show ?case by (simp add: heap_ops_def)
next
  case (5 a bs s a')
  then show ?case using heap_append_end by (simp add: heap_ops_def)
next
  case (6 a s)
  then show ?case using heap_end_after by (simp add: heap_ops_def)
qed (simp_all add: heap_ops_def heap_free_def heap_get_eq heap_end_cursor_def heap_ok_def)

subsection \<open>The refinement relation\<close>

text \<open>A row held by a slot: its head carries the id, the digest and the version, and its body encodes
  the row.\<close>

definition row_at :: "('a, 'h) table_env \<Rightarrow> nat \<Rightarrow> field_dict \<Rightarrow> 'a \<Rightarrow> row_slot \<Rightarrow> string \<Rightarrow> value \<Rightarrow> bytes \<Rightarrow> bool" where
  "row_at E stack d a slot i v digest \<longleftrightarrow>
     (let head = ar_get (te_arena E) slot a
      in head \<noteq> [] \<and> head_id head = Some i \<and> head_digest head = Some digest
         \<and> head_rv head = (if record_rv v = rv_absent then None else Some (record_rv v))
         \<and> length digest = 32 \<and> length i < 2 ^ 32 \<and> utf8_ok (str_as_bytes i)
         \<and> (\<exists>s rel. body_of head slot = Some s \<and> ar_get (te_arena E) s a \<noteq> []
              \<and> held stack d v (ar_get (te_arena E) s a) \<and> length (ar_get (te_arena E) s a) < 2 ^ 32
              \<and> head = fst (encode_head i digest (record_rv v) rel (of_nat (length (ar_get (te_arena E) s a))) [])))"

definition slots_rel :: "('a, 'h) table_env \<Rightarrow> nat \<Rightarrow> field_dict \<Rightarrow> 'a \<Rightarrow> (u64 \<times> row_slot) list
    \<Rightarrow> (string \<rightharpoonup> value \<times> bytes) \<Rightarrow> bool" where
  "slots_rel E stack d a L m \<longleftrightarrow>
     distinct (map (\<lambda>(h, s). slot_id E a s) L)
     \<and> (\<forall>h s. (h, s) \<in> set L \<longrightarrow> (\<exists>i v digest.
           m i = Some (v, digest) \<and> h = te_hash E i \<and> row_at E stack d a s i v digest))
     \<and> (\<forall>i r. m i = Some r \<longrightarrow> (\<exists>h s. (h, s) \<in> set L \<and> slot_id E a s = Some i))"

definition table_rel :: "('a, 'h) table_env \<Rightarrow> ('a \<Rightarrow> bool) \<Rightarrow> ('h \<Rightarrow> (u64 \<times> row_slot) list) \<Rightarrow> nat
    \<Rightarrow> ('a, 'h) flat_table \<Rightarrow> (string \<rightharpoonup> value \<times> bytes) \<Rightarrow> bool" where
  "table_rel E ok items stack t m \<longleftrightarrow>
     ok (tb_arena t) \<and> dict_ok (tb_dict t) \<and> slots_rel E stack (tb_dict t) (tb_arena t) (items (tb_index t)) m"

lemma row_at_slot_id: "row_at E stack d a slot i v digest \<Longrightarrow> slot_id E a slot = Some i"
  by (simp add: row_at_def slot_id_def Let_def)

lemma slots_entry:
  assumes "slots_rel E stack d a L m" "(h, s) \<in> set L"
  obtains i v digest where "m i = Some (v, digest)" "h = te_hash E i" "slot_id E a s = Some i"
    "row_at E stack d a s i v digest"
proof -
  from assms obtain i v digest where "m i = Some (v, digest)" "h = te_hash E i" "row_at E stack d a s i v digest"
    unfolding slots_rel_def by blast
  then show thesis by (intro that) (auto dest: row_at_slot_id)
qed

lemma slots_unique:
  assumes "slots_rel E stack d a L m" "(h, s) \<in> set L" "(h', s') \<in> set L" "slot_id E a s = slot_id E a s'"
  shows "(h, s) = (h', s')"
proof -
  from assms(1) have "inj_on (\<lambda>(h, s). slot_id E a s) (set L)"
    unfolding slots_rel_def distinct_map by blast
  from inj_onD [OF this _ assms(2,3)] assms(4) show ?thesis by simp
qed

lemma slots_covers:
  assumes "slots_rel E stack d a L m" "m i = Some r"
  obtains h s where "(h, s) \<in> set L" "slot_id E a s = Some i"
  using assms unfolding slots_rel_def by blast

lemma slots_rel_mset:
  assumes "mset L = mset L'" "slots_rel E stack d a L m"
  shows "slots_rel E stack d a L' m"
proof -
  have "set L' = set L" using assms(1) by (metis mset_eq_setD)
  moreover have "distinct (map (\<lambda>(h, s). slot_id E a s) L') = distinct (map (\<lambda>(h, s). slot_id E a s) L)"
    using assms(1) by (intro mset_eq_imp_distinct_iff) simp
  ultimately show ?thesis using assms(2) unfolding slots_rel_def by simp
qed

lemma slots_rel_Cons:
  assumes "slots_rel E stack d a L m" "m i = None" "row_at E stack d a s i v digest"
  shows "slots_rel E stack d a ((te_hash E i, s) # L) (m(i \<mapsto> (v, digest)))"
proof -
  have "slot_id E a s' \<noteq> Some i" "\<exists>j v digest. j \<noteq> i \<and> m j = Some (v, digest) \<and> h = te_hash E j \<and> row_at E stack d a s' j v digest"
    if "(h, s') \<in> set L" for h s'
    using slots_entry [OF assms(1) that] assms(2) by (metis option.distinct(1) option.inject)+
  with assms(1,3) row_at_slot_id [OF assms(3)] show ?thesis
    unfolding slots_rel_def by (fastforce split: if_splits)
qed

lemma slots_rel_drop:
  assumes "slots_rel E stack d a ((h, s) # L) m" "slot_id E a s = Some i"
  shows "slots_rel E stack d a L (m(i := None))"
proof -
  have "\<exists>j v digest. j \<noteq> i \<and> m j = Some (v, digest) \<and> h' = te_hash E j \<and> row_at E stack d a s' j v digest"
    if "(h', s') \<in> set L" for h' s'
  proof -
    from that have "(h', s') \<in> set ((h, s) # L)" by simp
    then obtain j v digest where j: "m j = Some (v, digest)" "h' = te_hash E j" "slot_id E a s' = Some j"
      "row_at E stack d a s' j v digest" using slots_entry [OF assms(1)] by blast
    moreover have "slot_id E a s' \<noteq> slot_id E a s" using assms(1) that unfolding slots_rel_def by (auto simp: image_iff)
    ultimately show ?thesis using assms(2) by metis
  qed
  with assms show ?thesis unfolding slots_rel_def by (fastforce split: if_splits)
qed

lemma held_mono: "held stack d v bs \<Longrightarrow> dict_le d d' \<Longrightarrow> held stack d' v bs"
  unfolding held_def using encodes_mono by blast

lemma held_not_Nil: "held stack d v bs \<Longrightarrow> bs \<noteq> []"
  by (auto simp: held_def dest: encodes_not_Nil)

lemma held_reads: "held stack d v bs \<Longrightarrow> reads stack d (flat_value bs) (from_value v)"
  by (auto simp: reads_def)

locale row_tables = arena "te_arena E" ok room + hash_table "te_index E" items
  for E :: "('a, 'h) table_env" and ok room items
begin

lemma row_at_append:
  assumes "row_at E stack d a slot i v digest" and "ok a" "room bs a" "ar_append (te_arena E) bs a = (s, a')"
    and "dict_le d d'"
  shows "row_at E stack d' a' slot i v digest"
proof -
  from assms(1) obtain b where b: "ar_get (te_arena E) slot a \<noteq> []" "body_of (ar_get (te_arena E) slot a) slot = Some b"
    "ar_get (te_arena E) b a \<noteq> []" by (auto simp: row_at_def Let_def)
  note keeps = append_keeps [OF assms(2-4)]
  from assms(1) show ?thesis
    using b held_mono [OF _ assms(5)] by (auto simp: row_at_def Let_def keeps)
qed

lemma row_at_free: "row_at E stack d (free_slot E s a) slot i v digest \<longleftrightarrow> row_at E stack d a slot i v digest"
  by (simp add: row_at_def free_slot_def Let_def free_get split: option.splits)

lemma free_slot_frame:
  "slot_id E (free_slot E s a) = slot_id E a" "ok a \<Longrightarrow> ok (free_slot E s a)"
  "ar_end_cursor (te_arena E) (free_slot E s a) = ar_end_cursor (te_arena E) a"
  "ar_get (te_arena E) s' (free_slot E s a) = ar_get (te_arena E) s' a"
  by (auto simp: slot_id_def free_slot_def Let_def free_get free_ok free_end split: option.splits)

lemma find_slot_iff:
  assumes "table_rel E ok items stack t m"
  shows "find_slot E t i = Some s \<longleftrightarrow> (te_hash E i, s) \<in> set (items (tb_index t)) \<and> slot_id E (tb_arena t) s = Some i"
proof
  note rel = conjunct2 [OF conjunct2 [OF assms [unfolded table_rel_def]]]
  assume "find_slot E t i = Some s"
  then have s: "slot_id E (tb_arena t) s = Some i" "\<exists>h. (h, s) \<in> set (items (tb_index t))"
    unfolding find_slot_def using find_Some by blast+
  then obtain h where h: "(h, s) \<in> set (items (tb_index t))" by blast
  from slots_entry [OF rel h] s(1) have "h = te_hash E i" by (metis option.inject)
  with h s(1) show "(te_hash E i, s) \<in> set (items (tb_index t)) \<and> slot_id E (tb_arena t) s = Some i" by simp
next
  note rel = conjunct2 [OF conjunct2 [OF assms [unfolded table_rel_def]]]
  assume s: "(te_hash E i, s) \<in> set (items (tb_index t)) \<and> slot_id E (tb_arena t) s = Some i"
  show "find_slot E t i = Some s"
  proof (cases "find_slot E t i")
    case None
    with s find_None show ?thesis unfolding find_slot_def by blast
  next
    case (Some s')
    then have "slot_id E (tb_arena t) s' = Some i" "\<exists>h. (h, s') \<in> set (items (tb_index t))"
      unfolding find_slot_def using find_Some by blast+
    with s slots_unique [OF rel] Some show ?thesis by (metis prod.inject)
  qed
qed

lemma find_slot_rel:
  assumes "table_rel E ok items stack t m"
  shows "m i = None \<Longrightarrow> find_slot E t i = None"
    and "m i = Some (v, digest) \<Longrightarrow>
      \<exists>s. find_slot E t i = Some s \<and> row_at E stack (tb_dict t) (tb_arena t) s i v digest"
proof -
  note iff = find_slot_iff [OF assms]
  note rel = conjunct2 [OF conjunct2 [OF assms [unfolded table_rel_def]]]
  show "find_slot E t i = None" if "m i = None"
  proof (rule ccontr)
    assume "find_slot E t i \<noteq> None"
    then obtain s where "(te_hash E i, s) \<in> set (items (tb_index t))" "slot_id E (tb_arena t) s = Some i"
      using iff by blast
    with slots_entry [OF rel] that show False by (metis option.distinct(1) option.inject)
  qed
  assume m: "m i = Some (v, digest)"
  then obtain h s where s: "(h, s) \<in> set (items (tb_index t))" "slot_id E (tb_arena t) s = Some i"
    using slots_covers [OF rel] by blast
  from slots_entry [OF rel s(1)] s(2) m have "h = te_hash E i" "row_at E stack (tb_dict t) (tb_arena t) s i v digest"
    by (metis option.inject prod.inject)+
  with s iff show "\<exists>s. find_slot E t i = Some s \<and> row_at E stack (tb_dict t) (tb_arena t) s i v digest" by blast
qed

lemma slots_rel_append:
  assumes "slots_rel E stack d a L m" "ok a" "room bs a" "ar_append (te_arena E) bs a = (s, a')" "dict_le d d'"
  shows "slots_rel E stack d' a' L m"
proof -
  have id: "slot_id E a' s' = slot_id E a s'" "row_at E stack d a s' i v digest \<Longrightarrow> row_at E stack d' a' s' i v digest"
    if "(h, s') \<in> set L" for h s' i v digest
  proof -
    note mem = that
    obtain j w c where "row_at E stack d a s' j w c" by (rule slots_entry [OF assms(1) mem])
    with row_at_append [OF this assms(2-5)] show "slot_id E a' s' = slot_id E a s'" by (simp add: row_at_slot_id)
  qed (rule row_at_append [OF _ assms(2-5)])
  then have "map (\<lambda>(h, s). slot_id E a' s) L = map (\<lambda>(h, s). slot_id E a s) L" by auto
  with assms(1) id show ?thesis unfolding slots_rel_def by (metis (no_types, lifting))
qed

lemma slots_rel_free: "slots_rel E stack d (free_slot E s a) L m \<longleftrightarrow> slots_rel E stack d a L m"
  by (simp add: slots_rel_def row_at_free free_slot_frame)

lemma place_rel:
  assumes rel: "table_rel E ok items stack t m" and row: "row_at E stack (tb_dict t) (tb_arena t) slot i v digest"
    and p: "place E i slot t = (replaced, t')"
  shows "table_rel E ok items stack t' (m(i \<mapsto> (v, digest)))" "replaced \<longleftrightarrow> i \<in> dom m"
    "find_slot E t' i = Some slot" "\<And>j. j \<noteq> i \<Longrightarrow> find_slot E t' j = find_slot E t j"
    "tb_epoch t' = tb_epoch t" "tb_persisted t' = tb_persisted t" "tb_tombstones t' = tb_tombstones t"
    "ar_end_cursor (te_arena E) (tb_arena t') = ar_end_cursor (te_arena E) (tb_arena t)"
proof -
  from rel have ok: "ok (tb_arena t)" "dict_ok (tb_dict t)"
    and sl: "slots_rel E stack (tb_dict t) (tb_arena t) (items (tb_index t)) m" by (simp_all add: table_rel_def)
  let ?same = "\<lambda>s. slot_id E (tb_arena t) s = Some i"
  have find: "find_slot E t i = ht_find (te_index E) (te_hash E i) ?same (tb_index t)" by (simp add: find_slot_def)
  have "table_rel E ok items stack t' (m(i \<mapsto> (v, digest))) \<and> (replaced \<longleftrightarrow> i \<in> dom m)
      \<and> (te_hash E i, slot) \<in> set (items (tb_index t')) \<and> slot_id E (tb_arena t') slot = Some i
      \<and> slot_id E (tb_arena t') = slot_id E (tb_arena t)
      \<and> (\<forall>h s. slot_id E (tb_arena t) s \<noteq> Some i \<longrightarrow>
           (h, s) \<in> set (items (tb_index t')) \<longleftrightarrow> (h, s) \<in> set (items (tb_index t)))"
  proof (cases "find_slot E t i")
    case None
    then have m: "m i = None" using find_slot_rel(2) [OF rel, of i] by (cases "m i") auto
    have t': "replaced = False"
      "t' = t\<lparr>tb_index := ht_insert_unique (te_index E) (te_hash E i) slot (slot_hash E (tb_arena t)) (tb_index t)\<rparr>"
      using p None find by (simp_all add: place_def Let_def)
    have "slot_hash E (tb_arena t) s' = h" if "(h, s') \<in> set (items (tb_index t))" for h s'
      by (rule slots_entry [OF sl that]) (simp add: slot_hash_def)
    moreover have "slot_hash E (tb_arena t) slot = te_hash E i" using row_at_slot_id [OF row] by (simp add: slot_hash_def)
    ultimately have "mset (items (ht_insert_unique (te_index E) (te_hash E i) slot (slot_hash E (tb_arena t)) (tb_index t)))
        = add_mset (te_hash E i, slot) (mset (items (tb_index t)))"
      by (rule insert_items)
    then have "mset ((te_hash E i, slot) # items (tb_index t)) = mset (items (tb_index t'))" by (simp add: t'(2))
    note new = slots_rel_mset [OF this slots_rel_Cons [OF sl m row]] mset_eq_setD [OF this]
    from ok new(1) t' have "table_rel E ok items stack t' (m(i \<mapsto> (v, digest)))" by (simp add: table_rel_def)
    moreover have "\<forall>h s. (h, s) \<in> set (items (tb_index t')) \<longleftrightarrow> (h, s) = (te_hash E i, slot) \<or> (h, s) \<in> set (items (tb_index t))"
      using new(2) by auto
    moreover have "tb_arena t' = tb_arena t" by (simp add: t'(2))
    ultimately show ?thesis using t'(1) m row_at_slot_id [OF row] by (metis domIff prod.inject)
  next
    case (Some old)
    then obtain h where h: "(h, old) \<in> set (items (tb_index t))"
      "mset (items (ht_replace (te_index E) (te_hash E i) ?same slot (tb_index t))) = add_mset (h, slot) (mset (items (tb_index t)) - {#(h, old)#})"
      using replace_items find by fastforce
    have t': "replaced = True" "t' = t\<lparr>tb_index := ht_replace (te_index E) (te_hash E i) ?same slot (tb_index t),
                      tb_arena := free_slot E old (tb_arena t)\<rparr>"
      using p Some find by (simp_all add: place_def Let_def)
    let ?L = "remove1 (h, old) (items (tb_index t))"
    have old: "slot_id E (tb_arena t) old = Some i" using Some find_slot_iff [OF rel] by blast
    with slots_entry [OF sl h(1)] have hash: "h = te_hash E i" and dom: "i \<in> dom m" by (metis option.inject domI)+
    have "mset (items (tb_index t)) = mset ((h, old) # ?L)" using h(1) by (simp add: insert_DiffM)
    from slots_rel_drop [OF slots_rel_mset [OF this sl] old]
    have "slots_rel E stack (tb_dict t) (tb_arena t) ?L (m(i := None))" .
    from slots_rel_Cons [OF this _ row] hash
    have "slots_rel E stack (tb_dict t) (tb_arena t) ((h, slot) # ?L) (m(i \<mapsto> (v, digest)))" by simp
    moreover have "mset ((h, slot) # ?L) = mset (items (tb_index t'))"
      using h by (simp add: t'(2))
    ultimately have "slots_rel E stack (tb_dict t) (tb_arena t) (items (tb_index t')) (m(i \<mapsto> (v, digest)))"
      and "(te_hash E i, slot) \<in> set (items (tb_index t'))"
      and new: "set (items (tb_index t')) = set ((h, slot) # ?L)"
      using hash by (metis slots_rel_mset, metis list.set_intros(1) mset_eq_setD, metis mset_eq_setD)
    moreover have "(h', s) \<in> set (items (tb_index t')) \<longleftrightarrow> (h', s) \<in> set (items (tb_index t))"
      if "slot_id E (tb_arena t) s \<noteq> Some i" for h' s
    proof -
      have "s \<noteq> slot" "s \<noteq> old" using that old row_at_slot_id [OF row] by auto
      then show ?thesis unfolding new by (auto dest: notin_set_remove1 in_set_remove1 [THEN iffD2, rotated])
    qed
    moreover have "slot_id E (tb_arena t') = slot_id E (tb_arena t)" by (simp add: t'(2) free_slot_frame)
    ultimately show ?thesis using ok dom t'(1) row_at_slot_id [OF row]
      by (simp add: table_rel_def slots_rel_free free_slot_frame t'(2))
  qed
  then have rel': "table_rel E ok items stack t' (m(i \<mapsto> (v, digest)))" and dom: "replaced \<longleftrightarrow> i \<in> dom m"
    and new: "(te_hash E i, slot) \<in> set (items (tb_index t'))" "slot_id E (tb_arena t') slot = Some i"
    and ids: "slot_id E (tb_arena t') = slot_id E (tb_arena t)"
    and other: "\<And>h s. slot_id E (tb_arena t) s \<noteq> Some i \<Longrightarrow>
           (h, s) \<in> set (items (tb_index t')) \<longleftrightarrow> (h, s) \<in> set (items (tb_index t))" by blast+
  show "table_rel E ok items stack t' (m(i \<mapsto> (v, digest)))" "replaced \<longleftrightarrow> i \<in> dom m" by (fact rel' dom)+
  show "find_slot E t' i = Some slot" using new find_slot_iff [OF rel'] by blast
  have "find_slot E t' j = Some s \<longleftrightarrow> find_slot E t j = Some s" if "j \<noteq> i" for j s
    unfolding find_slot_iff [OF rel'] find_slot_iff [OF rel] ids using other that by auto
  then show "find_slot E t' j = find_slot E t j" if "j \<noteq> i" for j using that by (metis not_None_eq)
  show "tb_epoch t' = tb_epoch t" "tb_persisted t' = tb_persisted t" "tb_tombstones t' = tb_tombstones t"
    "ar_end_cursor (te_arena E) (tb_arena t') = ar_end_cursor (te_arena E) (tb_arena t)"
    using p by (auto simp: place_def Let_def free_slot_frame split: option.splits)
qed

lemma row_at_new:
  assumes app: "ok a" "room rec a" "ar_append (te_arena E) rec a = (s, a')"
    and digest: "length digest = 32" and i: "utf8_ok (str_as_bytes i)"
    and body: "held stack d v body"
    and rec: "rec = digest @ u64_bytes (record_rv v) @ u32_bytes (of_nat hl) @ u32_bytes (of_nat (length body))
             @ write_varint (of_nat (length i)) @ str_as_bytes i @ body"
    and len: "length rec = hl + length body"
  shows "row_at E stack d a' (s\<lparr>sp_len := of_nat hl\<rparr>) i v digest"
proof -
  let ?slot = "s\<lparr>sp_len := of_nat hl\<rparr>"
  have bound: "unat (sp_off s) + length rec < 2 ^ 32" using append_ok [OF app] by simp
  define head where "head = digest @ u64_bytes (record_rv v) @ u32_bytes (of_nat hl) @ u32_bytes (of_nat (length body))
             @ write_varint (of_nat (length i)) @ str_as_bytes i @ []"
  have rec': "rec = head @ body" and hl: "length head = hl" using rec len by (simp_all add: head_def)
  have small: "length i < 2 ^ 32" "length body < 2 ^ 32" using bound unfolding rec by simp_all
  note fields = head_fields [OF digest small(1) head_def]
  have u: "unat (of_nat hl :: u32) = hl" "unat (of_nat (length body) :: u32) = length body" "0 < length body"
    using bound len held_not_Nil [OF body] by (simp_all add: unat_of_nat)
  from append_get [OF app, of 0 hl] len rec' hl have h: "ar_get (te_arena E) ?slot a' = head" by (cases s) simp
  let ?b = "\<lparr>sp_seg = sp_seg s, sp_off = sp_off s + of_nat hl, sp_len = of_nat (length body)\<rparr>"
  from append_get [OF app, of hl "length body"] len rec' hl have b: "ar_get (te_arena E) ?b a' = body" by simp
  have "of_nat (length body) \<noteq> (0 :: u32)" using u(2,3) by (metis unat_0 less_irrefl)
  then have bo: "body_of head ?slot = Some ?b" using fields(3,4) u bound len by (simp add: body_of_def)
  have "head = fst (encode_head i digest (record_rv v) (of_nat hl) (of_nat (length body)) [])"
    and "head \<noteq> []" using digest by (auto simp: head_def encode_head_def Let_def)
  with body h b bo fields i u(3) small show ?thesis
    using digest by (auto simp: row_at_def Let_def head_rv_def)
qed

lemma insert_rel:
  assumes rel: "table_rel E ok items stack t m" and st: "storable stack v"
    and i: "utf8_ok (str_as_bytes i)" and digest: "length digest = 32"
    and enc: "encode_record i v digest (tb_dict t) = (rec, d, hl)"
    and room: "room rec (tb_arena t)" "length (fd_names d) \<le> 2 ^ 32"
    and ins: "tb_insert E i v digest t = (slot, t')"
  shows "table_rel E ok items stack t' (m(i \<mapsto> (v, digest)))"
    "\<not> cursor_less (span_start slot) (ar_end_cursor (te_arena E) (tb_arena t))"
    "find_slot E t' i = Some slot" "\<And>j. j \<noteq> i \<Longrightarrow> find_slot E t' j = find_slot E t j"
    "\<not> cursor_less (ar_end_cursor (te_arena E) (tb_arena t')) (ar_end_cursor (te_arena E) (tb_arena t))"
    "tb_epoch t' = tb_epoch t" "tb_persisted t' = tb_persisted t" "tb_tombstones t' = tb_tombstones t"
proof -
  from rel have ok: "ok (tb_arena t)" "dict_ok (tb_dict t)"
    and sl: "slots_rel E stack (tb_dict t) (tb_arena t) (items (tb_index t)) m" by (simp_all add: table_rel_def)
  obtain s a' where app: "ar_append (te_arena E) rec (tb_arena t) = (s, a')" by fastforce
  let ?t1 = "t\<lparr>tb_dict := d, tb_arena := a'\<rparr>"
  have slot: "slot = s\<lparr>sp_len := of_nat hl\<rparr>" and t': "t' = snd (place E i slot ?t1)"
    using ins enc app by (auto simp: tb_insert_def append_record_def split: prod.splits)
  have ok': "ok a'" and bound: "unat (sp_off s) + length rec < 2 ^ 32"
    using append_ok [OF ok(1) room(1) app] by simp_all
  from st have v: "value_wf v" by (simp add: storable_def)
  have small: "length rec < 2 ^ 32" using bound by simp
  obtain body where hl: "hl = head_len_for i" and d: "dict_ok d" "dict_le (tb_dict t) d"
    and body: "encodes d v body"
    and rec: "rec = digest @ u64_bytes (record_rv v) @ u32_bytes (of_nat hl) @ u32_bytes (of_nat (length body))
             @ write_varint (of_nat (length i)) @ str_as_bytes i @ body"
    and len: "length rec = hl + length body"
    using encode_record_layout [OF enc ok(2) v digest room(2) small] dict_le_refl by metis
  have held: "held stack d v body"
    using body st len bound unfolding held_def by (intro conjI exI [of _ body] exI [of _ "[]"]) simp_all
  have row: "row_at E stack d a' slot i v digest"
    unfolding slot by (rule row_at_new [OF ok(1) room(1) app digest i held rec len])
  have rel1: "table_rel E ok items stack ?t1 m"
    using slots_rel_append [OF sl ok(1) room(1) app d(2)] ok' d(1) by (simp add: table_rel_def)
  have row1: "row_at E stack (tb_dict ?t1) (tb_arena ?t1) slot i v digest" using row by simp
  obtain replaced where pl: "place E i slot ?t1 = (replaced, t')" using t' by (cases "place E i slot ?t1") simp
  note placed = place_rel [OF rel1 row1 pl]
  show rel': "table_rel E ok items stack t' (m(i \<mapsto> (v, digest)))"
    and "find_slot E t' i = Some slot"
    and "tb_epoch t' = tb_epoch t" "tb_persisted t' = tb_persisted t" "tb_tombstones t' = tb_tombstones t"
    using placed by simp_all
  have "slot_id E a' s' = slot_id E (tb_arena t) s'" if "(h, s') \<in> set (items (tb_index t))" for h s'
    by (rule slots_entry [OF sl that]) (use row_at_append [OF _ ok(1) room(1) app d(2)] row_at_slot_id in metis)
  then have "find_slot E ?t1 j = Some s' \<longleftrightarrow> find_slot E t j = Some s'" for j s'
    unfolding find_slot_iff [OF rel1] find_slot_iff [OF rel] by auto
  then have "find_slot E ?t1 j = find_slot E t j" for j by (metis not_None_eq)
  with placed(4) show "find_slot E t' j = find_slot E t j" if "j \<noteq> i" for j using that by simp
  show "\<not> cursor_less (ar_end_cursor (te_arena E) (tb_arena t')) (ar_end_cursor (te_arena E) (tb_arena t))"
    using append_end [OF ok(1) room(1) app] placed(8) by simp
  show "\<not> cursor_less (span_start slot) (ar_end_cursor (te_arena E) (tb_arena t))"
    using append_after [OF ok(1) room(1) app] slot by (simp add: span_start_def)
qed

lemma remove_slot_rel:
  assumes rel: "table_rel E ok items stack t m" and rem: "remove_slot E i t = (found, t')"
  shows "table_rel E ok items stack t' (m(i := None))" "found \<longleftrightarrow> i \<in> dom m"
    "tb_epoch t' = tb_epoch t" "tb_persisted t' = tb_persisted t" "tb_tombstones t' = tb_tombstones t"
    "\<And>j. j \<noteq> i \<Longrightarrow> find_slot E t' j = find_slot E t j"
    "ar_end_cursor (te_arena E) (tb_arena t') = ar_end_cursor (te_arena E) (tb_arena t)"
proof -
  from rel have ok: "ok (tb_arena t)" "dict_ok (tb_dict t)"
    and sl: "slots_rel E stack (tb_dict t) (tb_arena t) (items (tb_index t)) m" by (simp_all add: table_rel_def)
  let ?same = "\<lambda>s. slot_id E (tb_arena t) s = Some i"
  have find: "find_slot E t i = ht_find (te_index E) (te_hash E i) ?same (tb_index t)" by (simp add: find_slot_def)
  have "table_rel E ok items stack t' (m(i := None)) \<and> (found \<longleftrightarrow> i \<in> dom m)
      \<and> (\<forall>j. j \<noteq> i \<longrightarrow> find_slot E t' j = find_slot E t j)"
  proof (cases "find_slot E t i")
    case None
    then have "m i = None" using find_slot_rel(2) [OF rel, of i] by (cases "m i") auto
    with rem None find rel show ?thesis by (auto simp: remove_slot_def fun_upd_idem)
  next
    case (Some s)
    then obtain h where h: "(h, s) \<in> set (items (tb_index t))"
      "mset (items (ht_remove (te_index E) (te_hash E i) ?same (tb_index t))) = mset (items (tb_index t)) - {#(h, s)#}"
      using remove_items find by fastforce
    have t': "found = True" "t' = t\<lparr>tb_index := ht_remove (te_index E) (te_hash E i) ?same (tb_index t),
                      tb_arena := free_slot E s (tb_arena t)\<rparr>"
      using rem Some find by (simp_all add: remove_slot_def Let_def)
    have s: "slot_id E (tb_arena t) s = Some i" using Some find_slot_iff [OF rel] by blast
    with slots_entry [OF sl h(1)] have hash: "h = te_hash E i" and dom: "i \<in> dom m" by (metis option.inject domI)+
    have ms: "mset (items (tb_index t)) = mset ((h, s) # items (tb_index t'))" using h by (simp add: insert_DiffM t'(2))
    from slots_rel_drop [OF slots_rel_mset [OF ms sl] s] ok have rel': "table_rel E ok items stack t' (m(i := None))"
      by (simp add: table_rel_def slots_rel_free free_slot_frame t'(2))
    have "find_slot E t' j = Some s' \<longleftrightarrow> find_slot E t j = Some s'" if "j \<noteq> i" for j s'
      unfolding find_slot_iff [OF rel'] find_slot_iff [OF rel] mset_eq_setD [OF ms]
      using that s by (auto simp: t'(2) free_slot_frame)
    then have "find_slot E t' j = find_slot E t j" if "j \<noteq> i" for j using that by (metis not_None_eq)
    with rel' dom t'(1) show ?thesis by simp
  qed
  then show "table_rel E ok items stack t' (m(i := None))" "found \<longleftrightarrow> i \<in> dom m"
    "\<And>j. j \<noteq> i \<Longrightarrow> find_slot E t' j = find_slot E t j" by blast+
  show "tb_epoch t' = tb_epoch t" "tb_persisted t' = tb_persisted t" "tb_tombstones t' = tb_tombstones t"
    "ar_end_cursor (te_arena E) (tb_arena t') = ar_end_cursor (te_arena E) (tb_arena t)"
    using rem by (auto simp: remove_slot_def Let_def free_slot_frame split: option.splits)
qed

lemma reads_rel:
  assumes rel: "table_rel E ok items stack t m"
  shows "reads stack (tb_dict t) (tb_get E t i) (case m i of None \<Rightarrow> RMissing | Some (v, _) \<Rightarrow> from_value v)"
    and "tb_digest_of E t i = map_option snd (m i)"
    and "tb_rv_of E t i = Option.bind (m i) (\<lambda>(v, _). if record_rv v = rv_absent then None else Some (record_rv v))"
    and "contains_key E t i \<longleftrightarrow> i \<in> dom m"
proof -
  have "reads stack (tb_dict t) (tb_get E t i) (case m i of None \<Rightarrow> RMissing | Some (v, _) \<Rightarrow> from_value v)
    \<and> tb_digest_of E t i = map_option snd (m i)
    \<and> tb_rv_of E t i = Option.bind (m i) (\<lambda>(v, _). if record_rv v = rv_absent then None else Some (record_rv v))
    \<and> (contains_key E t i \<longleftrightarrow> i \<in> dom m)"
  proof (cases "m i")
    case None
    with find_slot_rel(1) [OF rel] show ?thesis
      by (simp add: tb_get_def tb_digest_of_def tb_rv_of_def tb_head_def contains_key_def reads_def domIff)
  next
    case (Some r)
    obtain v digest where r: "r = (v, digest)" by (cases r)
    with Some find_slot_rel(2) [OF rel] obtain s where s: "find_slot E t i = Some s"
      "row_at E stack (tb_dict t) (tb_arena t) s i v digest" by blast
    then show ?thesis using Some r
      by (auto simp: tb_get_def tb_digest_of_def tb_rv_of_def tb_head_def contains_key_def
          row_at_def Let_def slot_body_def intro: held_reads)
  qed
  then show "reads stack (tb_dict t) (tb_get E t i) (case m i of None \<Rightarrow> RMissing | Some (v, _) \<Rightarrow> from_value v)"
    "tb_digest_of E t i = map_option snd (m i)"
    "tb_rv_of E t i = Option.bind (m i) (\<lambda>(v, _). if record_rv v = rv_absent then None else Some (record_rv v))"
    "contains_key E t i \<longleftrightarrow> i \<in> dom m" by blast+
qed

end

end
