(* ===== verification/Table_Checkpoints.thy ===== *)
theory Table_Checkpoints
  imports Table_Refinement
begin

section \<open>Histories of a row table and its incremental checkpoints\<close>

text \<open>
  A row table under any sequence of writes and deletes is the map those writes and deletes
  describe, and the incremental checkpoint of \<^verbatim>\<open>circuit/row_table.rs\<close> (the rows past the
  watermark and the pending tombstones) turns what the files hold into what the table holds. A
  mark is taken when the files are written and becomes the watermark later; the writes in between
  belong to the next checkpoint.
\<close>

subsection \<open>Operations\<close>

datatype table_op = Put string "value" bytes | Del string

definition table_step :: "('a, 'h) table_env \<Rightarrow> table_op \<Rightarrow> ('a, 'h) flat_table \<Rightarrow> ('a, 'h) flat_table" where
  "table_step E op t =
     (case op of Put i v digest \<Rightarrow> snd (tb_insert E i v digest t) | Del i \<Rightarrow> snd (tb_remove E i t))"

definition map_op :: "table_op \<Rightarrow> (string \<rightharpoonup> value \<times> bytes) \<Rightarrow> (string \<rightharpoonup> value \<times> bytes)" where
  "map_op op m = (case op of Put i v digest \<Rightarrow> m(i \<mapsto> (v, digest)) | Del i \<Rightarrow> m(i := None))"

definition op_fits :: "('a, 'h) table_env \<Rightarrow> (bytes \<Rightarrow> 'a \<Rightarrow> bool) \<Rightarrow> nat \<Rightarrow> table_op \<Rightarrow> ('a, 'h) flat_table \<Rightarrow> bool" where
  "op_fits E room stack op t \<longleftrightarrow>
     (case op of
        Put i v digest \<Rightarrow>
          storable stack v \<and> utf8_ok (str_as_bytes i) \<and> length digest = 32
          \<and> (case encode_record i v digest (tb_dict t) of
               (rec, d, _) \<Rightarrow> room rec (tb_arena t) \<and> length (fd_names d) \<le> 2 ^ 32)
      | Del i \<Rightarrow> True)"

definition op_logged :: "table_op \<Rightarrow> ('a, 'h) flat_table \<Rightarrow> bool" where
  "op_logged op t \<longleftrightarrow>
     (case op of
        Put i v digest \<Rightarrow> True
      | Del i \<Rightarrow> tb_persisted t \<noteq> None \<and> length (tb_tombstones t) < max_tombstones)"

fun run_table :: "('a, 'h) table_env \<Rightarrow> table_op list \<Rightarrow> ('a, 'h) flat_table \<Rightarrow> ('a, 'h) flat_table" where
  "run_table E [] t = t"
| "run_table E (op # ops) t = run_table E ops (table_step E op t)"

fun run_map :: "table_op list \<Rightarrow> (string \<rightharpoonup> value \<times> bytes) \<Rightarrow> (string \<rightharpoonup> value \<times> bytes)" where
  "run_map [] m = m"
| "run_map (op # ops) m = run_map ops (map_op op m)"

fun run_fits :: "('a, 'h) table_env \<Rightarrow> (bytes \<Rightarrow> 'a \<Rightarrow> bool) \<Rightarrow> nat \<Rightarrow> table_op list \<Rightarrow> ('a, 'h) flat_table \<Rightarrow> bool" where
  "run_fits E room stack [] t = True"
| "run_fits E room stack (op # ops) t = (op_fits E room stack op t \<and> run_fits E room stack ops (table_step E op t))"

fun run_logged :: "('a, 'h) table_env \<Rightarrow> table_op list \<Rightarrow> ('a, 'h) flat_table \<Rightarrow> bool" where
  "run_logged E [] t = True"
| "run_logged E (op # ops) t = (op_logged op t \<and> run_logged E ops (table_step E op t))"

text \<open>What the watermark \<open>c\<close> and the tombstones past the first \<open>n\<close> say about the map \<open>m0\<close> the files
  hold: rows below the watermark are as in the files, and rows that are gone have a tombstone.\<close>

definition covers :: "('a, 'h) table_env \<Rightarrow> cursor \<Rightarrow> nat \<Rightarrow> ('a, 'h) flat_table
    \<Rightarrow> (string \<rightharpoonup> value \<times> bytes) \<Rightarrow> (string \<rightharpoonup> value \<times> bytes) \<Rightarrow> bool" where
  "covers E c n t m m0 \<longleftrightarrow>
     n \<le> length (tb_tombstones t)
     \<and> \<not> cursor_less (ar_end_cursor (te_arena E) (tb_arena t)) c
     \<and> (\<forall>i s. find_slot E t i = Some s \<longrightarrow> cursor_less (span_start s) c \<longrightarrow> m i = m0 i)
     \<and> (\<forall>i. m i = None \<longrightarrow> m0 i \<noteq> None \<longrightarrow> i \<in> set (drop n (tb_tombstones t)))"

lemma cursor_less_trans: "\<not> cursor_less a b \<Longrightarrow> \<not> cursor_less b c \<Longrightarrow> \<not> cursor_less a c"
  by (auto simp: cursor_less_iff)

lemma set_pending_loop: "set (pending_loop live seen is) = {i \<in> set is. i \<notin> set seen \<and> \<not> live i}"
  by (induction live seen "is" rule: pending_loop.induct) (auto split: if_splits)

lemma tb_remove_eq:
  "remove_slot E i t = (found, t1) \<Longrightarrow>
   tb_remove E i t = (found, if \<not> found \<or> tb_persisted t1 = None then t1
      else if max_tombstones \<le> length (tb_tombstones t1) then t1\<lparr>tb_persisted := None, tb_tombstones := []\<rparr>
      else t1\<lparr>tb_tombstones := tb_tombstones t1 @ [i]\<rparr>)"
  by (cases found) (simp_all add: tb_remove_def Let_def)

lemma table_rel_bookkeeping [simp]:
  "table_rel E ok items stack (t\<lparr>tb_persisted := p\<rparr>) m = table_rel E ok items stack t m"
  "table_rel E ok items stack (t\<lparr>tb_tombstones := ts\<rparr>) m = table_rel E ok items stack t m"
  "find_slot E (t\<lparr>tb_persisted := p\<rparr>) i = find_slot E t i"
  "find_slot E (t\<lparr>tb_tombstones := ts\<rparr>) i = find_slot E t i"
  by (simp_all add: table_rel_def find_slot_def)

context row_tables
begin

lemma step_rel:
  assumes rel: "table_rel E ok items stack t m" and fits: "op_fits E room stack op t"
  shows "table_rel E ok items stack (table_step E op t) (map_op op m)"
    and "tb_epoch (table_step E op t) = tb_epoch t"
proof -
  have "table_rel E ok items stack (table_step E op t) (map_op op m) \<and> tb_epoch (table_step E op t) = tb_epoch t"
  proof (cases op)
    case (Put i v digest)
    obtain rec d hl where enc: "encode_record i v digest (tb_dict t) = (rec, d, hl)" by (metis prod_cases3)
    obtain slot t' where ins: "tb_insert E i v digest t = (slot, t')" by fastforce
    from Put fits enc have f: "storable stack v" "utf8_ok (str_as_bytes i)" "length digest = 32"
      "room rec (tb_arena t)" "length (fd_names d) \<le> 2 ^ 32" by (auto simp: op_fits_def)
    from insert_rel(1,6) [OF rel f(1-3) enc f(4,5) ins] Put ins show ?thesis
      by (simp add: table_step_def map_op_def)
  next
    case (Del i)
    obtain found t1 where rem: "remove_slot E i t = (found, t1)" by fastforce
    from remove_slot_rel(1,3) [OF rel rem] Del show ?thesis
      by (simp add: table_step_def map_op_def tb_remove_eq [OF rem])
  qed
  then show "table_rel E ok items stack (table_step E op t) (map_op op m)"
    "tb_epoch (table_step E op t) = tb_epoch t" by blast+
qed

lemma run_rel:
  "table_rel E ok items stack t m \<Longrightarrow> run_fits E room stack ops t \<Longrightarrow>
   table_rel E ok items stack (run_table E ops t) (run_map ops m) \<and> tb_epoch (run_table E ops t) = tb_epoch t"
proof (induction ops arbitrary: t m)
  case (Cons op ops)
  then have "op_fits E room stack op t" by simp
  note 1 = step_rel [OF Cons.prems(1) this]
  with Cons.IH [OF 1(1)] Cons.prems(2) show ?case by simp
qed simp

lemma covers_step:
  assumes rel: "table_rel E ok items stack t m" and fits: "op_fits E room stack op t" and log: "op_logged op t"
    and cov: "covers E c n t m m0"
  shows "covers E c n (table_step E op t) (map_op op m) m0"
proof (cases op)
  case (Put i v digest)
  obtain rec d hl where enc: "encode_record i v digest (tb_dict t) = (rec, d, hl)" by (metis prod_cases3)
  obtain slot t' where ins: "tb_insert E i v digest t = (slot, t')" by fastforce
  from Put fits enc have f: "storable stack v" "utf8_ok (str_as_bytes i)" "length digest = 32"
    "room rec (tb_arena t)" "length (fd_names d) \<le> 2 ^ 32" by (auto simp: op_fits_def)
  note new = insert_rel [OF rel f(1-3) enc f(4,5) ins]
  have "\<not> cursor_less (ar_end_cursor (te_arena E) (tb_arena t')) c" "\<not> cursor_less (span_start slot) c"
    using cov new(2,5) cursor_less_trans unfolding covers_def by blast+
  moreover have "(m(i \<mapsto> (v, digest))) j = m0 j" if "find_slot E t' j = Some s" "cursor_less (span_start s) c" for j s
    using that cov new(3,4) calculation(2) by (cases "j = i") (auto simp: covers_def)
  ultimately have "covers E c n t' (m(i \<mapsto> (v, digest))) m0"
    using cov new(8) by (auto simp: covers_def)
  with Put ins show ?thesis by (simp add: table_step_def map_op_def)
next
  case (Del i)
  obtain found t1 where rem: "remove_slot E i t = (found, t1)" by fastforce
  note gone = remove_slot_rel [OF rel rem]
  have t': "table_step E op t = (if found then t1\<lparr>tb_tombstones := tb_tombstones t @ [i]\<rparr> else t1)"
    using Del log gone(4,5) by (auto simp: table_step_def tb_remove_eq [OF rem] op_logged_def)
  have none: "find_slot E t1 i = None" using find_slot_rel(1) [OF gone(1)] by simp
  have slots: "(m(i := None)) j = m0 j" if "find_slot E t1 j = Some s" "cursor_less (span_start s) c" for j s
    using that cov gone(6) none by (cases "j = i") (auto simp: covers_def)
  show ?thesis
  proof (cases found)
    case True
    then show ?thesis using cov slots gone(7) Del t'
      by (auto simp: covers_def map_op_def)
  next
    case False
    then have "m(i := None) = m" using gone(2) by (auto simp: domIff)
    then show ?thesis using cov slots gone(5,7) Del t' False
      by (auto simp: covers_def map_op_def)
  qed
qed

lemma run_persisted:
  "table_rel E ok items stack t m \<Longrightarrow> run_fits E room stack ops t \<Longrightarrow> run_logged E ops t \<Longrightarrow>
   tb_persisted (run_table E ops t) = tb_persisted t"
proof (induction ops arbitrary: t m)
  case (Cons op ops)
  then have fits: "op_fits E room stack op t" and log: "op_logged op t" by simp_all
  have "tb_persisted (table_step E op t) = tb_persisted t"
  proof (cases op)
    case (Put i v digest)
    then show ?thesis
      by (auto simp: table_step_def tb_insert_def append_record_def place_def Let_def split: prod.splits option.splits)
  next
    case (Del i)
    obtain found t1 where rem: "remove_slot E i t = (found, t1)" by fastforce
    from remove_slot_rel(4,5) [OF Cons.prems(1) rem] Del log show ?thesis
      by (auto simp: table_step_def tb_remove_eq [OF rem] op_logged_def)
  qed
  with Cons.IH [OF step_rel(1) [OF Cons.prems(1) fits]] Cons.prems show ?case by simp
qed simp

lemma run_unpersisted:
  "table_rel E ok items stack t m \<Longrightarrow> run_fits E room stack ops t \<Longrightarrow> tb_persisted t = None \<Longrightarrow> tb_tombstones t = [] \<Longrightarrow>
   tb_persisted (run_table E ops t) = None \<and> tb_tombstones (run_table E ops t) = []"
proof (induction ops arbitrary: t m)
  case (Cons op ops)
  then have fits: "op_fits E room stack op t" by simp
  have "tb_persisted (table_step E op t) = None \<and> tb_tombstones (table_step E op t) = []"
  proof (cases op)
    case (Put i v digest)
    then show ?thesis using Cons.prems(3,4)
      by (auto simp: table_step_def tb_insert_def append_record_def place_def Let_def split: prod.splits option.splits)
  next
    case (Del i)
    obtain found t1 where rem: "remove_slot E i t = (found, t1)" by fastforce
    from remove_slot_rel(4,5) [OF Cons.prems(1) rem] Del Cons.prems(3,4) show ?thesis
      by (simp add: table_step_def tb_remove_eq [OF rem])
  qed
  with Cons.IH [OF step_rel(1) [OF Cons.prems(1) fits]] Cons.prems show ?case by simp
qed simp

lemma covers_run:
  "table_rel E ok items stack t m \<Longrightarrow> run_fits E room stack ops t \<Longrightarrow> run_logged E ops t \<Longrightarrow>
   covers E c n t m m0 \<Longrightarrow> covers E c n (run_table E ops t) (run_map ops m) m0"
proof (induction ops arbitrary: t m)
  case (Cons op ops)
  then have 1: "op_fits E room stack op t" "op_logged op t" by simp_all
  from Cons.IH [OF step_rel(1) [OF Cons.prems(1) 1(1)] _ _ covers_step [OF Cons.prems(1) 1 Cons.prems(4)]] Cons.prems
  show ?case by simp
qed simp

lemma covers_mark:
  assumes "covers E c n t m m0"
  shows "covers E c 0 (t\<lparr>tb_persisted := Some c, tb_tombstones := drop (min n (length (tb_tombstones t))) (tb_tombstones t)\<rparr>) m m0"
proof -
  from assms have "min n (length (tb_tombstones t)) = n" by (simp add: covers_def)
  with assms show ?thesis by (simp add: covers_def)
qed

lemma covers_start:
  "table_rel E ok items stack t m \<Longrightarrow>
   covers E (ar_end_cursor (te_arena E) (tb_arena t)) (length (tb_tombstones t)) t m m"
  by (auto simp: covers_def cursor_less_iff)

lemma iter_iff: "s \<in> set (ht_iter (te_index E) t) \<longleftrightarrow> (\<exists>h. (h, s) \<in> set (items t))"
proof -
  have "set (ht_iter (te_index E) t) = set (map snd (items t))" using mset_eq_setD [OF iter_items] .
  then show ?thesis by force
qed

lemma no_new_records:
  assumes rel: "table_rel E ok items stack t m" and per: "tb_persisted t = Some (ar_end_cursor (te_arena E) (tb_arena t))"
  shows "records_since_persisted E t = []"
proof -
  from rel have ok: "ok (tb_arena t)"
    and sl: "slots_rel E stack (tb_dict t) (tb_arena t) (items (tb_index t)) m" by (simp_all add: table_rel_def)
  have "cursor_less (span_start s) (ar_end_cursor (te_arena E) (tb_arena t))"
    if "s \<in> set (ht_iter (te_index E) (tb_index t))" for s
  proof -
    from that obtain h where "(h, s) \<in> set (items (tb_index t))" using iter_iff by blast
    then obtain i v digest where "row_at E stack (tb_dict t) (tb_arena t) s i v digest" by (rule slots_entry [OF sl])
    then show ?thesis using end_after [OF ok] by (simp add: row_at_def Let_def)
  qed
  then have "set (records_since_persisted E t) = {}"
    by (auto simp: records_since_persisted_def set_map_filter per)
  then show ?thesis by simp
qed

lemma record_of_slot:
  assumes "row_at E stack d a s i v digest"
  shows "\<exists>head body. slot_record E a s = Some (head, body) \<and> head_id head = Some i
           \<and> head_digest head = Some digest \<and> held stack d v body"
  using assms by (auto simp: row_at_def slot_record_def Let_def)

lemma delta_spec:
  assumes rel: "table_rel E ok items stack t m" and cov: "covers E c 0 t m m0" and per: "tb_persisted t = Some c"
  shows "(head, body) \<in> set (records_since_persisted E t) \<Longrightarrow>
      \<exists>i v digest. head_id head = Some i \<and> head_digest head = Some digest \<and> m i = Some (v, digest)
        \<and> held stack (tb_dict t) v body"
    and "(\<And>head body. (head, body) \<in> set (records_since_persisted E t) \<Longrightarrow> head_id head \<noteq> Some i) \<Longrightarrow>
      m i = (if i \<in> set (tombstones_pending E t) then None else m0 i)"
    and "set (tombstones_pending E t) \<inter> dom m = {}"
proof -
  from rel have sl: "slots_rel E stack (tb_dict t) (tb_arena t) (items (tb_index t)) m" by (simp add: table_rel_def)
  have pend: "set (tombstones_pending E t) = {i \<in> set (tb_tombstones t). i \<notin> dom m}"
    using reads_rel(4) [OF rel] by (auto simp: tombstones_pending_def set_pending_loop)
  then show "set (tombstones_pending E t) \<inter> dom m = {}" by auto
  {
    assume "(head, body) \<in> set (records_since_persisted E t)"
    then obtain s h where s: "(h, s) \<in> set (items (tb_index t))" "slot_record E (tb_arena t) s = Some (head, body)"
      by (auto simp: records_since_persisted_def set_map_filter per iter_iff split: if_splits)
    obtain i v digest where i: "m i = Some (v, digest)" "row_at E stack (tb_dict t) (tb_arena t) s i v digest"
      by (rule slots_entry [OF sl s(1)])
    from record_of_slot [OF i(2)] s(2) i(1)
    show "\<exists>i v digest. head_id head = Some i \<and> head_digest head = Some digest \<and> m i = Some (v, digest)
        \<and> held stack (tb_dict t) v body" by auto
  }
  assume new: "\<And>head body. (head, body) \<in> set (records_since_persisted E t) \<Longrightarrow> head_id head \<noteq> Some i"
  show "m i = (if i \<in> set (tombstones_pending E t) then None else m0 i)"
  proof (cases "m i")
    case None
    with cov show ?thesis by (cases "m0 i") (auto simp: covers_def pend)
  next
    case (Some r)
    then obtain v digest where r: "m i = Some (v, digest)" by (cases r) auto
    with find_slot_rel(2) [OF rel] obtain s where s: "find_slot E t i = Some s"
      "row_at E stack (tb_dict t) (tb_arena t) s i v digest" by blast
    from record_of_slot [OF s(2)] obtain hd bd where rec: "slot_record E (tb_arena t) s = Some (hd, bd)" "head_id hd = Some i" by blast
    have "s \<in> set (ht_iter (te_index E) (tb_index t))" using s(1) find_slot_iff [OF rel] iter_iff by blast
    then have "(hd, bd) \<in> set (records_since_persisted E t)" if "\<not> cursor_less (span_start s) c"
      using that rec(1) by (auto simp: records_since_persisted_def set_map_filter per intro!: bexI [of _ s])
    with rec(2) new [of hd bd] have "cursor_less (span_start s) c" by blast
    with cov s(1) have "m i = m0 i" by (auto simp: covers_def)
    with Some show ?thesis by (auto simp: pend domIff)
  qed
qed

lemma keys_rel:
  assumes rel: "table_rel E ok items stack t m"
  shows "distinct (tb_keys E t)" "set (tb_keys E t) = dom m" "length (tb_keys E t) = tb_len E t"
proof -
  from rel have sl: "slots_rel E stack (tb_dict t) (tb_arena t) (items (tb_index t)) m" by (simp add: table_rel_def)
  let ?it = "ht_iter (te_index E) (tb_index t)" and ?id = "slot_id E (tb_arena t)"
  have some: "?id s \<noteq> None" if "s \<in> set ?it" for s
    using that slots_entry [OF sl] by (metis iter_iff option.distinct(1))
  then have keys: "map Some (tb_keys E t) = map ?id ?it"
    unfolding tb_keys_def by (induction ?it) (auto simp: List.map_filter_def)
  have "mset (map ?id ?it) = mset (map ?id (map snd (items (tb_index t))))" using iter_items by (metis mset_map)
  also have "map ?id (map snd (items (tb_index t))) = map (\<lambda>(h, s). ?id s) (items (tb_index t))" by auto
  finally have ms: "mset (map ?id ?it) = mset (map (\<lambda>(h, s). ?id s) (items (tb_index t)))" .
  have "distinct (map ?id ?it)" using mset_eq_imp_distinct_iff [OF ms] sl by (simp add: slots_rel_def)
  then show "distinct (tb_keys E t)" using keys by (metis distinct_map)
  show "length (tb_keys E t) = tb_len E t" using keys by (metis length_map tb_len_def)
  have "Some ` set (tb_keys E t) = ?id ` set ?it" using keys by (metis set_map)
  also have "\<dots> = Some ` dom m" 
  proof safe
    fix s assume "s \<in> set ?it"
    then obtain h where "(h, s) \<in> set (items (tb_index t))" using iter_iff by blast
    from slots_entry [OF sl this] show "?id s \<in> Some ` dom m" by (metis domI imageI)
  next
    fix i r assume "m i = Some r"
    from slots_covers [OF sl this] show "Some i \<in> ?id ` set ?it" by (metis iter_iff image_eqI)
  qed
  finally show "set (tb_keys E t) = dom m" by (simp add: inj_image_eq_iff)
qed

end

subsection \<open>Instances\<close>

text \<open>A reference hash table: the list of its entries. Rehashing moves nothing, and the search stops at
  the first entry that satisfies the predicate.\<close>

definition list_table_ops :: "(u64 \<times> row_slot) list ht_ops" where
  "list_table_ops =
     \<lparr>ht_new = [],
      ht_find = (\<lambda>h p t. map_option snd (List.find (\<lambda>(h', s). p s) t)),
      ht_replace = (\<lambda>h p s' t. case List.find (\<lambda>(h', s). p s) t of
                      None \<Rightarrow> t | Some (h', s) \<Rightarrow> (h', s') # remove1 (h', s) t),
      ht_insert_unique = (\<lambda>h s hasher t. (h, s) # t),
      ht_remove = (\<lambda>h p t. case List.find (\<lambda>(h', s). p s) t of None \<Rightarrow> t | Some e \<Rightarrow> remove1 e t),
      ht_iter = map snd\<rparr>"

interpretation list_table: hash_table list_table_ops "\<lambda>t. t"
proof (unfold_locales, goal_cases)
  case (3 h p t s)
  then show ?case by (fastforce simp: list_table_ops_def find_Some_iff in_set_conv_nth)
next
  case (4 h p t s)
  then show ?case by (fastforce simp: list_table_ops_def find_None_iff)
next
  case (6 h p t s s')
  then obtain h' where e: "List.find (\<lambda>(h', s). p s) t = Some (h', s)" by (auto simp: list_table_ops_def)
  then have "(h', s) \<in> set t" by (metis find_Some_iff nth_mem)
  with e show ?case by (auto simp: list_table_ops_def)
next
  case (7 h p t s)
  then obtain h' where e: "List.find (\<lambda>(h', s). p s) t = Some (h', s)" by (auto simp: list_table_ops_def)
  then have "(h', s) \<in> set t" by (metis find_Some_iff nth_mem)
  with e show ?case by (auto simp: list_table_ops_def)
qed (simp_all add: list_table_ops_def)

lemma heap_tables:
  "te_arena E = heap_ops \<Longrightarrow> hash_table (te_index E) items \<Longrightarrow> row_tables E heap_ok heap_room items"
  using heap.arena_axioms by (simp add: row_tables_def)

definition demo_env :: "(heap_arena, (u64 \<times> row_slot) list) table_env" where
  "demo_env = \<lparr>te_arena = heap_ops, te_index = list_table_ops, te_hash = (\<lambda>i. of_nat (length i))\<rparr>"

interpretation heap_table: row_tables demo_env heap_ok heap_room "\<lambda>t. t"
  by (rule heap_tables) (simp_all add: demo_env_def list_table.hash_table_axioms)

lemma fresh_rel:
  assumes "te_arena E = heap_ops" "hash_table (te_index E) items"
  shows "table_rel E heap_ok items stack (with_arena E epoch heap_new) Map.empty"
  using hash_table.new_items [OF assms(2)]
  by (simp add: table_rel_def with_arena_def from_parts_def slots_rel_def heap_ok_def heap_new_def)

text \<open>
  C9. A row table is the map its writes and deletes describe, whatever hashes the ids have: after any
  sequence of them a lookup reads the last row written under the id (and nothing for an id deleted
  or never written), the stored digest and version are that row's, and the table lists every id it
  holds once.
\<close>

theorem row_table_is_map:
  assumes E: "te_arena E = heap_ops" "hash_table (te_index E) items"
    and fits: "run_fits E heap_room stack ops (with_arena E epoch heap_new)"
    and t: "t = run_table E ops (with_arena E epoch heap_new)" and m: "m = run_map ops Map.empty"
  shows "reads stack (tb_dict t) (tb_get E t i) (case m i of None \<Rightarrow> RMissing | Some (v, _) \<Rightarrow> from_value v)
    \<and> tb_digest_of E t i = map_option snd (m i)
    \<and> tb_rv_of E t i = Option.bind (m i) (\<lambda>(v, _). if record_rv v = rv_absent then None else Some (record_rv v))
    \<and> (contains_key E t i \<longleftrightarrow> i \<in> dom m)
    \<and> distinct (tb_keys E t) \<and> set (tb_keys E t) = dom m \<and> tb_len E t = card (dom m)"
proof -
  note table = heap_tables [OF E]
  have rel: "table_rel E heap_ok items stack t m"
    unfolding t m using row_tables.run_rel [OF table fresh_rel [OF E] fits] by blast
  have "tb_len E t = card (dom m)"
    using row_tables.keys_rel [OF table rel] by (metis distinct_card)
  then show ?thesis
    using row_tables.reads_rel [OF table rel] row_tables.keys_rel [OF table rel] by blast
qed

text \<open>
  C8. An incremental checkpoint is exact. Let the files hold the table as of the moment the mark was
  taken, and let every delete since be logged. Once the mark is the watermark, the records past it
  are rows the table holds, the pending tombstones are ids it does not hold, and every other id is
  as in the files: the files with the delta applied are the table, also when writes happened between
  taking the mark and setting it.
\<close>

theorem incremental_checkpoint_exact:
  assumes E: "te_arena E = heap_ops" "hash_table (te_index E) items"
    and t0: "t0 = run_table E ops0 (with_arena E epoch heap_new)"
    and t1: "t1 = run_table E ops1 t0" and t2: "mark_persisted (take_mark E t0) t1 = (marked, t2)"
    and t3: "t3 = run_table E ops2 t2"
    and fits: "run_fits E heap_room stack ops0 (with_arena E epoch heap_new)" "run_fits E heap_room stack ops1 t0"
      "run_fits E heap_room stack ops2 t2"
    and logged: "run_logged E ops1 t0" "run_logged E ops2 t2"
    and files: "files = run_map ops0 Map.empty" and m: "m = run_map ops2 (run_map ops1 files)"
  shows "marked
    \<and> (\<forall>head body. (head, body) \<in> set (records_since_persisted E t3) \<longrightarrow>
         (\<exists>i v digest. head_id head = Some i \<and> head_digest head = Some digest \<and> m i = Some (v, digest)
            \<and> held stack (tb_dict t3) v body))
    \<and> set (tombstones_pending E t3) \<inter> dom m = {}
    \<and> (\<forall>i. (\<forall>head body. (head, body) \<in> set (records_since_persisted E t3) \<longrightarrow> head_id head \<noteq> Some i) \<longrightarrow>
         m i = (if i \<in> set (tombstones_pending E t3) then None else files i))"
proof -
  note table = heap_tables [OF E]
  note run = row_tables.run_rel [OF table]
  define c where "c = ar_end_cursor (te_arena E) (tb_arena t0)"
  have rel0: "table_rel E heap_ok items stack t0 files"
    unfolding t0 files using run [OF fresh_rel [OF E] fits(1)] by blast
  have rel1: "table_rel E heap_ok items stack t1 (run_map ops1 files)" and ep: "tb_epoch t1 = tb_epoch t0"
    unfolding t1 using run [OF rel0 fits(2)] by blast+
  have cov1: "covers E c (length (tb_tombstones t0)) t1 (run_map ops1 files) files"
    unfolding t1 c_def using row_tables.covers_run [OF table rel0 fits(2) logged(1) row_tables.covers_start [OF table rel0]] .
  have marked: "marked" and t2': "t2 = t1\<lparr>tb_persisted := Some c,
      tb_tombstones := drop (min (length (tb_tombstones t0)) (length (tb_tombstones t1))) (tb_tombstones t1)\<rparr>"
    using t2 ep by (auto simp: mark_persisted_def take_mark_def c_def)
  have rel2: "table_rel E heap_ok items stack t2 (run_map ops1 files)" using rel1 by (simp add: t2')
  have cov2: "covers E c 0 t2 (run_map ops1 files) files"
    unfolding t2' by (rule row_tables.covers_mark [OF table cov1])
  have rel3: "table_rel E heap_ok items stack t3 m" unfolding t3 m using run [OF rel2 fits(3)] by blast
  have cov3: "covers E c 0 t3 m files"
    unfolding t3 m by (rule row_tables.covers_run [OF table rel2 fits(3) logged(2) cov2])
  have per: "tb_persisted t3 = Some c" unfolding t3 using row_tables.run_persisted [OF table rel2 fits(3) logged(2)] by (simp add: t2')
  from marked row_tables.delta_spec [OF table rel3 cov3 per] show ?thesis by blast
qed

subsection \<open>Witnesses\<close>

definition demo_table :: "(heap_arena, (u64 \<times> row_slot) list) flat_table" where
  "demo_table = run_table demo_env [Put ''a'' demo_value (replicate 32 0)] (with_arena demo_env 1 heap_new)"

lemma demo_env_lawful: "te_arena demo_env = heap_ops" "hash_table (te_index demo_env) (\<lambda>t. t)"
  by (simp_all add: demo_env_def list_table.hash_table_axioms)

lemma demo_put_fits:
  "run_fits demo_env heap_room 3 [Put ''a'' demo_value (replicate 32 0)] (with_arena demo_env 1 heap_new)"
proof -
  have "storable 3 demo_value" "utf8_ok (str_as_bytes ''a'')" by code_simp+
  moreover have "heap_room demo_record heap_new"
    by (simp add: heap_room_def heap_writable_def heap_new_def demo_encoded(2))
  ultimately show ?thesis
    using demo_encoded(1) by (simp add: op_fits_def with_arena_def from_parts_def demo_dict_def)
qed

lemma row_table_is_map_witness:
  "contains_key demo_env demo_table ''a'' \<and> tb_rv_of demo_env demo_table ''a'' = Some 3
   \<and> tb_len demo_env demo_table = 1"
proof -
  have rv: "record_rv demo_value = 3" by code_simp
  show ?thesis
    using row_table_is_map [OF demo_env_lawful demo_put_fits demo_table_def refl, of "''a''"] rv
    by (simp add: map_op_def rv_absent_def)
qed

definition demo_marked :: "(heap_arena, (u64 \<times> row_slot) list) flat_table" where
  "demo_marked = snd (mark_persisted (take_mark demo_env demo_table) demo_table)"

definition demo_deleted :: "(heap_arena, (u64 \<times> row_slot) list) flat_table" where
  "demo_deleted = run_table demo_env [Del ''a''] demo_marked"

lemma incremental_checkpoint_exact_witness:
  "''a'' \<in> set (tombstones_pending demo_env demo_deleted)
   \<and> records_since_persisted demo_env demo_deleted = []"
proof -
  have mark: "mark_persisted (take_mark demo_env demo_table) (run_table demo_env [] demo_table) = (True, demo_marked)"
    by (simp add: demo_marked_def mark_persisted_def take_mark_def)
  have "tb_tombstones demo_table = []"
    unfolding demo_table_def using heap_table.run_unpersisted [OF fresh_rel [OF demo_env_lawful] demo_put_fits]
    by (simp add: with_arena_def from_parts_def)
  then have log: "run_logged demo_env [Del ''a''] demo_marked"
    by (simp add: op_logged_def max_tombstones_def demo_marked_def mark_persisted_def take_mark_def)
  have files: "run_map [Put ''a'' demo_value (replicate 32 0)] Map.empty = [''a'' \<mapsto> (demo_value, replicate 32 0)]"
    by (simp add: map_op_def)
  have fits: "run_fits demo_env heap_room 3 [] demo_table" "run_fits demo_env heap_room 3 [Del ''a''] demo_marked"
    "run_logged demo_env [] demo_table" by (simp_all add: op_fits_def)
  note exact = incremental_checkpoint_exact [OF demo_env_lawful demo_table_def refl mark demo_deleted_def demo_put_fits fits(1,2,3) log
      files [symmetric] refl]
  have m: "run_map [Del ''a''] (run_map [] [''a'' \<mapsto> (demo_value, replicate 32 0)]) = Map.empty"
    by (simp add: map_op_def)
  from exact have "(head, body) \<notin> set (records_since_persisted demo_env demo_deleted)" for head body
    unfolding m by auto
  then have recs: "records_since_persisted demo_env demo_deleted = []"
    by (metis list.set_intros(1) neq_Nil_conv surj_pair)
  with exact have "None = (if ''a'' \<in> set (tombstones_pending demo_env demo_deleted) then None else [''a'' \<mapsto> (demo_value, replicate 32 0 :: bytes)] ''a'')"
    unfolding m by auto
  with recs show ?thesis by (simp split: if_splits)
qed

text \<open>
  C25. The first checkpoint of a table can lose a delete. While nothing of a table is on disk its
  deletes are not logged; a row deleted after the mark of a full image was taken and before that
  image is declared persisted is in the image, leaves no tombstone and no record, and so the next
  incremental checkpoint does not say that it is gone.
\<close>

theorem first_checkpoint_loses_delete:
  assumes E: "te_arena E = heap_ops" "hash_table (te_index E) items"
    and fits: "run_fits E heap_room stack ops (with_arena E epoch heap_new)"
    and t: "t = run_table E ops (with_arena E epoch heap_new)" and held: "contains_key E t i"
    and t2: "t2 = snd (mark_persisted (take_mark E t) (snd (tb_remove E i t)))"
  shows "\<not> contains_key E t2 i \<and> records_since_persisted E t2 = [] \<and> tombstones_pending E t2 = []"
proof -
  note table = heap_tables [OF E]
  have rel: "table_rel E heap_ok items stack t (run_map ops Map.empty)"
    unfolding t using row_tables.run_rel [OF table fresh_rel [OF E] fits] by blast
  have un: "tb_persisted t = None" "tb_tombstones t = []"
    unfolding t using row_tables.run_unpersisted [OF table fresh_rel [OF E] fits] by (simp_all add: with_arena_def from_parts_def)
  obtain found t1 where rem: "remove_slot E i t = (found, t1)" by fastforce
  note gone = row_tables.remove_slot_rel [OF table rel rem]
  have t2': "t2 = t1\<lparr>tb_persisted := Some (ar_end_cursor (te_arena E) (tb_arena t1)), tb_tombstones := []\<rparr>"
    using gone(3,4,5,7) un by (simp add: t2 tb_remove_eq [OF rem] mark_persisted_def take_mark_def)
  have rel2: "table_rel E heap_ok items stack t2 ((run_map ops Map.empty)(i := None))" using gone(1) by (simp add: t2')
  have "tb_persisted t2 = Some (ar_end_cursor (te_arena E) (tb_arena t2))" by (simp add: t2')
  from row_tables.no_new_records [OF table rel2 this] row_tables.reads_rel(4) [OF table rel2]
  show ?thesis by (simp add: tombstones_pending_def t2')
qed

lemma first_checkpoint_loses_delete_witness:
  "contains_key demo_env demo_table ''a''
   \<and> tombstones_pending demo_env (snd (mark_persisted (take_mark demo_env demo_table) (snd (tb_remove demo_env ''a'' demo_table)))) = []"
proof -
  have "contains_key demo_env demo_table ''a''"
    unfolding demo_table_def
    using heap_table.reads_rel(4) [OF conjunct1 [OF heap_table.run_rel [OF fresh_rel [OF demo_env_lawful] demo_put_fits]]]
    by (simp add: map_op_def)
  with first_checkpoint_loses_delete [OF demo_env_lawful demo_put_fits demo_table_def this refl] show ?thesis by simp
qed

end
