(* ===== verification/Images.thy ===== *)
theory Images
  imports Table_Checkpoints Snapshot_Hash
begin

section \<open>Checkpoint images\<close>

text \<open>
  Model of \<^verbatim>\<open>packages/ssp/src/circuit/checkpoint.rs\<close> and of the loaders of
  \<^verbatim>\<open>circuit/row_table.rs\<close> (\<^verbatim>\<open>index_heads\<close>, \<^verbatim>\<open>absorb\<close>): the byte layout of a table's
  image and of its deltas, the writer, the parser with its bounds checks and checksums, chains of
  deltas on a base, the converter of the previous format and whole-store containers, on the heap
  arena.

  A file is its bytes; what reading a path yields is an argument. The hash is blake3, a field of the
  parameter \<open>codec\<close>. Error messages are constructors. Sums of the lengths of buffers held in
  memory are naturals; every number that is written is cut to its width, and every number that is
  read is checked as the code checks it (\<^verbatim>\<open>checked_add\<close> on a 64-bit target). Slices whose range
  the preceding checks guarantee are \<open>take\<close> and \<open>drop\<close>. Timing and size statistics are left out.
\<close>

subsection \<open>Errors\<close>

datatype block_error =
    BlockTruncated | BadRecord nat | DuplicateId nat | TrailingBytes | TooManyRows | TooLarge
  | BadBody nat | IsTombstone nat

datatype checkpoint_error =
    IoError
  | TooShort | NotACheckpoint | WrongFormat u32 | LengthOverflow | TruncatedHeader | ChunkOf u32
  | NotUtf8 string | HeadsOverflow | BodiesOverflow | LengthsMismatch | WrongRecordFormat u32
  | HeadsChecksum | DeltaNotBase | RepeatedName | BadBlock block_error | HashMismatch | BodiesChecksum
  | OtherTable | OtherBase | WrongSeq u32 u32 | NotChained | DictNotExtended | LegacyDeltas
  | NoReadableId nat | NoRowValue nat | StoredTwice nat | TooManyFramed | BytesAfterRows
  | NotAStore | WrongStoreFormat u32 | TableTwice | BytesAfterTables

datatype write_error = WriteChunkTooLarge | ImageTooLarge | SeqStartsAtOne | NothingToExtend

text \<open>The \<^verbatim>\<open>?\<close> operator.\<close>

definition try_res :: "'e + 'a \<Rightarrow> ('a \<Rightarrow> 'e + 'b) \<Rightarrow> 'e + 'b" where
  "try_res x f = (case x of Inl e \<Rightarrow> Inl e | Inr a \<Rightarrow> f a)"

definition ok_or :: "'e \<Rightarrow> 'a option \<Rightarrow> 'e + 'a" where
  "ok_or e x = (case x of None \<Rightarrow> Inl e | Some a \<Rightarrow> Inr a)"

definition map_err :: "('e \<Rightarrow> 'f) \<Rightarrow> 'e + 'a \<Rightarrow> 'f + 'a" where
  "map_err f x = (case x of Inl e \<Rightarrow> Inl (f e) | Inr a \<Rightarrow> Inr a)"

subsection \<open>Constants\<close>

definition image_magic :: bytes where "image_magic = str_as_bytes ''SPKYROWS''"
definition image_format :: u32 where "image_format = 2"
definition record_format :: u32 where "record_format = 2"
definition max_chunk :: nat where "max_chunk = 268435456"
definition trailer_len :: nat where "trailer_len = 64"
definition fixed_prefix_len :: nat where "fixed_prefix_len = 28"
definition min_image_len :: nat where "min_image_len = 188"

subsection \<open>Bounds-checked reads\<close>

definition c_bytes :: "nat \<Rightarrow> bytes \<Rightarrow> nat \<Rightarrow> checkpoint_error + bytes \<times> nat" where
  "c_bytes n bs at =
     (if 2 ^ 64 \<le> at + n then Inl LengthOverflow
      else case slice at (at + n) bs of None \<Rightarrow> Inl TruncatedHeader | Some out \<Rightarrow> Inr (out, at + n))"

definition c_u32 :: "bytes \<Rightarrow> nat \<Rightarrow> checkpoint_error + u32 \<times> nat" where
  "c_u32 bs at = try_res (c_bytes 4 bs at) (\<lambda>(out, at'). Inr (of_nat (le_nat out), at'))"

definition c_u64 :: "bytes \<Rightarrow> nat \<Rightarrow> checkpoint_error + u64 \<times> nat" where
  "c_u64 bs at = try_res (c_bytes 8 bs at) (\<lambda>(out, at'). Inr (of_nat (le_nat out), at'))"

definition c_hash :: "bytes \<Rightarrow> nat \<Rightarrow> checkpoint_error + digest \<times> nat" where
  "c_hash bs at = c_bytes 32 bs at"

definition c_chunk :: "bytes \<Rightarrow> nat \<Rightarrow> checkpoint_error + bytes \<times> nat" where
  "c_chunk bs at =
     try_res (c_u32 bs at) (\<lambda>(len, at1).
       if max_chunk < unat len then Inl (ChunkOf len) else c_bytes (unat len) bs at1)"

definition c_str_chunk :: "string \<Rightarrow> bytes \<Rightarrow> nat \<Rightarrow> checkpoint_error + string \<times> nat" where
  "c_str_chunk what bs at =
     try_res (c_chunk bs at) (\<lambda>(raw, at1).
     try_res (ok_or (NotUtf8 what) (from_utf8 raw)) (\<lambda>s. Inr (s, at1)))"

fun c_names :: "nat \<Rightarrow> bytes \<Rightarrow> nat \<Rightarrow> checkpoint_error + string list \<times> nat" where
  "c_names 0 bs at = Inr ([], at)"
| "c_names (Suc n) bs at =
     try_res (c_str_chunk ''field name'' bs at) (\<lambda>(name, at1).
     try_res (c_names n bs at1) (\<lambda>(names, at2). Inr (name # names, at2)))"

subsection \<open>Headers\<close>

record image_identity =
  ii_format :: u32
  ii_record_format :: u32
  ii_image_id :: u64
  ii_seq :: u32

record image =
  im_name :: string
  im_record_format :: u32
  im_image_id :: u64
  im_seq :: u32
  im_stored_xor :: digest
  im_prev_xor :: digest
  im_field_names :: "string list"
  im_rows :: u64
  im_heads :: "nat \<times> nat"
  im_bodies :: "nat \<times> nat"
  im_bodies_hash :: digest

definition parse_identity :: "bytes \<Rightarrow> checkpoint_error + image_identity" where
  "parse_identity bs =
     (if length bs < fixed_prefix_len then Inl TooShort
      else if take 8 bs \<noteq> image_magic then Inl NotACheckpoint
      else
        try_res (c_u32 bs 8) (\<lambda>(f, a1).
        try_res (c_u32 bs a1) (\<lambda>(r, a2).
        try_res (c_u64 bs a2) (\<lambda>(i, a3).
        try_res (c_u32 bs a3) (\<lambda>(s, a4).
          Inr \<lparr>ii_format = f, ii_record_format = r, ii_image_id = i, ii_seq = s\<rparr>)))))"

definition parse_header :: "bytes \<Rightarrow> checkpoint_error + image" where
  "parse_header bs =
     (if length bs < min_image_len then Inl TooShort
      else
        try_res (parse_identity bs) (\<lambda>identity.
        if ii_format identity \<noteq> image_format then Inl (WrongFormat (ii_format identity))
        else
        try_res (c_str_chunk ''table name'' bs fixed_prefix_len) (\<lambda>(name, a1).
        try_res (c_hash bs a1) (\<lambda>(stored, a2).
        try_res (c_hash bs a2) (\<lambda>(prev, a3).
        try_res (c_u32 bs a3) (\<lambda>(fields, a4).
        try_res (c_names (unat fields) bs a4) (\<lambda>(names, a5).
        try_res (c_u64 bs a5) (\<lambda>(rows, a6).
        try_res (c_u64 bs a6) (\<lambda>(heads_len, a7).
        try_res (c_u64 bs a7) (\<lambda>(bodies_len, heads_start).
          let heads_end = heads_start + unat heads_len; bodies_end = heads_end + unat bodies_len
          in if 2 ^ 64 \<le> heads_end then Inl HeadsOverflow
             else if 2 ^ 64 \<le> bodies_end then Inl BodiesOverflow
             else if 2 ^ 64 \<le> bodies_end + trailer_len \<or> bodies_end + trailer_len \<noteq> length bs
             then Inl LengthsMismatch
             else Inr
               \<lparr>im_name = name, im_record_format = ii_record_format identity,
                im_image_id = ii_image_id identity, im_seq = ii_seq identity, im_stored_xor = stored,
                im_prev_xor = prev, im_field_names = names, im_rows = rows,
                im_heads = (heads_start, heads_end), im_bodies = (heads_end, bodies_end),
                im_bodies_hash = drop (bodies_end + 32) bs\<rparr>))))))))))"

definition b3 :: "codec \<Rightarrow> bytes \<Rightarrow> digest" where
  "b3 e bs = blake3 e (bytes_as_str bs)"

definition heads_verified :: "codec \<Rightarrow> bytes \<Rightarrow> image \<Rightarrow> bool" where
  "heads_verified e bs im \<longleftrightarrow>
     b3 e (take (snd (im_heads im)) bs) = take 32 (drop (snd (im_bodies im)) bs)"

definition check_heads :: "codec \<Rightarrow> bytes \<Rightarrow> image \<Rightarrow> checkpoint_error + unit" where
  "check_heads e bs im =
     (if im_record_format im \<noteq> record_format then Inl (WrongRecordFormat (im_record_format im))
      else if \<not> heads_verified e bs im then Inl HeadsChecksum else Inr ())"

definition parse_image :: "codec \<Rightarrow> bytes \<Rightarrow> checkpoint_error + image" where
  "parse_image e bs = try_res (parse_header bs) (\<lambda>im. try_res (check_heads e bs im) (\<lambda>_. Inr im))"

definition bodies_verified :: "codec \<Rightarrow> bytes \<Rightarrow> image \<Rightarrow> bool" where
  "bodies_verified e bs im \<longleftrightarrow>
     b3 e (take (snd (im_bodies im) - fst (im_bodies im)) (drop (fst (im_bodies im)) bs)) = im_bodies_hash im"

subsection \<open>The writer\<close>

datatype image_rec = Row bytes bytes | Tombstone string

record image_header =
  ih_name :: string
  ih_image_id :: u64
  ih_seq :: u32
  ih_catchup_xor :: digest
  ih_prev_xor :: digest
  ih_field_names :: "string list"

record written =
  wr_rows :: nat
  wr_tombstones :: nat
  wr_bytes :: nat
  wr_heads_bytes :: nat
  wr_bodies_bytes :: nat
  wr_image_id :: u64
  wr_seq :: u32
  wr_mark :: checkpoint_mark

definition default_mark :: checkpoint_mark where
  "default_mark = \<lparr>cm_epoch = 0, cm_cursor = \<lparr>cu_seg = 0, cu_off = 0\<rparr>, cm_tombstones = 0\<rparr>"

definition write_chunk :: "bytes \<Rightarrow> write_error + bytes" where
  "write_chunk bs =
     (if max_chunk < length bs then Inl WriteChunkTooLarge else Inr (u32_bytes (of_nat (length bs)) @ bs))"

fun write_names :: "string list \<Rightarrow> write_error + bytes" where
  "write_names [] = Inr []"
| "write_names (name # names) =
     try_res (write_chunk (str_as_bytes name)) (\<lambda>c. try_res (write_names names) (\<lambda>cs. Inr (c @ cs)))"

fun rec_head_len :: "image_rec \<Rightarrow> nat" where
  "rec_head_len (Row head body) = length head"
| "rec_head_len (Tombstone i) = head_len_for i"

fun rec_body :: "image_rec \<Rightarrow> bytes" where
  "rec_body (Row head body) = body"
| "rec_body (Tombstone i) = []"

fun is_tombstone :: "image_rec \<Rightarrow> bool" where
  "is_tombstone (Row head body) = False"
| "is_tombstone (Tombstone i) = True"

fun written_head :: "nat \<Rightarrow> image_rec \<Rightarrow> bytes" where
  "written_head body_rel (Row head body) = relink_head head (of_nat body_rel) []"
| "written_head body_rel (Tombstone i) = fst (encode_head i (replicate 32 0) rv_absent 0 0 [])"

fun write_heads :: "nat \<Rightarrow> nat \<Rightarrow> image_rec list \<Rightarrow> bytes" where
  "write_heads head_at body_at [] = []"
| "write_heads head_at body_at (r # rs) =
     (let buf = written_head (body_at - head_at) r
      in buf @ write_heads (head_at + length buf) (body_at + length (rec_body r)) rs)"

definition write_image :: "codec \<Rightarrow> image_header \<Rightarrow> image_rec list \<Rightarrow> write_error + bytes \<times> written" where
  "write_image e hdr recs =
     (let heads_len = sum_list (map rec_head_len recs); bodies_len = sum_list (map (length \<circ> rec_body) recs)
      in try_res (write_chunk (str_as_bytes (ih_name hdr))) (\<lambda>name.
         try_res (write_names (ih_field_names hdr)) (\<lambda>names.
           let pre = image_magic @ u32_bytes image_format @ u32_bytes record_format @ u64_bytes (ih_image_id hdr)
                     @ u32_bytes (ih_seq hdr) @ name @ ih_catchup_xor hdr @ ih_prev_xor hdr
                     @ u32_bytes (of_nat (length (ih_field_names hdr))) @ names
                     @ u64_bytes (of_nat (length recs)) @ u64_bytes (of_nat heads_len) @ u64_bytes (of_nat bodies_len);
               heads_off = length pre; bodies_off = heads_off + heads_len
           in if 2 ^ 32 \<le> bodies_off + bodies_len then Inl ImageTooLarge
              else let heads = write_heads heads_off bodies_off recs; bodies = concat (map rec_body recs)
                   in Inr (pre @ heads @ bodies @ b3 e (pre @ heads) @ b3 e bodies,
                       \<lparr>wr_rows = length recs, wr_tombstones = length (filter is_tombstone recs),
                        wr_bytes = length (pre @ heads @ bodies) + trailer_len,
                        wr_heads_bytes = heads_len, wr_bodies_bytes = bodies_len,
                        wr_image_id = ih_image_id hdr, wr_seq = ih_seq hdr, wr_mark = default_mark\<rparr>))))"

text \<open>What checkpoints read and write of a collection.\<close>

record ('a, 'h) stored_table =
  st_name :: string
  st_rows :: "('a, 'h) flat_table"
  st_catchup_xor :: digest

definition content_image_id :: "codec \<Rightarrow> ('a, 'h) stored_table \<Rightarrow> u64" where
  "content_image_id e c =
     of_nat (le_nat (take 8 (b3 e (str_as_bytes (''spky-row-image'' @ [CHR 0x00]) @ str_as_bytes (st_name c) @ st_catchup_xor c))))"

definition write_collection :: "codec \<Rightarrow> ('a, 'h) table_env \<Rightarrow> ('a, 'h) stored_table \<Rightarrow> u64
    \<Rightarrow> write_error + bytes \<times> written" where
  "write_collection e E c image_id =
     (let mark = take_mark E (st_rows c);
          hdr = \<lparr>ih_name = st_name c, ih_image_id = image_id, ih_seq = 0, ih_catchup_xor = st_catchup_xor c,
                ih_prev_xor = xor_empty, ih_field_names = fd_names (tb_dict (st_rows c))\<rparr>
      in try_res (write_image e hdr (map (\<lambda>(head, body). Row head body) (tb_records E (st_rows c))))
           (\<lambda>(bs, w). Inr (bs, w\<lparr>wr_mark := mark\<rparr>)))"

definition write_delta :: "codec \<Rightarrow> ('a, 'h) table_env \<Rightarrow> ('a, 'h) stored_table \<Rightarrow> u64 \<Rightarrow> u32 \<Rightarrow> digest
    \<Rightarrow> write_error + bytes \<times> written" where
  "write_delta e E c base seq prev =
     (if seq = 0 then Inl SeqStartsAtOne
      else if tb_persisted (st_rows c) = None then Inl NothingToExtend
      else
        let mark = take_mark E (st_rows c);
            hdr = \<lparr>ih_name = st_name c, ih_image_id = base, ih_seq = seq, ih_catchup_xor = st_catchup_xor c,
                  ih_prev_xor = prev, ih_field_names = fd_names (tb_dict (st_rows c))\<rparr>
        in try_res (write_image e hdr (map (\<lambda>(head, body). Row head body) (records_since_persisted E (st_rows c))
                                        @ map Tombstone (tombstones_pending E (st_rows c))))
             (\<lambda>(bs, w). Inr (bs, w\<lparr>wr_mark := mark\<rparr>)))"

end
