(* ===== verification/Image_Loading.thy ===== *)
theory Image_Loading
  imports Images
begin

section \<open>Loading checkpoint images\<close>

text \<open>
  The loaders of \<^verbatim>\<open>circuit/row_table.rs\<close> and \<^verbatim>\<open>circuit/checkpoint.rs\<close>: the walk over the
  heads of a base image, the absorption of a delta, chains of deltas, the previous format, and store
  containers. A loaded table takes a fresh epoch, an argument.
\<close>

subsection \<open>Walking the heads\<close>

record 'h indexed_heads =
  ix_index :: 'h
  ix_xor :: digest
  ix_live :: u64

datatype absorb_into = Segment "16 word" | CopyRecords

record absorbed =
  ab_xor :: digest
  ab_upserts :: nat
  ab_tombstones :: nat
  ab_tombstones_absent :: nat

definition id_in :: "bytes \<Rightarrow> row_slot \<Rightarrow> string option" where
  "id_in block slot =
     Option.bind (slice (unat (sp_off slot)) (unat (sp_off slot) + unat (sp_len slot)) block) head_id"

definition check_regions :: "bytes \<Rightarrow> nat \<times> nat \<Rightarrow> nat \<times> nat \<Rightarrow> u64 \<Rightarrow> block_error + unit" where
  "check_regions block heads bodies rows =
     (if snd heads < fst heads \<or> fst bodies < snd heads \<or> snd bodies < fst bodies \<or> length block < snd bodies
      then Inl BlockTruncated
      else if 2 ^ 32 \<le> snd bodies then Inl TooLarge
      else if (snd heads - fst heads) div head_min_len < unat rows then Inl TooManyRows
      else Inr ())"

definition walk_head :: "bytes \<Rightarrow> nat \<Rightarrow> nat \<Rightarrow> nat \<Rightarrow> block_error + nat \<times> bytes \<times> string \<times> digest \<times> u32 \<times> u32" where
  "walk_head block heads_end n at =
     try_res (ok_or BlockTruncated (head_len (take (heads_end - at) (drop at block)))) (\<lambda>hl.
       let head = take hl (drop at block)
       in try_res (ok_or (BadRecord n) (head_id head)) (\<lambda>i.
          try_res (ok_or (BadRecord n) (head_digest head)) (\<lambda>digest.
          try_res (ok_or (BadRecord n) (head_body_rel head)) (\<lambda>rel.
          try_res (ok_or (BadRecord n) (head_body_len head)) (\<lambda>len.
            Inr (hl, head, i, digest, rel, len))))))"

fun index_loop :: "('a, 'h) table_env \<Rightarrow> bytes \<Rightarrow> nat \<Rightarrow> nat \<Rightarrow> 16 word \<Rightarrow> nat \<Rightarrow> nat \<Rightarrow> nat \<Rightarrow> nat
    \<Rightarrow> 'h indexed_heads \<Rightarrow> block_error + 'h indexed_heads" where
  "index_loop E block heads_end bodies_end seg 0 n at next_body ix =
     (if at \<noteq> heads_end \<or> next_body \<noteq> bodies_end then Inl TrailingBytes else Inr ix)"
| "index_loop E block heads_end bodies_end seg (Suc k) n at next_body ix =
     try_res (walk_head block heads_end n at) (\<lambda>(hl, head, i, digest, rel, len).
       if len = 0 then Inl (IsTombstone n)
       else if unat rel < hl \<or> at + unat rel \<noteq> next_body \<or> bodies_end < next_body + unat len then Inl (BadBody n)
       else
         let slot = \<lparr>sp_seg = seg, sp_off = of_nat at, sp_len = of_nat hl\<rparr>; ops = te_index E
         in case ht_find ops (te_hash E i) (\<lambda>s. id_in block s = Some i) (ix_index ix) of
              Some _ \<Rightarrow> Inl (DuplicateId n)
            | None \<Rightarrow>
                index_loop E block heads_end bodies_end seg k (n + 1) (at + hl) (next_body + unat len)
                  \<lparr>ix_index = ht_insert_unique ops (te_hash E i) slot
                      (\<lambda>s. case id_in block s of None \<Rightarrow> 0 | Some j \<Rightarrow> te_hash E j) (ix_index ix),
                   ix_xor = xor_digest (ix_xor ix) digest, ix_live = ix_live ix + of_nat (hl + unat len)\<rparr>)"

definition index_heads :: "('a, 'h) table_env \<Rightarrow> bytes \<Rightarrow> nat \<times> nat \<Rightarrow> nat \<times> nat \<Rightarrow> u64 \<Rightarrow> 16 word
    \<Rightarrow> block_error + 'h indexed_heads" where
  "index_heads E block heads bodies rows seg =
     try_res (check_regions block heads bodies rows) (\<lambda>_.
       index_loop E block (snd heads) (snd bodies) seg (unat rows) 0 (fst heads) (fst bodies)
         \<lparr>ix_index = ht_new (te_index E), ix_xor = xor_empty, ix_live = 0\<rparr>)"

definition replaced_xor :: "('a, 'h) table_env \<Rightarrow> ('a, 'h) flat_table \<Rightarrow> string \<Rightarrow> digest \<Rightarrow> digest" where
  "replaced_xor E t i x = (case tb_digest_of E t i of Some old \<Rightarrow> xor_digest x old | None \<Rightarrow> x)"

definition absorb_slot :: "('a, 'h) table_env \<Rightarrow> bytes \<Rightarrow> absorb_into \<Rightarrow> nat \<Rightarrow> nat \<Rightarrow> bytes \<Rightarrow> u32
    \<Rightarrow> ('a, 'h) flat_table \<Rightarrow> row_slot \<times> ('a, 'h) flat_table" where
  "absorb_slot E img into at next_body head len t =
     (let hl = length head in case into of
        Segment seg \<Rightarrow>
          (\<lparr>sp_seg = seg, sp_off = of_nat at, sp_len = of_nat hl\<rparr>,
           t\<lparr>tb_arena := ar_adopt (te_arena E) (of_nat (hl + unat len)) (tb_arena t)\<rparr>)
      | CopyRecords \<Rightarrow>
          append_record E (relink_head head (of_nat hl) [] @ take (unat len) (drop next_body img)) hl t)"

fun absorb_loop :: "('a, 'h) table_env \<Rightarrow> bytes \<Rightarrow> nat \<Rightarrow> nat \<Rightarrow> absorb_into \<Rightarrow> nat \<Rightarrow> nat \<Rightarrow> nat \<Rightarrow> nat
    \<Rightarrow> absorbed \<Rightarrow> ('a, 'h) flat_table \<Rightarrow> (block_error + absorbed) \<times> ('a, 'h) flat_table" where
  "absorb_loop E img heads_end bodies_end into 0 n at next_body out t =
     (if at \<noteq> heads_end \<or> next_body \<noteq> bodies_end then Inl TrailingBytes else Inr out, t)"
| "absorb_loop E img heads_end bodies_end into (Suc k) n at next_body out t =
     (case walk_head img heads_end n at of
        Inl err \<Rightarrow> (Inl err, t)
      | Inr (hl, head, i, digest, rel, len) \<Rightarrow>
          if len = 0 then
            (case tb_digest_of E t i of
               Some old \<Rightarrow>
                 absorb_loop E img heads_end bodies_end into k (n + 1) (at + hl) next_body
                   (out\<lparr>ab_xor := xor_digest (ab_xor out) old, ab_tombstones := ab_tombstones out + 1\<rparr>)
                   (snd (remove_slot E i t))
             | None \<Rightarrow>
                 absorb_loop E img heads_end bodies_end into k (n + 1) (at + hl) next_body
                   (out\<lparr>ab_tombstones_absent := ab_tombstones_absent out + 1\<rparr>) t)
          else if unat rel < hl \<or> at + unat rel \<noteq> next_body \<or> bodies_end < next_body + unat len
          then (Inl (BadBody n), t)
          else
            let x = xor_digest (replaced_xor E t i (ab_xor out)) digest
            in case absorb_slot E img into at next_body head len t of
                 (slot, t1) \<Rightarrow>
                   absorb_loop E img heads_end bodies_end into k (n + 1) (at + hl) (next_body + unat len)
                     (out\<lparr>ab_xor := x, ab_upserts := ab_upserts out + 1\<rparr>) (snd (place E i slot t1)))"

definition absorb :: "('a, 'h) table_env \<Rightarrow> bytes \<Rightarrow> nat \<times> nat \<Rightarrow> nat \<times> nat \<Rightarrow> u64 \<Rightarrow> absorb_into
    \<Rightarrow> ('a, 'h) flat_table \<Rightarrow> (block_error + absorbed) \<times> ('a, 'h) flat_table" where
  "absorb E img heads bodies rows into t =
     (case check_regions img heads bodies rows of
        Inl err \<Rightarrow> (Inl err, t)
      | Inr _ \<Rightarrow>
          absorb_loop E img (snd heads) (snd bodies) into (unat rows) 0 (fst heads) (fst bodies)
            \<lparr>ab_xor = xor_empty, ab_upserts = 0, ab_tombstones = 0, ab_tombstones_absent = 0\<rparr> t)"

subsection \<open>Base images\<close>

record 'h indexed =
  xd_name :: string
  xd_dict :: field_dict
  xd_heads :: "'h indexed_heads"
  xd_image_id :: u64
  xd_stored_xor :: digest

definition index_parsed :: "codec \<Rightarrow> ('a, 'h) table_env \<Rightarrow> bytes \<Rightarrow> image \<Rightarrow> checkpoint_error + 'h indexed" where
  "index_parsed e E bs im =
     try_res (check_heads e bs im) (\<lambda>_.
       if im_seq im \<noteq> 0 then Inl DeltaNotBase
       else
         try_res (ok_or RepeatedName (from_names (im_field_names im))) (\<lambda>d.
         try_res (map_err BadBlock (index_heads E bs (im_heads im) (im_bodies im) (im_rows im) 0)) (\<lambda>ix.
           if ix_xor ix \<noteq> im_stored_xor im then Inl HashMismatch
           else Inr \<lparr>xd_name = im_name im, xd_dict = d, xd_heads = ix, xd_image_id = im_image_id im,
                     xd_stored_xor = im_stored_xor im\<rparr>)))"

text \<open>\<^verbatim>\<open>Collection::from_rows\<close> on the parts of a collection that images know.\<close>

definition assemble :: "u64 \<Rightarrow> 'h indexed \<Rightarrow> 'a \<Rightarrow> ('a, 'h) stored_table" where
  "assemble epoch ix a =
     \<lparr>st_name = xd_name ix, st_rows = from_parts epoch (xd_dict ix) (ix_index (xd_heads ix)) a,
      st_catchup_xor = xd_stored_xor ix\<rparr>"

type_synonym 'h heap_env = "(heap_arena, 'h) table_env"
type_synonym 'h heap_table = "(heap_arena, 'h) flat_table"
type_synonym 'h heap_coll = "(heap_arena, 'h) stored_table"

subsection \<open>The previous format\<close>

definition format_v1 :: u32 where "format_v1 = 1"

fun v1_records :: "'h heap_env \<Rightarrow> bytes \<Rightarrow> nat \<Rightarrow> nat \<Rightarrow> nat \<Rightarrow> digest \<Rightarrow> 'h heap_table
    \<Rightarrow> checkpoint_error + nat \<times> digest \<times> 'h heap_table" where
  "v1_records E body 0 n at x t = Inr (at, x, t)"
| "v1_records E body (Suc k) n at x t =
     try_res (c_chunk body at) (\<lambda>(rec, at1).
     try_res (ok_or (NoReadableId n) (slice 0 32 rec)) (\<lambda>digest.
     try_res (ok_or (NoReadableId n) (slice 32 40 rec)) (\<lambda>rv.
     try_res (ok_or (NoReadableId n) (Option.bind (slice_from 40 rec) read_varint)) (\<lambda>(id_len, prefix).
       let id_start = 40 + prefix; id_end = id_start + unat id_len
       in if 2 ^ 64 \<le> id_end then Inl (NoReadableId n)
          else
            try_res (ok_or (NoReadableId n) (Option.bind (slice id_start id_end rec) from_utf8)) (\<lambda>i.
              let row = drop id_end rec
              in if row = [] then Inl (NoRowValue n)
                 else case tb_insert_raw E i digest (of_nat (le_nat rv)) row t of
                   ((slot, replaced), t1) \<Rightarrow>
                     if replaced then Inl (StoredTwice n)
                     else v1_records E body k (n + 1) at1 (xor_digest x digest) t1)))))"

definition read_v1 :: "codec \<Rightarrow> 'h heap_env \<Rightarrow> u64 \<Rightarrow> bytes \<Rightarrow> checkpoint_error + 'h heap_coll" where
  "read_v1 e E epoch bs =
     (if length bs < 96 then Inl TooShort
      else if take 8 bs \<noteq> image_magic then Inl NotACheckpoint
      else
        let body = take (length bs - 32) bs; trailer = drop (length bs - 32) bs
        in if b3 e body \<noteq> trailer then Inl BodiesChecksum
           else
             try_res (c_u32 body 8) (\<lambda>(f, a1).
             if f \<noteq> format_v1 then Inl (WrongFormat f)
             else try_res (c_u32 body a1) (\<lambda>(r, a2).
             if r \<noteq> 1 then Inl (WrongRecordFormat r)
             else try_res (c_str_chunk ''table name'' body a2) (\<lambda>(name, a3).
             try_res (c_hash body a3) (\<lambda>(stored, a4).
             try_res (c_u32 body a4) (\<lambda>(fields, a5).
             try_res (c_names (unat fields) body a5) (\<lambda>(names, a6).
             try_res (c_u64 body a6) (\<lambda>(rows, a7).
             if (length body - a7) div 46 < unat rows then Inl TooManyFramed
             else case restore_dict E names (with_arena E epoch heap_new) of
               (False, _) \<Rightarrow> Inl RepeatedName
             | (True, t0) \<Rightarrow>
                 try_res (v1_records E body (unat rows) 0 a7 xor_empty t0) (\<lambda>(at, x, t).
                   if at \<noteq> length body then Inl BytesAfterRows
                   else if x \<noteq> stored then Inl HashMismatch
                   else Inr \<lparr>st_name = name, st_rows = t, st_catchup_xor = x\<rparr>)))))))))"

fun v1_frames :: "(bytes \<times> bytes) list \<Rightarrow> write_error + bytes" where
  "v1_frames [] = Inr []"
| "v1_frames ((head, body) # rs) =
     try_res (write_chunk (take head_body_rel_offset head @ drop head_id_offset head @ body)) (\<lambda>c.
     try_res (v1_frames rs) (\<lambda>cs. Inr (c @ cs)))"

definition write_v1 :: "codec \<Rightarrow> ('a, 'h) table_env \<Rightarrow> ('a, 'h) stored_table \<Rightarrow> write_error + bytes" where
  "write_v1 e E c =
     try_res (write_chunk (str_as_bytes (st_name c))) (\<lambda>name.
     try_res (write_names (fd_names (tb_dict (st_rows c)))) (\<lambda>names.
     try_res (v1_frames (tb_records E (st_rows c))) (\<lambda>frames.
       let body = image_magic @ u32_bytes format_v1 @ u32_bytes 1 @ name @ st_catchup_xor c
                  @ u32_bytes (of_nat (length (fd_names (tb_dict (st_rows c))))) @ names
                  @ u64_bytes (of_nat (length (tb_records E (st_rows c)))) @ frames
       in Inr (body @ b3 e body))))"

subsection \<open>Whole tables\<close>

definition read_image :: "codec \<Rightarrow> 'h heap_env \<Rightarrow> u64 \<Rightarrow> bytes \<Rightarrow> checkpoint_error + 'h heap_coll \<times> u64" where
  "read_image e E epoch bs =
     try_res (parse_identity bs) (\<lambda>identity.
       if ii_format identity = format_v1 then try_res (read_v1 e E epoch bs) (\<lambda>c. Inr (c, 0))
       else
         try_res (parse_header bs) (\<lambda>im.
         try_res (index_parsed e E bs im) (\<lambda>ix.
           if \<not> bodies_verified e bs im then Inl BodiesChecksum
           else Inr (assemble epoch ix (heap_from_buf bs (ix_live (xd_heads ix))), xd_image_id ix))))"

record chain =
  ch_name :: string
  ch_image_id :: u64
  ch_seq :: u32
  ch_xor :: digest
  ch_field_names :: "string list"

definition chain_from_base :: "image \<Rightarrow> chain" where
  "chain_from_base im =
     \<lparr>ch_name = im_name im, ch_image_id = im_image_id im, ch_seq = 0, ch_xor = im_stored_xor im,
      ch_field_names = im_field_names im\<rparr>"

definition chain_check :: "codec \<Rightarrow> chain \<Rightarrow> bytes \<Rightarrow> checkpoint_error + image" where
  "chain_check e ch bs =
     try_res (parse_identity bs) (\<lambda>identity.
       if ii_format identity \<noteq> image_format then Inl (WrongFormat (ii_format identity))
       else
         try_res (parse_image e bs) (\<lambda>im.
           if im_name im \<noteq> ch_name ch then Inl OtherTable
           else if im_image_id im \<noteq> ch_image_id ch then Inl OtherBase
           else if im_seq im \<noteq> ch_seq ch + 1 then Inl (WrongSeq (im_seq im) (ch_seq ch + 1))
           else if im_prev_xor im \<noteq> ch_xor ch then Inl NotChained
           else if \<not> (length (ch_field_names ch) \<le> length (im_field_names im)
                      \<and> list_all (\<lambda>(a, b). a = b) (zip (im_field_names im) (ch_field_names ch)))
           then Inl DictNotExtended
           else Inr im))"

definition chain_advance :: "image \<Rightarrow> chain \<Rightarrow> chain" where
  "chain_advance im ch =
     ch\<lparr>ch_seq := im_seq im, ch_xor := im_stored_xor im, ch_field_names := im_field_names im\<rparr>"

definition absorb_delta :: "('a, 'h) table_env \<Rightarrow> bytes \<Rightarrow> image \<Rightarrow> absorb_into
    \<Rightarrow> ('a, 'h) flat_table \<times> digest \<Rightarrow> (checkpoint_error + unit) \<times> ('a, 'h) flat_table \<times> digest" where
  "absorb_delta E bs im into st =
     (case st of (t, x) \<Rightarrow>
        case extend_dict (drop (length (fd_names (tb_dict t))) (im_field_names im)) t of
          (False, t1) \<Rightarrow> (Inl RepeatedName, t1, x)
        | (True, t1) \<Rightarrow>
            case absorb E bs (im_heads im) (im_bodies im) (im_rows im) into t1 of
              (Inl err, t2) \<Rightarrow> (Inl (BadBlock err), t2, x)
            | (Inr ab, t2) \<Rightarrow>
                let x' = xor_digest x (ab_xor ab)
                in (if x' \<noteq> im_stored_xor im then Inl HashMismatch else Inr (), t2, x'))"

text \<open>One delta of a chain on the heap: checked, its bodies verified, absorbed. The table and the hash
  are what the attempt leaves behind, also when it fails.\<close>

definition absorb_file :: "codec \<Rightarrow> ('a, 'h) table_env \<Rightarrow> bytes \<Rightarrow> chain \<Rightarrow> ('a, 'h) flat_table \<times> digest
    \<Rightarrow> (checkpoint_error + chain \<times> u32) \<times> ('a, 'h) flat_table \<times> digest" where
  "absorb_file e E bs ch st =
     (case chain_check e ch bs of
        Inl err \<Rightarrow> (Inl err, st)
      | Inr im \<Rightarrow>
          if \<not> bodies_verified e bs im then (Inl BodiesChecksum, st)
          else case absorb_delta E bs im CopyRecords st of
            (Inl err, st') \<Rightarrow> (Inl err, st')
          | (Inr _, st') \<Rightarrow> (Inr (chain_advance im ch, im_seq im), st'))"

record chain_end =
  ce_image_id :: u64
  ce_seq :: u32
  ce_xor :: digest

fun apply_all :: "codec \<Rightarrow> ('a, 'h) table_env \<Rightarrow> bytes list \<Rightarrow> chain \<Rightarrow> ('a, 'h) flat_table \<times> digest
    \<Rightarrow> checkpoint_error + chain \<times> ('a, 'h) flat_table \<times> digest" where
  "apply_all e E [] ch st = Inr (ch, st)"
| "apply_all e E (delta # deltas) ch st =
     (case absorb_file e E delta ch st of
        (Inl err, _) \<Rightarrow> Inl err
      | (Inr (ch', _), st') \<Rightarrow> apply_all e E deltas ch' st')"

definition read_table_bytes :: "codec \<Rightarrow> 'h heap_env \<Rightarrow> u64 \<Rightarrow> bytes \<Rightarrow> bytes list
    \<Rightarrow> checkpoint_error + 'h heap_coll \<times> chain_end" where
  "read_table_bytes e E epoch base deltas =
     try_res (parse_identity base) (\<lambda>identity.
     if ii_format identity \<noteq> image_format then Inl (WrongFormat (ii_format identity))
     else
       try_res (parse_header base) (\<lambda>im.
       if im_seq im \<noteq> 0 then Inl DeltaNotBase
       else
         try_res (index_parsed e E base im) (\<lambda>ix.
         if \<not> bodies_verified e base im then Inl BodiesChecksum
         else
           let t0 = from_parts epoch (xd_dict ix) (ix_index (xd_heads ix)) (heap_from_buf base (ix_live (xd_heads ix)))
           in try_res (apply_all e E deltas (chain_from_base im) (t0, xd_stored_xor ix)) (\<lambda>(ch, t, x).
                Inr (\<lparr>st_name = xd_name ix, st_rows = set_persisted_at_end E t, st_catchup_xor = x\<rparr>,
                     \<lparr>ce_image_id = xd_image_id ix, ce_seq = ch_seq ch, ce_xor = x\<rparr>)))))"

record 'h table_load =
  tl_collection :: "'h heap_coll"
  tl_image_id :: u64
  tl_deltas :: "(u32 \<times> nat) list"
  tl_refused :: "(nat \<times> checkpoint_error) option"

fun table_loop :: "codec \<Rightarrow> 'h heap_env \<Rightarrow> bytes option list \<Rightarrow> nat \<Rightarrow> chain \<Rightarrow> 'h heap_table \<times> digest \<Rightarrow> (u32 \<times> nat) list
    \<Rightarrow> (nat \<times> checkpoint_error) option \<times> chain \<times> ('h heap_table \<times> digest) \<times> (u32 \<times> nat) list" where
  "table_loop e E [] k ch st applied = (None, ch, st, applied)"
| "table_loop e E (f # fs) k ch st applied =
     (case f of
        None \<Rightarrow> (Some (k, IoError), ch, st, applied)
      | Some delta \<Rightarrow>
          case absorb_file e E delta ch st of
            (Inl err, st') \<Rightarrow> (Some (k, err), ch, st', applied)
          | (Inr (ch', seq), st') \<Rightarrow> table_loop e E fs (k + 1) ch' st' (applied @ [(seq, length delta)]))"

lemma table_loop_refused:
  "table_loop e E fs k ch st applied = (Some (j, err), r) \<Longrightarrow> k \<le> j \<and> j < k + length fs"
proof (induction fs arbitrary: k ch st applied)
  case (Cons f fs)
  show ?case
  proof (cases f)
    case (Some delta)
    obtain res st' where ad: "absorb_file e E delta ch st = (res, st')" by (metis prod.exhaust)
    from Cons Some ad show ?thesis by (cases res) (fastforce split: prod.splits)+
  qed (use Cons in simp)
qed simp

function read_table :: "codec \<Rightarrow> 'h heap_env \<Rightarrow> u64 \<Rightarrow> bytes option \<Rightarrow> bytes option list
    \<Rightarrow> checkpoint_error + 'h table_load" where
  "read_table e E epoch base deltas =
     try_res (ok_or IoError base) (\<lambda>bs.
     try_res (parse_identity bs) (\<lambda>identity.
     if ii_format identity = format_v1 then
       try_res (read_v1 e E epoch bs) (\<lambda>c.
         Inr \<lparr>tl_collection = c, tl_image_id = 0, tl_deltas = [],
              tl_refused = (if deltas = [] then None else Some (0, LegacyDeltas))\<rparr>)
     else
       try_res (parse_header bs) (\<lambda>im.
       try_res (index_parsed e E bs im) (\<lambda>ix.
       if \<not> bodies_verified e bs im then Inl BodiesChecksum
       else
         let t0 = from_parts epoch (xd_dict ix) (ix_index (xd_heads ix)) (heap_from_buf bs (ix_live (xd_heads ix)))
         in case table_loop e E deltas 0 (chain_from_base im) (t0, xd_stored_xor ix) [] of
              (refused, ch, (t, x), applied) \<Rightarrow>
                case refused of
                  Some (k, err) \<Rightarrow>
                    if x \<noteq> ch_xor ch then
                      try_res (read_table e E (epoch + 1) base (take k deltas)) (\<lambda>shorter.
                        Inr (shorter\<lparr>tl_refused := Some (k, err)\<rparr>))
                    else
                      Inr \<lparr>tl_collection = \<lparr>st_name = xd_name ix, st_rows = set_persisted_at_end E t, st_catchup_xor = x\<rparr>,
                           tl_image_id = xd_image_id ix, tl_deltas = applied, tl_refused = Some (k, err)\<rparr>
                | None \<Rightarrow>
                    Inr \<lparr>tl_collection = \<lparr>st_name = xd_name ix, st_rows = set_persisted_at_end E t, st_catchup_xor = x\<rparr>,
                         tl_image_id = xd_image_id ix, tl_deltas = applied, tl_refused = None\<rparr>))))"
  by pat_completeness auto
termination
  by (relation "measure (\<lambda>(e, E, epoch, base, deltas). length deltas)") (auto dest!: sym [of "(_, _)" "table_loop _ _ _ _ _ _ _"] table_loop_refused)

subsection \<open>Store containers\<close>

definition store_magic :: bytes where "store_magic = str_as_bytes ''SPKYSTOR''"
definition store_format :: u32 where "store_format = 1"

fun write_tables :: "codec \<Rightarrow> ('a, 'h) table_env \<Rightarrow> (string, ('a, 'h) stored_table) hmap \<Rightarrow> string list
    \<Rightarrow> write_error + bytes" where
  "write_tables e E store [] = Inr []"
| "write_tables e E store (name # names) =
     (case hm_get store name of
        None \<Rightarrow> write_tables e E store names
      | Some c \<Rightarrow>
          try_res (write_collection e E c (content_image_id e c)) (\<lambda>(img, _).
          try_res (write_tables e E store names) (\<lambda>rest.
            Inr (u64_bytes (of_nat (length img)) @ img @ rest))))"

definition write_store :: "codec \<Rightarrow> ('a, 'h) table_env \<Rightarrow> (string, ('a, 'h) stored_table) hmap \<Rightarrow> write_error + bytes" where
  "write_store e E store =
     try_res (write_tables e E store (sort (map fst store))) (\<lambda>tables.
       Inr (store_magic @ u32_bytes store_format @ u32_bytes (of_nat (length store)) @ tables))"

fun read_tables :: "codec \<Rightarrow> 'h heap_env \<Rightarrow> u64 \<Rightarrow> nat \<Rightarrow> bytes \<Rightarrow> nat \<Rightarrow> (string, 'h heap_coll) hmap
    \<Rightarrow> checkpoint_error + nat \<times> (string, 'h heap_coll) hmap" where
  "read_tables e E epoch 0 bs at store = Inr (at, store)"
| "read_tables e E epoch (Suc n) bs at store =
     try_res (c_u64 bs at) (\<lambda>(len, a1).
     try_res (c_bytes (unat len) bs a1) (\<lambda>(img, a2).
     try_res (read_image e E epoch img) (\<lambda>(c, _).
       if hm_get store (st_name c) \<noteq> None then Inl TableTwice
       else read_tables e E (epoch + 1) n bs a2 (hm_insert (st_name c) c store))))"

definition read_store :: "codec \<Rightarrow> 'h heap_env \<Rightarrow> u64 \<Rightarrow> bytes \<Rightarrow> checkpoint_error + (string, 'h heap_coll) hmap" where
  "read_store e E epoch bs =
     (if length bs < 16 \<or> take 8 bs \<noteq> store_magic then Inl NotAStore
      else
        try_res (c_u32 bs 8) (\<lambda>(f, a1).
        if f \<noteq> store_format then Inl (WrongStoreFormat f)
        else
          try_res (c_u32 bs a1) (\<lambda>(tables, a2).
          try_res (read_tables e E epoch (unat tables) bs a2 []) (\<lambda>(at, store).
            if at \<noteq> length bs then Inl BytesAfterTables else Inr store))))"

end
