(* ===== verification/Image_Layout.thy ===== *)
theory Image_Layout
  imports Image_Loading Store_Invariant
begin

section \<open>The layout of written images\<close>

text \<open>
  Reading at an offset is described by what lies there (\<open>at_offset\<close>); with it every field of the
  header of a written image is read back, the regions are located, the checksums hold, and the walk
  over the heads finds each record's id, digest and body.
\<close>

subsection \<open>Reads at an offset\<close>

definition at_offset :: "bytes \<Rightarrow> nat \<Rightarrow> bytes \<Rightarrow> bool" where
  "at_offset bs at rest \<longleftrightarrow> at \<le> length bs \<and> length bs < 2 ^ 63 \<and> drop at bs = rest"

lemma try_res_simps [simp]: "try_res (Inl e) f = Inl e" "try_res (Inr a) f = f a"
  by (simp_all add: try_res_def)

lemma try_res_InrE:
  assumes "try_res x f = Inr b" obtains a where "x = Inr a" "f a = Inr b"
  using assms by (cases x) (auto simp: try_res_def)

lemma ok_or_simps [simp]: "ok_or e None = Inl e" "ok_or e (Some a) = Inr a"
  by (simp_all add: ok_or_def)

lemma map_err_simps [simp]: "map_err f (Inl e) = Inl (f e)" "map_err f (Inr a) = Inr a"
  by (simp_all add: map_err_def)

lemma at_offset_length: "at_offset bs at (x @ rest) \<Longrightarrow> at + length x \<le> length bs"
proof -
  assume a: "at_offset bs at (x @ rest)"
  then have "length bs - at = length x + length rest" by (metis at_offset_def length_append length_drop)
  moreover from a have "at \<le> length bs" by (simp add: at_offset_def)
  ultimately show ?thesis by linarith
qed

lemma at_offset_skip: "at_offset bs at (x @ rest) \<Longrightarrow> at_offset bs (at + length x) rest"
proof -
  assume a: "at_offset bs at (x @ rest)"
  then have "drop (length x) (drop at bs) = rest" by (simp add: at_offset_def)
  then have "drop (at + length x) bs = rest" by (simp add: add.commute)
  with a at_offset_length [OF a] show ?thesis by (simp add: at_offset_def)
qed

lemma c_bytes_at: "at_offset bs at (x @ rest) \<Longrightarrow> n = length x \<Longrightarrow> c_bytes n bs at = Inr (x, at + n)"
  using at_offset_length [of bs at x rest] by (simp add: c_bytes_def slice_def at_offset_def)

lemma c_u32_at: "at_offset bs at (u32_bytes w @ rest) \<Longrightarrow> c_u32 bs at = Inr (w, at + 4)"
  by (simp add: c_u32_def c_bytes_at)

lemma c_u64_at: "at_offset bs at (u64_bytes w @ rest) \<Longrightarrow> c_u64 bs at = Inr (w, at + 8)"
  by (simp add: c_u64_def c_bytes_at)

lemma c_hash_at: "at_offset bs at (h @ rest) \<Longrightarrow> length h = 32 \<Longrightarrow> c_hash bs at = Inr (h, at + 32)"
  by (simp add: c_hash_def c_bytes_at)

lemma c_chunk_at:
  assumes "at_offset bs at (c @ rest)" "write_chunk x = Inr c"
  shows "c_chunk bs at = Inr (x, at + length c)"
proof -
  from assms(2) have c: "c = u32_bytes (of_nat (length x)) @ x" and n: "length x \<le> max_chunk"
    by (simp_all add: write_chunk_def split: if_splits)
  from n have u: "unat (of_nat (length x) :: u32) = length x" by (simp add: unat_of_nat max_chunk_def)
  from assms(1) c have a: "at_offset bs at (u32_bytes (of_nat (length x)) @ x @ rest)" by simp
  from c_u32_at [OF this] c_bytes_at [OF at_offset_skip [OF this], of "length x"] u n c
  show ?thesis by (simp add: c_chunk_def)
qed

lemma c_str_chunk_at:
  assumes "at_offset bs at (c @ rest)" "write_chunk (str_as_bytes s) = Inr c" "utf8_ok (str_as_bytes s)"
  shows "c_str_chunk what bs at = Inr (s, at + length c)"
  using c_chunk_at [OF assms(1,2)] assms(3) by (simp add: c_str_chunk_def from_utf8_def)

lemma c_names_at:
  "at_offset bs at (cs @ rest) \<Longrightarrow> write_names names = Inr cs \<Longrightarrow> (\<And>s. s \<in> set names \<Longrightarrow> utf8_ok (str_as_bytes s)) \<Longrightarrow>
   c_names (length names) bs at = Inr (names, at + length cs)"
proof (induction names arbitrary: at cs)
  case (Cons s names)
  from Cons.prems(2) obtain c cs' where c: "write_chunk (str_as_bytes s) = Inr c" "write_names names = Inr cs'"
    "cs = c @ cs'" by (auto elim!: try_res_InrE)
  from Cons.prems(1) c(3) have a: "at_offset bs at (c @ cs' @ rest)" by simp
  from c_str_chunk_at [OF a c(1)] Cons.IH [OF at_offset_skip [OF a] c(2)] Cons.prems(3) c(3) show ?case by simp
qed simp

lemma write_chunk_length: "write_chunk x = Inr c \<Longrightarrow> length c = 4 + length x"
  by (auto simp: write_chunk_def split: if_splits)

lemma write_names_length: "write_names names = Inr cs \<Longrightarrow> 4 * length names \<le> length cs"
  by (induction names arbitrary: cs) (fastforce simp: write_chunk_def elim!: try_res_InrE split: if_splits)+

subsection \<open>The header\<close>

text \<open>What the writer is given: texts that are UTF-8, digests of the right length, records whose heads
  are whole.\<close>

definition header_ok :: "image_header \<Rightarrow> bool" where
  "header_ok hdr \<longleftrightarrow> utf8_ok (str_as_bytes (ih_name hdr)) \<and> list_all (\<lambda>s. utf8_ok (str_as_bytes s)) (ih_field_names hdr)
     \<and> length (ih_catchup_xor hdr) = 32 \<and> length (ih_prev_xor hdr) = 32"

fun rec_ok :: "image_rec \<Rightarrow> bool" where
  "rec_ok (Row head body) = (48 \<le> length head)"
| "rec_ok (Tombstone i) = True"

lemma length_written_head: "rec_ok r \<Longrightarrow> length (written_head rel r) = rec_head_len r"
  by (cases r) (auto simp: relink_head_def head_body_rel_offset_def head_body_len_offset_def encode_head_def
      head_len_for_def head_id_offset_def length_write_varint)

lemma length_write_heads: "list_all rec_ok recs \<Longrightarrow> length (write_heads h b recs) = sum_list (map rec_head_len recs)"
  by (induction recs arbitrary: h b) (simp_all add: Let_def length_written_head)

lemma b3_length: "codec_ok e \<Longrightarrow> length (b3 e bs) = 32"
  by (simp add: codec_ok_def b3_def)

lemma parse_identity_at:
  assumes a: "at_offset bs 0 (image_magic @ u32_bytes f @ u32_bytes r @ u64_bytes i @ u32_bytes s @ rest)"
  shows "parse_identity bs = Inr \<lparr>ii_format = f, ii_record_format = r, ii_image_id = i, ii_seq = s\<rparr>"
    and "at_offset bs 28 rest"
proof -
  have magic: "length image_magic = 8" by (simp add: image_magic_def)
  note a1 = at_offset_skip [OF a, unfolded magic, simplified]
  note a2 = at_offset_skip [OF a1, simplified]
  note a3 = at_offset_skip [OF a2, simplified]
  note a4 = at_offset_skip [OF a3, simplified]
  show a5: "at_offset bs 28 rest" using at_offset_skip [OF a4] by simp
  have "take 8 bs = image_magic" using a magic by (simp add: at_offset_def)
  moreover have "28 \<le> length bs" using a5 by (simp add: at_offset_def)
  ultimately show "parse_identity bs = Inr \<lparr>ii_format = f, ii_record_format = r, ii_image_id = i, ii_seq = s\<rparr>"
    using c_u32_at [OF a1] c_u32_at [OF a2] c_u64_at [OF a3] c_u32_at [OF a4]
    by (simp add: parse_identity_def fixed_prefix_len_def)
qed

text \<open>The bytes before the heads, given the encoded name and field names.\<close>

definition image_prefix :: "image_header \<Rightarrow> bytes \<Rightarrow> bytes \<Rightarrow> nat \<Rightarrow> nat \<Rightarrow> nat \<Rightarrow> bytes" where
  "image_prefix hdr name names rows heads_len bodies_len =
     image_magic @ u32_bytes image_format @ u32_bytes record_format @ u64_bytes (ih_image_id hdr) @ u32_bytes (ih_seq hdr)
     @ name @ ih_catchup_xor hdr @ ih_prev_xor hdr @ u32_bytes (of_nat (length (ih_field_names hdr))) @ names
     @ u64_bytes (of_nat rows) @ u64_bytes (of_nat heads_len) @ u64_bytes (of_nat bodies_len)"

definition written_header :: "image_header \<Rightarrow> nat \<Rightarrow> nat \<Rightarrow> nat \<Rightarrow> nat \<Rightarrow> digest \<Rightarrow> image" where
  "written_header hdr rows start heads_len bodies_len bodies_hash =
     \<lparr>im_name = ih_name hdr, im_record_format = record_format, im_image_id = ih_image_id hdr, im_seq = ih_seq hdr,
      im_stored_xor = ih_catchup_xor hdr, im_prev_xor = ih_prev_xor hdr, im_field_names = ih_field_names hdr,
      im_rows = of_nat rows, im_heads = (start, start + heads_len),
      im_bodies = (start + heads_len, start + heads_len + bodies_len), im_bodies_hash = bodies_hash\<rparr>"

lemma parse_header_at:
  assumes bs: "bs = image_prefix hdr name names rows (length heads) (length bodies) @ heads @ bodies @ h1 @ h2"
    and n: "write_chunk (str_as_bytes (ih_name hdr)) = Inr name" "write_names (ih_field_names hdr) = Inr names"
    and h: "header_ok hdr" "length h1 = 32" "length h2 = 32" and small: "length bs < 2 ^ 33"
    and fields: "length (ih_field_names hdr) < 2 ^ 32"
  shows "parse_header bs = Inr (written_header hdr rows
      (length (image_prefix hdr name names rows (length heads) (length bodies))) (length heads) (length bodies) h2)"
proof -
  let ?start = "length (image_prefix hdr name names rows (length heads) (length bodies))"
  have h32: "length (ih_catchup_xor hdr) = 32" "length (ih_prev_xor hdr) = 32" using h by (simp_all add: header_ok_def)
  have "at_offset bs 0 bs" using small by (simp add: at_offset_def)
  then have "at_offset bs 0 (image_magic @ u32_bytes image_format @ u32_bytes record_format @ u64_bytes (ih_image_id hdr)
       @ u32_bytes (ih_seq hdr) @ name @ ih_catchup_xor hdr @ ih_prev_xor hdr
       @ u32_bytes (of_nat (length (ih_field_names hdr))) @ names
       @ u64_bytes (of_nat rows) @ u64_bytes (of_nat (length heads)) @ u64_bytes (of_nat (length bodies))
       @ heads @ bodies @ h1 @ h2)" by (simp add: bs image_prefix_def)
  note a0 = parse_identity_at [OF this]
  obtain p1 p2 p3 p4 p5 p6 p7 p8 where
    p: "p1 = 28 + length name" "p2 = p1 + 32" "p3 = p2 + 32" "p4 = p3 + 4" "p5 = p4 + length names"
      "p6 = p5 + 8" "p7 = p6 + 8" "p8 = p7 + 8" by blast
  note a1 = at_offset_skip [OF a0(2), folded p(1)]
  note a2 = at_offset_skip [OF a1, unfolded h32, folded p(2)]
  note a3 = at_offset_skip [OF a2, unfolded h32, folded p(3)]
  note a4 = at_offset_skip [OF a3, unfolded le_nat_u32_bytes, folded p(4)]
  note a5 = at_offset_skip [OF a4, folded p(5)]
  note a6 = at_offset_skip [OF a5, unfolded le_nat_u64_bytes, folded p(6)]
  note a7 = at_offset_skip [OF a6, unfolded le_nat_u64_bytes, folded p(7)]
  have u: "unat (of_nat (length (ih_field_names hdr)) :: u32) = length (ih_field_names hdr)"
    "unat (of_nat (length heads) :: u64) = length heads" "unat (of_nat (length bodies) :: u64) = length bodies"
    using fields small by (simp_all add: unat_of_nat bs)
  have utf: "utf8_ok (str_as_bytes (ih_name hdr))" "\<And>s. s \<in> set (ih_field_names hdr) \<Longrightarrow> utf8_ok (str_as_bytes s)"
    using h by (simp_all add: header_ok_def list_all_iff)
  have start: "?start = p8" by (simp add: p image_prefix_def h32 image_magic_def)
  have trailer: "drop (?start + length heads + length bodies + 32) bs = h2" "min_image_len \<le> length bs"
    "length bs = ?start + length heads + length bodies + 64"
    using h start write_chunk_length [OF n(1)] by (simp_all add: bs min_image_len_def p)
  have reads: "c_str_chunk ''table name'' bs 28 = Inr (ih_name hdr, p1)" "c_hash bs p1 = Inr (ih_catchup_xor hdr, p2)"
    "c_hash bs p2 = Inr (ih_prev_xor hdr, p3)" "c_u32 bs p3 = Inr (of_nat (length (ih_field_names hdr)), p4)"
    "c_names (length (ih_field_names hdr)) bs p4 = Inr (ih_field_names hdr, p5)"
    "c_u64 bs p5 = Inr (of_nat rows, p6)" "c_u64 bs p6 = Inr (of_nat (length heads), p7)"
    "c_u64 bs p7 = Inr (of_nat (length bodies), p8)"
    using c_str_chunk_at [OF a0(2) n(1) utf(1)] c_hash_at [OF a1 h32(1)] c_hash_at [OF a2 h32(2)] c_u32_at [OF a3]
      c_names_at [OF a4 n(2) utf(2)] c_u64_at [OF a5] c_u64_at [OF a6] c_u64_at [OF a7]
    by (simp_all only: p)
  show ?thesis
    using trailer small unfolding start
    by (simp add: parse_header_def a0(1) reads u fixed_prefix_len_def written_header_def trailer_len_def Let_def)
qed

lemma write_image_layout:
  assumes w: "write_image e hdr recs = Inr (bs, wr)" and e: "codec_ok e" and h: "header_ok hdr" and r: "list_all rec_ok recs"
  obtains pre heads bodies where
    "heads = write_heads (length pre) (length pre + length heads) recs" "bodies = concat (map rec_body recs)"
    "bs = pre @ heads @ bodies @ b3 e (pre @ heads) @ b3 e bodies"
    "length pre + length heads + length bodies < 2 ^ 32" "length heads = sum_list (map rec_head_len recs)"
    "parse_identity bs = Inr \<lparr>ii_format = image_format, ii_record_format = record_format,
       ii_image_id = ih_image_id hdr, ii_seq = ih_seq hdr\<rparr>"
    "parse_header bs = Inr (written_header hdr (length recs) (length pre) (length heads) (length bodies) (b3 e bodies))"
    "wr_mark wr = default_mark"
proof -
  define hl where "hl = sum_list (map rec_head_len recs)"
  define bodies where "bodies = concat (map rec_body recs)"
  have bl: "sum_list (map (length \<circ> rec_body) recs) = length bodies" by (simp add: bodies_def length_concat)
  from w obtain name names where n: "write_chunk (str_as_bytes (ih_name hdr)) = Inr name" "write_names (ih_field_names hdr) = Inr names"
    by (auto simp: write_image_def Let_def elim!: try_res_InrE)
  define pre where "pre = image_prefix hdr name names (length recs) hl (length bodies)"
  define heads where "heads = write_heads (length pre) (length pre + hl) recs"
  have len: "length heads = hl" by (simp add: heads_def hl_def length_write_heads [OF r])
  have small: "length pre + hl + length bodies < 2 ^ 32"
    and bs: "bs = pre @ heads @ bodies @ b3 e (pre @ heads) @ b3 e bodies" and mk: "wr_mark wr = default_mark"
    using w unfolding write_image_def bl hl_def [symmetric] bodies_def [symmetric] heads_def n try_res_simps
      image_prefix_def [symmetric] pre_def Let_def
    by (auto split: if_splits)
  have "length names < 2 ^ 32" using small by (simp add: pre_def image_prefix_def)
  then have f: "length (ih_field_names hdr) < 2 ^ 32" using write_names_length [OF n(2)] by simp
  have lbs: "length bs < 2 ^ 33" using small by (simp add: bs len b3_length [OF e])
  have bs': "bs = image_prefix hdr name names (length recs) (length heads) (length bodies) @ heads @ bodies @ b3 e (pre @ heads) @ b3 e bodies"
    by (simp add: bs len pre_def)
  have "parse_header bs = Inr (written_header hdr (length recs) (length pre) (length heads) (length bodies) (b3 e bodies))"
    using parse_header_at [OF bs' n h b3_length [OF e] b3_length [OF e] lbs f] by (simp add: pre_def len)
  moreover have "parse_identity bs = Inr \<lparr>ii_format = image_format, ii_record_format = record_format,
       ii_image_id = ih_image_id hdr, ii_seq = ih_seq hdr\<rparr>"
    by (rule parse_identity_at(1)) (use lbs bs' in \<open>simp add: at_offset_def image_prefix_def\<close>)
  ultimately show thesis using that [of heads pre bodies] small bs mk len by (simp add: heads_def hl_def bodies_def)
qed


subsection \<open>Heads\<close>

abbreviation whole_head :: "string \<Rightarrow> digest \<Rightarrow> i64 \<Rightarrow> u32 \<Rightarrow> u32 \<Rightarrow> bytes" where
  "whole_head i dg rv rel len \<equiv> fst (encode_head i dg rv rel len [])"

lemma whole_head_eq:
  "whole_head i dg rv rel len = dg @ u64_bytes rv @ u32_bytes rel @ u32_bytes len @ write_varint (of_nat (length i)) @ str_as_bytes i"
  by (simp add: encode_head_def)

lemma length_whole_head: "length dg = 32 \<Longrightarrow> length (whole_head i dg rv rel len) = head_len_for i"
  by (simp add: whole_head_eq head_len_for_def head_id_offset_def length_write_varint)

lemma relink_whole_head:
  "length dg = 32 \<Longrightarrow> relink_head (whole_head i dg rv rel len) rel' [] = whole_head i dg rv rel' len"
  by (simp add: relink_head_def whole_head_eq head_body_rel_offset_def head_body_len_offset_def)

text \<open>A record of an image and the change it describes: a row written under its id, or the id's row
  removed.\<close>

type_synonym row_change = "string \<times> (value \<times> digest) option"

fun rec_for :: "nat \<Rightarrow> field_dict \<Rightarrow> image_rec \<Rightarrow> row_change \<Rightarrow> bool" where
  "rec_for stack d (Row head body) (i, Some (v, dg)) =
     (length dg = 32 \<and> length i < 2 ^ 32 \<and> utf8_ok (str_as_bytes i) \<and> held stack d v body \<and> length body < 2 ^ 32
      \<and> (\<exists>rel. head = whole_head i dg (record_rv v) rel (of_nat (length body))))"
| "rec_for stack d (Tombstone i) (j, None) = (i = j \<and> length i < 2 ^ 32 \<and> utf8_ok (str_as_bytes i))"
| "rec_for stack d _ _ = False"

definition apply_changes :: "row_change list \<Rightarrow> (string \<rightharpoonup> value \<times> digest) \<Rightarrow> (string \<rightharpoonup> value \<times> digest)" where
  "apply_changes cs m = fold (\<lambda>(i, vd) m. m(i := vd)) cs m"

lemma apply_changes_simps [simp]:
  "apply_changes [] m = m" "apply_changes ((i, vd) # cs) m = apply_changes cs (m(i := vd))"
  by (simp_all add: apply_changes_def)

lemma rec_for_ok: "rec_for stack d r c \<Longrightarrow> rec_ok r"
  by (cases "(stack, d, r, c)" rule: rec_for.cases) (auto simp: whole_head_eq)

fun written_digest :: "row_change \<Rightarrow> digest" where
  "written_digest (i, Some (v, dg)) = dg"
| "written_digest (i, None) = replicate 32 0"

fun written_rv :: "row_change \<Rightarrow> i64" where
  "written_rv (i, Some (v, dg)) = record_rv v"
| "written_rv (i, None) = rv_absent"

lemma written_head_eq:
  "rec_for stack d r (i, vd) \<Longrightarrow> written_head rel r =
     whole_head i (written_digest (i, vd)) (written_rv (i, vd)) (if vd = None then 0 else of_nat rel) (of_nat (length (rec_body r)))"
  by (cases "(stack, d, r, (i, vd))" rule: rec_for.cases) (auto simp: relink_whole_head)

lemma rec_for_id:
  "rec_for stack d r (i, vd) \<Longrightarrow> length i < 2 ^ 32 \<and> utf8_ok (str_as_bytes i) \<and> length (written_digest (i, vd)) = 32
     \<and> length (rec_body r) < 2 ^ 32 \<and> (rec_body r = [] \<longleftrightarrow> vd = None)"
  by (cases "(stack, d, r, (i, vd))" rule: rec_for.cases) (auto dest: held_not_Nil)

lemma walk_whole_head:
  assumes a: "at_offset block at (whole_head i dg rv rel len @ rest)" and i: "length i < 2 ^ 32" "utf8_ok (str_as_bytes i)"
    and dg: "length dg = 32" and fits: "at + head_len_for i \<le> heads_end"
  shows "walk_head block heads_end n at = Inr (head_len_for i, whole_head i dg rv rel len, i, dg, rel, len)"
proof -
  let ?h = "whole_head i dg rv rel len"
  have len: "length ?h = head_len_for i" by (rule length_whole_head [OF dg])
  have "take (heads_end - at) (drop at block) = ?h @ take (heads_end - at - length ?h) rest"
    using a fits len by (simp add: at_offset_def)
  then have "head_len (take (heads_end - at) (drop at block)) = Some (head_len_for i)"
    using head_fields(5) [OF dg i(1)] by (simp add: whole_head_eq)
  moreover have "take (head_len_for i) (drop at block) = ?h" using a len by (simp add: at_offset_def)
  moreover note head_fields [OF dg i(1), of ?h rv rel len "[]"] i(2)
  ultimately show ?thesis by (simp add: walk_head_def whole_head_eq)
qed

end
