(* ===== verification/Image_Base.thy ===== *)
theory Image_Base
  imports Image_Layout
begin

section \<open>Reading a base image back\<close>

text \<open>
  The walk over the heads of a written base image builds an index under which the image's own bytes,
  adopted as the arena's first segment, are a row table holding the rows that were written.
\<close>

subsection \<open>Rows inside an adopted buffer\<close>

lemma buf_get:
  "heap_get \<lparr>sp_seg = 0, sp_off = off, sp_len = len\<rparr> (heap_from_buf block live) =
     (case slice (unat off) (unat off + unat len) block of Some bs \<Rightarrow> bs | None \<Rightarrow> [])"
  by (simp add: heap_get_def heap_from_buf_def Let_def)

lemma buf_get_at:
  assumes "at_offset block at (x @ rest)" "at + length x < 2 ^ 32"
  shows "heap_get \<lparr>sp_seg = 0, sp_off = of_nat at, sp_len = of_nat (length x)\<rparr> (heap_from_buf block live) = x"
proof -
  have "unat (of_nat at :: u32) = at" "unat (of_nat (length x) :: u32) = length x"
    using assms(2) by (simp_all add: unat_of_nat)
  moreover have "take (length x) (drop at block) = x" using assms(1) by (simp add: at_offset_def)
  ultimately show ?thesis using at_offset_length [OF assms(1)] by (simp add: buf_get slice_def)
qed

lemma head_id_Nil [simp]: "head_id [] = None"
  by (simp add: head_id_def slice_from_def head_id_offset_def)

lemma id_in_buf: "sp_seg s = 0 \<Longrightarrow> id_in block s = head_id (heap_get s (heap_from_buf block live))"
  by (cases s) (auto simp: id_in_def buf_get split: option.splits)

subsection \<open>Dictionaries, sums and changes\<close>

lemma intern_new:
  assumes d: "dict_ok d" and new: "s \<notin> set (fd_names d)" and small: "length (fd_names d) < 2 ^ 32"
  shows "\<exists>d'. intern s d = (of_nat (length (fd_names d)), d') \<and> dict_ok d' \<and> fd_names d' = fd_names d @ [s]"
proof -
  have "hm_get (fd_ids d) s = None"
    using d new by (cases "hm_get (fd_ids d) s") (auto simp: dict_ok_def)
  then have e: "intern s d = (of_nat (length (fd_names d)), \<lparr>fd_names = fd_names d @ [s],
      fd_ids = hm_insert s (of_nat (length (fd_names d))) (fd_ids d)\<rparr>)" by (simp add: intern_def Let_def)
  from intern_ok [OF this d] small e show ?thesis by simp
qed

lemma from_names_loop_ok:
  "dict_ok d \<Longrightarrow> distinct (fd_names d @ names) \<Longrightarrow> length (fd_names d @ names) \<le> 2 ^ 32 \<Longrightarrow>
   \<exists>d'. from_names_loop (length (fd_names d)) names d = Some d' \<and> dict_ok d' \<and> fd_names d' = fd_names d @ names"
proof (induction names arbitrary: d)
  case (Cons s names)
  from Cons.prems obtain d1 where d1: "intern s d = (of_nat (length (fd_names d)), d1)" "dict_ok d1" "fd_names d1 = fd_names d @ [s]"
    using intern_new [of d s] by auto
  have "unat (of_nat (length (fd_names d)) :: u32) = length (fd_names d)" using Cons.prems(3) by (simp add: unat_of_nat)
  with Cons.IH [of d1] Cons.prems d1 show ?case by simp
qed simp

lemma from_names_ok:
  "distinct names \<Longrightarrow> length names \<le> 2 ^ 32 \<Longrightarrow> \<exists>d. from_names names = Some d \<and> dict_ok d \<and> fd_names d = names"
  using from_names_loop_ok [OF dict_ok_new, of names] by (simp add: from_names_def dict_new_def)

text \<open>The XOR of the digests of a map's rows.\<close>

definition sums_to :: "(string \<rightharpoonup> value \<times> digest) \<Rightarrow> digest \<Rightarrow> bool" where
  "sums_to m x \<longleftrightarrow> (\<exists>ks. distinct ks \<and> set ks = dom m \<and> x = xor_all xor_digest xor_empty (map (\<lambda>i. snd (the (m i))) ks))"

definition digests_32 :: "(string \<rightharpoonup> value \<times> digest) \<Rightarrow> bool" where
  "digests_32 m \<longleftrightarrow> (\<forall>i v dg. m i = Some (v, dg) \<longrightarrow> length dg = 32)"

lemma sums_to_list:
  assumes "sums_to m x" "digests_32 m" "distinct ks" "set ks = dom m"
  shows "xor_all xor_digest xor_empty (map (\<lambda>i. snd (the (m i))) ks) = x"
proof -
  from assms(1) obtain ls where l: "distinct ls" "set ls = dom m"
    "x = xor_all xor_digest xor_empty (map (\<lambda>i. snd (the (m i))) ls)" by (auto simp: sums_to_def)
  have "mset ks = mset ls" using assms(3,4) l(1,2) by (simp add: set_eq_iff_mset_eq_distinct [symmetric])
  then have "mset (map (\<lambda>i. snd (the (m i))) ks) = mset (map (\<lambda>i. snd (the (m i))) ls)" by simp
  moreover have "set (map (\<lambda>i. snd (the (m i))) ks) \<subseteq> {d. length d = 32}"
    using assms(2,4) by (fastforce simp: digests_32_def)
  ultimately show ?thesis using xd.xor_all_perm l(3) by simp
qed

lemma sums_to_length: "sums_to m x \<Longrightarrow> digests_32 m \<Longrightarrow> length x = 32"
proof -
  assume m: "sums_to m x" "digests_32 m"
  then obtain ks where k: "set ks = dom m" "x = xor_all xor_digest xor_empty (map (\<lambda>i. snd (the (m i))) ks)"
    by (auto simp: sums_to_def)
  have "set (map (\<lambda>i. snd (the (m i))) ks) \<subseteq> {d. length d = 32}" using m(2) k(1) by (fastforce simp: digests_32_def)
  from xd.xor_all_closed [OF this] k(2) show "length x = 32" by simp
qed

lemma apply_changes_lookup:
  "distinct (map fst cs) \<Longrightarrow> apply_changes cs m i = (case map_of cs i of None \<Rightarrow> m i | Some vd \<Rightarrow> vd)"
proof (induction cs arbitrary: m)
  case (Cons c cs)
  obtain j vd where "c = (j, vd)" by (cases c)
  moreover from this Cons.prems have "map_of cs j = None" by (simp add: map_of_eq_None_iff)
  ultimately show ?case using Cons by (cases "i = j") (simp_all split: option.split)
qed simp

subsection \<open>The records of a table\<close>

context row_tables
begin

definition slot_change :: "('a, 'h) flat_table \<Rightarrow> (string \<rightharpoonup> value \<times> digest) \<Rightarrow> row_slot \<Rightarrow> row_change" where
  "slot_change t m s = (the (slot_id E (tb_arena t) s), m (the (slot_id E (tb_arena t) s)))"

lemma slot_change_row:
  assumes rel: "table_rel E ok items stack t m" and s: "s \<in> set (ht_iter (te_index E) (tb_index t))"
  obtains i v dg where "slot_id E (tb_arena t) s = Some i" "m i = Some (v, dg)" "slot_change t m s = (i, Some (v, dg))"
    "row_at E stack (tb_dict t) (tb_arena t) s i v dg"
proof -
  from rel have sl: "slots_rel E stack (tb_dict t) (tb_arena t) (items (tb_index t)) m" by (simp add: table_rel_def)
  from s obtain h where "(h, s) \<in> set (items (tb_index t))" using iter_iff by blast
  then obtain i v dg where i: "m i = Some (v, dg)" "slot_id E (tb_arena t) s = Some i"
    "row_at E stack (tb_dict t) (tb_arena t) s i v dg" by (rule slots_entry [OF sl])
  then have "slot_change t m s = (i, Some (v, dg))" by (simp add: slot_change_def)
  with i show thesis by (intro that)
qed

lemma record_changes:
  assumes rel: "table_rel E ok items stack t m" and L: "set L \<subseteq> set (ht_iter (te_index E) (tb_index t))"
  shows "list_all2 (rec_for stack (tb_dict t))
     (map (\<lambda>(head, body). Row head body) (List.map_filter (slot_record E (tb_arena t)) L)) (map (slot_change t m) L)"
  using L
proof (induction L)
  case (Cons s L)
  from Cons.prems have "s \<in> set (ht_iter (te_index E) (tb_index t))" by simp
  then obtain i v dg where i: "slot_change t m s = (i, Some (v, dg))" "row_at E stack (tb_dict t) (tb_arena t) s i v dg"
    by (rule slot_change_row [OF rel])
  from i(2) obtain head body where "slot_record E (tb_arena t) s = Some (head, body)"
    "rec_for stack (tb_dict t) (Row head body) (i, Some (v, dg))"
    by (auto simp: row_at_def slot_record_def Let_def)
  with Cons i(1) show ?case by (simp add: List.map_filter_def)
qed (simp add: List.map_filter_def)

lemma iter_ids_distinct:
  assumes "table_rel E ok items stack t m"
  shows "distinct (map (slot_id E (tb_arena t)) (ht_iter (te_index E) (tb_index t)))"
proof -
  let ?id = "slot_id E (tb_arena t)"
  from assms have sl: "slots_rel E stack (tb_dict t) (tb_arena t) (items (tb_index t)) m" by (simp add: table_rel_def)
  have "mset (map ?id (ht_iter (te_index E) (tb_index t))) = mset (map ?id (map snd (items (tb_index t))))"
    using iter_items by (metis mset_map)
  also have "map ?id (map snd (items (tb_index t))) = map (\<lambda>(h, s). ?id s) (items (tb_index t))" by auto
  finally show ?thesis using mset_eq_imp_distinct_iff sl slots_rel_def by metis
qed

lemma changes_distinct:
  assumes rel: "table_rel E ok items stack t m" and L: "L = filter P (ht_iter (te_index E) (tb_index t))"
  shows "distinct (map fst (map (slot_change t m) L))"
    and "(i, vd) \<in> set (map (slot_change t m) L) \<Longrightarrow> vd \<noteq> None \<and> m i = vd"
proof -
  let ?id = "slot_id E (tb_arena t)"
  have sub: "s \<in> set (ht_iter (te_index E) (tb_index t))" if "s \<in> set L" for s using that by (simp add: L)
  have fst: "Some (fst (slot_change t m s)) = ?id s" if "s \<in> set L" for s
    by (rule slot_change_row [OF rel sub [OF that]]) simp
  then have "map Some (map fst (map (slot_change t m) L)) = map ?id L" by simp
  moreover have "distinct (map ?id L)" using iter_ids_distinct [OF rel] unfolding L by (rule distinct_map_filter)
  ultimately show "distinct (map fst (map (slot_change t m) L))" by (metis distinct_map)
  assume "(i, vd) \<in> set (map (slot_change t m) L)"
  then obtain s where s: "s \<in> set L" "slot_change t m s = (i, vd)" by auto
  show "vd \<noteq> None \<and> m i = vd" by (rule slot_change_row [OF rel sub [OF s(1)]]) (use s(2) in auto)
qed

lemma table_changes:
  assumes rel: "table_rel E ok items stack t m"
  obtains cs where "list_all2 (rec_for stack (tb_dict t)) (map (\<lambda>(head, body). Row head body) (tb_records E t)) cs"
    "distinct (map fst cs)" "\<forall>(i, vd) \<in> set cs. vd \<noteq> None" "set (map fst cs) = dom m" "apply_changes cs Map.empty = m"
    "map written_digest cs = map (\<lambda>i. snd (the (m i))) (map fst cs)"
proof -
  let ?it = "ht_iter (te_index E) (tb_index t)"
  define cs where "cs = map (slot_change t m) ?it"
  have recs: "list_all2 (rec_for stack (tb_dict t)) (map (\<lambda>(head, body). Row head body) (tb_records E t)) cs"
    unfolding tb_records_def cs_def by (rule record_changes [OF rel]) simp
  have dist: "distinct (map fst cs)" and cm: "\<And>i vd. (i, vd) \<in> set cs \<Longrightarrow> vd \<noteq> None \<and> m i = vd"
    unfolding cs_def using changes_distinct [OF rel, of ?it "\<lambda>_. True"] by simp_all
  have dom: "set (map fst cs) = dom m"
  proof (intro equalityI subsetI)
    fix i assume "i \<in> set (map fst cs)"
    then obtain vd where "(i, vd) \<in> set cs" by force
    then show "i \<in> dom m" using cm by blast
  next
    fix i assume "i \<in> dom m"
    then obtain v dg where i: "m i = Some (v, dg)" by auto
    from find_slot_rel(2) [OF rel i] obtain s where "find_slot E t i = Some s" by blast
    then have s: "slot_id E (tb_arena t) s = Some i" "s \<in> set ?it" using find_slot_iff [OF rel] iter_iff by blast+
    then have "slot_change t m s \<in> set cs" by (simp add: cs_def)
    moreover have "fst (slot_change t m s) = i" using s(1) by (simp add: slot_change_def)
    ultimately show "i \<in> set (map fst cs)" by force
  qed
  have "apply_changes cs Map.empty i = m i" for i
  proof (cases "map_of cs i")
    case None
    then have "m i = None" using dom by (metis domIff map_of_eq_None_iff set_map)
    with None show ?thesis by (simp add: apply_changes_lookup [OF dist])
  next
    case (Some vd)
    then show ?thesis using cm [OF map_of_SomeD [OF Some]] by (simp add: apply_changes_lookup [OF dist])
  qed
  then have "apply_changes cs Map.empty = m" by blast
  moreover have "map written_digest cs = map (\<lambda>i. snd (the (m i))) (map fst cs)" using cm by fastforce
  ultimately show thesis using that [OF recs dist _ dom] cm by fast
qed

lemma rel_digests: "table_rel E ok items stack t m \<Longrightarrow> digests_32 m"
  using find_slot_rel(2) by (fastforce simp: digests_32_def row_at_def Let_def)

end

subsection \<open>The walk over a base image\<close>

locale heap_images = row_tables E heap_ok heap_room items
  for E :: "'h heap_env" and items :: "'h \<Rightarrow> (u64 \<times> row_slot) list" +
  assumes heap_env: "te_arena E = heap_ops"
begin

lemma heap_env_get [simp]: "ar_get (te_arena E) = heap_get"
  by (simp add: heap_env heap_ops_def)

lemma row_at_buf:
  assumes rec: "rec_for stack d r (i, Some (v, dg))"
    and head: "at_offset block at (written_head (nb - at) r @ rest)" and body: "at_offset block nb (rec_body r @ rest')"
    and le: "at \<le> nb" and small: "nb + length (rec_body r) < 2 ^ 32" and fits: "at + head_len_for i < 2 ^ 32"
  shows "row_at E stack d (heap_from_buf block live) \<lparr>sp_seg = 0, sp_off = of_nat at, sp_len = of_nat (head_len_for i)\<rparr> i v dg"
proof -
  obtain h0 where r: "r = Row h0 (rec_body r)" and held: "held stack d v (rec_body r)"
    using rec by (cases r) auto
  note i = rec_for_id [OF rec]
  let ?len = "of_nat (length (rec_body r)) :: u32" and ?rel = "of_nat (nb - at) :: u32"
  let ?h = "whole_head i dg (record_rv v) ?rel ?len"
  have wh: "written_head (nb - at) r = ?h" using written_head_eq [OF rec] by simp
  have dg: "length dg = 32" using i by simp
  have "heap_get \<lparr>sp_seg = 0, sp_off = of_nat at, sp_len = of_nat (head_len_for i)\<rparr> (heap_from_buf block live) = ?h"
    using buf_get_at [OF head] fits wh length_whole_head [OF dg] by simp
  moreover have u: "unat ?len = length (rec_body r)" "unat ?rel = nb - at" "unat (of_nat at :: u32) = at"
    using small le by (simp_all add: unat_of_nat del: of_nat_diff)
  have "of_nat at + ?rel = (of_nat nb :: u32)" using le by (metis le_add_diff_inverse of_nat_add)
  moreover note fields = head_fields [OF dg, of i ?h "record_rv v" ?rel ?len "[]"]
  moreover have "?len \<noteq> 0" using u(1) i by (metis length_0_conv option.distinct(1) unat_0)
  ultimately have "body_of ?h \<lparr>sp_seg = 0, sp_off = of_nat at, sp_len = of_nat (head_len_for i)\<rparr>
      = Some \<lparr>sp_seg = 0, sp_off = of_nat nb, sp_len = ?len\<rparr>"
    using i u small le by (simp add: body_of_def whole_head_eq del: of_nat_diff)
  moreover have "heap_get \<lparr>sp_seg = 0, sp_off = of_nat nb, sp_len = ?len\<rparr> (heap_from_buf block live) = rec_body r"
    using buf_get_at [OF body small] by simp
  moreover have "?h \<noteq> []" using dg by (auto simp: whole_head_eq)
  ultimately show ?thesis
    using i held fields \<open>heap_get _ _ = ?h\<close>
    by (auto simp: row_at_def whole_head_eq head_rv_def)
qed

text \<open>What the index built so far says: its slots point into the buffer.\<close>

definition buf_rel :: "nat \<Rightarrow> field_dict \<Rightarrow> bytes \<Rightarrow> u64 \<Rightarrow> 'h \<Rightarrow> (string \<rightharpoonup> value \<times> digest) \<Rightarrow> bool" where
  "buf_rel stack d block live idx m \<longleftrightarrow>
     slots_rel E stack d (heap_from_buf block live) (items idx) m \<and> (\<forall>h s. (h, s) \<in> set (items idx) \<longrightarrow> sp_seg s = 0)"

lemma buf_rel_insert:
  assumes rel: "buf_rel stack d block live idx m" and new: "m i = None"
    and row: "row_at E stack d (heap_from_buf block live) slot i v dg" and seg: "sp_seg slot = 0"
  shows "ht_find (te_index E) (te_hash E i) (\<lambda>s. id_in block s = Some i) idx = None"
    and "buf_rel stack d block live (ht_insert_unique (te_index E) (te_hash E i) slot
           (\<lambda>s. case id_in block s of None \<Rightarrow> 0 | Some j \<Rightarrow> te_hash E j) idx) (m(i \<mapsto> (v, dg)))"
proof -
  let ?A = "heap_from_buf block live"
  from rel have sl: "slots_rel E stack d ?A (items idx) m" and segs: "\<And>h s. (h, s) \<in> set (items idx) \<Longrightarrow> sp_seg s = 0"
    by (auto simp: buf_rel_def)
  have id: "id_in block s = slot_id E ?A s" if "sp_seg s = 0" for s
    using id_in_buf [OF that] by (simp add: slot_id_def)
  show none: "ht_find (te_index E) (te_hash E i) (\<lambda>s. id_in block s = Some i) idx = None"
  proof (rule ccontr)
    assume "\<not> ?thesis"
    then obtain s h where "id_in block s = Some i" "(h, s) \<in> set (items idx)" using find_Some by blast
    with segs id have "slot_id E ?A s = Some i" "(h, s) \<in> set (items idx)" by auto
    with slots_entry [OF sl] new show False by (metis option.distinct(1) option.inject)
  qed
  let ?hash = "\<lambda>s. case id_in block s of None \<Rightarrow> 0 | Some j \<Rightarrow> te_hash E j"
  have "?hash s = h" if "(h, s) \<in> set (items idx)" for h s
    by (rule slots_entry [OF sl that]) (simp add: id [OF segs [OF that]])
  moreover have "?hash slot = te_hash E i" using row_at_slot_id [OF row] id [OF seg] by simp
  ultimately have ms: "mset (items (ht_insert_unique (te_index E) (te_hash E i) slot ?hash idx))
      = mset ((te_hash E i, slot) # items idx)" using insert_items by simp
  from slots_rel_mset [OF this [symmetric] slots_rel_Cons [OF sl new row]] mset_eq_setD [OF ms] segs seg
  show "buf_rel stack d block live (ht_insert_unique (te_index E) (te_hash E i) slot ?hash idx) (m(i \<mapsto> (v, dg)))"
    by (auto simp: buf_rel_def)
qed

lemma index_loop_spec:
  assumes "list_all2 (rec_for stack d) recs cs" and "\<forall>(i, vd) \<in> set cs. vd \<noteq> None"
    and "distinct (map fst cs)" "\<forall>(i, vd) \<in> set cs. m i = None"
    and "at_offset block at (write_heads at nb recs @ rest)" "at_offset block nb (concat (map rec_body recs) @ rest')"
    and "heads_end = at + length (write_heads at nb recs)" "bodies_end = nb + length (concat (map rec_body recs))"
    and "heads_end \<le> nb" "bodies_end < 2 ^ 32" and "buf_rel stack d block live (ix_index ix) m"
  shows "\<exists>ix'. index_loop E block heads_end bodies_end 0 (length recs) n at nb ix = Inr ix'
     \<and> buf_rel stack d block live (ix_index ix') (apply_changes cs m)
     \<and> ix_xor ix' = fold (\<lambda>dg acc. xor_digest acc dg) (map written_digest cs) (ix_xor ix)"
  using assms
proof (induction recs cs arbitrary: n at nb ix m rule: list_all2_induct)
  case (Cons r recs c cs)
  obtain i v dg where c: "c = (i, Some (v, dg))" using Cons.prems(1) by (cases c) auto
  have rec: "rec_for stack d r (i, Some (v, dg))" using Cons.hyps(1) c by simp
  note i = rec_for_id [OF rec]
  then have dg: "length dg = 32" by simp
  let ?b = "rec_body r" and ?wh = "written_head (nb - at) r"
  have wh: "?wh = whole_head i dg (record_rv v) (of_nat (nb - at)) (of_nat (length ?b))"
    using written_head_eq [OF rec] by simp
  have lh: "length ?wh = head_len_for i" by (simp add: wh length_whole_head [OF dg])
  have heads: "write_heads at nb (r # recs) = ?wh @ write_heads (at + head_len_for i) (nb + length ?b) recs"
    by (simp add: Let_def lh)
  have a: "at_offset block at (?wh @ write_heads (at + head_len_for i) (nb + length ?b) recs @ rest)"
    and b: "at_offset block nb (?b @ concat (map rec_body recs) @ rest')" using Cons.prems(4,5) unfolding heads by simp_all
  have fits: "at + head_len_for i \<le> heads_end" "nb + length ?b \<le> bodies_end" "at + head_len_for i \<le> nb"
    using Cons.prems(6,7,8) unfolding heads by (simp_all add: lh)
  have u: "unat (of_nat (nb - at) :: u32) = nb - at" "unat (of_nat (length ?b) :: u32) = length ?b"
    using fits Cons.prems(9) i by (simp_all add: unat_of_nat del: of_nat_diff)
  have len: "of_nat (length ?b) \<noteq> (0 :: u32)" using u(2) i by (metis length_0_conv option.distinct(1) unat_0)
  note walk = walk_whole_head [OF a [unfolded wh], of heads_end n] i dg fits
  let ?slot = "\<lparr>sp_seg = 0, sp_off = of_nat at, sp_len = of_nat (head_len_for i)\<rparr>"
  have row: "row_at E stack d (heap_from_buf block live) ?slot i v dg"
    using row_at_buf [OF rec a b] fits Cons.prems(9) by simp
  have mi: "m i = None" using Cons.prems(3) c by simp
  note ins = buf_rel_insert [OF Cons.prems(10) mi row]
  let ?idx = "ht_insert_unique (te_index E) (te_hash E i) ?slot
           (\<lambda>s. case id_in block s of None \<Rightarrow> 0 | Some j \<Rightarrow> te_hash E j) (ix_index ix)"
  let ?ix = "\<lparr>ix_index = ?idx, ix_xor = xor_digest (ix_xor ix) dg, ix_live = ix_live ix + of_nat (head_len_for i + length ?b)\<rparr>"
  have guard: "\<not> nb - at < head_len_for i" "at + (nb - at) = nb" using fits by simp_all
  have step: "index_loop E block heads_end bodies_end 0 (length (r # recs)) n at nb ix =
      index_loop E block heads_end bodies_end 0 (length recs) (n + 1) (at + head_len_for i) (nb + length ?b) ?ix"
    using walk fits len ins(1) guard by (simp add: u Let_def del: of_nat_diff)
  have "\<exists>ix'. index_loop E block heads_end bodies_end 0 (length recs) (n + 1) (at + head_len_for i) (nb + length ?b) ?ix = Inr ix'
     \<and> buf_rel stack d block live (ix_index ix') (apply_changes cs (m(i \<mapsto> (v, dg))))
     \<and> ix_xor ix' = fold (\<lambda>dg acc. xor_digest acc dg) (map written_digest cs) (ix_xor ?ix)"
  proof (rule Cons.IH)
    show "at_offset block (at + head_len_for i) (write_heads (at + head_len_for i) (nb + length ?b) recs @ rest)"
      using at_offset_skip [OF a] by (simp add: lh)
    show "at_offset block (nb + length ?b) (concat (map rec_body recs) @ rest')" using at_offset_skip [OF b] .
    show "buf_rel stack d block live (ix_index ?ix) (m(i \<mapsto> (v, dg)))" using ins(2) by simp
    show "\<forall>(j, vd) \<in> set cs. (m(i \<mapsto> (v, dg))) j = None" using Cons.prems(2,3) c by force
  qed (use Cons.prems(1,2,6-9) [unfolded heads] c lh in auto)
  then show ?case using step c by simp
qed simp

lemma recs_ok: "list_all2 (rec_for stack d) recs cs \<Longrightarrow> list_all rec_ok recs"
  by (induction rule: list_all2_induct) (auto dest: rec_for_ok)

lemma recs_mono:
  "list_all2 (rec_for stack d) recs cs \<Longrightarrow> dict_le d d' \<Longrightarrow> list_all2 (rec_for stack d') recs cs"
proof (erule list_all2_mono)
  show "rec_for stack d' r c" if "dict_le d d'" "rec_for stack d r c" for r c
    using that held_mono by (cases "(stack, d, r, c)" rule: rec_for.cases) auto
qed

lemma checksums_ok:
  assumes bs: "bs = pre @ heads @ bodies @ b3 e (pre @ heads) @ b3 e bodies" and e: "codec_ok e"
    and im: "im = written_header hdr n (length pre) (length heads) (length bodies) (b3 e bodies)"
  shows "check_heads e bs im = Inr ()" "bodies_verified e bs im"
  by (simp_all add: check_heads_def heads_verified_def bodies_verified_def im bs written_header_def b3_length [OF e])

lemma regions_ok:
  assumes recs: "list_all2 (rec_for stack d) recs cs" and hl: "length heads = sum_list (map rec_head_len recs)"
    and small: "length pre + length heads + length bodies < 2 ^ 32" and bs: "bs = pre @ heads @ bodies @ rest"
  shows "check_regions bs (length pre, length pre + length heads)
      (length pre + length heads, length pre + length heads + length bodies) (of_nat (length recs)) = Inr ()"
    and "unat (of_nat (length recs) :: u64) = length recs"
proof -
  have min: "49 \<le> rec_head_len r" if "rec_for stack d r c" for r c
    using that by (cases "(stack, d, r, c)" rule: rec_for.cases)
      (auto simp: length_whole_head head_len_for_def head_id_offset_def less_eq_Suc_le [symmetric])
  have "length recs * 49 \<le> length heads"
    unfolding hl using recs by (induction rule: list_all2_induct) (use min in fastforce)+
  then have "length recs \<le> length heads div 49" by linarith
  moreover show u: "unat (of_nat (length recs) :: u64) = length recs"
    using calculation small by (simp add: unat_of_nat)
  ultimately show "check_regions bs (length pre, length pre + length heads)
      (length pre + length heads, length pre + length heads + length bodies) (of_nat (length recs)) = Inr ()"
    using small by (simp add: check_regions_def head_min_len_def bs u)
qed

lemma base_image_indexed:
  assumes rel: "table_rel E heap_ok items stack t m" and sum: "sums_to m (ih_catchup_xor hdr)" and hdr: "header_ok hdr"
    and names: "ih_field_names hdr = fd_names (tb_dict t)" "ih_seq hdr = 0" and e: "codec_ok e"
    and w: "write_image e hdr (map (\<lambda>(head, body). Row head body) (tb_records E t)) = Inr (bs, wr)"
  obtains im ix where "parse_identity bs = Inr \<lparr>ii_format = image_format, ii_record_format = record_format,
       ii_image_id = ih_image_id hdr, ii_seq = 0\<rparr>" "parse_header bs = Inr im" "index_parsed e E bs im = Inr ix"
    "bodies_verified e bs im" "xd_name ix = ih_name hdr" "xd_image_id ix = ih_image_id hdr"
    "xd_stored_xor ix = ih_catchup_xor hdr" "fd_names (xd_dict ix) = fd_names (tb_dict t)"
    "im_seq im = 0" "chain_from_base im = \<lparr>ch_name = ih_name hdr, ch_image_id = ih_image_id hdr, ch_seq = 0,
       ch_xor = ih_catchup_xor hdr, ch_field_names = fd_names (tb_dict t)\<rparr>"
    "\<And>epoch. table_rel E heap_ok items stack (from_parts epoch (xd_dict ix) (ix_index (xd_heads ix))
       (heap_from_buf bs (ix_live (xd_heads ix)))) m"
proof -
  let ?recs = "map (\<lambda>(head, body). Row head body) (tb_records E t)"
  obtain cs where recs: "list_all2 (rec_for stack (tb_dict t)) ?recs cs"
    and cs: "distinct (map fst cs)" "\<forall>(i, vd) \<in> set cs. vd \<noteq> None" "set (map fst cs) = dom m" "apply_changes cs Map.empty = m"
      "map written_digest cs = map (\<lambda>i. snd (the (m i))) (map fst cs)"
    by (rule table_changes [OF rel])
  note rok = recs_ok [OF recs]
  obtain pre heads bodies where lay: "heads = write_heads (length pre) (length pre + length heads) ?recs"
    "bodies = concat (map rec_body ?recs)" "bs = pre @ heads @ bodies @ b3 e (pre @ heads) @ b3 e bodies"
    and small: "length pre + length heads + length bodies < 2 ^ 32" and hl: "length heads = sum_list (map rec_head_len ?recs)"
    and id: "parse_identity bs = Inr \<lparr>ii_format = image_format, ii_record_format = record_format,
       ii_image_id = ih_image_id hdr, ii_seq = ih_seq hdr\<rparr>"
    and ph: "parse_header bs = Inr (written_header hdr (length ?recs) (length pre) (length heads) (length bodies) (b3 e bodies))"
    by (rule write_image_layout [OF w e hdr rok])
  define im where "im = written_header hdr (length ?recs) (length pre) (length heads) (length bodies) (b3 e bodies)"
  have d: "dict_ok (tb_dict t)" using rel by (simp add: table_rel_def)
  then obtain d' where d': "from_names (fd_names (tb_dict t)) = Some d'" "dict_ok d'" "fd_names d' = fd_names (tb_dict t)"
    using from_names_ok [of "fd_names (tb_dict t)"] unfolding dict_ok_def [of "tb_dict t"] by blast
  have recs': "list_all2 (rec_for stack d') ?recs cs" by (rule recs_mono [OF recs]) (simp add: dict_le_def d')
  have off: "at_offset bs (length pre) (write_heads (length pre) (length pre + length heads) ?recs @ bodies @ b3 e (pre @ heads) @ b3 e bodies)"
    "at_offset bs (length pre + length heads) (concat (map rec_body ?recs) @ b3 e (pre @ heads) @ b3 e bodies)"
    using lay small b3_length [OF e] by (simp_all add: at_offset_def)
  let ?loop = "index_loop E bs (length pre + length heads) (length pre + length heads + length bodies) 0 (length ?recs) 0
      (length pre) (length pre + length heads) \<lparr>ix_index = ht_new (te_index E), ix_xor = xor_empty, ix_live = 0\<rparr>"
  have walk: "\<exists>ix'. ?loop = Inr ix' \<and> buf_rel stack d' bs live (ix_index ix') (apply_changes cs Map.empty)
     \<and> ix_xor ix' = fold (\<lambda>dg acc. xor_digest acc dg) (map written_digest cs) xor_empty" for live
    using index_loop_spec [OF recs' cs(2,1) _ off(1,2) _ _ _ _, of Map.empty "length pre + length heads"
        "length pre + length heads + length bodies" live "\<lparr>ix_index = ht_new (te_index E), ix_xor = xor_empty, ix_live = 0\<rparr>" 0]
      lay small by (simp add: buf_rel_def slots_rel_def new_items)
  obtain ix' where loop: "?loop = Inr ix'" and xor: "ix_xor ix' = xor_all xor_digest xor_empty (map written_digest cs)"
    using walk [of 0] by (auto simp: xor_all_def)
  have buf: "buf_rel stack d' bs live (ix_index ix') m" for live using walk [of live] loop cs(4) by auto
  have "index_heads E bs (im_heads im) (im_bodies im) (im_rows im) 0 = Inr ix'"
    using regions_ok [OF recs hl small lay(3)] loop by (simp add: index_heads_def im_def written_header_def)
  moreover have "ix_xor ix' = ih_catchup_xor hdr"
    using sums_to_list [OF sum rel_digests [OF rel] cs(1,3)] xor cs(5) by simp
  ultimately have ix: "index_parsed e E bs im = Inr \<lparr>xd_name = ih_name hdr, xd_dict = d', xd_heads = ix',
      xd_image_id = ih_image_id hdr, xd_stored_xor = ih_catchup_xor hdr\<rparr>"
    using checksums_ok(1) [OF lay(3) e im_def] names d'(1) by (simp add: index_parsed_def im_def written_header_def)
  have "table_rel E heap_ok items stack (from_parts epoch d' (ix_index ix') (heap_from_buf bs (ix_live ix'))) m" for epoch
    using buf d'(2) by (simp add: table_rel_def from_parts_def buf_rel_def heap_ok_def heap_from_buf_def)
  with that [OF _ ph [folded im_def] ix] id names(2) checksums_ok(2) [OF lay(3) e im_def] show thesis
    by (simp add: im_def written_header_def chain_from_base_def names d'(3))
qed

end

end
