(* ===== verification/Image_Chain.thy ===== *)
theory Image_Chain
  imports Image_Base
begin

section \<open>Absorbing deltas\<close>

text \<open>
  A delta written by the writer and absorbed into a table changes the table's map by exactly the
  changes its records describe, and the running hash by what those changes do to the XOR of the
  digests. The arena always has room: its open segments are filled so well that files of less than
  64 GiB cannot exhaust the 65536 segment numbers.
\<close>

subsection \<open>Room in the heap arena\<close>

fun well_filled :: "bytes list \<Rightarrow> bool" where
  "well_filled (x # y # zs) = (heap_segment_bytes < length x + length y \<and> well_filled (y # zs))"
| "well_filled _ = True"

definition open_segments :: "heap_arena \<Rightarrow> bytes list" where
  "open_segments a = drop (ha_sealed a) (ha_segs a)"

definition heap_budget :: "nat \<Rightarrow> heap_arena \<Rightarrow> bool" where
  "heap_budget n a \<longleftrightarrow> ha_sealed a \<le> length (ha_segs a) \<and> ha_sealed a \<le> 1
     \<and> well_filled (open_segments a) \<and> length (concat (open_segments a)) + n < 2 ^ 36"

lemma well_filled_snoc:
  "well_filled (xs @ [x]) \<longleftrightarrow> well_filled xs \<and> (xs = [] \<or> heap_segment_bytes < length (last xs) + length x)"
  by (induction xs rule: well_filled.induct) auto

lemma well_filled_count:
  "well_filled xs \<Longrightarrow> xs \<noteq> [] \<Longrightarrow>
   (length xs - 1) * heap_segment_bytes + length (hd xs) + length (last xs) \<le> 2 * length (concat xs)"
  by (induction xs rule: well_filled.induct) (auto simp del: last.simps simp: last_ConsR last_ConsL)

lemma budget_room:
  assumes b: "heap_budget (length bs + n) a" and small: "length bs < 2 ^ 32"
  shows "heap_room bs a"
proof -
  obtain segs seg where w: "heap_writable (length bs) a = (length segs, a\<lparr>ha_segs := segs @ [seg]\<rparr>)"
    and old: "ha_segs a = segs @ [seg] \<and> ha_sealed a < length (ha_segs a) \<or> ha_segs a = segs \<and> seg = []"
    by (rule heap_writable_segs)
  have sealed: "ha_sealed a \<le> length (ha_segs a)" "ha_sealed a \<le> 1" using b by (simp_all add: heap_budget_def)
  have "(length (open_segments a) - 1) * heap_segment_bytes \<le> 2 * length (concat (open_segments a))"
    using well_filled_count [of "open_segments a"] b by (cases "open_segments a = []") (auto simp: heap_budget_def)
  also have "\<dots> < 2 * 2 ^ 36" using b by (simp add: heap_budget_def)
  finally have "length (open_segments a) - 1 < 2 ^ 15" by (simp add: heap_segment_bytes_def)
  then have "length (ha_segs a) < 2 ^ 15 + 2" using sealed by (simp add: open_segments_def)
  moreover have "length (segs @ [seg]) \<le> length (ha_segs a) + 1" using old by auto
  ultimately have "length (segs @ [seg]) < 2 ^ 16" by simp
  moreover have "length seg + length bs < 2 ^ 32"
  proof (cases "seg = []")
    case False
    then have "ha_segs a = segs @ [seg]" using old by blast
    then have "length seg + length bs \<le> heap_segment_bytes"
      using w False by (auto simp: heap_writable_def Let_def split: if_splits)
    then show ?thesis by (simp add: heap_segment_bytes_def)
  qed (use small in simp)
  ultimately show ?thesis using w by (simp add: heap_room_def)
qed

lemma budget_append:
  assumes b: "heap_budget (length bs + n) a" and app: "heap_append bs a = (s, a')"
  shows "heap_budget n a'"
proof -
  obtain segs seg where w: "heap_writable (length bs) a = (length segs, a\<lparr>ha_segs := segs @ [seg]\<rparr>)"
    and old: "ha_segs a = segs @ [seg] \<and> ha_sealed a < length (ha_segs a) \<or> ha_segs a = segs \<and> seg = []"
    by (rule heap_writable_segs)
  have a': "ha_segs a' = segs @ [seg @ bs]" "ha_sealed a' = ha_sealed a"
    using app w by (auto simp: heap_append_def Let_def)
  have sealed: "ha_sealed a \<le> length segs" using old b by (auto simp: heap_budget_def)
  then have new: "open_segments a' = drop (ha_sealed a) segs @ [seg @ bs]" by (simp add: open_segments_def a')
  from old show ?thesis
  proof (elim disjE conjE)
    assume "ha_segs a = segs @ [seg]"
    then have "open_segments a = drop (ha_sealed a) segs @ [seg]" using sealed by (simp add: open_segments_def)
    with b new a' show ?thesis by (auto simp: heap_budget_def well_filled_snoc)
  next
    assume o: "ha_segs a = segs" "seg = []"
    then have open_a: "open_segments a = drop (ha_sealed a) segs" by (simp add: open_segments_def)
    have "heap_segment_bytes < length (last segs) + length bs" if "ha_sealed a < length segs"
      using w o that by (auto simp: heap_writable_def Let_def split: if_splits)
    then have "well_filled (drop (ha_sealed a) segs @ [bs])"
      using b open_a by (cases "ha_sealed a < length segs") (auto simp: well_filled_snoc heap_budget_def last_drop)
    with b open_a o new a' show ?thesis by (auto simp: heap_budget_def)
  qed
qed


lemma budget_free: "heap_budget n (free_slot E slot a) = heap_budget n a" if "te_arena E = heap_ops"
proof -
  have "open_segments (heap_free s a) = open_segments a" "ha_sealed (heap_free s a) = ha_sealed a"
    "ha_segs (heap_free s a) = ha_segs a" for s a
    by (simp_all add: heap_free_def open_segments_def)
  then show ?thesis using that
    by (simp add: free_slot_def Let_def heap_ops_def heap_budget_def split: option.splits)
qed

subsection \<open>Hashes under changes\<close>

definition without :: "(string \<rightharpoonup> value \<times> digest) \<Rightarrow> string \<Rightarrow> digest \<Rightarrow> digest" where
  "without m i x = (case m i of None \<Rightarrow> x | Some (_, old) \<Rightarrow> xor_digest x old)"

lemma sums_to_without:
  assumes s: "sums_to m x" and d: "digests_32 m"
  shows "sums_to (m(i := None)) (without m i x)"
proof (cases "m i")
  case None
  with s show ?thesis by (simp add: without_def fun_upd_idem)
next
  case (Some r)
  obtain v dg where r: "r = (v, dg)" by (cases r)
  from s obtain ks where ks: "distinct ks" "set ks = dom m" "x = xor_all xor_digest xor_empty (map (\<lambda>i. snd (the (m i))) ks)"
    by (auto simp: sums_to_def)
  let ?f = "\<lambda>j. snd (the (m j))" and ?g = "\<lambda>j. snd (the ((m(i := None)) j))"
  have i: "i \<in> set ks" using Some ks(2) by auto
  have D: "set (map ?f ks) \<subseteq> {d. length d = 32}" using d ks(2) by (fastforce simp: digests_32_def)
  have "mset ks = mset (i # remove1 i ks)" using i by simp
  then have ms: "mset (map ?f ks) = mset (map ?f (i # remove1 i ks))" by (metis mset_map)
  have D': "?f i \<in> {d. length d = 32}" "set (map ?f (remove1 i ks)) \<subseteq> {d. length d = 32}"
    using D i by (auto dest: in_set_remove1 [THEN iffD1, rotated] notin_set_remove1)
  have "x = xor_digest (xor_all xor_digest xor_empty (map ?f (remove1 i ks))) (?f i)"
    unfolding ks(3) xd.xor_all_perm [OF ms D] using xd.xor_all_Cons [OF D'] by simp
  then have "without m i x = xor_all xor_digest xor_empty (map ?f (remove1 i ks))"
    using xd.xor_cancel [OF xd.xor_all_closed [OF D'(2)] D'(1)] Some r by (simp add: without_def)
  also have "map ?f (remove1 i ks) = map ?g (remove1 i ks)" using ks(1) by (auto simp: set_remove1_eq)
  finally show ?thesis
    unfolding sums_to_def using ks(1,2) by (intro exI [of _ "remove1 i ks"]) (auto simp: set_remove1_eq)
qed

lemma sums_to_put:
  assumes s: "sums_to m x" and d: "digests_32 m" and dg: "length dg = 32"
  shows "sums_to (m(i \<mapsto> (v, dg))) (xor_digest (without m i x) dg)"
proof -
  let ?m = "m(i := None)"
  from sums_to_without [OF s d, of i] obtain ks where ks: "distinct ks" "set ks = dom ?m"
    "without m i x = xor_all xor_digest xor_empty (map (\<lambda>j. snd (the (?m j))) ks)" by (auto simp: sums_to_def)
  have eq: "map (\<lambda>j. snd (the ((m(i \<mapsto> (v, dg))) j))) (ks @ [i]) = map (\<lambda>j. snd (the (?m j))) ks @ [dg]"
    using ks(2) by auto
  have "xor_digest (without m i x) dg = xor_all xor_digest xor_empty (map (\<lambda>j. snd (the ((m(i \<mapsto> (v, dg))) j))) (ks @ [i]))"
    unfolding eq ks(3) by simp
  then show ?thesis unfolding sums_to_def using ks(1,2) by (intro exI [of _ "ks @ [i]"]) auto
qed


subsection \<open>One record\<close>

lemma place_dict: "place E i slot t = (b, t') \<Longrightarrow> tb_dict t' = tb_dict t"
  by (auto simp: place_def Let_def split: option.splits)

lemma remove_slot_dict: "remove_slot E i t = (b, t') \<Longrightarrow> tb_dict t' = tb_dict t"
  by (auto simp: remove_slot_def Let_def split: option.splits)

context heap_images
begin

lemma budget_place:
  assumes "place E i slot t = (b, t')" shows "heap_budget n (tb_arena t') = heap_budget n (tb_arena t)"
  using assms budget_free [OF heap_env] by (auto simp: place_def Let_def split: option.splits)

lemma budget_remove:
  assumes "remove_slot E i t = (b, t')" shows "heap_budget n (tb_arena t') = heap_budget n (tb_arena t)"
  using assms budget_free [OF heap_env] by (auto simp: remove_slot_def Let_def split: option.splits)

lemma copy_row:
  assumes rel: "table_rel E heap_ok items stack t m" and rec: "rec_for stack (tb_dict t) r (i, Some (v, dg))"
    and small: "head_len_for i + length (rec_body r) < 2 ^ 32"
    and budget: "heap_budget (head_len_for i + length (rec_body r) + n) (tb_arena t)"
    and app: "append_record E (relink_head (written_head rel r) (of_nat (head_len_for i)) [] @ rec_body r) (head_len_for i) t = (slot, t1)"
    and place: "place E i slot t1 = (b, t2)"
  shows "table_rel E heap_ok items stack t2 (m(i \<mapsto> (v, dg)))" "tb_dict t2 = tb_dict t" "heap_budget n (tb_arena t2)"
proof -
  let ?b = "rec_body r" and ?hl = "head_len_for i"
  note i = rec_for_id [OF rec]
  then have dg: "length dg = 32" by simp
  have held: "held stack (tb_dict t) v ?b" using rec by (cases r) auto
  let ?rec = "whole_head i dg (record_rv v) (of_nat ?hl) (of_nat (length ?b)) @ ?b"
  have rec': "relink_head (written_head rel r) (of_nat ?hl) [] @ ?b = ?rec"
    using written_head_eq [OF rec] relink_whole_head [OF dg] by simp
  have len: "length ?rec = ?hl + length ?b" using length_whole_head [OF dg] by simp
  obtain s a' where a': "heap_append ?rec (tb_arena t) = (s, a')" by fastforce
  with app have t1: "slot = s\<lparr>sp_len := of_nat ?hl\<rparr>" "t1 = t\<lparr>tb_arena := a'\<rparr>"
    unfolding rec' by (simp_all add: append_record_def heap_env heap_ops_def)
  have ar: "ar_append (te_arena E) ?rec (tb_arena t) = (s, a')" using a' by (simp add: heap_env heap_ops_def)
  have room: "heap_room ?rec (tb_arena t)" using budget_room [of ?rec n] budget small by (simp only: len)
  have ok: "heap_ok (tb_arena t)" and sl: "slots_rel E stack (tb_dict t) (tb_arena t) (items (tb_index t)) m"
    and d: "dict_ok (tb_dict t)" using rel by (simp_all add: table_rel_def)
  have row: "row_at E stack (tb_dict t) a' slot i v dg"
    unfolding t1 by (rule row_at_new [OF ok room ar dg _ held _ len]) (use i in \<open>simp_all add: whole_head_eq\<close>)
  have rel1: "table_rel E heap_ok items stack t1 m"
    using slots_rel_append [OF sl ok room ar dict_le_refl] append_ok [OF ok room ar] d by (simp add: table_rel_def t1)
  show "table_rel E heap_ok items stack t2 (m(i \<mapsto> (v, dg)))"
    by (rule place_rel(1) [OF rel1 _ place]) (use row in \<open>simp add: t1\<close>)
  show "tb_dict t2 = tb_dict t" using place_dict [OF place] by (simp add: t1)
  have "heap_budget n a'" using budget_append [OF _ a', of n] budget by (simp only: len)
  then show "heap_budget n (tb_arena t2)" using budget_place [OF place] by (simp add: t1)
qed

text \<open>Where an absorption stands: the table holds \<open>m\<close>, the hash folded into \<open>x\<close> is that of \<open>m\<close>, and
  the arena has room for \<open>n\<close> more bytes.\<close>

definition absorbing :: "nat \<Rightarrow> field_dict \<Rightarrow> digest \<Rightarrow> nat \<Rightarrow> absorbed \<Rightarrow> 'h heap_table \<Rightarrow> (string \<rightharpoonup> value \<times> digest) \<Rightarrow> bool" where
  "absorbing stack d x n out t m \<longleftrightarrow>
     table_rel E heap_ok items stack t m \<and> tb_dict t = d \<and> heap_budget n (tb_arena t)
     \<and> length (ab_xor out) = 32 \<and> sums_to m (xor_digest x (ab_xor out))"

lemma without_mix:
  assumes "table_rel E heap_ok items stack t m" "length x = 32" "length y = 32"
  shows "xor_digest x (without m i y) = without m i (xor_digest x y)" "length (without m i y) = 32"
proof -
  have "length dg = 32" if "m i = Some (v, dg)" for v dg using rel_digests [OF assms(1)] that by (auto simp: digests_32_def)
  then have "xor_digest x (without m i y) = without m i (xor_digest x y) \<and> length (without m i y) = 32"
    using assms(2,3) xd.xor_assoc [of x y] xd.xor_closed [of y] by (auto simp: without_def split: option.split)
  then show "xor_digest x (without m i y) = without m i (xor_digest x y)" "length (without m i y) = 32" by blast+
qed

lemma absorb_tombstone:
  assumes st: "absorbing stack d x n out t m" and x: "length x = 32"
  obtains out' t' where "absorbing stack d x n out' t' (m(i := None))"
    "(case tb_digest_of E t i of
        Some old \<Rightarrow> f (out\<lparr>ab_xor := xor_digest (ab_xor out) old, ab_tombstones := ab_tombstones out + 1\<rparr>) (snd (remove_slot E i t))
      | None \<Rightarrow> f (out\<lparr>ab_tombstones_absent := ab_tombstones_absent out + 1\<rparr>) t) = f out' t'"
proof -
  from st have rel: "table_rel E heap_ok items stack t m" and len: "length (ab_xor out) = 32"
    and sum: "sums_to m (xor_digest x (ab_xor out))" by (simp_all add: absorbing_def)
  note dig = reads_rel(2) [OF rel, of i]
  note mix = without_mix [OF rel x len, of i] sums_to_without [OF sum rel_digests [OF rel], of i]
  show thesis
  proof (cases "m i")
    case None
    then have "m(i := None) = m" by auto
    with that [of "out\<lparr>ab_tombstones_absent := ab_tombstones_absent out + 1\<rparr>" t] st dig None show thesis
      by (simp add: absorbing_def)
  next
    case (Some r)
    obtain b t' where rem: "remove_slot E i t = (b, t')" by fastforce
    let ?out = "out\<lparr>ab_xor := xor_digest (ab_xor out) (snd r), ab_tombstones := ab_tombstones out + 1\<rparr>"
    have "ab_xor ?out = without m i (ab_xor out)" using Some by (simp add: without_def split: prod.split)
    then have "absorbing stack d x n ?out t' (m(i := None))"
      using st remove_slot_rel(1) [OF rel rem] remove_slot_dict [OF rem] budget_remove [OF rem] mix
      by (simp add: absorbing_def)
    with that [of ?out t'] dig Some rem show thesis by simp
  qed
qed

lemma absorb_row:
  assumes st: "absorbing stack d x (head_len_for i + length (rec_body r) + n) out t m" and x: "length x = 32"
    and rec: "rec_for stack d r (i, Some (v, dg))" and small: "head_len_for i + length (rec_body r) < 2 ^ 32"
    and app: "append_record E (relink_head (written_head rel r) (of_nat (head_len_for i)) [] @ rec_body r) (head_len_for i) t = (slot, t1)"
  shows "absorbing stack d x n (out\<lparr>ab_xor := xor_digest (replaced_xor E t i (ab_xor out)) dg, ab_upserts := u\<rparr>)
           (snd (place E i slot t1)) (m(i \<mapsto> (v, dg)))"
proof -
  from st have rel: "table_rel E heap_ok items stack t m" and len: "length (ab_xor out) = 32" and d: "tb_dict t = d"
    and sum: "sums_to m (xor_digest x (ab_xor out))" and b: "heap_budget (head_len_for i + length (rec_body r) + n) (tb_arena t)"
    by (simp_all add: absorbing_def)
  have rep: "replaced_xor E t i y = without m i y" for y
    using reads_rel(2) [OF rel, of i] by (simp add: replaced_xor_def without_def split: option.split)
  have dg: "length dg = 32" using rec_for_id [OF rec] by simp
  note mix = without_mix [OF rel x len, of i]
  have "xor_digest x (xor_digest (without m i (ab_xor out)) dg) = xor_digest (without m i (xor_digest x (ab_xor out))) dg"
    using xd.xor_assoc [of x "without m i (ab_xor out)" dg] mix x dg by simp
  with sums_to_put [OF sum rel_digests [OF rel] dg, of i v]
  have sum': "sums_to (m(i \<mapsto> (v, dg))) (xor_digest x (xor_digest (without m i (ab_xor out)) dg))" by simp
  have len': "length (xor_digest (without m i (ab_xor out)) dg) = 32"
    using xd.xor_closed [of "without m i (ab_xor out)" dg] mix(2) dg by simp
  obtain b' t2 where pl: "place E i slot t1 = (b', t2)" by fastforce
  from copy_row [OF rel rec [folded d] small b app pl] pl sum' len' d show ?thesis by (simp add: absorbing_def rep)
qed

lemma absorb_step:
  assumes st: "absorbing stack d x (head_len_for i + length (rec_body r) + k) out t m" and x: "length x = 32"
    and rec: "rec_for stack d r (i, vd)" and a: "at_offset block at (written_head (nb - at) r @ rest)"
    and b: "at_offset block nb (rec_body r @ rest')"
    and fits: "at + head_len_for i \<le> heads_end" "nb + length (rec_body r) \<le> bodies_end" "at + head_len_for i \<le> nb" "bodies_end < 2 ^ 32"
  obtains out' t' where "absorbing stack d x k out' t' (m(i := vd))"
    "absorb_loop E block heads_end bodies_end CopyRecords (Suc l) n at nb out t =
     absorb_loop E block heads_end bodies_end CopyRecords l (n + 1) (at + head_len_for i) (nb + length (rec_body r)) out' t'"
proof -
  let ?wh = "written_head (nb - at) r" and ?b = "rec_body r"
  note i = rec_for_id [OF rec]
  let ?dg = "written_digest (i, vd)" and ?rel = "if vd = None then 0 else of_nat (nb - at) :: u32"
  have wh: "?wh = whole_head i ?dg (written_rv (i, vd)) ?rel (of_nat (length ?b))" by (rule written_head_eq [OF rec])
  have walk: "walk_head block heads_end n at = Inr (head_len_for i, ?wh, i, ?dg, ?rel, of_nat (length ?b))"
    using walk_whole_head [OF a [unfolded wh], of heads_end n] i fits(1) by (simp only: wh)
  have lh: "length ?wh = head_len_for i" using length_whole_head i by (simp add: wh)
  let ?loop = "absorb_loop E block heads_end bodies_end CopyRecords l (n + 1) (at + head_len_for i) (nb + length ?b)"
  show thesis
  proof (cases vd)
    case None
    then have nil: "?b = []" using i by simp
    with st have st': "absorbing stack d x k out t m" by (simp add: absorbing_def heap_budget_def)
    let ?loop0 = "absorb_loop E block heads_end bodies_end CopyRecords l (n + 1) (at + head_len_for i) nb"
    obtain out' t' where "absorbing stack d x k out' t' (m(i := None))"
      "(case tb_digest_of E t i of
        Some old \<Rightarrow> ?loop0 (out\<lparr>ab_xor := xor_digest (ab_xor out) old, ab_tombstones := ab_tombstones out + 1\<rparr>) (snd (remove_slot E i t))
      | None \<Rightarrow> ?loop0 (out\<lparr>ab_tombstones_absent := ab_tombstones_absent out + 1\<rparr>) t) = ?loop0 out' t'"
      by (rule absorb_tombstone [OF st' x])
    with that [of out' t'] walk None nil show thesis by (simp add: wh)
  next
    case (Some r')
    obtain v dg where vd: "vd = Some (v, dg)" using Some by (cases r') simp
    have u: "unat (of_nat (nb - at) :: u32) = nb - at" "unat (of_nat (length ?b) :: u32) = length ?b"
      using fits i by (simp_all add: unat_of_nat del: of_nat_diff)
    have len: "of_nat (length ?b) \<noteq> (0 :: u32)" using u(2) i vd by (metis length_0_conv option.distinct(1) unat_0)
    have guard: "\<not> nb - at < head_len_for i" "at + (nb - at) = nb" using fits by simp_all
    have body: "take (length ?b) (drop nb block) = ?b" using b by (simp add: at_offset_def)
    obtain slot t1 where app: "append_record E (relink_head ?wh (of_nat (head_len_for i)) [] @ ?b) (head_len_for i) t = (slot, t1)"
      by fastforce
    have "absorb_slot E block CopyRecords at nb ?wh (of_nat (length ?b)) t = (slot, t1)"
      using app body by (simp add: absorb_slot_def lh u)
    with walk vd len guard fits(2) have "absorb_loop E block heads_end bodies_end CopyRecords (Suc l) n at nb out t =
        ?loop (out\<lparr>ab_xor := xor_digest (replaced_xor E t i (ab_xor out)) dg, ab_upserts := ab_upserts out + 1\<rparr>) (snd (place E i slot t1))"
      by (simp add: u Let_def del: of_nat_diff)
    with that absorb_row [OF st x rec [unfolded vd] _ app] fits vd show thesis by fastforce
  qed
qed

lemma absorb_loop_spec:
  assumes "list_all2 (rec_for stack d) recs cs" and "length x = 32"
    and "at_offset block at (write_heads at nb recs @ rest)" "at_offset block nb (concat (map rec_body recs) @ rest')"
    and "heads_end = at + length (write_heads at nb recs)" "bodies_end = nb + length (concat (map rec_body recs))"
    and "heads_end \<le> nb" "bodies_end < 2 ^ 32"
    and "absorbing stack d x (length (write_heads at nb recs) + length (concat (map rec_body recs)) + k) out t m"
  shows "\<exists>out' t'. absorb_loop E block heads_end bodies_end CopyRecords (length recs) n at nb out t = (Inr out', t')
     \<and> absorbing stack d x k out' t' (apply_changes cs m)"
  using assms(1,3-)
proof (induction recs cs arbitrary: n at nb out t m rule: list_all2_induct)
  case (Cons r recs c cs)
  obtain i vd where c: "c = (i, vd)" by (cases c)
  have rec: "rec_for stack d r (i, vd)" using Cons.hyps(1) c by simp
  let ?b = "rec_body r" and ?wh = "written_head (nb - at) r"
  have lh: "length ?wh = head_len_for i"
    using length_whole_head rec_for_id [OF rec] by (simp add: written_head_eq [OF rec])
  have heads: "write_heads at nb (r # recs) = ?wh @ write_heads (at + head_len_for i) (nb + length ?b) recs"
    by (simp add: Let_def lh)
  let ?hs = "write_heads (at + head_len_for i) (nb + length ?b) recs" and ?bs = "concat (map rec_body recs)"
  have a: "at_offset block at (?wh @ ?hs @ rest)" and b: "at_offset block nb (?b @ ?bs @ rest')"
    using Cons.prems(1,2) unfolding heads by simp_all
  have st: "absorbing stack d x (head_len_for i + length ?b + (length ?hs + length ?bs + k)) out t m"
    using Cons.prems(7) unfolding heads by (simp add: lh ac_simps)
  have fits: "at + head_len_for i \<le> heads_end" "nb + length ?b \<le> bodies_end" "at + head_len_for i \<le> nb"
    using Cons.prems(3,4,5) unfolding heads by (simp_all add: lh)
  obtain out1 t1 where step: "absorbing stack d x (length ?hs + length ?bs + k) out1 t1 (m(i := vd))"
    "absorb_loop E block heads_end bodies_end CopyRecords (Suc (length recs)) n at nb out t =
     absorb_loop E block heads_end bodies_end CopyRecords (length recs) (n + 1) (at + head_len_for i) (nb + length ?b) out1 t1"
    by (rule absorb_step [OF st assms(2) rec a b fits Cons.prems(6)])
  have "\<exists>out' t'. absorb_loop E block heads_end bodies_end CopyRecords (length recs) (n + 1) (at + head_len_for i) (nb + length ?b) out1 t1
      = (Inr out', t') \<and> absorbing stack d x k out' t' (apply_changes cs (m(i := vd)))"
  proof (rule Cons.IH [OF _ _ _ _ _ _ step(1)])
    show "at_offset block (at + head_len_for i) (?hs @ rest)" using at_offset_skip [OF a] by (simp add: lh)
    show "at_offset block (nb + length ?b) (?bs @ rest')" using at_offset_skip [OF b] .
  qed (use Cons.prems(3-6) [unfolded heads] lh in auto)
  then show ?case using step(2) c by (simp only: list.size(4) apply_changes_simps One_nat_def add_Suc_right add_0_right)
qed simp

end

end
