(* ===== verification/Image_History.thy ===== *)
theory Image_History
  imports Image_Chain
begin

section \<open>Chains of checkpoints over a table's history\<close>

text \<open>
  A base image and the deltas written after it, with writes and deletes of rows in between and also
  between reading the rows for a file and declaring the file persisted, load back to the table as it
  was when the last file was written.
\<close>

subsection \<open>One written delta\<close>

lemma prefix_zip: "prefix xs ys \<Longrightarrow> list_all (\<lambda>(a, b). a = b) (zip ys xs)"
  by (auto simp: prefix_def zip_append1 list_all_iff in_set_zip)

lemma extend_dict_loop_ok:
  "dict_ok d \<Longrightarrow> distinct (fd_names d @ names) \<Longrightarrow> length (fd_names d @ names) \<le> 2 ^ 32 \<Longrightarrow>
   \<exists>d'. extend_dict_loop names d = (True, d') \<and> dict_ok d' \<and> fd_names d' = fd_names d @ names"
proof (induction names arbitrary: d)
  case (Cons s names)
  from Cons.prems obtain d1 where d1: "intern s d = (of_nat (length (fd_names d)), d1)" "dict_ok d1" "fd_names d1 = fd_names d @ [s]"
    using intern_new [of d s] by auto
  with Cons.IH [of d1] Cons.prems show ?case by simp
qed simp

context row_tables
begin

lemma slots_rel_dict: "slots_rel E stack d a L m \<Longrightarrow> dict_le d d' \<Longrightarrow> slots_rel E stack d' a L m"
proof -
  assume s: "slots_rel E stack d a L m" "dict_le d d'"
  have "row_at E stack d' a sl i v dg" if "row_at E stack d a sl i v dg" for sl i v dg
    using that held_mono [OF _ s(2)] by (auto simp: row_at_def Let_def)
  with s(1) show ?thesis unfolding slots_rel_def by blast
qed

lemma sums_to_unique: "table_rel E ok items stack t m \<Longrightarrow> sums_to m x \<Longrightarrow> sums_to m y \<Longrightarrow> x = y"
  using rel_digests sums_to_list unfolding sums_to_def by metis

end

context heap_images
begin

text \<open>Where a load stands after some files of a chain.\<close>

definition loaded :: "nat \<Rightarrow> nat \<Rightarrow> string \<Rightarrow> u64 \<Rightarrow> u32 \<Rightarrow> chain \<Rightarrow> 'h heap_table \<times> digest \<Rightarrow> (string \<rightharpoonup> value \<times> digest) \<Rightarrow> bool" where
  "loaded stack n name image_id seq ch st m \<longleftrightarrow>
     (case st of (t, x) \<Rightarrow>
        table_rel E heap_ok items stack t m \<and> sums_to m x \<and> heap_budget n (tb_arena t)
        \<and> ch = \<lparr>ch_name = name, ch_image_id = image_id, ch_seq = seq, ch_xor = x, ch_field_names = fd_names (tb_dict t)\<rparr>)"

lemma absorb_written:
  assumes rel: "table_rel E heap_ok items stack t m" and sum: "sums_to m x" and budget: "heap_budget (length bs + n) (tb_arena t)"
    and recs: "list_all2 (rec_for stack (tb_dict t)) recs cs" and e: "codec_ok e" and hdr: "header_ok hdr"
    and w: "write_image e hdr recs = Inr (bs, wr)"
    and im: "parse_header bs = Inr im"
    and sum': "sums_to (apply_changes cs m) (ih_catchup_xor hdr)"
  obtains ab t' where "absorb E bs (im_heads im) (im_bodies im) (im_rows im) CopyRecords t = (Inr ab, t')"
    "xor_digest x (ab_xor ab) = ih_catchup_xor hdr" "table_rel E heap_ok items stack t' (apply_changes cs m)"
    "tb_dict t' = tb_dict t" "heap_budget n (tb_arena t')"
proof -
  obtain pre heads bodies where lay: "heads = write_heads (length pre) (length pre + length heads) recs"
    "bodies = concat (map rec_body recs)" "bs = pre @ heads @ bodies @ b3 e (pre @ heads) @ b3 e bodies"
    and small: "length pre + length heads + length bodies < 2 ^ 32" and hl: "length heads = sum_list (map rec_head_len recs)"
    and ph: "parse_header bs = Inr (written_header hdr (length recs) (length pre) (length heads) (length bodies) (b3 e bodies))"
    by (rule write_image_layout [OF w e hdr recs_ok [OF recs]])
  have off: "at_offset bs (length pre) (write_heads (length pre) (length pre + length heads) recs @ bodies @ b3 e (pre @ heads) @ b3 e bodies)"
    "at_offset bs (length pre + length heads) (concat (map rec_body recs) @ b3 e (pre @ heads) @ b3 e bodies)"
    using lay small b3_length [OF e] by (simp_all add: at_offset_def)
  let ?out = "\<lparr>ab_xor = xor_empty, ab_upserts = 0, ab_tombstones = 0, ab_tombstones_absent = 0\<rparr>"
  have x: "length x = 32" by (rule sums_to_length [OF sum rel_digests [OF rel]])
  have "length (write_heads (length pre) (length pre + length heads) recs) + length (concat (map rec_body recs)) + n \<le> length bs + n"
    using lay by simp
  then have start: "absorbing stack (tb_dict t) x (length (write_heads (length pre) (length pre + length heads) recs)
      + length (concat (map rec_body recs)) + n) ?out t m"
    using rel sum budget x xd.xor_zero [of x] by (simp add: absorbing_def heap_budget_def xor_empty_def)
  obtain ab t' where loop: "absorb_loop E bs (length pre + length heads) (length pre + length heads + length bodies) CopyRecords
      (length recs) 0 (length pre) (length pre + length heads) ?out t = (Inr ab, t')"
    and fin: "absorbing stack (tb_dict t) x n ab t' (apply_changes cs m)"
    using absorb_loop_spec [OF recs x off _ _ _ _ start, of "length pre + length heads" "length pre + length heads + length bodies" 0] lay small by auto
  have "absorb E bs (im_heads im) (im_bodies im) (im_rows im) CopyRecords t = (Inr ab, t')"
    using regions_ok [OF recs hl small lay(3)] loop ph im by (simp add: absorb_def written_header_def)
  then show thesis using that fin sums_to_unique [of stack t' "apply_changes cs m"] sum' by (auto simp: absorbing_def)
qed

lemma load_delta:
  assumes st: "loaded stack (length bs + n) name image_id seq ch (t, x) m"
    and recs: "list_all2 (rec_for stack d) recs cs" and d: "dict_ok d" "prefix (fd_names (tb_dict t)) (fd_names d)"
    and e: "codec_ok e" and hdr: "header_ok hdr" and w: "write_image e hdr recs = Inr (bs, wr)"
    and hd: "ih_name hdr = name" "ih_image_id hdr = image_id" "ih_seq hdr = seq + 1" "ih_prev_xor hdr = x" "ih_field_names hdr = fd_names d"
    and sum': "sums_to (apply_changes cs m) (ih_catchup_xor hdr)"
  obtains ch' t' where "absorb_file e E bs ch (t, x) = (Inr (ch', seq + 1), t', ih_catchup_xor hdr)"
    "loaded stack n name image_id (seq + 1) ch' (t', ih_catchup_xor hdr) (apply_changes cs m)" "fd_names (tb_dict t') = fd_names d"
proof -
  from st have rel: "table_rel E heap_ok items stack t m" and sum: "sums_to m x" and budget: "heap_budget (length bs + n) (tb_arena t)"
    and ch: "ch = \<lparr>ch_name = name, ch_image_id = image_id, ch_seq = seq, ch_xor = x, ch_field_names = fd_names (tb_dict t)\<rparr>"
    by (simp_all add: loaded_def)
  obtain pre heads bodies where bs: "bs = pre @ heads @ bodies @ b3 e (pre @ heads) @ b3 e bodies"
    and id: "parse_identity bs = Inr \<lparr>ii_format = image_format, ii_record_format = record_format,
       ii_image_id = ih_image_id hdr, ii_seq = ih_seq hdr\<rparr>"
    and ph: "parse_header bs = Inr (written_header hdr (length recs) (length pre) (length heads) (length bodies) (b3 e bodies))"
    by (rule write_image_layout [OF w e hdr recs_ok [OF recs]])
  define im where "im = written_header hdr (length recs) (length pre) (length heads) (length bodies) (b3 e bodies)"
  note ok = checksums_ok [OF bs e im_def]
  have check: "chain_check e ch bs = Inr im"
    using id ph ok(1) prefix_zip [OF d(2)] prefix_length_le [OF d(2)]
    by (simp add: chain_check_def parse_image_def im_def written_header_def ch hd)
  obtain more_names where more: "fd_names d = fd_names (tb_dict t) @ more_names" using d(2) by (auto simp: prefix_def)
  have dt: "dict_ok (tb_dict t)" using rel by (simp add: table_rel_def)
  have "distinct (fd_names (tb_dict t) @ more_names)" "length (fd_names (tb_dict t) @ more_names) \<le> 2 ^ 32"
    using d(1) by (simp_all add: dict_ok_def more)
  from extend_dict_loop_ok [OF dt this] obtain d' where
    d': "extend_dict_loop more_names (tb_dict t) = (True, d')" "dict_ok d'" "fd_names d' = fd_names d" by (auto simp: more)
  let ?t1 = "t\<lparr>tb_dict := d'\<rparr>"
  have ext: "extend_dict (drop (length (fd_names (tb_dict t))) (im_field_names im)) t = (True, ?t1)"
    using d'(1) by (simp add: extend_dict_def im_def written_header_def hd more)
  have rel1: "table_rel E heap_ok items stack ?t1 m"
    using rel slots_rel_dict [of stack "tb_dict t" _ _ m d'] d' d(2) by (auto simp: table_rel_def dict_le_def)
  have recs1: "list_all2 (rec_for stack (tb_dict ?t1)) recs cs"
    using recs_mono [OF recs] d'(3) by (simp add: dict_le_def)
  have "heap_budget (length bs + n) (tb_arena ?t1)" using budget by simp
  from absorb_written [OF rel1 sum this recs1 e hdr w ph [folded im_def] sum'] obtain ab t' where
    ab: "absorb E bs (im_heads im) (im_bodies im) (im_rows im) CopyRecords ?t1 = (Inr ab, t')"
    "xor_digest x (ab_xor ab) = ih_catchup_xor hdr" and fin: "table_rel E heap_ok items stack t' (apply_changes cs m)"
    "tb_dict t' = d'" "heap_budget n (tb_arena t')" by auto
  have "absorb_file e E bs ch (t, x) = (Inr (chain_advance im ch, seq + 1), t', ih_catchup_xor hdr)"
    using check ok(2) ext ab by (simp add: absorb_file_def absorb_delta_def im_def written_header_def hd)
  then show thesis
    by (rule that) (use fin sum' d'(3) hd in \<open>simp_all add: loaded_def chain_advance_def ch im_def written_header_def\<close>)
qed

end

subsection \<open>What a delta carries\<close>

definition id_ok :: "string \<Rightarrow> bool" where
  "id_ok i \<longleftrightarrow> length i < 2 ^ 32 \<and> utf8_ok (str_as_bytes i)"

lemma map_filter_unless:
  "List.map_filter (\<lambda>x. if P x then None else f x) xs = List.map_filter f (filter (\<lambda>x. \<not> P x) xs)"
  by (induction xs) (simp_all add: List.map_filter_def)

lemma set_map_fstD: "i \<in> set (map fst xs) \<Longrightarrow> \<exists>v. (i, v) \<in> set xs"
  by force

lemma pending_loop_distinct: "distinct (pending_loop live seen is)"
  by (induction live seen "is" rule: pending_loop.induct) (auto simp: set_pending_loop)

context row_tables
begin

lemma delta_changes:
  assumes rel: "table_rel E ok items stack t m" and cov: "covers E c 0 t m m0" and per: "tb_persisted t = Some c"
    and ids: "list_all id_ok (tb_tombstones t)"
  obtains cs where "list_all2 (rec_for stack (tb_dict t))
      (map (\<lambda>(head, body). Row head body) (records_since_persisted E t) @ map Tombstone (tombstones_pending E t)) cs"
    "apply_changes cs m0 = m"
proof -
  let ?L = "filter (\<lambda>s. \<not> cursor_less (span_start s) c) (ht_iter (te_index E) (tb_index t))"
  let ?rows = "map (slot_change t m) ?L" and ?gone = "map (\<lambda>i. (i, None)) (tombstones_pending E t) :: row_change list"
  have recs: "records_since_persisted E t = List.map_filter (slot_record E (tb_arena t)) ?L"
    by (simp add: records_since_persisted_def per map_filter_unless)
  note delta = delta_spec [OF rel cov per]
  have pend: "set (tombstones_pending E t) \<subseteq> set (tb_tombstones t)" by (auto simp: tombstones_pending_def set_pending_loop)
  have "list_all2 (rec_for stack (tb_dict t)) (map Tombstone (tombstones_pending E t)) ?gone"
    using pend ids by (auto simp: list_all2_map1 list_all2_map2 list_all2_same list_all_iff id_ok_def)
  moreover have "list_all2 (rec_for stack (tb_dict t)) (map (\<lambda>(head, body). Row head body) (records_since_persisted E t)) ?rows"
    unfolding recs by (rule record_changes [OF rel]) auto
  ultimately have all: "list_all2 (rec_for stack (tb_dict t))
      (map (\<lambda>(head, body). Row head body) (records_since_persisted E t) @ map Tombstone (tombstones_pending E t)) (?rows @ ?gone)"
    by (rule list_all2_appendI [rotated])
  have rows: "vd \<noteq> None \<and> m i = vd" if "(i, vd) \<in> set ?rows" for i vd using changes_distinct(2) [OF rel refl that] .
  have gone: "map fst ?gone = tombstones_pending E t" by (simp add: comp_def)
  have dist: "distinct (map fst (?rows @ ?gone))"
  proof -
    have "i \<notin> set (tombstones_pending E t)" if "i \<in> set (map fst ?rows)" for i
    proof -
      from set_map_fstD [OF that] obtain vd where "(i, vd) \<in> set ?rows" ..
      then have "i \<in> dom m" using rows by blast
      then show ?thesis using delta(3) by blast
    qed
    moreover have "distinct (tombstones_pending E t)" by (simp add: tombstones_pending_def pending_loop_distinct)
    ultimately show ?thesis
      unfolding map_append distinct_append gone using changes_distinct(1) [OF rel refl] by (metis disjoint_iff)
  qed
  have "apply_changes (?rows @ ?gone) m0 i = m i" for i
  proof (cases "map_of (?rows @ ?gone) i")
    case None
    then have "i \<notin> set (map fst (?rows @ ?gone))" by (simp only: map_of_eq_None_iff set_map not_False_eq_True)
    then have out: "i \<notin> fst ` set ?rows" "i \<notin> set (tombstones_pending E t)" unfolding map_append gone by (simp_all add: image_image)
    have "head_id head \<noteq> Some i" if rec: "(head, body) \<in> set (records_since_persisted E t)" for head body
    proof
      assume "head_id head = Some i"
      moreover from rec obtain s where "s \<in> set ?L" "slot_record E (tb_arena t) s = Some (head, body)"
        unfolding recs by (auto simp: set_map_filter)
      ultimately have "s \<in> set ?L" "fst (slot_change t m s) = i"
        by (auto simp: slot_change_def slot_id_def slot_record_def Let_def split: if_splits)
      with out(1) show False by force
    qed
    with delta(2) [of i] out(2) show ?thesis unfolding apply_changes_lookup [OF dist] None by simp
  next
    case (Some vd)
    then have "(i, vd) \<in> set ?rows \<or> vd = None \<and> i \<in> set (tombstones_pending E t)" using map_of_SomeD [OF Some] by auto
    then have "m i = vd" using rows delta(3) by auto
    then show ?thesis unfolding apply_changes_lookup [OF dist] Some by simp
  qed
  then show thesis using that [OF all] by blast
qed

end

subsection \<open>A table and its hash under writes and deletes\<close>

text \<open>The catch-up hash follows the rows: what a write replaces or a delete removes is folded out, what
  is written is folded in.\<close>

definition coll_step :: "('a, 'h) table_env \<Rightarrow> table_op \<Rightarrow> ('a, 'h) stored_table \<Rightarrow> ('a, 'h) stored_table" where
  "coll_step E op c =
     c\<lparr>st_rows := table_step E op (st_rows c),
       st_catchup_xor :=
         (case op of
            Put i v dg \<Rightarrow> xor_digest (replaced_xor E (st_rows c) i (st_catchup_xor c)) dg
          | Del i \<Rightarrow> replaced_xor E (st_rows c) i (st_catchup_xor c))\<rparr>"

fun run_coll :: "('a, 'h) table_env \<Rightarrow> table_op list \<Rightarrow> ('a, 'h) stored_table \<Rightarrow> ('a, 'h) stored_table" where
  "run_coll E [] c = c"
| "run_coll E (op # ops) c = run_coll E ops (coll_step E op c)"

text \<open>One checkpoint of a running server: the file is written, the writes of the meantime happen, the
  mark is set, more writes follow.\<close>

definition mark_round :: "('a, 'h) table_env \<Rightarrow> checkpoint_mark \<Rightarrow> table_op list \<times> table_op list
    \<Rightarrow> ('a, 'h) stored_table \<Rightarrow> ('a, 'h) stored_table" where
  "mark_round E mark round c =
     (case round of (during, after) \<Rightarrow>
        let c1 = run_coll E during c
        in run_coll E after (c1\<lparr>st_rows := snd (mark_persisted mark (st_rows c1))\<rparr>))"

fun write_rounds :: "codec \<Rightarrow> ('a, 'h) table_env \<Rightarrow> u64 \<Rightarrow> u32 \<Rightarrow> digest \<Rightarrow> (table_op list \<times> table_op list) list
    \<Rightarrow> ('a, 'h) stored_table \<Rightarrow> write_error + bytes list" where
  "write_rounds e E image_id seq prev [] c = Inr []"
| "write_rounds e E image_id seq prev (round # rounds) c =
     try_res (write_delta e E c image_id seq prev) (\<lambda>(bs, w).
     try_res (write_rounds e E image_id (seq + 1) (st_catchup_xor c) rounds (mark_round E (wr_mark w) round c)) (\<lambda>deltas.
       Inr (bs # deltas)))"

text \<open>The map a chain describes: the rows when its last file was written.\<close>

fun round_map :: "table_op list \<times> table_op list \<Rightarrow> (string \<rightharpoonup> value \<times> digest) \<Rightarrow> (string \<rightharpoonup> value \<times> digest)" where
  "round_map (during, after) m = run_map after (run_map during m)"

fun files_map :: "(table_op list \<times> table_op list) list \<Rightarrow> (string \<rightharpoonup> value \<times> digest) \<Rightarrow> (string \<rightharpoonup> value \<times> digest)
    \<Rightarrow> (string \<rightharpoonup> value \<times> digest)" where
  "files_map [] m files = files"
| "files_map (round # rounds) m files = files_map rounds (round_map round m) m"

text \<open>What the run needs: rows that fit, deletes that are logged, field names that are UTF-8.\<close>

definition names_ok :: "('a, 'h) stored_table \<Rightarrow> bool" where
  "names_ok c \<longleftrightarrow> utf8_ok (str_as_bytes (st_name c)) \<and> list_all (\<lambda>s. utf8_ok (str_as_bytes s)) (fd_names (tb_dict (st_rows c)))"

definition round_ok :: "('a, 'h) table_env \<Rightarrow> (bytes \<Rightarrow> 'a \<Rightarrow> bool) \<Rightarrow> nat \<Rightarrow> table_op list \<times> table_op list
    \<Rightarrow> ('a, 'h) stored_table \<Rightarrow> bool" where
  "round_ok E room stack round c =
     (case round of (during, after) \<Rightarrow>
        let t = st_rows c; t1 = run_table E during t; t2 = snd (mark_persisted (take_mark E t) t1)
        in names_ok c \<and> run_fits E room stack during t \<and> run_logged E during t
           \<and> run_fits E room stack after t2 \<and> run_logged E after t2)"

fun rounds_ok :: "('a, 'h) table_env \<Rightarrow> (bytes \<Rightarrow> 'a \<Rightarrow> bool) \<Rightarrow> nat \<Rightarrow> (table_op list \<times> table_op list) list
    \<Rightarrow> ('a, 'h) stored_table \<Rightarrow> bool" where
  "rounds_ok E room stack [] c = True"
| "rounds_ok E room stack (round # rounds) c =
     (round_ok E room stack round c \<and> rounds_ok E room stack rounds (mark_round E (take_mark E (st_rows c)) round c))"

lemma run_coll_rows: "st_rows (run_coll E ops c) = run_table E ops (st_rows c)" "st_name (run_coll E ops c) = st_name c"
  by (induction ops arbitrary: c) (simp_all add: coll_step_def)

context row_tables
begin

lemma replaced_without: "table_rel E ok items stack t m \<Longrightarrow> replaced_xor E t i x = without m i x"
  using reads_rel(2) [of stack t m i] by (auto simp: replaced_xor_def without_def split: option.split)

lemma step_sums:
  assumes rel: "table_rel E ok items stack (st_rows c) m" and fits: "op_fits E room stack op (st_rows c)"
    and sum: "sums_to m (st_catchup_xor c)"
  shows "sums_to (map_op op m) (st_catchup_xor (coll_step E op c))"
proof -
  have "length dg = 32" if "op = Put i v dg" for i v dg using fits that by (simp add: op_fits_def)
  then show ?thesis
    using sums_to_put [OF sum rel_digests [OF rel]] sums_to_without [OF sum rel_digests [OF rel]]
    by (cases op) (simp_all add: coll_step_def map_op_def replaced_without [OF rel])
qed

lemma run_sums:
  "table_rel E ok items stack (st_rows c) m \<Longrightarrow> run_fits E room stack ops (st_rows c) \<Longrightarrow> sums_to m (st_catchup_xor c) \<Longrightarrow>
   sums_to (run_map ops m) (st_catchup_xor (run_coll E ops c))"
proof (induction ops arbitrary: c m)
  case (Cons op ops)
  then have fits: "op_fits E room stack op (st_rows c)" by simp
  have rows: "st_rows (coll_step E op c) = table_step E op (st_rows c)" by (simp add: coll_step_def)
  have "table_rel E ok items stack (st_rows (coll_step E op c)) (map_op op m)"
    unfolding rows by (rule step_rel(1) [OF Cons.prems(1) fits])
  from Cons.IH [OF this _ step_sums [OF Cons.prems(1) fits Cons.prems(3)]] Cons.prems(2) show ?case by (simp add: rows)
qed simp

lemma step_tombstones:
  assumes rel: "table_rel E ok items stack t m" and ids: "list_all id_ok (tb_tombstones t)"
  shows "list_all id_ok (tb_tombstones (table_step E op t))"
proof (cases op)
  case (Put i v digest)
  then show ?thesis using ids
    by (auto simp: table_step_def tb_insert_def append_record_def place_def Let_def split: prod.splits option.splits)
next
  case (Del i)
  obtain found t1 where rem: "remove_slot E i t = (found, t1)" by fastforce
  note r = remove_slot_rel(2,5) [OF rel rem]
  have "id_ok i" if "found"
  proof -
    from that r(1) obtain v dg where "m i = Some (v, dg)" by auto
    from find_slot_rel(2) [OF rel this] show ?thesis by (auto simp: row_at_def Let_def id_ok_def)
  qed
  with ids r(2) Del show ?thesis by (auto simp: table_step_def tb_remove_eq [OF rem])
qed

lemma run_tombstones:
  "table_rel E ok items stack t m \<Longrightarrow> run_fits E room stack ops t \<Longrightarrow> list_all id_ok (tb_tombstones t) \<Longrightarrow>
   list_all id_ok (tb_tombstones (run_table E ops t))"
proof (induction ops arbitrary: t m)
  case (Cons op ops)
  then have fits: "op_fits E room stack op t" by simp
  from Cons.IH [OF step_rel(1) [OF Cons.prems(1) fits] _ step_tombstones [OF Cons.prems(1,3)]] Cons.prems(2) show ?case by simp
qed simp

text \<open>A server between two checkpoints: the table holds \<open>m\<close>, the files hold \<open>files\<close>, and the watermark
  and tombstones account for the difference.\<close>

definition recorded :: "nat \<Rightarrow> ('a, 'h) stored_table \<Rightarrow> (string \<rightharpoonup> value \<times> digest) \<Rightarrow> bool" where
  "recorded stack c m \<longleftrightarrow> table_rel E ok items stack (st_rows c) m \<and> sums_to m (st_catchup_xor c)
     \<and> list_all id_ok (tb_tombstones (st_rows c))"

definition serving :: "nat \<Rightarrow> ('a, 'h) stored_table \<Rightarrow> (string \<rightharpoonup> value \<times> digest) \<Rightarrow> (string \<rightharpoonup> value \<times> digest) \<Rightarrow> bool" where
  "serving stack c m files \<longleftrightarrow> recorded stack c m
     \<and> (\<exists>cur. tb_persisted (st_rows c) = Some cur \<and> covers E cur 0 (st_rows c) m files)"

lemma run_recorded:
  "recorded stack c m \<Longrightarrow> run_fits E room stack ops (st_rows c) \<Longrightarrow> recorded stack (run_coll E ops c) (run_map ops m)"
  unfolding recorded_def run_coll_rows using run_rel run_sums run_tombstones by blast

lemma list_all_drop: "list_all P xs \<Longrightarrow> list_all P (drop n xs)"
  by (auto simp: list_all_iff dest: in_set_dropD)

lemma round_serving:
  assumes rec: "recorded stack c m" and ok: "round_ok E room stack round c"
  shows "serving stack (mark_round E (take_mark E (st_rows c)) round c) (round_map round m) m"
proof -
  obtain during after where r: "round = (during, after)" by (cases round)
  define t0 where "t0 = st_rows c"
  define t1 where "t1 = run_table E during t0"
  define t2 where "t2 = snd (mark_persisted (take_mark E t0) t1)"
  define c1 where "c1 = run_coll E during c"
  let ?c2 = "c1\<lparr>st_rows := t2\<rparr>" and ?m1 = "run_map during m" and ?cur = "ar_end_cursor (te_arena E) (tb_arena t0)"
  from ok have fits: "run_fits E room stack during t0" "run_fits E room stack after t2"
    and log: "run_logged E during t0" "run_logged E after t2"
    by (simp_all add: round_ok_def r t0_def t1_def t2_def Let_def)
  have rel0: "table_rel E ok items stack t0 m" using rec by (simp add: recorded_def t0_def)
  have rec1: "recorded stack c1 ?m1" unfolding c1_def by (rule run_recorded [OF rec fits(1) [unfolded t0_def]])
  have rows1: "st_rows c1 = t1" by (simp add: c1_def t1_def t0_def run_coll_rows)
  have ep: "tb_epoch t1 = tb_epoch t0" unfolding t1_def using run_rel [OF rel0 fits(1)] by blast
  have cov1: "covers E ?cur (length (tb_tombstones t0)) t1 ?m1 m"
    unfolding t1_def by (rule covers_run [OF rel0 fits(1) log(1) covers_start [OF rel0]])
  have t2: "t2 = t1\<lparr>tb_persisted := Some ?cur,
      tb_tombstones := drop (min (length (tb_tombstones t0)) (length (tb_tombstones t1))) (tb_tombstones t1)\<rparr>"
    using ep by (simp add: t2_def mark_persisted_def take_mark_def)
  have rec2: "recorded stack ?c2 ?m1" using rec1 rows1 by (simp add: recorded_def t2 list_all_drop)
  have cov2: "covers E ?cur 0 t2 ?m1 m" unfolding t2 by (rule covers_mark [OF cov1])
  have rel2: "table_rel E ok items stack t2 ?m1" using rec2 by (simp add: recorded_def)
  have rec3: "recorded stack (run_coll E after ?c2) (run_map after ?m1)" by (rule run_recorded [OF rec2]) (use fits(2) in simp)
  have "covers E ?cur 0 (run_table E after t2) (run_map after ?m1) m" by (rule covers_run [OF rel2 fits(2) log(2) cov2])
  moreover have "tb_persisted (run_table E after t2) = Some ?cur"
    using run_persisted [OF rel2 fits(2) log(2)] by (simp add: t2)
  moreover have "mark_round E (take_mark E (st_rows c)) round c = run_coll E after ?c2"
    by (simp add: mark_round_def r Let_def c1_def t2_def t1_def t0_def run_coll_rows)
  ultimately show ?thesis using rec3 by (simp add: serving_def r run_coll_rows)
qed

lemma step_dict: "dict_le (tb_dict t) (tb_dict (table_step E op t))"
proof (cases op)
  case (Put i v dg)
  obtain rec d hl where enc: "encode_record i v dg (tb_dict t) = (rec, d, hl)" by (metis prod_cases3)
  have "dict_le (tb_dict t) d"
    using enc encode_dict_le(1) [of "(tb_dict t, _)" v] by (auto simp: encode_record_def Let_def split: prod.splits) (metis fst_conv)
  moreover have "tb_dict (table_step E op t) = d"
    using Put enc by (auto simp: table_step_def tb_insert_def append_record_def place_dict [OF prod.collapse [symmetric]] split: prod.splits)
  ultimately show ?thesis by simp
next
  case (Del i)
  obtain found t1 where rem: "remove_slot E i t = (found, t1)" by fastforce
  from remove_slot_dict [OF this] Del show ?thesis by (simp add: table_step_def tb_remove_eq [OF rem])
qed

lemma run_dict: "dict_le (tb_dict t) (tb_dict (run_table E ops t))"
proof (induction ops arbitrary: t)
  case (Cons op ops)
  from dict_le_trans [OF step_dict Cons] show ?case by simp
qed simp

lemma round_dict: "dict_le (tb_dict (st_rows c)) (tb_dict (st_rows (mark_round E mark round c)))"
proof -
  obtain during after where r: "round = (during, after)" by (cases round)
  have "tb_dict (snd (mark_persisted mark t)) = tb_dict t" for t :: "('a, 'h) flat_table" by (simp add: mark_persisted_def)
  then show ?thesis using dict_le_trans [OF run_dict run_dict]
    by (simp add: mark_round_def r Let_def run_coll_rows) (metis dict_le_trans run_dict)
qed

end

subsection \<open>Loading the chain\<close>

context heap_images
begin

text \<open>The table a base image is read into.\<close>

definition base_table :: "u64 \<Rightarrow> bytes \<Rightarrow> 'h indexed \<Rightarrow> 'h heap_table" where
  "base_table epoch bs ix = from_parts epoch (xd_dict ix) (ix_index (xd_heads ix)) (heap_from_buf bs (ix_live (xd_heads ix)))"

lemma load_base:
  assumes rec: "recorded stack c m" and names: "names_ok c" and w: "write_collection e E c image_id = Inr (bs, w)"
    and e: "codec_ok e" and n: "n < 2 ^ 36"
  obtains im ix where "parse_identity bs = Inr \<lparr>ii_format = image_format, ii_record_format = record_format,
       ii_image_id = image_id, ii_seq = 0\<rparr>" "parse_header bs = Inr im" "index_parsed e E bs im = Inr ix"
    "bodies_verified e bs im" "im_seq im = 0" "xd_name ix = st_name c" "xd_image_id ix = image_id"
    "xd_stored_xor ix = st_catchup_xor c" "wr_mark w = take_mark E (st_rows c)"
    "loaded stack n (st_name c) image_id 0 (chain_from_base im) (base_table epoch bs ix, st_catchup_xor c) m"
    "dict_le (tb_dict (base_table epoch bs ix)) (tb_dict (st_rows c))"
proof -
  let ?hdr = "\<lparr>ih_name = st_name c, ih_image_id = image_id, ih_seq = 0, ih_catchup_xor = st_catchup_xor c,
     ih_prev_xor = xor_empty, ih_field_names = fd_names (tb_dict (st_rows c))\<rparr>"
  have rel: "table_rel E heap_ok items stack (st_rows c) m" and sum: "sums_to m (st_catchup_xor c)"
    using rec by (simp_all add: recorded_def)
  from w obtain w0 where wi: "write_image e ?hdr (map (\<lambda>(head, body). Row head body) (tb_records E (st_rows c))) = Inr (bs, w0)"
    and mark: "wr_mark w = take_mark E (st_rows c)"
    by (auto simp: write_collection_def Let_def elim!: try_res_InrE)
  have hdr: "header_ok ?hdr"
    using names sums_to_length [OF sum rel_digests [OF rel]] by (simp add: header_ok_def names_ok_def xor_empty_def)
  obtain im ix where ph: "parse_identity bs = Inr \<lparr>ii_format = image_format, ii_record_format = record_format,
       ii_image_id = ih_image_id ?hdr, ii_seq = 0\<rparr>" "parse_header bs = Inr im" "index_parsed e E bs im = Inr ix" "bodies_verified e bs im"
    and xd: "xd_name ix = ih_name ?hdr" "xd_image_id ix = ih_image_id ?hdr" "xd_stored_xor ix = ih_catchup_xor ?hdr"
      "fd_names (xd_dict ix) = fd_names (tb_dict (st_rows c))" "im_seq im = 0"
    and ch: "chain_from_base im = \<lparr>ch_name = ih_name ?hdr, ch_image_id = ih_image_id ?hdr, ch_seq = 0,
       ch_xor = ih_catchup_xor ?hdr, ch_field_names = fd_names (tb_dict (st_rows c))\<rparr>"
    and tr: "\<And>epoch. table_rel E heap_ok items stack (from_parts epoch (xd_dict ix) (ix_index (xd_heads ix))
       (heap_from_buf bs (ix_live (xd_heads ix)))) m"
    by (rule base_image_indexed [OF rel _ hdr _ _ e wi]) (simp_all add: sum)
  have t0: "tb_dict (base_table epoch bs ix) = xd_dict ix" "heap_budget n (tb_arena (base_table epoch bs ix))"
    using n by (simp_all add: base_table_def from_parts_def heap_budget_def heap_from_buf_def open_segments_def)
  show thesis
    by (rule that [of im ix]) (use ph xd ch tr [of epoch] sum t0 mark in \<open>simp_all add: loaded_def dict_le_def base_table_def [symmetric]\<close>)
qed

lemma load_round:
  assumes w: "write_delta e E c image_id (seq + 1) x = Inr (bs, wr)" and e: "codec_ok e"
    and srv: "serving stack c m files" and names: "names_ok c" "st_name c = name"
    and st: "loaded stack (length bs + n) name image_id seq ch (t, x) files"
    and d: "dict_le (tb_dict t) (tb_dict (st_rows c))"
  obtains ch' t' where "absorb_file e E bs ch (t, x) = (Inr (ch', seq + 1), t', st_catchup_xor c)"
    "loaded stack n name image_id (seq + 1) ch' (t', st_catchup_xor c) m"
    "dict_le (tb_dict t') (tb_dict (st_rows c))" "wr_mark wr = take_mark E (st_rows c)"
proof -
  let ?hdr = "\<lparr>ih_name = st_name c, ih_image_id = image_id, ih_seq = seq + 1, ih_catchup_xor = st_catchup_xor c,
     ih_prev_xor = x, ih_field_names = fd_names (tb_dict (st_rows c))\<rparr>"
  from srv obtain cur where rel: "table_rel E heap_ok items stack (st_rows c) m" and sum: "sums_to m (st_catchup_xor c)"
    and ids: "list_all id_ok (tb_tombstones (st_rows c))" and cur: "tb_persisted (st_rows c) = Some cur" "covers E cur 0 (st_rows c) m files"
    by (auto simp: serving_def recorded_def)
  from delta_changes [OF rel cur(2,1) ids] obtain cs where
    cs: "list_all2 (rec_for stack (tb_dict (st_rows c))) (map (\<lambda>(head, body). Row head body) (records_since_persisted E (st_rows c))
        @ map Tombstone (tombstones_pending E (st_rows c))) cs" "apply_changes cs files = m" .
  from w cur(1) obtain w0 where wi: "write_image e ?hdr (map (\<lambda>(head, body). Row head body) (records_since_persisted E (st_rows c))
        @ map Tombstone (tombstones_pending E (st_rows c))) = Inr (bs, w0)" and mark: "wr_mark wr = take_mark E (st_rows c)"
    by (auto simp: write_delta_def Let_def elim!: try_res_InrE split: if_splits)
  have relf: "table_rel E heap_ok items stack t files" "sums_to files x" using st by (simp_all add: loaded_def)
  have hdr: "header_ok ?hdr"
    using names sums_to_length [OF sum rel_digests [OF rel]] sums_to_length [OF relf(2) rel_digests [OF relf(1)]]
    by (simp add: header_ok_def names_ok_def)
  have dok: "dict_ok (tb_dict (st_rows c))" using rel by (simp add: table_rel_def)
  obtain ch' t' where fin: "absorb_file e E bs ch (t, x) = (Inr (ch', seq + 1), t', ih_catchup_xor ?hdr)"
    "loaded stack n name image_id (seq + 1) ch' (t', ih_catchup_xor ?hdr) (apply_changes cs files)"
    "fd_names (tb_dict t') = fd_names (tb_dict (st_rows c))"
    by (rule load_delta [OF st cs(1) dok _ e hdr wi]) (use d names(2) sum cs(2) in \<open>simp_all add: dict_le_def\<close>)
  show thesis by (rule that [of ch' t']) (use fin cs(2) mark in \<open>simp_all add: dict_le_def\<close>)
qed

lemma load_rounds:
  assumes "write_rounds e E image_id (seq + 1) x rounds c = Inr deltas" and "codec_ok e"
    and "rounds = [] \<or> serving stack c m files" and "rounds_ok E heap_room stack rounds c" "st_name c = name"
    and "loaded stack (sum_list (map length deltas)) name image_id seq ch (t, x) files"
    and "dict_le (tb_dict t) (tb_dict (st_rows c))"
  shows "\<exists>ch' t' x'. apply_all e E deltas ch (t, x) = Inr (ch', t', x')
     \<and> loaded stack 0 name image_id (seq + of_nat (length deltas)) ch' (t', x') (files_map rounds m files)"
  using assms
proof (induction rounds arbitrary: seq x c m files deltas ch t)
  case (Cons round rounds)
  from Cons.prems(1) obtain bs wr ds where w: "write_delta e E c image_id (seq + 1) x = Inr (bs, wr)"
    and ds: "write_rounds e E image_id (seq + 1 + 1) (st_catchup_xor c) rounds (mark_round E (wr_mark wr) round c) = Inr ds"
    and deltas: "deltas = bs # ds" by (auto elim!: try_res_InrE)
  have srv: "serving stack c m files" using Cons.prems(3) by simp
  have ok: "round_ok E heap_room stack round c"
    "rounds_ok E heap_room stack rounds (mark_round E (take_mark E (st_rows c)) round c)" using Cons.prems(4) by simp_all
  have names: "names_ok c" using ok(1) by (auto simp: round_ok_def Let_def split: prod.splits)
  have st: "loaded stack (length bs + sum_list (map length ds)) name image_id seq ch (t, x) files"
    using Cons.prems(6) deltas by simp
  from load_round [OF w Cons.prems(2) srv names Cons.prems(5) st Cons.prems(7)] obtain ch' t' where
    step: "absorb_file e E bs ch (t, x) = (Inr (ch', seq + 1), t', st_catchup_xor c)"
    "loaded stack (sum_list (map length ds)) name image_id (seq + 1) ch' (t', st_catchup_xor c) m"
    "dict_le (tb_dict t') (tb_dict (st_rows c))" "wr_mark wr = take_mark E (st_rows c)" .
  let ?c = "mark_round E (take_mark E (st_rows c)) round c"
  have name: "st_name ?c = name"
    using Cons.prems(5) by (simp add: mark_round_def Let_def run_coll_rows split: prod.splits)
  have srv': "rounds = [] \<or> serving stack ?c (round_map round m) m"
    using round_serving [OF _ ok(1)] srv by (simp add: serving_def)
  note IH = Cons.IH [OF ds [unfolded step(4)] Cons.prems(2) srv' ok(2) name step(2) dict_le_trans [OF step(3) round_dict]]
  then show ?case using step(1) by (simp add: deltas ac_simps)
qed simp

end

interpretation heap_list_images: heap_images demo_env "\<lambda>t. t"
  using heap_table.row_tables_axioms by (simp add: heap_images_def heap_images_axioms_def) (simp add: demo_env_def)

lemma lawful_images:
  "te_arena E = heap_ops \<Longrightarrow> Table_Refinement.hash_table (te_index E) items \<Longrightarrow> heap_images E items"
  using heap_tables by (simp add: heap_images_def heap_images_axioms_def)

definition new_coll :: "'h heap_env \<Rightarrow> u64 \<Rightarrow> string \<Rightarrow> 'h heap_coll" where
  "new_coll E epoch name = \<lparr>st_name = name, st_rows = with_arena E epoch heap_new, st_catchup_xor = xor_empty\<rparr>"

lemma new_recorded:
  assumes E: "te_arena E = heap_ops" "Table_Refinement.hash_table (te_index E) items"
  shows "row_tables.recorded E heap_ok items stack (new_coll E epoch name) Map.empty"
proof -
  have "sums_to Map.empty xor_empty" by (simp add: sums_to_def)
  then show ?thesis
    using fresh_rel [OF E] unfolding row_tables.recorded_def [OF heap_tables [OF E]]
    by (simp add: new_coll_def with_arena_def from_parts_def)
qed

text \<open>
  C6. A checkpoint chain restores the table. A table runs through any writes and deletes, is written
  as a base image, and then checkpointed again and again: each time a delta is written, more writes
  and deletes happen while the file is flushed, the mark is set, and more follow. Loading the base
  and the deltas succeeds and gives the table as it was when the last of these files was written:
  every id reads its row, digest and version of that moment, and the hash is that of those rows.
\<close>

theorem checkpoint_chain_restores:
  assumes E: "te_arena E = heap_ops" "Table_Refinement.hash_table (te_index E) items" and e: "codec_ok e"
    and c0: "c0 = run_coll E ops (new_coll E epoch name)" and fits: "run_fits E heap_room stack ops (with_arena E epoch heap_new)"
    and base: "write_collection e E c0 image_id = Inr (bs, w)"
    and ok: "rounds_ok E heap_room stack (first # rounds) c0"
    and c1: "c1 = mark_round E (wr_mark w) first c0"
    and deltas: "write_rounds e E image_id 1 (st_catchup_xor c0) rounds c1 = Inr deltas"
    and size: "sum_list (map length deltas) < 2 ^ 36"
    and m: "m0 = run_map ops Map.empty" "files = files_map rounds (round_map first m0) m0"
  shows "\<exists>c ce. read_table_bytes e E epoch' bs deltas = Inr (c, ce)
    \<and> st_name c = name \<and> ce_image_id ce = image_id \<and> ce_seq ce = of_nat (length deltas)
    \<and> sums_to files (st_catchup_xor c) \<and> ce_xor ce = st_catchup_xor c
    \<and> (\<forall>i. reads stack (tb_dict (st_rows c)) (tb_get E (st_rows c) i) (case files i of None \<Rightarrow> RMissing | Some (v, _) \<Rightarrow> from_value v)
          \<and> tb_digest_of E (st_rows c) i = map_option snd (files i)
          \<and> tb_rv_of E (st_rows c) i = Option.bind (files i) (\<lambda>(v, _). if record_rv v = rv_absent then None else Some (record_rv v)))
    \<and> set (tb_keys E (st_rows c)) = dom files"
proof -
  note images = lawful_images [OF E] and table = heap_tables [OF E]
  note defs = row_tables.recorded_def [OF table] row_tables.serving_def [OF table] heap_images.loaded_def [OF images]
  have rec: "row_tables.recorded E heap_ok items stack c0 m0"
    unfolding c0 m by (rule row_tables.run_recorded [OF table new_recorded [OF E]]) (use fits in \<open>simp add: new_coll_def\<close>)
  have name: "st_name c0 = name" by (simp add: c0 run_coll_rows new_coll_def)
  have names: "names_ok c0" and ok1: "round_ok E heap_room stack first c0"
    and ok2: "rounds_ok E heap_room stack rounds (mark_round E (take_mark E (st_rows c0)) first c0)"
    using ok by (auto simp: round_ok_def Let_def split: prod.splits)
  obtain im ix where ph: "parse_identity bs = Inr \<lparr>ii_format = image_format, ii_record_format = record_format,
       ii_image_id = image_id, ii_seq = 0\<rparr>" "parse_header bs = Inr im" "index_parsed e E bs im = Inr ix" "bodies_verified e bs im"
      "im_seq im = 0" "xd_name ix = st_name c0" "xd_image_id ix = image_id" "xd_stored_xor ix = st_catchup_xor c0"
    and mark: "wr_mark w = take_mark E (st_rows c0)"
    and st: "heap_images.loaded E items stack (sum_list (map length deltas)) (st_name c0) image_id 0 (chain_from_base im)
      (heap_images.base_table epoch' bs ix, st_catchup_xor c0) m0"
    and d0: "dict_le (tb_dict (heap_images.base_table epoch' bs ix)) (tb_dict (st_rows c0))"
    by (rule heap_images.load_base [OF images rec names base e size])
  define t0 where "t0 = heap_images.base_table epoch' bs ix"
  have t0': "t0 = from_parts epoch' (xd_dict ix) (ix_index (xd_heads ix)) (heap_from_buf bs (ix_live (xd_heads ix)))"
    by (simp add: t0_def heap_images.base_table_def [OF images])
  have srv: "rounds = [] \<or> row_tables.serving E heap_ok items stack c1 (round_map first m0) m0"
    using row_tables.round_serving [OF table rec ok1] by (simp add: c1 mark)
  have d: "dict_le (tb_dict t0) (tb_dict (st_rows c1))"
    unfolding t0_def c1 by (rule dict_le_trans [OF d0 row_tables.round_dict [OF table]])
  have name1: "st_name c1 = st_name c0" by (simp add: c1 mark_round_def Let_def run_coll_rows split: prod.splits)
  have "write_rounds e E image_id (0 + 1) (st_catchup_xor c0) rounds c1 = Inr deltas" using deltas by simp
  from heap_images.load_rounds [OF images this e srv ok2 [folded mark, folded c1] name1 st [folded t0_def] d] obtain ch' t x where
    run: "apply_all e E deltas (chain_from_base im) (t0, st_catchup_xor c0) = Inr (ch', t, x)"
    and fin: "heap_images.loaded E items stack 0 name image_id (of_nat (length deltas)) ch' (t, x) files"
    unfolding m(2) name by auto
  have "read_table_bytes e E epoch' bs deltas = Inr (\<lparr>st_name = name, st_rows = set_persisted_at_end E t, st_catchup_xor = x\<rparr>,
      \<lparr>ce_image_id = image_id, ce_seq = of_nat (length deltas), ce_xor = x\<rparr>)"
    using ph run fin name by (simp add: read_table_bytes_def Let_def t0' [symmetric] defs)
  moreover have "table_rel E heap_ok items stack (set_persisted_at_end E t) files" "sums_to files x"
    using fin by (simp_all add: defs set_persisted_at_end_def)
  note row_tables.reads_rel [OF table this(1)] row_tables.keys_rel(2) [OF table this(1)] this(2)
  ultimately show ?thesis by simp
qed

subsection \<open>Witness\<close>

text \<open>A table with one row, written as a base image; the row is deleted and a delta written.\<close>

definition demo_coll :: "(u64 \<times> row_slot) list heap_coll" where
  "demo_coll = run_coll demo_env [Put ''a'' demo_value (replicate 32 0)] (new_coll demo_env 1 ''t'')"

definition demo_after :: "(u64 \<times> row_slot) list heap_coll" where
  "demo_after = mark_round demo_env (take_mark demo_env (st_rows demo_coll)) ([], [Del ''a'']) demo_coll"

definition demo_slot :: row_slot where
  "demo_slot = \<lparr>sp_seg = 0, sp_off = 0, sp_len = 50\<rparr>"

lemma demo_table_eq:
  "demo_table = \<lparr>tb_dict = demo_dict, tb_index = [(1, demo_slot)],
     tb_arena = \<lparr>ha_segs = [demo_record], ha_sealed = 0, ha_live = 92, ha_dead = 0\<rparr>,
     tb_epoch = 1, tb_persisted = None, tb_tombstones = []\<rparr>"
  by (simp add: demo_table_def table_step_def tb_insert_def with_arena_def from_parts_def demo_encoded append_record_def
      demo_env_def heap_ops_def heap_append_def heap_writable_def heap_new_def place_def list_table_ops_def demo_slot_def Let_def)

lemma demo_rows: "st_rows demo_coll = demo_table" "st_name demo_coll = ''t''"
  by (simp_all add: demo_coll_def coll_step_def new_coll_def demo_table_def)

lemma demo_head: "head_body_rel (take 50 demo_record) = Some 50" "head_body_len (take 50 demo_record) = Some 42"
  "demo_record \<noteq> []"
  by code_simp+

lemma demo_get:
  "heap_get demo_slot (tb_arena demo_table) = take 50 demo_record"
  "heap_get \<lparr>sp_seg = 0, sp_off = 50, sp_len = 42\<rparr> (tb_arena demo_table) = drop 50 demo_record"
  "body_of (take 50 demo_record) demo_slot = Some \<lparr>sp_seg = 0, sp_off = 50, sp_len = 42\<rparr>"
  by (simp_all add: demo_table_eq demo_slot_def heap_get_def slice_def Let_def demo_encoded(2) body_of_def demo_head)

lemma demo_records: "tb_records demo_env demo_table = [(take 50 demo_record, drop 50 demo_record)]"
proof -
  have "slot_record demo_env (tb_arena demo_table) demo_slot = Some (take 50 demo_record, drop 50 demo_record)"
    by (simp add: slot_record_def Let_def demo_get demo_head demo_env_def heap_ops_def)
  then show ?thesis by (simp add: tb_records_def demo_table_eq demo_env_def list_table_ops_def List.map_filter_def)
qed

lemma demo_recorded:
  "heap_table.recorded 3 demo_coll [''a'' \<mapsto> (demo_value, replicate 32 0)]"
proof -
  have "run_fits demo_env heap_room 3 [Put ''a'' demo_value (replicate 32 0)] (st_rows (new_coll demo_env 1 ''t''))"
    using demo_put_fits by (simp add: new_coll_def)
  from heap_table.run_recorded [OF new_recorded [OF demo_env_lawful] this] show ?thesis
    by (simp add: demo_coll_def map_op_def)
qed

lemma demo_slot_id: "slot_id demo_env (tb_arena demo_table) demo_slot = Some ''a''"
proof -
  have rel: "table_rel demo_env heap_ok (\<lambda>t. t) 3 demo_table [''a'' \<mapsto> (demo_value, replicate 32 0)]"
    using demo_recorded by (simp add: heap_table.recorded_def demo_rows)
  from heap_table.find_slot_rel(2) [OF rel, of "''a''" demo_value "replicate 32 0"]
  obtain s where "find_slot demo_env demo_table ''a'' = Some s" by auto
  then have "(te_hash demo_env ''a'', s) \<in> set (tb_index demo_table)" "slot_id demo_env (tb_arena demo_table) s = Some ''a''"
    using heap_table.find_slot_iff [OF rel] by blast+
  then show ?thesis by (simp add: demo_table_eq)
qed

lemma demo_deleted_parts:
  "tb_dict demo_deleted = demo_dict" "tb_index demo_deleted = []" "tb_tombstones demo_deleted = [''a'']"
  "tb_persisted demo_deleted \<noteq> None"
proof -
  have "slot_id demo_env (tb_arena demo_marked) demo_slot = Some ''a''"
    using demo_slot_id by (simp add: demo_marked_def mark_persisted_def take_mark_def)
  then have "remove_slot demo_env ''a'' demo_marked = (True, demo_marked\<lparr>tb_index := [],
      tb_arena := free_slot demo_env demo_slot (tb_arena demo_marked)\<rparr>)"
    by (simp add: remove_slot_def demo_env_def list_table_ops_def demo_marked_def mark_persisted_def take_mark_def demo_table_eq Let_def)
  then show "tb_dict demo_deleted = demo_dict" "tb_index demo_deleted = []" "tb_tombstones demo_deleted = [''a'']"
    "tb_persisted demo_deleted \<noteq> None"
    by (simp_all add: demo_deleted_def table_step_def tb_remove_def demo_marked_def mark_persisted_def take_mark_def
        demo_table_eq max_tombstones_def Let_def)
qed

lemma demo_delta_records: "records_since_persisted demo_env demo_deleted = []" "tombstones_pending demo_env demo_deleted = [''a'']"
  by (simp_all add: records_since_persisted_def tombstones_pending_def contains_key_def find_slot_def demo_deleted_parts
      demo_env_def list_table_ops_def List.map_filter_def)

lemma demo_after_parts: "st_rows demo_after = demo_deleted" "st_name demo_after = ''t''"
  by (simp_all add: demo_after_def mark_round_def run_coll_rows demo_rows demo_deleted_def demo_marked_def Let_def coll_step_def)

lemma demo_round_ok: "round_ok demo_env heap_room 3 ([], [Del ''a'']) demo_coll" "round_ok demo_env heap_room 3 ([], []) demo_after"
proof -
  have "tb_persisted demo_marked \<noteq> None" "tb_tombstones demo_marked = []"
    by (simp_all add: demo_marked_def mark_persisted_def take_mark_def demo_table_eq)
  then have log: "run_logged demo_env [Del ''a''] demo_marked" by (simp add: op_logged_def max_tombstones_def)
  have "names_ok demo_coll" by (simp add: names_ok_def demo_rows demo_table_eq demo_dict_def) code_simp
  moreover have "names_ok demo_after" by (simp add: names_ok_def demo_after_parts demo_deleted_parts demo_dict_def) code_simp
  ultimately show "round_ok demo_env heap_room 3 ([], [Del ''a'']) demo_coll" "round_ok demo_env heap_room 3 ([], []) demo_after"
    using log by (simp_all add: round_ok_def Let_def demo_rows op_fits_def demo_marked_def [symmetric])
qed

lemma demo_xor_length: "length (st_catchup_xor demo_coll) = 32" "length (st_catchup_xor demo_after) = 32"
proof -
  note srv = heap_table.round_serving [OF demo_recorded demo_round_ok(1)]
  have rec: "heap_table.recorded 3 demo_after (round_map ([], [Del ''a'']) [''a'' \<mapsto> (demo_value, replicate 32 0)])"
    using srv by (simp add: heap_table.serving_def demo_after_def)
  show "length (st_catchup_xor demo_coll) = 32"
    using demo_recorded sums_to_length heap_table.rel_digests unfolding heap_table.recorded_def by blast
  show "length (st_catchup_xor demo_after) = 32"
    using rec sums_to_length heap_table.rel_digests unfolding heap_table.recorded_def by blast
qed

lemma demo_base_file:
  obtains bs w where "write_collection sample_codec demo_env demo_coll k = Inr (bs, w)" "wr_mark w = take_mark demo_env demo_table"
    "length bs < 2 ^ 36"
proof -
  have "tb_dict demo_table = demo_dict" by (simp add: demo_table_eq)
  moreover have "length (b3 sample_codec xs) = 32" for xs by (rule b3_length) simp
  moreover have "length (relink_head (take 50 demo_record) rel []) = 50" for rel
    by (simp add: relink_head_def demo_encoded(2) head_body_rel_offset_def head_body_len_offset_def)
  ultimately have "\<exists>bs w. write_collection sample_codec demo_env demo_coll k = Inr (bs, w) \<and> wr_mark w = take_mark demo_env demo_table
      \<and> length bs < 2 ^ 36"
    by (simp add: write_collection_def write_image_def demo_rows demo_records demo_dict_def write_chunk_def
        max_chunk_def image_magic_def Let_def demo_encoded(2) demo_xor_length xor_empty_def)
  then show thesis using that by blast
qed

lemma demo_delta_file:
  obtains bs w where "write_delta sample_codec demo_env demo_after 7 1 (st_catchup_xor demo_coll) = Inr (bs, w)" "length bs < 2 ^ 36"
proof -
  have "head_len_for ''a'' = 50" by code_simp
  moreover have "length (b3 sample_codec xs) = 32" for xs by (rule b3_length) simp
  moreover have "length (fst (encode_head ''a'' (replicate 32 0) rv_absent 0 0 [])) = 50"
    using length_whole_head [of "replicate 32 0" "''a''"] calculation by simp
  ultimately have "\<exists>bs w. write_delta sample_codec demo_env demo_after 7 1 (st_catchup_xor demo_coll) = Inr (bs, w) \<and> length bs < 2 ^ 36"
    using demo_deleted_parts(4)
    by (auto simp: write_delta_def write_image_def demo_after_parts demo_delta_records demo_deleted_parts demo_dict_def write_chunk_def
        max_chunk_def image_magic_def Let_def demo_xor_length)
  then show thesis using that by blast
qed

lemma checkpoint_chain_restores_witness:
  "\<exists>bs w delta w' c ce. write_collection sample_codec demo_env demo_coll 7 = Inr (bs, w)
     \<and> write_delta sample_codec demo_env demo_after 7 1 (st_catchup_xor demo_coll) = Inr (delta, w')
     \<and> read_table_bytes sample_codec demo_env 2 bs [delta] = Inr (c, ce)
     \<and> ce_seq ce = 1 \<and> tb_keys demo_env (st_rows c) = []"
proof -
  obtain bs w where base: "write_collection sample_codec demo_env demo_coll 7 = Inr (bs, w)" "wr_mark w = take_mark demo_env demo_table"
    by (rule demo_base_file)
  obtain delta w' where delta: "write_delta sample_codec demo_env demo_after 7 1 (st_catchup_xor demo_coll) = Inr (delta, w')"
    "length delta < 2 ^ 36" by (rule demo_delta_file)
  have after: "demo_after = mark_round demo_env (wr_mark w) ([], [Del ''a'']) demo_coll" by (simp add: demo_after_def base(2) demo_rows)
  have "rounds_ok demo_env heap_room 3 [([], [Del ''a'']), ([], [])] demo_coll"
    using demo_round_ok by (simp add: demo_after_def [symmetric])
  moreover have "write_rounds sample_codec demo_env 7 1 (st_catchup_xor demo_coll) [([], [])] demo_after = Inr [delta]"
    using delta(1) by simp
  moreover have "sum_list (map length [delta]) < 2 ^ 36" using delta(2) by simp
  ultimately have "\<exists>c ce. read_table_bytes sample_codec demo_env 2 bs [delta] = Inr (c, ce) \<and> ce_seq ce = 1
      \<and> set (tb_keys demo_env (st_rows c)) = {}"
    using checkpoint_chain_restores [OF demo_env_lawful sample_codec_ok demo_coll_def demo_put_fits base(1) _ after _ _ refl refl, of "[([], [])]" "[delta]" 2]
    by (auto simp: map_op_def)
  with base(1) delta(1) show ?thesis by auto
qed

end
