(* ===== verification/Image_Store.thy ===== *)
theory Image_Store
  imports Image_History
begin

section \<open>Store containers\<close>

text \<open>
  A store written as one byte string reads back to a store with the same tables, each with the same
  rows, digests, versions and hash.
\<close>

context heap_images
begin

lemma read_image_base:
  assumes "recorded stack c m" "names_ok c" "write_collection e E c image_id = Inr (bs, w)" "codec_ok e"
  shows "\<exists>c'. read_image e E epoch bs = Inr (c', image_id) \<and> st_name c' = st_name c \<and> recorded stack c' m
     \<and> st_catchup_xor c' = st_catchup_xor c"
proof -
  obtain im ix where ph: "parse_identity bs = Inr \<lparr>ii_format = image_format, ii_record_format = record_format,
       ii_image_id = image_id, ii_seq = 0\<rparr>" "parse_header bs = Inr im" "index_parsed e E bs im = Inr ix"
    "bodies_verified e bs im" "xd_name ix = st_name c" "xd_image_id ix = image_id" "xd_stored_xor ix = st_catchup_xor c"
    and st: "loaded stack 0 (st_name c) image_id 0 (chain_from_base im) (base_table epoch bs ix, st_catchup_xor c) m"
    by (rule load_base [OF assms, of 0 epoch]) simp
  have "read_image e E epoch bs = Inr (assemble epoch ix (heap_from_buf bs (ix_live (xd_heads ix))), image_id)"
    using ph by (simp add: read_image_def image_format_def format_v1_def)
  moreover have "st_rows (assemble epoch ix (heap_from_buf bs (ix_live (xd_heads ix)))) = base_table epoch bs ix"
    by (simp add: assemble_def base_table_def)
  moreover have "tb_tombstones (base_table epoch bs ix) = []" by (simp add: base_table_def from_parts_def)
  ultimately show ?thesis using ph st by (simp add: recorded_def loaded_def assemble_def)
qed

text \<open>Two tables that hold the same rows under the same hash.\<close>

definition restores :: "nat \<Rightarrow> 'h heap_coll \<Rightarrow> 'h heap_coll \<Rightarrow> bool" where
  "restores stack c c' \<longleftrightarrow> st_name c' = st_name c \<and> st_catchup_xor c' = st_catchup_xor c
     \<and> (\<exists>m. recorded stack c m \<and> recorded stack c' m)"

definition writable :: "nat \<Rightarrow> (string, 'h heap_coll) hmap \<Rightarrow> bool" where
  "writable stack store \<longleftrightarrow> (\<forall>name c. hm_get store name = Some c \<longrightarrow> st_name c = name \<and> names_ok c \<and> (\<exists>m. recorded stack c m))"

lemma read_tables_spec:
  assumes "write_tables e E store names = Inr bs'" and "writable stack store" "codec_ok e"
    and "distinct names" "\<forall>name \<in> set names. hm_get store name \<noteq> None \<and> hm_get acc name = None"
    and "at_offset bs at (bs' @ rest)"
  shows "\<exists>store'. read_tables e E epoch (length names) bs at acc = Inr (at + length bs', store')
     \<and> (\<forall>name. name \<notin> set names \<longrightarrow> hm_get store' name = hm_get acc name)
     \<and> (\<forall>name \<in> set names. \<exists>c c'. hm_get store name = Some c \<and> hm_get store' name = Some c' \<and> restores stack c c')"
  using assms(1,4-)
proof (induction names arbitrary: bs' at acc epoch)
  case (Cons name names)
  from Cons.prems(3) obtain c where c: "hm_get store name = Some c" by auto
  with Cons.prems(1) obtain img w bs1 where img: "write_collection e E c (content_image_id e c) = Inr (img, w)"
    and bs1: "write_tables e E store names = Inr bs1" and bs': "bs' = u64_bytes (of_nat (length img)) @ img @ bs1"
    by (auto elim!: try_res_InrE)
  from c assms(2) obtain m where st: "st_name c = name" "names_ok c" "recorded stack c m" by (auto simp: writable_def)
  from read_image_base [OF st(3,2) img assms(3), of epoch] obtain c' where
    c': "read_image e E epoch img = Inr (c', content_image_id e c)" "st_name c' = name" "recorded stack c' m"
    "st_catchup_xor c' = st_catchup_xor c" using st(1) by auto
  have a: "at_offset bs at (u64_bytes (of_nat (length img)) @ img @ bs1 @ rest)" using Cons.prems(4) by (simp add: bs')
  note a1 = at_offset_skip [OF a, unfolded le_nat_u64_bytes]
  note a2 = at_offset_skip [OF a1]
  have "length img < 2 ^ 63" using at_offset_length [OF a1] a1 by (simp add: at_offset_def)
  then have u: "unat (of_nat (length img) :: u64) = length img" by (simp add: unat_of_nat)
  have step: "read_tables e E epoch (length (name # names)) bs at acc =
      read_tables e E (epoch + 1) (length names) bs (at + 8 + length img) (hm_insert name c' acc)"
    using c_u64_at [OF a] c_bytes_at [OF a1 refl] c' Cons.prems(3) by (simp add: u)
  have "\<forall>n \<in> set names. hm_get store n \<noteq> None \<and> hm_get (hm_insert name c' acc) n = None"
    using Cons.prems(2,3) by (auto simp: hm_get_insert)
  from Cons.IH [OF bs1 _ this a2, of "epoch + 1"] Cons.prems(2) obtain store' where
    s: "read_tables e E (epoch + 1) (length names) bs (at + 8 + length img) (hm_insert name c' acc) = Inr (at + 8 + length img + length bs1, store')"
    "\<forall>n. n \<notin> set names \<longrightarrow> hm_get store' n = hm_get (hm_insert name c' acc) n"
    "\<forall>n \<in> set names. \<exists>c c'. hm_get store n = Some c \<and> hm_get store' n = Some c' \<and> restores stack c c'" by auto
  have "restores stack c c'" using st c' by (auto simp: restores_def)
  moreover have "hm_get store' name = Some c'" using s(2) Cons.prems(2) by simp
  ultimately show ?case using s step c by (auto simp: bs')
qed simp

lemma restores_reads:
  assumes "restores stack c c'"
  shows "\<exists>rr. reads stack (tb_dict (st_rows c)) (tb_get E (st_rows c) i) rr \<and> reads stack (tb_dict (st_rows c')) (tb_get E (st_rows c') i) rr"
    and "tb_digest_of E (st_rows c') i = tb_digest_of E (st_rows c) i" "tb_rv_of E (st_rows c') i = tb_rv_of E (st_rows c) i"
    "contains_key E (st_rows c') i = contains_key E (st_rows c) i"
proof -
  from assms obtain m where rel: "table_rel E heap_ok items stack (st_rows c) m" "table_rel E heap_ok items stack (st_rows c') m"
    by (auto simp: restores_def recorded_def)
  note r = reads_rel [OF rel(1), of i] reads_rel [OF rel(2), of i]
  from r(1,5) show "\<exists>rr. reads stack (tb_dict (st_rows c)) (tb_get E (st_rows c) i) rr
      \<and> reads stack (tb_dict (st_rows c')) (tb_get E (st_rows c') i) rr" by blast
  from r show "tb_digest_of E (st_rows c') i = tb_digest_of E (st_rows c) i" "tb_rv_of E (st_rows c') i = tb_rv_of E (st_rows c) i"
    "contains_key E (st_rows c') i = contains_key E (st_rows c) i" by simp_all
qed

lemma read_store_spec:
  assumes w: "write_store e E store = Inr bs" and ok: "writable stack store" "codec_ok e" "hm_wf store"
    and size: "length bs < 2 ^ 63" "length store < 2 ^ 32"
  obtains store' where "read_store e E epoch bs = Inr store'"
    "\<And>name. hm_get store name = None \<Longrightarrow> hm_get store' name = None"
    "\<And>name c. hm_get store name = Some c \<Longrightarrow> \<exists>c'. hm_get store' name = Some c' \<and> restores stack c c'"
proof -
  let ?names = "sort (map fst store)"
  from w obtain tables where t: "write_tables e E store ?names = Inr tables"
    and bs: "bs = store_magic @ u32_bytes store_format @ u32_bytes (of_nat (length store)) @ tables"
    by (auto simp: write_store_def elim!: try_res_InrE)
  have magic: "length store_magic = 8" by (simp add: store_magic_def)
  have a0: "at_offset bs 0 (store_magic @ u32_bytes store_format @ u32_bytes (of_nat (length store)) @ tables @ [])"
    using size by (simp add: at_offset_def bs)
  note a1 = at_offset_skip [OF a0, unfolded magic, simplified]
  note a2 = at_offset_skip [OF a1, simplified]
  have a3: "at_offset bs 16 (tables @ [])" using at_offset_skip [OF a2, simplified] by simp
  have "distinct ?names" using ok(3) by (simp add: hm_wf_def)
  moreover have "\<forall>name \<in> set ?names. hm_get store name \<noteq> None \<and> hm_get [] name = (None :: 'h heap_coll option)"
    by (simp add: hm_get_eq_None_iff)
  ultimately obtain store' where s: "read_tables e E epoch (length ?names) bs 16 [] = Inr (16 + length tables, store')"
    "\<forall>name. name \<notin> set ?names \<longrightarrow> hm_get store' name = hm_get [] name"
    "\<forall>name \<in> set ?names. \<exists>c c'. hm_get store name = Some c \<and> hm_get store' name = Some c' \<and> restores stack c c'"
    using read_tables_spec [OF t ok(1,2) _ _ a3, of "[]" epoch] by auto
  have u: "unat (of_nat (length store) :: u32) = length store" using size(2) by (simp add: unat_of_nat)
  have "read_store e E epoch bs = Inr store'"
    using c_u32_at [OF a1] c_u32_at [OF a2] s(1) by (simp add: read_store_def u) (simp add: bs magic)
  then show thesis
  proof (rule that)
    fix name assume "hm_get store name = None"
    then show "hm_get store' name = None" using s(2) by (simp add: hm_get_eq_None_iff)
  next
    fix name c assume "hm_get store name = Some c"
    moreover from this have "name \<in> set ?names" by (force dest: hm_get_SomeD)
    ultimately show "\<exists>c'. hm_get store' name = Some c' \<and> restores stack c c'" using s(3) by force
  qed
qed

end

text \<open>
  C7. A store survives its container. Whatever histories its tables have, the container that is written
  for a store reads back to a store with exactly those tables, each with the same rows, digests,
  versions and catch-up hash.
\<close>

theorem store_round_trip:
  assumes E: "te_arena E = heap_ops" "Table_Refinement.hash_table (te_index E) items" and e: "codec_ok e"
    and tables: "\<And>name c. hm_get store name = Some c \<Longrightarrow> \<exists>ops epoch. c = run_coll E ops (new_coll E epoch name)
        \<and> run_fits E heap_room stack ops (with_arena E epoch heap_new) \<and> names_ok c"
    and wf: "hm_wf store" "length store < 2 ^ 32" and w: "write_store e E store = Inr bs" "length bs < 2 ^ 63"
  shows "\<exists>store'. read_store e E epoch' bs = Inr store'
    \<and> (\<forall>name. hm_get store name = None \<longrightarrow> hm_get store' name = None)
    \<and> (\<forall>name c. hm_get store name = Some c \<longrightarrow> (\<exists>c'. hm_get store' name = Some c' \<and> st_name c' = name
         \<and> st_catchup_xor c' = st_catchup_xor c
         \<and> (\<forall>i. tb_digest_of E (st_rows c') i = tb_digest_of E (st_rows c) i \<and> tb_rv_of E (st_rows c') i = tb_rv_of E (st_rows c) i
              \<and> contains_key E (st_rows c') i = contains_key E (st_rows c) i
              \<and> (\<exists>rr. reads stack (tb_dict (st_rows c)) (tb_get E (st_rows c) i) rr
                   \<and> reads stack (tb_dict (st_rows c')) (tb_get E (st_rows c') i) rr))))"
proof -
  note images = lawful_images [OF E] and table = heap_tables [OF E]
  have hist: "st_name c = name \<and> names_ok c \<and> (\<exists>m. row_tables.recorded E heap_ok items stack c m)"
    if c: "hm_get store name = Some c" for name c
  proof -
    from tables [OF c] obtain ops epoch where o: "c = run_coll E ops (new_coll E epoch name)"
      "run_fits E heap_room stack ops (with_arena E epoch heap_new)" "names_ok c" by blast
    have "row_tables.recorded E heap_ok items stack c (run_map ops Map.empty)"
      unfolding o(1) by (rule row_tables.run_recorded [OF table new_recorded [OF E]]) (use o(2) in \<open>simp add: new_coll_def\<close>)
    with o show ?thesis by (auto simp: run_coll_rows new_coll_def)
  qed
  then have "heap_images.writable E items stack store" by (auto simp: heap_images.writable_def [OF images])
  then obtain store' where s: "read_store e E epoch' bs = Inr store'"
    "\<And>name. hm_get store name = None \<Longrightarrow> hm_get store' name = None"
    "\<And>name c. hm_get store name = Some c \<Longrightarrow> \<exists>c'. hm_get store' name = Some c' \<and> heap_images.restores E items stack c c'"
    using heap_images.read_store_spec [OF images w(1) _ e wf(1) w(2) wf(2)] by metis
  show ?thesis
  proof (intro exI [of _ store'] conjI allI impI)
    fix name c assume c: "hm_get store name = Some c"
    from s(3) [OF c] obtain c' where c': "hm_get store' name = Some c'" "heap_images.restores E items stack c c'" by blast
    have "st_name c' = name" "st_catchup_xor c' = st_catchup_xor c"
      using c'(2) hist [OF c] by (simp_all add: heap_images.restores_def [OF images])
    with c'(1) heap_images.restores_reads [OF images c'(2)]
    show "\<exists>c'. hm_get store' name = Some c' \<and> st_name c' = name \<and> st_catchup_xor c' = st_catchup_xor c
         \<and> (\<forall>i. tb_digest_of E (st_rows c') i = tb_digest_of E (st_rows c) i \<and> tb_rv_of E (st_rows c') i = tb_rv_of E (st_rows c) i
              \<and> contains_key E (st_rows c') i = contains_key E (st_rows c) i
              \<and> (\<exists>rr. reads stack (tb_dict (st_rows c)) (tb_get E (st_rows c) i) rr
                   \<and> reads stack (tb_dict (st_rows c')) (tb_get E (st_rows c') i) rr))" by blast
  qed (use s in blast)+
qed

lemma store_round_trip_witness:
  "\<exists>bs store' c'. write_store sample_codec demo_env [(''t'', demo_coll)] = Inr bs
     \<and> read_store sample_codec demo_env 2 bs = Inr store' \<and> hm_get store' ''t'' = Some c'
     \<and> contains_key demo_env (st_rows c') ''a''"
proof -
  obtain img w where img: "write_collection sample_codec demo_env demo_coll (content_image_id sample_codec demo_coll) = Inr (img, w)"
    "length img < 2 ^ 36" by (rule demo_base_file)
  then obtain bs where bs: "write_store sample_codec demo_env [(''t'', demo_coll)] = Inr bs" "length bs < 2 ^ 63"
    by (simp add: write_store_def store_magic_def)
  have names: "names_ok demo_coll" using demo_round_ok(1) by (simp add: round_ok_def Let_def)
  have tables: "\<exists>ops epoch. c = run_coll demo_env ops (new_coll demo_env epoch name)
        \<and> run_fits demo_env heap_room 3 ops (with_arena demo_env epoch heap_new) \<and> names_ok c"
    if "hm_get [(''t'', demo_coll)] name = Some c" for name c
  proof (intro exI conjI)
    show "run_fits demo_env heap_room 3 [Put ''a'' demo_value (replicate 32 0)] (with_arena demo_env 1 heap_new)" by (rule demo_put_fits)
  qed (use that demo_coll_def names in \<open>auto split: if_splits\<close>)
  have "contains_key demo_env (st_rows demo_coll) ''a''"
    using heap_table.reads_rel(4) [OF conjunct1 [OF demo_recorded [unfolded heap_table.recorded_def]], of "''a''"] by simp
  with store_round_trip [OF demo_env_lawful sample_codec_ok tables _ _ bs, of 2] bs(1) show ?thesis
    by (fastforce simp: hm_wf_def)
qed

end
