(* ===== verification/Index_Scans.thy ===== *)
theory Index_Scans
  imports Top_K Index_Invariant
begin

section \<open>Sources that read a secondary index\<close>

text \<open>
  Model of \<^verbatim>\<open>operator/index_scan.rs\<close> and of the positional reads of \<^verbatim>\<open>OrderedIndex\<close> in
  \<^verbatim>\<open>circuit/index.rs\<close>: \<^verbatim>\<open>IndexedScan\<close>, \<^verbatim>\<open>IndexWindow\<close> and \<^verbatim>\<open>KeyScan\<close>, which stand in for a
  \<^verbatim>\<open>Scan\<close> (or for a whole window over one) when the filter above it pins the leading fields of an
  index, or the record id. \<^verbatim>\<open>BTreeSet::rank\<close> is the number of entries below its argument and
  \<^verbatim>\<open>get_index\<close> reads the contents by position. Reading through an index may build it; the built
  index is a cache that no later answer depends on, and it is not threaded through the readers.
\<close>

subsection \<open>Reading an index by position\<close>

definition entry_rank :: "(index_key \<times> row_key) list \<Rightarrow> index_key \<times> row_key \<Rightarrow> nat" where
  "entry_rank es x = length (takeWhile (\<lambda>e. index_entry_cmp e x = Less) es)"

definition prefix_range :: "ordered_index \<Rightarrow> scalar list \<Rightarrow> nat \<times> nat" where
  "prefix_range idx prefix =
     (let lo = entry_rank (oi_entries idx) (prefix, '''');
          hi = entry_rank (oi_entries idx) (prefix @ [STop], '''')
      in (lo, max hi lo))"

definition index_row_at :: "ordered_index \<Rightarrow> nat \<Rightarrow> row_key option" where
  "index_row_at idx position =
     (if position < length (oi_entries idx) then Some (snd (oi_entries idx ! position)) else None)"

definition group_of :: "ordered_index \<Rightarrow> nat \<Rightarrow> nat \<Rightarrow> (nat \<times> nat) option" where
  "group_of idx position nf =
     (if position < length (oi_entries idx)
      then let values = fst (oi_entries idx ! position)
           in Some (prefix_range idx (take (min nf (length values)) values))
      else None)"

subsection \<open>Bindings\<close>

record index_binding =
  ib_table :: string
  ib_def :: index_def
  ib_prefix :: "json list"
  ib_gates :: "predicate list"

definition operand_scalar :: "value option \<Rightarrow> json \<Rightarrow> scalar option" where
  "operand_scalar ctx operand =
     (case resolve_predicate_value operand ctx of
        None \<Rightarrow> None
      | Some v \<Rightarrow>
          if is_orderable (from_value v) then Some (sv_scalar (sortable_from_value (from_value v) False)) else None)"

definition prefix_values :: "index_binding \<Rightarrow> store \<Rightarrow> value option \<Rightarrow> scalar list option" where
  "prefix_values b s ctx =
     (if \<not> list_all (\<lambda>gate. check_predicate gate '''' s ctx) (ib_gates b) then None
      else those (map (operand_scalar ctx) (ib_prefix b)))"

definition binding_owns :: "index_binding \<Rightarrow> row_key \<Rightarrow> bool" where
  "binding_owns b key \<longleftrightarrow> length (ib_table b) < length key \<and> starts_with key (ib_table b)
     \<and> key ! length (ib_table b) = CHR '':''"

definition rows_at :: "ordered_index \<Rightarrow> nat list \<Rightarrow> row_key list" where
  "rows_at idx positions = List.map_filter (index_row_at idx) positions"

definition keys_zset :: "row_key list \<Rightarrow> zset" where
  "keys_zset keys = fold (\<lambda>k z. hm_insert k 1 z) keys []"

definition binding_range_keys :: "index_ops \<Rightarrow> index_binding \<Rightarrow> store \<Rightarrow> value option \<Rightarrow> zset" where
  "binding_range_keys ops b s ctx =
     (case (prefix_values b s ctx, hm_get (sto_collections s) (ib_table b)) of
        (Some prefix, Some coll) \<Rightarrow>
          let idx = fst (with_index ops (ib_def b) coll); (lo, hi) = prefix_range idx prefix
          in keys_zset (rows_at idx [lo..<hi])
      | _ \<Rightarrow> [])"

subsection \<open>IndexedScan\<close>

definition indexed_scan_keys :: "index_ops \<Rightarrow> index_binding list \<Rightarrow> store \<Rightarrow> value option \<Rightarrow> zset" where
  "indexed_scan_keys ops bindings s ctx =
     fold (\<lambda>b keys. fold (\<lambda>(key, _) z. hm_insert key 1 z) (binding_range_keys ops b s ctx) keys) bindings []"

definition indexed_scan_snapshot :: "index_ops \<Rightarrow> index_binding list \<Rightarrow> store \<Rightarrow> value option \<Rightarrow> zset" where
  "indexed_scan_snapshot ops bindings s ctx = indexed_scan_keys ops bindings s ctx"

definition indexed_scan_step :: "zset list \<Rightarrow> zset" where
  "indexed_scan_step ds = (case ds of [] \<Rightarrow> [] | d # _ \<Rightarrow> d)"

definition indexed_scan_collections :: "index_binding list \<Rightarrow> string list" where
  "indexed_scan_collections bindings = (case bindings of [] \<Rightarrow> [] | b # _ \<Rightarrow> [ib_table b])"

definition indexed_scan_initial_input :: "index_ops \<Rightarrow> index_binding list \<Rightarrow> store \<Rightarrow> value option \<Rightarrow> zset option" where
  "indexed_scan_initial_input ops bindings s ctx = Some (indexed_scan_keys ops bindings s ctx)"

definition indexed_scan_index_uses :: "index_binding list \<Rightarrow> (string \<times> string) list" where
  "indexed_scan_index_uses bindings = map (\<lambda>b. (ib_table b, idx_name (ib_def b))) bindings"

definition indexed_scan_evaluate_key :: "index_binding list \<Rightarrow> row_key \<Rightarrow> store \<Rightarrow> bool" where
  "indexed_scan_evaluate_key bindings key s =
     (case bindings of
        [] \<Rightarrow> False
      | b # _ \<Rightarrow> (case hm_get (sto_collections s) (ib_table b) of None \<Rightarrow> False | Some c \<Rightarrow> has_key c key))"

subsection \<open>IndexWindow\<close>

record index_window =
  iw_binding :: index_binding
  iw_limit :: nat
  iw_offset :: nat
  iw_descending :: "bool list"
  iw_window :: "row_key list"
  iw_read_at :: "u64 option"

definition index_window_new :: "index_binding \<Rightarrow> nat \<Rightarrow> nat \<Rightarrow> bool list \<Rightarrow> index_window" where
  "index_window_new b limit offset descending =
     \<lparr>iw_binding = b, iw_limit = limit, iw_offset = offset, iw_descending = descending, iw_window = [],
      iw_read_at = None\<rparr>"

definition window_writes :: "index_window \<Rightarrow> store \<Rightarrow> u64 option" where
  "window_writes w s = map_option co_writes (hm_get (sto_collections s) (ib_table (iw_binding w)))"

text \<open>
  The search of \<^verbatim>\<open>nth\<close>: \<open>nf\<close> values are already shared by the entries of \<open>[a, b)\<close>. The
  \<^verbatim>\<open>usize\<close> subtractions do not underflow on a well-formed index (\<open>nth_search_spec\<close>).
\<close>

fun nth_search :: "ordered_index \<Rightarrow> nat \<Rightarrow> bool list \<Rightarrow> nat \<Rightarrow> nat \<Rightarrow> nat \<Rightarrow> nat option" where
  "nth_search idx nf [] a b k = (if k < b - a then Some (a + k) else None)"
| "nth_search idx nf (desc # descs) a b k =
     (if b - a \<le> k then None
      else let p = (if desc then b - 1 - k else a + k)
           in case group_of idx p (nf + 1) of
                None \<Rightarrow> None
              | Some (g_lo, g_hi) \<Rightarrow>
                  nth_search idx (nf + 1) descs g_lo g_hi (k - (if desc then b - g_hi else g_lo - a)))"

definition window_nth :: "index_window \<Rightarrow> ordered_index \<Rightarrow> nat \<Rightarrow> nat \<Rightarrow> nat \<Rightarrow> nat \<Rightarrow> nat option" where
  "window_nth w idx prefix_len lo hi k = nth_search idx prefix_len (iw_descending w) lo hi k"

definition window_read :: "index_ops \<Rightarrow> index_window \<Rightarrow> store \<Rightarrow> value option \<Rightarrow> row_key list" where
  "window_read ops w s ctx =
     (case (prefix_values (iw_binding w) s ctx, hm_get (sto_collections s) (ib_table (iw_binding w))) of
        (Some prefix, Some coll) \<Rightarrow>
          let idx = fst (with_index ops (ib_def (iw_binding w)) coll);
              (lo, hi) = prefix_range idx prefix;
              len = hi - lo
          in if len \<le> iw_offset w then []
             else let take_n = min (iw_limit w) (len - iw_offset w)
                  in if True \<notin> set (iw_descending w)
                     then rows_at idx [lo + iw_offset w..<lo + iw_offset w + take_n]
                     else rows_at idx (List.map_filter (window_nth w idx (length prefix) lo hi)
                            [iw_offset w..<iw_offset w + take_n])
      | _ \<Rightarrow> [])"

definition swap_in :: "row_key list \<Rightarrow> index_window \<Rightarrow> zset \<times> index_window" where
  "swap_in new w =
     (let entered = fold (\<lambda>k d. hm_insert k (zget d k + 1) d) new [];
          both = fold (\<lambda>k d. hm_insert k (zget d k - 1) d) (iw_window w) entered
      in (hm_retain (\<lambda>_ wt. wt \<noteq> 0) both, w\<lparr>iw_window := new\<rparr>))"

definition window_refresh :: "index_ops \<Rightarrow> store \<Rightarrow> value option \<Rightarrow> index_window \<Rightarrow> zset \<times> index_window" where
  "window_refresh ops s ctx w =
     (let writes = window_writes w s
      in if iw_read_at w \<noteq> None \<and> iw_read_at w = writes then ([], w)
         else let new = window_read ops w s ctx in swap_in new (w\<lparr>iw_read_at := writes\<rparr>))"

definition index_window_snapshot :: "index_ops \<Rightarrow> index_window \<Rightarrow> store \<Rightarrow> value option \<Rightarrow> zset" where
  "index_window_snapshot ops w s ctx = keys_zset (window_read ops w s ctx)"

definition index_window_step :: "index_ops \<Rightarrow> store \<Rightarrow> value option \<Rightarrow> index_window \<Rightarrow> zset \<times> index_window" where
  "index_window_step ops s ctx w = window_refresh ops s ctx w"

definition index_window_reset :: "index_window \<Rightarrow> index_window" where
  "index_window_reset w = w\<lparr>iw_window := [], iw_read_at := None\<rparr>"

definition index_window_collections :: "index_window \<Rightarrow> string list" where
  "index_window_collections w = [ib_table (iw_binding w)]"

definition index_window_index_uses :: "index_window \<Rightarrow> (string \<times> string) list" where
  "index_window_index_uses w = [(ib_table (iw_binding w), idx_name (ib_def (iw_binding w)))]"

definition index_window_evaluate_key :: "index_window \<Rightarrow> row_key \<Rightarrow> bool" where
  "index_window_evaluate_key w key = (key \<in> set (iw_window w))"

definition index_window_reorder_key ::
  "index_ops \<Rightarrow> store \<Rightarrow> value option \<Rightarrow> row_key \<Rightarrow> index_window \<Rightarrow> (zset \<times> index_window) option" where
  "index_window_reorder_key ops s ctx key w =
     (if \<not> binding_owns (iw_binding w) key then None else Some (window_refresh ops s ctx w))"

subsection \<open>KeyScan\<close>

record key_scan =
  ks_table :: string
  ks_key :: json

definition key_scan_start :: "key_scan \<Rightarrow> store \<Rightarrow> value option \<Rightarrow> zset" where
  "key_scan_start k s ctx =
     (case resolve_predicate_value (ks_key k) ctx of
        Some (VStr key) \<Rightarrow>
          if (case strip_prefix key (ks_table k) of Some rest \<Rightarrow> starts_with rest '':'' | None \<Rightarrow> False)
             \<and> (case hm_get (sto_collections s) (ks_table k) of Some c \<Rightarrow> has_key c key | None \<Rightarrow> False)
          then [(key, 1)] else []
      | _ \<Rightarrow> [])"

definition key_scan_snapshot :: "key_scan \<Rightarrow> store \<Rightarrow> value option \<Rightarrow> zset" where
  "key_scan_snapshot k s ctx = key_scan_start k s ctx"

definition key_scan_step :: "zset list \<Rightarrow> zset" where
  "key_scan_step ds = (case ds of [] \<Rightarrow> [] | d # _ \<Rightarrow> d)"

definition key_scan_initial_input :: "key_scan \<Rightarrow> store \<Rightarrow> value option \<Rightarrow> zset option" where
  "key_scan_initial_input k s ctx = Some (key_scan_start k s ctx)"

definition key_scan_evaluate_key :: "key_scan \<Rightarrow> row_key \<Rightarrow> store \<Rightarrow> bool" where
  "key_scan_evaluate_key k key s =
     (case hm_get (sto_collections s) (ks_table k) of Some c \<Rightarrow> has_key c key | None \<Rightarrow> False)"

end
