(* ===== verification/Index_Windows.thy ===== *)
theory Index_Windows
  imports Index_Scans
begin

section \<open>Windows read off an index\<close>

text \<open>
  What \<^verbatim>\<open>prefix_range\<close>, \<^verbatim>\<open>group_of\<close>, \<^verbatim>\<open>nth\<close> and \<^verbatim>\<open>read\<close> of \<^verbatim>\<open>operator/index_scan.rs\<close> and
  \<^verbatim>\<open>circuit/index.rs\<close> return on a well-formed index: a prefix range holds exactly the entries whose
  leading values compare equal to the prefix, and a window is the asked slice of those entries in
  the order of the \<^verbatim>\<open>ORDER BY\<close> directions.
\<close>

subsection \<open>Lexicographic comparison of a leading part\<close>

lemma lex_cmp_append:
  "length xs = length ys \<Longrightarrow>
   lex_cmp c (xs @ us) (ys @ vs) = (case lex_cmp c xs ys of Equal \<Rightarrow> lex_cmp c us vs | r \<Rightarrow> r)"
  by (induction xs ys rule: list_induct2) (auto split: ordering.splits)

lemma lex_cmp_split:
  assumes "length pre = m" and "m \<le> length k"
  shows "lex_cmp c k (pre @ post) =
    (case lex_cmp c (take m k) pre of Equal \<Rightarrow> lex_cmp c (drop m k) post | r \<Rightarrow> r)"
  using lex_cmp_append [of "take m k" pre c "drop m k" post] assms by simp

lemma lex_cmp_take_Suc:
  assumes "m < length x" and "m < length y"
  shows "lex_cmp c (take (Suc m) x) (take (Suc m) y) =
    (case lex_cmp c (take m x) (take m y) of Equal \<Rightarrow> c (x ! m) (y ! m) | r \<Rightarrow> r)"
  using lex_cmp_append [of "take m x" "take m y" c "[x ! m]" "[y ! m]"] assms
  by (simp add: take_Suc_conv_app_nth split: ordering.splits)

lemma total_cmp_keys: "total_cmp (lex_cmp scalar_cmp) (\<lambda>k. length k = m \<and> list_all scalar_exact k)"
proof -
  have "total_cmp (lex_cmp scalar_cmp) (\<lambda>k. list_all2 (\<lambda>_. scalar_exact) (replicate m ()) k)"
    by (intro total_cmp_lex total_cmp_scalar)
  then show ?thesis by (rule total_cmp_cong) (auto simp: list_all2_conv_all_nth list_all_length)
qed

lemma scalar_below_top: "s \<noteq> STop \<Longrightarrow> scalar_cmp s STop = Less"
  by (cases s) (simp_all add: scalar_cmp_def scalar_rank_def cmp_def)

text \<open>The entries of a readable index: in order, of one width, and no value above every value.\<close>

definition readable :: "nat \<Rightarrow> (index_key \<times> row_key) list \<Rightarrow> bool" where
  "readable n es \<longleftrightarrow> cmp_sorted index_entry_cmp es \<and> distinct (map snd es)
     \<and> (\<forall>e \<in> set es. entry_dom n e \<and> STop \<notin> set (fst e))"

abbreviation lead_cmp :: "nat \<Rightarrow> index_key \<times> row_key \<Rightarrow> scalar list \<Rightarrow> ordering" where
  "lead_cmp m e pre \<equiv> lex_cmp scalar_cmp (take m (fst e)) pre"

lemma below_prefix:
  assumes "length pre = m" and "m \<le> length (fst e)"
  shows "index_entry_cmp e (pre, '''') = Less \<longleftrightarrow> lead_cmp m e pre = Less"
proof -
  have "lex_cmp scalar_cmp (drop m (fst e)) [] \<noteq> Less" by (cases "drop m (fst e)") simp_all
  then show ?thesis using lex_cmp_split [OF assms, of scalar_cmp "[]"]
    by (auto simp: pair_cmp_def split: ordering.splits)
qed

lemma below_prefix_top:
  assumes "length pre = m" and "m \<le> length (fst e)" and "STop \<notin> set (fst e)"
  shows "index_entry_cmp e (pre @ [STop], '''') = Less \<longleftrightarrow> lead_cmp m e pre \<noteq> Greater"
proof -
  have "lex_cmp scalar_cmp (drop m (fst e)) [STop] = Less"
  proof (cases "drop m (fst e)")
    case (Cons x xs)
    then have "x \<in> set (drop m (fst e))" by simp
    then have "x \<noteq> STop" using assms(3) by (auto dest: in_set_dropD)
    then show ?thesis using Cons by (simp add: scalar_below_top)
  qed simp
  then show ?thesis using lex_cmp_split [OF assms(1,2), of scalar_cmp "[STop]"]
    by (auto simp: pair_cmp_def split: ordering.splits)
qed

subsection \<open>Ranges of entries\<close>

lemma takeWhile_down_closed:
  assumes "\<And>i j. i < j \<Longrightarrow> j < length xs \<Longrightarrow> P (xs ! j) \<Longrightarrow> P (xs ! i)" and "q < length xs"
  shows "q < length (takeWhile P xs) \<longleftrightarrow> P (xs ! q)"
proof
  assume "q < length (takeWhile P xs)"
  then show "P (xs ! q)" by (metis nth_mem set_takeWhileD takeWhile_nth)
next
  assume q: "P (xs ! q)"
  show "q < length (takeWhile P xs)"
  proof (rule ccontr)
    let ?n = "length (takeWhile P xs)"
    assume "\<not> q < ?n"
    then have n: "?n < length xs" "?n \<le> q" using assms(2) by simp_all
    then have "\<not> P (xs ! ?n)" by (intro nth_length_takeWhile)
    then show False using q assms(1) [of ?n q] assms(2) n by (cases "q = ?n") auto
  qed
qed

text \<open>An interval of positions that holds exactly the entries with given leading values.\<close>

definition range_covers :: "(index_key \<times> row_key) list \<Rightarrow> nat \<Rightarrow> scalar list \<Rightarrow> nat \<Rightarrow> nat \<Rightarrow> bool" where
  "range_covers es m pre lo hi \<longleftrightarrow> lo \<le> hi \<and> hi \<le> length es
     \<and> (\<forall>q < length es. lo \<le> q \<and> q < hi \<longleftrightarrow> lead_cmp m (es ! q) pre = Equal)"

lemma entry_at:
  assumes es: "readable n es" and m: "m \<le> n" and q: "q < length es"
  shows "length (fst (es ! q)) = n" "list_all scalar_exact (fst (es ! q))" "STop \<notin> set (fst (es ! q))"
    "length (take m (fst (es ! q))) = m" "list_all scalar_exact (take m (fst (es ! q)))"
proof -
  have "es ! q \<in> set es" using q by simp
  then show e: "length (fst (es ! q)) = n" "list_all scalar_exact (fst (es ! q))" "STop \<notin> set (fst (es ! q))"
    using es by (auto simp: readable_def)
  then show "length (take m (fst (es ! q))) = m" "list_all scalar_exact (take m (fst (es ! q)))"
    using m by (auto simp: list_all_iff dest: in_set_takeD)
qed

lemma entries_increase:
  assumes "readable n es" and "i < j" and "j < length es"
  shows "index_entry_cmp (es ! i) (es ! j) = Less"
  using sorted_wrt_nth_less [of "\<lambda>a b. index_entry_cmp a b = Less" es i j] assms
  by (simp add: readable_def cmp_sorted_def)

lemma leads_increase:
  assumes es: "readable n es" and m: "m \<le> n" and ij: "i < j" "j < length es"
  shows "lead_cmp m (es ! i) (take m (fst (es ! j))) \<noteq> Greater"
proof -
  have l: "length (take m (fst (es ! j))) = m" "m \<le> length (fst (es ! i))" "m \<le> length (fst (es ! j))"
    using entry_at(1) [OF es m, of i] entry_at(1) [OF es m, of j] ij m by simp_all
  have "lex_cmp scalar_cmp (fst (es ! i)) (fst (es ! j)) =
      (case lead_cmp m (es ! i) (take m (fst (es ! j))) of
         Equal \<Rightarrow> lex_cmp scalar_cmp (drop m (fst (es ! i))) (drop m (fst (es ! j))) | r \<Rightarrow> r)"
    using lex_cmp_split [OF l(1,2), of scalar_cmp "drop m (fst (es ! j))"] by simp
  then show ?thesis using entries_increase [OF es ij] by (auto simp: pair_cmp_def split: ordering.splits)
qed

lemma prefix_range_covers:
  assumes es: "readable n es" and m: "m \<le> n" and idx: "oi_entries idx = es" and pre: "length pre = m" "list_all scalar_exact pre"
    and r: "prefix_range idx pre = (lo, hi)"
  shows "range_covers es m pre lo hi"
proof -
  let ?D = "\<lambda>k. length k = m \<and> list_all scalar_exact k"
  note T = total_cmp_keys [of m]
  let ?hi = "length (takeWhile (\<lambda>e. index_entry_cmp e (pre @ [STop], '''') = Less) es)"
  have lo: "lo = length (takeWhile (\<lambda>e. index_entry_cmp e (pre, '''') = Less) es)" and hi: "hi = max ?hi lo"
    using r idx by (auto simp: prefix_range_def entry_rank_def Let_def)
  have D: "?D (take m (fst (es ! q)))" "m \<le> length (fst (es ! q))" if "q < length es" for q
    using entry_at [OF es m that] m by simp_all
  have below: "index_entry_cmp (es ! q) (pre, '''') = Less \<longleftrightarrow> lead_cmp m (es ! q) pre = Less"
    "index_entry_cmp (es ! q) (pre @ [STop], '''') = Less \<longleftrightarrow> lead_cmp m (es ! q) pre \<noteq> Greater"
    if "q < length es" for q
    using below_prefix [OF pre(1) D(2) [OF that]] below_prefix_top [OF pre(1) D(2) [OF that]]
      entry_at(3) [OF es m that] by simp_all
  have down: "lead_cmp m (es ! j) pre = Less \<Longrightarrow> lead_cmp m (es ! i) pre = Less"
    "lead_cmp m (es ! j) pre \<noteq> Greater \<Longrightarrow> lead_cmp m (es ! i) pre \<noteq> Greater" if "i < j" "j < length es" for i j
  proof -
    have d: "?D (take m (fst (es ! i)))" "?D (take m (fst (es ! j)))" "?D pre" using D(1) that pre by auto
    have le: "lex_cmp scalar_cmp (take m (fst (es ! j))) (take m (fst (es ! i))) \<noteq> Less"
      using leads_increase [OF es m that] total_cmp.Greater_iff [OF T d(1,2)] by simp
    show "lead_cmp m (es ! j) pre = Less \<Longrightarrow> lead_cmp m (es ! i) pre = Less"
      using total_cmp.le_less_trans [OF T d le] .
    show "lead_cmp m (es ! j) pre \<noteq> Greater \<Longrightarrow> lead_cmp m (es ! i) pre \<noteq> Greater"
      using total_cmp.less_le_trans [OF T d(3) d(1) d(2) _ le] total_cmp.Greater_iff [OF T d(1,3)]
        total_cmp.Greater_iff [OF T d(2,3)] by blast
  qed
  have q: "q < lo \<longleftrightarrow> lead_cmp m (es ! q) pre = Less" "q < ?hi \<longleftrightarrow> lead_cmp m (es ! q) pre \<noteq> Greater"
    if "q < length es" for q
    unfolding lo
    using takeWhile_down_closed [OF _ that, of "\<lambda>e. index_entry_cmp e (pre, '''') = Less"]
      takeWhile_down_closed [OF _ that, of "\<lambda>e. index_entry_cmp e (pre @ [STop], '''') = Less"]
      below down that by (force dest: order.strict_trans)+
  have "lo \<le> q \<and> q < hi \<longleftrightarrow> lead_cmp m (es ! q) pre = Equal" if "q < length es" for q
    using q [OF that] unfolding hi by (cases "lead_cmp m (es ! q) pre") auto
  moreover have "lo \<le> hi" "hi \<le> length es" unfolding hi lo by (simp_all add: length_takeWhile_le)
  ultimately show ?thesis by (simp add: range_covers_def)
qed

subsection \<open>The k-th entry in a directed order\<close>

text \<open>
  The sort entry of an index entry below \<open>m\<close> shared fields: the values after them with the
  directions of the \<^verbatim>\<open>ORDER BY\<close> fields, and the row key.
\<close>

definition directed :: "nat \<Rightarrow> bool list \<Rightarrow> index_key \<times> row_key \<Rightarrow> entry" where
  "directed m descs e = (map2 (\<lambda>s d. \<lparr>sv_scalar = s, sv_descending = d\<rparr>) (drop m (fst e)) descs, snd e)"

lemma directed_Cons:
  assumes "m < length (fst e)" and "m < length (fst f)"
  shows "entry_cmp (directed m (d # descs) e) (directed m (d # descs) f) =
    (case scalar_cmp (fst e ! m) (fst f ! m) of
       Equal \<Rightarrow> entry_cmp (directed (Suc m) descs e) (directed (Suc m) descs f)
     | r \<Rightarrow> (if d then ordering_reverse r else r))"
  using assms
  by (cases "scalar_cmp (fst e ! m) (fst f ! m)")
    (auto simp: directed_def pair_cmp_def sortable_cmp_def Let_def Cons_nth_drop_Suc [symmetric]
      cong: ordering.case_cong)

text \<open>Sharing the first \<open>m\<close> values is an equivalence on the entries.\<close>

definition shared :: "(index_key \<times> row_key) list \<Rightarrow> nat \<Rightarrow> nat \<Rightarrow> nat \<Rightarrow> bool" where
  "shared es m p q \<longleftrightarrow> lead_cmp m (es ! p) (take m (fst (es ! q))) = Equal"

lemma shared_refl: "readable n es \<Longrightarrow> m \<le> n \<Longrightarrow> p < length es \<Longrightarrow> shared es m p p"
  using total_cmp.cmp_refl [OF total_cmp_keys [of m]] entry_at(4,5) by (simp add: shared_def)

lemma shared_sym:
  assumes es: "readable n es" and m: "m \<le> n" and pq: "p < length es" "q < length es" "shared es m p q"
  shows "shared es m q p"
  using total_cmp.Equal_sym [OF total_cmp_keys [of m], of "take m (fst (es ! p))" "take m (fst (es ! q))"]
    entry_at(4,5) [OF es m pq(1)] entry_at(4,5) [OF es m pq(2)] pq(3) by (simp add: shared_def)

lemma shared_subst:
  assumes es: "readable n es" and m: "m \<le> n" and pq: "p < length es" "q < length es" "shared es m p q"
    and pre: "length pre = m" "list_all scalar_exact pre"
  shows "lead_cmp m (es ! p) pre = lead_cmp m (es ! q) pre"
  using total_cmp.cmp_subst [OF total_cmp_keys [of m], of "take m (fst (es ! p))" "take m (fst (es ! q))" pre]
    entry_at(4,5) [OF es m pq(1)] entry_at(4,5) [OF es m pq(2)] pq(3) pre by (simp add: shared_def)

lemma shared_trans:
  assumes es: "readable n es" and m: "m \<le> n" and pqr: "p < length es" "q < length es" "r < length es"
    and s: "shared es m p q" "shared es m q r"
  shows "shared es m p r"
  using shared_subst [OF es m pqr(1,2) s(1) entry_at(4,5) [OF es m pqr(3)]] s(2) by (simp add: shared_def)

lemma shared_Suc:
  assumes es: "readable n es" and m: "m < n" and pq: "p < length es" "q < length es"
  shows "shared es (Suc m) p q \<longleftrightarrow>
    shared es m p q \<and> scalar_cmp (fst (es ! p) ! m) (fst (es ! q) ! m) = Equal"
proof -
  have l: "m < length (fst (es ! p))" "m < length (fst (es ! q))"
    using entry_at(1) [OF es less_imp_le [OF m]] pq m by simp_all
  show ?thesis using lex_cmp_take_Suc [OF l, of scalar_cmp] by (auto simp: shared_def split: ordering.splits)
qed

lemma covers_at: "range_covers es m pre lo hi \<Longrightarrow> lo \<le> p \<Longrightarrow> p < hi \<Longrightarrow> p < length es \<and> lead_cmp m (es ! p) pre = Equal"
  unfolding range_covers_def by (metis order.strict_trans2)

lemma covers_shared:
  assumes es: "readable n es" and m: "m \<le> n" and pre: "length pre = m" "list_all scalar_exact pre"
    and c: "range_covers es m pre lo hi" and pq: "lo \<le> p" "p < hi" "lo \<le> q" "q < hi"
  shows "shared es m p q"
proof -
  have b: "p < length es" "q < length es" "lead_cmp m (es ! p) pre = Equal" "lead_cmp m (es ! q) pre = Equal"
    using covers_at [OF c pq(1,2)] covers_at [OF c pq(3,4)] by simp_all
  note D = entry_at(4,5) [OF es m b(1)] entry_at(4,5) [OF es m b(2)]
  have "lex_cmp scalar_cmp pre (take m (fst (es ! q))) = Equal"
    using b(4) total_cmp.Equal_sym [OF total_cmp_keys [of m], of "take m (fst (es ! q))" pre] D pre by simp
  then show ?thesis
    using total_cmp.cmp_subst [OF total_cmp_keys [of m], of "take m (fst (es ! p))" pre "take m (fst (es ! q))"]
      b(3) D pre by (simp add: shared_def)
qed

lemma group_of_covers:
  assumes es: "readable n es" and m: "m \<le> n" and idx: "oi_entries idx = es" and p: "p < length es"
    and g: "group_of idx p m = Some (lo, hi)"
  shows "range_covers es m (take m (fst (es ! p))) lo hi" "lo \<le> p" "p < hi"
proof -
  note e = entry_at [OF es m p]
  have "min m n = m" using m by simp
  then have "prefix_range idx (take m (fst (es ! p))) = (lo, hi)"
    using g p e(1) by (simp add: group_of_def idx Let_def)
  then show c: "range_covers es m (take m (fst (es ! p))) lo hi"
    using prefix_range_covers [OF es m idx e(4,5)] by simp
  have "lead_cmp m (es ! p) (take m (fst (es ! p))) = Equal"
    using shared_refl [OF es m p] by (simp add: shared_def)
  then show "lo \<le> p" "p < hi" using c p by (auto simp: range_covers_def)
qed

text \<open>A group one field longer lies inside, and the entries around it differ in that field.\<close>

lemma subgroup:
  assumes es: "readable n es" and m: "m < n" and pre: "length pre = m" "list_all scalar_exact pre"
    and c: "range_covers es m pre a b" and p: "a \<le> p" "p < b"
    and g: "range_covers es (Suc m) (take (Suc m) (fst (es ! p))) lo hi" and gp: "lo \<le> p" "p < hi"
  shows "a \<le> lo" "hi \<le> b"
    and "a \<le> q \<Longrightarrow> q < lo \<Longrightarrow> lo \<le> r \<Longrightarrow> r < hi \<Longrightarrow> scalar_cmp (fst (es ! q) ! m) (fst (es ! r) ! m) = Less"
    and "hi \<le> q \<Longrightarrow> q < b \<Longrightarrow> lo \<le> r \<Longrightarrow> r < hi \<Longrightarrow> scalar_cmp (fst (es ! q) ! m) (fst (es ! r) ! m) = Greater"
    and "lo \<le> q \<Longrightarrow> q < hi \<Longrightarrow> lo \<le> r \<Longrightarrow> r < hi \<Longrightarrow> scalar_cmp (fst (es ! q) ! m) (fst (es ! r) ! m) = Equal"
proof -
  note m' = less_imp_le [OF m] Suc_leI [OF m]
  have len: "b \<le> length es" "hi \<le> length es" "p < length es" using c g p(2) by (auto simp: range_covers_def)
  have group: "lo \<le> q \<and> q < hi \<longleftrightarrow> shared es (Suc m) q p" if "q < length es" for q
    using g that by (simp add: range_covers_def shared_def)
  have inside: "a \<le> q \<and> q < b" if "lo \<le> q" "q < hi" for q
  proof -
    have q: "q < length es" "shared es m q p" using group [of q] that len shared_Suc [OF es m, of q p] by auto
    then have "lead_cmp m (es ! q) pre = Equal"
      using shared_subst [OF es m'(1) q(1) len(3) q(2) pre] covers_at [OF c p] by simp
    then show ?thesis using c q(1) by (auto simp: range_covers_def)
  qed
  show "a \<le> lo" using inside [of lo] gp by simp
  show "hi \<le> b" using inside [of "hi - 1"] gp by linarith
  have eq: "shared es (Suc m) q r \<Longrightarrow> lo \<le> q \<and> q < hi" if "q < length es" "lo \<le> r" "r < hi" for q r
    using shared_trans [OF es m'(2) that(1) _ len(3), of r] group [of r] group [of q] that len by auto
  have sh: "shared es m q r" if "a \<le> q" "q < b" "lo \<le> r" "r < hi" for q r
    using covers_shared [OF es m'(1) pre c, of q r] inside [of r] that by simp
  have up: "scalar_cmp (fst (es ! i) ! m) (fst (es ! j) ! m) \<noteq> Greater"
    if "i < j" "j < length es" "shared es m i j" for i j
  proof -
    have l: "m < length (fst (es ! i))" "m < length (fst (es ! j))"
      using entry_at(1) [OF es m'(1)] that m by simp_all
    show ?thesis
      using leads_increase [OF es m'(2) that(1,2)] that(3) lex_cmp_take_Suc [OF l, of scalar_cmp]
      by (simp add: shared_def)
  qed
  have exact: "scalar_exact (fst (es ! q) ! m)" if "q < length es" for q
    using entry_at(1,2) [OF es m'(1) that] m by (simp add: list_all_length)
  show "scalar_cmp (fst (es ! q) ! m) (fst (es ! r) ! m) = Equal" if "lo \<le> q" "q < hi" "lo \<le> r" "r < hi"
    using shared_Suc [OF es m, of q r] group [of q] group [of r] that len
      shared_trans [OF es m'(2), of q p r] shared_sym [OF es m'(2), of r p] by auto
  show "scalar_cmp (fst (es ! q) ! m) (fst (es ! r) ! m) = Less" if "a \<le> q" "q < lo" "lo \<le> r" "r < hi"
  proof -
    have "scalar_cmp (fst (es ! q) ! m) (fst (es ! r) ! m) \<noteq> Equal"
      using eq [of q r] sh [of q r] shared_Suc [OF es m, of q r] inside [of r] that len by auto
    then show ?thesis
      using up [of q r] sh [of q r] inside [of r] that len by (cases "scalar_cmp (fst (es ! q) ! m) (fst (es ! r) ! m)") auto
  qed
  show "scalar_cmp (fst (es ! q) ! m) (fst (es ! r) ! m) = Greater" if "hi \<le> q" "q < b" "lo \<le> r" "r < hi"
  proof -
    have q: "q < length es" "r < length es" "a \<le> q" "r < q" using that len inside [of r] by auto
    have "scalar_cmp (fst (es ! q) ! m) (fst (es ! r) ! m) \<noteq> Equal"
      using eq [of q r] sh [of q r] shared_Suc [OF es m, of q r] that q by auto
    moreover have "scalar_cmp (fst (es ! q) ! m) (fst (es ! r) ! m) \<noteq> Less"
      using up [of r q] shared_sym [OF es m'(1), of q r] sh [of q r] that q
        total_cmp.Greater_iff [OF total_cmp_scalar exact [OF q(2)] exact [OF q(1)]] by auto
    ultimately show ?thesis by (cases "scalar_cmp (fst (es ! q) ! m) (fst (es ! r) ! m)") auto
  qed
qed

text \<open>
  The search finds the entry with exactly \<open>k\<close> entries of the range before it, and none of its
  subtractions underflows.
\<close>

abbreviation before :: "(index_key \<times> row_key) list \<Rightarrow> nat \<Rightarrow> bool list \<Rightarrow> nat \<Rightarrow> nat \<Rightarrow> nat \<Rightarrow> nat set" where
  "before es m descs a b p \<equiv> {q. a \<le> q \<and> q < b \<and> entry_less (directed m descs (es ! q)) (directed m descs (es ! p))}"

lemma before_subgroup:
  assumes es: "readable n es" and m: "m < n" and pre: "length pre = m" "list_all scalar_exact pre"
    and c: "range_covers es m pre a b" and p: "a \<le> p" "p < b"
    and g: "range_covers es (Suc m) (take (Suc m) (fst (es ! p))) lo hi" and gp: "lo \<le> p" "p < hi"
    and r: "lo \<le> r" "r < hi"
  shows "before es m (d # descs) a b r = (if d then {hi..<b} else {a..<lo}) \<union> before es (Suc m) descs lo hi r"
proof -
  note S = subgroup [OF es m pre c p g gp]
  have len: "b \<le> length es" "hi \<le> length es" using c g by (auto simp: range_covers_def)
  have "m < length (fst (es ! q))" if "q < length es" for q
    using entry_at(1) [OF es less_imp_le [OF m] that] m by simp
  then have D: "entry_cmp (directed m (d # descs) (es ! q)) (directed m (d # descs) (es ! r)) =
    (case scalar_cmp (fst (es ! q) ! m) (fst (es ! r) ! m) of
       Equal \<Rightarrow> entry_cmp (directed (Suc m) descs (es ! q)) (directed (Suc m) descs (es ! r))
     | r \<Rightarrow> (if d then ordering_reverse r else r))" if "q < length es" for q
    using that r len by (intro directed_Cons) simp_all
  have "q \<in> before es m (d # descs) a b r \<longleftrightarrow>
      q \<in> (if d then {hi..<b} else {a..<lo}) \<union> before es (Suc m) descs lo hi r" for q
  proof (cases "a \<le> q \<and> q < b")
    case True
    then consider "q < lo" | "lo \<le> q" "q < hi" | "hi \<le> q" by linarith
    then show ?thesis
    proof cases
      case 1
      then show ?thesis using True S(3) [of q r] D [of q] r len by (simp add: entry_less_def)
    next
      case 2
      then show ?thesis using True S(5) [of q r] D [of q] r len by (simp add: entry_less_def)
    next
      case 3
      then show ?thesis using True S(4) [of q r] D [of q] r len gp by (simp add: entry_less_def)
    qed
  qed (use S(1,2) gp in auto)
  then show ?thesis by blast
qed

lemma nth_search_spec:
  "readable n es \<Longrightarrow> oi_entries idx = es \<Longrightarrow> m + length descs = n \<Longrightarrow> length pre = m \<Longrightarrow> list_all scalar_exact pre \<Longrightarrow>
   range_covers es m pre a b \<Longrightarrow> k < b - a \<Longrightarrow>
   \<exists>p. nth_search idx m descs a b k = Some p \<and> a \<le> p \<and> p < b \<and> card (before es m descs a b p) = k"
proof (induction descs arbitrary: m pre a b k)
  case Nil
  have m: "m \<le> n" and len: "b \<le> length es" using Nil.prems(3,6) by (auto simp: range_covers_def)
  have less: "entry_less (directed m [] (es ! q)) (directed m [] (es ! (a + k))) \<longleftrightarrow> q < a + k" if q: "a \<le> q" "q < b" for q
  proof -
    have "index_entry_cmp (es ! i) (es ! j) = cmp (snd (es ! i)) (snd (es ! j))" if "a \<le> i" "i < b" "a \<le> j" "j < b" for i j
      using covers_shared [OF Nil.prems(1) m Nil.prems(4,5,6), of i j] that
        entry_at(1) [OF Nil.prems(1) m, of i] entry_at(1) [OF Nil.prems(1) m, of j] Nil.prems(3) len
      by (simp add: shared_def pair_cmp_def)
    then have inc: "snd (es ! i) < snd (es ! j)" if "i < j" "a \<le> i" "j < b" for i j
      using entries_increase [OF Nil.prems(1), of i j] that len by simp
    show ?thesis using inc [of q "a + k"] inc [of "a + k" q] q Nil.prems(7)
      by (cases q "a + k" rule: linorder_cases) (auto simp: entry_less_def directed_def pair_cmp_def)
  qed
  then have "before es m [] a b (a + k) = {a..<a + k}" using Nil.prems(7) by auto
  then show ?case using Nil.prems(7) by simp
next
  case (Cons d descs)
  let ?p = "if d then b - 1 - k else a + k"
  have m: "m < n" "m \<le> n" "Suc m \<le> n" using Cons.prems(3) by simp_all
  have p: "a \<le> ?p" "?p < b" "?p < length es" using Cons.prems(6,7) by (auto simp: range_covers_def)
  then obtain lo hi where gr: "group_of idx ?p (Suc m) = Some (lo, hi)"
    using Cons.prems(2) by (cases "group_of idx ?p (Suc m)") (auto simp: group_of_def Let_def)
  note g = group_of_covers [OF Cons.prems(1) m(3) Cons.prems(2) p(3) gr]
  note e = entry_at(4,5) [OF Cons.prems(1) m(3) p(3)]
  note S = subgroup(1,2) [OF Cons.prems(1) m(1) Cons.prems(4-6) p(1,2) g]
  let ?k = "k - (if d then b - hi else lo - a)"
  have before: "(if d then b - hi else lo - a) \<le> k" using g(2,3) S Cons.prems(7) by auto
  have "?k < hi - lo" using g(2,3) S Cons.prems(7) by auto
  from Cons.IH [OF Cons.prems(1,2) _ e g(1) this] obtain r
    where r: "nth_search idx (Suc m) descs lo hi ?k = Some r" "lo \<le> r" "r < hi"
      "card (before es (Suc m) descs lo hi r) = ?k" using Cons.prems(3) by auto
  have "before es m (d # descs) a b r = (if d then {hi..<b} else {a..<lo}) \<union> before es (Suc m) descs lo hi r"
    by (rule before_subgroup [OF Cons.prems(1) m(1) Cons.prems(4-6) p(1,2) g r(2,3)])
  moreover have "finite (before es (Suc m) descs lo hi r)" by simp
  moreover have "(if d then {hi..<b} else {a..<lo}) \<inter> before es (Suc m) descs lo hi r = {}" by auto
  ultimately have "card (before es m (d # descs) a b r) = k"
    using r(4) before by (simp add: card_Un_disjoint)
  moreover have "nth_search idx m (d # descs) a b k = Some r"
    using gr r(1) Cons.prems(7) by (auto simp: Let_def)
  ultimately show ?case using r(2,3) S by (intro exI [of _ r]) simp
qed

subsection \<open>The window\<close>

text \<open>An element of a strictly sorted list stands where the number of smaller elements says.\<close>

lemma nth_by_rank:
  assumes "total_cmp c D" and "list_all D xs" and "cmp_sorted c xs" and "x \<in> set xs"
    and "card {y \<in> set xs. c y x = Less} = k"
  shows "k < length xs" and "xs ! k = x"
proof -
  obtain j where j: "j < length xs" "xs ! j = x" using assms(4) by (auto simp: in_set_conv_nth)
  have inc: "c (xs ! i) (xs ! i') = Less" if "i < i'" "i' < length xs" for i i'
    using sorted_wrt_nth_less [OF _ that] assms(3) by (simp add: cmp_sorted_def)
  have D: "D (xs ! i)" if "i < length xs" for i using assms(2) that by (simp add: list_all_length)
  have less: "c (xs ! i) x = Less \<longleftrightarrow> i < j" if "i < length xs" for i
    using inc [of i j] inc [of j i] total_cmp.Less_asym [OF assms(1) D D, of i j]
      total_cmp.not_Less_self [OF assms(1) D [OF that]] that j
    by (cases i j rule: linorder_cases) auto
  have "{y \<in> set xs. c y x = Less} = (!) xs ` {..<j}"
    using less j by (auto simp: in_set_conv_nth image_iff) (metis order.strict_trans)+
  moreover have "inj_on ((!) xs) {..<j}"
    using total_cmp.sorted_distinct [OF assms(1-3)] j
    by (intro inj_on_nth) simp_all
  ultimately have "k = j" using assms(5) by (simp add: card_image)
  then show "k < length xs" "xs ! k = x" using j by simp_all
qed

text \<open>The entries of a range and the order of the window.\<close>

definition range_entries :: "(index_key \<times> row_key) list \<Rightarrow> nat \<Rightarrow> nat \<Rightarrow> (index_key \<times> row_key) list" where
  "range_entries es lo hi = take (hi - lo) (drop lo es)"

definition window_order :: "nat \<Rightarrow> bool list \<Rightarrow> (index_key \<times> row_key) list \<Rightarrow> entry list" where
  "window_order m descs es = cmp_sort entry_cmp (map (directed m descs) es)"

lemma length_range_entries: "hi \<le> length es \<Longrightarrow> length (range_entries es lo hi) = hi - lo"
  by (simp add: range_entries_def)

lemma range_entries_nth: "hi \<le> length es \<Longrightarrow> i < hi - lo \<Longrightarrow> range_entries es lo hi ! i = es ! (lo + i)"
  by (simp add: range_entries_def)

lemma set_range_entries: "hi \<le> length es \<Longrightarrow> set (range_entries es lo hi) = (!) es ` {lo..<hi}"
proof -
  assume hi: "hi \<le> length es"
  have "range_entries es lo hi = map ((!) es) [lo..<hi]"
    using range_entries_nth [OF hi, of _ lo] length_range_entries [OF hi, of lo] by (intro nth_equalityI) auto
  then show ?thesis by simp
qed

lemma directed_exact:
  assumes "entry_dom n e" and "m + length descs = n"
  shows "key_exact descs (fst (directed m descs e))"
  using assms by (auto simp: key_exact_def directed_def list_all2_conv_all_nth list_all_length)

lemma snd_directed [simp]: "snd (directed m descs e) = snd e"
  by (simp add: directed_def)

lemma range_entries_subset: "set (range_entries es lo hi) \<subseteq> set es"
  by (auto simp: range_entries_def dest: in_set_takeD in_set_dropD)

lemma distinct_directed:
  assumes "distinct (map snd es)"
  shows "distinct (map (directed m descs) es)"
proof -
  have "distinct (map snd (map (directed m descs) es))" using assms by (simp add: comp_def)
  then show ?thesis by (rule distinct_map [THEN iffD1, THEN conjunct1])
qed

text \<open>Entries of one width with a row key each, which is what the order of a window needs.\<close>

definition orderable_entries :: "nat \<Rightarrow> (index_key \<times> row_key) list \<Rightarrow> bool" where
  "orderable_entries n es \<longleftrightarrow> distinct (map snd es) \<and> (\<forall>e \<in> set es. entry_dom n e)"

lemma orderable_range: "readable n es \<Longrightarrow> orderable_entries n (range_entries es lo hi)"
  using range_entries_subset [of es lo hi]
  by (auto simp: orderable_entries_def readable_def range_entries_def take_map [symmetric] drop_map [symmetric])

lemma window_order_sorted:
  assumes es: "orderable_entries n es" and n: "m + length descs = n"
  shows "cmp_sorted entry_cmp (window_order m descs es)"
    and "list_all (\<lambda>e. key_exact descs (fst e)) (window_order m descs es)"
proof -
  let ?xs = "map (directed m descs) es"
  have D: "list_all (\<lambda>e. key_exact descs (fst e)) ?xs"
    using es directed_exact [OF _ n] by (force simp: list_all_iff orderable_entries_def)
  have sn: "distinct (map snd es)" using es by (simp add: orderable_entries_def)
  have "distinct ?xs" using distinct_directed [OF sn] .
  moreover have "x = y" if "x \<in> set ?xs" "y \<in> set ?xs" "entry_cmp x y = Equal" for x y
  proof -
    obtain e f where ef: "e \<in> set es" "x = directed m descs e" "f \<in> set es" "y = directed m descs f"
      using \<open>x \<in> set ?xs\<close> \<open>y \<in> set ?xs\<close> by auto
    then have "snd e = snd f" using \<open>entry_cmp x y = Equal\<close> by (simp add: pair_cmp_Equal)
    then show ?thesis using ef sn by (auto simp: distinct_map dest: inj_onD)
  qed
  ultimately show "cmp_sorted entry_cmp (window_order m descs es)"
    unfolding window_order_def by (intro total_cmp.cmp_sorted_sort [OF total_cmp_entry D]) blast+
  show "list_all (\<lambda>e. key_exact descs (fst e)) (window_order m descs es)"
    using D by (simp add: window_order_def list_all_iff)
qed

lemma window_order_cong:
  assumes "orderable_entries n xs" and "orderable_entries n ys" and "set xs = set ys" and "m + length descs = n"
  shows "window_order m descs xs = window_order m descs ys"
  using window_order_sorted [OF assms(1,4)] window_order_sorted [OF assms(2,4)] assms(3)
  by (intro total_cmp.sorted_unique [OF total_cmp_entry]) (simp_all add: window_order_def)

lemma nth_search_order:
  assumes es: "readable n es" "oi_entries idx = es" and n: "m + length descs = n"
    and pre: "length pre = m" "list_all scalar_exact pre" and c: "range_covers es m pre lo hi" and k: "k < hi - lo"
  shows "\<exists>p. nth_search idx m descs lo hi k = Some p \<and> p < length es
    \<and> window_order m descs (range_entries es lo hi) ! k = directed m descs (es ! p)"
proof -
  let ?o = "window_order m descs (range_entries es lo hi)"
  obtain p where p: "nth_search idx m descs lo hi k = Some p" "lo \<le> p" "p < hi"
      "card (before es m descs lo hi p) = k"
    using nth_search_spec [OF es n pre c k] by blast
  have hi: "hi \<le> length es" using c by (simp add: range_covers_def)
  have set: "set ?o = (\<lambda>q. directed m descs (es ! q)) ` {lo..<hi}"
    using set_range_entries [OF hi, of lo] by (auto simp: window_order_def)
  have inj: "inj_on (\<lambda>q. directed m descs (es ! q)) {lo..<hi}"
  proof (rule inj_onI)
    fix i j assume ij: "i \<in> {lo..<hi}" "j \<in> {lo..<hi}" "directed m descs (es ! i) = directed m descs (es ! j)"
    then have "snd (es ! i) = snd (es ! j)" by (metis snd_directed)
    then show "i = j" using es(1) ij hi nth_eq_iff_index_eq [of "map snd es" i j] by (simp add: readable_def)
  qed
  have "{y \<in> set ?o. entry_cmp y (directed m descs (es ! p)) = Less} =
      (\<lambda>q. directed m descs (es ! q)) ` before es m descs lo hi p"
    unfolding set by (auto simp: entry_less_def)
  then have "card {y \<in> set ?o. entry_cmp y (directed m descs (es ! p)) = Less} = k"
    using p(4) card_image [OF inj_on_subset [OF inj], of "before es m descs lo hi p"] by fastforce
  then have "?o ! k = directed m descs (es ! p)"
    using p(2,3) set by (intro nth_by_rank(2) [OF total_cmp_entry window_order_sorted(2,1) [OF orderable_range [OF es(1)] n]]) auto
  then show ?thesis using p hi by auto
qed

lemma lex_cmp_ascending:
  "length xs = length descs \<Longrightarrow> length ys = length descs \<Longrightarrow> True \<notin> set descs \<Longrightarrow>
   lex_cmp sortable_cmp (map2 (\<lambda>s d. \<lparr>sv_scalar = s, sv_descending = d\<rparr>) xs descs)
     (map2 (\<lambda>s d. \<lparr>sv_scalar = s, sv_descending = d\<rparr>) ys descs) = lex_cmp scalar_cmp xs ys"
  by (induction xs descs arbitrary: ys rule: list_induct2)
    (auto simp: length_Suc_conv sortable_cmp_def split: ordering.splits)

lemma directed_ascending:
  assumes "length (fst e) = m + length descs" and "length (fst f) = m + length descs" and "True \<notin> set descs"
    and "lead_cmp m e (take m (fst f)) = Equal"
  shows "entry_cmp (directed m descs e) (directed m descs f) = index_entry_cmp e f"
proof -
  have "lex_cmp scalar_cmp (fst e) (fst f) = lex_cmp scalar_cmp (drop m (fst e)) (drop m (fst f))"
    using lex_cmp_split [of "take m (fst f)" m "fst e" scalar_cmp "drop m (fst f)"] assms by simp
  then show ?thesis
    using lex_cmp_ascending [of "drop m (fst e)" descs "drop m (fst f)"] assms
    by (simp add: pair_cmp_def directed_def cong: ordering.case_cong)
qed

lemma window_order_ascending:
  assumes es: "readable n es" and n: "m + length descs = n" and asc: "True \<notin> set descs"
    and pre: "length pre = m" "list_all scalar_exact pre" and c: "range_covers es m pre lo hi"
  shows "window_order m descs (range_entries es lo hi) = map (directed m descs) (range_entries es lo hi)"
proof -
  let ?r = "range_entries es lo hi"
  have hi: "hi \<le> length es" and m: "m \<le> n" using c n by (auto simp: range_covers_def)
  have less: "entry_cmp (directed m descs (?r ! i)) (directed m descs (?r ! j)) = Less" if "i < j" "j < hi - lo" for i j
  proof -
    have ij: "lo + i < lo + j" "lo + j < length es" using that hi by auto
    have "shared es m (lo + i) (lo + j)" using covers_shared [OF es m pre c, of "lo + i" "lo + j"] that by simp
    then have "entry_cmp (directed m descs (es ! (lo + i))) (directed m descs (es ! (lo + j))) =
        index_entry_cmp (es ! (lo + i)) (es ! (lo + j))"
      using entry_at(1) [OF es m, of "lo + i"] entry_at(1) [OF es m, of "lo + j"] ij n asc
      by (intro directed_ascending) (simp_all add: shared_def)
    then show ?thesis using entries_increase [OF es ij] range_entries_nth [OF hi] that by simp
  qed
  have "cmp_sorted entry_cmp (map (directed m descs) ?r)"
    using less length_range_entries [OF hi, of lo] by (simp add: cmp_sorted_def sorted_wrt_iff_nth_less)
  moreover have "list_all (\<lambda>e. key_exact descs (fst e)) (map (directed m descs) ?r)"
    using window_order_sorted(2) [OF orderable_range [OF es] n, of lo hi] by (simp add: window_order_def list_all_iff)
  ultimately show ?thesis
    using window_order_sorted [OF orderable_range [OF es] n, of lo hi]
    by (intro total_cmp.sorted_unique [OF total_cmp_entry]) (simp_all add: window_order_def)
qed

lemma rows_at_map:
  "(\<And>p. p \<in> set ps \<Longrightarrow> p < length (oi_entries idx)) \<Longrightarrow> rows_at idx ps = map (\<lambda>p. snd (oi_entries idx ! p)) ps"
  by (induction ps) (auto simp: rows_at_def List.map_filter_def index_row_at_def)

lemma map_filter_Some:
  "(\<And>x. x \<in> set xs \<Longrightarrow> f x = Some (g x)) \<Longrightarrow> List.map_filter f xs = map g xs"
  by (induction xs) (auto simp: List.map_filter_def)

lemma take_drop_nth_map:
  "i + t \<le> length xs \<Longrightarrow> map ((!) xs) [i..<i + t] = take t (drop i xs)"
  by (intro nth_equalityI) auto

text \<open>What \<^verbatim>\<open>read\<close> returns, over the entries of its index.\<close>

lemma window_read_entries:
  assumes coll: "hm_get (sto_collections s) (ib_table (iw_binding w)) = Some c"
    and idx: "idx = fst (with_index ops (ib_def (iw_binding w)) c)" and es: "readable n (oi_entries idx)"
    and pre: "prefix_values (iw_binding w) s ctx = Some pre" "list_all scalar_exact pre"
    and n: "length pre + length (iw_descending w) = n" and r: "prefix_range idx pre = (lo, hi)"
  shows "window_read ops w s ctx =
    map snd (take (iw_limit w) (drop (iw_offset w)
      (window_order (length pre) (iw_descending w) (range_entries (oi_entries idx) lo hi))))"
proof -
  let ?es = "oi_entries idx" and ?m = "length pre" and ?descs = "iw_descending w" and ?off = "iw_offset w"
  let ?o = "window_order ?m ?descs (range_entries ?es lo hi)"
  have c: "range_covers ?es ?m pre lo hi" using prefix_range_covers [OF es _ refl refl pre(2) r] n by simp
  then have hi: "lo \<le> hi" "hi \<le> length ?es" by (simp_all add: range_covers_def)
  have len: "length ?o = hi - lo" by (simp add: window_order_def length_range_entries [OF hi(2)])
  define t where "t = min (iw_limit w) (hi - lo - ?off)"
  have t: "take (iw_limit w) (drop ?off ?o) = take t (drop ?off ?o)" by (simp add: t_def len min_def)
  show ?thesis
  proof (cases "hi - lo \<le> ?off")
    case True
    then show ?thesis using coll pre(1) r len by (simp add: window_read_def idx [symmetric])
  next
    case False
    then have ot: "?off + t \<le> hi - lo" by (simp add: t_def)
    have "window_read ops w s ctx = map snd (take t (drop ?off ?o))"
    proof (cases "True \<in> set ?descs")
      case asc: False
      have "window_read ops w s ctx = rows_at idx [lo + ?off..<lo + ?off + t]"
        using False asc coll pre(1) r by (simp add: window_read_def idx [symmetric] t_def Let_def)
      also have "\<dots> = map (\<lambda>p. snd (?es ! p)) [lo + ?off..<lo + ?off + t]" by (rule rows_at_map) (use ot hi in auto)
      also have "\<dots> = map snd (take t (drop ?off ?o))"
        using window_order_ascending [OF es n asc refl pre(2) c] ot hi
        by (intro nth_equalityI) (simp_all add: length_range_entries range_entries_nth add.assoc)
      finally show ?thesis .
    next
      case desc: True
      obtain f where f: "nth_search idx ?m ?descs lo hi k = Some (f k)" "f k < length ?es"
          "?o ! k = directed ?m ?descs (?es ! f k)" if "k < hi - lo" for k
        using nth_search_order [OF es refl n refl pre(2) c] by metis
      have "window_read ops w s ctx = rows_at idx (List.map_filter (window_nth w idx ?m lo hi) [?off..<?off + t])"
        using False desc coll pre(1) r by (simp add: window_read_def idx [symmetric] t_def Let_def)
      also have "\<dots> = rows_at idx (map f [?off..<?off + t])"
        using f(1) ot by (subst map_filter_Some [where g = f]) (simp_all add: window_nth_def)
      also have "\<dots> = map (\<lambda>p. snd (?es ! p)) (map f [?off..<?off + t])"
        by (rule rows_at_map) (use f(2) ot in auto)
      also have "\<dots> = map (\<lambda>k. snd (?o ! k)) [?off..<?off + t]" using f(3) ot by (simp add: comp_def)
      also have "\<dots> = map snd (take t (drop ?off ?o))"
        using take_drop_nth_map [of ?off t ?o, symmetric] ot len by (simp add: comp_def)
      finally show ?thesis .
    qed
    then show ?thesis using t by simp
  qed
qed

subsection \<open>The window over the rows of the table\<close>

text \<open>The entry a row files under in an index with the definition \<open>d\<close>.\<close>

definition def_entry :: "index_def \<Rightarrow> string \<Rightarrow> string \<times> value \<times> digest \<Rightarrow> index_key \<times> row_key" where
  "def_entry d name e = row_entry name (index_new d) e"

lemma fst_def_entry: "fst (def_entry d name e) =
    map (\<lambda>p. scalar_from_value (resolve_field (from_value (fst (snd e))) p)) (index_paths d)"
  by (simp add: def_entry_def row_entry_def key_of_def sortable_from_value_def split: prod.splits)

lemma snd_def_entry [simp]: "snd (def_entry d name e) = row_key_of name (fst e)"
  by (simp add: def_entry_def row_entry_def split: prod.splits)

lemma with_index_readable:
  assumes ops: "index_ops_ok ops" and inv: "index_inv c" and idx: "idx = fst (with_index ops d c)"
  shows "readable (length (idx_fields d)) (oi_entries idx)"
    and "set (oi_entries idx) = def_entry d (co_name c) ` set (co_rows c)"
proof -
  obtain st c' where w: "with_index ops d c = (idx, st, c')" unfolding idx by (metis prod.collapse)
  have ok: "index_ok (co_name c) (set (co_rows c)) idx" "oi_def idx = d" "is_complete idx"
    using with_index_ok [OF ops inv w] by simp_all
  have paths: "oi_paths idx = index_paths d" using ok(1,2) by (simp add: index_ok_def)
  have "row_entry (co_name c) idx = def_entry d (co_name c)"
    by (rule ext) (simp add: def_entry_def row_entry_def key_of_def paths split: prod.splits)
  then show set: "set (oi_entries idx) = def_entry d (co_name c) ` set (co_rows c)"
    using index_ok_complete [OF ok(1,3)] by simp
  have l: "index_lawful idx" using ok(1) by (simp add: index_ok_def)
  have n: "length (oi_paths idx) = length (idx_fields d)" by (simp add: paths index_paths_def)
  have ds: "distinct (oi_entries idx)"
    using total_cmp.sorted_distinct [OF total_cmp_index_entry] l by (auto simp: index_lawful_def)
  have "inj_on snd (set (oi_entries idx))"
  proof (rule inj_onI)
    fix x y assume xy: "x \<in> set (oi_entries idx)" "y \<in> set (oi_entries idx)" "snd x = snd y"
    then obtain e f where "e \<in> set (co_rows c)" "x = def_entry d (co_name c) e"
      "f \<in> set (co_rows c)" "y = def_entry d (co_name c) f" using set by auto
    then show "x = y"
      using row_entry_inj [of "set (co_rows c)" e f "co_name c" "index_new d"] xy(3) inv
      by (simp add: def_entry_def index_inv_def rows_ok_def)
  qed
  moreover have "STop \<notin> set (fst x)" if "x \<in> set (oi_entries idx)" for x
    using that set by (auto simp: fst_def_entry scalar_from_value_def split: value_ref.splits)
  ultimately show "readable (length (idx_fields d)) (oi_entries idx)"
    using l ds n by (auto simp: readable_def index_lawful_def distinct_map list_all_iff)
qed

text \<open>The rows whose leading indexed values are the prefix, as sort entries in order.\<close>

definition matching_rows :: "index_def \<Rightarrow> scalar list \<Rightarrow> collection \<Rightarrow> (string \<times> value \<times> digest) list" where
  "matching_rows d pre c =
     filter (\<lambda>e. lead_cmp (length pre) (def_entry d (co_name c) e) pre = Equal) (co_rows c)"

definition ordered_rows :: "index_def \<Rightarrow> scalar list \<Rightarrow> bool list \<Rightarrow> collection \<Rightarrow> entry list" where
  "ordered_rows d pre descs c =
     window_order (length pre) descs (map (def_entry d (co_name c)) (matching_rows d pre c))"

lemma orderable_rows:
  assumes "index_inv c"
  shows "orderable_entries (length (idx_fields d)) (map (def_entry d (co_name c)) (matching_rows d pre c))"
proof -
  have wf: "distinct (map fst (co_rows c))" "rows_ok (set (co_rows c))" using assms by (simp_all add: index_inv_def hm_wf_def)
  then have "distinct (map fst (matching_rows d pre c))" by (simp add: matching_rows_def distinct_map_filter)
  then have "distinct (map (row_key_of (co_name c)) (map fst (matching_rows d pre c)))"
    unfolding distinct_map [of "row_key_of (co_name c)"] by (auto simp: inj_on_def row_key_of_inj)
  moreover have "entry_dom (length (idx_fields d)) (def_entry d (co_name c) e)" if "e \<in> set (co_rows c)" for e
    using row_entry_dom [OF wf(2) that, of "co_name c" "index_new d"] by (simp add: def_entry_def index_paths_def)
  ultimately show ?thesis by (auto simp: orderable_entries_def comp_def matching_rows_def)
qed

lemma range_rows:
  assumes "index_ops_ok ops" and "index_inv c" and "length pre \<le> length (idx_fields d)" and "list_all scalar_exact pre"
    and "prefix_range (fst (with_index ops d c)) pre = (lo, hi)"
  shows "set (range_entries (oi_entries (fst (with_index ops d c))) lo hi) =
    def_entry d (co_name c) ` set (matching_rows d pre c)"
    and "hi \<le> length (oi_entries (fst (with_index ops d c)))"
proof -
  let ?es = "oi_entries (fst (with_index ops d c))"
  note R = with_index_readable [OF assms(1,2) refl, of d]
  have c: "range_covers ?es (length pre) pre lo hi"
    by (rule prefix_range_covers [OF R(1) assms(3) refl refl assms(4,5)])
  then show hi: "hi \<le> length ?es" by (simp add: range_covers_def)
  have "set (range_entries ?es lo hi) = {e \<in> set ?es. lead_cmp (length pre) e pre = Equal}"
  proof (intro equalityI subsetI)
    fix e assume "e \<in> set (range_entries ?es lo hi)"
    then obtain q where "lo \<le> q" "q < hi" "e = ?es ! q" unfolding set_range_entries [OF hi] by auto
    then show "e \<in> {e \<in> set ?es. lead_cmp (length pre) e pre = Equal}" using covers_at [OF c, of q] by simp
  next
    fix e assume e: "e \<in> {e \<in> set ?es. lead_cmp (length pre) e pre = Equal}"
    then obtain q where "q < length ?es" "e = ?es ! q" by (auto simp: in_set_conv_nth)
    then show "e \<in> set (range_entries ?es lo hi)"
      unfolding set_range_entries [OF hi] using c e by (auto simp: range_covers_def)
  qed
  then show "set (range_entries ?es lo hi) = def_entry d (co_name c) ` set (matching_rows d pre c)"
    using R(2) by (auto simp: matching_rows_def)
qed

lemma window_read_rows:
  assumes ops: "index_ops_ok ops" and coll: "hm_get (sto_collections s) (ib_table (iw_binding w)) = Some c"
    and inv: "index_inv c" and pre: "prefix_values (iw_binding w) s ctx = Some pre" "list_all scalar_exact pre"
    and n: "length pre + length (iw_descending w) = length (idx_fields (ib_def (iw_binding w)))"
  shows "window_read ops w s ctx = map snd (take (iw_limit w) (drop (iw_offset w)
    (ordered_rows (ib_def (iw_binding w)) pre (iw_descending w) c)))"
proof -
  let ?d = "ib_def (iw_binding w)" and ?m = "length pre" and ?descs = "iw_descending w"
  define idx where "idx = fst (with_index ops ?d c)"
  obtain lo hi where r: "prefix_range idx pre = (lo, hi)" by fastforce
  note R = with_index_readable [OF ops inv idx_def]
  have m: "?m \<le> length (idx_fields ?d)" using n by simp
  note S = range_rows [OF ops inv m pre(2) r [unfolded idx_def], folded idx_def]
  have "window_read ops w s ctx = map snd (take (iw_limit w) (drop (iw_offset w)
      (window_order ?m ?descs (range_entries (oi_entries idx) lo hi))))"
    by (rule window_read_entries [OF coll idx_def R(1) pre n r])
  moreover have "window_order ?m ?descs (range_entries (oi_entries idx) lo hi) = ordered_rows ?d pre ?descs c"
    unfolding ordered_rows_def
    by (rule window_order_cong [OF orderable_range [OF R(1)] orderable_rows [OF inv] _ n]) (simp add: S(1))
  ultimately show ?thesis by simp
qed

end
