(* ===== verification/Index_Planner.thy ===== *)
theory Index_Planner
  imports Index_Windows
begin

section \<open>Choosing an index\<close>

text \<open>
  Model of \<^verbatim>\<open>IndexChoice\<close> in \<^verbatim>\<open>circuit/index.rs\<close>: the predicates of a filter chain are split into
  equalities on body fields, predicates that read no row, an equality on the record id and the rest;
  \<^verbatim>\<open>window\<close> and \<^verbatim>\<open>scan\<close> pick an index whose leading fields the equalities pin. An \<^verbatim>\<open>expect\<close> that
  fails is \<open>Panic\<close>.
\<close>

record index_choice =
  ic_defs :: "(string, index_def list) hmap"
  ic_params :: "value option"

record conjuncts =
  cj_eqs :: "(string \<times> json) list"
  cj_gates :: "predicate list"
  cj_id :: "json option"
  cj_ors :: "predicate list list"
  cj_residual :: bool

definition conjuncts_default :: conjuncts where
  "conjuncts_default = \<lparr>cj_eqs = [], cj_gates = [], cj_id = None, cj_ors = [], cj_residual = False\<rparr>"

definition choice_resolve :: "index_choice \<Rightarrow> json \<Rightarrow> value option" where
  "choice_resolve ch operand = resolve_predicate_value operand (ic_params ch)"

definition choice_orderable :: "index_choice \<Rightarrow> json \<Rightarrow> bool" where
  "choice_orderable ch operand =
     (case choice_resolve ch operand of None \<Rightarrow> False | Some v \<Rightarrow> is_orderable (from_value v))"

definition same_operand :: "index_choice \<Rightarrow> json \<Rightarrow> json \<Rightarrow> bool" where
  "same_operand ch a b =
     (case (choice_resolve ch a, choice_resolve ch b) of
        (Some a, Some b) \<Rightarrow> compare_values (from_value a) (from_value b) = Equal
      | _ \<Rightarrow> False)"

definition split_other :: "predicate \<Rightarrow> conjuncts \<Rightarrow> conjuncts" where
  "split_other p out =
     (if field_roots p = [] then out\<lparr>cj_gates := cj_gates out @ [p]\<rparr>
      else case p of
             POr ps \<Rightarrow> out\<lparr>cj_ors := cj_ors out @ [ps], cj_residual := True\<rparr>
           | _ \<Rightarrow> out\<lparr>cj_residual := True\<rparr>)"

fun split_predicate :: "index_choice \<Rightarrow> predicate \<Rightarrow> conjuncts \<Rightarrow> conjuncts" where
  "split_predicate ch PTrue out = out"
| "split_predicate ch (PAnd ps) out = fold (split_predicate ch) ps out"
| "split_predicate ch (PEq field v) out =
     (if field = [''id'']
      then out\<lparr>cj_id := (case cj_id out of None \<Rightarrow> Some v | Some w \<Rightarrow> Some w), cj_residual := True\<rparr>
      else if field \<noteq> [] \<and> hd field \<noteq> ''id'' \<and> choice_orderable ch v
      then out\<lparr>cj_eqs := cj_eqs out @ [(path_as_str field, v)]\<rparr>
      else split_other (PEq field v) out)"
| "split_predicate ch p out = split_other p out"

text \<open>The same field held equal to two different operands; and the first operand of each field.\<close>

fun eqs_conflict :: "index_choice \<Rightarrow> (string \<times> json) list \<Rightarrow> bool" where
  "eqs_conflict ch [] = False"
| "eqs_conflict ch ((field, v) # rest) =
     (list_ex (\<lambda>(field', v'). field = field' \<and> \<not> same_operand ch v v') rest \<or> eqs_conflict ch rest)"

fun retain_first :: "string list \<Rightarrow> (string \<times> json) list \<Rightarrow> (string \<times> json) list" where
  "retain_first seen [] = []"
| "retain_first seen ((field, v) # rest) =
     (if field \<in> set seen then retain_first seen rest else (field, v) # retain_first (field # seen) rest)"

definition choice_conjuncts :: "index_choice \<Rightarrow> predicate list \<Rightarrow> conjuncts option" where
  "choice_conjuncts ch predicates =
     (let out = fold (split_predicate ch) predicates conjuncts_default
      in if eqs_conflict ch (cj_eqs out) then None
         else Some (out\<lparr>cj_eqs := retain_first [] (cj_eqs out)\<rparr>))"

definition index_def_cmp :: "index_def \<Rightarrow> index_def \<Rightarrow> ordering" where
  "index_def_cmp a b =
     (case cmp (idx_name a) (idx_name b) of Equal \<Rightarrow> cmp (idx_fields a) (idx_fields b) | r \<Rightarrow> r)"

definition candidates :: "index_choice \<Rightarrow> string \<Rightarrow> index_def list" where
  "candidates ch table =
     cmp_sort index_def_cmp
       (case hm_get (ic_defs ch) table of
          None \<Rightarrow> []
        | Some defs \<Rightarrow> filter (\<lambda>d. \<not> list_ex (\<lambda>f. f = ''id'') (idx_fields d)) defs)"

fun find_operands :: "(string \<times> json) list \<Rightarrow> string list \<Rightarrow> json list outcome" where
  "find_operands eqs [] = Ret []"
| "find_operands eqs (field # rest) =
     (case hm_get eqs field of
        None \<Rightarrow> Panic
      | Some v \<Rightarrow> (case find_operands eqs rest of Panic \<Rightarrow> Panic | Ret vs \<Rightarrow> Ret (v # vs)))"

definition choice_binding ::
  "string \<Rightarrow> index_def \<Rightarrow> (string \<times> json) list \<Rightarrow> predicate list \<Rightarrow> nat \<Rightarrow> index_binding outcome" where
  "choice_binding table d eqs gates prefix_len =
     (case find_operands eqs (take prefix_len (idx_fields d)) of
        Panic \<Rightarrow> Panic
      | Ret prefix \<Rightarrow> Ret \<lparr>ib_table = table, ib_def = d, ib_prefix = prefix, ib_gates = gates\<rparr>)"

abbreviation eq_held :: "(string \<times> json) list \<Rightarrow> string \<Rightarrow> bool" where
  "eq_held eqs f \<equiv> list_ex (\<lambda>(e, _). e = f) eqs"

definition window_order_fields :: "order_spec list option \<Rightarrow> (string \<times> bool) list" where
  "window_order_fields order_by =
     (let order = map (\<lambda>spec. (path_as_str (os_field spec), is_desc spec))
                    (case order_by of None \<Rightarrow> [] | Some specs \<Rightarrow> specs)
      in if order \<noteq> [] \<and> last order = (''id'', False) then butlast order else order)"

definition window_fits :: "(string \<times> json) list \<Rightarrow> (string \<times> bool) list \<Rightarrow> index_def \<Rightarrow> bool" where
  "window_fits eqs order d \<longleftrightarrow>
     (let k = length eqs
      in length (idx_fields d) = k + length order \<and> list_all (eq_held eqs) (take k (idx_fields d))
         \<and> list_all (\<lambda>(f, (ord, _)). f = ord) (zip (drop k (idx_fields d)) order))"

definition plan_window ::
  "index_choice \<Rightarrow> string \<Rightarrow> predicate list \<Rightarrow> order_spec list option \<Rightarrow> nat \<Rightarrow> nat \<Rightarrow> index_window option outcome" where
  "plan_window ch table predicates order_by limit start =
     (case choice_conjuncts ch predicates of
        None \<Rightarrow> Ret None
      | Some cj \<Rightarrow>
          if cj_residual cj then Ret None
          else let order = window_order_fields order_by
               in if list_ex (\<lambda>(f, _). f = ''id'' \<or> eq_held (cj_eqs cj) f) order then Ret None
                  else let k = length (cj_eqs cj)
                       in case List.find (window_fits (cj_eqs cj) order) (candidates ch table) of
                            None \<Rightarrow> Ret None
                          | Some d \<Rightarrow>
                              (case choice_binding table d (cj_eqs cj) (cj_gates cj) k of
                                 Panic \<Rightarrow> Panic
                               | Ret b \<Rightarrow> Ret (Some (index_window_new b limit start (map snd order)))))"

text \<open>\<^verbatim>\<open>Iterator::max_by\<close> keeps the last of equal maxima.\<close>

definition max_by :: "('a \<Rightarrow> 'a \<Rightarrow> ordering) \<Rightarrow> 'a list \<Rightarrow> 'a option" where
  "max_by c xs =
     (case xs of [] \<Rightarrow> None | x # rest \<Rightarrow> Some (fold (\<lambda>y best. if c best y = Greater then best else y) rest x))"

definition prefix_choice_cmp :: "index_def \<times> nat \<times> bool \<Rightarrow> index_def \<times> nat \<times> bool \<Rightarrow> ordering" where
  "prefix_choice_cmp x y =
     (case (x, y) of ((a, ka, la), (b, kb, lb)) \<Rightarrow>
        case cmp ka kb of
          Equal \<Rightarrow> (case cmp la lb of Equal \<Rightarrow> index_def_cmp b a | r \<Rightarrow> r)
        | r \<Rightarrow> r)"

definition best_prefix ::
  "index_choice \<Rightarrow> string \<Rightarrow> (string \<times> json) list \<Rightarrow> string list \<Rightarrow> (index_def \<times> nat \<times> bool) option" where
  "best_prefix ch table eqs local =
     max_by prefix_choice_cmp
       (filter (\<lambda>(_, k, _). 0 < k)
         (map (\<lambda>d. (d, length (takeWhile (eq_held eqs) (idx_fields d)),
                    case idx_fields d of [] \<Rightarrow> False | f # _ \<Rightarrow> f \<in> set local))
           (candidates ch table)))"

definition merge_outer :: "(string \<times> json) list \<Rightarrow> (string \<times> json) list \<Rightarrow> (string \<times> json) list" where
  "merge_outer outer eqs = fold (\<lambda>(field, v) es. if eq_held es field then es else es @ [(field, v)]) outer eqs"

fun union_loop :: "index_choice \<Rightarrow> string \<Rightarrow> (string \<times> json) list \<Rightarrow> predicate list \<Rightarrow> (index_def \<times> nat) option
    \<Rightarrow> index_binding list \<Rightarrow> index_binding list option outcome" where
  "union_loop ch table outer [] single bindings = Ret (if bindings = [] then None else Some bindings)"
| "union_loop ch table outer (branch # rest) single bindings =
     (case choice_conjuncts ch [branch] of
        None \<Rightarrow> Ret None
      | Some cj \<Rightarrow>
          if cj_id cj \<noteq> None then Ret None
          else let eqs = merge_outer outer (cj_eqs cj)
               in case best_prefix ch table eqs (map fst (cj_eqs cj)) of
                    None \<Rightarrow> Ret None
                  | Some (d, k, leads_local) \<Rightarrow>
                      let narrower = (case single of None \<Rightarrow> True | Some (kept, kept_k) \<Rightarrow> kept_k \<le> k \<and> d \<noteq> kept)
                      in if \<not> leads_local \<or> \<not> narrower then Ret None
                         else (case choice_binding table d eqs [] k of
                                 Panic \<Rightarrow> Panic
                               | Ret b \<Rightarrow> union_loop ch table outer rest single (bindings @ [b])))"

datatype planned_source = PlannedIndexed "index_binding list" | PlannedKey key_scan

fun try_unions :: "index_choice \<Rightarrow> string \<Rightarrow> (string \<times> json) list \<Rightarrow> predicate list list \<Rightarrow> (index_def \<times> nat) option
    \<Rightarrow> index_binding list option outcome" where
  "try_unions ch table eqs [] single = Ret None"
| "try_unions ch table eqs (branches # rest) single =
     (case union_loop ch table eqs branches single [] of
        Panic \<Rightarrow> Panic
      | Ret (Some bindings) \<Rightarrow> Ret (Some bindings)
      | Ret None \<Rightarrow> try_unions ch table eqs rest single)"

definition plan_scan :: "index_choice \<Rightarrow> string \<Rightarrow> predicate list \<Rightarrow> planned_source option outcome" where
  "plan_scan ch table predicates =
     (case choice_conjuncts ch predicates of
        None \<Rightarrow> Ret None
      | Some cj \<Rightarrow>
          (case cj_id cj of
             Some key \<Rightarrow> Ret (Some (PlannedKey \<lparr>ks_table = table, ks_key = key\<rparr>))
           | None \<Rightarrow>
               let single = best_prefix ch table (cj_eqs cj) []
               in case try_unions ch table (cj_eqs cj) (cj_ors cj) (map_option (\<lambda>(d, k, _). (d, k)) single) of
                    Panic \<Rightarrow> Panic
                  | Ret (Some bindings) \<Rightarrow> Ret (Some (PlannedIndexed bindings))
                  | Ret None \<Rightarrow>
                      (case single of
                         None \<Rightarrow> Ret None
                       | Some (d, k, _) \<Rightarrow>
                           (case choice_binding table d (cj_eqs cj) [] k of
                              Panic \<Rightarrow> Panic
                            | Ret b \<Rightarrow> Ret (Some (PlannedIndexed [b]))))))"

definition planned_snapshot :: "index_ops \<Rightarrow> planned_source \<Rightarrow> store \<Rightarrow> value option \<Rightarrow> zset" where
  "planned_snapshot ops src s ctx =
     (case src of
        PlannedIndexed bindings \<Rightarrow> indexed_scan_snapshot ops bindings s ctx
      | PlannedKey k \<Rightarrow> key_scan_snapshot k s ctx)"

end
