(* ===== verification/Index_Soundness.thy ===== *)
theory Index_Soundness
  imports Index_Planner
begin

section \<open>An index changes how much is read, not what is shown\<close>

text \<open>
  The planner of \<^verbatim>\<open>circuit/index.rs\<close> promises that a view's result is the one the plan as written
  would produce. This theory proves it for both shapes the planner recognises, on tables in the state
  a history of operations leaves them in, and shows the two exceptions: zeros of different sign, which
  the filter takes for equal and the index keeps apart, and a field eq_held equal to operands of two
  kinds, which a window reads as the first of them.
\<close>

subsection \<open>Equality of a filter and of an index\<close>

definition f64_plain :: "f64 \<Rightarrow> bool" where
  "f64_plain f \<longleftrightarrow> \<not> f64_is_nan f \<and> (f64_negative f \<longrightarrow> f64_magnitude f \<noteq> 0)"

fun value_plain :: "value \<Rightarrow> bool" where
  "value_plain (VInt i) = (\<bar>sint i\<bar> < 2 ^ 53)"
| "value_plain (VFloat f) = f64_plain f"
| "value_plain (VArray vs) = list_all value_plain vs"
| "value_plain (VObject m) = list_all (\<lambda>(k, v). value_plain v) m"
| "value_plain _ = True"

lemma value_plain_exact: "value_plain v \<Longrightarrow> value_exact v"
  by (induction v rule: value_plain.induct) (auto simp: list_all_iff)

definition ref_plain :: "value_ref \<Rightarrow> bool" where
  "ref_plain r = value_plain (to_owned_value r)"

lemma ref_plain_from_value [simp]: "ref_plain (from_value v) = value_plain v"
  by (simp add: ref_plain_def)

lemma ref_plain_exact: "ref_plain r \<Longrightarrow> ref_exact r"
  by (simp add: ref_plain_def ref_exact_def value_plain_exact)

lemma ref_plain_Missing [simp]: "ref_plain RMissing"
  by (simp add: ref_plain_def to_owned_value_def)

lemma ref_plain_get: "ref_plain r \<Longrightarrow> ref_plain (ref_get r k)"
proof (cases r)
  case (RObj m)
  assume "ref_plain r"
  then have "list_all (\<lambda>(k, v). value_plain v) m" using RObj by (simp add: ref_plain_def to_owned_value_def)
  then show ?thesis
    using RObj by (cases "hm_get m k") (auto simp: ref_get_def from_opt_def list_all_iff dest!: map_of_SomeD)
qed (simp_all add: ref_get_def)

lemma ref_plain_resolve: "ref_plain r \<Longrightarrow> ref_plain (resolve_field r p)"
proof -
  have "ref_plain r \<Longrightarrow> ref_plain (resolve_segments r p)" for r
    by (induction r p rule: resolve_segments.induct) (auto simp: Let_def ref_plain_get)
  then show "ref_plain r \<Longrightarrow> ref_plain (resolve_field r p)" by (simp add: resolve_field_def)
qed

lemma f64_magnitude_nonneg: "0 \<le> f64_magnitude f"
  by (simp add: f64_magnitude_def)

lemma plain_partial_total:
  "f64_plain a \<Longrightarrow> f64_plain b \<Longrightarrow> f64_partial_cmp a b = Some Equal \<longleftrightarrow> f64_total_cmp a b = Equal"
  using f64_magnitude_nonneg [of a] f64_magnitude_nonneg [of b]
  by (auto simp: f64_plain_def f64_partial_cmp_def f64_total_cmp_def f64_rank_def f64_total_key_def)

lemma f64_plain_of_i64:
  assumes "\<bar>sint i\<bar> < 2 ^ 53"
  shows "f64_plain (f64_of_i64 i)"
proof -
  let ?f = "f64_of_i64 i" and ?n = "nat \<bar>sint i\<bar>"
  have n: "?n < 2 ^ 53" using assms by simp
  have "f64_negative ?f \<longleftrightarrow> sint i < 0" "f64_magnitude ?f = int (f64_bits_of_nat ?n)"
    using f64_total_key_of_i64 [OF assms] f64_magnitude_nonneg [of ?f] by (auto simp: f64_total_key_def split: if_splits)
  moreover have "0 < f64_bits_of_nat ?n" if "sint i < 0"
    using f64_bits_mono [of 0 ?n] n that by simp
  moreover have "f64_bits_of_nat ?n < 2047 * 2 ^ 52" using f64_bits_bound [OF n] .
  ultimately show ?thesis by (auto simp: f64_plain_def f64_is_nan_def)
qed

lemma or_equal_plain: "f64_plain a \<Longrightarrow> f64_plain b \<Longrightarrow> or_equal (f64_partial_cmp a b) = Equal \<longleftrightarrow> f64_total_cmp a b = Equal"
  using plain_partial_total [of a b] by (auto simp: f64_plain_def f64_partial_cmp_def or_equal_def)

text \<open>On plain values a filter's equality is equality of scalars.\<close>

lemma equality_is_scalar:
  assumes "ref_plain r" and "value_plain t" and "is_orderable (from_value t)"
  shows "\<not> is_missing r \<and> compare_values r (from_value t) = Equal \<and> same_kind r (from_value t) \<longleftrightarrow>
    scalar_cmp (scalar_from_value r) (scalar_from_value (from_value t)) = Equal"
  using assms
  by (cases r; cases t)
    (simp_all add: from_value_def is_orderable_def is_missing_def compare_values_def ref_rank_def scalar_from_value_def
      scalar_cmp_def scalar_rank_def ref_plain_def to_owned_value_def or_equal_plain f64_plain_of_i64
      cmp_def [of "_ :: nat"])

subsection \<open>A table in the store\<close>

definition table_at :: "store \<Rightarrow> string \<Rightarrow> collection \<Rightarrow> bool" where
  "table_at s table c \<longleftrightarrow> hm_get (sto_collections s) table = Some c \<and> co_name c = table \<and> name_ok c
     \<and> membership_ok c \<and> index_inv c \<and> (\<forall>(i, v, d) \<in> set (co_rows c). value_plain v)"

lemma table_row:
  assumes "table_at s table c" and "e \<in> set (co_rows c)"
  shows "get_row_by_key s (row_key_of table (fst e)) = from_value (fst (snd e))"
    and "get_row_by_key_or_deleted s (row_key_of table (fst e)) = from_value (fst (snd e))"
proof -
  obtain i v d where e: "e = (i, v, d)" by (cases e)
  have "hm_get (co_rows c) i = Some (v, d)"
    using assms e hm_get_eq_Some_iff [of "co_rows c" i "(v, d)"] by (simp add: table_at_def index_inv_def)
  moreover have "parse_key (row_key_of table i) = Some (table, i)"
    using assms(1) by (auto simp: table_at_def name_ok_def parse_key_def row_key_of_def split_once_append)
  moreover have "\<not> is_missing (from_value v)" by (cases v) (simp_all add: from_value_def is_missing_def)
  ultimately show r: "get_row_by_key s (row_key_of table (fst e)) = from_value (fst (snd e))"
    using assms(1) e by (simp add: table_at_def get_row_by_key_def rt_get_def from_opt_def Let_def)
  then show "get_row_by_key_or_deleted s (row_key_of table (fst e)) = from_value (fst (snd e))"
    using \<open>\<not> is_missing (from_value v)\<close> e by (simp add: get_row_by_key_or_deleted_def Let_def)
qed

lemma table_row_plain: "table_at s table c \<Longrightarrow> e \<in> set (co_rows c) \<Longrightarrow> value_plain (fst (snd e))"
  by (cases e) (auto simp: table_at_def)

abbreviation row_keys :: "collection \<Rightarrow> row_key set" where
  "row_keys c \<equiv> (\<lambda>e. row_key_of (co_name c) (fst e)) ` set (co_rows c)"

lemma scan_snapshot_table:
  assumes "table_at s table c"
  shows "hm_wf (scan_snapshot table s)" and "zget (scan_snapshot table s) k = (if k \<in> row_keys c then 1 else 0)"
proof -
  obtain z c' where z: "membership c = (z, c')" by fastforce
  have "zset_ok z \<and> (\<forall>k. zget z k = mem_weight c k)"
    using membership_spec [OF _ _ z] assms by (simp add: table_at_def)
  moreover have "mem_weight c k = (if k \<in> row_keys c then 1 else 0)"
    using mem_weight_eq [of c k] assms by (force simp: table_at_def hm_contains_iff)
  ultimately show "hm_wf (scan_snapshot table s)" "zget (scan_snapshot table s) k = (if k \<in> row_keys c then 1 else 0)"
    using assms z by (simp_all add: scan_snapshot_def table_at_def zset_ok_def)
qed

text \<open>A chain of filters over a source, the outermost first as \<^verbatim>\<open>filter_chain\<close> lists them.\<close>

definition filters_snapshot :: "predicate list \<Rightarrow> store \<Rightarrow> value option \<Rightarrow> zset \<Rightarrow> zset" where
  "filters_snapshot predicates s ctx z = foldr (\<lambda>p z. filter_snapshot p s ctx [z]) predicates z"

abbreviation all_hold :: "predicate list \<Rightarrow> row_key \<Rightarrow> store \<Rightarrow> value option \<Rightarrow> bool" where
  "all_hold predicates key s ctx \<equiv> list_all (\<lambda>p. check_predicate p key s ctx) predicates"

lemma hm_wf_filter_snapshot: "hm_wf (filter_snapshot p s ctx [z])"
proof -
  have "hm_wf out \<Longrightarrow> hm_wf (fold (\<lambda>(key, weight) out. if check_predicate p key s ctx
      then hm_insert key weight out else out) z out)" for out
    by (induction z arbitrary: out) auto
  then show ?thesis by (simp add: filter_snapshot_def)
qed

lemma filters_snapshot_spec:
  assumes "hm_wf z"
  shows "hm_wf (filters_snapshot predicates s ctx z)"
    and "zget (filters_snapshot predicates s ctx z) k = (if all_hold predicates k s ctx then zget z k else 0)"
proof -
  have "hm_wf (filters_snapshot predicates s ctx z)
      \<and> zget (filters_snapshot predicates s ctx z) k = (if all_hold predicates k s ctx then zget z k else 0)"
    unfolding filters_snapshot_def
    by (induction predicates) (auto simp: assms hm_wf_filter_snapshot zget_filter_snapshot)
  then show "hm_wf (filters_snapshot predicates s ctx z)"
    "zget (filters_snapshot predicates s ctx z) k = (if all_hold predicates k s ctx then zget z k else 0)" by simp_all
qed

lemma zget_keys_zset: "zget (keys_zset keys) k = (if k \<in> set keys then 1 else 0)"
  and hm_wf_keys_zset: "hm_wf (keys_zset keys)" and keys_of_keys_zset: "fst ` set (keys_zset keys) = set keys"
proof -
  have "zget (fold (\<lambda>k z. hm_insert k 1 z) keys z) k = (if k \<in> set keys then 1 else zget z k)"
    "hm_wf z \<Longrightarrow> hm_wf (fold (\<lambda>k z. hm_insert k 1 z) keys z)"
    "fst ` set (fold (\<lambda>k z. hm_insert k 1 z) keys z) = set keys \<union> fst ` set z" for z
    by (induction keys arbitrary: z) (auto simp: dom_update)
  then show "zget (keys_zset keys) k = (if k \<in> set keys then 1 else 0)" "hm_wf (keys_zset keys)"
    "fst ` set (keys_zset keys) = set keys"
    by (simp_all add: keys_zset_def)
qed

subsection \<open>What a split predicate keeps\<close>

text \<open>Paths as \<^verbatim>\<open>Path::new\<close> makes them, and operands an index compares exactly.\<close>

definition path_plain :: "path \<Rightarrow> bool" where
  "path_plain f \<longleftrightarrow> f \<noteq> [] \<and> path_new (path_as_str f) = f"

fun paths_plain :: "predicate \<Rightarrow> bool" where
  "paths_plain (PEq f _) = path_plain f"
| "paths_plain (PNeq f _) = path_plain f"
| "paths_plain (PGt f _) = path_plain f"
| "paths_plain (PGte f _) = path_plain f"
| "paths_plain (PLt f _) = path_plain f"
| "paths_plain (PLte f _) = path_plain f"
| "paths_plain (PPrefix f _) = path_plain f"
| "paths_plain (PAnd ps) = list_all paths_plain ps"
| "paths_plain (POr ps) = list_all paths_plain ps"
| "paths_plain _ = True"

text \<open>A predicate without field roots reads no row.\<close>

lemma path_root_empty: "path_plain f \<Longrightarrow> path_root f \<noteq> []"
  by (cases f) (simp_all add: path_plain_def path_root_def)

lemma gate_reads_no_row:
  "paths_plain p \<Longrightarrow> field_roots p = [] \<Longrightarrow> check_predicate p key s ctx = check_predicate p key' s' ctx"
proof (induction p key s ctx rule: check_predicate.induct)
  case (3 ps key s ctx)
  then have "check_predicate p key s ctx = check_predicate p key' s' ctx" if "p \<in> set ps" for p
    using that by (simp add: list_all_iff)
  then show ?case by (simp add: list_all_iff)
next
  case (4 ps key s ctx)
  then have "check_predicate p key s ctx = check_predicate p key' s' ctx" if "p \<in> set ps" for p
    using that by (simp add: list_all_iff)
  then show ?case by (simp add: list_ex_iff)
qed (use path_root_empty in auto)

definition conjuncts_hold :: "conjuncts \<Rightarrow> row_key \<Rightarrow> store \<Rightarrow> value option \<Rightarrow> bool" where
  "conjuncts_hold out key s ctx \<longleftrightarrow>
     (\<forall>(f, v) \<in> set (cj_eqs out). check_predicate (PEq (path_new f) v) key s ctx)
     \<and> (\<forall>g \<in> set (cj_gates out). check_predicate g key s ctx)
     \<and> (\<forall>v. cj_id out = Some v \<longrightarrow> check_predicate (PEq [''id''] v) key s ctx)
     \<and> (\<forall>ps \<in> set (cj_ors out). list_ex (\<lambda>p. check_predicate p key s ctx) ps)"

lemma conjuncts_hold_simps [simp]:
  "conjuncts_hold (out\<lparr>cj_residual := b\<rparr>) key s ctx = conjuncts_hold out key s ctx"
  "conjuncts_hold (out\<lparr>cj_eqs := cj_eqs out @ [(f, v)]\<rparr>) key s ctx \<longleftrightarrow>
     conjuncts_hold out key s ctx \<and> check_predicate (PEq (path_new f) v) key s ctx"
  "conjuncts_hold (out\<lparr>cj_gates := cj_gates out @ [g]\<rparr>) key s ctx \<longleftrightarrow>
     conjuncts_hold out key s ctx \<and> check_predicate g key s ctx"
  "conjuncts_hold (out\<lparr>cj_ors := cj_ors out @ [ps]\<rparr>) key s ctx \<longleftrightarrow>
     conjuncts_hold out key s ctx \<and> list_ex (\<lambda>p. check_predicate p key s ctx) ps"
  by (auto simp: conjuncts_hold_def simp del: check_predicate.simps)

lemma conjuncts_hold_id:
  "conjuncts_hold out key s ctx \<Longrightarrow> check_predicate (PEq [''id''] v) key s ctx \<Longrightarrow>
   conjuncts_hold (out\<lparr>cj_id := (case cj_id out of None \<Rightarrow> Some v | Some w \<Rightarrow> Some w), cj_residual := b\<rparr>) key s ctx"
  by (auto simp: conjuncts_hold_def simp del: check_predicate.simps split: option.splits)

lemma split_other_keeps:
  "check_predicate p key s ctx \<Longrightarrow> conjuncts_hold out key s ctx \<Longrightarrow> conjuncts_hold (split_other p out) key s ctx"
  by (cases "\<exists>ps. p = POr ps") (auto simp: split_other_def split: predicate.split)

lemma split_other_total:
  "\<not> cj_residual (split_other p out) \<Longrightarrow> conjuncts_hold (split_other p out) key s ctx \<Longrightarrow>
   check_predicate p key s ctx \<and> conjuncts_hold out key s ctx \<and> \<not> cj_residual out"
  by (cases "field_roots p = []") (simp_all add: split_other_def split: predicate.splits)

lemma split_keeps:
  "paths_plain p \<Longrightarrow> check_predicate p key s ctx \<Longrightarrow> conjuncts_hold out key s ctx \<Longrightarrow>
   conjuncts_hold (split_predicate ch p out) key s ctx"
proof (induction ch p out rule: split_predicate.induct)
  case (2 ch ps out)
  have "\<forall>p \<in> set qs. p \<in> set ps \<Longrightarrow> conjuncts_hold out key s ctx \<Longrightarrow>
      conjuncts_hold (fold (split_predicate ch) qs out) key s ctx" for qs out
    by (induction qs arbitrary: out) (use 2 in \<open>auto simp: list_all_iff\<close>)
  then show ?case using 2(4) by (simp del: check_predicate.simps)
next
  case (3 ch field v out)
  show ?case
  proof (cases "field = [''id'']")
    case True
    then show ?thesis using 3 conjuncts_hold_id by (simp del: check_predicate.simps)
  next
    case False
    then show ?thesis
      using 3 split_other_keeps [of "PEq field v" key s ctx out]
      by (simp add: path_plain_def del: check_predicate.simps)
  qed
qed (simp_all add: split_other_keeps del: check_predicate.simps)

lemma fold_split_keeps:
  "list_all paths_plain ps \<Longrightarrow> all_hold ps key s ctx \<Longrightarrow> conjuncts_hold out key s ctx \<Longrightarrow>
   conjuncts_hold (fold (split_predicate ch) ps out) key s ctx"
  by (induction ps arbitrary: out) (simp_all add: split_keeps del: check_predicate.simps)

lemma split_total:
  "paths_plain p \<Longrightarrow> \<not> cj_residual (split_predicate ch p out) \<Longrightarrow>
   conjuncts_hold (split_predicate ch p out) key s ctx \<Longrightarrow>
   check_predicate p key s ctx \<and> conjuncts_hold out key s ctx \<and> \<not> cj_residual out"
proof (induction ch p out rule: split_predicate.induct)
  case (2 ch ps out)
  have "\<forall>q \<in> set qs. q \<in> set ps \<Longrightarrow> \<not> cj_residual (fold (split_predicate ch) qs out) \<Longrightarrow>
      conjuncts_hold (fold (split_predicate ch) qs out) key s ctx \<Longrightarrow>
      all_hold qs key s ctx \<and> conjuncts_hold out key s ctx \<and> \<not> cj_residual out" for qs out
  proof (induction qs arbitrary: out)
    case (Cons q qs)
    then show ?case using 2(1) [of q out] 2(2) by (auto simp: list_all_iff)
  qed simp
  from this [of ps out] show ?case using 2(3,4) by simp
next
  case (3 ch field v out)
  show ?case
  proof (cases "field = [''id'']")
    case False
    then show ?thesis
      using 3 split_other_total [of "PEq field v" out key s ctx]
      by (auto simp: path_plain_def simp del: check_predicate.simps split: if_splits)
  qed (use 3 in simp)
qed (auto simp: check_predicate.simps(1) simp del: check_predicate.simps(2-) dest: split_other_total)

lemma fold_split_total:
  "list_all paths_plain ps \<Longrightarrow> \<not> cj_residual (fold (split_predicate ch) ps out) \<Longrightarrow>
   conjuncts_hold (fold (split_predicate ch) ps out) key s ctx \<Longrightarrow>
   all_hold ps key s ctx \<and> conjuncts_hold out key s ctx \<and> \<not> cj_residual out"
proof (induction ps arbitrary: out)
  case (Cons p ps)
  have "all_hold ps key s ctx \<and> conjuncts_hold (split_predicate ch p out) key s ctx
      \<and> \<not> cj_residual (split_predicate ch p out)"
    using Cons.prems by (intro Cons.IH) simp_all
  then show ?case using split_total [of p ch out key s ctx] Cons.prems(1) by simp
qed simp

text \<open>What is in the parts: equalities with orderable operands on body fields, gates without fields.\<close>

definition operand_plain :: "value option \<Rightarrow> json \<Rightarrow> bool" where
  "operand_plain ctx v = (case resolve_predicate_value v ctx of None \<Rightarrow> True | Some t \<Rightarrow> value_plain t)"

fun operands_plain :: "value option \<Rightarrow> predicate \<Rightarrow> bool" where
  "operands_plain ctx (PEq _ v) = operand_plain ctx v"
| "operands_plain ctx (PAnd ps) = list_all (operands_plain ctx) ps"
| "operands_plain ctx (POr ps) = list_all (operands_plain ctx) ps"
| "operands_plain ctx _ = True"

abbreviation predicate_plain :: "value option \<Rightarrow> predicate \<Rightarrow> bool" where
  "predicate_plain ctx p \<equiv> paths_plain p \<and> operands_plain ctx p"

definition eq_plain :: "value option \<Rightarrow> string \<times> json \<Rightarrow> bool" where
  "eq_plain ctx e = (path_new (fst e) \<noteq> [''id''] \<and>
     (\<exists>t. resolve_predicate_value (snd e) ctx = Some t \<and> is_orderable (from_value t) \<and> value_plain t))"

definition conjuncts_plain :: "value option \<Rightarrow> conjuncts \<Rightarrow> bool" where
  "conjuncts_plain ctx out \<longleftrightarrow> (\<forall>e \<in> set (cj_eqs out). eq_plain ctx e)
     \<and> (\<forall>g \<in> set (cj_gates out). paths_plain g \<and> field_roots g = [])
     \<and> (\<forall>ps \<in> set (cj_ors out). \<forall>p \<in> set ps. predicate_plain ctx p)"

lemma split_other_plain:
  "predicate_plain ctx p \<Longrightarrow> conjuncts_plain ctx out \<Longrightarrow> conjuncts_plain ctx (split_other p out)"
  by (auto simp: split_other_def conjuncts_plain_def list_all_iff split: predicate.split)

lemma split_plain:
  "ctx = ic_params ch \<Longrightarrow> predicate_plain ctx p \<Longrightarrow> conjuncts_plain ctx out \<Longrightarrow>
   conjuncts_plain ctx (split_predicate ch p out)"
proof (induction ch p out rule: split_predicate.induct)
  case (2 ch ps out)
  have "\<forall>q \<in> set qs. q \<in> set ps \<Longrightarrow> conjuncts_plain ctx out \<Longrightarrow>
      conjuncts_plain ctx (fold (split_predicate ch) qs out)" for qs out
    by (induction qs arbitrary: out) (use 2 in \<open>auto simp: list_all_iff\<close>)
  then show ?case using 2(4) by simp
next
  case (3 ch field v out)
  show ?case
  proof (cases "field \<noteq> [''id''] \<and> field \<noteq> [] \<and> hd field \<noteq> ''id'' \<and> choice_orderable ch v")
    case True
    then have "eq_plain ctx (path_as_str field, v)"
      using 3 by (auto simp: eq_plain_def path_plain_def choice_orderable_def choice_resolve_def operand_plain_def
          split: option.splits)
    then show ?thesis using True 3 by (auto simp: conjuncts_plain_def)
  next
    case False
    then show ?thesis using 3 split_other_plain [of "PEq field v" ctx out] by (auto simp: conjuncts_plain_def)
  qed
qed (simp_all add: split_other_plain)

lemma fold_split_plain:
  "ctx = ic_params ch \<Longrightarrow> list_all (predicate_plain ctx) ps \<Longrightarrow> conjuncts_plain ctx out \<Longrightarrow>
   conjuncts_plain ctx (fold (split_predicate ch) ps out)"
  by (induction ps arbitrary: out) (simp_all add: split_plain)

subsection \<open>Equalities on rows\<close>

definition row_scalar :: "string \<times> value \<times> digest \<Rightarrow> string \<Rightarrow> scalar" where
  "row_scalar e f = scalar_from_value (resolve_field (from_value (fst (snd e))) (path_new f))"

lemma fst_def_entry_fields: "fst (def_entry d name e) = map (row_scalar e) (idx_fields d)"
  by (simp add: fst_def_entry row_scalar_def index_paths_def comp_def)

lemma eq_plain_scalar:
  assumes "eq_plain ctx (f, v)"
  obtains t where "resolve_predicate_value v ctx = Some t" "is_orderable (from_value t)" "value_plain t"
    "operand_scalar ctx v = Some (scalar_from_value (from_value t))"
    "scalar_exact (scalar_from_value (from_value t))"
proof -
  obtain t where t: "resolve_predicate_value v ctx = Some t" "is_orderable (from_value t)" "value_plain t"
    using assms by (auto simp: eq_plain_def)
  moreover have "scalar_exact (scalar_from_value (from_value t))"
    using scalar_exact_from_value [of "from_value t"] value_plain_exact [OF t(3)] by simp
  ultimately show ?thesis using that by (simp add: operand_scalar_def sortable_from_value_def)
qed

lemma eq_check_row:
  assumes "table_at s table c" and "e \<in> set (co_rows c)" and "eq_plain ctx (f, v)"
    and "operand_scalar ctx v = Some sc"
  shows "check_predicate (PEq (path_new f) v) (row_key_of table (fst e)) s ctx \<longleftrightarrow>
    scalar_cmp (row_scalar e f) sc = Equal"
proof -
  obtain t where t: "resolve_predicate_value v ctx = Some t" "is_orderable (from_value t)" "value_plain t"
      "sc = scalar_from_value (from_value t)"
    using eq_plain_scalar [OF assms(3)] assms(4) by (metis option.inject)
  let ?r = "resolve_field (from_value (fst (snd e))) (path_new f)"
  have "ref_plain ?r" using ref_plain_resolve [of "from_value (fst (snd e))"] table_row_plain [OF assms(1,2)] by simp
  from equality_is_scalar [OF this t(3,2)] show ?thesis
    using t assms(3) table_row(2) [OF assms(1,2)] by (auto simp: compare_field_def eq_plain_def row_scalar_def Let_def)
qed

lemma row_scalar_exact: "table_at s table c \<Longrightarrow> e \<in> set (co_rows c) \<Longrightarrow> scalar_exact (row_scalar e f)"
  using ref_exact_resolve [of "from_value (fst (snd e))" "path_new f"] table_row_plain [of s table c e]
  by (simp add: row_scalar_def scalar_exact_from_value value_plain_exact)

text \<open>Keeping the first of several equalities on a field.\<close>

lemma retain_first_subset: "set (retain_first seen eqs) \<subseteq> set eqs"
  by (induction seen eqs rule: retain_first.induct) auto

lemma retain_first_distinct: "distinct (map fst (retain_first seen eqs)) \<and> set (map fst (retain_first seen eqs)) \<inter> set seen = {}"
  by (induction seen eqs rule: retain_first.induct) auto

lemma retain_first_stands_for:
  "\<not> eqs_conflict ch eqs \<Longrightarrow> (f, v) \<in> set eqs \<Longrightarrow> f \<notin> set seen \<Longrightarrow>
   \<exists>v0. (f, v0) \<in> set (retain_first seen eqs) \<and> (v0 = v \<or> same_operand ch v0 v)"
proof (induction seen eqs rule: retain_first.induct)
  case (2 seen g w rest)
  show ?case
  proof (cases "g = f")
    case True
    then show ?thesis using 2(3-5) by (auto simp: list_ex_iff)
  next
    case False
    then show ?thesis using 2 by (cases "g \<in> set seen") auto
  qed
qed simp

text \<open>Operands of one field are of one kind.\<close>

definition kinds_agree :: "index_choice \<Rightarrow> predicate list \<Rightarrow> bool" where
  "kinds_agree ch predicates =
     (let eqs = cj_eqs (fold (split_predicate ch) predicates conjuncts_default)
      in list_all (\<lambda>(f, v). list_all (\<lambda>(g, w). f = g \<longrightarrow>
           (case (choice_resolve ch v, choice_resolve ch w) of
              (Some a, Some b) \<Rightarrow> same_kind (from_value a) (from_value b) | _ \<Rightarrow> True)) eqs) eqs)"

lemma same_operand_check:
  assumes tab: "table_at s table c" "e \<in> set (co_rows c)" and v: "eq_plain ctx (f, v)" "eq_plain ctx (f, w)"
    and ctx: "ctx = ic_params ch" and same: "same_operand ch v w"
    and kind: "\<And>a b. choice_resolve ch v = Some a \<Longrightarrow> choice_resolve ch w = Some b \<Longrightarrow> same_kind (from_value a) (from_value b)"
    and check: "check_predicate (PEq (path_new f) v) (row_key_of table (fst e)) s ctx"
  shows "check_predicate (PEq (path_new f) w) (row_key_of table (fst e)) s ctx"
proof -
  obtain a where a: "resolve_predicate_value v ctx = Some a" "is_orderable (from_value a)" "value_plain a"
      "operand_scalar ctx v = Some (scalar_from_value (from_value a))" "scalar_exact (scalar_from_value (from_value a))"
    using eq_plain_scalar [OF v(1)] by blast
  obtain b where b: "resolve_predicate_value w ctx = Some b" "is_orderable (from_value b)" "value_plain b"
      "operand_scalar ctx w = Some (scalar_from_value (from_value b))" "scalar_exact (scalar_from_value (from_value b))"
    using eq_plain_scalar [OF v(2)] by blast
  have "compare_values (from_value a) (from_value b) = Equal" "same_kind (from_value a) (from_value b)"
    using same kind a(1) b(1) ctx by (simp_all add: same_operand_def choice_resolve_def)
  moreover have "\<not> is_missing (from_value a)" by (cases a) (simp_all add: from_value_def is_missing_def)
  ultimately have "scalar_cmp (scalar_from_value (from_value a)) (scalar_from_value (from_value b)) = Equal"
    using equality_is_scalar [of "from_value a" b] a(3) b(2,3) by simp
  moreover have "scalar_cmp (row_scalar e f) (scalar_from_value (from_value a)) = Equal"
    using check eq_check_row [OF tab v(1) a(4)] by simp
  ultimately have "scalar_cmp (row_scalar e f) (scalar_from_value (from_value b)) = Equal"
    using total_cmp.cmp_subst [OF total_cmp_scalar row_scalar_exact [OF tab] a(5) b(5)] by simp
  then show ?thesis using eq_check_row [OF tab v(2) b(4)] by simp
qed

subsection \<open>The range of a binding\<close>

lemma eq_held_iff: "eq_held eqs f \<longleftrightarrow> hm_get eqs f \<noteq> None"
  by (induction eqs) auto

lemma lex_cmp_Equal: "lex_cmp c xs ys = Equal \<longleftrightarrow> list_all2 (\<lambda>x y. c x y = Equal) xs ys"
  by (induction c xs ys rule: lex_cmp.induct) (auto split: ordering.splits)

text \<open>The operands found for the leading fields, as scalars.\<close>

abbreviation pins :: "value option \<Rightarrow> (string \<times> json) list \<Rightarrow> string \<Rightarrow> scalar \<Rightarrow> bool" where
  "pins ctx eqs f sc \<equiv> \<exists>v. hm_get eqs f = Some v \<and> operand_scalar ctx v = Some sc \<and> scalar_exact sc"

lemma find_operands_spec:
  assumes "\<forall>e \<in> set eqs. eq_plain ctx e" and "list_all (eq_held eqs) fs"
  shows "\<exists>prefix scs. find_operands eqs fs = Ret prefix \<and> those (map (operand_scalar ctx) prefix) = Some scs
    \<and> list_all2 (pins ctx eqs) fs scs"
  using assms(2)
proof (induction fs)
  case (Cons f fs)
  then obtain v where v: "hm_get eqs f = Some v" by (auto simp: eq_held_iff)
  then have "eq_plain ctx (f, v)" using assms(1) by (auto dest: hm_get_SomeD)
  then obtain t where "operand_scalar ctx v = Some (scalar_from_value (from_value t))"
      "scalar_exact (scalar_from_value (from_value t))"
    by (rule eq_plain_scalar)
  then show ?case using Cons v by (force split: outcome.splits)
qed simp

definition pinned :: "store \<Rightarrow> value option \<Rightarrow> (string \<times> json) list \<Rightarrow> string list \<Rightarrow> row_key \<Rightarrow> bool" where
  "pinned s ctx eqs fs key \<longleftrightarrow>
     (\<forall>f \<in> set fs. \<forall>v. hm_get eqs f = Some v \<longrightarrow> check_predicate (PEq (path_new f) v) key s ctx)"

lemma lead_matches:
  assumes tab: "table_at s table c" "e \<in> set (co_rows c)" and eqs: "\<forall>e \<in> set eqs. eq_plain ctx e"
    and scs: "list_all2 (pins ctx eqs) (take m (idx_fields d)) scs" and m: "m \<le> length (idx_fields d)"
  shows "lead_cmp (length scs) (def_entry d table e) scs = Equal \<longleftrightarrow>
    pinned s ctx eqs (take m (idx_fields d)) (row_key_of table (fst e))"
proof -
  have len: "length scs = m" using list_all2_lengthD [OF scs] m by simp
  have "list_all2 (\<lambda>x y. scalar_cmp x y = Equal) (map (row_scalar e) fs) scs \<longleftrightarrow>
      pinned s ctx eqs fs (row_key_of table (fst e))" if "list_all2 (pins ctx eqs) fs scs" for fs scs
    using that
  proof (induction rule: list_all2_induct)
    case (Cons f fs sc scs)
    then obtain v where v: "hm_get eqs f = Some v" "operand_scalar ctx v = Some sc" by blast
    then have "eq_plain ctx (f, v)" using eqs by (auto dest: hm_get_SomeD)
    from eq_check_row [OF tab this v(2)] Cons v(1) show ?case by (simp add: pinned_def)
  qed (simp add: pinned_def)
  from this [OF scs] show ?thesis by (simp add: lex_cmp_Equal fst_def_entry_fields take_map len)
qed

lemma binding_prefix:
  assumes b: "choice_binding table d eqs gates k = Ret b" and eqs: "\<forall>e \<in> set eqs. eq_plain ctx e"
    and k: "list_all (eq_held eqs) (take k (idx_fields d))"
    and gates: "list_all (\<lambda>g. check_predicate g '''' s ctx) gates"
  shows "\<exists>scs. prefix_values b s ctx = Some scs \<and> list_all2 (pins ctx eqs) (take k (idx_fields d)) scs
    \<and> ib_table b = table \<and> ib_def b = d \<and> ib_gates b = gates"
  using find_operands_spec [OF eqs k] b gates
  by (auto simp: choice_binding_def prefix_values_def split: outcome.splits)

lemma pins_exact: "list_all2 (pins ctx eqs) fs scs \<Longrightarrow> list_all scalar_exact scs"
  by (induction rule: list_all2_induct) auto

lemma rows_at_range:
  "hi \<le> length (oi_entries idx) \<Longrightarrow> set (rows_at idx [lo..<hi]) = snd ` set (range_entries (oi_entries idx) lo hi)"
  by (subst rows_at_map) (auto simp: set_range_entries)

lemma binding_range:
  assumes ops: "index_ops_ok ops" and tab: "table_at s table c"
    and b: "choice_binding table d eqs [] k = Ret b" and eqs: "\<forall>e \<in> set eqs. eq_plain ctx e"
    and k: "k \<le> length (idx_fields d)" "list_all (eq_held eqs) (take k (idx_fields d))"
  shows "fst ` set (binding_range_keys ops b s ctx) =
    {key \<in> row_keys c. pinned s ctx eqs (take k (idx_fields d)) key}"
proof -
  obtain scs where scs: "prefix_values b s ctx = Some scs" "list_all2 (pins ctx eqs) (take k (idx_fields d)) scs"
      "ib_table b = table" "ib_def b = d"
    using binding_prefix [OF b eqs k(2), of s] by auto
  have len: "length scs = k" using list_all2_lengthD [OF scs(2)] k(1) by simp
  have inv: "index_inv c" "co_name c = table" "hm_get (sto_collections s) table = Some c"
    using tab by (simp_all add: table_at_def)
  define idx where "idx = fst (with_index ops d c)"
  obtain lo hi where r: "prefix_range idx scs = (lo, hi)" by fastforce
  have k': "length scs \<le> length (idx_fields d)" using len k(1) by simp
  note R = range_rows [OF ops inv(1) k' pins_exact [OF scs(2)] r [unfolded idx_def], folded idx_def]
  have keys: "binding_range_keys ops b s ctx = keys_zset (rows_at idx [lo..<hi])"
    using scs inv(3) r by (simp add: binding_range_keys_def idx_def Let_def)
  have "set (rows_at idx [lo..<hi]) = (\<lambda>e. row_key_of table (fst e)) ` set (matching_rows d scs c)"
    using rows_at_range [OF R(2)] R(1) inv(2) by (simp add: image_image)
  moreover have "set (matching_rows d scs c) =
      {e \<in> set (co_rows c). pinned s ctx eqs (take k (idx_fields d)) (row_key_of table (fst e))}"
    using lead_matches [OF tab _ eqs scs(2) k(1)] inv(2) by (auto simp: matching_rows_def)
  ultimately show ?thesis using inv(2) by (auto simp: keys keys_of_keys_zset)
qed

subsection \<open>Scans over index ranges\<close>

lemma fold_member: "(\<And>y b. f y b = b \<or> f y b = y) \<Longrightarrow> fold f xs x \<in> set (x # xs)"
proof (induction xs arbitrary: x)
  case (Cons y xs)
  have "fold f xs (f y x) \<in> set (f y x # xs)" by (rule Cons.IH) (use Cons.prems in auto)
  then show ?case using Cons.prems [of y x] by auto
qed simp

lemma max_by_member: "max_by c xs = Some x \<Longrightarrow> x \<in> set xs"
proof (cases xs)
  case (Cons y ys)
  assume "max_by c xs = Some x"
  then have "x = fold (\<lambda>y best. if c best y = Greater then best else y) ys y" using Cons by (simp add: max_by_def)
  then show ?thesis using fold_member [of "\<lambda>y best. if c best y = Greater then best else y" ys y] Cons by auto
qed (simp add: max_by_def)

lemma best_prefix_spec:
  assumes "best_prefix ch table eqs local = Some (d, k, l)"
  shows "k \<le> length (idx_fields d)" and "list_all (eq_held eqs) (take k (idx_fields d))"
proof -
  have k: "k = length (takeWhile (eq_held eqs) (idx_fields d))"
    using max_by_member [OF assms [unfolded best_prefix_def]] by auto
  then show "k \<le> length (idx_fields d)" by (simp add: length_takeWhile_le)
  have "take k (idx_fields d) = takeWhile (eq_held eqs) (idx_fields d)" by (simp add: k takeWhile_eq_take [symmetric])
  then show "list_all (eq_held eqs) (take k (idx_fields d))" by (auto simp: list_all_iff dest: set_takeWhileD)
qed

text \<open>A binding whose prefix a list of equalities pins.\<close>

definition binding_for :: "value option \<Rightarrow> string \<Rightarrow> (string \<times> json) list \<Rightarrow> index_binding \<Rightarrow> bool" where
  "binding_for ctx table eqs b \<longleftrightarrow> (\<forall>e \<in> set eqs. eq_plain ctx e) \<and>
     (\<exists>d k. choice_binding table d eqs [] k = Ret b \<and> k \<le> length (idx_fields d)
       \<and> list_all (eq_held eqs) (take k (idx_fields d)))"

lemma binding_for_best:
  assumes "best_prefix ch table eqs local = Some (d, k, l)" and "\<forall>e \<in> set eqs. eq_plain ctx e"
  shows "\<exists>b. choice_binding table d eqs [] k = Ret b \<and> binding_for ctx table eqs b"
proof -
  obtain prefix where p: "find_operands eqs (take k (idx_fields d)) = Ret prefix"
    using find_operands_spec [OF assms(2) best_prefix_spec(2) [OF assms(1)]] by blast
  then have "choice_binding table d eqs [] k = Ret \<lparr>ib_table = table, ib_def = d, ib_prefix = prefix, ib_gates = []\<rparr>"
    by (simp add: choice_binding_def)
  then show ?thesis using best_prefix_spec [OF assms(1)] assms(2) unfolding binding_for_def by blast
qed

lemma binding_for_range:
  assumes ops: "index_ops_ok ops" and tab: "table_at s table c" and b: "binding_for ctx table eqs b"
  shows "fst ` set (binding_range_keys ops b s ctx) \<subseteq> row_keys c"
    and "key \<in> row_keys c \<Longrightarrow> \<forall>(f, v) \<in> set eqs. check_predicate (PEq (path_new f) v) key s ctx \<Longrightarrow>
      key \<in> fst ` set (binding_range_keys ops b s ctx)"
proof -
  obtain d k where dk: "choice_binding table d eqs [] k = Ret b" "k \<le> length (idx_fields d)"
      "list_all (eq_held eqs) (take k (idx_fields d))" and eqs: "\<forall>e \<in> set eqs. eq_plain ctx e"
    using b by (auto simp: binding_for_def)
  note R = binding_range [OF ops tab dk(1) eqs dk(2,3)]
  show "fst ` set (binding_range_keys ops b s ctx) \<subseteq> row_keys c" using R by auto
  show "key \<in> row_keys c \<Longrightarrow> \<forall>(f, v) \<in> set eqs. check_predicate (PEq (path_new f) v) key s ctx \<Longrightarrow>
      key \<in> fst ` set (binding_range_keys ops b s ctx)"
    unfolding R by (fastforce simp: pinned_def simp del: check_predicate.simps dest: hm_get_SomeD)
qed

lemma choice_conjuncts_spec:
  assumes "choice_conjuncts ch ps = Some cj" and "list_all (predicate_plain (ic_params ch)) ps"
  shows "conjuncts_plain (ic_params ch) cj"
    and "all_hold ps key s (ic_params ch) \<Longrightarrow> conjuncts_hold cj key s (ic_params ch)"
proof -
  let ?out = "fold (split_predicate ch) ps conjuncts_default"
  have cj: "cj = ?out\<lparr>cj_eqs := retain_first [] (cj_eqs ?out)\<rparr>"
    using assms(1) by (auto simp: choice_conjuncts_def Let_def split: if_splits)
  have 0: "conjuncts_plain (ic_params ch) conjuncts_default" "conjuncts_hold conjuncts_default key s (ic_params ch)"
    by (simp_all add: conjuncts_plain_def conjuncts_hold_def conjuncts_default_def)
  have sub: "set (cj_eqs cj) \<subseteq> set (cj_eqs ?out)" using cj retain_first_subset by auto
  have "conjuncts_plain (ic_params ch) ?out" using fold_split_plain [OF refl assms(2) 0(1)] .
  then show "conjuncts_plain (ic_params ch) cj" using sub cj by (auto simp: conjuncts_plain_def)
  assume "all_hold ps key s (ic_params ch)"
  then have "conjuncts_hold ?out key s (ic_params ch)"
    using fold_split_keeps [OF _ _ 0(2)] assms(2) by (simp add: list_all_iff)
  then show "conjuncts_hold cj key s (ic_params ch)"
    using sub cj unfolding conjuncts_hold_def by (simp del: check_predicate.simps) blast
qed

lemma set_merge_outer: "set (merge_outer outer eqs) \<subseteq> set eqs \<union> set outer"
proof -
  have "set (fold (\<lambda>(field, v) es. if eq_held es field then es else es @ [(field, v)]) outer eqs) \<subseteq> set eqs \<union> set outer"
  proof (induction outer arbitrary: eqs)
    case (Cons e outer)
    obtain f v where e: "e = (f, v)" by (cases e)
    show ?case using Cons [of eqs] Cons [of "eqs @ [(f, v)]"] e by (auto simp del: list_ex_append)
  qed simp
  then show ?thesis by (simp add: merge_outer_def)
qed

text \<open>Every branch of the \<^verbatim>\<open>OR\<close> has its binding, and the planner never panics.\<close>

definition branch_bound :: "index_choice \<Rightarrow> string \<Rightarrow> (string \<times> json) list \<Rightarrow> index_binding list \<Rightarrow> predicate \<Rightarrow> bool" where
  "branch_bound ch table outer bs p \<longleftrightarrow>
     (\<exists>b \<in> set bs. \<exists>cj eqs. choice_conjuncts ch [p] = Some cj \<and> binding_for (ic_params ch) table eqs b
       \<and> set eqs \<subseteq> set (cj_eqs cj) \<union> set outer)"

lemma union_loop_spec:
  assumes "\<forall>e \<in> set outer. eq_plain (ic_params ch) e" and "\<forall>p \<in> set branches. predicate_plain (ic_params ch) p"
  shows "union_loop ch table outer branches single acc \<noteq> Panic"
    and "union_loop ch table outer branches single acc = Ret (Some bs) \<Longrightarrow>
      set acc \<subseteq> set bs \<and> (\<forall>p \<in> set branches. branch_bound ch table outer bs p)
      \<and> (\<forall>b \<in> set bs - set acc. \<exists>eqs. binding_for (ic_params ch) table eqs b)"
proof -
  let ?U = "\<lambda>bs' acc. union_loop ch table outer bs' single acc"
  have "?U branches acc \<noteq> Panic \<and> (?U branches acc = Ret (Some bs) \<longrightarrow>
      set acc \<subseteq> set bs \<and> (\<forall>p \<in> set branches. branch_bound ch table outer bs p)
      \<and> (\<forall>b \<in> set bs - set acc. \<exists>eqs. binding_for (ic_params ch) table eqs b))"
    using assms(2)
  proof (induction branches arbitrary: acc)
    case (Cons p branches)
    show ?case
    proof (cases "choice_conjuncts ch [p]")
      case (Some cj)
      let ?eqs = "merge_outer outer (cj_eqs cj)"
      have "\<forall>e \<in> set (cj_eqs cj). eq_plain (ic_params ch) e"
        using choice_conjuncts_spec(1) [OF Some] Cons.prems by (simp add: conjuncts_plain_def)
      then have plain: "\<forall>e \<in> set ?eqs. eq_plain (ic_params ch) e" using set_merge_outer assms(1) by fastforce
      show ?thesis
      proof (cases "best_prefix ch table ?eqs (map fst (cj_eqs cj))")
        case best: (Some dkl)
        obtain d k l where dkl: "dkl = (d, k, l)" by (cases dkl)
        obtain b where b: "choice_binding table d ?eqs [] k = Ret b" "binding_for (ic_params ch) table ?eqs b"
          using binding_for_best [OF best [unfolded dkl] plain] by blast
        have IH: "?U branches (acc @ [b]) \<noteq> Panic \<and> (?U branches (acc @ [b]) = Ret (Some bs) \<longrightarrow>
            set (acc @ [b]) \<subseteq> set bs \<and> (\<forall>p \<in> set branches. branch_bound ch table outer bs p)
            \<and> (\<forall>b \<in> set bs - set (acc @ [b]). \<exists>eqs. binding_for (ic_params ch) table eqs b))"
          using Cons.IH [of "acc @ [b]"] Cons.prems by simp
        moreover have "branch_bound ch table outer bs p" if "b \<in> set bs"
          using that Some b(2) set_merge_outer unfolding branch_bound_def by blast
        ultimately show ?thesis using Some best dkl b by (auto simp: Let_def)
      qed (simp add: Some)
    qed simp
  qed simp
  then show "?U branches acc \<noteq> Panic"
    "?U branches acc = Ret (Some bs) \<Longrightarrow>
      set acc \<subseteq> set bs \<and> (\<forall>p \<in> set branches. branch_bound ch table outer bs p)
      \<and> (\<forall>b \<in> set bs - set acc. \<exists>eqs. binding_for (ic_params ch) table eqs b)" by simp_all
qed

lemma zget_indexed_scan:
  "hm_wf (indexed_scan_keys ops bs s ctx)"
  "zget (indexed_scan_keys ops bs s ctx) k = (if \<exists>b \<in> set bs. k \<in> fst ` set (binding_range_keys ops b s ctx) then 1 else 0)"
proof -
  have inner: "hm_wf z \<Longrightarrow> hm_wf (fold (\<lambda>(key, _) z. hm_insert key 1 z) es z)"
    "zget (fold (\<lambda>(key, _) z. hm_insert key 1 z) es z) k = (if k \<in> fst ` set es then 1 else zget z k)"
    for es :: zset and z :: zset
    by (induction es arbitrary: z) auto
  have "hm_wf z \<Longrightarrow> hm_wf (fold (\<lambda>b keys. fold (\<lambda>(key, _) z. hm_insert key 1 z) (binding_range_keys ops b s ctx) keys) bs z)"
    "zget (fold (\<lambda>b keys. fold (\<lambda>(key, _) z. hm_insert key 1 z) (binding_range_keys ops b s ctx) keys) bs z) k =
      (if \<exists>b \<in> set bs. k \<in> fst ` set (binding_range_keys ops b s ctx) then 1 else zget z k)" for z
    by (induction bs arbitrary: z) (auto simp: inner)
  then show "hm_wf (indexed_scan_keys ops bs s ctx)"
    "zget (indexed_scan_keys ops bs s ctx) k = (if \<exists>b \<in> set bs. k \<in> fst ` set (binding_range_keys ops b s ctx) then 1 else 0)"
    by (simp_all add: indexed_scan_keys_def)
qed

text \<open>A source that holds rows of the table only, and every row that satisfies the filters.\<close>

definition source_complete :: "predicate list \<Rightarrow> store \<Rightarrow> value option \<Rightarrow> collection \<Rightarrow> zset \<Rightarrow> bool" where
  "source_complete ps s ctx c z \<longleftrightarrow> hm_wf z \<and>
     (\<exists>K \<subseteq> row_keys c. (\<forall>k. zget z k = (if k \<in> K then 1 else 0)) \<and> (\<forall>k \<in> row_keys c. all_hold ps k s ctx \<longrightarrow> k \<in> K))"

lemma source_complete_filters:
  assumes "table_at s table c" and "source_complete ps s ctx c z"
  shows "zget (filters_snapshot ps s ctx z) k = zget (filters_snapshot ps s ctx (scan_snapshot table s)) k"
proof -
  obtain K where K: "hm_wf z" "K \<subseteq> row_keys c" "\<forall>k. zget z k = (if k \<in> K then 1 else 0)"
      "\<forall>k \<in> row_keys c. all_hold ps k s ctx \<longrightarrow> k \<in> K"
    using assms(2) unfolding source_complete_def by blast
  have "k \<in> row_keys c \<Longrightarrow> all_hold ps k s ctx \<Longrightarrow> k \<in> K" using K(4) by blast
  then show ?thesis
    using K(2) spec [OF K(3), of k] scan_snapshot_table [OF assms(1)] filters_snapshot_spec(2) [OF K(1), of ps s ctx k]
      filters_snapshot_spec(2) [OF scan_snapshot_table(1) [OF assms(1)], of ps s ctx k] by auto
qed

lemma indexed_scan_complete:
  assumes ops: "index_ops_ok ops" and tab: "table_at s table c"
    and bs: "\<forall>b \<in> set bs. \<exists>eqs. binding_for ctx table eqs b"
    and hold: "\<And>k. k \<in> row_keys c \<Longrightarrow> all_hold ps k s ctx \<Longrightarrow> \<exists>b \<in> set bs. \<exists>eqs. binding_for ctx table eqs b
      \<and> (\<forall>(f, v) \<in> set eqs. check_predicate (PEq (path_new f) v) k s ctx)"
  shows "source_complete ps s ctx c (indexed_scan_snapshot ops bs s ctx)"
proof -
  let ?K = "\<Union>b \<in> set bs. fst ` set (binding_range_keys ops b s ctx)"
  have "?K \<subseteq> row_keys c" using bs binding_for_range(1) [OF ops tab] by blast
  moreover have "k \<in> ?K" if k: "k \<in> row_keys c" "all_hold ps k s ctx" for k
  proof -
    obtain b eqs where b: "b \<in> set bs" "binding_for ctx table eqs b"
        "\<forall>(f, v) \<in> set eqs. check_predicate (PEq (path_new f) v) k s ctx"
      using hold [OF k] by blast
    from binding_for_range(2) [OF ops tab b(2) k(1) b(3)] b(1) show ?thesis by blast
  qed
  ultimately show ?thesis
    unfolding source_complete_def indexed_scan_snapshot_def
    by (intro conjI zget_indexed_scan(1) exI [of _ ?K] allI ballI impI) (simp_all add: zget_indexed_scan(2))
qed

lemma id_check: "check_predicate (PEq [''id''] v) key s ctx \<longleftrightarrow> resolve_predicate_value v ctx = Some (VStr key)"
proof (cases "resolve_predicate_value v ctx")
  case (Some t)
  then show ?thesis
    by (cases t) (simp_all add: compare_field_def is_missing_def compare_values_def ref_rank_def from_value_def Let_def, blast)
qed (simp add: compare_field_def)

lemma key_in_table:
  assumes "table_at s table c"
  shows "(case strip_prefix key table of Some rest \<Rightarrow> starts_with rest '':'' | None \<Rightarrow> False) \<and> has_key c key
    \<longleftrightarrow> key \<in> row_keys c"
proof
  have c: "co_name c = table" "CHR '':'' \<notin> set table" using assms by (auto simp: table_at_def name_ok_def)
  {
    assume h: "(case strip_prefix key table of Some rest \<Rightarrow> starts_with rest '':'' | None \<Rightarrow> False) \<and> has_key c key"
    then obtain i where i: "key = table @ CHR '':'' # i"
      by (auto simp: strip_prefix_def starts_with_iff split: if_splits)
    then have "hm_contains (co_rows c) i" using h c(2) by (simp add: has_key_def)
    then show "key \<in> row_keys c" using i c(1) by (force simp: hm_contains_iff row_key_of_def)
  next
    assume "key \<in> row_keys c"
    then show "(case strip_prefix key table of Some rest \<Rightarrow> starts_with rest '':'' | None \<Rightarrow> False) \<and> has_key c key"
      using c by (auto simp: row_key_of_def strip_prefix_def has_key_def hm_contains_iff) (metis fst_conv image_eqI)
  }
qed

lemma key_scan_weights:
  assumes "table_at s table c"
  shows "hm_wf (key_scan_snapshot \<lparr>ks_table = table, ks_key = v\<rparr> s ctx)
    \<and> zget (key_scan_snapshot \<lparr>ks_table = table, ks_key = v\<rparr> s ctx) k =
      (if k \<in> row_keys c \<and> resolve_predicate_value v ctx = Some (VStr k) then 1 else 0)"
proof (cases "resolve_predicate_value v ctx")
  case (Some t)
  then show ?thesis using key_in_table [OF assms] assms
    by (cases t) (auto simp: key_scan_snapshot_def key_scan_start_def table_at_def zget_Cons)
qed (simp add: key_scan_snapshot_def key_scan_start_def)

lemma key_scan_complete:
  assumes tab: "table_at s table c"
    and hold: "\<And>k. all_hold ps k s ctx \<Longrightarrow> check_predicate (PEq [''id''] v) k s ctx"
  shows "source_complete ps s ctx c (key_scan_snapshot \<lparr>ks_table = table, ks_key = v\<rparr> s ctx)"
proof -
  define K where "K = {k \<in> row_keys c. resolve_predicate_value v ctx = Some (VStr k)}"
  have "hm_wf (key_scan_snapshot \<lparr>ks_table = table, ks_key = v\<rparr> s ctx)"
    "zget (key_scan_snapshot \<lparr>ks_table = table, ks_key = v\<rparr> s ctx) k = (if k \<in> K then 1 else 0)" for k
    using key_scan_weights [OF tab, of v ctx k] by (auto simp: K_def)
  moreover have "K \<subseteq> row_keys c" by (auto simp: K_def)
  moreover have "k \<in> K" if "k \<in> row_keys c" "all_hold ps k s ctx" for k
    using hold [OF that(2)] that(1) by (simp add: K_def id_check del: check_predicate.simps)
  ultimately show ?thesis unfolding source_complete_def by blast
qed

lemma try_unions_spec:
  assumes "\<forall>e \<in> set eqs. eq_plain (ic_params ch) e"
    and "\<forall>branches \<in> set ors. \<forall>p \<in> set branches. predicate_plain (ic_params ch) p"
  shows "try_unions ch table eqs ors single \<noteq> Panic"
    and "try_unions ch table eqs ors single = Ret (Some bs) \<Longrightarrow> \<exists>branches \<in> set ors.
      (\<forall>p \<in> set branches. branch_bound ch table eqs bs p) \<and> (\<forall>b \<in> set bs. \<exists>eqs. binding_for (ic_params ch) table eqs b)"
proof -
  have "try_unions ch table eqs ors single \<noteq> Panic \<and> (try_unions ch table eqs ors single = Ret (Some bs) \<longrightarrow>
      (\<exists>branches \<in> set ors. (\<forall>p \<in> set branches. branch_bound ch table eqs bs p)
        \<and> (\<forall>b \<in> set bs. \<exists>eqs. binding_for (ic_params ch) table eqs b)))"
    using assms(2)
  proof (induction ors)
    case (Cons branches ors)
    have b: "\<forall>p \<in> set branches. predicate_plain (ic_params ch) p" using Cons.prems by simp
    show ?case
      using Cons union_loop_spec(1) [OF assms(1) b, of table single "[]"]
        union_loop_spec(2) [OF assms(1) b, of table single "[]" bs]
      by (auto split: outcome.splits option.splits)
  qed simp
  then show "try_unions ch table eqs ors single \<noteq> Panic"
    "try_unions ch table eqs ors single = Ret (Some bs) \<Longrightarrow> \<exists>branches \<in> set ors.
      (\<forall>p \<in> set branches. branch_bound ch table eqs bs p) \<and> (\<forall>b \<in> set bs. \<exists>eqs. binding_for (ic_params ch) table eqs b)"
    by simp_all
qed

text \<open>A row that satisfies the conjunction satisfies a branch, and with it the branch's equalities.\<close>

lemma branch_holds:
  assumes "conjuncts_hold cj k s (ic_params ch)" and "branches \<in> set (cj_ors cj)"
    and "\<forall>p \<in> set branches. branch_bound ch table (cj_eqs cj) bs p"
    and "\<forall>branches \<in> set (cj_ors cj). \<forall>p \<in> set branches. predicate_plain (ic_params ch) p"
  shows "\<exists>b \<in> set bs. \<exists>eqs. binding_for (ic_params ch) table eqs b
    \<and> (\<forall>(f, v) \<in> set eqs. check_predicate (PEq (path_new f) v) k s (ic_params ch))"
proof -
  obtain p where p: "p \<in> set branches" "check_predicate p k s (ic_params ch)"
    using assms(1,2) unfolding conjuncts_hold_def list_ex_iff by blast
  obtain b cj' eqs where b: "b \<in> set bs" "choice_conjuncts ch [p] = Some cj'" "binding_for (ic_params ch) table eqs b"
      "set eqs \<subseteq> set (cj_eqs cj') \<union> set (cj_eqs cj)"
    using assms(3) p(1) unfolding branch_bound_def by blast
  have "conjuncts_hold cj' k s (ic_params ch)"
    using choice_conjuncts_spec(2) [OF b(2), of k s] assms(2,4) p by simp
  then have "\<forall>(f, v) \<in> set eqs. check_predicate (PEq (path_new f) v) k s (ic_params ch)"
    using assms(1) b(4) unfolding conjuncts_hold_def by blast
  then show ?thesis using b(1,3) by blast
qed

lemma union_complete:
  assumes "index_ops_ok ops" and "table_at s table c" and "branches \<in> set (cj_ors cj)"
    and "\<forall>p \<in> set branches. branch_bound ch table (cj_eqs cj) bs p"
    and "\<forall>branches \<in> set (cj_ors cj). \<forall>p \<in> set branches. predicate_plain (ic_params ch) p"
    and "\<forall>b \<in> set bs. \<exists>eqs. binding_for (ic_params ch) table eqs b"
    and "\<And>k. all_hold ps k s (ic_params ch) \<Longrightarrow> conjuncts_hold cj k s (ic_params ch)"
  shows "source_complete ps s (ic_params ch) c (indexed_scan_snapshot ops bs s (ic_params ch))"
  by (rule indexed_scan_complete [OF assms(1,2,6)]) (rule branch_holds [OF assms(7) assms(3-5)])

lemma single_complete:
  assumes "index_ops_ok ops" and "table_at s table c" and "binding_for ctx table (cj_eqs cj) b"
    and "\<And>k. all_hold ps k s ctx \<Longrightarrow> conjuncts_hold cj k s ctx"
  shows "source_complete ps s ctx c (indexed_scan_snapshot ops [b] s ctx)"
proof (rule indexed_scan_complete [OF assms(1,2)])
  fix k assume "all_hold ps k s ctx"
  from assms(4) [OF this] show "\<exists>b' \<in> set [b]. \<exists>eqs. binding_for ctx table eqs b'
      \<and> (\<forall>(f, v) \<in> set eqs. check_predicate (PEq (path_new f) v) k s ctx)"
    using assms(3) unfolding conjuncts_hold_def by auto
qed (use assms(3) in auto)

lemma plan_scan_complete:
  assumes ops: "index_ops_ok ops" and tab: "table_at s table c"
    and plain: "list_all (predicate_plain (ic_params ch)) ps"
  shows "plan_scan ch table ps \<noteq> Panic \<and> (plan_scan ch table ps = Ret (Some src) \<longrightarrow>
      source_complete ps s (ic_params ch) c (planned_snapshot ops src s (ic_params ch)))"
proof (cases "choice_conjuncts ch ps")
  case None
  then show ?thesis by (simp add: plan_scan_def)
next
  case (Some cj)
  let ?ctx = "ic_params ch"
  note C = choice_conjuncts_spec [OF Some plain]
  have eqs: "\<forall>e \<in> set (cj_eqs cj). eq_plain ?ctx e"
    and ors: "\<forall>branches \<in> set (cj_ors cj). \<forall>p \<in> set branches. predicate_plain ?ctx p"
    using C(1) by (simp_all add: conjuncts_plain_def)
  show ?thesis
  proof (cases "cj_id cj")
    case id: (Some v)
    have "check_predicate (PEq [''id''] v) k s ?ctx" if "all_hold ps k s ?ctx" for k
      using C(2) [OF that] id unfolding conjuncts_hold_def by blast
    from key_scan_complete [OF tab this] show ?thesis
      using Some id by (auto simp: plan_scan_def planned_snapshot_def)
  next
    case None
    let ?single = "best_prefix ch table (cj_eqs cj) []"
    note T = try_unions_spec [OF eqs ors, of table "map_option (\<lambda>(d, k, _). (d, k)) ?single"]
    obtain r where r: "try_unions ch table (cj_eqs cj) (cj_ors cj) (map_option (\<lambda>(d, k, _). (d, k)) ?single) = Ret r"
      using T(1) outcome.exhaust by blast
    have single: "\<exists>b. choice_binding table d (cj_eqs cj) [] k = Ret b
        \<and> source_complete ps s ?ctx c (indexed_scan_snapshot ops [b] s ?ctx)" if "?single = Some (d, k, l)" for d k l
      using binding_for_best [OF that eqs] single_complete [OF ops tab _ C(2)] by blast
    have "source_complete ps s ?ctx c (indexed_scan_snapshot ops bs s ?ctx)" if "r = Some bs" for bs
      using T(2) [of bs] r that union_complete [OF ops tab _ _ ors _ C(2)] by blast
    then show ?thesis
      using Some None r single by (cases r; cases ?single) (auto simp: plan_scan_def planned_snapshot_def Let_def)
  qed
qed

end
