(* ===== verification/Index_Equivalence.thy ===== *)
theory Index_Equivalence
  imports Index_Soundness
begin

section \<open>A window read off an index is the window of the plan as written\<close>

text \<open>
  The window \<^verbatim>\<open>IndexChoice::window\<close> plans replaces \<^verbatim>\<open>Limit\<close> over a chain of \<^verbatim>\<open>Filter\<close>s over a
  \<^verbatim>\<open>Scan\<close>. Its predicates are gone from the graph, so the equalities and gates it keeps have to say
  all of them, and its order has to be that of \<^verbatim>\<open>TopK\<close>.
\<close>

subsection \<open>Sorting keys\<close>

lemma cmp_insort_map: "cmp_insort c (h x) (map h ys) = map h (cmp_insort (\<lambda>x y. c (h x) (h y)) x ys)"
  by (induction ys) auto

lemma cmp_sort_map: "cmp_sort c (map h xs) = map h (cmp_sort (\<lambda>x y. c (h x) (h y)) xs)"
  by (induction xs) (simp_all add: cmp_sort_def cmp_insort_map)

lemma cmp_insort_cong: "(\<And>y. y \<in> set ys \<Longrightarrow> c y x = c' y x) \<Longrightarrow> cmp_insort c x ys = cmp_insort c' x ys"
  by (induction ys) auto

lemma cmp_sort_cong:
  "(\<And>x y. x \<in> set xs \<Longrightarrow> y \<in> set xs \<Longrightarrow> c x y = c' x y) \<Longrightarrow> cmp_sort c xs = cmp_sort c' xs"
proof (induction xs)
  case (Cons x xs)
  then have "cmp_sort c xs = cmp_sort c' xs" by simp
  then have "foldr (cmp_insort c) xs [] = foldr (cmp_insort c') xs []" by (simp add: cmp_sort_def)
  moreover have "set (foldr (cmp_insort c') xs []) = set xs" using set_cmp_sort [of c' xs] by (simp add: cmp_sort_def)
  ultimately show ?case
    using Cons.prems cmp_insort_cong [of "foldr (cmp_insort c') xs []" c x c'] by (simp add: cmp_sort_def)
qed (simp add: cmp_sort_def)

text \<open>Two ways to compute sort keys that order the row keys alike give the same sequence.\<close>

lemma sorted_keys_agree:
  assumes dist: "distinct K1" "distinct K2" and set: "set K1 = set K2"
    and exact: "\<And>k. k \<in> set K2 \<Longrightarrow> key_exact dirs (g k)"
    and agree: "\<And>k k'. k \<in> set K2 \<Longrightarrow> k' \<in> set K2 \<Longrightarrow> entry_cmp (f k, k) (f k', k') = entry_cmp (g k, k) (g k', k')"
  shows "map snd (cmp_sort entry_cmp (map (\<lambda>k. (f k, k)) K1)) = map snd (cmp_sort entry_cmp (map (\<lambda>k. (g k, k)) K2))"
proof -
  let ?c = "\<lambda>k k'. entry_cmp (g k, k) (g k', k')"
  have T: "total_cmp ?c (\<lambda>k. k \<in> set K2)"
    using total_cmp_on [OF total_cmp_entry, of "\<lambda>k. (g k, k)" dirs] exact by (elim total_cmp_cong) simp_all
  have sorted: "cmp_sorted ?c (cmp_sort ?c K)" if "set K = set K2" "distinct K" for K
    using that by (intro total_cmp.cmp_sorted_sort [OF T]) (auto simp: list_all_iff pair_cmp_Equal)
  have "cmp_sort (\<lambda>k k'. entry_cmp (f k, k) (f k', k')) K1 = cmp_sort ?c K1"
    using agree set by (intro cmp_sort_cong) simp
  also have "\<dots> = cmp_sort ?c K2"
    using sorted [OF set dist(1)] sorted [OF refl dist(2)] set
    by (intro total_cmp.sorted_unique [OF T]) (simp_all add: list_all_iff)
  finally show ?thesis by (simp add: cmp_sort_map comp_def)
qed

subsection \<open>The order of the window and of TopK\<close>

definition order_key :: "store \<Rightarrow> (string \<times> bool) list \<Rightarrow> row_key \<Rightarrow> sort_key" where
  "order_key s order k =
     map (\<lambda>(f, d). sortable_from_value (resolve_field (get_row_by_key s k) (path_new f)) d) order"

definition ids_agree :: "collection \<Rightarrow> bool" where
  "ids_agree c \<longleftrightarrow> (\<forall>e \<in> set (co_rows c). row_scalar e ''id'' = SNull)
     \<or> (\<forall>e \<in> set (co_rows c). row_scalar e ''id'' = SStr (row_key_of (co_name c) (fst e)))"

definition order_plain :: "order_spec list option \<Rightarrow> bool" where
  "order_plain order_by = (case order_by of None \<Rightarrow> True | Some specs \<Rightarrow> list_all (\<lambda>o'. path_plain (os_field o')) specs)"

lemma directed_order_key:
  assumes "table_at s table c" and "e \<in> set (co_rows c)" and "drop m (idx_fields d) = map fst order"
  shows "directed m (map snd order) (def_entry d table e) =
    (order_key s order (row_key_of table (fst e)), row_key_of table (fst e))"
proof -
  have "map2 (\<lambda>s d. \<lparr>sv_scalar = s, sv_descending = d\<rparr>) (map (row_scalar e) (map fst order)) (map snd order) =
      order_key s order (row_key_of table (fst e))"
    using table_row(1) [OF assms(1,2)]
    by (induction order) (auto simp: order_key_def row_scalar_def sortable_from_value_def)
  then show ?thesis using assms(3) by (simp add: directed_def fst_def_entry_fields drop_map)
qed

lemma compute_sort_key_order:
  assumes "order_plain (Some specs)"
  shows "compute_sort_key (Some specs) k s =
    order_key s (map (\<lambda>spec. (path_as_str (os_field spec), is_desc spec)) specs) k"
  using assms by (auto simp: compute_sort_key_def order_key_def order_plain_def path_plain_def list_all_iff)

lemma order_agree:
  assumes tab: "table_at s table c" and plain: "order_plain order_by" and ids: "ids_agree c"
    and k: "k \<in> row_keys c" "k' \<in> row_keys c"
  shows "entry_cmp (compute_sort_key order_by k s, k) (compute_sort_key order_by k' s, k') =
    entry_cmp (order_key s (window_order_fields order_by) k, k) (order_key s (window_order_fields order_by) k', k')"
proof (cases order_by)
  case None
  then show ?thesis
    by (auto simp: compute_sort_key_def window_order_fields_def order_key_def pair_cmp_def sortable_cmp_def
        scalar_cmp_def scalar_rank_def cmp_def)
next
  case (Some specs)
  let ?full = "map (\<lambda>spec. (path_as_str (os_field spec), is_desc spec)) specs"
  have key: "compute_sort_key order_by k s = order_key s ?full k" for k
    using compute_sort_key_order plain Some by simp
  show ?thesis
  proof (cases "?full \<noteq> [] \<and> last ?full = (''id'', False)")
    case False
    then show ?thesis using key Some by (auto simp: window_order_fields_def Let_def)
  next
    case True
    let ?o = "butlast ?full"
    have o: "window_order_fields order_by = ?o" using True Some by (simp add: window_order_fields_def Let_def)
    have full: "?full = ?o @ [(''id'', False)]" using True append_butlast_last_id [of ?full] by simp
    have split: "order_key s ?full k = order_key s ?o k @
        [sortable_from_value (resolve_field (get_row_by_key s k) (path_new ''id'')) False]" for k
      by (subst full) (simp only: order_key_def map_append, simp)
    have idk: "sv_scalar (sortable_from_value (resolve_field (get_row_by_key s k) (path_new ''id'')) False) = SNull
        \<and> sv_scalar (sortable_from_value (resolve_field (get_row_by_key s k') (path_new ''id'')) False) = SNull
      \<or> sv_scalar (sortable_from_value (resolve_field (get_row_by_key s k) (path_new ''id'')) False) = SStr k
        \<and> sv_scalar (sortable_from_value (resolve_field (get_row_by_key s k') (path_new ''id'')) False) = SStr k'"
      using k ids tab table_row(1) [OF tab]
      by (auto simp: ids_agree_def row_scalar_def sortable_from_value_def table_at_def)
    have "length (order_key s ?o k) = length (order_key s ?o k')" by (simp add: order_key_def)
    from lex_cmp_append [OF this, of sortable_cmp] show ?thesis
      unfolding key o split pair_cmp_def using idk
      by (auto simp: sortable_cmp_def sortable_from_value_def scalar_cmp_def scalar_rank_def cmp_def split: ordering.splits)
  qed
qed

subsection \<open>The rows of the window\<close>

definition no_rest :: "conjuncts \<Rightarrow> bool" where
  "no_rest out \<longleftrightarrow> cj_residual out \<or> (cj_id out = None \<and> cj_ors out = [])"

lemma split_no_rest: "no_rest out \<Longrightarrow> no_rest (split_predicate ch p out)"
proof (induction ch p out rule: split_predicate.induct)
  case (2 ch ps out)
  have "\<forall>q \<in> set qs. q \<in> set ps \<Longrightarrow> no_rest out \<Longrightarrow> no_rest (fold (split_predicate ch) qs out)" for qs out
    by (induction qs arbitrary: out) (use 2 in auto)
  then show ?case using 2(2) by simp
qed (auto simp: no_rest_def split_other_def split: predicate.split)

lemma fold_split_no_rest: "no_rest out \<Longrightarrow> no_rest (fold (split_predicate ch) ps out)"
  by (induction ps arbitrary: out) (simp_all add: split_no_rest)

text \<open>Without a residual, the equalities kept and the gates say all that the filters say.\<close>

lemma conjuncts_say_all:
  assumes cj: "choice_conjuncts ch ps = Some cj" "\<not> cj_residual cj" and plain: "list_all (predicate_plain (ic_params ch)) ps"
    and kinds: "kinds_agree ch ps" and tab: "table_at s table c" "e \<in> set (co_rows c)"
  shows "all_hold ps (row_key_of table (fst e)) s (ic_params ch) \<longleftrightarrow>
    (\<forall>(f, v) \<in> set (cj_eqs cj). check_predicate (PEq (path_new f) v) (row_key_of table (fst e)) s (ic_params ch))
    \<and> list_all (\<lambda>g. check_predicate g '''' s (ic_params ch)) (cj_gates cj)"
proof -
  let ?out = "fold (split_predicate ch) ps conjuncts_default" and ?ctx = "ic_params ch" and ?k = "row_key_of table (fst e)"
  have conf: "\<not> eqs_conflict ch (cj_eqs ?out)" and eq: "cj = ?out\<lparr>cj_eqs := retain_first [] (cj_eqs ?out)\<rparr>"
    using cj(1) by (auto simp: choice_conjuncts_def Let_def split: if_splits)
  have "conjuncts_plain ?ctx conjuncts_default" by (simp add: conjuncts_plain_def conjuncts_default_def)
  then have pl: "conjuncts_plain ?ctx ?out" by (rule fold_split_plain [OF refl plain])
  have rest: "cj_id ?out = None" "cj_ors ?out = []" "\<not> cj_residual ?out"
    using fold_split_no_rest [of conjuncts_default ch ps] cj(2) eq by (auto simp: no_rest_def conjuncts_default_def)
  have gates: "(\<forall>g \<in> set (cj_gates ?out). check_predicate g ?k s ?ctx) \<longleftrightarrow>
      list_all (\<lambda>g. check_predicate g '''' s ?ctx) (cj_gates cj)"
  proof -
    have "check_predicate g ?k s ?ctx = check_predicate g '''' s ?ctx" if "g \<in> set (cj_gates ?out)" for g
      by (rule gate_reads_no_row) (use pl that in \<open>auto simp: conjuncts_plain_def\<close>)
    then show ?thesis using eq by (simp add: list_all_iff)
  qed
  have stand: "check_predicate (PEq (path_new f) v) ?k s ?ctx"
    if all: "\<forall>(f, v) \<in> set (cj_eqs cj). check_predicate (PEq (path_new f) v) ?k s ?ctx" and fv: "(f, v) \<in> set (cj_eqs ?out)" for f v
  proof -
    obtain v0 where v0: "(f, v0) \<in> set (cj_eqs cj)" "v0 = v \<or> same_operand ch v0 v"
      using retain_first_stands_for [OF conf fv, of "[]"] eq by auto
    have in0: "(f, v0) \<in> set (cj_eqs ?out)" using v0(1) eq retain_first_subset by auto
    have "same_kind (from_value a) (from_value b)" if "choice_resolve ch v0 = Some a" "choice_resolve ch v = Some b" for a b
      using kinds in0 fv that by (fastforce simp: kinds_agree_def Let_def list_all_iff)
    moreover have "eq_plain ?ctx (f, v0)" "eq_plain ?ctx (f, v)" using pl in0 fv by (auto simp: conjuncts_plain_def)
    moreover have "check_predicate (PEq (path_new f) v0) ?k s ?ctx" using all v0(1) by blast
    ultimately show ?thesis using same_operand_check [OF tab _ _ refl] v0(2) by blast
  qed
  have sub: "set (cj_eqs cj) \<subseteq> set (cj_eqs ?out)" using eq retain_first_subset by auto
  have hold: "conjuncts_hold ?out ?k s ?ctx \<longleftrightarrow>
      (\<forall>(f, v) \<in> set (cj_eqs cj). check_predicate (PEq (path_new f) v) ?k s ?ctx)
      \<and> list_all (\<lambda>g. check_predicate g '''' s ?ctx) (cj_gates cj)"
    unfolding conjuncts_hold_def gates [symmetric] rest using stand sub by auto
  have "all_hold ps ?k s ?ctx \<longleftrightarrow> conjuncts_hold ?out ?k s ?ctx"
  proof
    assume h: "all_hold ps ?k s ?ctx"
    have "conjuncts_hold conjuncts_default ?k s ?ctx" by (simp add: conjuncts_hold_def conjuncts_default_def)
    then show "conjuncts_hold ?out ?k s ?ctx"
      using fold_split_keeps [OF _ h] plain by (simp add: list_all_iff)
  next
    assume "conjuncts_hold ?out ?k s ?ctx"
    then show "all_hold ps ?k s ?ctx"
      using fold_split_total [of ps ch conjuncts_default ?k s ?ctx] rest(3) plain by (simp add: list_all_iff)
  qed
  then show ?thesis using hold by simp
qed

definition defs_distinct :: "index_choice \<Rightarrow> bool" where
  "defs_distinct ch = list_all (\<lambda>(_, defs). list_all (\<lambda>d. distinct (idx_fields d)) defs) (ic_defs ch)"

lemma plan_window_parts:
  assumes "plan_window ch table ps order_by limit start = Ret (Some w)" and "defs_distinct ch"
  obtains cj d b where "choice_conjuncts ch ps = Some cj" "\<not> cj_residual cj" "distinct (idx_fields d)"
    "window_fits (cj_eqs cj) (window_order_fields order_by) d"
    "choice_binding table d (cj_eqs cj) (cj_gates cj) (length (cj_eqs cj)) = Ret b"
    "w = index_window_new b limit start (map snd (window_order_fields order_by))"
proof -
  obtain cj where cj: "choice_conjuncts ch ps = Some cj" "\<not> cj_residual cj"
    using assms(1) by (auto simp: plan_window_def split: option.splits if_splits)
  then obtain d where d: "List.find (window_fits (cj_eqs cj) (window_order_fields order_by)) (candidates ch table) = Some d"
    using assms(1) by (auto simp: plan_window_def Let_def split: option.splits if_splits)
  then have "d \<in> set (candidates ch table)" "window_fits (cj_eqs cj) (window_order_fields order_by) d"
    by (auto simp: find_Some_iff)
  moreover from this have "distinct (idx_fields d)"
    using assms(2) by (auto simp: candidates_def defs_distinct_def list_all_iff split: option.splits
        dest!: hm_get_SomeD [OF sym])
  ultimately show ?thesis
    using that [OF cj] assms(1) cj d by (auto simp: plan_window_def Let_def split: if_splits outcome.splits)
qed

lemma choice_eqs_distinct: "choice_conjuncts ch ps = Some cj \<Longrightarrow> distinct (map fst (cj_eqs cj))"
  using retain_first_distinct by (auto simp: choice_conjuncts_def Let_def split: if_splits)

lemma window_fits_parts:
  assumes fits: "window_fits eqs order d" and "distinct (idx_fields d)" and "distinct (map fst eqs)"
  shows "length (idx_fields d) = length eqs + length order"
    and "list_all (eq_held eqs) (take (length eqs) (idx_fields d))"
    and "set (take (length eqs) (idx_fields d)) = fst ` set eqs"
    and "drop (length eqs) (idx_fields d) = map fst order"
proof -
  let ?k = "length eqs"
  show len: "length (idx_fields d) = ?k + length order" and h: "list_all (eq_held eqs) (take ?k (idx_fields d))"
    using fits by (simp_all add: window_fits_def Let_def)
  have "set (take ?k (idx_fields d)) \<subseteq> fst ` set eqs" using h by (force simp: list_all_iff list_ex_iff)
  moreover have "card (set (take ?k (idx_fields d))) = card (fst ` set eqs)"
    using assms(2,3) len distinct_card [of "take ?k (idx_fields d)"] distinct_card [of "map fst eqs"] by simp
  ultimately show "set (take ?k (idx_fields d)) = fst ` set eqs" by (intro card_subset_eq) auto
  have "list_all (\<lambda>(f, (ord, _)). f = ord) (zip (drop ?k (idx_fields d)) order)"
    using fits by (simp add: window_fits_def Let_def)
  then show "drop ?k (idx_fields d) = map fst order"
    using len by (auto intro: nth_equalityI simp: list_all_length case_prod_beta list_eq_iff_nth_eq [of "drop _ _"])
qed

lemma window_rows:
  assumes ops: "index_ops_ok ops" and tab: "table_at s table c" and ids: "ids_agree c"
    and plain: "list_all (predicate_plain (ic_params ch)) ps" and kinds: "kinds_agree ch ps" and defs: "defs_distinct ch"
    and w: "plan_window ch table ps order_by limit start = Ret (Some w)"
    and K: "K = map (\<lambda>e. row_key_of table (fst e)) (filter (\<lambda>e. all_hold ps (row_key_of table (fst e)) s (ic_params ch)) (co_rows c))"
  shows "window_read ops w s (ic_params ch) = take limit (drop start (map snd
    (cmp_sort entry_cmp (map (\<lambda>k. (order_key s (window_order_fields order_by) k, k)) K))))"
proof -
  let ?ctx = "ic_params ch" and ?order = "window_order_fields order_by"
  obtain cj d b where cj: "choice_conjuncts ch ps = Some cj" "\<not> cj_residual cj" and d: "distinct (idx_fields d)"
      "window_fits (cj_eqs cj) ?order d"
    and b: "choice_binding table d (cj_eqs cj) (cj_gates cj) (length (cj_eqs cj)) = Ret b"
    and w: "w = index_window_new b limit start (map snd ?order)"
    using plan_window_parts [OF w defs] by blast
  note F = window_fits_parts [OF d(2,1) choice_eqs_distinct [OF cj(1)]]
  have eqs: "\<forall>e \<in> set (cj_eqs cj). eq_plain ?ctx e"
    using choice_conjuncts_spec(1) [OF cj(1) plain] by (simp add: conjuncts_plain_def)
  note all = conjuncts_say_all [OF cj plain kinds tab]
  have c: "hm_get (sto_collections s) table = Some c" "co_name c = table" "index_inv c" using tab by (simp_all add: table_at_def)
  show ?thesis
  proof (cases "list_all (\<lambda>g. check_predicate g '''' s ?ctx) (cj_gates cj)")
    case False
    have "K = []" using K all False by (simp add: filter_empty_conv)
    moreover have "ib_gates b = cj_gates cj" using b by (auto simp: choice_binding_def split: outcome.splits)
    then have "window_read ops w s ?ctx = []"
      using False by (simp add: w window_read_def index_window_new_def prefix_values_def)
    ultimately show ?thesis by (simp add: cmp_sort_def)
  next
    case True
    obtain scs where scs: "prefix_values b s ?ctx = Some scs" "ib_table b = table" "ib_def b = d"
        "list_all2 (pins ?ctx (cj_eqs cj)) (take (length (cj_eqs cj)) (idx_fields d)) scs"
      using binding_prefix [OF b eqs F(2) True] by blast
    have len: "length scs = length (cj_eqs cj)" using list_all2_lengthD [OF scs(4)] F(1) by simp
    have "pinned s ?ctx (cj_eqs cj) (take (length (cj_eqs cj)) (idx_fields d)) k \<longleftrightarrow>
        (\<forall>(f, v) \<in> set (cj_eqs cj). check_predicate (PEq (path_new f) v) k s ?ctx)" for k
      unfolding pinned_def F(3) using choice_eqs_distinct [OF cj(1)]
      by (auto simp: hm_get_eq_Some_iff [unfolded hm_wf_def] simp del: check_predicate.simps)
    then have "matching_rows d scs c = filter (\<lambda>e. all_hold ps (row_key_of table (fst e)) s ?ctx) (co_rows c)"
      unfolding matching_rows_def using lead_matches [OF tab _ eqs scs(4)] F(1) all True c(2) by (intro filter_cong) simp_all
    then have rows: "map (directed (length scs) (map snd ?order)) (map (def_entry d table) (matching_rows d scs c)) =
        map (\<lambda>k. (order_key s ?order k, k)) K"
      using K directed_order_key [OF tab _ F(4)] len by simp
    have "window_read ops w s ?ctx = map snd (take limit (drop start (ordered_rows d scs (map snd ?order) c)))"
      using window_read_rows [OF ops, of s w c ?ctx scs] scs c F(1) len pins_exact [OF scs(4)]
      by (simp add: w index_window_new_def)
    then show ?thesis unfolding ordered_rows_def window_order_def c(2) rows by (simp add: take_map drop_map)
  qed
qed

lemma plan_window_no_panic:
  assumes "list_all (predicate_plain (ic_params ch)) ps"
  shows "plan_window ch table ps order_by limit start \<noteq> Panic"
proof
  assume p: "plan_window ch table ps order_by limit start = Panic"
  then obtain cj d where cj: "choice_conjuncts ch ps = Some cj"
    and d: "List.find (window_fits (cj_eqs cj) (window_order_fields order_by)) (candidates ch table) = Some d"
      "choice_binding table d (cj_eqs cj) (cj_gates cj) (length (cj_eqs cj)) = Panic"
    by (auto simp: plan_window_def Let_def split: option.splits if_splits outcome.splits)
  have eqs: "\<forall>e \<in> set (cj_eqs cj). eq_plain (ic_params ch) e"
    using choice_conjuncts_spec(1) [OF cj assms] by (simp add: conjuncts_plain_def)
  have "list_all (eq_held (cj_eqs cj)) (take (length (cj_eqs cj)) (idx_fields d))"
    using d(1) by (auto simp: find_Some_iff window_fits_def Let_def)
  from find_operands_spec [OF eqs this] d(2) show False by (auto simp: choice_binding_def split: outcome.splits)
qed

lemma positive_keys:
  assumes "hm_wf z"
  shows "set (map fst (filter (\<lambda>(_, w). w_pos w) z)) = {k. w_pos (zget z k)}"
proof (intro equalityI subsetI)
  fix k assume "k \<in> set (map fst (filter (\<lambda>(_, w). w_pos w) z))"
  then obtain w where "(k, w) \<in> set z" "w_pos w" by auto
  moreover from this(1) have "hm_get z k = Some w" using hm_get_eq_Some_iff [OF assms] by simp
  ultimately show "k \<in> {k. w_pos (zget z k)}" by (simp add: zget_def)
next
  fix k assume "k \<in> {k. w_pos (zget z k)}"
  then obtain w where "hm_get z k = Some w" "w_pos w" by (cases "hm_get z k") (auto simp: zget_def)
  then show "k \<in> set (map fst (filter (\<lambda>(_, w). w_pos w) z))"
    by (auto dest!: hm_get_SomeD intro!: rev_image_eqI [of "(k, w)"])
qed

lemma topk_snapshot_keys:
  assumes "hm_wf z"
  shows "zget (topk_snapshot (topk_new limit start order_by) s [z]) k =
    zget (keys_zset (take limit (drop start (map snd (cmp_sort entry_cmp
      (map (\<lambda>k. (compute_sort_key order_by k s, k)) (map fst (filter (\<lambda>(_, w). w_pos w) z)))))))) k"
proof -
  let ?items = "map (\<lambda>(key, _). (compute_sort_key order_by key s, key)) (filter (\<lambda>(_, w). w_pos w) z)"
  have items: "?items = map (\<lambda>k. (compute_sort_key order_by k s, k)) (map fst (filter (\<lambda>(_, w). w_pos w) z))"
    by (simp add: comp_def case_prod_beta)
  have "fold (\<lambda>(_, key) out. hm_insert key 1 out) es out = fold (\<lambda>k z. hm_insert k 1 z) (map snd es) out"
    for es :: "entry list" and out :: zset
    by (induction es arbitrary: out) auto
  then show ?thesis
    unfolding items [symmetric] by (simp add: topk_snapshot_def topk_new_def keys_zset_def Let_def take_map drop_map)
qed

text \<open>The table a history of operations leaves, as the store holds it.\<close>

lemma reachable_table_at:
  assumes "codec_ok cdc" and "index_ops_ok ops" and "CHR '':'' \<notin> set table" and "collection_reachable cdc ops table c"
    and "hm_get (sto_collections s) table = Some c" and "list_all (\<lambda>(_, v, _). value_plain v) (co_rows c)"
  shows "table_at s table c"
  using collection_reachable_inv [OF assms(4,1,2,3)] assms(5,6)
  by (auto simp: table_at_def coll_inv_def list_all_iff)

lemma window_equivalent:
  assumes ops: "index_ops_ok ops" and tab: "table_at s table c" and ids: "ids_agree c"
    and plain: "list_all (predicate_plain (ic_params ch)) ps" and kinds: "kinds_agree ch ps" and defs: "defs_distinct ch"
    and order: "order_plain order_by" and w: "plan_window ch table ps order_by limit start = Ret (Some w)"
  shows "zget (index_window_snapshot ops w s (ic_params ch)) k =
    zget (topk_snapshot (topk_new limit start order_by) s
      [filters_snapshot ps s (ic_params ch) (scan_snapshot table s)]) k"
proof -
  let ?ctx = "ic_params ch" and ?order = "window_order_fields order_by"
  let ?z = "filters_snapshot ps s ?ctx (scan_snapshot table s)"
  let ?rows = "filter (\<lambda>e. all_hold ps (row_key_of table (fst e)) s ?ctx) (co_rows c)"
  define K where "K = map (\<lambda>e. row_key_of table (fst e)) ?rows"
  let ?K1 = "map fst (filter (\<lambda>(_, w). w_pos w) ?z)"
  have c: "co_name c = table" "index_inv c" using tab by (simp_all add: table_at_def)
  note z = filters_snapshot_spec [OF scan_snapshot_table(1) [OF tab], of ps s ?ctx]
  have zk: "zget ?z k = (if all_hold ps k s ?ctx \<and> k \<in> row_keys c then 1 else 0)" for k
    using z(2) [of k] scan_snapshot_table(2) [OF tab, of k] by simp
  have dist: "distinct ?K1" "distinct K"
  proof -
    show "distinct ?K1" using z(1) by (simp add: hm_wf_def distinct_map_filter)
    have "distinct (map fst ?rows)" using c(2) by (simp add: index_inv_def hm_wf_def distinct_map_filter)
    then have "distinct (map (row_key_of table) (map fst ?rows))"
      unfolding distinct_map [of "row_key_of table"] by (auto simp: inj_on_def row_key_of_inj)
    then show "distinct K" by (simp add: K_def comp_def)
  qed
  have set: "set ?K1 = set K"
  proof -
    have "set ?K1 = {k. w_pos (zget ?z k)}"
      using z(1) by (rule positive_keys)
    also have "\<dots> = set K" using c(1) by (auto simp: zk K_def)
    finally show ?thesis .
  qed
  have exact: "key_exact (map snd ?order) (order_key s ?order k)" if "k \<in> set K" for k
    using that row_scalar_exact [OF tab] table_row(1) [OF tab]
    by (auto simp: key_exact_def order_key_def K_def list_all2_map1 list_all2_map2 list_all2_same
        sortable_from_value_def row_scalar_def)
  have "entry_cmp (compute_sort_key order_by k s, k) (compute_sort_key order_by k' s, k') =
      entry_cmp (order_key s ?order k, k) (order_key s ?order k', k')" if "k \<in> set K" "k' \<in> set K" for k k'
    by (rule order_agree [OF tab order ids]) (use that c(1) in \<open>auto simp: K_def\<close>)
  from sorted_keys_agree [OF dist set exact this]
  have "window_read ops w s ?ctx = take limit (drop start (map snd (cmp_sort entry_cmp
      (map (\<lambda>k. (compute_sort_key order_by k s, k)) ?K1))))"
    using window_rows [OF ops tab ids plain kinds defs w K_def] by simp
  then show ?thesis using topk_snapshot_keys [OF z(1), of limit start order_by s k] by (simp add: index_window_snapshot_def)
qed

subsection \<open>Two cases where the index shows something else\<close>

definition one_row_store :: "value \<Rightarrow> store" where
  "one_row_store v =
     \<lparr>sto_collections = [(''user'', snd (collection_apply sample_codec (list_set_ops index_entry_cmp) OpCreate ''user:1''
        v (collection_new ''user'')))], sto_pending_deleted = []\<rparr>"

definition age_index :: index_choice where
  "age_index = \<lparr>ic_defs = [(''user'', [\<lparr>idx_name = ''by_age'', idx_fields = [''age'']\<rparr>])], ic_params = None\<rparr>"

definition age_window :: "predicate list \<Rightarrow> store \<Rightarrow> row_key list" where
  "age_window ps s =
     (case plan_window age_index ''user'' ps None 10 0 of
        Ret (Some w) \<Rightarrow> window_read (list_set_ops index_entry_cmp) w s None | _ \<Rightarrow> [''no window''])"

definition age_as_written :: "predicate list \<Rightarrow> store \<Rightarrow> row_key list" where
  "age_as_written ps s =
     map fst (topk_snapshot (topk_new 10 0 None) s [filters_snapshot ps s None (scan_snapshot ''user'' s)])"

lemma topk_snapshot_new:
  "topk_snapshot (topk_new limit start order_by) s inputs =
   topk_snapshot \<lparr>tk_limit = limit, tk_offset = start, tk_order_by = order_by, tk_buffer = [], tk_key_index = [],
     tk_capacity = 0, tk_boundary = None\<rparr> s inputs"
  by (simp add: topk_snapshot_def topk_new_def Let_def)


subsection \<open>The planner's promise\<close>

text \<open>
  C4. A scan over index ranges, or over the one row an \<^verbatim>\<open>id\<close> names, gives the filters above it the
  same rows as a scan of the whole table: on a table reached by any history of writes, projections and
  index builds, for every filter chain the planner answers for, the filtered source has the weights of
  the filtered \<^verbatim>\<open>Scan\<close>; and planning never panics. The values compared hold no NaN, no negative zero
  and no integer beyond \<open>2 ^ 53\<close>.
\<close>

theorem index_scan_equivalent:
  assumes "codec_ok cdc" and "index_ops_ok ops" and "CHR '':'' \<notin> set table" and "collection_reachable cdc ops table c"
    and "hm_get (sto_collections s) table = Some c" and "list_all (\<lambda>(_, v, _). value_plain v) (co_rows c)"
    and "list_all (predicate_plain (ic_params ch)) ps"
  shows "plan_scan ch table ps \<noteq> Panic
    \<and> (\<forall>src. plan_scan ch table ps = Ret (Some src) \<longrightarrow>
         zget (filters_snapshot ps s (ic_params ch) (planned_snapshot ops src s (ic_params ch))) k =
         zget (filters_snapshot ps s (ic_params ch) (scan_snapshot table s)) k)"
proof -
  have tab: "table_at s table c" by (rule reachable_table_at [OF assms(1-6)])
  show ?thesis
    using plan_scan_complete [OF assms(2) tab assms(7)] source_complete_filters [OF tab] by blast
qed

lemma one_row_reachable:
  "collection_reachable sample_codec (list_set_ops index_entry_cmp) ''user''
     (snd (collection_apply sample_codec (list_set_ops index_entry_cmp) OpCreate ''user:1'' v (collection_new ''user'')))"
  if "value_exact v"
  by (rule collection_reachable.step [OF collection_reachable.start collection_step.mutate]) (simp add: that)

lemma one_row_rows:
  "co_rows (snd (collection_apply sample_codec (list_set_ops index_entry_cmp) OpCreate ''user:1'' v (collection_new ''user''))) =
   [(''1'', v, record_digest_into sample_codec v ''1'')]"
proof -
  have "raw_id ''user:1'' = ''1''" by code_simp
  then show ?thesis
    by (simp add: apply_new_row hm_contains_def collection_new_def collection_from_rows_def project_def)
qed

theorem index_scan_equivalent_witness:
  "zget (filters_snapshot [PEq [''age''] (JNumber (N_i64 7))] (one_row_store (VObject [(''age'', VInt 7)])) None
     (planned_snapshot (list_set_ops index_entry_cmp)
       (PlannedIndexed [\<lparr>ib_table = ''user'', ib_def = \<lparr>idx_name = ''by_age'', idx_fields = [''age'']\<rparr>,
          ib_prefix = [JNumber (N_i64 7)], ib_gates = []\<rparr>])
       (one_row_store (VObject [(''age'', VInt 7)])) None)) ''user:1'' = 1"
proof -
  let ?ps = "[PEq [''age''] (JNumber (N_i64 7))]" and ?s = "one_row_store (VObject [(''age'', VInt 7)])"
  let ?src = "PlannedIndexed [\<lparr>ib_table = ''user'', ib_def = \<lparr>idx_name = ''by_age'', idx_fields = [''age'']\<rparr>,
    ib_prefix = [JNumber (N_i64 7)], ib_gates = []\<rparr>]"
  have plan: "plan_scan age_index ''user'' ?ps = Ret (Some ?src)" by code_simp
  have plain: "list_all (predicate_plain (ic_params age_index)) ?ps" by code_simp
  have "zget (filters_snapshot ?ps ?s None (scan_snapshot ''user'' ?s)) ''user:1'' = 1" by code_simp
  moreover have "ic_params age_index = None" by (simp add: age_index_def)
  ultimately show ?thesis
    using index_scan_equivalent [OF sample_codec_ok list_index_ops_ok _ one_row_reachable, of "VObject [(''age'', VInt 7)]"
        ?s age_index ?ps "''user:1''"] plan plain
    by (simp add: one_row_store_def one_row_rows)
qed

text \<open>
  C3. A window read off an index is the window of the plan as written: for every filter chain, order
  and bounds the planner answers with an \<^verbatim>\<open>IndexWindow\<close>, its rows are the rows of \<^verbatim>\<open>TopK\<close> over the
  \<^verbatim>\<open>Filter\<close>s over the \<^verbatim>\<open>Scan\<close>, in tables reached by any history, whatever the directions of the
  \<^verbatim>\<open>ORDER BY\<close> fields; and planning never panics. It asks of the program's data what the two cases above
  show to be needed (plain values, operands of one kind for one field), that an index names a field once,
  and that the rows' own \<^verbatim>\<open>id\<close> fields are absent or their keys.
\<close>

theorem index_window_equivalent:
  assumes "codec_ok cdc" and "index_ops_ok ops" and "CHR '':'' \<notin> set table" and "collection_reachable cdc ops table c"
    and "hm_get (sto_collections s) table = Some c" and "list_all (\<lambda>(_, v, _). value_plain v) (co_rows c)"
    and "list_all (predicate_plain (ic_params ch)) ps" and "kinds_agree ch ps" and "defs_distinct ch"
    and "order_plain order_by" and "ids_agree c"
  shows "plan_window ch table ps order_by limit start \<noteq> Panic
    \<and> (\<forall>w. plan_window ch table ps order_by limit start = Ret (Some w) \<longrightarrow>
         zget (index_window_snapshot ops w s (ic_params ch)) k =
         zget (topk_snapshot (topk_new limit start order_by) s
           [filters_snapshot ps s (ic_params ch) (scan_snapshot table s)]) k)"
proof -
  have tab: "table_at s table c" by (rule reachable_table_at [OF assms(1-6)])
  show ?thesis
    using plan_window_no_panic [OF assms(7)] window_equivalent [OF assms(2) tab assms(11,7,8,9,10)] by blast
qed

theorem index_window_equivalent_witness:
  "zget (index_window_snapshot (list_set_ops index_entry_cmp)
     (index_window_new \<lparr>ib_table = ''user'', ib_def = \<lparr>idx_name = ''by_age'', idx_fields = [''age'']\<rparr>, ib_prefix = [],
        ib_gates = [POr [PTrue]]\<rparr> 10 0 [True]) (one_row_store (VObject [(''age'', VInt 7)])) None) ''user:1'' = 1"
proof -
  let ?ps = "[POr [PTrue]]" and ?v = "VObject [(''age'', VInt 7)]" and ?o = "Some [\<lparr>os_field = [''age''], os_direction = ''DESC''\<rparr>]"
  let ?s = "one_row_store ?v"
  have plan: "plan_window age_index ''user'' ?ps ?o 10 0 = Ret (Some (index_window_new
      \<lparr>ib_table = ''user'', ib_def = \<lparr>idx_name = ''by_age'', idx_fields = [''age'']\<rparr>, ib_prefix = [], ib_gates = [POr [PTrue]]\<rparr>
      10 0 [True]))" by code_simp
  have hyps: "list_all (predicate_plain (ic_params age_index)) ?ps" "kinds_agree age_index ?ps" "defs_distinct age_index"
    "order_plain ?o" "ic_params age_index = None" by code_simp+
  have "path_new ''id'' = [''id'']" by code_simp
  then have ids: "ids_agree (snd (collection_apply sample_codec (list_set_ops index_entry_cmp) OpCreate ''user:1'' ?v
      (collection_new ''user'')))"
    by (simp add: ids_agree_def one_row_rows row_scalar_def resolve_field_def ref_get_def is_record_ref_def from_value_def
        from_opt_def is_missing_def scalar_from_value_def)
  have "zget (topk_snapshot (topk_new 10 0 ?o) ?s [filters_snapshot ?ps ?s None (scan_snapshot ''user'' ?s)]) ''user:1'' = 1"
    unfolding topk_snapshot_new by code_simp
  then show ?thesis
    using index_window_equivalent [OF sample_codec_ok list_index_ops_ok _ one_row_reachable _ _ hyps(1-4) ids, of ?s 10 0 "''user:1''"]
      plan hyps(5) by (simp add: one_row_store_def one_row_rows)
qed

subsection \<open>Keeping a window up to date\<close>

lemma zget_swap_in:
  "zget (fst (swap_in new w)) k = of_nat (count_list new k) - of_nat (count_list (iw_window w) k)"
proof -
  have up: "zget (fold (\<lambda>k d. hm_insert k (zget d k + 1) d) ks d) k = zget d k + of_nat (count_list ks k)"
    "hm_wf d \<Longrightarrow> hm_wf (fold (\<lambda>k d. hm_insert k (zget d k + 1) d) ks d)" for ks and d :: zset
    by (induction ks arbitrary: d) (auto simp: algebra_simps)
  have down: "zget (fold (\<lambda>k d. hm_insert k (zget d k - 1) d) ks d) k = zget d k - of_nat (count_list ks k)"
    "hm_wf d \<Longrightarrow> hm_wf (fold (\<lambda>k d. hm_insert k (zget d k - 1) d) ks d)" for ks and d :: zset
    by (induction ks arbitrary: d) (auto simp: algebra_simps)
  have keep: "zget (hm_retain (\<lambda>_ wt. wt \<noteq> 0) d) k = zget d k" if "hm_wf d" for d :: zset
    using that by (auto simp: zget_def hm_get_retain split: option.splits)
  show ?thesis by (simp add: swap_in_def Let_def keep up down)
qed

lemma window_read_state [simp]:
  "window_read ops (w\<lparr>iw_window := ks\<rparr>) s ctx = window_read ops w s ctx"
  "window_read ops (w\<lparr>iw_read_at := r\<rparr>) s ctx = window_read ops w s ctx"
  by (auto simp: window_read_def window_nth_def [abs_def] Let_def split: option.splits prod.splits)

lemma window_read_cong:
  "prefix_values (iw_binding w) s ctx = prefix_values (iw_binding w) s' ctx \<Longrightarrow>
   hm_get (sto_collections s) (ib_table (iw_binding w)) = hm_get (sto_collections s') (ib_table (iw_binding w)) \<Longrightarrow>
   window_read ops w s ctx = window_read ops w s' ctx"
  by (simp only: window_read_def)

lemma window_writes_state [simp]:
  "window_writes (w\<lparr>iw_window := ks\<rparr>) s = window_writes w s" "window_writes (w\<lparr>iw_read_at := r\<rparr>) s = window_writes w s"
  by (simp_all add: window_writes_def)

fun run_window :: "index_ops \<Rightarrow> value option \<Rightarrow> store list \<Rightarrow> index_window \<Rightarrow> zset list \<times> index_window" where
  "run_window ops ctx [] w = ([], w)"
| "run_window ops ctx (s # ss) w =
     (case index_window_step ops s ctx w of (out, w') \<Rightarrow>
        case run_window ops ctx ss w' of (outs, w'') \<Rightarrow> (out # outs, w''))"

lemma window_step:
  assumes "index_window_step ops s ctx w = (out, w')"
    and "iw_read_at w \<noteq> None \<Longrightarrow> iw_read_at w = window_writes w s \<Longrightarrow> iw_window w = window_read ops w s ctx"
  shows "iw_window w' = window_read ops w s ctx" and "iw_read_at w' = window_writes w s"
    and "\<exists>r. w' = w\<lparr>iw_read_at := r, iw_window := iw_window w'\<rparr>"
    and "zget out k = of_nat (count_list (iw_window w') k) - of_nat (count_list (iw_window w) k)"
proof -
  have "iw_window w' = window_read ops w s ctx \<and> iw_read_at w' = window_writes w s
      \<and> (\<exists>r. w' = w\<lparr>iw_read_at := r, iw_window := iw_window w'\<rparr>)
      \<and> zget out k = of_nat (count_list (iw_window w') k) - of_nat (count_list (iw_window w) k)"
  proof (cases "iw_read_at w \<noteq> None \<and> iw_read_at w = window_writes w s")
    case True
    then obtain r where "iw_read_at w = Some r" "window_writes w s = Some r" by (metis not_None_eq)
    then have "window_refresh ops s ctx w = ([], w)" by (simp add: window_refresh_def)
    then have "out = [] \<and> w' = w" using assms(1) by (simp add: index_window_step_def)
    moreover have "iw_window w = window_read ops w s ctx" using assms(2) True by blast
    ultimately show ?thesis using True by (auto intro: exI [of _ "iw_read_at w"])
  next
    case False
    then have "(out, w') = swap_in (window_read ops w s ctx) (w\<lparr>iw_read_at := window_writes w s\<rparr>)"
      using assms(1) by (simp only: index_window_step_def window_refresh_def Let_def if_False)
    then have "out = fst (swap_in (window_read ops w s ctx) (w\<lparr>iw_read_at := window_writes w s\<rparr>))"
      "w' = w\<lparr>iw_read_at := window_writes w s, iw_window := window_read ops w s ctx\<rparr>"
      by (metis fst_conv, simp add: swap_in_def Let_def)
    then show ?thesis using zget_swap_in [of "window_read ops w s ctx" "w\<lparr>iw_read_at := window_writes w s\<rparr>" k] by auto
  qed
  then show "iw_window w' = window_read ops w s ctx" "iw_read_at w' = window_writes w s"
    "\<exists>r. w' = w\<lparr>iw_read_at := r, iw_window := iw_window w'\<rparr>"
    "zget out k = of_nat (count_list (iw_window w') k) - of_nat (count_list (iw_window w) k)" by blast+
qed

lemma run_window_spec:
  assumes "\<forall>s \<in> set ss. \<forall>s' \<in> set ss. window_writes w s \<noteq> None \<longrightarrow> window_writes w s = window_writes w s' \<longrightarrow>
      window_read ops w s ctx = window_read ops w s' ctx"
    and "\<forall>s \<in> set ss. iw_read_at w \<noteq> None \<longrightarrow> iw_read_at w = window_writes w s \<longrightarrow> iw_window w = window_read ops w s ctx"
    and "run_window ops ctx ss w = (outs, w')"
  shows "total_weight outs k = of_nat (count_list (iw_window w') k) - of_nat (count_list (iw_window w) k)
    \<and> (ss \<noteq> [] \<longrightarrow> iw_window w' = window_read ops w (last ss) ctx)"
  using assms
proof (induction ss arbitrary: w outs)
  case (Cons s ss)
  obtain out w1 where 1: "index_window_step ops s ctx w = (out, w1)" by fastforce
  obtain outs1 where 2: "run_window ops ctx ss w1 = (outs1, w')" "outs = out # outs1"
    using Cons.prems(3) 1 by (auto split: prod.splits)
  have "iw_read_at w \<noteq> None \<Longrightarrow> iw_read_at w = window_writes w s \<Longrightarrow> iw_window w = window_read ops w s ctx"
    using Cons.prems(2) by simp
  note S = window_step [OF 1 this]
  obtain r where r: "w1 = w\<lparr>iw_read_at := r, iw_window := iw_window w1\<rparr>" using S(3) by blast
  have same: "window_read ops w1 s' ctx = window_read ops w s' ctx" "window_writes w1 s' = window_writes w s'" for s'
    by (subst r, simp)+
  have "total_weight outs1 k = of_nat (count_list (iw_window w') k) - of_nat (count_list (iw_window w1) k)
      \<and> (ss \<noteq> [] \<longrightarrow> iw_window w' = window_read ops w1 (last ss) ctx)"
    by (rule Cons.IH [OF _ _ 2(1)]) (use Cons.prems(1) S(1,2) same in auto)
  then show ?case using S(1) S(4) [of k] 2 same by (cases "ss = []") (auto simp: total_weight_def)
qed (simp add: total_weight_def)



end
