(* ===== verification/Spec2Isabelle.thy ===== *)
theory Spec2Isabelle
  imports Range_Hash Index_Invariant Point_Witness Workflow_Dag View_Drift Image_Store Index_Equivalence
begin

text \<open>
  \<^bold>\<open>A verification library for the sp00ky stream processor.\<close>

  \<^bold>\<open>The program.\<close> The core of the repository is the crate
  \<^verbatim>\<open>packages/ssp\<close>: an incremental view engine.  Clients register query plans; a circuit keeps
  the base tables in a row store and, per query, a graph of operators over weighted sets of row
  keys (Z-sets); every changeset is applied to the store, the resulting per-table deltas are pushed
  through the graphs of the affected queries, and each view publishes what entered, left and
  changed.  Queries with the same plan and parameters share one graph: the first registration owns
  it and the others subscribe.  Around the engine, \<^verbatim>\<open>packages/ssp-protocol\<close> defines the
  hashes by which two replicas compare tables, and \<^verbatim>\<open>packages/schedule-core\<close> the dependency
  graphs of workflows.

  \<^bold>\<open>Theories and sources\<close> (paths under \<^verbatim>\<open>src/packages/\<close>).
  \<^item> \<open>Prelude\<close>: hash maps as association lists with distinct keys (\<open>hmap\<close>, \<open>hm_get\<close>,
    \<open>hm_insert\<close>, ...), the \<open>outcome\<close> type of code that may panic, string splitting.
  \<^item> \<open>ZSets\<close> (\<^verbatim>\<open>ssp/src/algebra/zset.rs\<close>): weights are 64-bit words with wrap-around.
  \<^item> \<open>Keys\<close> (\<^verbatim>\<open>types/key.rs, types/path.rs, lib.rs\<close>): row keys, query ids, paths.
  \<^item> \<open>Floats\<close>, \<open>Values\<close> (\<^verbatim>\<open>types/value.rs, eval/value_ops.rs, eval/value_ref.rs\<close>):
    IEEE doubles by their bits (ordering, conversion from integers), dynamic values, JSON.
  \<^item> \<open>Snapshot_Hash\<close>, \<open>Range_Hash\<close> (\<^verbatim>\<open>ssp-protocol/src/snapshot_hash.rs, range_hash.rs\<close>):
    canonical record texts, digests, set hashes and their split into key ranges.
  \<^item> \<open>Ordered_Sets\<close>, \<open>Sort_Keys\<close>, \<open>Indexes\<close> (\<^verbatim>\<open>operator/top_k.rs\<close>'s keys,
    \<^verbatim>\<open>circuit/index.rs\<close>): the ordered-set interface (locale \<open>ordered_set\<close>), directed
    sort keys with their comparison, secondary indexes.
  \<^item> \<open>Row_Store\<close>, \<open>Store_Invariant\<close>, \<open>Index_Invariant\<close> (\<^verbatim>\<open>circuit/store.rs\<close>):
    collections of rows with digests, membership, catch-up hash and indexes; every operation, the
    collection's invariant, and the state a collection reaches by any history of operations.
  \<^item> \<open>Row_Codec\<close>, \<open>Row_Encoding\<close>, \<open>Row_Reading\<close> (\<^verbatim>\<open>circuit/row_codec.rs\<close>, the
    flat backend of \<^verbatim>\<open>eval/value_ref.rs\<close>): the byte layout of a stored row; what is encoded
    decodes to the same row, and a field read from the bytes is the field of the row.
  \<^item> \<open>Row_Table\<close>, \<open>Table_Refinement\<close>, \<open>Table_Checkpoints\<close>
    (\<^verbatim>\<open>circuit/row_table.rs, circuit/arena.rs\<close>): slots of fixed width in an append-only heap arena
    found through a hash index; the table refines a finite map of rows, and its checkpoint marks
    name exactly the rows changed since the last file.
  \<^item> \<open>Images\<close>, \<open>Image_Loading\<close> (\<^verbatim>\<open>circuit/checkpoint.rs\<close>): the image, delta and
    container files, their writers and readers with every error; \<open>Image_Layout\<close>,
    \<open>Image_Base\<close>, \<open>Image_Chain\<close>, \<open>Image_History\<close>, \<open>Image_Store\<close>: a base image reads
    back, a delta is absorbed, a chain of them restores the table it was written for, and a
    container restores a store.
  \<^item> \<open>Filters\<close> (\<^verbatim>\<open>operator/predicate.rs, filter.rs\<close>), \<open>Incremental\<close>
    (\<^verbatim>\<open>scan.rs, map.rs, union.rs, distinct.rs\<close>), \<open>Joins\<close> (\<^verbatim>\<open>join.rs\<close>),
    \<open>Witness_Joins\<close>, \<open>Witness_Invariant\<close>, \<open>Point_Witness\<close> (\<^verbatim>\<open>semi_join.rs,
    anti_join.rs, witness.rs\<close>), \<open>Top_K\<close>, \<open>Top_K_Invariant\<close> (\<^verbatim>\<open>top_k.rs\<close>): one
    group of definitions per operator (batch evaluation \<open>*_snapshot\<close> and incremental
    \<open>*_step\<close>), with the theorem that the accumulated output of the incremental operator is the
    batch evaluation of the accumulated input.
  \<^item> \<open>Index_Scans\<close>, \<open>Index_Planner\<close> (\<^verbatim>\<open>operator/index_scan.rs\<close>, \<^verbatim>\<open>IndexChoice\<close> in
    \<^verbatim>\<open>circuit/index.rs\<close>): sources that read a secondary index and the planner that puts them in place
    of scans and windows; \<open>Index_Windows\<close>, \<open>Index_Soundness\<close>, \<open>Index_Equivalence\<close>: what a
    positional read returns, and that a planned source shows the rows of the plan as written.
  \<^item> \<open>Plans\<close>, \<open>Operators\<close>, \<open>Graphs\<close>, \<open>Graph_Order\<close>, \<open>Registration\<close>
    (\<^verbatim>\<open>operator/plan.rs, operator/mod.rs, circuit/graph.rs\<close>): plans, the operator interface as a
    sum of the operators' states, the graph built from a plan with its evaluation order, and the
    first evaluation of a registered query.
  \<^item> \<open>Kahn\<close>: the topological sort that both \<^verbatim>\<open>circuit/graph.rs\<close> and
    \<^verbatim>\<open>schedule-core/src/dag.rs\<close> use; \<open>Workflow_Dag\<close>: the latter's operations.
  \<^item> \<open>Views\<close>, \<open>Stepping\<close>, \<open>Circuits\<close>, \<open>Ingest\<close> (\<^verbatim>\<open>circuit/view.rs,
    circuit/circuit.rs\<close>): a view's cache and subquery sets, stepping one graph, registration and
    sharing of graphs, ingesting a changeset and reconciliation.
  \<^item> \<open>Sharing\<close>, \<open>Sharing_Invariant\<close>: the registrations of a circuit under every operation
    (reachable circuits, by rule induction); \<open>Execution\<close>: no operation of a reachable circuit
    panics.
  \<^item> \<open>Maintenance\<close>, \<open>Row_Batches\<close>, \<open>View_Maintenance\<close>: the composition of all of the
    above. One pass over a graph's nodes emits at every node the difference of the evaluations of
    its plan; the first phase of an ingest reports exactly the changes of membership; and so a
    registered view holds, after every batch, what its plan evaluates to on the store. The plans
    hold no hash join and no repeated rows at a window or at the root, and the batches change no row
    in place: \<open>View_Drift\<close> shows that the code does not keep the views of the others.

  \<^bold>\<open>Conventions.\<close> Signed and unsigned machine integers are words and wrap as the release build
  does; \<^verbatim>\<open>usize\<close> counters of in-memory containers are naturals.  Strings are lists of UTF-8 bytes.
  A Rust panic (index out of range, \<^verbatim>\<open>unwrap\<close> of \<^verbatim>\<open>None\<close>) is the outcome
  \<open>Panic\<close>.  Loops are recursion over the data they consume; the loops of the topological sort and
  of the layering recurse on a measure, a chain of deltas is read by recursion on the number of files
  left, and the binary search over an object's fields is a \<open>partial_function\<close> whose return is
  proved; no fuel appears.  The stack limit of recursive decoders and the allocator's answers are
  parameters of the row codec and of the images.  Code outside the repository is a
  parameter: blake3 and the JSON printer (the \<open>codec\<close>, with law \<open>codec_ok\<close>), the standard
  hasher (\<open>en_hash\<close>), the ordered set of the \<^verbatim>\<open>indexset\<close> crate (\<open>set_ops\<close>, with the
  laws of locale \<open>ordered_set\<close>), the hash table of the \<^verbatim>\<open>hashbrown\<close> crate
  (\<open>ht_ops\<close>, with the laws of locale \<open>hash_table\<close>) and its hasher (\<open>te_hash\<close>); each law is met by a concrete instance in the witnesses.

  \<^bold>\<open>Not modelled.\<close> The circuit is modelled without secondary index definitions, so every source
  of a graph it runs is a full scan: the planner and its sources are modelled beside it. The reading of
  \<^verbatim>\<open>DEFINE INDEX\<close> texts, aggregates, memory accounting and
  the digests of view memberships are left out, as are the memory-mapped arena with its deferred
  checks of row bodies, the paths of checkpoint files and their statistics.  The SQL
  converter, the stream node, the scheduler service, the command line tool and the bindings are not
  modelled: they are parsing of an external language, network and file I/O around the engine.
\<close>

end
